(* ===== verification/Js_Prelude.thy ===== *)
theory Js_Prelude
  imports Main "HOL-Library.AList" "HOL-Library.Sublist" "HOL-Library.Multiset"
begin

text \<open>
  Shared base of the development: the JavaScript values the modelled code works on (parsed
  JSON, insertion-ordered \<^verbatim>\<open>Map\<close> and \<^verbatim>\<open>Set\<close>), the two interfaces the components share
  (a keyed store, a machine with an invariant), and the lemma collections the component
  proofs use.

  Numbers. Clock readings are \<^verbatim>\<open>Date.now()\<close> values and counters are small integers, so a
  finite number is an \<^typ>\<open>int\<close> (or a \<^typ>\<open>nat\<close> where the code only counts up from 0). A
  number that came from a file may also be non-finite, which the code tests for; that is the
  constructor \<open>JNonFinite\<close> of parsed JSON.
\<close>

named_theorems js_map "facts about insertion-ordered maps and sets"
named_theorems machine_inv "preservation lemmas of the component invariants"

type_synonym millis = int

subsection \<open>Parsed JSON\<close>

datatype json =
    JNull
  | JBool bool
  | JNum int
  | JNonFinite
  | JStr string
  | JArr "json list"
  | JObj "(string \<times> json) list"

text \<open>\<open>typeof v === "object" && v != null\<close>: arrays are objects too.\<close>

fun is_object :: "json \<Rightarrow> bool" where
  "is_object (JArr _) = True"
| "is_object (JObj _) = True"
| "is_object _ = False"

text \<open>Property access; \<^term>\<open>None\<close> is \<^verbatim>\<open>undefined\<close>. No modelled field is a property of an array.\<close>

fun jget :: "json \<Rightarrow> string \<Rightarrow> json option" where
  "jget (JObj ps) k = map_of ps k"
| "jget _ k = None"

text \<open>\<open>value ?? null\<close> on a property.\<close>

definition nullish :: "json option \<Rightarrow> bool" where
  "nullish v \<longleftrightarrow> v = None \<or> v = Some JNull"

fun as_string :: "json option \<Rightarrow> string option" where
  "as_string (Some (JStr s)) = Some s"
| "as_string _ = None"

fun as_finite :: "json option \<Rightarrow> int option" where
  "as_finite (Some (JNum n)) = Some n"
| "as_finite _ = None"

text \<open>A file on disk: absent, text that is not JSON, or text that parses to a value.\<close>

datatype disk_file = NoFile | Garbage | Contents json

subsection \<open>Insertion-ordered maps and sets\<close>

text \<open>
  A JavaScript \<^verbatim>\<open>Map\<close> keeps insertion order: setting an existing key keeps its place, a new
  key goes to the end. That is \<^const>\<open>AList.update\<close> on an association list.
\<close>

type_synonym ('k, 'v) js_map = "('k \<times> 'v) list"

abbreviation jm_get :: "('k, 'v) js_map \<Rightarrow> 'k \<Rightarrow> 'v option" where
  "jm_get m k \<equiv> map_of m k"

definition jm_set :: "('k, 'v) js_map \<Rightarrow> 'k \<Rightarrow> 'v \<Rightarrow> ('k, 'v) js_map" where
  "jm_set m k v = AList.update k v m"

definition jm_delete :: "('k, 'v) js_map \<Rightarrow> 'k \<Rightarrow> ('k, 'v) js_map" where
  "jm_delete m k = filter (\<lambda>(k', _). k' \<noteq> k) m"

definition jm_wf :: "('k, 'v) js_map \<Rightarrow> bool" where
  "jm_wf m \<longleftrightarrow> distinct (map fst m)"

definition set_add :: "'a list \<Rightarrow> 'a \<Rightarrow> 'a list" where
  "set_add xs x = (if x \<in> set xs then xs else xs @ [x])"

definition set_remove :: "'a list \<Rightarrow> 'a \<Rightarrow> 'a list" where
  "set_remove xs x = filter (\<lambda>y. y \<noteq> x) xs"

text \<open>\<^verbatim>\<open>[...new Set(xs)]\<close>: the first occurrence of each element, in order.\<close>

definition unique :: "'a list \<Rightarrow> 'a list" where
  "unique xs = foldl set_add [] xs"

lemma jm_get_set [simp, js_map]: "jm_get (jm_set m k v) = (jm_get m)(k \<mapsto> v)"
  by (simp add: jm_set_def update_conv' fun_eq_iff)

lemma jm_get_delete [simp, js_map]: "jm_get (jm_delete m k) = (jm_get m)(k := None)"
  by (induction m) (auto simp: jm_delete_def fun_eq_iff)

lemma jm_wf_Nil [simp, js_map]: "jm_wf []"
  by (simp add: jm_wf_def)

lemma jm_wf_set [simp, intro, js_map]: "jm_wf m \<Longrightarrow> jm_wf (jm_set m k v)"
  by (simp add: jm_wf_def jm_set_def distinct_update)

lemma jm_wf_delete [simp, intro, js_map]: "jm_wf m \<Longrightarrow> jm_wf (jm_delete m k)"
  by (induction m) (auto simp: jm_wf_def jm_delete_def)

lemma keys_jm_set: "fst ` set (jm_set m k v) = insert k (fst ` set m)"
  by (simp add: jm_set_def dom_update)

lemma keys_jm_delete: "fst ` set (jm_delete m k) = fst ` set m - {k}"
  by (auto simp: jm_delete_def)

lemma length_jm_set:
  "length (jm_set m k v) = (if k \<in> fst ` set m then length m else Suc (length m))"
  by (induction m) (auto simp: jm_set_def)

lemma jm_set_new: "k \<notin> fst ` set m \<Longrightarrow> jm_set m k v = m @ [(k, v)]"
  by (induction m) (auto simp: jm_set_def)

lemma jm_delete_absent: "k \<notin> fst ` set m \<Longrightarrow> jm_delete m k = m"
  by (force simp: jm_delete_def intro!: filter_True)

lemma jm_empty: "(\<And>k. jm_get m k = None) \<Longrightarrow> m = []"
  using map_of_eq_None_iff [of m] by (cases m) force+

lemma length_jm_delete:
  assumes "jm_wf m" and "k \<in> fst ` set m"
  shows "Suc (length (jm_delete m k)) = length m"
  using assms
proof (induction m)
  case Nil
  then show ?case by simp
next
  case (Cons p m)
  show ?case
  proof (cases "fst p = k")
    case True
    with Cons.prems have "k \<notin> fst ` set m" by (auto simp: jm_wf_def)
    then have "jm_delete m k = m" by (rule jm_delete_absent)
    with True show ?thesis by (cases p) (simp add: jm_delete_def)
  next
    case False
    with Cons show ?thesis by (cases p) (auto simp: jm_delete_def jm_wf_def)
  qed
qed

lemma set_set_add [simp, js_map]: "set (set_add xs x) = insert x (set xs)"
  by (auto simp: set_add_def)

lemma distinct_set_add [simp, js_map]: "distinct (set_add xs x) = distinct xs"
  by (auto simp: set_add_def)

lemma set_set_remove [simp, js_map]: "set (set_remove xs x) = set xs - {x}"
  by (auto simp: set_remove_def)

lemma distinct_set_remove [simp, js_map]: "distinct xs \<Longrightarrow> distinct (set_remove xs x)"
  by (simp add: set_remove_def)

lemma foldl_set_add [simp]: "set (foldl set_add xs ys) = set xs \<union> set ys"
  by (induction ys arbitrary: xs) auto

lemma foldl_set_add_Nil [simp]: "foldl set_add xs ys = [] \<longleftrightarrow> xs = [] \<and> ys = []"
  using foldl_set_add [of xs ys] by (metis Un_empty set_empty)

lemma distinct_foldl_set_add [simp]: "distinct xs \<Longrightarrow> distinct (foldl set_add xs ys)"
  by (induction ys arbitrary: xs) auto

lemma unique_set [simp]: "set (unique xs) = set xs"
  by (simp add: unique_def)

lemma unique_distinct [simp]: "distinct (unique xs)"
  by (simp add: unique_def)

lemma unique_Nil [simp]: "unique xs = [] \<longleftrightarrow> xs = []"
  by (simp add: unique_def)

subsection \<open>Interface: a store of values under keys\<close>

text \<open>
  What every keyed store of the host promises its clients: a lookup returns the last value
  put under the key, and nothing after a delete; other keys are untouched.
\<close>

locale keyed_store =
  fixes lookup :: "'s \<Rightarrow> 'k \<Rightarrow> 'v option"
    and put :: "'s \<Rightarrow> 'k \<Rightarrow> 'v \<Rightarrow> 's"
    and del :: "'s \<Rightarrow> 'k \<Rightarrow> 's"
    and ok :: "'s \<Rightarrow> bool"
  assumes lookup_put: "ok s \<Longrightarrow> lookup (put s k v) = (lookup s)(k \<mapsto> v)"
    and lookup_del: "ok s \<Longrightarrow> lookup (del s k) = (lookup s)(k := None)"
    and ok_put: "ok s \<Longrightarrow> ok (put s k v)"
    and ok_del: "ok s \<Longrightarrow> ok (del s k)"
begin

lemma put_put: "ok s \<Longrightarrow> lookup (put (put s k v) k w) = lookup (put s k w)"
  by (simp add: lookup_put ok_put)

lemma del_put: "ok s \<Longrightarrow> lookup (del (put s k v) k) = lookup (del s k)"
  by (simp add: lookup_put lookup_del ok_put)

lemma put_other: "ok s \<Longrightarrow> k' \<noteq> k \<Longrightarrow> lookup (put s k v) k' = lookup s k'"
  by (simp add: lookup_put)

lemma del_other: "ok s \<Longrightarrow> k' \<noteq> k \<Longrightarrow> lookup (del s k) k' = lookup s k'"
  by (simp add: lookup_del)

lemma ok_put_all: "ok s \<Longrightarrow> ok (foldl (\<lambda>s (k, v). put s k v) s kvs)"
  by (induction kvs arbitrary: s) (auto simp: ok_put)

lemma lookup_put_all:
  "ok s \<Longrightarrow> lookup (foldl (\<lambda>s (k, v). put s k v) s kvs) = lookup s ++ map_of (rev kvs)"
proof (induction kvs arbitrary: s)
  case Nil
  then show ?case by simp
next
  case (Cons p kvs)
  obtain k v where "p = (k, v)" by fastforce
  with Cons show ?case by (simp add: ok_put lookup_put map_add_upd_left fun_eq_iff map_add_def split: option.splits)
qed

end

interpretation js_map: keyed_store "map_of" jm_set jm_delete jm_wf
  by unfold_locales auto

subsection \<open>Interface: a store of records that carry their key\<close>

text \<open>
  The stores that keep a list of records and replace by a key read off the record: the same
  laws, with \<open>put\<close> taking the record alone. Only records that pass \<open>valid\<close> are promised back,
  because a store that goes through a file reads back what its parser accepts.
\<close>

locale record_store =
  fixes key_of :: "'v \<Rightarrow> 'k"
    and valid :: "'v \<Rightarrow> bool"
    and lookup :: "'s \<Rightarrow> 'k \<Rightarrow> 'v option"
    and put :: "'s \<Rightarrow> 'v \<Rightarrow> 's"
    and del :: "'s \<Rightarrow> 'k \<Rightarrow> 's"
    and ok :: "'s \<Rightarrow> bool"
  assumes lookup_put: "ok s \<Longrightarrow> valid v \<Longrightarrow> lookup (put s v) = (lookup s)(key_of v \<mapsto> v)"
    and lookup_del: "ok s \<Longrightarrow> lookup (del s k) = (lookup s)(k := None)"
    and ok_put: "ok s \<Longrightarrow> valid v \<Longrightarrow> ok (put s v)"
    and ok_del: "ok s \<Longrightarrow> ok (del s k)"
begin

lemma put_put: "ok s \<Longrightarrow> valid v \<Longrightarrow> valid w \<Longrightarrow> key_of v = key_of w \<Longrightarrow>
    lookup (put (put s v) w) = lookup (put s w)"
  by (simp add: lookup_put ok_put)

lemma del_put: "ok s \<Longrightarrow> valid v \<Longrightarrow> lookup (del (put s v) (key_of v)) = lookup (del s (key_of v))"
  by (simp add: lookup_put lookup_del ok_put)

lemma put_other: "ok s \<Longrightarrow> valid v \<Longrightarrow> k \<noteq> key_of v \<Longrightarrow> lookup (put s v) k = lookup s k"
  by (simp add: lookup_put)

lemma del_other: "ok s \<Longrightarrow> k' \<noteq> k \<Longrightarrow> lookup (del s k) k' = lookup s k'"
  by (simp add: lookup_del)

lemma ok_put_all: "ok s \<Longrightarrow> \<forall>v \<in> set vs. valid v \<Longrightarrow> ok (foldl put s vs)"
  by (induction vs arbitrary: s) (auto simp: ok_put)

lemma lookup_put_all:
  "ok s \<Longrightarrow> \<forall>v \<in> set vs. valid v \<Longrightarrow>
   lookup (foldl put s vs) = lookup s ++ map_of (rev (map (\<lambda>v. (key_of v, v)) vs))"
proof (induction vs arbitrary: s)
  case Nil
  then show ?case by simp
next
  case (Cons v vs)
  then show ?case
    by (simp add: ok_put lookup_put fun_eq_iff map_add_def split: option.splits)
qed

end

subsection \<open>Interface: a machine with an invariant\<close>

text \<open>
  A component whose operations are one step function. A law for one step gives the law for
  every run, and whatever a run keeps, a prefix of it keeps.
\<close>

locale invariant_machine =
  fixes step :: "'s \<Rightarrow> 'e \<Rightarrow> 's"
    and inv :: "'s \<Rightarrow> bool"
  assumes step_inv: "inv s \<Longrightarrow> inv (step s e)"
begin

lemma run_inv: "inv s \<Longrightarrow> inv (foldl step s es)"
  by (induction es arbitrary: s) (auto simp: step_inv)

lemma prefix_inv: "inv s \<Longrightarrow> prefix fs es \<Longrightarrow> inv (foldl step s fs)"
  by (rule run_inv)

lemma every_state_inv:
  "inv s \<Longrightarrow> t \<in> set (map (\<lambda>n. foldl step s (take n es)) [0..<Suc (length es)]) \<Longrightarrow> inv t"
  by (auto simp: run_inv)

end

text \<open>
  The same for a machine that is only promised events of a kind: the law holds for the events
  allowed, and a run of allowed events keeps the invariant.
\<close>

locale guarded_machine =
  fixes step :: "'s \<Rightarrow> 'e \<Rightarrow> 's"
    and allowed :: "'e \<Rightarrow> bool"
    and inv :: "'s \<Rightarrow> bool"
  assumes guarded_step: "inv s \<Longrightarrow> allowed e \<Longrightarrow> inv (step s e)"
begin

lemma run_inv: "inv s \<Longrightarrow> list_all allowed es \<Longrightarrow> inv (foldl step s es)"
  by (induction es arbitrary: s) (auto simp: guarded_step)

lemma prefix_inv: "inv s \<Longrightarrow> list_all allowed es \<Longrightarrow> prefix fs es \<Longrightarrow> inv (foldl step s fs)"
  by (rule run_inv) (auto simp: prefix_def)

end

sublocale invariant_machine \<subseteq> guarded: guarded_machine step "\<lambda>_. True" inv
  by unfold_locales (rule step_inv)

subsection \<open>Generic list facts\<close>

text \<open>\<^verbatim>\<open>xs.findIndex(P)\<close>, with \<^term>\<open>None\<close> for -1.\<close>

fun findIndex :: "('a \<Rightarrow> bool) \<Rightarrow> 'a list \<Rightarrow> nat option" where
  "findIndex P [] = None"
| "findIndex P (x # xs) = (if P x then Some 0 else map_option Suc (findIndex P xs))"

lemma findIndex_Some:
  "findIndex P xs = Some i \<Longrightarrow> i < length xs \<and> P (xs ! i) \<and> (\<forall>j < i. \<not> P (xs ! j))"
proof (induction xs arbitrary: i)
  case Nil
  then show ?case by simp
next
  case (Cons x xs)
  then show ?case by (auto split: if_splits simp: nth_Cons split: nat.splits)
qed

lemma findIndex_None: "findIndex P xs = None \<longleftrightarrow> (\<forall>x \<in> set xs. \<not> P x)"
  by (induction xs) auto

lemma mset_remove_nth:
  "i < length xs \<Longrightarrow> add_mset (xs ! i) (mset (take i xs @ drop (Suc i) xs)) = mset xs"
proof -
  assume i: "i < length xs"
  have "mset xs = mset (take i xs @ xs ! i # drop (Suc i) xs)" using id_take_nth_drop[OF i] by simp
  then show ?thesis by simp
qed

lemma find_filter_None: "find P xs = None \<longleftrightarrow> filter P xs = []"
  by (induction xs) auto

lemma find_append: "find P (xs @ ys) = (case find P xs of None \<Rightarrow> find P ys | Some x \<Rightarrow> Some x)"
  by (induction xs) auto

lemma find_SomeD: "find P xs = Some x \<Longrightarrow> x \<in> set xs \<and> P x"
  by (induction xs) (auto split: if_splits)

lemma find_weaker_filter:
  assumes "\<And>x. P x \<Longrightarrow> Q x"
  shows "find P (filter Q xs) = find P xs"
  using assms by (induction xs) auto

lemma find_none_filter: "\<forall>x. P x \<longrightarrow> \<not> Q x \<Longrightarrow> find P (filter Q xs) = None"
  by (induction xs) auto

text \<open>Replacing by key in a list of records: drop the old ones, append the new one.\<close>

lemma filter_unique_key: "distinct (map f xs) \<Longrightarrow> x \<in> set xs \<Longrightarrow> filter (\<lambda>y. f y = f x) xs = [x]"
proof (induction xs)
  case (Cons y ys)
  then show ?case by (cases "y = x") (auto simp: filter_empty_conv image_iff)
qed simp

lemma find_filter_key:
  "find (\<lambda>x. K x = k') (filter (\<lambda>x. K x \<noteq> k) xs) = (if k' = k then None else find (\<lambda>x. K x = k') xs)"
  by (induction xs) auto

lemma find_replace:
  "K y = k \<Longrightarrow> find (\<lambda>x. K x = k') (filter (\<lambda>x. K x \<noteq> k) xs @ [y]) =
    (if k' = k then Some y else find (\<lambda>x. K x = k') xs)"
  by (auto simp: find_append find_filter_key split: option.splits)

lemma find_key_None: "find (\<lambda>x. K x = k) xs = None \<longleftrightarrow> (\<forall>x \<in> set xs. K x \<noteq> k)"
  by (induction xs) auto

lemma filter_other_keys: "find (\<lambda>x. K x = k) xs = None \<Longrightarrow> filter (\<lambda>x. K x \<noteq> k) xs = xs"
  by (simp add: find_key_None)

end
