(* ===== verification/File_Lock.thy ===== *)
theory File_Lock
  imports Js_Prelude
begin

text \<open>
  The file-operation lock of the agent's file tools,
  \<^verbatim>\<open>src/lib/agent/tools/core/file-operation-lock-manager.ts\<close>: many calls may hold locks on
  different files, or one call holds the exclusive lock; the rest wait in one queue.

  A call of \<^verbatim>\<open>waitForLock\<close> or \<^verbatim>\<open>waitForExclusiveLock\<close> is identified by a number, which
  also stands for the identity of its \<^verbatim>\<open>wrappedResolve\<close> closure in the queue. Its life is a
  \<open>call_state\<close>. The code between two awaits is one step: the call itself, the abort
  listener, the continuation after the promise resolved (which reads \<^verbatim>\<open>ctx.signal.aborted\<close>
  and \<^verbatim>\<open>wasGranted\<close>), and the disposal of the returned lock.
\<close>

subsection \<open>State\<close>

type_synonym call_id = nat

datatype waiter =
    FileWaiter string call_id
  | ExclusiveWaiter call_id

fun waiter_call :: "waiter \<Rightarrow> call_id" where
  "waiter_call (FileWaiter _ c) = c"
| "waiter_call (ExclusiveWaiter c) = c"

text \<open>
  \<open>Granted\<dots>\<close>: \<^verbatim>\<open>wrappedResolve\<close> ran (\<^verbatim>\<open>wasGranted\<close> is true) and the continuation has
  not run yet. The flag of a file call is \<^verbatim>\<open>options?.trackAcquisitionOrder === true\<close>; the
  number of a held file lock is its \<^verbatim>\<open>acquisitionOrder\<close>. \<open>Threw\<close> is
  \<^verbatim>\<open>ToolCallAbortedError\<close>.
\<close>

datatype call_state =
    NotCalled
  | WaitingFile string bool
  | WaitingExclusive
  | GrantedFile string bool
  | GrantedExclusive
  | HoldsFile string "nat option"
  | HoldsExclusive
  | Released
  | Threw

record lock_manager =
  lockedFiles :: "string list"
  exclusiveLockActive :: bool
  waitQueue :: "waiter list"
  nextAcquisitionOrder :: nat
  calls :: "call_id \<Rightarrow> call_state"

definition new_lock_manager :: lock_manager where
  "new_lock_manager = \<lparr>lockedFiles = [], exclusiveLockActive = False, waitQueue = [],
     nextAcquisitionOrder = 0, calls = (\<lambda>_. NotCalled)\<rparr>"

definition activeFileOperationCount :: "lock_manager \<Rightarrow> nat" where
  "activeFileOperationCount s = length (lockedFiles s)"

definition hasExclusiveWaiterAhead :: "lock_manager \<Rightarrow> bool" where
  "hasExclusiveWaiterAhead s \<longleftrightarrow> (\<exists>w \<in> set (waitQueue s). \<exists>c. w = ExclusiveWaiter c)"

definition set_call :: "call_id \<Rightarrow> call_state \<Rightarrow> lock_manager \<Rightarrow> lock_manager" where
  "set_call c x s = s\<lparr>calls := (calls s)(c := x)\<rparr>"

subsection \<open>Operations\<close>

fun resolve_waiter :: "call_state \<Rightarrow> call_state" where
  "resolve_waiter (WaitingFile p t) = GrantedFile p t"
| "resolve_waiter WaitingExclusive = GrantedExclusive"
| "resolve_waiter x = x"

function processQueue :: "lock_manager \<Rightarrow> lock_manager" where
  "processQueue s =
    (case waitQueue s of
       [] \<Rightarrow> s
     | ExclusiveWaiter c # rest \<Rightarrow>
         (if activeFileOperationCount s > 0 \<or> exclusiveLockActive s then s
          else set_call c (resolve_waiter (calls s c))
                 (s\<lparr>exclusiveLockActive := True, waitQueue := rest\<rparr>))
     | FileWaiter p c # rest \<Rightarrow>
         (if exclusiveLockActive s \<or> p \<in> set (lockedFiles s) then s
          else processQueue (set_call c (resolve_waiter (calls s c))
                 (s\<lparr>lockedFiles := set_add (lockedFiles s) p, waitQueue := rest\<rparr>))))"
  by pat_completeness auto
termination
  by (relation "measure (\<lambda>s. length (waitQueue s))") (auto simp: set_call_def)

declare processQueue.simps [simp del]

definition releaseFileLock :: "string \<Rightarrow> lock_manager \<Rightarrow> lock_manager" where
  "releaseFileLock p s = processQueue (s\<lparr>lockedFiles := set_remove (lockedFiles s) p\<rparr>)"

definition releaseExclusiveLock :: "lock_manager \<Rightarrow> lock_manager" where
  "releaseExclusiveLock s = processQueue (s\<lparr>exclusiveLockActive := False\<rparr>)"

text \<open>The tail of \<^verbatim>\<open>waitForLock\<close> that hands the lock out, numbering it on request.\<close>

definition hand_out_file :: "call_id \<Rightarrow> string \<Rightarrow> bool \<Rightarrow> lock_manager \<Rightarrow> lock_manager" where
  "hand_out_file c p track s =
    (if track
     then set_call c (HoldsFile p (Some (Suc (nextAcquisitionOrder s))))
            (s\<lparr>nextAcquisitionOrder := Suc (nextAcquisitionOrder s)\<rparr>)
     else set_call c (HoldsFile p None) s)"

definition waitForLock :: "call_id \<Rightarrow> string \<Rightarrow> bool \<Rightarrow> bool \<Rightarrow> lock_manager \<Rightarrow> lock_manager" where
  "waitForLock c p track aborted s =
    (if aborted then set_call c Threw s
     else if exclusiveLockActive s \<or> p \<in> set (lockedFiles s) \<or> hasExclusiveWaiterAhead s
       then set_call c (WaitingFile p track) (s\<lparr>waitQueue := waitQueue s @ [FileWaiter p c]\<rparr>)
     else hand_out_file c p track (s\<lparr>lockedFiles := set_add (lockedFiles s) p\<rparr>))"

definition waitForExclusiveLock :: "call_id \<Rightarrow> bool \<Rightarrow> lock_manager \<Rightarrow> lock_manager" where
  "waitForExclusiveLock c aborted s =
    (if aborted then set_call c Threw s
     else if exclusiveLockActive s \<or> activeFileOperationCount s > 0
       then set_call c WaitingExclusive (s\<lparr>waitQueue := waitQueue s @ [ExclusiveWaiter c]\<rparr>)
     else set_call c HoldsExclusive (s\<lparr>exclusiveLockActive := True\<rparr>))"

text \<open>
  The abort listener takes the waiter out of the queue and resolves the promise; the
  continuation then finds the signal aborted and the lock not granted, and throws. The
  listener of a granted call is gone.
\<close>

definition onAbort :: "call_id \<Rightarrow> lock_manager \<Rightarrow> lock_manager" where
  "onAbort c s =
    (case calls s c of
       WaitingFile p t \<Rightarrow>
         set_call c Threw (s\<lparr>waitQueue := remove1 (FileWaiter p c) (waitQueue s)\<rparr>)
     | WaitingExclusive \<Rightarrow>
         set_call c Threw (s\<lparr>waitQueue := remove1 (ExclusiveWaiter c) (waitQueue s)\<rparr>)
     | _ \<Rightarrow> s)"

text \<open>The continuation of a granted call: a signal aborted in the meantime gives the lock back.\<close>

definition resume :: "call_id \<Rightarrow> bool \<Rightarrow> lock_manager \<Rightarrow> lock_manager" where
  "resume c aborted s =
    (case calls s c of
       GrantedFile p t \<Rightarrow>
         (if aborted then releaseFileLock p (set_call c Threw s) else hand_out_file c p t s)
     | GrantedExclusive \<Rightarrow>
         (if aborted then releaseExclusiveLock (set_call c Threw s)
          else set_call c HoldsExclusive s)
     | _ \<Rightarrow> s)"

text \<open>Disposing a lock twice releases once.\<close>

definition dispose :: "call_id \<Rightarrow> lock_manager \<Rightarrow> lock_manager" where
  "dispose c s =
    (case calls s c of
       HoldsFile p t \<Rightarrow> releaseFileLock p (set_call c Released s)
     | HoldsExclusive \<Rightarrow> releaseExclusiveLock (set_call c Released s)
     | _ \<Rightarrow> s)"

datatype lock_event =
    WaitForLock call_id string bool bool
  | WaitForExclusiveLock call_id bool
  | OnAbort call_id
  | Resume call_id bool
  | Dispose call_id

text \<open>A call number is used for one call only, as each call makes its own closures.\<close>

fun lock_step :: "lock_manager \<Rightarrow> lock_event \<Rightarrow> lock_manager" where
  "lock_step s (WaitForLock c p track aborted) =
     (if calls s c = NotCalled then waitForLock c p track aborted s else s)"
| "lock_step s (WaitForExclusiveLock c aborted) =
     (if calls s c = NotCalled then waitForExclusiveLock c aborted s else s)"
| "lock_step s (OnAbort c) = onAbort c s"
| "lock_step s (Resume c aborted) = resume c aborted s"
| "lock_step s (Dispose c) = dispose c s"

subsection \<open>Ownership and the invariant\<close>

fun owned_file :: "call_state \<Rightarrow> string option" where
  "owned_file (GrantedFile p t) = Some p"
| "owned_file (HoldsFile p t) = Some p"
| "owned_file _ = None"

fun owns_exclusive :: "call_state \<Rightarrow> bool" where
  "owns_exclusive GrantedExclusive = True"
| "owns_exclusive HoldsExclusive = True"
| "owns_exclusive _ = False"

fun waiting_as :: "call_id \<Rightarrow> call_state \<Rightarrow> waiter option" where
  "waiting_as c (WaitingFile p t) = Some (FileWaiter p c)"
| "waiting_as c WaitingExclusive = Some (ExclusiveWaiter c)"
| "waiting_as c _ = None"

definition lock_core :: "lock_manager \<Rightarrow> bool" where
  "lock_core s \<longleftrightarrow>
     distinct (lockedFiles s)
   \<and> (\<forall>p. p \<in> set (lockedFiles s) \<longleftrightarrow> (\<exists>c. owned_file (calls s c) = Some p))
   \<and> (\<forall>p c d. owned_file (calls s c) = Some p \<longrightarrow> owned_file (calls s d) = Some p \<longrightarrow> c = d)
   \<and> (exclusiveLockActive s \<longleftrightarrow> (\<exists>c. owns_exclusive (calls s c)))
   \<and> (\<forall>c d. owns_exclusive (calls s c) \<longrightarrow> owns_exclusive (calls s d) \<longrightarrow> c = d)
   \<and> (exclusiveLockActive s \<longrightarrow> lockedFiles s = [])
   \<and> distinct (waitQueue s)
   \<and> (\<forall>w. w \<in> set (waitQueue s) \<longleftrightarrow> (\<exists>c. waiting_as c (calls s c) = Some w))"

definition no_stall :: "lock_manager \<Rightarrow> bool" where
  "no_stall s \<longleftrightarrow> (waitQueue s \<noteq> [] \<longrightarrow> exclusiveLockActive s \<or> lockedFiles s \<noteq> [])"

definition lock_inv :: "lock_manager \<Rightarrow> bool" where
  "lock_inv s \<longleftrightarrow> lock_core s \<and> no_stall s"

lemma waiting_as_Some:
  "waiting_as c x = Some w \<longleftrightarrow>
     (\<exists>p t. x = WaitingFile p t \<and> w = FileWaiter p c) \<or> x = WaitingExclusive \<and> w = ExclusiveWaiter c"
  by (cases x) auto

lemma owned_file_Some:
  "owned_file x = Some p \<longleftrightarrow> (\<exists>t. x = GrantedFile p t) \<or> (\<exists>n. x = HoldsFile p n)"
  by (cases x) auto

lemma owns_exclusive_iff: "owns_exclusive x \<longleftrightarrow> x = GrantedExclusive \<or> x = HoldsExclusive"
  by (cases x) auto

lemma queued_file_call:
  "lock_core s \<Longrightarrow> FileWaiter p c \<in> set (waitQueue s) \<Longrightarrow> \<exists>t. calls s c = WaitingFile p t"
  by (auto simp: lock_core_def waiting_as_Some)

lemma queued_exclusive_call:
  "lock_core s \<Longrightarrow> ExclusiveWaiter c \<in> set (waitQueue s) \<Longrightarrow> calls s c = WaitingExclusive"
  by (auto simp: lock_core_def waiting_as_Some)

text \<open>
  Every operation changes one call \<open>c\<close> and, with it, the locks and the queue. The others'
  part of the invariant is \<open>others_own\<close>, \<open>others_exclusive\<close>, \<open>others_wait\<close>.
\<close>

definition others_own :: "lock_manager \<Rightarrow> call_id \<Rightarrow> string set" where
  "others_own s c = {p. \<exists>d. d \<noteq> c \<and> owned_file (calls s d) = Some p}"

definition others_exclusive :: "lock_manager \<Rightarrow> call_id \<Rightarrow> bool" where
  "others_exclusive s c \<longleftrightarrow> (\<exists>d. d \<noteq> c \<and> owns_exclusive (calls s d))"

definition others_wait :: "lock_manager \<Rightarrow> call_id \<Rightarrow> waiter set" where
  "others_wait s c = {w. \<exists>d. d \<noteq> c \<and> waiting_as d (calls s d) = Some w}"

lemma core_lockedFiles:
  "lock_core s \<Longrightarrow> set (lockedFiles s) = set_option (owned_file (calls s c)) \<union> others_own s c"
  by (auto simp: lock_core_def others_own_def set_eq_iff elem_set)

lemma core_owned_unique:
  "lock_core s \<Longrightarrow> owned_file (calls s c) = Some p \<Longrightarrow> p \<notin> others_own s c"
  unfolding lock_core_def others_own_def by blast

lemma core_exclusive:
  "lock_core s \<Longrightarrow> exclusiveLockActive s \<longleftrightarrow> owns_exclusive (calls s c) \<or> others_exclusive s c"
  unfolding lock_core_def others_exclusive_def by metis

lemma core_exclusive_unique:
  "lock_core s \<Longrightarrow> owns_exclusive (calls s c) \<Longrightarrow> \<not> others_exclusive s c"
  unfolding lock_core_def others_exclusive_def by blast

lemma core_waitQueue:
  "lock_core s \<Longrightarrow> set (waitQueue s) = set_option (waiting_as c (calls s c)) \<union> others_wait s c"
  unfolding lock_core_def others_wait_def by (auto simp: set_eq_iff elem_set)

lemma others_wait_call: "w \<in> others_wait s c \<Longrightarrow> waiter_call w \<noteq> c"
  by (auto simp: others_wait_def waiting_as_Some)

lemma core_update:
  assumes core: "lock_core s"
    and L: "distinct L" "set L = set_option (owned_file x) \<union> others_own s c"
      "\<And>p. owned_file x = Some p \<Longrightarrow> p \<notin> others_own s c"
    and E: "E \<longleftrightarrow> owns_exclusive x \<or> others_exclusive s c"
      "owns_exclusive x \<Longrightarrow> \<not> others_exclusive s c" "E \<Longrightarrow> L = []"
    and Q: "distinct Q" "set Q = set_option (waiting_as c x) \<union> others_wait s c"
  shows "lock_core \<lparr>lockedFiles = L, exclusiveLockActive = E, waitQueue = Q,
           nextAcquisitionOrder = n, calls = (calls s)(c := x)\<rparr>"
proof -
  have u1: "owned_file (calls s a) = Some p \<Longrightarrow> owned_file (calls s b) = Some p \<Longrightarrow> a = b" for a b p
    using core unfolding lock_core_def by blast
  have u2: "owns_exclusive (calls s a) \<Longrightarrow> owns_exclusive (calls s b) \<Longrightarrow> a = b" for a b
    using core unfolding lock_core_def by blast
  have f: "p \<in> set L \<longleftrightarrow> (\<exists>d. owned_file (((calls s)(c := x)) d) = Some p)" for p
    using L(2) by (auto simp: others_own_def elem_set)
  have e: "E \<longleftrightarrow> (\<exists>d. owns_exclusive (((calls s)(c := x)) d))"
    using E(1) by (auto simp: others_exclusive_def)
  have w: "v \<in> set Q \<longleftrightarrow> (\<exists>d. waiting_as d (((calls s)(c := x)) d) = Some v)" for v
    using Q(2) by (auto simp: others_wait_def elem_set)
  have v1: "owned_file (((calls s)(c := x)) a) = Some p \<Longrightarrow>
      owned_file (((calls s)(c := x)) b) = Some p \<Longrightarrow> a = b" for a b p
    using u1 L(3) by (auto simp: others_own_def split: if_splits)
  have v2: "owns_exclusive (((calls s)(c := x)) a) \<Longrightarrow> owns_exclusive (((calls s)(c := x)) b) \<Longrightarrow> a = b"
    for a b
    using u2 E(2) by (auto simp: others_exclusive_def split: if_splits)
  show ?thesis
    unfolding lock_core_def lock_manager.simps
    using L(1) f v1 e v2 E(3) Q(1) w by blast
qed

lemma lock_state_eta:
  "lockedFiles t = L \<Longrightarrow> exclusiveLockActive t = E \<Longrightarrow> waitQueue t = Q \<Longrightarrow>
   nextAcquisitionOrder t = n \<Longrightarrow> calls t = f \<Longrightarrow>
   t = \<lparr>lockedFiles = L, exclusiveLockActive = E, waitQueue = Q, nextAcquisitionOrder = n, calls = f\<rparr>"
  by simp

lemma core_update':
  assumes "lock_core s" and "calls t = (calls s)(c := x)"
    and "distinct (lockedFiles t)" "set (lockedFiles t) = set_option (owned_file x) \<union> others_own s c"
      "\<And>p. owned_file x = Some p \<Longrightarrow> p \<notin> others_own s c"
    and "exclusiveLockActive t \<longleftrightarrow> owns_exclusive x \<or> others_exclusive s c"
      "owns_exclusive x \<Longrightarrow> \<not> others_exclusive s c" "exclusiveLockActive t \<Longrightarrow> lockedFiles t = []"
    and "distinct (waitQueue t)" "set (waitQueue t) = set_option (waiting_as c x) \<union> others_wait s c"
  shows "lock_core t"
  by (subst lock_state_eta[OF refl refl refl refl assms(2)]) (rule core_update; fact assms)

lemma core_distinct:
  "lock_core s \<Longrightarrow> distinct (lockedFiles s) \<and> distinct (waitQueue s) \<and>
     (exclusiveLockActive s \<longrightarrow> lockedFiles s = [])"
  by (simp add: lock_core_def)

lemmas core_facts = core_lockedFiles core_owned_unique core_exclusive core_exclusive_unique
  core_waitQueue

lemma core_rest:
  assumes core: "lock_core s" and q: "waitQueue s = w # rest"
    and c: "waiting_as c (calls s c) = Some w"
  shows "set rest = others_wait s c" and "distinct rest"
proof -
  have "w \<notin> set rest" "distinct rest" using core q by (auto simp: lock_core_def)
  moreover have "waiter_call w = c" using c by (auto simp: waiting_as_Some)
  then have "w \<notin> others_wait s c" using others_wait_call by blast
  moreover have "insert w (set rest) = insert w (others_wait s c)"
    using core_waitQueue[OF core, of c] q c by simp
  ultimately show "set rest = others_wait s c" "distinct rest"
    by (auto dest: insert_ident)
qed

lemma core_grant_file:
  assumes core: "lock_core s" and q: "waitQueue s = FileWaiter p c # rest"
    and free: "\<not> exclusiveLockActive s" "p \<notin> set (lockedFiles s)"
  shows "lock_core (set_call c (resolve_waiter (calls s c))
           (s\<lparr>lockedFiles := set_add (lockedFiles s) p, waitQueue := rest\<rparr>))"
proof -
  from core q obtain t where c: "calls s c = WaitingFile p t"
    using queued_file_call by fastforce
  have "set rest = others_wait s c" "distinct rest"
    using core_rest[OF core q, of c] c by auto
  with c q free core_facts[OF core, of c] core_distinct[OF core] show ?thesis
    by (intro core_update'[OF core]) (auto simp: set_call_def)
qed

lemma core_grant_exclusive:
  assumes core: "lock_core s" and q: "waitQueue s = ExclusiveWaiter c # rest"
    and free: "\<not> exclusiveLockActive s" "lockedFiles s = []"
  shows "lock_core (set_call c (resolve_waiter (calls s c))
           (s\<lparr>exclusiveLockActive := True, waitQueue := rest\<rparr>))"
proof -
  from core q have c: "calls s c = WaitingExclusive"
    using queued_exclusive_call by fastforce
  have "set rest = others_wait s c" "distinct rest"
    using core_rest[OF core q, of c] c by auto
  with c q free core_facts[OF core, of c] core_distinct[OF core] show ?thesis
    by (intro core_update'[OF core]) (auto simp: set_call_def)
qed

lemma processQueue_core [machine_inv]: "lock_core s \<Longrightarrow> lock_core (processQueue s)"
proof (induction s rule: processQueue.induct)
  case (1 s)
  show ?case
  proof (cases "waitQueue s")
    case Nil
    with "1.prems" show ?thesis by (simp add: processQueue.simps)
  next
    case (Cons w rest)
    show ?thesis
    proof (cases w)
      case (FileWaiter p c)
      with Cons "1" core_grant_file[of s p c rest] show ?thesis
        by (subst processQueue.simps) auto
    next
      case (ExclusiveWaiter c)
      with Cons "1.prems" core_grant_exclusive[of s c rest] show ?thesis
        by (subst processQueue.simps) (auto simp: activeFileOperationCount_def)
    qed
  qed
qed

lemma processQueue_no_stall: "no_stall (processQueue s)"
proof (induction s rule: processQueue.induct)
  case (1 s)
  show ?case
  proof (cases "waitQueue s")
    case Nil
    then show ?thesis by (simp add: processQueue.simps no_stall_def)
  next
    case (Cons w rest)
    with "1" show ?thesis
      by (cases w; subst processQueue.simps)
        (auto simp: no_stall_def activeFileOperationCount_def set_call_def)
  qed
qed

lemma processQueue_inv: "lock_core s \<Longrightarrow> lock_inv (processQueue s)"
  by (simp add: lock_inv_def processQueue_core processQueue_no_stall)

lemma core_release_file:
  assumes core: "lock_core s" and c: "owned_file (calls s c) = Some p"
    and x: "x = Threw \<or> x = Released"
  shows "lock_core (set_call c x s\<lparr>lockedFiles := set_remove (lockedFiles s) p\<rparr>)"
proof -
  from c have "\<not> owns_exclusive (calls s c)" "waiting_as c (calls s c) = None"
    by (auto simp: owned_file_Some)
  with c x core_facts[OF core, of c] core_distinct[OF core] show ?thesis
    by (intro core_update'[OF core]) (auto simp: set_call_def set_remove_def)
qed

lemma core_release_exclusive:
  assumes core: "lock_core s" and c: "owns_exclusive (calls s c)"
    and x: "x = Threw \<or> x = Released"
  shows "lock_core (set_call c x s\<lparr>exclusiveLockActive := False\<rparr>)"
proof -
  from c have "owned_file (calls s c) = None" "waiting_as c (calls s c) = None"
    by (auto simp: owns_exclusive_iff)
  with c x core_facts[OF core, of c] core_distinct[OF core] show ?thesis
    by (intro core_update'[OF core]) (auto simp: set_call_def)
qed

lemma core_frame:
  assumes core: "lock_core s" and old: "owned_file (calls s c) = owned_file x"
      "owns_exclusive (calls s c) = owns_exclusive x" "waiting_as c (calls s c) = waiting_as c x"
  shows "lock_core (set_call c x s)"
  using old core_facts[OF core, of c] core_distinct[OF core]
  by (intro core_update'[OF core]) (auto simp: set_call_def)

lemma core_order: "lock_core (s\<lparr>nextAcquisitionOrder := n\<rparr>) = lock_core s"
  by (simp add: lock_core_def)

lemma core_hand_out:
  assumes core: "lock_core s" and c: "calls s c = GrantedFile p t"
  shows "lock_core (hand_out_file c p track s)"
  using core_frame[OF core, of c "HoldsFile p None"] c
    core_frame[of "s\<lparr>nextAcquisitionOrder := Suc (nextAcquisitionOrder s)\<rparr>" c
      "HoldsFile p (Some (Suc (nextAcquisitionOrder s)))"] core
  by (simp add: hand_out_file_def core_order)

lemma core_take_file:
  assumes core: "lock_core s" and c: "calls s c = NotCalled"
    and free: "\<not> exclusiveLockActive s" "p \<notin> set (lockedFiles s)"
  shows "lock_core (hand_out_file c p track (s\<lparr>lockedFiles := set_add (lockedFiles s) p\<rparr>))"
  using c free core_facts[OF core, of c] core_distinct[OF core]
  unfolding hand_out_file_def
  by (cases track; intro core_update'[OF core]) (auto simp: set_call_def)

lemma core_enqueue:
  assumes core: "lock_core s" and c: "calls s c = NotCalled" and x: "waiting_as c x = Some w"
  shows "lock_core (set_call c x (s\<lparr>waitQueue := waitQueue s @ [w]\<rparr>))"
proof -
  from x have x': "owned_file x = None" "\<not> owns_exclusive x" "waiter_call w = c"
    by (auto simp: waiting_as_Some)
  then have "w \<notin> others_wait s c" using others_wait_call by blast
  with c x x' core_facts[OF core, of c] core_distinct[OF core] show ?thesis
    by (intro core_update'[OF core]) (auto simp: set_call_def)
qed

lemma core_withdraw:
  assumes core: "lock_core s" and c: "waiting_as c (calls s c) = Some w"
  shows "lock_core (set_call c Threw (s\<lparr>waitQueue := remove1 w (waitQueue s)\<rparr>))"
proof -
  from c have c': "owned_file (calls s c) = None" "\<not> owns_exclusive (calls s c)" "waiter_call w = c"
    by (auto simp: waiting_as_Some)
  then have "w \<notin> others_wait s c" using others_wait_call by blast
  with c c' core_facts[OF core, of c] core_distinct[OF core] show ?thesis
    by (intro core_update'[OF core]) (auto simp: set_call_def set_remove1_eq)
qed

lemma no_stall_remove1: "no_stall s \<Longrightarrow> no_stall (set_call c x (s\<lparr>waitQueue := remove1 w (waitQueue s)\<rparr>))"
  by (cases "waitQueue s") (auto simp: no_stall_def set_call_def)

lemma idle_queue_empty:
  "lock_inv s \<Longrightarrow> \<not> exclusiveLockActive s \<Longrightarrow> lockedFiles s = [] \<Longrightarrow> waitQueue s = []"
  by (auto simp: lock_inv_def no_stall_def)

lemma waitForLock_inv [machine_inv]:
  assumes inv: "lock_inv s" and c: "calls s c = NotCalled"
  shows "lock_inv (waitForLock c p track aborted s)"
proof -
  have core: "lock_core s" and ns: "no_stall s" using inv by (auto simp: lock_inv_def)
  consider (abort) aborted
    | (wait) "\<not> aborted" "exclusiveLockActive s \<or> p \<in> set (lockedFiles s) \<or> hasExclusiveWaiterAhead s"
    | (take) "\<not> aborted" "\<not> exclusiveLockActive s" "p \<notin> set (lockedFiles s)" "\<not> hasExclusiveWaiterAhead s"
    by blast
  then show ?thesis
  proof cases
    case abort
    with core_frame[OF core, of c Threw] c ns show ?thesis
      by (simp add: waitForLock_def lock_inv_def no_stall_def set_call_def)
  next
    case wait
    from wait(2) ns have "exclusiveLockActive s \<or> lockedFiles s \<noteq> []"
      by (auto simp: hasExclusiveWaiterAhead_def no_stall_def)
    with wait core_enqueue[OF core c, of "WaitingFile p track" "FileWaiter p c"] show ?thesis
      by (auto simp: waitForLock_def lock_inv_def no_stall_def set_call_def)
  next
    case take
    with core_take_file[OF core c take(2,3), of track] show ?thesis
      by (auto simp: waitForLock_def lock_inv_def no_stall_def hand_out_file_def set_call_def set_add_def)
  qed
qed

lemma waitForExclusiveLock_inv [machine_inv]:
  assumes inv: "lock_inv s" and c: "calls s c = NotCalled"
  shows "lock_inv (waitForExclusiveLock c aborted s)"
proof -
  have core: "lock_core s" and ns: "no_stall s" using inv by (auto simp: lock_inv_def)
  consider (abort) aborted
    | (wait) "\<not> aborted" "exclusiveLockActive s \<or> lockedFiles s \<noteq> []"
    | (take) "\<not> aborted" "\<not> exclusiveLockActive s" "lockedFiles s = []"
    by blast
  then show ?thesis
  proof cases
    case abort
    with core_frame[OF core, of c Threw] c ns show ?thesis
      by (simp add: waitForExclusiveLock_def lock_inv_def no_stall_def set_call_def)
  next
    case wait
    with core_enqueue[OF core c, of WaitingExclusive "ExclusiveWaiter c"] show ?thesis
      by (auto simp: waitForExclusiveLock_def activeFileOperationCount_def lock_inv_def
          no_stall_def set_call_def)
  next
    case take
    have "lock_core (set_call c HoldsExclusive (s\<lparr>exclusiveLockActive := True\<rparr>))"
      using c take core_facts[OF core, of c] core_distinct[OF core]
      by (intro core_update'[OF core]) (auto simp: set_call_def)
    with take show ?thesis
      by (auto simp: waitForExclusiveLock_def activeFileOperationCount_def lock_inv_def
          no_stall_def set_call_def)
  qed
qed

lemma releaseFileLock_inv:
  assumes "lock_core s" and "owned_file (calls s c) = Some p" and "x = Threw \<or> x = Released"
  shows "lock_inv (releaseFileLock p (set_call c x s))"
  using core_release_file[OF assms] processQueue_inv
  by (simp add: releaseFileLock_def set_call_def)

lemma releaseExclusiveLock_inv:
  assumes "lock_core s" and "owns_exclusive (calls s c)" and "x = Threw \<or> x = Released"
  shows "lock_inv (releaseExclusiveLock (set_call c x s))"
  using core_release_exclusive[OF assms] processQueue_inv
  by (simp add: releaseExclusiveLock_def set_call_def)

lemma onAbort_inv [machine_inv]: "lock_inv s \<Longrightarrow> lock_inv (onAbort c s)"
  using core_withdraw[of s c] no_stall_remove1[of s]
  by (auto simp: onAbort_def lock_inv_def split: call_state.splits)

lemma resume_inv [machine_inv]:
  assumes inv: "lock_inv s" shows "lock_inv (resume c aborted s)"
proof -
  have core: "lock_core s" and ns: "no_stall s" using inv by (auto simp: lock_inv_def)
  show ?thesis
  proof (cases "calls s c")
    case (GrantedFile p t)
    with core_hand_out[OF core GrantedFile, of t] releaseFileLock_inv[OF core, of c p Threw] ns
    show ?thesis
      by (auto simp: resume_def lock_inv_def hand_out_file_def no_stall_def set_call_def)
  next
    case GrantedExclusive
    with core_frame[OF core, of c HoldsExclusive] releaseExclusiveLock_inv[OF core, of c Threw] ns
    show ?thesis
      by (auto simp: resume_def lock_inv_def no_stall_def set_call_def)
  qed (use inv in \<open>auto simp: resume_def\<close>)
qed

lemma dispose_inv [machine_inv]:
  assumes inv: "lock_inv s" shows "lock_inv (dispose c s)"
proof -
  have core: "lock_core s" using inv by (simp add: lock_inv_def)
  show ?thesis
    using inv releaseFileLock_inv[OF core, of c _ Released] releaseExclusiveLock_inv[OF core, of c Released]
    by (cases "calls s c") (auto simp: dispose_def)
qed

lemma lock_step_inv: "lock_inv s \<Longrightarrow> lock_inv (lock_step s e)"
  by (cases e) (auto intro: machine_inv)

interpretation file_lock: invariant_machine lock_step lock_inv
  by unfold_locales (rule lock_step_inv)

lemma new_lock_manager_inv: "lock_inv new_lock_manager"
  by (simp add: lock_inv_def lock_core_def no_stall_def new_lock_manager_def)

lemmas reachable_lock_inv = file_lock.run_inv[OF new_lock_manager_inv]

subsection \<open>Order of granting\<close>

lemma processQueue_locks_mono: "set (lockedFiles s) \<subseteq> set (lockedFiles (processQueue s))"
proof (induction s rule: processQueue.induct)
  case (1 s)
  then show ?case
    by (subst processQueue.simps) (auto simp: set_call_def split: list.splits waiter.splits)
qed

text \<open>One run of the queue serves a prefix of it and stops at the first waiter it cannot serve.\<close>

lemma processQueue_prefix:
  "\<exists>n \<le> length (waitQueue s). waitQueue (processQueue s) = drop n (waitQueue s) \<and>
     (\<forall>p c. FileWaiter p c \<in> set (take n (waitQueue s)) \<longrightarrow> p \<in> set (lockedFiles (processQueue s))) \<and>
     (\<forall>c. ExclusiveWaiter c \<in> set (take n (waitQueue s)) \<longrightarrow> exclusiveLockActive (processQueue s))"
  (is "\<exists>n. ?P n s")
proof (induction s rule: processQueue.induct)
  case (1 s)
  have stop: "processQueue s = s \<Longrightarrow> ?case" by (auto intro: exI[of _ 0])
  show ?case
  proof (cases "waitQueue s")
    case Nil
    then show ?thesis by (intro stop) (simp add: processQueue.simps)
  next
    case (Cons w rest)
    show ?thesis
    proof (cases w)
      case (ExclusiveWaiter c)
      show ?thesis
      proof (cases "activeFileOperationCount s > 0 \<or> exclusiveLockActive s")
        case True
        with Cons ExclusiveWaiter show ?thesis by (intro stop) (subst processQueue.simps, simp)
      next
        case False
        with Cons ExclusiveWaiter show ?thesis
          by (subst (1 2 3) processQueue.simps) (auto simp: set_call_def intro!: exI[of _ 1])
      qed
    next
      case (FileWaiter p c)
      show ?thesis
      proof (cases "exclusiveLockActive s \<or> p \<in> set (lockedFiles s)")
        case True
        with Cons FileWaiter show ?thesis by (intro stop) (subst processQueue.simps, simp)
      next
        case False
        let ?t = "set_call c (resolve_waiter (calls s c))
                 (s\<lparr>lockedFiles := set_add (lockedFiles s) p, waitQueue := rest\<rparr>)"
        from False Cons FileWaiter have eq: "processQueue s = processQueue ?t"
          by (subst processQueue.simps) simp
        from "1.IH"[OF Cons FileWaiter False] obtain n where n: "?P n ?t" by blast
        have "p \<in> set (lockedFiles (processQueue ?t))"
          using processQueue_locks_mono[of ?t] by (auto simp: set_call_def)
        with n Cons FileWaiter show ?thesis
          unfolding eq by (intro exI[of _ "Suc n"]) (auto simp: set_call_def)
      qed
    qed
  qed
qed

subsection \<open>Properties\<close>

text \<open>
  Property C17. In every reachable state of the lock manager two calls that have been given
  the lock on the same file are the same call; and when a call has been given the exclusive
  lock no other call has any lock, for every interleaving of calls, aborts, continuations
  and disposals.
\<close>

theorem lock_mutual_exclusion:
  fixes es :: "lock_event list"
  defines "s \<equiv> foldl lock_step new_lock_manager es"
  assumes "c \<noteq> d"
  shows "(\<forall>p. owned_file (calls s c) = Some p \<longrightarrow> owned_file (calls s d) \<noteq> Some p) \<and>
    (owns_exclusive (calls s c) \<longrightarrow> owned_file (calls s d) = None \<and> \<not> owns_exclusive (calls s d))"
proof (intro conjI allI impI)
  have core: "lock_core s"
    using reachable_lock_inv[of es] by (simp add: s_def lock_inv_def)
  show "owned_file (calls s d) \<noteq> Some p" if "owned_file (calls s c) = Some p" for p
    using core that assms(2) unfolding lock_core_def by metis
  assume ex: "owns_exclusive (calls s c)"
  show "owned_file (calls s d) = None" "\<not> owns_exclusive (calls s d)"
    using ex assms(2) core_exclusive[OF core, of c] core_exclusive_unique[OF core ex]
      core_lockedFiles[OF core, of d] core_distinct[OF core]
    by (auto simp: others_exclusive_def)
qed

text \<open>The hypothesis holds after one call locks a file and another waits for it.\<close>

theorem lock_mutual_exclusion_witness:
  "owned_file (calls (foldl lock_step new_lock_manager
     [WaitForLock 1 ''a.ts'' False False, WaitForLock 2 ''a.ts'' False False]) 2) \<noteq> Some ''a.ts''"
proof -
  have "(1::call_id) \<noteq> 2" by simp
  from lock_mutual_exclusion[OF this, of "[WaitForLock 1 ''a.ts'' False False, WaitForLock 2 ''a.ts'' False False]"]
  show ?thesis
    by (simp add: new_lock_manager_def waitForLock_def hand_out_file_def set_call_def set_add_def
        hasExclusiveWaiterAhead_def)
qed



text \<open>
  Fact. Releasing a lock serves the waiting calls in arrival order: what is left of
  the queue is a suffix of it, every file waiter before that suffix has its file locked, and
  an exclusive waiter before it makes the exclusive lock active.
\<close>

theorem release_serves_in_order:
  "\<exists>n \<le> length (waitQueue s). waitQueue (releaseFileLock p s) = drop n (waitQueue s) \<and>
     (\<forall>q c. FileWaiter q c \<in> set (take n (waitQueue s)) \<longrightarrow> q \<in> set (lockedFiles (releaseFileLock p s))) \<and>
     (\<forall>c. ExclusiveWaiter c \<in> set (take n (waitQueue s)) \<longrightarrow> exclusiveLockActive (releaseFileLock p s))"
  using processQueue_prefix[of "s\<lparr>lockedFiles := set_remove (lockedFiles s) p\<rparr>"]
  by (simp add: releaseFileLock_def)

text \<open>Instantiated where the release serves both waiters of the queue.\<close>

theorem release_serves_in_order_witness:
  "\<exists>n \<le> 2. waitQueue (releaseFileLock ''a'' (new_lock_manager\<lparr>lockedFiles := [''a''],
       waitQueue := [FileWaiter ''a'' 2, FileWaiter ''b'' 3]\<rparr>)) =
     drop n [FileWaiter ''a'' 2, FileWaiter ''b'' 3]"
  using release_serves_in_order[of "new_lock_manager\<lparr>lockedFiles := [''a''],
       waitQueue := [FileWaiter ''a'' 2, FileWaiter ''b'' 3]\<rparr>" "''a''"]
  by (elim exE conjE) (intro exI conjI, auto simp: numeral_2_eq_2)

end
