(* ===== verification/Run_Scheduler.thy ===== *)
theory Run_Scheduler
  imports Js_Prelude
begin

text \<open>
  The run scheduler of the host, \<^verbatim>\<open>src/host/extensions/transcript/run-scheduler.ts\<close>: per
  agent one run at a time, three lanes of waiting tasks, and a watchdog that takes the agent
  away from a run that keeps a user message waiting.

  One record \<open>run_queue\<close> is the \<^verbatim>\<open>RunQueue\<close> of an agent. Two fields stand for what the
  JavaScript event loop holds for it: \<open>inFlight\<close>, the started runs whose \<^verbatim>\<open>task()\<close> promise
  has not settled (their \<^verbatim>\<open>running.then\<close> callbacks), and \<open>pumpsQueued\<close>, the microtasks
  \<^verbatim>\<open>Promise.resolve().then(() => this.pump(agentId))\<close>. The promises of the tasks, the calls
  of \<^verbatim>\<open>task()\<close> and the telemetry are an effect log; the hooks of the telemetry and of the start of a
  run do not throw. Every event of the event loop is one
  step; it carries the clock reading and what the called code outside the scheduler answered.
\<close>

subsection \<open>State\<close>

datatype run_lane = UserLane | AgentLane | BackgroundLane

record run_task =
  task_id :: nat
  lane :: run_lane
  source :: string
  enqueuedAtMs :: millis
  acceptedAtMs :: "millis option"
  ackToken :: "string option"

datatype run_phase = Running | Interrupted

record active_run =
  item :: run_task
  startedAtMs :: millis
  generation :: nat
  phase :: run_phase

record run_queue =
  pendingUser :: "run_task list"
  pendingAgent :: "run_task list"
  pendingBackground :: "run_task list"
  active :: "active_run option"
  generationCounter :: nat
  zombies :: "nat list"
  watchdogTimer :: "millis option"
  graceTimer :: "(millis \<times> active_run) option"
  inFlight :: "active_run list"
  pumpsQueued :: nat

record scheduler_options =
  watchdogMs :: millis
  watchdogGraceMs :: millis

datatype watchdog_stage = LateSettle | Trip bool | Escape

datatype run_effect =
    OnAccepted nat run_lane string nat nat nat nat bool
      \<comment> \<open>task, lane, source, position, depths of the three lanes, hasActive\<close>
  | OnDequeued nat run_lane string millis "millis option" nat nat nat nat
      \<comment> \<open>task, lane, source, queueWaitMs, acceptedToRunMs, jumpedBackground, depths\<close>
  | OnWatchdog watchdog_stage run_lane string millis "millis option" "string option"
      \<comment> \<open>stage, activeLane, activeSource, activeRuntimeMs, waitingUserAgeMs, ackToken\<close>
  | StartTask nat
  | ResolveTask nat
  | RejectTask nat

type_synonym queue_result = "run_queue \<times> run_effect list"

definition new_queue :: run_queue where
  "new_queue = \<lparr>pendingUser = [], pendingAgent = [], pendingBackground = [], active = None,
     generationCounter = 0, zombies = [], watchdogTimer = None, graceTimer = None,
     inFlight = [], pumpsQueued = 0\<rparr>"

definition queue_tasks :: "run_queue \<Rightarrow> run_task list" where
  "queue_tasks q = pendingUser q @ pendingAgent q @ pendingBackground q"

subsection \<open>Operations on one queue\<close>

definition takeNextUserTask :: "run_task list \<Rightarrow> (run_task \<times> run_task list) option" where
  "takeNextUserTask pending =
    (if length pending = 0 then None
     else let preferred = findIndex (\<lambda>t. source t \<noteq> ''group-member'') pending;
              i = (case preferred of None \<Rightarrow> 0 | Some i \<Rightarrow> i)
          in Some (pending ! i, take i pending @ drop (Suc i) pending))"

definition waitedBehindActiveMs :: "millis \<Rightarrow> run_queue \<Rightarrow> millis option" where
  "waitedBehindActiveMs now q =
    (case (pendingUser q, active q) of
       (head # _, Some a) \<Rightarrow> Some (now - max (enqueuedAtMs head) (startedAtMs a))
     | _ \<Rightarrow> None)"

definition armWatchdog :: "scheduler_options \<Rightarrow> bool \<Rightarrow> millis \<Rightarrow> run_queue \<Rightarrow> run_queue" where
  "armWatchdog opts disposed now q =
    (if disposed \<or> watchdogTimer q \<noteq> None \<or> graceTimer q \<noteq> None then q
     else case waitedBehindActiveMs now q of
         None \<Rightarrow> q
       | Some waited \<Rightarrow> q\<lparr>watchdogTimer := Some (now + max 0 (watchdogMs opts - waited))\<rparr>)"

definition disarmWatchdog :: "run_queue \<Rightarrow> run_queue" where
  "disarmWatchdog q = q\<lparr>watchdogTimer := None, graceTimer := None\<rparr>"

definition push_task :: "run_task \<Rightarrow> run_queue \<Rightarrow> run_queue" where
  "push_task t q =
    (case lane t of
       UserLane \<Rightarrow> q\<lparr>pendingUser := pendingUser q @ [t]\<rparr>
     | AgentLane \<Rightarrow> q\<lparr>pendingAgent := pendingAgent q @ [t]\<rparr>
     | BackgroundLane \<Rightarrow> q\<lparr>pendingBackground := pendingBackground q @ [t]\<rparr>)"

definition pendingAhead :: "run_lane \<Rightarrow> run_queue \<Rightarrow> nat" where
  "pendingAhead l q =
    (case l of
       UserLane \<Rightarrow> length (pendingUser q) - 1
     | AgentLane \<Rightarrow> length (pendingUser q) + length (pendingAgent q) - 1
     | BackgroundLane \<Rightarrow>
         length (pendingUser q) + length (pendingAgent q) + length (pendingBackground q) - 1)"

definition enqueue :: "scheduler_options \<Rightarrow> bool \<Rightarrow> run_task \<Rightarrow> run_queue \<Rightarrow> queue_result" where
  "enqueue opts disposed t q =
    (let q1 = push_task t q;
         q2 = armWatchdog opts disposed (enqueuedAtMs t) q1
     in (q2\<lparr>pumpsQueued := Suc (pumpsQueued q2)\<rparr>,
         [OnAccepted (task_id t) (lane t) (source t)
            ((if active q1 = None then 0 else 1) + pendingAhead (lane t) q1)
            (length (pendingUser q1)) (length (pendingAgent q1)) (length (pendingBackground q1))
            (active q1 \<noteq> None)]))"

text \<open>\<^verbatim>\<open>pendingUser.length > 0 ? takeNextUserTask(\<dots>) : pendingAgent.shift() ?? pendingBackground.shift()\<close>\<close>

definition take_next :: "run_queue \<Rightarrow> (run_task \<times> run_queue) option" where
  "take_next q =
    (if length (pendingUser q) > 0
     then map_option (\<lambda>(t, rest). (t, q\<lparr>pendingUser := rest\<rparr>)) (takeNextUserTask (pendingUser q))
     else case pendingAgent q of
         t # rest \<Rightarrow> Some (t, q\<lparr>pendingAgent := rest\<rparr>)
       | [] \<Rightarrow> (case pendingBackground q of
                  t # rest \<Rightarrow> Some (t, q\<lparr>pendingBackground := rest\<rparr>)
                | [] \<Rightarrow> None))"

definition pump :: "scheduler_options \<Rightarrow> bool \<Rightarrow> millis \<Rightarrow> run_queue \<Rightarrow> queue_result" where
  "pump opts disposed now q =
    (if disposed \<or> active q \<noteq> None then (q, [])
     else case take_next q of
         None \<Rightarrow> (disarmWatchdog q, [])
       | Some (next, q1) \<Rightarrow>
           (let run = \<lparr>item = next, startedAtMs = now,
                       generation = Suc (generationCounter q1), phase = Running\<rparr>;
                q2 = q1\<lparr>active := Some run, generationCounter := Suc (generationCounter q1)\<rparr>;
                q3 = armWatchdog opts disposed now (disarmWatchdog q2)
            in (q3\<lparr>inFlight := inFlight q3 @ [run]\<rparr>,
                [OnDequeued (task_id next) (lane next) (source next) (now - enqueuedAtMs next)
                   (map_option (\<lambda>a. now - a) (acceptedAtMs next))
                   (if lane next = BackgroundLane then 0 else length (pendingBackground q1))
                   (length (pendingUser q1)) (length (pendingAgent q1)) (length (pendingBackground q1)),
                 StartTask (task_id next)])))"

text \<open>The microtask queued by \<open>enqueue\<close>.\<close>

definition pump_microtask :: "scheduler_options \<Rightarrow> bool \<Rightarrow> millis \<Rightarrow> run_queue \<Rightarrow> queue_result" where
  "pump_microtask opts disposed now q =
    (if pumpsQueued q = 0 then (q, [])
     else pump opts disposed now (q\<lparr>pumpsQueued := pumpsQueued q - 1\<rparr>))"

text \<open>\<^verbatim>\<open>queue.active?.generation !== active.generation\<close>\<close>

definition is_current_run :: "run_queue \<Rightarrow> active_run \<Rightarrow> bool" where
  "is_current_run q run \<longleftrightarrow> map_option generation (active q) = Some (generation run)"

definition onTaskSettled ::
  "scheduler_options \<Rightarrow> bool \<Rightarrow> millis \<Rightarrow> active_run \<Rightarrow> bool \<Rightarrow> run_queue \<Rightarrow> queue_result" where
  "onTaskSettled opts disposed now run failed q =
    (let outcome = (if failed then RejectTask (task_id (item run)) else ResolveTask (task_id (item run)))
     in if \<not> is_current_run q run
        then (q, [outcome, OnWatchdog LateSettle (lane (item run)) (source (item run)) (now - startedAtMs run) None None])
        else let (q', effs) = pump opts disposed now (disarmWatchdog (q\<lparr>active := None\<rparr>))
             in (q', outcome # effs))"

text \<open>
  The \<^verbatim>\<open>running.then\<close> callbacks: settle, then \<^verbatim>\<open>markSettled()\<close>, which lets an escaped run's
  promise leave \<^verbatim>\<open>zombies\<close>.
\<close>

definition run_settles ::
  "scheduler_options \<Rightarrow> bool \<Rightarrow> millis \<Rightarrow> nat \<Rightarrow> bool \<Rightarrow> run_queue \<Rightarrow> queue_result" where
  "run_settles opts disposed now gen failed q =
    (case find (\<lambda>r. generation r = gen) (inFlight q) of
       None \<Rightarrow> (q, [])
     | Some run \<Rightarrow>
         (let q0 = q\<lparr>inFlight := filter (\<lambda>r. generation r \<noteq> gen) (inFlight q)\<rparr>;
              (q1, effs) = onTaskSettled opts disposed now run failed q0
          in (q1\<lparr>zombies := set_remove (zombies q1) gen\<rparr>, effs)))"

text \<open>
  The watchdog timer fires. \<open>interrupted\<close> is the answer of \<^verbatim>\<open>interruptWedgedRun\<close>, false when
  it threw.
\<close>

definition onWatchdogFired ::
  "scheduler_options \<Rightarrow> bool \<Rightarrow> millis \<Rightarrow> bool \<Rightarrow> run_queue \<Rightarrow> queue_result" where
  "onWatchdogFired opts disposed now interrupted q =
    (if disposed then (q, [])
     else case (active q, pendingUser q, waitedBehindActiveMs now q) of
         (Some run, head # _, Some waited) \<Rightarrow>
           (if waited < watchdogMs opts then (armWatchdog opts disposed now q, [])
            else let run' = run\<lparr>phase := Interrupted\<rparr>
                 in (q\<lparr>active := Some run', graceTimer := Some (now + watchdogGraceMs opts, run')\<rparr>,
                     [OnWatchdog (Trip interrupted) (lane (item run)) (source (item run)) (now - startedAtMs run)
                        (Some (now - enqueuedAtMs head)) None]))
       | _ \<Rightarrow> (q, []))"

definition watchdog_timer_fires ::
  "scheduler_options \<Rightarrow> bool \<Rightarrow> millis \<Rightarrow> bool \<Rightarrow> run_queue \<Rightarrow> queue_result" where
  "watchdog_timer_fires opts disposed now interrupted q =
    (if watchdogTimer q = None then (q, [])
     else onWatchdogFired opts disposed now interrupted (q\<lparr>watchdogTimer := None\<rparr>))"

definition escapeWedgedRun ::
  "scheduler_options \<Rightarrow> bool \<Rightarrow> millis \<Rightarrow> active_run \<Rightarrow> run_queue \<Rightarrow> queue_result" where
  "escapeWedgedRun opts disposed now run q =
    (if disposed \<or> \<not> is_current_run q run then (q, [])
     else let waiting = (case pendingUser q of [] \<Rightarrow> None | h # _ \<Rightarrow> Some (now - enqueuedAtMs h));
              (q', effs) = pump opts disposed now
                (q\<lparr>zombies := set_add (zombies q) (generation run), active := None\<rparr>)
          in (q', OnWatchdog Escape (lane (item run)) (source (item run)) (now - startedAtMs run) waiting (ackToken (item run))
                  # ResolveTask (task_id (item run)) # effs))"

definition grace_timer_fires ::
  "scheduler_options \<Rightarrow> bool \<Rightarrow> millis \<Rightarrow> run_queue \<Rightarrow> queue_result" where
  "grace_timer_fires opts disposed now q =
    (case graceTimer q of
       None \<Rightarrow> (q, [])
     | Some (_, run) \<Rightarrow> escapeWedgedRun opts disposed now run (q\<lparr>graceTimer := None\<rparr>))"

subsection \<open>The scheduler\<close>

record scheduler =
  queues :: "(string, run_queue) js_map"
  disposed :: bool
  effects :: "string \<Rightarrow> run_effect list"

definition new_scheduler :: scheduler where
  "new_scheduler = \<lparr>queues = [], disposed = False, effects = (\<lambda>_. [])\<rparr>"

definition queueFor :: "scheduler \<Rightarrow> string \<Rightarrow> run_queue" where
  "queueFor s agentId = (case jm_get (queues s) agentId of Some q \<Rightarrow> q | None \<Rightarrow> new_queue)"

datatype scheduler_event =
    Enqueue string run_task
  | PumpMicrotask string millis
  | RunSettles string millis nat bool
  | WatchdogTimer string millis bool
  | GraceTimer string millis
  | DisposeScheduler

definition on_queue :: "scheduler \<Rightarrow> string \<Rightarrow> (run_queue \<Rightarrow> queue_result) \<Rightarrow> scheduler" where
  "on_queue s agentId f =
    (let (q, effs) = f (queueFor s agentId)
     in s\<lparr>queues := jm_set (queues s) agentId q,
           effects := (effects s)(agentId := effects s agentId @ effs)\<rparr>)"

text \<open>Only \<open>enqueue\<close> creates a queue; every other event is about an existing one.\<close>

fun scheduler_step :: "scheduler_options \<Rightarrow> scheduler \<Rightarrow> scheduler_event \<Rightarrow> scheduler" where
  "scheduler_step opts s (Enqueue a t) = on_queue s a (enqueue opts (disposed s) t)"
| "scheduler_step opts s (PumpMicrotask a now) =
     (if jm_get (queues s) a = None then s else on_queue s a (pump_microtask opts (disposed s) now))"
| "scheduler_step opts s (RunSettles a now gen failed) =
     (if jm_get (queues s) a = None then s
      else on_queue s a (run_settles opts (disposed s) now gen failed))"
| "scheduler_step opts s (WatchdogTimer a now interrupted) =
     (if jm_get (queues s) a = None then s
      else on_queue s a (watchdog_timer_fires opts (disposed s) now interrupted))"
| "scheduler_step opts s (GraceTimer a now) =
     (if jm_get (queues s) a = None then s else on_queue s a (grace_timer_fires opts (disposed s) now))"
| "scheduler_step opts s DisposeScheduler =
     s\<lparr>disposed := True, queues := map (\<lambda>(a, q). (a, disarmWatchdog q)) (queues s)\<rparr>"

subsection \<open>Observers\<close>

definition getActiveLane :: "scheduler \<Rightarrow> string \<Rightarrow> run_lane option" where
  "getActiveLane s agentId =
    Option.bind (jm_get (queues s) agentId) (\<lambda>q. map_option (\<lambda>a. lane (item a)) (active q))"

datatype awaited = SettledOf nat | PromiseOf nat

text \<open>What \<^verbatim>\<open>drain\<close> awaits: the active run, the escaped runs, then every waiting task.\<close>

definition drain_snapshot :: "scheduler \<Rightarrow> string \<Rightarrow> awaited list" where
  "drain_snapshot s agentId =
    (case jm_get (queues s) agentId of
       None \<Rightarrow> []
     | Some q \<Rightarrow>
         (case active q of None \<Rightarrow> [] | Some a \<Rightarrow> [SettledOf (generation a)])
         @ map SettledOf (zombies q)
         @ map (\<lambda>t. PromiseOf (task_id t)) (pendingUser q)
         @ map (\<lambda>t. PromiseOf (task_id t)) (pendingAgent q)
         @ map (\<lambda>t. PromiseOf (task_id t)) (pendingBackground q))"

record diagnostics =
  d_agentId :: string
  d_depthUser :: nat
  d_depthAgent :: nat
  d_depthBackground :: nat
  d_depthTotal :: nat
  d_oldestPendingUserAgeMs :: "millis option"
  d_active :: "(run_lane \<times> string \<times> millis \<times> run_phase) option"

definition queue_diagnostics :: "millis \<Rightarrow> string \<times> run_queue \<Rightarrow> diagnostics list" where
  "queue_diagnostics now = (\<lambda>(agentId, q).
    (let du = length (pendingUser q); da = length (pendingAgent q); db = length (pendingBackground q)
     in if du = 0 \<and> da = 0 \<and> db = 0 \<and> active q = None then []
        else [\<lparr>d_agentId = agentId, d_depthUser = du, d_depthAgent = da, d_depthBackground = db,
               d_depthTotal = du + da + db + (if active q = None then 0 else 1),
               d_oldestPendingUserAgeMs =
                 (case pendingUser q of [] \<Rightarrow> None | h # _ \<Rightarrow> Some (now - enqueuedAtMs h)),
               d_active = map_option (\<lambda>a. (lane (item a), source (item a), now - startedAtMs a, phase a))
                            (active q)\<rparr>]))"

definition getDiagnostics :: "millis \<Rightarrow> scheduler \<Rightarrow> diagnostics list" where
  "getDiagnostics now s = concat (map (queue_diagnostics now) (queues s))"

subsection \<open>The invariant\<close>

fun accepted_of :: "run_effect \<Rightarrow> nat list" where
  "accepted_of (OnAccepted i _ _ _ _ _ _ _) = [i]"
| "accepted_of _ = []"

fun started_of :: "run_effect \<Rightarrow> nat list" where
  "started_of (StartTask i) = [i]"
| "started_of _ = []"

definition accepted_ids :: "run_effect list \<Rightarrow> nat list" where
  "accepted_ids log = concat (map accepted_of log)"

definition started_ids :: "run_effect list \<Rightarrow> nat list" where
  "started_ids log = concat (map started_of log)"

lemma log_ids_simps [simp]:
  "accepted_ids (xs @ ys) = accepted_ids xs @ accepted_ids ys"
  "started_ids (xs @ ys) = started_ids xs @ started_ids ys"
  "accepted_ids [] = []" "started_ids [] = []"
  "accepted_ids (e # xs) = accepted_of e @ accepted_ids xs"
  "started_ids (e # xs) = started_of e @ started_ids xs"
  by (simp_all add: accepted_ids_def started_ids_def)

text \<open>Every accepted task is waiting or was started, each as often as it was accepted.\<close>

definition conserved :: "run_queue \<Rightarrow> run_effect list \<Rightarrow> bool" where
  "conserved q log \<longleftrightarrow>
     mset (accepted_ids log) = image_mset task_id (mset (queue_tasks q)) + mset (started_ids log)"

text \<open>
  Every run in flight is the active one or an escaped one; generations number the runs
  without repetition, and the active run is the newest.
\<close>

definition runs_ok :: "run_queue \<Rightarrow> bool" where
  "runs_ok q \<longleftrightarrow>
     distinct (map generation (inFlight q))
   \<and> (\<forall>r \<in> set (inFlight q). generation r \<le> generationCounter q)
   \<and> (\<forall>r \<in> set (inFlight q). is_current_run q r \<or> generation r \<in> set (zombies q))
   \<and> (\<forall>a. active q = Some a \<longrightarrow> generation a = generationCounter q
            \<and> generation a \<in> generation ` set (inFlight q) \<and> generation a \<notin> set (zombies q))
   \<and> (\<forall>g \<in> set (zombies q). g \<le> generationCounter q)"

text \<open>At most one of the two timers runs, and the grace timer is about the active run.\<close>

definition timers_ok :: "run_queue \<Rightarrow> bool" where
  "timers_ok q \<longleftrightarrow> (watchdogTimer q = None \<or> graceTimer q = None)
     \<and> (\<forall>due r. graceTimer q = Some (due, r) \<longrightarrow> is_current_run q r)"

text \<open>A user task that waits behind a run is watched; waiting work has a run or a pump.\<close>

definition watched :: "run_queue \<Rightarrow> bool" where
  "watched q \<longleftrightarrow> (pendingUser q \<noteq> [] \<and> active q \<noteq> None \<longrightarrow>
     watchdogTimer q \<noteq> None \<or> graceTimer q \<noteq> None)"

definition pumped :: "run_queue \<Rightarrow> bool" where
  "pumped q \<longleftrightarrow> (queue_tasks q \<noteq> [] \<and> active q = None \<longrightarrow> pumpsQueued q > 0)"

definition queue_inv :: "bool \<Rightarrow> run_queue \<Rightarrow> run_effect list \<Rightarrow> bool" where
  "queue_inv d q log \<longleftrightarrow> conserved q log \<and> runs_ok q \<and> timers_ok q
     \<and> (d \<or> watched q) \<and> (d \<or> pumped q)"

lemmas queue_defs = conserved_def runs_ok_def timers_ok_def watched_def pumped_def

text \<open>What each part of the invariant reads.\<close>

lemma conserved_cong: "queue_tasks q' = queue_tasks q \<Longrightarrow> conserved q' log = conserved q log"
  by (simp add: conserved_def)

lemma runs_ok_cong:
  assumes "inFlight q' = inFlight q" "generationCounter q' = generationCounter q"
    "zombies q' = zombies q" "map_option generation (active q') = map_option generation (active q)"
  shows "runs_ok q' = runs_ok q"
proof -
  have "is_current_run q' r = is_current_run q r" for r
    using assms(4) by (simp add: is_current_run_def)
  moreover have "(\<forall>a. active q' = Some a \<longrightarrow> P (generation a)) \<longleftrightarrow>
      (\<forall>a. active q = Some a \<longrightarrow> P (generation a))" for P
    using assms(4) by (cases "active q"; cases "active q'") auto
  from this[of "\<lambda>g. g = generationCounter q \<and> g \<in> generation ` set (inFlight q) \<and> g \<notin> set (zombies q)"]
  have "(\<forall>a. active q' = Some a \<longrightarrow> generation a = generationCounter q
            \<and> generation a \<in> generation ` set (inFlight q) \<and> generation a \<notin> set (zombies q)) \<longleftrightarrow>
      (\<forall>a. active q = Some a \<longrightarrow> generation a = generationCounter q
            \<and> generation a \<in> generation ` set (inFlight q) \<and> generation a \<notin> set (zombies q))"
    by simp
  ultimately show ?thesis using assms(1-3) by (simp add: runs_ok_def)
qed

lemma inv_frames [simp]:
  "conserved (q\<lparr>pumpsQueued := n\<rparr>) log = conserved q log"
  "conserved (q\<lparr>watchdogTimer := w\<rparr>) log = conserved q log"
  "conserved (q\<lparr>graceTimer := g\<rparr>) log = conserved q log"
  "conserved (q\<lparr>active := a\<rparr>) log = conserved q log"
  "conserved (q\<lparr>zombies := z\<rparr>) log = conserved q log"
  "conserved (q\<lparr>inFlight := f\<rparr>) log = conserved q log"
  "runs_ok (q\<lparr>pumpsQueued := n\<rparr>) = runs_ok q"
  "runs_ok (q\<lparr>watchdogTimer := w\<rparr>) = runs_ok q"
  "runs_ok (q\<lparr>graceTimer := g\<rparr>) = runs_ok q"
  by (simp_all add: conserved_def queue_tasks_def runs_ok_def is_current_run_def)

subsection \<open>Picking the next task\<close>

lemma findIndex_filter_hd:
  "(case findIndex P xs of None \<Rightarrow> filter P xs = [] | Some i \<Rightarrow> \<exists>r. filter P xs = xs ! i # r)"
  by (induction xs) (auto split: option.splits)


lemma takeNextUserTask_Some:
  assumes "takeNextUserTask p = Some (t, rest)"
  shows "mset p = add_mset t (mset rest)" and "p \<noteq> []"
proof -
  from assms have ne: "p \<noteq> []" by (auto simp: takeNextUserTask_def split: if_splits)
  let ?i = "case findIndex (\<lambda>t. source t \<noteq> ''group-member'') p of None \<Rightarrow> 0 | Some i \<Rightarrow> i"
  from ne have "?i < length p" by (auto dest: findIndex_Some split: option.splits)
  from mset_remove_nth[OF this] assms ne show "mset p = add_mset t (mset rest)" "p \<noteq> []"
    by (auto simp: takeNextUserTask_def Let_def)
qed

lemma takeNextUserTask_None: "takeNextUserTask p = None \<longleftrightarrow> p = []"
  by (auto simp: takeNextUserTask_def Let_def)

lemma take_next_None: "take_next q = None \<longleftrightarrow> queue_tasks q = []"
  by (auto simp: take_next_def queue_tasks_def takeNextUserTask_None split: list.splits)

lemma take_next_Some:
  assumes "take_next q = Some (t, q1)"
  shows "mset (queue_tasks q) = add_mset t (mset (queue_tasks q1))"
    and "generationCounter q1 = generationCounter q" "inFlight q1 = inFlight q"
      "zombies q1 = zombies q" "active q1 = active q" "pumpsQueued q1 = pumpsQueued q"
  using assms
  by (auto simp: take_next_def queue_tasks_def dest: takeNextUserTask_Some split: if_splits list.splits)

lemma armWatchdog_frame:
  "\<exists>w. armWatchdog opts d now q = q\<lparr>watchdogTimer := w\<rparr>"
  by (auto simp: armWatchdog_def split: option.splits intro: exI[of _ "watchdogTimer q"])

lemma armWatchdog_simps [simp]:
  "pendingUser (armWatchdog opts d now q) = pendingUser q"
  "pendingAgent (armWatchdog opts d now q) = pendingAgent q"
  "pendingBackground (armWatchdog opts d now q) = pendingBackground q"
  "active (armWatchdog opts d now q) = active q"
  "generationCounter (armWatchdog opts d now q) = generationCounter q"
  "zombies (armWatchdog opts d now q) = zombies q"
  "inFlight (armWatchdog opts d now q) = inFlight q"
  "pumpsQueued (armWatchdog opts d now q) = pumpsQueued q"
  "graceTimer (armWatchdog opts d now q) = graceTimer q"
  "queue_tasks (armWatchdog opts d now q) = queue_tasks q"
  using armWatchdog_frame[of opts d now q] by (auto simp: queue_tasks_def)

lemma armWatchdog_watched: "\<not> d \<Longrightarrow> watched (armWatchdog opts d now q)"
  by (auto simp: watched_def armWatchdog_def waitedBehindActiveMs_def split: option.splits list.splits)

lemma armWatchdog_timers: "timers_ok q \<Longrightarrow> timers_ok (armWatchdog opts d now q)"
  by (cases "graceTimer q") (auto simp: timers_ok_def armWatchdog_def is_current_run_def split: option.splits)

lemma disarm_simps [simp]:
  "pendingUser (disarmWatchdog q) = pendingUser q"
  "pendingAgent (disarmWatchdog q) = pendingAgent q"
  "pendingBackground (disarmWatchdog q) = pendingBackground q"
  "active (disarmWatchdog q) = active q"
  "generationCounter (disarmWatchdog q) = generationCounter q"
  "zombies (disarmWatchdog q) = zombies q"
  "inFlight (disarmWatchdog q) = inFlight q"
  "pumpsQueued (disarmWatchdog q) = pumpsQueued q"
  "watchdogTimer (disarmWatchdog q) = None"
  "graceTimer (disarmWatchdog q) = None"
  "queue_tasks (disarmWatchdog q) = queue_tasks q"
  by (simp_all add: disarmWatchdog_def queue_tasks_def)

lemma disarm_timers: "timers_ok (disarmWatchdog q)"
  by (simp add: timers_ok_def)

subsection \<open>Every operation keeps the invariant\<close>

lemma pump_inv:
  assumes cons: "conserved q log" and runs: "runs_ok q" and tim: "timers_ok q"
    and wat: "active q \<noteq> None \<Longrightarrow> d \<or> watched q"
    and res: "pump opts d now q = (q', effs)"
  shows "queue_inv d q' (log @ effs)"
proof (cases "d \<or> active q \<noteq> None")
  case True
  with assms show ?thesis by (auto simp: pump_def queue_inv_def pumped_def watched_def)
next
  case False
  show ?thesis
  proof (cases "take_next q")
    case None
    with False res have "q' = disarmWatchdog q" "effs = []" by (auto simp: pump_def)
    with False None cons runs show ?thesis
      by (simp add: queue_inv_def disarm_timers take_next_None)
        (simp add: queue_defs is_current_run_def)
  next
    case (Some p)
    obtain t q1 where p: "p = (t, q1)" by fastforce
    note q1 = take_next_Some[OF Some[unfolded p]]
    let ?run = "\<lparr>item = t, startedAtMs = now, generation = Suc (generationCounter q1), phase = Running\<rparr>"
    let ?q2 = "q1\<lparr>active := Some ?run, generationCounter := Suc (generationCounter q1)\<rparr>"
    let ?q3 = "armWatchdog opts d now (disarmWatchdog ?q2)"
    from False Some p res have q': "q' = ?q3\<lparr>inFlight := inFlight ?q3 @ [?run]\<rparr>"
      and effs: "accepted_ids effs = []" "started_ids effs = [task_id t]"
      by (auto simp: pump_def Let_def)
    note fr = q1(2-)
    have "timers_ok ?q3" by (rule armWatchdog_timers) (rule disarm_timers)
    then have "timers_ok q'" by (simp add: q' timers_ok_def is_current_run_def)
    moreover have "watched ?q3" using False by (intro armWatchdog_watched) simp
    then have "watched q'" by (simp add: q' watched_def)
    moreover have "pumped q'" by (simp add: q' pumped_def)
    moreover have "runs_ok q'"
      using runs False by (auto simp: q' runs_ok_def is_current_run_def fr intro!: le_SucI)
    moreover have "queue_tasks q' = queue_tasks q1" by (simp add: q' queue_tasks_def)
    with cons q1(1) effs have "conserved q' (log @ effs)" by (simp add: conserved_def)
    ultimately show ?thesis by (simp add: queue_inv_def)
  qed
qed

lemma enqueue_inv:
  assumes inv: "queue_inv d q log" and res: "enqueue opts d t q = (q', effs)"
  shows "queue_inv d q' (log @ effs)"
proof -
  let ?q1 = "push_task t q"
  have fr: "active ?q1 = active q" "inFlight ?q1 = inFlight q" "zombies ?q1 = zombies q"
    "generationCounter ?q1 = generationCounter q" "graceTimer ?q1 = graceTimer q"
    "watchdogTimer ?q1 = watchdogTimer q"
    and tasks: "mset (queue_tasks ?q1) = add_mset t (mset (queue_tasks q))"
    by (auto simp: push_task_def queue_tasks_def split: run_lane.splits)
  have "timers_ok ?q1" using inv by (simp add: queue_inv_def timers_ok_def is_current_run_def fr)
  from armWatchdog_timers[OF this, of opts d "enqueuedAtMs t"] res have "timers_ok q'"
    by (auto simp: enqueue_def Let_def timers_ok_def is_current_run_def)
  moreover have "runs_ok q' = runs_ok q" using res
    by (intro runs_ok_cong) (auto simp: enqueue_def Let_def fr)
  then have "runs_ok q'" using inv by (simp add: queue_inv_def)
  moreover have "d \<or> watched q'" using res armWatchdog_watched[of d opts "enqueuedAtMs t" ?q1]
    by (auto simp: enqueue_def Let_def watched_def)
  moreover have "pumped q'" using res by (auto simp: enqueue_def Let_def pumped_def)
  moreover have "queue_tasks q' = queue_tasks ?q1" "accepted_ids effs = [task_id t]"
      "started_ids effs = []"
    using res by (auto simp: enqueue_def Let_def queue_tasks_def)
  with inv tasks have "conserved q' (log @ effs)" by (simp add: queue_inv_def conserved_def)
  ultimately show ?thesis by (simp add: queue_inv_def)
qed

lemma pump_microtask_inv:
  assumes inv: "queue_inv d q log" and res: "pump_microtask opts d now q = (q', effs)"
  shows "queue_inv d q' (log @ effs)"
proof (cases "pumpsQueued q = 0")
  case True
  with inv res show ?thesis by (simp add: pump_microtask_def)
next
  case False
  with res have "pump opts d now (q\<lparr>pumpsQueued := pumpsQueued q - 1\<rparr>) = (q', effs)"
    by (simp add: pump_microtask_def)
  with inv show ?thesis
    by (elim pump_inv[rotated -1])
      (auto simp: queue_inv_def timers_ok_def watched_def is_current_run_def)
qed

lemma distinct_generation_filter:
  "distinct (map generation rs) \<Longrightarrow> distinct (map generation (filter P rs))"
  by (induction rs) auto

text \<open>Taking a settled run out of the runs in flight; the freed escaped run leaves the zombies.\<close>

lemma run_settles_inv:
  assumes inv: "queue_inv d q log" and res: "run_settles opts d now gen failed q = (q', effs)"
  shows "queue_inv d q' (log @ effs)"
proof (cases "find (\<lambda>r. generation r = gen) (inFlight q)")
  case None
  with inv res show ?thesis by (simp add: run_settles_def)
next
  case (Some run)
  then have run: "run \<in> set (inFlight q)" "generation run = gen" by (auto dest: find_SomeD)
  let ?q0 = "q\<lparr>inFlight := filter (\<lambda>r. generation r \<noteq> gen) (inFlight q)\<rparr>"
  let ?out = "if failed then RejectTask (task_id (item run)) else ResolveTask (task_id (item run))"
  have out: "accepted_of ?out = []" "started_of ?out = []" by auto
  show ?thesis
  proof (cases "is_current_run ?q0 run")
    case False
    with Some res have q': "q' = ?q0\<lparr>zombies := set_remove (zombies q) gen\<rparr>"
      and effs: "accepted_ids effs = []" "started_ids effs = []"
      by (auto simp: run_settles_def onTaskSettled_def Let_def)
    have ne: "active q = Some a \<Longrightarrow> generation a \<noteq> gen" for a
      using False run by (auto simp: is_current_run_def)
    have img: "generation ` {r \<in> set (inFlight q). generation r \<noteq> gen} = generation ` set (inFlight q) - {gen}"
      by auto
    have "runs_ok q" using inv by (simp add: queue_inv_def)
    with ne have "runs_ok q'" unfolding q' runs_ok_def
      by (cases "active q") (simp_all add: distinct_generation_filter img is_current_run_def, metis)
    moreover have "conserved q' (log @ effs)" "timers_ok q'" "d \<or> watched q'" "d \<or> pumped q'"
      using inv effs by (auto simp: q' queue_inv_def conserved_def[of _ "log @ effs"] conserved_def[of _ log]
          queue_tasks_def timers_ok_def watched_def pumped_def is_current_run_def)
    ultimately show ?thesis by (simp add: queue_inv_def)
  next
    case True
    let ?q1 = "disarmWatchdog (?q0\<lparr>active := None\<rparr>)"
    obtain q2 effs2 where p: "pump opts d now ?q1 = (q2, effs2)" by fastforce
    from Some True res p have q': "q' = q2\<lparr>zombies := set_remove (zombies q2) gen\<rparr>"
      and effs: "accepted_ids effs = accepted_ids effs2" "started_ids effs = started_ids effs2"
      by (auto simp: run_settles_def onTaskSettled_def Let_def)
    have cur: "gen \<notin> set (zombies q)" "gen = generationCounter q"
      using True inv run by (auto simp: queue_inv_def runs_ok_def is_current_run_def)
    have "runs_ok ?q1"
      using inv True run
      by (auto simp: queue_inv_def runs_ok_def is_current_run_def distinct_generation_filter)
    moreover have "conserved ?q1 log = conserved q log" by (rule conserved_cong) (simp add: queue_tasks_def)
    then have "conserved ?q1 log" using inv by (simp add: queue_inv_def)
    ultimately have inv2: "queue_inv d q2 (log @ effs2)"
      using p disarm_timers by (intro pump_inv[OF _ _ _ _ p]) auto
    have "zombies q2 = zombies q"
      using p by (auto simp: pump_def Let_def take_next_Some(4) split: if_splits option.splits)
    with cur have "set_remove (zombies q2) gen = zombies q2"
      by (auto simp: set_remove_def intro!: filter_True)
    then have "q' = q2" by (simp add: q')
    with inv2 effs show ?thesis by (simp add: queue_inv_def conserved_def)
  qed
qed

lemma watchdog_timer_fires_inv:
  assumes inv: "queue_inv d q log" and res: "watchdog_timer_fires opts d now interrupted q = (q', effs)"
  shows "queue_inv d q' (log @ effs)"
proof -
  let ?q0 = "q\<lparr>watchdogTimer := None\<rparr>"
  have grace: "watchdogTimer q \<noteq> None \<Longrightarrow> graceTimer q = None"
    using inv by (auto simp: queue_inv_def timers_ok_def)
  have arm: "timers_ok (armWatchdog opts d now ?q0)"
    using inv by (intro armWatchdog_timers) (simp add: queue_inv_def timers_ok_def is_current_run_def)
  have wat: "d \<or> watched (armWatchdog opts d now ?q0)"
    using armWatchdog_watched[of d opts now ?q0] by blast
  have cons: "conserved q log" and runs: "runs_ok q" and tim: "timers_ok q"
    and pum: "d \<or> pumped q" using inv by (auto simp: queue_inv_def)
  have pum0: "d \<or> pumped q'" if "queue_tasks q' = queue_tasks q" "pumpsQueued q' = pumpsQueued q"
      "active q' = None \<longleftrightarrow> active q = None" for q'
    using pum that by (simp add: pumped_def)
  consider (idle) "watchdogTimer q = None" | (off) "watchdogTimer q \<noteq> None" "d"
    | (none) "watchdogTimer q \<noteq> None" "\<not> d" "waitedBehindActiveMs now q = None"
    | (early) waited where "watchdogTimer q \<noteq> None" "\<not> d" "waitedBehindActiveMs now q = Some waited"
        "waited < watchdogMs opts"
    | (trip) waited where "watchdogTimer q \<noteq> None" "\<not> d" "waitedBehindActiveMs now q = Some waited"
        "\<not> waited < watchdogMs opts"
    by (cases "watchdogTimer q"; cases "waitedBehindActiveMs now q") auto
  then show ?thesis
  proof cases
    case idle
    with inv res show ?thesis by (simp add: watchdog_timer_fires_def)
  next
    case off
    with res have "q' = ?q0" "effs = []" by (auto simp: watchdog_timer_fires_def onWatchdogFired_def)
    with off cons runs tim show ?thesis by (simp add: queue_inv_def timers_ok_def is_current_run_def)
  next
    case none
    with res have "q' = ?q0" "effs = []"
      by (auto simp: watchdog_timer_fires_def onWatchdogFired_def waitedBehindActiveMs_def
          split: option.splits list.splits)
    moreover have "pendingUser q = [] \<or> active q = None"
      using none by (auto simp: waitedBehindActiveMs_def split: option.splits list.splits)
    ultimately show ?thesis using none cons runs tim pum0[of ?q0]
      by (auto simp: queue_inv_def timers_ok_def is_current_run_def watched_def queue_tasks_def)
  next
    case early
    with res have "q' = armWatchdog opts d now ?q0" "effs = []"
      by (auto simp: watchdog_timer_fires_def onWatchdogFired_def waitedBehindActiveMs_def
          split: option.splits list.splits)
    moreover have "runs_ok (armWatchdog opts d now ?q0)" "conserved (armWatchdog opts d now ?q0) log"
      using runs cons runs_ok_cong[of "armWatchdog opts d now ?q0" q]
        conserved_cong[of "armWatchdog opts d now ?q0" q log] by (simp_all add: queue_tasks_def)
    moreover have "d \<or> pumped (armWatchdog opts d now ?q0)"
      by (rule pum0) (simp_all add: queue_tasks_def)
    ultimately show ?thesis using arm wat by (simp add: queue_inv_def)
  next
    case trip
    then obtain run head rest where ar: "active q = Some run" "pendingUser q = head # rest"
      by (auto simp: waitedBehindActiveMs_def split: option.splits list.splits)
    let ?run = "run\<lparr>phase := Interrupted\<rparr>"
    from trip ar res have q': "q' = ?q0\<lparr>active := Some ?run, graceTimer := Some (now + watchdogGraceMs opts, ?run)\<rparr>"
      and effs: "accepted_ids effs = []" "started_ids effs = []"
      by (auto simp: watchdog_timer_fires_def onWatchdogFired_def waitedBehindActiveMs_def Let_def)
    have "runs_ok q' = runs_ok q" by (rule runs_ok_cong) (simp_all add: q' ar)
    moreover have "conserved q' log = conserved q log" by (simp add: q')
    with cons effs have "conserved q' (log @ effs)" by (simp add: conserved_def)
    ultimately show ?thesis using runs
      by (simp add: queue_inv_def q' timers_ok_def is_current_run_def watched_def pumped_def)
  qed
qed

lemma grace_timer_fires_inv:
  assumes inv: "queue_inv d q log" and res: "grace_timer_fires opts d now q = (q', effs)"
  shows "queue_inv d q' (log @ effs)"
proof (cases "graceTimer q")
  case None
  with inv res show ?thesis by (simp add: grace_timer_fires_def)
next
  case (Some p)
  obtain due run where p: "p = (due, run)" by fastforce
  let ?q0 = "q\<lparr>graceTimer := None\<rparr>"
  have cur: "is_current_run q run" and nowd: "watchdogTimer q = None"
    using inv Some p by (auto simp: queue_inv_def timers_ok_def)
  show ?thesis
  proof (cases d)
    case True
    with res Some p have "q' = ?q0" "effs = []"
      by (auto simp: grace_timer_fires_def escapeWedgedRun_def)
    with inv True show ?thesis by (simp add: queue_inv_def timers_ok_def)
  next
    case False
    let ?q1 = "?q0\<lparr>zombies := set_add (zombies q) (generation run), active := None\<rparr>"
    obtain q2 effs2 where pp: "pump opts d now ?q1 = (q2, effs2)" by fastforce
    from Some p False cur res pp have q': "q' = q2"
      and effs: "accepted_ids effs = accepted_ids effs2" "started_ids effs = started_ids effs2"
      by (auto simp: grace_timer_fires_def escapeWedgedRun_def is_current_run_def Let_def)
    have "runs_ok ?q1" using inv cur
      by (auto simp: queue_inv_def runs_ok_def is_current_run_def)
    moreover have "conserved ?q1 log" using inv by (simp add: queue_inv_def)
    moreover have "timers_ok ?q1" using nowd by (simp add: timers_ok_def)
    ultimately have "queue_inv d q2 (log @ effs2)"
      by (intro pump_inv[OF _ _ _ _ pp]) auto
    with effs show ?thesis by (simp add: q' queue_inv_def conserved_def)
  qed
qed

lemma queue_inv_new: "queue_inv d new_queue []"
  by (simp add: queue_inv_def queue_defs new_queue_def queue_tasks_def)

lemma queue_inv_dispose: "queue_inv d q log \<Longrightarrow> queue_inv True (disarmWatchdog q) log"
  using conserved_cong[of "disarmWatchdog q" q log] runs_ok_cong[of "disarmWatchdog q" q]
  by (simp add: queue_inv_def disarm_timers)

subsection \<open>The scheduler keeps the invariant for every agent\<close>

definition scheduler_inv :: "scheduler \<Rightarrow> bool" where
  "scheduler_inv s \<longleftrightarrow> (\<forall>a. queue_inv (disposed s) (queueFor s a) (effects s a))"

lemma on_queue_inv:
  assumes inv: "scheduler_inv s"
    and f: "\<And>q log q' effs. queue_inv (disposed s) q log \<Longrightarrow> f q = (q', effs) \<Longrightarrow>
      queue_inv (disposed s) q' (log @ effs)"
  shows "scheduler_inv (on_queue s a f)"
proof -
  obtain q' effs where f': "f (queueFor s a) = (q', effs)" by fastforce
  have "queue_inv (disposed s) q' (effects s a @ effs)"
    using inv f[OF _ f'] by (simp add: scheduler_inv_def)
  with inv f' show ?thesis by (simp add: scheduler_inv_def on_queue_def queueFor_def)
qed

lemma map_of_map_snd: "map_of (map (\<lambda>(k, v). (k, f v)) m) k = map_option f (map_of m k)"
  by (induction m) auto

lemma dispose_scheduler_inv:
  assumes inv: "scheduler_inv s"
  shows "scheduler_inv (scheduler_step opts s DisposeScheduler)"
proof -
  have "queue_inv True (queueFor (scheduler_step opts s DisposeScheduler) a) (effects s a)" for a
  proof (cases "jm_get (queues s) a")
    case None
    then have "queueFor (scheduler_step opts s DisposeScheduler) a = queueFor s a"
      by (simp add: queueFor_def map_of_map_snd)
    with inv show ?thesis by (simp add: scheduler_inv_def queue_inv_def)
  next
    case (Some q)
    then have "queueFor (scheduler_step opts s DisposeScheduler) a = disarmWatchdog (queueFor s a)"
      by (simp add: queueFor_def map_of_map_snd)
    with inv queue_inv_dispose show ?thesis by (auto simp: scheduler_inv_def)
  qed
  then show ?thesis by (simp add: scheduler_inv_def)
qed

lemma scheduler_step_inv: "scheduler_inv s \<Longrightarrow> scheduler_inv (scheduler_step opts s e)"
  by (cases e) (auto intro!: on_queue_inv dispose_scheduler_inv
      intro: enqueue_inv pump_microtask_inv run_settles_inv watchdog_timer_fires_inv
        grace_timer_fires_inv simp del: scheduler_step.simps(6))

interpretation scheduler: invariant_machine "scheduler_step opts" scheduler_inv for opts
  by unfold_locales (rule scheduler_step_inv)

lemma new_scheduler_inv: "scheduler_inv new_scheduler"
  by (simp add: scheduler_inv_def new_scheduler_def queueFor_def queue_inv_new)

lemma reachable_queue_inv:
  assumes "s = foldl (scheduler_step opts) new_scheduler es"
  shows "queue_inv (disposed s) (queueFor s a) (effects s a)"
  using scheduler.run_inv[OF new_scheduler_inv, of opts es] assms by (simp add: scheduler_inv_def)

subsection \<open>Properties\<close>

text \<open>
  Fact. The pump respects the lanes: when it starts a task, a waiting user task goes
  first (the oldest whose source is not a group member's, or the oldest when all are), then
  the oldest agent task, then the oldest background task; it starts nothing only when
  nothing waits.
\<close>

theorem pump_respects_lanes:
  assumes idle: "\<not> d" "active q = None" and res: "pump opts d now q = (q', effs)"
  shows "queue_tasks q = [] \<and> started_ids effs = [] \<or>
    (\<exists>t. started_ids effs = [task_id t] \<and> map_option item (active q') = Some t \<and>
      (if pendingUser q \<noteq> [] then
         t = (case filter (\<lambda>u. source u \<noteq> ''group-member'') (pendingUser q) of
                [] \<Rightarrow> hd (pendingUser q) | u # _ \<Rightarrow> u)
       else if pendingAgent q \<noteq> [] then t = hd (pendingAgent q)
       else t = hd (pendingBackground q)))"
proof (cases "take_next q")
  case None
  with idle res show ?thesis by (auto simp: pump_def take_next_None)
next
  case (Some p)
  obtain t q1 where p: "p = (t, q1)" by fastforce
  from Some p idle res have start: "started_ids effs = [task_id t]" "map_option item (active q') = Some t"
    by (auto simp: pump_def Let_def)
  have pick: "t = (case filter (\<lambda>u. source u \<noteq> ''group-member'') us of [] \<Rightarrow> hd us | u # _ \<Rightarrow> u)"
    if "takeNextUserTask us = Some (t, rest)" for us rest
    using that findIndex_filter_hd[of "\<lambda>u. source u \<noteq> ''group-member''" us]
    by (auto simp: takeNextUserTask_def Let_def hd_conv_nth split: option.splits if_splits list.splits)
  consider (user) rest where "pendingUser q \<noteq> []" "takeNextUserTask (pendingUser q) = Some (t, rest)"
    | (agent) rest where "pendingUser q = []" "pendingAgent q = t # rest"
    | (background) rest where "pendingUser q = []" "pendingAgent q = []" "pendingBackground q = t # rest"
    using Some p by (auto simp: take_next_def split: if_splits list.splits)
  then have "if pendingUser q \<noteq> [] then
         t = (case filter (\<lambda>u. source u \<noteq> ''group-member'') (pendingUser q) of
                [] \<Rightarrow> hd (pendingUser q) | u # _ \<Rightarrow> u)
       else if pendingAgent q \<noteq> [] then t = hd (pendingAgent q)
       else t = hd (pendingBackground q)"
    by cases (use pick in \<open>simp_all\<close>)
  with start show ?thesis by blast
qed

text \<open>A user's own message overtakes an earlier group turn and every other lane.\<close>

theorem pump_respects_lanes_witness:
  "started_ids (snd (pump \<lparr>watchdogMs = 10, watchdogGraceMs = 5\<rparr> False 7
      (new_queue\<lparr>pendingUser := [\<lparr>task_id = 1, lane = UserLane, source = ''group-member'',
           enqueuedAtMs = 1, acceptedAtMs = None, ackToken = None\<rparr>,
         \<lparr>task_id = 2, lane = UserLane, source = ''send'', enqueuedAtMs = 2, acceptedAtMs = None,
           ackToken = None\<rparr>]\<rparr>))) = [2]"
proof -
  let ?q = "new_queue\<lparr>pendingUser := [\<lparr>task_id = 1, lane = UserLane, source = ''group-member'',
           enqueuedAtMs = 1, acceptedAtMs = None, ackToken = None\<rparr>,
         \<lparr>task_id = 2, lane = UserLane, source = ''send'', enqueuedAtMs = 2, acceptedAtMs = None,
           ackToken = None\<rparr>]\<rparr>"
  let ?o = "\<lparr>watchdogMs = 10, watchdogGraceMs = 5\<rparr>"
  have "\<not> False" "active ?q = None" by (auto simp: new_queue_def)
  from pump_respects_lanes[OF this surjective_pairing, of ?o 7]
  show ?thesis by (auto simp: new_queue_def queue_tasks_def)
qed

text \<open>A run of the host used by the witnesses: two user tasks, the first one is started.\<close>

definition demo_options :: scheduler_options where
  "demo_options = \<lparr>watchdogMs = 10, watchdogGraceMs = 5\<rparr>"

definition demo_task :: "nat \<Rightarrow> millis \<Rightarrow> run_task" where
  "demo_task i at = \<lparr>task_id = i, lane = UserLane, source = ''send'', enqueuedAtMs = at,
     acceptedAtMs = None, ackToken = None\<rparr>"

definition demo_events :: "scheduler_event list" where
  "demo_events = [Enqueue ''a'' (demo_task 1 0), PumpMicrotask ''a'' 1, Enqueue ''a'' (demo_task 2 2),
     PumpMicrotask ''a'' 2]"

lemmas demo_eval = demo_options_def demo_task_def demo_events_def new_scheduler_def on_queue_def
  queueFor_def new_queue_def enqueue_def push_task_def armWatchdog_def disarmWatchdog_def
  waitedBehindActiveMs_def pump_microtask_def pump_def take_next_def takeNextUserTask_def
  pendingAhead_def jm_set_def queue_tasks_def is_current_run_def watchdog_timer_fires_def
  onWatchdogFired_def grace_timer_fires_def escapeWedgedRun_def set_add_def Let_def

text \<open>
  Property C20. No task is lost and none runs twice: in every reachable state, for every
  agent, each accepted task is waiting in exactly one lane or was started, as often as it
  was accepted.
\<close>

theorem scheduler_conserves_tasks:
  assumes "s = foldl (scheduler_step opts) new_scheduler es"
  shows "mset (accepted_ids (effects s a)) =
      image_mset task_id (mset (queue_tasks (queueFor s a))) + mset (started_ids (effects s a))"
  using reachable_queue_inv[OF assms, of a] by (simp add: queue_inv_def conserved_def)

theorem scheduler_conserves_tasks_witness:
  "mset (accepted_ids (effects (foldl (scheduler_step demo_options) new_scheduler demo_events) ''a'')) =
     {#1, 2#}"
  using scheduler_conserves_tasks[OF refl, of demo_options demo_events "''a''"]
  by (simp add: demo_eval)

text \<open>
  Fact. One run at a time: in every reachable state every run in flight for an agent
  is the active run or a run the watchdog escaped from, no two have the same generation, and
  the active run is the newest one.
\<close>

theorem scheduler_single_flight:
  assumes "s = foldl (scheduler_step opts) new_scheduler es"
    and "r \<in> set (inFlight (queueFor s a))"
  shows "(is_current_run (queueFor s a) r \<or> generation r \<in> set (zombies (queueFor s a))) \<and>
    generation r \<le> generationCounter (queueFor s a) \<and>
    distinct (map generation (inFlight (queueFor s a)))"
  using reachable_queue_inv[OF assms(1), of a] assms(2) by (auto simp: queue_inv_def runs_ok_def)

theorem scheduler_single_flight_witness:
  "is_current_run (queueFor (foldl (scheduler_step demo_options) new_scheduler demo_events) ''a'')
     \<lparr>item = demo_task 1 0, startedAtMs = 1, generation = 1, phase = Running\<rparr>"
  using scheduler_single_flight[OF refl, of "\<lparr>item = demo_task 1 0, startedAtMs = 1, generation = 1,
      phase = Running\<rparr>" demo_options demo_events "''a''"]
  by (simp add: demo_eval)

text \<open>
  Property C21. The scheduler never stalls: until it is disposed, in every reachable state,
  waiting work has an active run or a pump already queued, and a user task that waits behind
  a run has the watchdog or the grace timer running, so a wedged run is always noticed.
\<close>

theorem scheduler_never_stalls:
  assumes "s = foldl (scheduler_step opts) new_scheduler es" and "\<not> disposed s"
  shows "(queue_tasks (queueFor s a) \<noteq> [] \<longrightarrow>
        active (queueFor s a) \<noteq> None \<or> pumpsQueued (queueFor s a) > 0) \<and>
    (pendingUser (queueFor s a) \<noteq> [] \<and> active (queueFor s a) \<noteq> None \<longrightarrow>
        watchdogTimer (queueFor s a) \<noteq> None \<or> graceTimer (queueFor s a) \<noteq> None)"
  using reachable_queue_inv[OF assms(1), of a] assms(2)
  by (auto simp: queue_inv_def watched_def pumped_def)

theorem scheduler_never_stalls_witness:
  "\<not> (watchdogTimer (queueFor (foldl (scheduler_step demo_options) new_scheduler demo_events) ''a'') = None \<and>
      graceTimer (queueFor (foldl (scheduler_step demo_options) new_scheduler demo_events) ''a'') = None)"
proof -
  have "\<not> disposed (foldl (scheduler_step demo_options) new_scheduler demo_events)"
    by (simp add: demo_eval)
  from scheduler_never_stalls[OF refl this, of "''a''"] show ?thesis
    by (simp add: demo_eval)
qed

text \<open>
  Fact. A run the watchdog escaped from cannot disturb its successor: when it settles
  at last, the active run, the three lanes and the timers stay as they are.
\<close>

theorem escaped_run_settles_quietly:
  assumes "s = foldl (scheduler_step opts) new_scheduler es"
    and "gen \<in> set (zombies (queueFor s a))"
    and "run_settles opts d now gen failed (queueFor s a) = (q', effs)"
  shows "active q' = active (queueFor s a) \<and> queue_tasks q' = queue_tasks (queueFor s a) \<and>
    watchdogTimer q' = watchdogTimer (queueFor s a) \<and> graceTimer q' = graceTimer (queueFor s a) \<and>
    started_ids effs = []"
proof -
  let ?q = "queueFor s a"
  have "runs_ok ?q" using reachable_queue_inv[OF assms(1), of a] by (simp add: queue_inv_def)
  with assms(2) have "map_option generation (active ?q) \<noteq> Some gen"
    by (auto simp: runs_ok_def)
  then show ?thesis using assms(3)
    by (auto simp: run_settles_def onTaskSettled_def is_current_run_def Let_def queue_tasks_def
        dest!: find_SomeD split: option.splits if_splits)
qed

theorem escaped_run_settles_quietly_witness:
  defines "s \<equiv> foldl (scheduler_step demo_options) new_scheduler
     (demo_events @ [WatchdogTimer ''a'' 20 True, GraceTimer ''a'' 30])"
  shows "map_option (task_id \<circ> item)
     (active (fst (run_settles demo_options False 40 1 False (queueFor s ''a'')))) = Some 2"
proof -
  have z: "1 \<in> set (zombies (queueFor s ''a''))" by (simp add: s_def demo_eval)
  have act: "map_option (task_id \<circ> item) (active (queueFor s ''a'')) = Some 2"
    by (simp add: s_def demo_eval)
  from escaped_run_settles_quietly[OF s_def[THEN meta_eq_to_obj_eq] z surjective_pairing, of False 40 False] act
  show ?thesis by simp
qed

end
