(* ===== verification/Acceptance_Ledger.thy ===== *)
theory Acceptance_Ledger
  imports Js_Prelude
begin

text \<open>
  The prompt acceptance ledger (\<^verbatim>\<open>host/extensions/transcript/prompt-acceptance-ledger.ts\<close>): it
  remembers which client nonces were already sent, so that a resent prompt is not run twice.
  It is a map of at most \<^verbatim>\<open>MAX_RECORDS\<close> records mirrored to one JSON file; what it can no
  longer know (evicted records, failed writes, a corrupt file) is kept as history gaps.

  The state is the ledger object together with the disk it writes: the ledger file, the
  degraded marker beside it and the copies made of corrupt files. Every call reads the clock
  and the outcome of its file operations from an environment, one field per reading, so that
  any sequence of write failures and clock values is covered. A restart drops the object and
  keeps the disk. The digest of an input (SHA-256 of its canonical JSON) is an opaque string.
\<close>

subsection \<open>Records, gaps and their JSON\<close>

definition MAX_RECORDS :: nat where "MAX_RECORDS = 256"
definition MAX_DEGRADED_WINDOWS :: nat where "MAX_DEGRADED_WINDOWS = 8"

text \<open>
  The three statuses. The check of a status read from disk is
  \<^verbatim>\<open>[..].includes(String(e.status))\<close>, which a one-element array of the name passes as well; the
  record then keeps the array, which equals none of the three.
\<close>

datatype acceptance_status = Accepted | Rejected | Pending | Uncoerced json

record acceptance_record =
  r_accountSlot :: string
  r_clientNonce :: string
  r_inputDigest :: string
  r_status :: acceptance_status
  r_acceptedAtMs :: millis
  r_agentId :: string
  r_echoEntryId :: "string option"
  r_rejectionCode :: "string option"

record degraded_window =
  w_fromMs :: millis
  w_toMs :: millis

record acceptance_gaps =
  g_evictionHorizonMs :: "millis option"
  g_degradedWindows :: "degraded_window list"
  g_corruptResetAtMs :: "millis option"

definition EMPTY_GAPS :: acceptance_gaps where
  "EMPTY_GAPS = \<lparr>g_evictionHorizonMs = None, g_degradedWindows = [], g_corruptResetAtMs = None\<rparr>"

definition or_empty :: "acceptance_gaps option \<Rightarrow> acceptance_gaps" where
  "or_empty gaps = (case gaps of None \<Rightarrow> EMPTY_GAPS | Some g \<Rightarrow> g)"

definition withEvictionHorizon :: "acceptance_gaps option \<Rightarrow> millis \<Rightarrow> acceptance_gaps" where
  "withEvictionHorizon gaps acceptedAtMs =
     (let base = or_empty gaps
      in base\<lparr>g_evictionHorizonMs :=
           Some (max (case g_evictionHorizonMs base of None \<Rightarrow> acceptedAtMs | Some h \<Rightarrow> h) acceptedAtMs)\<rparr>)"

text \<open>\<^verbatim>\<open>slice(0, -1)\<close> is \<^const>\<open>butlast\<close>; the list is not empty where \<^verbatim>\<open>at(-1)\<close> is read.\<close>

definition withDegradedWindow :: "acceptance_gaps option \<Rightarrow> degraded_window \<Rightarrow> acceptance_gaps" where
  "withDegradedWindow gaps window =
     (let base = or_empty gaps; ws = g_degradedWindows base
      in if length ws \<ge> MAX_DEGRADED_WINDOWS
         then let lst = (if ws = [] then window else last ws)
              in base\<lparr>g_degradedWindows := butlast ws @
                   [\<lparr>w_fromMs = min (w_fromMs lst) (w_fromMs window),
                     w_toMs = max (w_toMs lst) (w_toMs window)\<rparr>]\<rparr>
         else base\<lparr>g_degradedWindows := ws @ [window]\<rparr>)"

definition withCorruptReset :: "acceptance_gaps option \<Rightarrow> millis \<Rightarrow> acceptance_gaps" where
  "withCorruptReset gaps atMs =
     (let base = or_empty gaps
      in base\<lparr>g_corruptResetAtMs :=
           Some (max (case g_corruptResetAtMs base of None \<Rightarrow> atMs | Some t \<Rightarrow> t) atMs)\<rparr>)"

text \<open>
  \<^verbatim>\<open>String(v)\<close> as far as the status check can tell: \<^term>\<open>None\<close> for a value whose text is none of
  the three names (numbers, booleans, objects, arrays of several elements).
\<close>

fun status_text :: "json \<Rightarrow> string option" where
  "status_text (JStr s) = Some s"
| "status_text (JArr [v]) = status_text v"
| "status_text _ = None"

definition coerce_status :: "json option \<Rightarrow> acceptance_status option" where
  "coerce_status v =
     (case v of None \<Rightarrow> None
      | Some j \<Rightarrow>
        if status_text j \<notin> {Some ''accepted'', Some ''rejected'', Some ''pending''} then None
        else Some (if j = JStr ''accepted'' then Accepted
                   else if j = JStr ''rejected'' then Rejected
                   else if j = JStr ''pending'' then Pending
                   else Uncoerced j))"

definition non_empty_string :: "json option \<Rightarrow> string option" where
  "non_empty_string v = (case as_string v of Some s \<Rightarrow> if s = '''' then None else Some s | None \<Rightarrow> None)"

definition coerceAcceptanceRecord :: "json \<Rightarrow> acceptance_record option" where
  "coerceAcceptanceRecord e =
     (if \<not> is_object e then None
      else case (non_empty_string (jget e ''accountSlot''), non_empty_string (jget e ''clientNonce''),
                 non_empty_string (jget e ''inputDigest''), as_string (jget e ''agentId''),
                 coerce_status (jget e ''status''), as_finite (jget e ''acceptedAtMs'')) of
        (Some slot, Some nonce, Some digest, Some agent, Some st, Some at) \<Rightarrow>
          Some \<lparr>r_accountSlot = slot, r_clientNonce = nonce, r_inputDigest = digest, r_status = st,
                r_acceptedAtMs = at, r_agentId = agent,
                r_echoEntryId = as_string (jget e ''echoEntryId''),
                r_rejectionCode = as_string (jget e ''rejectionCode'')\<rparr>
      | _ \<Rightarrow> None)"

text \<open>\<^verbatim>\<open>coerceGaps\<close> answers null, \<^verbatim>\<open>"malformed"\<close> or the gaps.\<close>

datatype coerced_gaps = NoGaps | Malformed | Gaps acceptance_gaps

definition coerce_window :: "json \<Rightarrow> degraded_window option" where
  "coerce_window w =
     (if \<not> is_object w then None
      else case (as_finite (jget w ''fromMs''), as_finite (jget w ''toMs'')) of
        (Some a, Some b) \<Rightarrow> Some \<lparr>w_fromMs = a, w_toMs = b\<rparr> | _ \<Rightarrow> None)"

fun coerce_windows :: "json list \<Rightarrow> degraded_window list option" where
  "coerce_windows [] = Some []"
| "coerce_windows (w # ws) =
     (case coerce_window w of None \<Rightarrow> None
      | Some x \<Rightarrow> map_option (\<lambda>xs. x # xs) (coerce_windows ws))"

text \<open>A nullable finite number: \<^term>\<open>None\<close> when the field is neither null nor finite.\<close>

definition nullable_finite :: "json option \<Rightarrow> millis option option" where
  "nullable_finite v = (if nullish v then Some None else map_option Some (as_finite v))"

definition coerceGaps :: "json option \<Rightarrow> coerced_gaps" where
  "coerceGaps value =
     (if nullish value then NoGaps
      else let v = the value in
        if \<not> is_object v then Malformed
        else case (nullable_finite (jget v ''evictionHorizonMs''),
                   nullable_finite (jget v ''corruptResetAtMs''), jget v ''degradedWindows'') of
          (Some horizon, Some reset, Some (JArr ws)) \<Rightarrow>
            (case coerce_windows ws of None \<Rightarrow> Malformed
             | Some windows \<Rightarrow> Gaps \<lparr>g_evictionHorizonMs = horizon, g_degradedWindows = windows,
                                   g_corruptResetAtMs = reset\<rparr>)
        | _ \<Rightarrow> Malformed)"

record parsed_file =
  p_records :: "acceptance_record list"
  p_gaps :: "acceptance_gaps option"
  p_damaged :: bool

definition parseSendAcceptanceFile :: "disk_file \<Rightarrow> parsed_file" where
  "parseSendAcceptanceFile raw =
     (case raw of
        NoFile \<Rightarrow> \<lparr>p_records = [], p_gaps = None, p_damaged = False\<rparr>
      | Garbage \<Rightarrow> \<lparr>p_records = [], p_gaps = None, p_damaged = True\<rparr>
      | Contents value \<Rightarrow>
          (case jget value ''records'' of
             Some (JArr entries) \<Rightarrow>
               let coerced = map coerceAcceptanceRecord entries;
                   damaged = (None \<in> set coerced);
                   records = map the (filter (\<lambda>r. r \<noteq> None) coerced)
               in (case coerceGaps (jget value ''historyGaps'') of
                     Malformed \<Rightarrow> \<lparr>p_records = records, p_gaps = None, p_damaged = True\<rparr>
                   | NoGaps \<Rightarrow> \<lparr>p_records = records, p_gaps = None, p_damaged = damaged\<rparr>
                   | Gaps g \<Rightarrow> \<lparr>p_records = records, p_gaps = Some g, p_damaged = damaged\<rparr>)
           | _ \<Rightarrow> \<lparr>p_records = [], p_gaps = None, p_damaged = True\<rparr>))"

definition recordKey :: "string \<Rightarrow> string \<Rightarrow> string" where
  "recordKey accountSlot clientNonce = accountSlot @ CHR 0x00 # clientNonce"

definition key_of :: "acceptance_record \<Rightarrow> string" where
  "key_of r = recordKey (r_accountSlot r) (r_clientNonce r)"

subsection \<open>What persist writes\<close>

fun status_json :: "acceptance_status \<Rightarrow> json" where
  "status_json Accepted = JStr ''accepted''"
| "status_json Rejected = JStr ''rejected''"
| "status_json Pending = JStr ''pending''"
| "status_json (Uncoerced j) = j"

definition nullable_json :: "('a \<Rightarrow> json) \<Rightarrow> 'a option \<Rightarrow> json" where
  "nullable_json f v = (case v of None \<Rightarrow> JNull | Some x \<Rightarrow> f x)"

definition record_json :: "acceptance_record \<Rightarrow> json" where
  "record_json r = JObj
     [(''accountSlot'', JStr (r_accountSlot r)), (''clientNonce'', JStr (r_clientNonce r)),
      (''inputDigest'', JStr (r_inputDigest r)), (''status'', status_json (r_status r)),
      (''acceptedAtMs'', JNum (r_acceptedAtMs r)), (''agentId'', JStr (r_agentId r)),
      (''echoEntryId'', nullable_json JStr (r_echoEntryId r)),
      (''rejectionCode'', nullable_json JStr (r_rejectionCode r))]"

definition window_json :: "degraded_window \<Rightarrow> json" where
  "window_json w = JObj [(''fromMs'', JNum (w_fromMs w)), (''toMs'', JNum (w_toMs w))]"

definition gaps_json :: "acceptance_gaps \<Rightarrow> json" where
  "gaps_json g = JObj
     [(''evictionHorizonMs'', nullable_json JNum (g_evictionHorizonMs g)),
      (''degradedWindows'', JArr (map window_json (g_degradedWindows g))),
      (''corruptResetAtMs'', nullable_json JNum (g_corruptResetAtMs g))]"

type_synonym records = "(string, acceptance_record) js_map"

definition ledger_file :: "records \<Rightarrow> acceptance_gaps option \<Rightarrow> json" where
  "ledger_file recs gaps = JObj
     ([(''version'', JNum 1), (''records'', JArr (map (record_json \<circ> snd) recs))] @
      (case gaps of None \<Rightarrow> [] | Some g \<Rightarrow> [(''historyGaps'', gaps_json g)]))"

definition marker_file :: "millis option \<Rightarrow> json" where
  "marker_file since = JObj [(''version'', JNum 1), (''sinceMs'', nullable_json JNum since)]"

subsection \<open>The ledger\<close>

text \<open>Outcomes of the file operations and clock readings of one \<^verbatim>\<open>persist\<close>.\<close>

record persist_env =
  pe_now :: millis
  pe_write_ok :: bool
  pe_marker_write_ok :: bool
  pe_marker_rm_ok :: bool

text \<open>
  The same for one call of an operation: the readings of the first \<^verbatim>\<open>load\<close> and the persist it
  may run, the acceptance time of a new record, and the operation's own persist.
\<close>

record call_env =
  e_read_ok :: bool
  e_marker_read_ok :: bool
  e_copy_ok :: bool
  e_copyAt :: millis
  e_resetAt :: millis
  e_windowTo :: millis
  e_loadPersist :: persist_env
  e_acceptedAt :: millis
  e_persist :: persist_env

record loaded =
  l_records :: records
  l_gaps :: "acceptance_gaps option"

record ledger =
  hasFilePath :: bool
  loaded :: "loaded option"
  degradedSinceMs :: "millis option"
  markerMayExist :: bool
  disk_main :: disk_file
  disk_marker :: disk_file
  disk_corrupt :: "(millis \<times> disk_file) list"

definition readDegradedMarker :: "ledger \<Rightarrow> millis option" where
  "readDegradedMarker l =
     (if \<not> hasFilePath l then None
      else case disk_marker l of
        Contents v \<Rightarrow> if v = JNull then None
                      else Some (case as_finite (jget v ''sinceMs'') of Some n \<Rightarrow> n | None \<Rightarrow> 0)
      | _ \<Rightarrow> None)"

text \<open>Both exits of the \<^verbatim>\<open>try\<close> block: the write that failed, and the one that succeeded.\<close>

definition persist_failed :: "persist_env \<Rightarrow> ledger \<Rightarrow> ledger" where
  "persist_failed pe l =
     (let since = (case degradedSinceMs l of None \<Rightarrow> Some (pe_now pe) | s \<Rightarrow> s);
          l1 = l\<lparr>degradedSinceMs := since\<rparr>
      in if \<not> markerMayExist l1 \<and> pe_marker_write_ok pe
         then l1\<lparr>disk_marker := Contents (marker_file since), markerMayExist := True\<rparr>
         else l1)"

definition persist :: "persist_env \<Rightarrow> ledger \<Rightarrow> ledger" where
  "persist pe l =
     (if \<not> hasFilePath l then l
      else case loaded l of None \<Rightarrow> l
      | Some ld \<Rightarrow>
        (let gaps = (case degradedSinceMs l of None \<Rightarrow> l_gaps ld
                     | Some since \<Rightarrow> Some (withDegradedWindow (l_gaps ld)
                                            \<lparr>w_fromMs = since, w_toMs = pe_now pe\<rparr>))
         in if \<not> pe_write_ok pe then persist_failed pe l
            else let l1 = l\<lparr>disk_main := Contents (ledger_file (l_records ld) gaps),
                            loaded := Some (ld\<lparr>l_gaps := gaps\<rparr>), degradedSinceMs := None\<rparr>
                 in if markerMayExist l1 \<and> pe_marker_rm_ok pe
                    then l1\<lparr>disk_marker := NoFile, markerMayExist := False\<rparr> else l1))"

definition records_map :: "acceptance_record list \<Rightarrow> records" where
  "records_map rs = foldl (\<lambda>m (k, r). jm_set m k r) [] (map (\<lambda>r. (key_of r, r)) rs)"

text \<open>What the two reads of a load give: a read that fails is taken for a file that is not there.\<close>

definition read_main :: "call_env \<Rightarrow> ledger \<Rightarrow> disk_file" where
  "read_main e l = (if hasFilePath l \<and> e_read_ok e then disk_main l else NoFile)"

definition read_marker :: "call_env \<Rightarrow> ledger \<Rightarrow> millis option" where
  "read_marker e l = (if e_marker_read_ok e then readDegradedMarker l else None)"

text \<open>\<^verbatim>\<open>load()\<close>: the object after it; the loaded part is \<open>the (loaded ...)\<close>.\<close>

definition load :: "call_env \<Rightarrow> ledger \<Rightarrow> ledger" where
  "load e l =
     (case loaded l of Some _ \<Rightarrow> l
      | None \<Rightarrow>
        (let parsed = parseSendAcceptanceFile (read_main e l);
             reset = p_damaged parsed \<and> hasFilePath l;
             l1 = (if reset \<and> e_copy_ok e
                   then l\<lparr>disk_corrupt := disk_corrupt l @ [(e_copyAt e, disk_main l)]\<rparr> else l);
             gaps1 = (if reset then Some (withCorruptReset (p_gaps parsed) (e_resetAt e))
                      else p_gaps parsed);
             marker = read_marker e l1;
             gaps2 = (case marker of None \<Rightarrow> gaps1
                      | Some since \<Rightarrow> Some (withDegradedWindow gaps1
                                            \<lparr>w_fromMs = since, w_toMs = e_windowTo e\<rparr>));
             l2 = (if marker = None then l1 else l1\<lparr>markerMayExist := True\<rparr>);
             l3 = l2\<lparr>loaded := Some \<lparr>l_records = records_map (p_records parsed), l_gaps = gaps2\<rparr>\<rparr>
         in if p_damaged parsed \<or> marker \<noteq> None then persist (e_loadPersist e) l3 else l3))"

definition the_loaded :: "ledger \<Rightarrow> loaded" where
  "the_loaded l = the (loaded l)"

datatype lookup_outcome = Found acceptance_record | UnknownDurability | NotFound

definition lookup_loaded :: "ledger \<Rightarrow> string \<Rightarrow> lookup_outcome" where
  "lookup_loaded l key =
     (case jm_get (l_records (the_loaded l)) key of
        Some r \<Rightarrow> Found r
      | None \<Rightarrow> if l_gaps (the_loaded l) \<noteq> None \<or> degradedSinceMs l \<noteq> None
                then UnknownDurability else NotFound)"

definition lookup :: "call_env \<Rightarrow> string \<Rightarrow> string \<Rightarrow> ledger \<Rightarrow> ledger \<times> lookup_outcome" where
  "lookup e accountSlot clientNonce l =
     (let l1 = load e l in (l1, lookup_loaded l1 (recordKey accountSlot clientNonce)))"

datatype ledger_error =
    PromptAcceptanceDigestMismatchError string
  | PromptAcceptanceRejectedError string

datatype admission = Dispatch | Duplicate acceptance_record

definition admitSend ::
  "call_env \<Rightarrow> string \<Rightarrow> string \<Rightarrow> string \<Rightarrow> ledger \<Rightarrow> ledger \<times> (ledger_error + admission)" where
  "admitSend e accountSlot clientNonce inputDigest l =
     (let (l1, found) = lookup e accountSlot clientNonce l
      in (l1, case found of
            Found r \<Rightarrow>
              if r_inputDigest r \<noteq> inputDigest then Inl (PromptAcceptanceDigestMismatchError clientNonce)
              else if r_status r = Rejected
              then Inl (PromptAcceptanceRejectedError
                     (case r_rejectionCode r of None \<Rightarrow> ''unknown'' | Some c \<Rightarrow> c))
              else Inr (Duplicate r)
          | _ \<Rightarrow> Inr Dispatch))"

definition set_records :: "records \<Rightarrow> ledger \<Rightarrow> ledger" where
  "set_records m l = l\<lparr>loaded := Some ((the_loaded l)\<lparr>l_records := m\<rparr>)\<rparr>"

text \<open>The scan of \<^verbatim>\<open>evictPastCap\<close>: the first pending key before it, the first completed key.\<close>

fun evict_scan :: "records \<Rightarrow> string option \<Rightarrow> string option \<times> string option" where
  "evict_scan [] pending = (pending, None)"
| "evict_scan ((k, r) # rest) pending =
     (if r_status r = Pending
      then evict_scan rest (case pending of None \<Rightarrow> Some k | p \<Rightarrow> p)
      else (pending, Some k))"

definition evict_victim :: "records \<Rightarrow> string option" where
  "evict_victim m = (case evict_scan m None of (pending, completed) \<Rightarrow>
     (case completed of Some k \<Rightarrow> Some k | None \<Rightarrow> pending))"

text \<open>Every caller has run \<^const>\<open>load\<close> before, so the \<^verbatim>\<open>load()\<close> of the source returns what is there.\<close>

definition evictPastCap :: "ledger \<Rightarrow> ledger" where
  "evictPastCap l =
     (let ld = the_loaded l; m = l_records ld
      in if length m \<le> MAX_RECORDS then l
         else case evict_victim m of None \<Rightarrow> l
         | Some key \<Rightarrow>
             l\<lparr>loaded := Some (ld\<lparr>l_records := jm_delete m key,
                 l_gaps := (case jm_get m key of None \<Rightarrow> l_gaps ld
                            | Some r \<Rightarrow> Some (withEvictionHorizon (l_gaps ld) (r_acceptedAtMs r)))\<rparr>)\<rparr>)"

record pending_input =
  i_accountSlot :: string
  i_clientNonce :: string
  i_inputDigest :: string
  i_agentId :: string
  i_echoEntryId :: "string option"

definition pending_record :: "call_env \<Rightarrow> pending_input \<Rightarrow> acceptance_record" where
  "pending_record e i =
     \<lparr>r_accountSlot = i_accountSlot i, r_clientNonce = i_clientNonce i,
      r_inputDigest = i_inputDigest i, r_status = Pending, r_acceptedAtMs = e_acceptedAt e,
      r_agentId = i_agentId i, r_echoEntryId = i_echoEntryId i, r_rejectionCode = None\<rparr>"

definition recordPending ::
  "call_env \<Rightarrow> pending_input \<Rightarrow> ledger \<Rightarrow> ledger \<times> (ledger_error + acceptance_record)" where
  "recordPending e i l =
     (let key = recordKey (i_accountSlot i) (i_clientNonce i); l1 = load e l
      in case jm_get (l_records (the_loaded l1)) key of
           Some existing \<Rightarrow>
             if r_inputDigest existing \<noteq> i_inputDigest i
             then (l1, Inl (PromptAcceptanceDigestMismatchError (i_clientNonce i)))
             else (l1, Inr existing)
         | None \<Rightarrow>
             (let r = pending_record e i;
                  l2 = set_records (jm_set (l_records (the_loaded l1)) key r) l1;
                  l3 = evictPastCap l2
              in (persist (e_persist e) l3, Inr r)))"

definition settle_pending ::
  "call_env \<Rightarrow> string \<Rightarrow> (acceptance_record \<Rightarrow> acceptance_record) \<Rightarrow> ledger \<Rightarrow> ledger" where
  "settle_pending e key upd l =
     (let l1 = load e l
      in case jm_get (l_records (the_loaded l1)) key of
           Some existing \<Rightarrow>
             if r_status existing = Pending
             then persist (e_persist e)
                    (set_records (jm_set (l_records (the_loaded l1)) key (upd existing)) l1)
             else l1
         | None \<Rightarrow> l1)"

definition markAccepted :: "call_env \<Rightarrow> string \<Rightarrow> string \<Rightarrow> ledger \<Rightarrow> ledger" where
  "markAccepted e accountSlot clientNonce =
     settle_pending e (recordKey accountSlot clientNonce) (\<lambda>r. r\<lparr>r_status := Accepted\<rparr>)"

definition markRejected :: "call_env \<Rightarrow> string \<Rightarrow> string \<Rightarrow> string \<Rightarrow> ledger \<Rightarrow> ledger" where
  "markRejected e accountSlot clientNonce rejectionCode =
     settle_pending e (recordKey accountSlot clientNonce)
       (\<lambda>r. r\<lparr>r_status := Rejected, r_rejectionCode := Some rejectionCode\<rparr>)"

definition clear :: "call_env \<Rightarrow> string \<Rightarrow> string \<Rightarrow> ledger \<Rightarrow> ledger" where
  "clear e accountSlot clientNonce l =
     (let key = recordKey accountSlot clientNonce; l1 = load e l; m = l_records (the_loaded l1)
      in if jm_get m key \<noteq> None
         then persist (e_persist e) (set_records (jm_delete m key) l1) else l1)"

definition clearUnlessAccepted :: "call_env \<Rightarrow> string \<Rightarrow> string \<Rightarrow> ledger \<Rightarrow> ledger" where
  "clearUnlessAccepted e accountSlot clientNonce l =
     (let l1 = load e l
      in if map_option r_status
              (jm_get (l_records (the_loaded l1)) (recordKey accountSlot clientNonce)) \<noteq> Some Accepted
         then clear e accountSlot clientNonce l1 else l1)"

definition dispose :: "call_env \<Rightarrow> ledger \<Rightarrow> ledger" where
  "dispose e = persist (e_persist e)"

definition new_ledger :: "bool \<Rightarrow> disk_file \<Rightarrow> disk_file \<Rightarrow> ledger" where
  "new_ledger path main marker =
     \<lparr>hasFilePath = path, loaded = None, degradedSinceMs = None, markerMayExist = False,
      disk_main = main, disk_marker = marker, disk_corrupt = []\<rparr>"

definition restart :: "ledger \<Rightarrow> ledger" where
  "restart l = l\<lparr>loaded := None, degradedSinceMs := None, markerMayExist := False\<rparr>"

text \<open>
  The calls a host makes, a process restart (with or without \<^verbatim>\<open>dispose\<close> before it), and damage to
  the ledger file from outside.
\<close>

datatype ledger_event =
    EvLookup call_env string string
  | EvAdmit call_env string string string
  | EvPending call_env pending_input
  | EvAccepted call_env string string
  | EvRejected call_env string string string
  | EvClear call_env string string
  | EvClearUnlessAccepted call_env string string
  | EvDispose call_env
  | EvRestart
  | EvDamage

fun ledger_step :: "ledger \<Rightarrow> ledger_event \<Rightarrow> ledger" where
  "ledger_step l (EvLookup e a n) = fst (lookup e a n l)"
| "ledger_step l (EvAdmit e a n d) = fst (admitSend e a n d l)"
| "ledger_step l (EvPending e i) = fst (recordPending e i l)"
| "ledger_step l (EvAccepted e a n) = markAccepted e a n l"
| "ledger_step l (EvRejected e a n c) = markRejected e a n c l"
| "ledger_step l (EvClear e a n) = clear e a n l"
| "ledger_step l (EvClearUnlessAccepted e a n) = clearUnlessAccepted e a n l"
| "ledger_step l (EvDispose e) = dispose e l"
| "ledger_step l EvRestart = restart l"
| "ledger_step l EvDamage = l\<lparr>disk_main := Garbage\<rparr>"

subsection \<open>What is written is read back\<close>

lemma jget_record_json [simp]:
  "jget (record_json r) ''accountSlot'' = Some (JStr (r_accountSlot r))"
  "jget (record_json r) ''clientNonce'' = Some (JStr (r_clientNonce r))"
  "jget (record_json r) ''inputDigest'' = Some (JStr (r_inputDigest r))"
  "jget (record_json r) ''status'' = Some (status_json (r_status r))"
  "jget (record_json r) ''acceptedAtMs'' = Some (JNum (r_acceptedAtMs r))"
  "jget (record_json r) ''agentId'' = Some (JStr (r_agentId r))"
  "jget (record_json r) ''echoEntryId'' = Some (nullable_json JStr (r_echoEntryId r))"
  "jget (record_json r) ''rejectionCode'' = Some (nullable_json JStr (r_rejectionCode r))"
  "is_object (record_json r)"
  by (simp_all add: record_json_def)

lemma as_string_nullable [simp]: "as_string (Some (nullable_json JStr v)) = v"
  by (cases v) (simp_all add: nullable_json_def)

definition record_ok :: "acceptance_record \<Rightarrow> bool" where
  "record_ok r \<longleftrightarrow> r_accountSlot r \<noteq> '''' \<and> r_clientNonce r \<noteq> '''' \<and> r_inputDigest r \<noteq> '''' \<and>
     coerce_status (Some (status_json (r_status r))) = Some (r_status r)"

lemma record_ok_simple_status:
  "r_status r \<in> {Accepted, Rejected, Pending} \<Longrightarrow>
   record_ok r \<longleftrightarrow> r_accountSlot r \<noteq> '''' \<and> r_clientNonce r \<noteq> '''' \<and> r_inputDigest r \<noteq> ''''"
  by (auto simp: record_ok_def coerce_status_def)

lemma coerce_status_stable: "coerce_status v = Some st \<Longrightarrow> coerce_status (Some (status_json st)) = Some st"
  by (auto simp: coerce_status_def split: option.splits if_splits)

lemma coerce_record_json: "record_ok r \<Longrightarrow> coerceAcceptanceRecord (record_json r) = Some r"
  by (simp add: coerceAcceptanceRecord_def record_ok_def non_empty_string_def)

lemma coerce_record_json_key:
  "coerceAcceptanceRecord (record_json r) = Some r' \<Longrightarrow> key_of r' = key_of r"
  by (auto simp: coerceAcceptanceRecord_def non_empty_string_def key_of_def split: option.splits if_splits)

lemma coerced_record_ok: "coerceAcceptanceRecord j = Some r \<Longrightarrow> record_ok r"
  by (auto simp: coerceAcceptanceRecord_def record_ok_def non_empty_string_def coerce_status_stable
      split: option.splits if_splits)

lemma coerce_windows_json: "coerce_windows (map window_json ws) = Some ws"
  by (induction ws) (auto simp: coerce_window_def window_json_def)

lemma nullable_finite_json [simp]: "nullable_finite (Some (nullable_json JNum v)) = Some v"
  by (cases v) (auto simp: nullable_finite_def nullish_def nullable_json_def)

lemma coerce_gaps_json: "coerceGaps (Some (gaps_json g)) = Gaps g"
  by (simp add: coerceGaps_def nullish_def gaps_json_def coerce_windows_json)

lemma jget_ledger_file [simp]:
  "jget (ledger_file m g) ''records'' = Some (JArr (map (record_json \<circ> snd) m))"
  "jget (ledger_file m g) ''historyGaps'' = map_option gaps_json g"
  by (auto simp: ledger_file_def split: option.splits)

lemma coerceGaps_None: "coerceGaps None = NoGaps"
  by (simp add: coerceGaps_def nullish_def)

lemma parse_ledger_file:
  "parseSendAcceptanceFile (Contents (ledger_file m g)) =
     \<lparr>p_records = map the (filter (\<lambda>r. r \<noteq> None) (map (coerceAcceptanceRecord \<circ> record_json \<circ> snd) m)),
      p_gaps = g, p_damaged = (None \<in> (coerceAcceptanceRecord \<circ> record_json \<circ> snd) ` set m)\<rparr>"
  by (cases g) (simp_all add: parseSendAcceptanceFile_def coerce_gaps_json coerceGaps_None Let_def comp_def)

lemma parse_ledger_file_ok:
  assumes "\<forall>p \<in> set m. record_ok (snd p)"
  shows "parseSendAcceptanceFile (Contents (ledger_file m g)) =
     \<lparr>p_records = map snd m, p_gaps = g, p_damaged = False\<rparr>"
proof -
  have eq: "map (coerceAcceptanceRecord \<circ> record_json \<circ> snd) m = map (Some \<circ> snd) m"
    using assms by (simp add: coerce_record_json)
  then have "set (map (coerceAcceptanceRecord \<circ> record_json \<circ> snd) m) = set (map (Some \<circ> snd) m)" by simp
  then have none: "None \<notin> (coerceAcceptanceRecord \<circ> record_json \<circ> snd) ` set m" by auto
  have "map the (filter (\<lambda>r. r \<noteq> None) (map (Some \<circ> snd) m)) = map snd m"
    by (induction m) auto
  with none eq show ?thesis by (simp add: parse_ledger_file)
qed

lemma parsed_file_knows:
  assumes "(k, r) \<in> set m" and "key_of r = k"
  shows "p_damaged (parseSendAcceptanceFile (Contents (ledger_file m g))) \<or>
         k \<in> key_of ` set (p_records (parseSendAcceptanceFile (Contents (ledger_file m g))))"
proof (cases "coerceAcceptanceRecord (record_json r)")
  case None
  with assms show ?thesis by (force simp: parse_ledger_file)
next
  case (Some r')
  then have "key_of r' = k" using assms coerce_record_json_key by simp
  moreover have "r' \<in> set (map the (filter (\<lambda>r. r \<noteq> None)
      (map (coerceAcceptanceRecord \<circ> record_json \<circ> snd) m)))"
    using assms Some by (force simp: image_iff)
  ultimately show ?thesis by (auto simp: parse_ledger_file)
qed

subsection \<open>The map of a loaded ledger\<close>

definition keyed :: "records \<Rightarrow> bool" where
  "keyed m \<longleftrightarrow> jm_wf m \<and> (\<forall>(k, r) \<in> set m. key_of r = k)"

lemma keyed_Nil [simp]: "keyed []" by (simp add: keyed_def)

lemma set_jm_set_subset: "set (jm_set m k v) \<subseteq> insert (k, v) (set m)"
  by (induction m) (auto simp: jm_set_def)

lemma keyed_jm_set [intro]: "keyed m \<Longrightarrow> key_of r = k \<Longrightarrow> keyed (jm_set m k r)"
  using set_jm_set_subset [of m k r] by (fastforce simp: keyed_def)

lemma keyed_jm_delete [intro]: "keyed m \<Longrightarrow> keyed (jm_delete m k)"
  by (auto simp: keyed_def) (auto simp: jm_delete_def)

lemma keyed_records_map: "keyed (records_map rs)"
proof -
  have "keyed m \<Longrightarrow> keyed (foldl (\<lambda>m (k, r). jm_set m k r) m (map (\<lambda>r. (key_of r, r)) rs))" for m
    by (induction rs arbitrary: m) auto
  then show ?thesis by (simp add: records_map_def)
qed

lemma records_map_get: "jm_get (records_map rs) = map_of (rev (map (\<lambda>r. (key_of r, r)) rs))"
  using js_map.lookup_put_all [of "[]" "map (\<lambda>r. (key_of r, r)) rs"] by (simp add: records_map_def)

lemma records_map_keys: "jm_get (records_map rs) k \<noteq> None \<longleftrightarrow> k \<in> key_of ` set rs"
  by (simp add: records_map_get map_of_eq_None_iff image_image)

lemma length_records_map: "length (records_map rs) \<le> length rs"
proof -
  have "length (foldl (\<lambda>m (k, r). jm_set m k r) m (map (\<lambda>r. (key_of r, r)) rs)) \<le> length m + length rs" for m
  proof (induction rs arbitrary: m)
    case Nil
    then show ?case by simp
  next
    case (Cons r rs)
    have "length (jm_set m (key_of r) r) \<le> Suc (length m)" by (simp add: length_jm_set)
    with Cons [of "jm_set m (key_of r) r"] show ?case by simp
  qed
  from this [of "[]"] show ?thesis by (simp add: records_map_def)
qed

text \<open>Rebuilding the map from its own values gives the map back, order included.\<close>

lemma records_map_values:
  assumes "keyed m"
  shows "records_map (map snd m) = m"
proof -
  have "keyed (a @ b) \<Longrightarrow>
      foldl (\<lambda>m (k, r). jm_set m k r) a (map (\<lambda>r. (key_of r, r)) (map snd b)) = a @ b" for a b
  proof (induction b arbitrary: a)
    case Nil
    then show ?case by simp
  next
    case (Cons p b)
    obtain k r where p: "p = (k, r)" by fastforce
    with Cons.prems have "key_of r = k" "k \<notin> fst ` set a" by (auto simp: keyed_def jm_wf_def)
    with Cons.IH [of "a @ [p]"] Cons.prems p show ?case by (simp add: jm_set_new)
  qed
  from this [of "[]" m] assms show ?thesis by (simp add: records_map_def)
qed

subsection \<open>What is known about a key\<close>

definition disk_knows :: "ledger \<Rightarrow> string \<Rightarrow> bool" where
  "disk_knows l k \<longleftrightarrow>
     (let p = parseSendAcceptanceFile (disk_main l)
      in readDegradedMarker l \<noteq> None \<or> p_damaged p \<or> p_gaps p \<noteq> None \<or> k \<in> key_of ` set (p_records p))"

definition mem_knows :: "ledger \<Rightarrow> string \<Rightarrow> bool" where
  "mem_knows l k \<longleftrightarrow> jm_get (l_records (the_loaded l)) k \<noteq> None \<or> l_gaps (the_loaded l) \<noteq> None \<or>
     degradedSinceMs l \<noteq> None"

text \<open>The object, or the disk it will be loaded from, would not call the key unknown.\<close>

definition knows :: "ledger \<Rightarrow> string \<Rightarrow> bool" where
  "knows l k = (if loaded l = None then disk_knows l k else mem_knows l k)"

lemma not_found_iff: "lookup_loaded l k = NotFound \<longleftrightarrow> \<not> mem_knows l k"
  by (auto simp: lookup_loaded_def mem_knows_def split: option.splits)

text \<open>
  Whatever the object knows survives losing it: it is on disk, in the file or as a gap, and
  \<^verbatim>\<open>markerMayExist\<close> is only set while the marker can be read.
\<close>

definition ledger_durable :: "ledger \<Rightarrow> bool" where
  "ledger_durable l \<longleftrightarrow> hasFilePath l \<and>
     (case loaded l of
        None \<Rightarrow> degradedSinceMs l = None \<and> \<not> markerMayExist l
      | Some ld \<Rightarrow> (markerMayExist l \<longrightarrow> readDegradedMarker l \<noteq> None) \<and>
                   (\<forall>k. mem_knows l k \<longrightarrow> disk_knows l k) \<and> keyed (l_records ld))"

lemma read_marker_cong:
  "hasFilePath l' = hasFilePath l \<Longrightarrow> disk_marker l' = disk_marker l \<Longrightarrow>
   readDegradedMarker l' = readDegradedMarker l"
  by (simp add: readDegradedMarker_def)

lemma read_written_marker:
  "hasFilePath l \<Longrightarrow> disk_marker l = Contents (marker_file since) \<Longrightarrow> readDegradedMarker l \<noteq> None"
  by (simp add: readDegradedMarker_def marker_file_def)

lemma map_of_keyed: "keyed m \<Longrightarrow> jm_get m k = Some r \<Longrightarrow> (k, r) \<in> set m \<and> key_of r = k"
  by (auto simp: keyed_def dest: map_of_SomeD)

lemma file_knows:
  assumes "keyed m" and "jm_get m k \<noteq> None \<or> g \<noteq> None" and "disk_main l = Contents (ledger_file m g)"
  shows "disk_knows l k"
proof (cases g)
  case None
  with assms obtain r where "(k, r) \<in> set m" "key_of r = k" by (auto dest: map_of_keyed)
  from parsed_file_knows [OF this] assms show ?thesis by (auto simp: disk_knows_def Let_def)
next
  case (Some x)
  with assms show ?thesis by (simp add: disk_knows_def parse_ledger_file)
qed

text \<open>Persisting what is loaded makes it durable, whether the write succeeds or not.\<close>

lemma persist_failed_durable:
  assumes "hasFilePath l" and "loaded l = Some ld" and "keyed (l_records ld)"
    and "markerMayExist l \<longrightarrow> readDegradedMarker l \<noteq> None" and "pe_marker_write_ok pe"
  shows "ledger_durable (persist_failed pe l) \<and> (mem_knows l k \<longrightarrow> mem_knows (persist_failed pe l) k)"
proof -
  have "readDegradedMarker (persist_failed pe l) \<noteq> None"
    using assms read_written_marker [of "persist_failed pe l"] read_marker_cong [of "persist_failed pe l" l]
    by (cases "markerMayExist l") (auto simp: persist_failed_def Let_def)
  then show ?thesis using assms
    by (auto simp: ledger_durable_def disk_knows_def Let_def mem_knows_def the_loaded_def persist_failed_def
        split: option.splits if_splits)
qed

lemma persist_durable:
  assumes "hasFilePath l" and "loaded l = Some ld" and "keyed (l_records ld)"
    and "markerMayExist l \<longrightarrow> readDegradedMarker l \<noteq> None" and "pe_marker_write_ok pe"
  shows "ledger_durable (persist pe l) \<and> (mem_knows l k \<longrightarrow> mem_knows (persist pe l) k)"
proof (cases "pe_write_ok pe")
  case False
  with assms persist_failed_durable [OF assms] show ?thesis by (simp add: persist_def)
next
  case True
  define gaps where "gaps = (case degradedSinceMs l of None \<Rightarrow> l_gaps ld
      | Some since \<Rightarrow> Some (withDegradedWindow (l_gaps ld) \<lparr>w_fromMs = since, w_toMs = pe_now pe\<rparr>))"
  have p: "hasFilePath (persist pe l)" "loaded (persist pe l) = Some (ld\<lparr>l_gaps := gaps\<rparr>)"
      "degradedSinceMs (persist pe l) = None"
      "disk_main (persist pe l) = Contents (ledger_file (l_records ld) gaps)"
      "markerMayExist (persist pe l) \<longrightarrow> markerMayExist l \<and> disk_marker (persist pe l) = disk_marker l"
    using assms True by (auto simp: persist_def gaps_def Let_def)
  have mk: "markerMayExist (persist pe l) \<longrightarrow> readDegradedMarker (persist pe l) \<noteq> None"
    using assms p read_marker_cong [of "persist pe l" l] by auto
  have kn: "mem_knows (persist pe l) k' \<longrightarrow> disk_knows (persist pe l) k'" for k'
    using file_knows [OF assms(3) _ p(4)] p by (auto simp: mem_knows_def the_loaded_def)
  have "l_gaps ld \<noteq> None \<or> degradedSinceMs l \<noteq> None \<longrightarrow> gaps \<noteq> None"
    by (auto simp: gaps_def split: option.splits)
  then have "mem_knows l k \<longrightarrow> mem_knows (persist pe l) k"
    using assms p by (auto simp: mem_knows_def the_loaded_def)
  with p mk kn assms show ?thesis by (simp add: ledger_durable_def)
qed

definition env_marker_ok :: "call_env \<Rightarrow> bool" where
  "env_marker_ok e \<longleftrightarrow> e_read_ok e \<and> e_marker_read_ok e \<and>
     pe_marker_write_ok (e_loadPersist e) \<and> pe_marker_write_ok (e_persist e)"

lemma reads_succeed:
  assumes "env_marker_ok e"
  shows "hasFilePath l \<Longrightarrow> read_main e l = disk_main l" "read_marker e l = readDegradedMarker l"
  using assms by (simp_all add: env_marker_ok_def read_main_def read_marker_def)

definition is_loaded :: "ledger \<Rightarrow> bool" where "is_loaded l \<longleftrightarrow> loaded l \<noteq> None"

lemma persist_loaded [simp]: "is_loaded (persist pe l) = is_loaded l"
  by (auto simp: persist_def persist_failed_def is_loaded_def Let_def split: option.splits)

lemma persist_hasFilePath [simp]: "hasFilePath (persist pe l) = hasFilePath l"
  by (auto simp: persist_def persist_failed_def Let_def split: option.splits)

text \<open>The object \<^const>\<open>load\<close> builds before its own persist.\<close>

definition fresh_load :: "call_env \<Rightarrow> ledger \<Rightarrow> ledger" where
  "fresh_load e l =
     (let parsed = parseSendAcceptanceFile (read_main e l);
          reset = p_damaged parsed \<and> hasFilePath l;
          gaps1 = (if reset then Some (withCorruptReset (p_gaps parsed) (e_resetAt e)) else p_gaps parsed);
          marker = read_marker e l;
          gaps2 = (case marker of None \<Rightarrow> gaps1
                   | Some since \<Rightarrow> Some (withDegradedWindow gaps1 \<lparr>w_fromMs = since, w_toMs = e_windowTo e\<rparr>))
      in l\<lparr>disk_corrupt := (if reset \<and> e_copy_ok e then disk_corrupt l @ [(e_copyAt e, disk_main l)]
                           else disk_corrupt l),
           markerMayExist := (marker \<noteq> None \<or> markerMayExist l),
           loaded := Some \<lparr>l_records = records_map (p_records parsed), l_gaps = gaps2\<rparr>\<rparr>)"

lemma load_None:
  assumes "loaded l = None"
  shows "load e l =
    (if p_damaged (parseSendAcceptanceFile (read_main e l)) \<or> read_marker e l \<noteq> None
     then persist (e_loadPersist e) (fresh_load e l) else fresh_load e l)"
proof -
  have marker: "read_marker e (if b then l\<lparr>disk_corrupt := c\<rparr> else l) = read_marker e l" for b c
    by (simp add: read_marker_def readDegradedMarker_def)
  show ?thesis using assms by (simp add: load_def fresh_load_def Let_def marker)
qed

lemma load_Some [simp]: "is_loaded l \<Longrightarrow> load e l = l"
  by (auto simp: load_def is_loaded_def)

lemma fresh_load_simps [simp]:
  "loaded (fresh_load e l) \<noteq> None" "is_loaded (fresh_load e l)"
  "hasFilePath (fresh_load e l) = hasFilePath l" "degradedSinceMs (fresh_load e l) = degradedSinceMs l"
  "disk_main (fresh_load e l) = disk_main l" "disk_marker (fresh_load e l) = disk_marker l"
  "markerMayExist (fresh_load e l) = (read_marker e l \<noteq> None \<or> markerMayExist l)"
  "readDegradedMarker (fresh_load e l) = readDegradedMarker l"
  "l_records (the_loaded (fresh_load e l)) =
     records_map (p_records (parseSendAcceptanceFile (read_main e l)))"
  by (simp_all add: fresh_load_def Let_def is_loaded_def the_loaded_def readDegradedMarker_def)

lemma load_loaded [simp]: "is_loaded (load e l)"
  by (cases "is_loaded l") (auto simp: load_None is_loaded_def [of l])

lemma load_hasFilePath [simp]: "hasFilePath (load e l) = hasFilePath l"
  by (cases "is_loaded l") (auto simp: load_None is_loaded_def [of l])

lemma keyed_fresh_load: "keyed (l_records (the_loaded (fresh_load e l)))"
  by (simp add: keyed_records_map)

lemma fresh_load_knows:
  assumes "hasFilePath l" and "disk_knows l k" and "env_marker_ok e"
  shows "mem_knows (fresh_load e l) k"
proof -
  let ?p = "parseSendAcceptanceFile (disk_main l)"
  note rd = reads_succeed(1) [OF assms(3,1)] reads_succeed(2) [OF assms(3)]
  have recs: "jm_get (l_records (the_loaded (fresh_load e l))) k \<noteq> None \<longleftrightarrow> k \<in> key_of ` set (p_records ?p)"
    using rd(1) by (simp only: fresh_load_simps records_map_keys)
  have "readDegradedMarker l \<noteq> None \<or> p_damaged ?p \<or> p_gaps ?p \<noteq> None \<Longrightarrow>
      l_gaps (the_loaded (fresh_load e l)) \<noteq> None"
    using assms(1) by (auto simp: fresh_load_def Let_def the_loaded_def rd split: option.splits)
  with recs assms(2) show ?thesis by (auto simp: mem_knows_def disk_knows_def Let_def)
qed

lemma load_durable:
  assumes "ledger_durable l" and "env_marker_ok e"
  shows "ledger_durable (load e l) \<and> (knows l k \<longrightarrow> mem_knows (load e l) k)"
proof (cases "loaded l")
  case (Some ld)
  with assms show ?thesis by (simp add: is_loaded_def knows_def)
next
  case None
  let ?f = "fresh_load e l" and ?p = "parseSendAcceptanceFile (disk_main l)"
  from assms None have hp: "hasFilePath l" and d: "degradedSinceMs l = None" "\<not> markerMayExist l"
    by (auto simp: ledger_durable_def)
  note rd = reads_succeed(1) [OF assms(2) hp] reads_succeed(2) [OF assms(2), of l]
  note fresh_knows = fresh_load_knows [OF hp _ assms(2)]
  obtain ld where ld: "loaded ?f = Some ld" using fresh_load_simps(1) by blast
  have keyed: "keyed (l_records ld)" using keyed_fresh_load [of e l] ld by (simp add: the_loaded_def)
  show ?thesis
  proof (cases "p_damaged ?p \<or> readDegradedMarker l \<noteq> None")
    case True
    then have "load e l = persist (e_loadPersist e) ?f" using None hp rd by (simp add: load_None)
    moreover have "ledger_durable (persist (e_loadPersist e) ?f) \<and>
        (mem_knows ?f k \<longrightarrow> mem_knows (persist (e_loadPersist e) ?f) k)"
      using assms hp d ld keyed rd by (intro persist_durable) (auto simp: env_marker_ok_def)
    ultimately show ?thesis using fresh_knows None by (simp add: knows_def)
  next
    case False
    then have l: "load e l = ?f" using None hp rd by (simp add: load_None)
    have "l_gaps (the_loaded ?f) = p_gaps ?p"
      using False hp rd by (simp add: fresh_load_def Let_def the_loaded_def)
    moreover have "jm_get (l_records (the_loaded ?f)) k' \<noteq> None \<longleftrightarrow> k' \<in> key_of ` set (p_records ?p)" for k'
      using rd(1) by (simp only: fresh_load_simps records_map_keys)
    ultimately have "mem_knows ?f k' \<longrightarrow> disk_knows ?f k'" for k'
      using d by (auto simp: mem_knows_def disk_knows_def Let_def)
    then have "ledger_durable ?f" using hp d False ld keyed rd by (simp add: ledger_durable_def)
    then show ?thesis using l fresh_knows None by (simp add: knows_def)
  qed
qed

subsection \<open>Every call keeps the ledger durable\<close>

lemma set_records_simps [simp]:
  "is_loaded (set_records m l)" "l_records (the_loaded (set_records m l)) = m"
  "l_gaps (the_loaded (set_records m l)) = l_gaps (the_loaded l)"
  "degradedSinceMs (set_records m l) = degradedSinceMs l"
  "markerMayExist (set_records m l) = markerMayExist l"
  "hasFilePath (set_records m l) = hasFilePath l" "disk_main (set_records m l) = disk_main l"
  "readDegradedMarker (set_records m l) = readDegradedMarker l"
  by (simp_all add: set_records_def the_loaded_def is_loaded_def readDegradedMarker_def)

lemma durable_loadedD:
  assumes "ledger_durable l" and "is_loaded l"
  shows "hasFilePath l" "keyed (l_records (the_loaded l))"
    "markerMayExist l \<longrightarrow> readDegradedMarker l \<noteq> None"
  using assms by (auto simp: ledger_durable_def is_loaded_def the_loaded_def)

lemma persist_changed_durable:
  assumes "hasFilePath l" "is_loaded l" "keyed (l_records (the_loaded l))"
    "markerMayExist l \<longrightarrow> readDegradedMarker l \<noteq> None" "pe_marker_write_ok pe"
  shows "ledger_durable (persist pe l) \<and> (mem_knows l k \<longrightarrow> mem_knows (persist pe l) k)"
proof -
  from assms(2) obtain ld where "loaded l = Some ld" by (auto simp: is_loaded_def)
  with assms show ?thesis by (intro persist_durable) (auto simp: the_loaded_def)
qed

lemma evict_scan_eq:
  "evict_scan m p =
     ((case p of Some k \<Rightarrow> Some k | None \<Rightarrow>
         (case m of [] \<Rightarrow> None | (k, r) # _ \<Rightarrow> if r_status r = Pending then Some k else None)),
      map_option fst (find (\<lambda>(k, r). r_status r \<noteq> Pending) m))"
  by (induction m arbitrary: p) (auto split: option.splits)

lemma evict_victim_eq:
  "evict_victim m = (case find (\<lambda>(k, r). r_status r \<noteq> Pending) m of
     Some (k, _) \<Rightarrow> Some k | None \<Rightarrow> (case m of [] \<Rightarrow> None | (k, _) # _ \<Rightarrow> Some k))"
  by (cases m) (auto simp: evict_victim_def evict_scan_eq split: option.splits)

lemma evict_victim_in: "m \<noteq> [] \<Longrightarrow> \<exists>k. evict_victim m = Some k \<and> k \<in> fst ` set m"
  by (force simp: evict_victim_eq dest: find_SomeD split: option.splits list.splits)

lemma evictPastCap_simps [simp]:
  "is_loaded (evictPastCap l) = is_loaded l" "degradedSinceMs (evictPastCap l) = degradedSinceMs l"
  "markerMayExist (evictPastCap l) = markerMayExist l" "hasFilePath (evictPastCap l) = hasFilePath l"
  "disk_main (evictPastCap l) = disk_main l" "readDegradedMarker (evictPastCap l) = readDegradedMarker l"
  if "is_loaded l"
  using that by (auto simp: evictPastCap_def Let_def is_loaded_def readDegradedMarker_def split: option.splits)

lemma evictPastCap_keyed [intro]:
  "keyed (l_records (the_loaded l)) \<Longrightarrow> keyed (l_records (the_loaded (evictPastCap l)))"
  by (auto simp: evictPastCap_def Let_def the_loaded_def split: option.splits)

lemma evictPastCap_knows: "mem_knows l k \<Longrightarrow> mem_knows (evictPastCap l) k"
proof -
  assume k: "mem_knows l k"
  show ?thesis
  proof (cases "length (l_records (the_loaded l)) \<le> MAX_RECORDS")
    case True
    with k show ?thesis by (simp add: evictPastCap_def Let_def)
  next
    case False
    then have "l_records (the_loaded l) \<noteq> []" by auto
    from evict_victim_in [OF this] obtain key where
      key: "evict_victim (l_records (the_loaded l)) = Some key" "key \<in> fst ` set (l_records (the_loaded l))" by blast
    then obtain r where "jm_get (l_records (the_loaded l)) key = Some r"
      by (metis (no_types, lifting) map_of_eq_None_iff option.exhaust)
    with key False show ?thesis by (simp add: evictPastCap_def Let_def mem_knows_def the_loaded_def)
  qed
qed

fun event_env :: "ledger_event \<Rightarrow> call_env option" where
  "event_env (EvLookup e _ _) = Some e"
| "event_env (EvAdmit e _ _ _) = Some e"
| "event_env (EvPending e _) = Some e"
| "event_env (EvAccepted e _ _) = Some e"
| "event_env (EvRejected e _ _ _) = Some e"
| "event_env (EvClear e _ _) = Some e"
| "event_env (EvClearUnlessAccepted e _ _) = Some e"
| "event_env (EvDispose e) = Some e"
| "event_env EvRestart = None"
| "event_env EvDamage = None"

definition marker_writable :: "ledger_event \<Rightarrow> bool" where
  "marker_writable ev \<longleftrightarrow> (case event_env ev of None \<Rightarrow> True | Some e \<Rightarrow> env_marker_ok e)"

fun clears :: "string \<Rightarrow> ledger_event \<Rightarrow> bool" where
  "clears k (EvClear _ a n) = (recordKey a n = k)"
| "clears k (EvClearUnlessAccepted _ a n) = (recordKey a n = k)"
| "clears k _ = False"

lemma recordPending_durable:
  assumes "ledger_durable l" and "env_marker_ok e"
  shows "ledger_durable (fst (recordPending e i l)) \<and>
    (knows l k \<longrightarrow> mem_knows (fst (recordPending e i l)) k)"
proof -
  note ld = load_durable [OF assms, of k]
  note d = durable_loadedD [OF conjunct1 [OF ld]]
  define key where "key = recordKey (i_accountSlot i) (i_clientNonce i)"
  define l2 where "l2 = set_records (jm_set (l_records (the_loaded (load e l))) key (pending_record e i)) (load e l)"
  have "key_of (pending_record e i) = key" by (simp add: key_of_def pending_record_def key_def)
  then have "keyed (l_records (the_loaded l2))" using d by (auto simp: l2_def)
  then have "ledger_durable (persist (e_persist e) (evictPastCap l2)) \<and>
      (mem_knows (evictPastCap l2) k \<longrightarrow> mem_knows (persist (e_persist e) (evictPastCap l2)) k)"
    using d assms(2) by (intro persist_changed_durable) (auto simp: l2_def env_marker_ok_def)
  moreover have "mem_knows (load e l) k \<Longrightarrow> mem_knows l2 k" by (auto simp: mem_knows_def l2_def)
  moreover note evictPastCap_knows [of l2 k]
  ultimately show ?thesis using ld
    by (auto simp: recordPending_def Let_def key_def [symmetric] l2_def [symmetric] split: option.splits)
qed

lemma settle_durable:
  assumes "ledger_durable l" and "env_marker_ok e" and "\<And>r. key_of (upd r) = key_of r"
  shows "ledger_durable (settle_pending e key upd l) \<and>
    (knows l k \<longrightarrow> mem_knows (settle_pending e key upd l) k)"
proof -
  note ld = load_durable [OF assms(1,2), of k]
  note d = durable_loadedD [OF conjunct1 [OF ld]]
  have "ledger_durable (persist (e_persist e)
        (set_records (jm_set (l_records (the_loaded (load e l))) key (upd r)) (load e l))) \<and>
      (mem_knows (load e l) k \<longrightarrow> mem_knows (persist (e_persist e)
        (set_records (jm_set (l_records (the_loaded (load e l))) key (upd r)) (load e l))) k)"
    (is "?D \<and> ?M") if r: "jm_get (l_records (the_loaded (load e l))) key = Some r" for r
  proof -
    let ?l2 = "set_records (jm_set (l_records (the_loaded (load e l))) key (upd r)) (load e l)"
    have "key_of (upd r) = key" using map_of_keyed [OF _ r] d assms(3) by simp
    then have "ledger_durable (persist (e_persist e) ?l2) \<and>
        (mem_knows ?l2 k \<longrightarrow> mem_knows (persist (e_persist e) ?l2) k)"
      using d assms(2) by (intro persist_changed_durable) (auto simp: env_marker_ok_def)
    moreover have "mem_knows (load e l) k \<Longrightarrow> mem_knows ?l2 k" by (auto simp: mem_knows_def)
    ultimately show ?thesis by blast
  qed
  with ld show ?thesis by (auto simp: settle_pending_def Let_def split: option.splits)
qed

lemma clear_durable:
  assumes "ledger_durable l" and "env_marker_ok e"
  shows "ledger_durable (clear e a n l) \<and> (knows l k \<and> recordKey a n \<noteq> k \<longrightarrow> mem_knows (clear e a n l) k)"
proof -
  note ld = load_durable [OF assms, of k]
  note d = durable_loadedD [OF conjunct1 [OF ld]]
  let ?l2 = "set_records (jm_delete (l_records (the_loaded (load e l))) (recordKey a n)) (load e l)"
  have "ledger_durable (persist (e_persist e) ?l2) \<and>
      (mem_knows ?l2 k \<longrightarrow> mem_knows (persist (e_persist e) ?l2) k)"
    using d assms(2) by (intro persist_changed_durable) (auto simp: env_marker_ok_def)
  moreover have "recordKey a n \<noteq> k \<Longrightarrow> mem_knows (load e l) k \<Longrightarrow> mem_knows ?l2 k"
    by (auto simp: mem_knows_def)
  ultimately show ?thesis using ld by (auto simp: clear_def Let_def)
qed

lemma restart_durable:
  assumes "ledger_durable l"
  shows "ledger_durable (restart l) \<and> (knows l k \<longrightarrow> knows (restart l) k)"
proof -
  have "disk_knows (restart l) k = disk_knows l k"
    by (simp add: disk_knows_def restart_def readDegradedMarker_def)
  with assms show ?thesis
    by (auto simp: ledger_durable_def knows_def split: option.splits) (auto simp: restart_def)
qed

lemma damage_durable:
  assumes "ledger_durable l"
  shows "ledger_durable (l\<lparr>disk_main := Garbage\<rparr>) \<and> (knows l k \<longrightarrow> knows (l\<lparr>disk_main := Garbage\<rparr>) k)"
  using assms
  by (auto simp: ledger_durable_def knows_def disk_knows_def mem_knows_def the_loaded_def Let_def
      parseSendAcceptanceFile_def readDegradedMarker_def split: option.splits)

lemma mem_knows_knows: "is_loaded l \<Longrightarrow> knows l k = mem_knows l k"
  by (auto simp: knows_def is_loaded_def)

lemma dispose_durable:
  assumes "ledger_durable l" and "env_marker_ok e"
  shows "ledger_durable (dispose e l) \<and> (knows l k \<longrightarrow> knows (dispose e l) k)"
proof (cases "is_loaded l")
  case True
  with persist_changed_durable [OF durable_loadedD(1) [OF assms(1) True] True
      durable_loadedD(2,3) [OF assms(1) True], of "e_persist e" k] assms(2)
  have "ledger_durable (persist (e_persist e) l) \<and> (mem_knows l k \<longrightarrow> mem_knows (persist (e_persist e) l) k)"
    by (simp add: env_marker_ok_def)
  with True show ?thesis by (simp add: dispose_def mem_knows_knows)
next
  case False
  with assms show ?thesis by (simp add: dispose_def persist_def is_loaded_def)
qed

lemma settle_loaded: "is_loaded (settle_pending e key upd l)"
  by (auto simp: settle_pending_def Let_def split: option.splits)

lemma recordPending_loaded: "is_loaded (fst (recordPending e i l))"
  by (auto simp: recordPending_def Let_def split: option.splits)

lemma clear_loaded: "is_loaded (clear e a n l)"
  by (auto simp: clear_def Let_def)

lemma step_durable:
  assumes "ledger_durable l" and "marker_writable ev"
  shows "ledger_durable (ledger_step l ev) \<and> (knows l k \<and> \<not> clears k ev \<longrightarrow> knows (ledger_step l ev) k)"
proof (cases ev)
  case (EvClearUnlessAccepted e a n)
  with assms have m: "env_marker_ok e" by (simp add: marker_writable_def)
  note ld = load_durable [OF assms(1) m, of k]
  have "clearUnlessAccepted e a n l = load e l \<or> clearUnlessAccepted e a n l = clear e a n (load e l)"
    by (auto simp: clearUnlessAccepted_def Let_def)
  with ld clear_durable [OF conjunct1 [OF ld] m, of a n k] EvClearUnlessAccepted show ?thesis
    by (auto simp: mem_knows_knows clear_loaded)
next
  case EvRestart
  with restart_durable [OF assms(1)] show ?thesis by simp
next
  case EvDamage
  with damage_durable [OF assms(1)] show ?thesis by simp
qed (use assms load_durable [OF assms(1), of _ k] recordPending_durable [OF assms(1), of _ _ k]
       settle_durable [OF assms(1), of _ _ _ k] clear_durable [OF assms(1), of _ _ _ k]
       dispose_durable [OF assms(1), of _ k] in
     \<open>auto simp: marker_writable_def lookup_def admitSend_def Let_def split_beta mem_knows_knows
       markAccepted_def markRejected_def settle_loaded recordPending_loaded clear_loaded key_of_def\<close>)

lemma run_durable:
  assumes "ledger_durable l" and "\<forall>ev \<in> set es. marker_writable ev"
  shows "ledger_durable (foldl ledger_step l es) \<and>
    (knows l k \<and> (\<forall>ev \<in> set es. \<not> clears k ev) \<longrightarrow> knows (foldl ledger_step l es) k)"
  using assms
proof (induction es arbitrary: l)
  case Nil
  then show ?case by simp
next
  case (Cons ev es)
  note st = step_durable [OF Cons.prems(1), of ev k]
  with Cons.prems have "ledger_durable (ledger_step l ev)" by simp
  from Cons.IH [OF this] Cons.prems st show ?case by auto
qed

lemma new_ledger_durable: "ledger_durable (new_ledger True main marker)"
  by (simp add: ledger_durable_def new_ledger_def)

lemma recordPending_knows:
  assumes "ledger_durable l" and "env_marker_ok e" and "recordPending e i l = (l1, Inr r)"
  shows "mem_knows l1 (recordKey (i_accountSlot i) (i_clientNonce i))"
proof -
  define key where "key = recordKey (i_accountSlot i) (i_clientNonce i)"
  note d = durable_loadedD [OF conjunct1 [OF load_durable [OF assms(1,2)]]]
  define l2 where "l2 = set_records (jm_set (l_records (the_loaded (load e l))) key (pending_record e i)) (load e l)"
  have "key_of (pending_record e i) = key" by (simp add: key_of_def pending_record_def key_def)
  then have "keyed (l_records (the_loaded l2))" using d by (auto simp: l2_def)
  then have "ledger_durable (persist (e_persist e) (evictPastCap l2)) \<and>
      (mem_knows (evictPastCap l2) key \<longrightarrow> mem_knows (persist (e_persist e) (evictPastCap l2)) key)"
    using d assms(2) by (intro persist_changed_durable) (auto simp: l2_def env_marker_ok_def)
  moreover have "mem_knows (evictPastCap l2) key"
    by (rule evictPastCap_knows) (simp add: mem_knows_def l2_def)
  moreover have "(\<exists>x. jm_get (l_records (the_loaded (load e l))) key = Some x \<and> l1 = load e l) \<or>
      l1 = persist (e_persist e) (evictPastCap l2)"
    using assms(3) by (auto simp: recordPending_def Let_def key_def [symmetric] l2_def [symmetric]
        split: option.splits if_splits)
  ultimately show ?thesis by (auto simp: key_def [symmetric] mem_knows_def)
qed

subsection \<open>The cap\<close>

definition ledger_ok :: "ledger \<Rightarrow> bool" where
  "ledger_ok l \<longleftrightarrow> length (p_records (parseSendAcceptanceFile (disk_main l))) \<le> MAX_RECORDS \<and>
     (is_loaded l \<longrightarrow> keyed (l_records (the_loaded l)) \<and> length (l_records (the_loaded l)) \<le> MAX_RECORDS)"

lemma length_parsed_ledger_file:
  "length (p_records (parseSendAcceptanceFile (Contents (ledger_file m g)))) \<le> length m"
proof -
  have "length (filter P xs) \<le> length xs" for P :: "acceptance_record option \<Rightarrow> bool" and xs
    by (rule length_filter_le)
  from this [of _ "map (coerceAcceptanceRecord \<circ> record_json \<circ> snd) m"]
  show ?thesis by (simp add: parse_ledger_file)
qed

lemma persist_ledger_ok [machine_inv]:
  assumes "ledger_ok l"
  shows "ledger_ok (persist pe l)"
proof (cases "is_loaded l \<and> hasFilePath l \<and> pe_write_ok pe")
  case True
  then obtain ld where ld: "loaded l = Some ld" by (auto simp: is_loaded_def)
  have "l_records (the_loaded (persist pe l)) = l_records ld"
    using True ld by (auto simp: persist_def the_loaded_def Let_def)
  moreover have "\<exists>g. disk_main (persist pe l) = Contents (ledger_file (l_records ld) g)"
    using True ld by (auto simp: persist_def Let_def)
  moreover have "keyed (l_records ld) \<and> length (l_records ld) \<le> MAX_RECORDS"
    using assms True ld by (simp add: ledger_ok_def the_loaded_def)
  ultimately show ?thesis using length_parsed_ledger_file order_trans
    by (fastforce simp: ledger_ok_def)
next
  case False
  then have "disk_main (persist pe l) = disk_main l \<and> loaded (persist pe l) = loaded l"
    by (auto simp: persist_def persist_failed_def Let_def is_loaded_def split: option.splits)
  with assms show ?thesis by (simp add: ledger_ok_def is_loaded_def the_loaded_def)
qed

lemma load_ledger_ok [machine_inv]:
  assumes "ledger_ok l"
  shows "ledger_ok (load e l)"
proof (cases "is_loaded l")
  case True
  with assms show ?thesis by simp
next
  case False
  then have None: "loaded l = None" by (simp add: is_loaded_def)
  have "length (p_records (parseSendAcceptanceFile NoFile)) \<le> MAX_RECORDS"
    by (simp add: parseSendAcceptanceFile_def)
  with assms have "length (p_records (parseSendAcceptanceFile (read_main e l))) \<le> MAX_RECORDS"
    by (simp add: ledger_ok_def read_main_def)
  with length_records_map order_trans
  have "length (l_records (the_loaded (fresh_load e l))) \<le> MAX_RECORDS" by fastforce
  with assms keyed_fresh_load [of e l] have "ledger_ok (fresh_load e l)" by (simp add: ledger_ok_def)
  then show ?thesis by (simp add: load_None [OF None] persist_ledger_ok)
qed

lemma length_jm_delete_le: "length (jm_delete m k) \<le> length m"
  by (simp add: jm_delete_def)

lemma evictPastCap_bound:
  assumes "keyed (l_records (the_loaded l))" and "length (l_records (the_loaded l)) \<le> Suc MAX_RECORDS"
  shows "length (l_records (the_loaded (evictPastCap l))) \<le> MAX_RECORDS"
proof (cases "length (l_records (the_loaded l)) \<le> MAX_RECORDS")
  case True
  then show ?thesis by (simp add: evictPastCap_def Let_def)
next
  case False
  then have "l_records (the_loaded l) \<noteq> []" by auto
  from evict_victim_in [OF this] obtain key where
    key: "evict_victim (l_records (the_loaded l)) = Some key" "key \<in> fst ` set (l_records (the_loaded l))" by blast
  have "Suc (length (jm_delete (l_records (the_loaded l)) key)) = length (l_records (the_loaded l))"
    using key(2) assms(1) by (intro length_jm_delete) (auto simp: keyed_def)
  with key False assms(2) show ?thesis by (simp add: evictPastCap_def Let_def the_loaded_def)
qed

lemma set_records_ledger_ok:
  "ledger_ok l \<Longrightarrow> keyed m \<Longrightarrow> length m \<le> MAX_RECORDS \<Longrightarrow> ledger_ok (set_records m l)"
  by (simp add: ledger_ok_def)

lemma settle_ledger_ok [machine_inv]:
  assumes "ledger_ok l" and "\<And>r. key_of (upd r) = key_of r"
  shows "ledger_ok (settle_pending e key upd l)"
proof -
  note ok = load_ledger_ok [OF assms(1), of e]
  have "ledger_ok (set_records (jm_set (l_records (the_loaded (load e l))) key (upd r)) (load e l))"
    if r: "jm_get (l_records (the_loaded (load e l))) key = Some r" for r
  proof -
    have k: "keyed (l_records (the_loaded (load e l)))" using ok by (simp add: ledger_ok_def)
    have "key \<in> fst ` set (l_records (the_loaded (load e l)))" "key_of (upd r) = key"
      using map_of_keyed [OF k r] assms(2) by (force simp: image_iff)+
    with k ok show ?thesis by (intro set_records_ledger_ok) (auto simp: length_jm_set ledger_ok_def)
  qed
  then show ?thesis using ok
    by (auto simp: settle_pending_def Let_def split: option.splits intro: persist_ledger_ok)
qed

lemma clear_ledger_ok [machine_inv]: "ledger_ok l \<Longrightarrow> ledger_ok (clear e a n l)"
proof -
  assume "ledger_ok l"
  then have ok: "ledger_ok (load e l)" by (rule load_ledger_ok)
  then have "ledger_ok (set_records (jm_delete (l_records (the_loaded (load e l))) (recordKey a n)) (load e l))"
    by (intro set_records_ledger_ok)
      (auto simp: ledger_ok_def intro: order_trans [OF length_jm_delete_le])
  with ok show ?thesis by (simp add: clear_def Let_def persist_ledger_ok)
qed

lemma recordPending_ledger_ok [machine_inv]:
  assumes "ledger_ok l"
  shows "ledger_ok (fst (recordPending e i l))"
proof -
  note ok = load_ledger_ok [OF assms, of e]
  define key where "key = recordKey (i_accountSlot i) (i_clientNonce i)"
  define l2 where "l2 = set_records (jm_set (l_records (the_loaded (load e l))) key (pending_record e i)) (load e l)"
  have "key_of (pending_record e i) = key" by (simp add: key_of_def pending_record_def key_def)
  with ok have k: "keyed (l_records (the_loaded l2))" "length (l_records (the_loaded l2)) \<le> Suc MAX_RECORDS"
    by (auto simp: l2_def ledger_ok_def length_jm_set)
  from ok evictPastCap_bound [OF k] evictPastCap_keyed [OF k(1)] have "ledger_ok (evictPastCap l2)"
    by (simp add: ledger_ok_def l2_def)
  with ok show ?thesis
    by (auto simp: recordPending_def Let_def key_def [symmetric] l2_def [symmetric] persist_ledger_ok
        split: option.splits)
qed

lemma step_ledger_ok: "ledger_ok l \<Longrightarrow> ledger_ok (ledger_step l ev)"
proof (cases ev)
  case EvRestart
  assume "ledger_ok l"
  then show ?thesis by (simp add: EvRestart ledger_ok_def restart_def is_loaded_def)
next
  case EvDamage
  assume "ledger_ok l"
  then show ?thesis
    by (simp add: EvDamage ledger_ok_def parseSendAcceptanceFile_def is_loaded_def the_loaded_def)
qed (auto simp: lookup_def admitSend_def Let_def split_beta markAccepted_def markRejected_def key_of_def
      clearUnlessAccepted_def dispose_def intro!: machine_inv)

interpretation ledger: invariant_machine ledger_step ledger_ok
  by unfold_locales (rule step_ledger_ok)

subsection \<open>A settled record is replayed\<close>

fun forgets :: "string \<Rightarrow> ledger_event \<Rightarrow> bool" where
  "forgets k EvRestart = True"
| "forgets k ev = clears k ev"

definition behind_horizon :: "acceptance_gaps option \<Rightarrow> millis \<Rightarrow> bool" where
  "behind_horizon gaps at = (case gaps of None \<Rightarrow> False
     | Some g \<Rightarrow> (case g_evictionHorizonMs g of None \<Rightarrow> False | Some h \<Rightarrow> at \<le> h))"

definition remembers :: "string \<Rightarrow> acceptance_record \<Rightarrow> ledger \<Rightarrow> bool" where
  "remembers k r l \<longleftrightarrow> is_loaded l \<and> (jm_get (l_records (the_loaded l)) k = Some r \<or>
     behind_horizon (l_gaps (the_loaded l)) (r_acceptedAtMs r))"

lemma horizon_degraded: "behind_horizon g at \<Longrightarrow> behind_horizon (Some (withDegradedWindow g w)) at"
  by (auto simp: behind_horizon_def withDegradedWindow_def or_empty_def Let_def split: option.splits)

lemma horizon_evicted: "behind_horizon g at \<Longrightarrow> behind_horizon (Some (withEvictionHorizon g at')) at"
  by (auto simp: behind_horizon_def withEvictionHorizon_def or_empty_def Let_def split: option.splits)

lemma horizon_evicts: "behind_horizon (Some (withEvictionHorizon g at)) at"
  by (auto simp: behind_horizon_def withEvictionHorizon_def or_empty_def Let_def)

lemma persist_remembers: "remembers k r l \<Longrightarrow> remembers k r (persist pe l)"
  by (auto simp: remembers_def persist_def persist_failed_def is_loaded_def the_loaded_def Let_def
      horizon_degraded split: option.splits)

lemma evict_remembers: "remembers k r l \<Longrightarrow> remembers k r (evictPastCap l)"
  by (auto simp: remembers_def evictPastCap_def is_loaded_def the_loaded_def Let_def
      horizon_evicted horizon_evicts split: option.splits)

lemma set_records_remembers:
  "remembers k r l \<Longrightarrow> jm_get (l_records (the_loaded l)) k = jm_get m k \<Longrightarrow> remembers k r (set_records m l)"
  by (simp add: remembers_def)

lemma load_remembers: "remembers k r l \<Longrightarrow> remembers k r (load e l)"
  by (simp add: remembers_def)

lemma recordPending_remembers: "remembers k r l \<Longrightarrow> remembers k r (fst (recordPending e i l))"
proof -
  assume rm: "remembers k r l"
  define key where "key = recordKey (i_accountSlot i) (i_clientNonce i)"
  have ld: "load e l = l" using rm by (simp add: remembers_def)
  have "remembers k r (set_records (jm_set (l_records (the_loaded l)) key (pending_record e i)) l)"
    if "jm_get (l_records (the_loaded l)) key = None"
    using rm that by (auto simp: remembers_def)
  with rm ld show ?thesis
    by (auto simp: recordPending_def Let_def key_def [symmetric] split: option.splits
        intro: persist_remembers evict_remembers)
qed

lemma settle_remembers:
  assumes "remembers k r l" and "r_status r \<noteq> Pending"
  shows "remembers k r (settle_pending e key upd l)"
proof -
  have ld: "load e l = l" using assms by (simp add: remembers_def)
  have "remembers k r (set_records (jm_set (l_records (the_loaded l)) key (upd x)) l)"
    if "jm_get (l_records (the_loaded l)) key = Some x" "r_status x = Pending" for x
    using assms that by (auto simp: remembers_def)
  with assms ld show ?thesis
    by (auto simp: settle_pending_def Let_def split: option.splits intro: persist_remembers)
qed

lemma clear_remembers:
  assumes "remembers k r l" and "recordKey a n \<noteq> k"
  shows "remembers k r (clear e a n l)"
proof -
  have ld: "load e l = l" using assms by (simp add: remembers_def)
  have "remembers k r (set_records (jm_delete (l_records (the_loaded l)) (recordKey a n)) l)"
    using assms by (auto simp: remembers_def)
  with assms ld show ?thesis by (auto simp: clear_def Let_def intro: persist_remembers)
qed

lemma step_remembers:
  assumes "remembers k r l" and "r_status r \<noteq> Pending" and "\<not> forgets k ev"
  shows "remembers k r (ledger_step l ev)"
proof (cases ev)
  case EvDamage
  with assms(1) show ?thesis by (simp add: remembers_def is_loaded_def the_loaded_def)
next
  case (EvClearUnlessAccepted e a n)
  with assms clear_remembers [of k r "load e l" a n e] load_remembers [OF assms(1), of e]
  show ?thesis by (simp add: clearUnlessAccepted_def Let_def)
qed (use assms in \<open>auto simp: lookup_def admitSend_def Let_def split_beta markAccepted_def
      markRejected_def dispose_def intro: load_remembers recordPending_remembers settle_remembers
      clear_remembers persist_remembers\<close>)

lemma run_remembers:
  "remembers k r l \<Longrightarrow> r_status r \<noteq> Pending \<Longrightarrow> \<forall>ev \<in> set es. \<not> forgets k ev \<Longrightarrow>
   remembers k r (foldl ledger_step l es)"
  by (induction es arbitrary: l) (auto simp: step_remembers)

subsection \<open>Properties\<close>

text \<open>
  Property C18. A recorded send is not forgotten. Start from any files on disk and run any
  calls, write failures, restarts and damage to the ledger file; record a send; run anything
  again except a \<^verbatim>\<open>clear\<close> or \<^verbatim>\<open>clearUnlessAccepted\<close> of that send. The lookup of its nonce then
  finds a record or answers that durability is unknown, and never answers "not-found", which
  would let the client send the prompt a second time. The hypotheses on the disk: files that are
  there can be read, and the degraded marker can be written when the ledger file cannot.
\<close>

theorem ledger_never_forgets:
  assumes "l = foldl ledger_step (new_ledger True main marker) es"
    and "snd (recordPending e i l) = Inr r"
    and "l' = foldl ledger_step (fst (recordPending e i l)) es'"
    and "\<forall>ev \<in> set (es @ EvPending e i # es' @ [EvLookup e' (i_accountSlot i) (i_clientNonce i)]).
           marker_writable ev"
    and "\<forall>ev \<in> set es'. \<not> clears (recordKey (i_accountSlot i) (i_clientNonce i)) ev"
  shows "snd (lookup e' (i_accountSlot i) (i_clientNonce i) l') \<noteq> NotFound"
proof -
  let ?k = "recordKey (i_accountSlot i) (i_clientNonce i)" and ?l1 = "fst (recordPending e i l)"
  have ok: "\<forall>ev \<in> set es. marker_writable ev" "env_marker_ok e" "env_marker_ok e'"
      "\<forall>ev \<in> set es'. marker_writable ev"
    using assms(4) by (auto simp: marker_writable_def)
  have d: "ledger_durable l" using run_durable [OF new_ledger_durable ok(1)] assms(1) by simp
  have "recordPending e i l = (?l1, Inr r)" using assms(2) by (simp add: prod_eq_iff)
  then have "knows ?l1 ?k"
    using recordPending_knows [OF d ok(2)] recordPending_loaded by (simp add: mem_knows_knows)
  moreover have "ledger_durable ?l1" using recordPending_durable [OF d ok(2)] by simp
  ultimately have "ledger_durable l'" "knows l' ?k"
    using run_durable [of ?l1 es' ?k] ok(4) assms(3,5) by auto
  with load_durable [OF _ ok(3)] show ?thesis by (simp add: lookup_def Let_def not_found_iff)
qed

text \<open>
  Fact. The ledger stays capped: from a file of at most \<^verbatim>\<open>MAX_RECORDS\<close> records, whatever
  calls, failures and restarts follow, the records in memory and in the file stay at most that
  many, and each is stored under its own key once.
\<close>

theorem ledger_stays_capped:
  assumes "length (p_records (parseSendAcceptanceFile main)) \<le> MAX_RECORDS"
    and "l = foldl ledger_step (new_ledger path main marker) es"
  shows "ledger_ok l"
  using ledger.run_inv [of "new_ledger path main marker" es] assms
  by (simp add: ledger_ok_def new_ledger_def is_loaded_def)

text \<open>
  Fact. A settled outcome is replayed: once a send is accepted or rejected, every later
  lookup by the same process finds that same record, unchanged, unless it was cleared or was
  evicted; an evicted one lies behind the eviction horizon of the history gaps, so its lookup
  does not answer "not-found" either.
\<close>

theorem settled_send_is_replayed:
  assumes "is_loaded l" and "jm_get (l_records (the_loaded l)) k = Some r" and "r_status r \<noteq> Pending"
    and "\<forall>ev \<in> set es. \<not> forgets k ev"
  shows "lookup_loaded (foldl ledger_step l es) k = Found r \<or>
    behind_horizon (l_gaps (the_loaded (foldl ledger_step l es))) (r_acceptedAtMs r)"
proof -
  have "remembers k r l" using assms by (simp add: remembers_def)
  from run_remembers [OF this assms(3,4)] show ?thesis by (auto simp: remembers_def lookup_loaded_def)
qed

text \<open>
  Fact. Eviction spares what is in flight: past the cap it removes the oldest record that
  is not pending, and the oldest pending one only when all are pending; the horizon then covers
  the removed record.
\<close>

theorem eviction_order:
  assumes "MAX_RECORDS < length (l_records (the_loaded l))" and "keyed (l_records (the_loaded l))"
    and "l' = evictPastCap l"
  shows "\<exists>key r. (case find (\<lambda>(k, r). r_status r \<noteq> Pending) (l_records (the_loaded l)) of
                   Some p \<Rightarrow> (key, r) = p | None \<Rightarrow> (key, r) = hd (l_records (the_loaded l))) \<and>
           l_records (the_loaded l') = jm_delete (l_records (the_loaded l)) key \<and>
           behind_horizon (l_gaps (the_loaded l')) (r_acceptedAtMs r)"
proof -
  let ?m = "l_records (the_loaded l)"
  have ne: "?m \<noteq> []" using assms(1) by auto
  define p where "p = (case find (\<lambda>(k, r). r_status r \<noteq> Pending) ?m of Some p \<Rightarrow> p | None \<Rightarrow> hd ?m)"
  have "p \<in> set ?m" using ne by (auto simp: p_def dest: find_SomeD split: option.splits)
  obtain key r where kr: "p = (key, r)" by fastforce
  have v: "evict_victim ?m = Some key"
    using kr ne by (auto simp: p_def evict_victim_eq split: option.splits list.splits)
  have "jm_get ?m key = Some r"
    using \<open>p \<in> set ?m\<close> kr assms(2) by (auto simp: keyed_def jm_wf_def)
  with v assms(1,3) have "l_records (the_loaded l') = jm_delete ?m key"
    "l_gaps (the_loaded l') = Some (withEvictionHorizon (l_gaps (the_loaded l)) (r_acceptedAtMs r))"
    by (simp_all add: evictPastCap_def Let_def the_loaded_def)
  moreover have "(case find (\<lambda>(k, r). r_status r \<noteq> Pending) ?m of
      Some p \<Rightarrow> (key, r) = p | None \<Rightarrow> (key, r) = hd ?m)"
    using kr by (auto simp: p_def split: option.splits)
  ultimately show ?thesis by (intro exI [of _ key] exI [of _ r]) (simp add: horizon_evicts)
qed

text \<open>
  Fact. A successful write is read back exactly: after a persist that succeeded (and
  removed the marker it knew of), a restarted process loads the same records in the same order
  and the same history gaps, and writes nothing.
\<close>

theorem ledger_reload_roundtrip:
  assumes "hasFilePath l" and "is_loaded l" and "keyed (l_records (the_loaded l))"
    and "\<forall>(k, r) \<in> set (l_records (the_loaded l)). record_ok r"
    and "pe_write_ok pe" and "readDegradedMarker (persist pe l) = None" and "e_read_ok e"
  shows "loaded (load e (restart (persist pe l))) = loaded (persist pe l)"
proof -
  let ?m = "l_records (the_loaded l)" and ?p = "persist pe l"
  obtain ld where ld: "loaded l = Some ld" using assms(2) by (auto simp: is_loaded_def)
  define g where "g = (case degradedSinceMs l of None \<Rightarrow> l_gaps ld
      | Some since \<Rightarrow> Some (withDegradedWindow (l_gaps ld) \<lparr>w_fromMs = since, w_toMs = pe_now pe\<rparr>))"
  have g: "loaded ?p = Some (ld\<lparr>l_gaps := g\<rparr>)" "disk_main ?p = Contents (ledger_file ?m g)"
    using assms(1,5) ld by (auto simp: persist_def Let_def the_loaded_def g_def)
  have parsed: "parseSendAcceptanceFile (disk_main ?p) = \<lparr>p_records = map snd ?m, p_gaps = g, p_damaged = False\<rparr>"
    unfolding g(2) by (rule parse_ledger_file_ok) (use assms(4) in auto)
  have "readDegradedMarker (restart ?p) = None"
    using assms(6) read_marker_cong [of "restart ?p" ?p] by (simp add: restart_def)
  moreover have "loaded (restart ?p) = None" "disk_main (restart ?p) = disk_main ?p" "hasFilePath (restart ?p)"
    using assms(1) by (simp_all add: restart_def)
  ultimately have "loaded (load e (restart ?p)) = Some \<lparr>l_records = records_map (map snd ?m), l_gaps = g\<rparr>"
    using parsed assms(7) by (simp add: load_None fresh_load_def Let_def read_main_def read_marker_def)
  then show ?thesis using g ld records_map_values [OF assms(3)] by (simp add: the_loaded_def)
qed

subsection \<open>Witnesses\<close>

definition demo_penv :: "bool \<Rightarrow> persist_env" where
  "demo_penv ok = \<lparr>pe_now = 7, pe_write_ok = ok, pe_marker_write_ok = True, pe_marker_rm_ok = True\<rparr>"

definition demo_env :: "bool \<Rightarrow> call_env" where
  "demo_env ok = \<lparr>e_read_ok = True, e_marker_read_ok = True, e_copy_ok = True, e_copyAt = 1, e_resetAt = 2, e_windowTo = 3,
     e_loadPersist = demo_penv ok, e_acceptedAt = 5, e_persist = demo_penv ok\<rparr>"

definition demo_input :: "nat \<Rightarrow> pending_input" where
  "demo_input n = \<lparr>i_accountSlot = ''slot'', i_clientNonce = replicate n CHR ''n'',
     i_inputDigest = ''d'', i_agentId = ''a'', i_echoEntryId = None\<rparr>"

definition demo_ledger :: ledger where
  "demo_ledger = new_ledger True NoFile NoFile"

lemmas demo_ledger_defs = demo_penv_def demo_env_def demo_input_def demo_ledger_def new_ledger_def
  recordPending_def load_def read_main_def read_marker_def parseSendAcceptanceFile_def readDegradedMarker_def the_loaded_def
  records_map_def set_records_def evictPastCap_def persist_def persist_failed_def MAX_RECORDS_def
  pending_record_def jm_set_def Let_def marker_writable_def env_marker_ok_def recordKey_def

theorem ledger_never_forgets_witness:
  "snd (lookup (demo_env True) ''slot'' ''n''
     (foldl ledger_step (fst (recordPending (demo_env False) (demo_input 1) demo_ledger)) [EvRestart])) \<noteq> NotFound"
proof -
  have "snd (recordPending (demo_env False) (demo_input 1) demo_ledger) =
      Inr (pending_record (demo_env False) (demo_input 1))"
    by (simp add: demo_ledger_defs)
  from ledger_never_forgets [OF _ this refl, of NoFile NoFile "[]" "[EvRestart]" "demo_env True"]
  show ?thesis by (simp add: demo_ledger_def marker_writable_def env_marker_ok_def demo_env_def
        demo_penv_def demo_input_def)
qed

theorem ledger_stays_capped_witness:
  "ledger_ok (foldl ledger_step (new_ledger True Garbage NoFile)
     [EvPending (demo_env True) (demo_input 1), EvRestart, EvPending (demo_env False) (demo_input 2)])"
  by (rule ledger_stays_capped [OF _ refl]) (simp add: parseSendAcceptanceFile_def)

definition demo_settled :: ledger where
  "demo_settled = markRejected (demo_env True) ''slot'' ''n'' ''quota''
     (fst (recordPending (demo_env True) (demo_input 1) demo_ledger))"

lemma demo_settled_record:
  "is_loaded demo_settled" (is ?A)
  "jm_get (l_records (the_loaded demo_settled)) (recordKey ''slot'' ''n'') =
     Some ((pending_record (demo_env True) (demo_input 1))\<lparr>r_status := Rejected, r_rejectionCode := Some ''quota''\<rparr>)"
  (is ?B)
  by (simp_all add: demo_settled_def markRejected_def settle_pending_def is_loaded_def demo_ledger_defs)

theorem settled_send_is_replayed_witness:
  "lookup_loaded (foldl ledger_step demo_settled [EvAccepted (demo_env True) ''slot'' ''n'']) (recordKey ''slot'' ''n'')
     = Found ((pending_record (demo_env True) (demo_input 1))\<lparr>r_status := Rejected, r_rejectionCode := Some ''quota''\<rparr>)
   \<or> behind_horizon (l_gaps (the_loaded
       (foldl ledger_step demo_settled [EvAccepted (demo_env True) ''slot'' ''n'']))) 5"
  using settled_send_is_replayed [OF demo_settled_record, of "[EvAccepted (demo_env True) ''slot'' ''n'']"]
  by (simp add: pending_record_def demo_env_def)

definition demo_full :: ledger where
  "demo_full = set_records (map (\<lambda>n. (recordKey ''slot'' (replicate n CHR ''n''),
     (pending_record (demo_env True) (demo_input n)))) [0..<257]) demo_ledger"

lemma demo_full_keyed: "keyed (l_records (the_loaded demo_full))"
  by (auto simp: demo_full_def keyed_def jm_wf_def distinct_map inj_on_def recordKey_def
      key_of_def pending_record_def demo_input_def)

theorem eviction_order_witness:
  "\<exists>key r. (case find (\<lambda>(k, r). r_status r \<noteq> Pending) (l_records (the_loaded demo_full)) of
              Some p \<Rightarrow> (key, r) = p | None \<Rightarrow> (key, r) = hd (l_records (the_loaded demo_full))) \<and>
      l_records (the_loaded (evictPastCap demo_full)) = jm_delete (l_records (the_loaded demo_full)) key \<and>
      behind_horizon (l_gaps (the_loaded (evictPastCap demo_full))) (r_acceptedAtMs r)"
  by (rule eviction_order [OF _ demo_full_keyed refl]) (simp add: demo_full_def MAX_RECORDS_def)

definition demo_loaded :: ledger where
  "demo_loaded = fst (recordPending (demo_env False) (demo_input 1) demo_ledger)"

theorem ledger_reload_roundtrip_witness:
  "loaded (load (demo_env True) (restart (persist (demo_penv True) demo_loaded))) =
   loaded (persist (demo_penv True) demo_loaded)"
  by (rule ledger_reload_roundtrip)
    (simp_all add: demo_loaded_def demo_ledger_defs is_loaded_def keyed_def jm_wf_def key_of_def
      record_ok_simple_status)

end
