(* ===== verification/Ack_Obligations.thy ===== *)
theory Ack_Obligations
  imports Js_Prelude
begin

text \<open>
  Acknowledgement obligations
  (\<^verbatim>\<open>host/extensions/transcript/sand-ack-obligation-store.ts\<close>, \<^verbatim>\<open>ack-obligations.ts\<close>): a user
  message that nobody has visibly answered is an obligation, kept in a file, and re-driven by
  a background run at most three times until an answer goes out.

  First the store (a cached JSON file; a write may fail, and the cache then keeps the old
  list), then the component: redrive timers, the tokens of live runs, and the redrive itself,
  which is split where the code awaits: start, session resolved, task started, task finished.
  Telemetry reports are a log. The redrive prompt and the runner are outside the model.
\<close>

subsection \<open>The store\<close>

record ack_obligation =
  o_agentId :: string
  o_createdAtMs :: millis
  o_lastSendAtMs :: millis
  o_lastInterruptAtMs :: "millis option"
  o_coalescedCount :: int
  o_redriveAttempts :: int

definition finiteNumber :: "json option \<Rightarrow> int \<Rightarrow> int" where
  "finiteNumber v fallback = (case as_finite v of Some n \<Rightarrow> n | None \<Rightarrow> fallback)"

definition coerceObligation :: "json \<Rightarrow> ack_obligation option" where
  "coerceObligation e =
     (if \<not> is_object e then None
      else case as_string (jget e ''agentId'') of
        None \<Rightarrow> None
      | Some agentId \<Rightarrow>
          if agentId = '''' then None
          else let createdAtMs = finiteNumber (jget e ''createdAtMs'') 0
               in Some \<lparr>o_agentId = agentId, o_createdAtMs = createdAtMs,
                    o_lastSendAtMs = finiteNumber (jget e ''lastSendAtMs'') createdAtMs,
                    o_lastInterruptAtMs = as_finite (jget e ''lastInterruptAtMs''),
                    o_coalescedCount = max 1 (finiteNumber (jget e ''coalescedCount'') 1),
                    o_redriveAttempts = max 0 (finiteNumber (jget e ''redriveAttempts'') 0)\<rparr>)"

definition parseAckObligationsFile :: "disk_file \<Rightarrow> ack_obligation list" where
  "parseAckObligationsFile raw =
     (case raw of
        Contents value \<Rightarrow>
          (case jget value ''pending'' of
             Some (JArr entries) \<Rightarrow> List.map_filter coerceObligation entries
           | _ \<Rightarrow> [])
      | _ \<Rightarrow> [])"

definition obligation_json :: "ack_obligation \<Rightarrow> json" where
  "obligation_json ob = JObj
     ([(''agentId'', JStr (o_agentId ob)), (''createdAtMs'', JNum (o_createdAtMs ob)),
       (''lastSendAtMs'', JNum (o_lastSendAtMs ob))] @
      (case o_lastInterruptAtMs ob of None \<Rightarrow> [] | Some t \<Rightarrow> [(''lastInterruptAtMs'', JNum t)]) @
      [(''coalescedCount'', JNum (o_coalescedCount ob)), (''redriveAttempts'', JNum (o_redriveAttempts ob))])"

record ack_store =
  s_cache :: "ack_obligation list option"
  s_file :: disk_file

definition new_ack_store :: "disk_file \<Rightarrow> ack_store" where
  "new_ack_store file = \<lparr>s_cache = None, s_file = file\<rparr>"

text \<open>\<^verbatim>\<open>readPending\<close> fills the cache once; a file that cannot be read counts as no file.\<close>

definition pending_list :: "ack_store \<Rightarrow> ack_obligation list" where
  "pending_list s = (case s_cache s of Some c \<Rightarrow> c | None \<Rightarrow> parseAckObligationsFile (s_file s))"

definition readPending :: "ack_store \<Rightarrow> ack_store \<times> ack_obligation list" where
  "readPending s = (s\<lparr>s_cache := Some (pending_list s)\<rparr>, pending_list s)"

definition write_pending :: "bool \<Rightarrow> ack_obligation list \<Rightarrow> ack_store \<Rightarrow> ack_store" where
  "write_pending write_ok pending s =
     (if write_ok
      then s\<lparr>s_file := Contents (JObj [(''version'', JNum 1), (''pending'', JArr (map obligation_json pending))]),
             s_cache := Some pending\<rparr>
      else s)"

definition store_get :: "ack_store \<Rightarrow> string \<Rightarrow> ack_obligation option" where
  "store_get s agentId = find (\<lambda>ob. o_agentId ob = agentId) (pending_list s)"

definition upsert :: "bool \<Rightarrow> ack_obligation \<Rightarrow> ack_store \<Rightarrow> ack_store" where
  "upsert write_ok ob s =
     (let (s1, pending) = readPending s
      in write_pending write_ok (filter (\<lambda>x. o_agentId x \<noteq> o_agentId ob) pending @ [ob]) s1)"

definition store_clear :: "bool \<Rightarrow> string \<Rightarrow> ack_store \<Rightarrow> ack_store" where
  "store_clear write_ok agentId s =
     (let (s1, current) = readPending s; remaining = filter (\<lambda>x. o_agentId x \<noteq> agentId) current
      in if length remaining \<noteq> length current then write_pending write_ok remaining s1 else s1)"

definition recordSend ::
  "bool \<Rightarrow> string \<Rightarrow> millis \<Rightarrow> ack_store \<Rightarrow> ack_store \<times> ack_obligation \<times> bool" where
  "recordSend write_ok agentId atMs s =
     (let existing = store_get s agentId;
          ob = (case existing of
                  None \<Rightarrow> \<lparr>o_agentId = agentId, o_createdAtMs = atMs, o_lastSendAtMs = atMs,
                           o_lastInterruptAtMs = None, o_coalescedCount = 1, o_redriveAttempts = 0\<rparr>
                | Some x \<Rightarrow> x\<lparr>o_lastSendAtMs := atMs, o_coalescedCount := o_coalescedCount x + 1\<rparr>)
      in (upsert write_ok ob s, ob, existing = None))"

definition recordInterrupt :: "bool \<Rightarrow> string \<Rightarrow> millis \<Rightarrow> ack_store \<Rightarrow> ack_store" where
  "recordInterrupt write_ok agentId atMs s =
     (case store_get s agentId of None \<Rightarrow> fst (readPending s)
      | Some x \<Rightarrow> upsert write_ok (x\<lparr>o_lastInterruptAtMs := Some atMs\<rparr>) s)"

definition recordRedriveAttempt ::
  "bool \<Rightarrow> string \<Rightarrow> ack_store \<Rightarrow> ack_store \<times> ack_obligation option" where
  "recordRedriveAttempt write_ok agentId s =
     (case store_get s agentId of None \<Rightarrow> (fst (readPending s), None)
      | Some x \<Rightarrow> let next = x\<lparr>o_redriveAttempts := o_redriveAttempts x + 1\<rparr>
                  in (upsert write_ok next s, Some next))"

subsection \<open>The component\<close>

definition MAX_ACK_REDRIVES :: int where "MAX_ACK_REDRIVES = 3"

datatype redrive_trigger = Idle | Boot

datatype ack_outcome = Created | Coalesced | Fulfilled | Lost string | Redrive redrive_trigger

record ack_report =
  a_conversationId :: string
  a_outcome :: ack_outcome
  a_ageMs :: millis
  a_coalescedCount :: int
  a_redriveAttempts :: "int option"
  a_timeToFirstVisibleAckMs :: "millis option"
  a_interruptToReplacementAckMs :: "millis option"

text \<open>A redrive run handed to the scheduler: the obligation's agent, the session, its token.\<close>

record ack_run =
  k_agentId :: string
  k_sessionId :: string
  k_token :: "nat option"
  k_started :: bool

record acks =
  store :: ack_store
  ackRedriveTimers :: "(string, redrive_trigger) js_map"
  ackRunTokens :: "(string, nat list) js_map"
  nextToken :: nat
  resolving :: "string list"
  runs :: "ack_run list"
  reports :: "ack_report list"

text \<open>What a call reads from the rest of the host, and whether its file write succeeds.\<close>

record ack_env =
  n_hasStore :: bool
  n_hasScheduler :: bool
  n_disposed :: bool
  n_quiescing :: bool
  n_canExecute :: bool
  n_agentGone :: bool
  n_writeOk :: bool
  n_now :: millis

definition active :: "ack_env \<Rightarrow> bool" where
  "active n \<longleftrightarrow> n_hasStore n \<and> n_hasScheduler n"

definition report_of :: "string \<Rightarrow> ack_outcome \<Rightarrow> millis \<Rightarrow> ack_obligation \<Rightarrow> ack_report" where
  "report_of agentId outcome now ob =
     \<lparr>a_conversationId = agentId, a_outcome = outcome, a_ageMs = now - o_createdAtMs ob,
      a_coalescedCount = o_coalescedCount ob, a_redriveAttempts = Some (o_redriveAttempts ob),
      a_timeToFirstVisibleAckMs = None, a_interruptToReplacementAckMs = None\<rparr>"

definition report :: "ack_report \<Rightarrow> acks \<Rightarrow> acks" where
  "report r s = s\<lparr>reports := reports s @ [r]\<rparr>"

definition clearAckRedriveTimer :: "string \<Rightarrow> acks \<Rightarrow> acks" where
  "clearAckRedriveTimer agentId s = s\<lparr>ackRedriveTimers := jm_delete (ackRedriveTimers s) agentId\<rparr>"

definition recordAckObligationSend :: "ack_env \<Rightarrow> string \<Rightarrow> millis \<Rightarrow> acks \<Rightarrow> acks" where
  "recordAckObligationSend n agentId acceptedAtMs s =
     (if \<not> active n then s
      else let s1 = clearAckRedriveTimer agentId s;
               (st, ob, created) = recordSend (n_writeOk n) agentId acceptedAtMs (store s1)
           in report ((report_of agentId (if created then Created else Coalesced) acceptedAtMs ob)
                        \<lparr>a_redriveAttempts := None\<rparr>) (s1\<lparr>store := st\<rparr>))"

text \<open>The guard of \<^verbatim>\<open>armSendGuard\<close> is its captured \<^verbatim>\<open>armed\<close> flag; this is its disposal.\<close>

definition sendGuardDispose :: "ack_env \<Rightarrow> bool \<Rightarrow> string \<Rightarrow> millis \<Rightarrow> acks \<Rightarrow> acks" where
  "sendGuardDispose n armed agentId acceptedAtMs s =
     (if \<not> armed \<or> \<not> active n then s
      else if store_get (store s) agentId = None then recordAckObligationSend n agentId acceptedAtMs s
      else s)"

definition confirmAckObligationAfterInterrupt ::
  "ack_env \<Rightarrow> string \<Rightarrow> millis \<Rightarrow> bool \<Rightarrow> acks \<Rightarrow> acks" where
  "confirmAckObligationAfterInterrupt n agentId acceptedAtMs interrupted s =
     (if \<not> active n then s
      else let s1 = clearAckRedriveTimer agentId s;
               s2 = (if store_get (store s1) agentId = None
                     then recordAckObligationSend n agentId acceptedAtMs s1 else s1)
           in if interrupted
              then s2\<lparr>store := recordInterrupt (n_writeOk n) agentId acceptedAtMs (store s2)\<rparr> else s2)"

text \<open>\<^verbatim>\<open>randomUUID()\<close> is a fresh number.\<close>

definition mintAckRunToken :: "ack_env \<Rightarrow> string \<Rightarrow> acks \<Rightarrow> acks \<times> nat option" where
  "mintAckRunToken n agentId s =
     (if \<not> active n then (s, None)
      else let token = nextToken s;
               tokens = (case jm_get (ackRunTokens s) agentId of None \<Rightarrow> [] | Some ts \<Rightarrow> ts)
           in (s\<lparr>nextToken := Suc token,
                 ackRunTokens := jm_set (ackRunTokens s) agentId (set_add tokens token)\<rparr>, Some token))"

definition retireAckRunToken :: "string \<Rightarrow> nat option \<Rightarrow> acks \<Rightarrow> acks" where
  "retireAckRunToken agentId token s =
     (case token of None \<Rightarrow> s
      | Some t \<Rightarrow>
        (case jm_get (ackRunTokens s) agentId of None \<Rightarrow> s
         | Some tokens \<Rightarrow>
             let rest = set_remove tokens t
             in s\<lparr>ackRunTokens := (if rest = [] then jm_delete (ackRunTokens s) agentId
                                   else jm_set (ackRunTokens s) agentId rest)\<rparr>))"

definition live_token :: "acks \<Rightarrow> string \<Rightarrow> nat \<Rightarrow> bool" where
  "live_token s agentId token =
     (case jm_get (ackRunTokens s) agentId of None \<Rightarrow> False | Some ts \<Rightarrow> token \<in> set ts)"

definition fulfillAckObligation :: "ack_env \<Rightarrow> string option \<Rightarrow> nat option \<Rightarrow> acks \<Rightarrow> acks" where
  "fulfillAckObligation n agentId ackToken s =
     (case (agentId, ackToken) of
        (Some a, Some t) \<Rightarrow>
          if \<not> live_token s a t \<or> \<not> active n then s
          else (case store_get (store s) a of None \<Rightarrow> s
                | Some ob \<Rightarrow>
                    report ((report_of a Fulfilled (n_now n) ob)
                        \<lparr>a_timeToFirstVisibleAckMs := Some (n_now n - o_createdAtMs ob),
                         a_interruptToReplacementAckMs :=
                           map_option (\<lambda>at. n_now n - at) (o_lastInterruptAtMs ob)\<rparr>)
                      (clearAckRedriveTimer a (s\<lparr>store := store_clear (n_writeOk n) a (store s)\<rparr>)))
      | _ \<Rightarrow> s)"

definition markAckObligationLost :: "ack_env \<Rightarrow> string \<Rightarrow> string \<Rightarrow> acks \<Rightarrow> acks" where
  "markAckObligationLost n agentId reason s =
     (if \<not> active n then s
      else case store_get (store s) agentId of None \<Rightarrow> s
      | Some ob \<Rightarrow>
          report (report_of agentId (Lost reason) (n_now n) ob)
            (clearAckRedriveTimer agentId (s\<lparr>store := store_clear (n_writeOk n) agentId (store s)\<rparr>)))"

definition armAckRedriveTimer :: "ack_env \<Rightarrow> string \<Rightarrow> redrive_trigger \<Rightarrow> acks \<Rightarrow> acks" where
  "armAckRedriveTimer n agentId trigger s =
     (if \<not> active n \<or> n_disposed n \<or> n_quiescing n \<or> store_get (store s) agentId = None then s
      else let s1 = clearAckRedriveTimer agentId s
           in s1\<lparr>ackRedriveTimers := jm_set (ackRedriveTimers s1) agentId trigger\<rparr>)"

definition scheduleAckRedriveAfterIdle :: "ack_env \<Rightarrow> string \<Rightarrow> acks \<Rightarrow> acks" where
  "scheduleAckRedriveAfterIdle n agentId = armAckRedriveTimer n agentId Idle"

definition redriveUnfulfilledAckObligations :: "ack_env \<Rightarrow> acks \<Rightarrow> acks" where
  "redriveUnfulfilledAckObligations n s =
     (if \<not> active n \<or> \<not> n_canExecute n then s
      else foldl (\<lambda>s ob. armAckRedriveTimer n (o_agentId ob) Boot s) s (pending_list (store s)))"

text \<open>\<^verbatim>\<open>redriveAckObligation\<close> up to its first \<^verbatim>\<open>await\<close>.\<close>

definition redriveAckObligation :: "ack_env \<Rightarrow> string \<Rightarrow> redrive_trigger \<Rightarrow> acks \<Rightarrow> acks" where
  "redriveAckObligation n agentId trigger s =
     (if \<not> active n \<or> \<not> n_canExecute n \<or> n_disposed n \<or> n_quiescing n then s
      else case store_get (store s) agentId of None \<Rightarrow> s
      | Some ob \<Rightarrow>
          if n_agentGone n then markAckObligationLost n agentId ''agent_deleted'' s
          else if o_redriveAttempts ob \<ge> MAX_ACK_REDRIVES
          then markAckObligationLost n agentId ''max_redrives'' s
          else (case recordRedriveAttempt (n_writeOk n) agentId (store s) of
                  (st, None) \<Rightarrow> s\<lparr>store := st\<rparr>
                | (st, Some bumped) \<Rightarrow>
                    report (report_of agentId (Redrive trigger) (n_now n) bumped)
                      (s\<lparr>store := st, resolving := resolving s @ [agentId]\<rparr>)))"

text \<open>The timer's callback.\<close>

definition redriveTimerFires :: "ack_env \<Rightarrow> string \<Rightarrow> acks \<Rightarrow> acks" where
  "redriveTimerFires n agentId s =
     (case jm_get (ackRedriveTimers s) agentId of None \<Rightarrow> s
      | Some trigger \<Rightarrow>
          redriveAckObligation n agentId trigger
            (s\<lparr>ackRedriveTimers := jm_delete (ackRedriveTimers s) agentId\<rparr>))"

datatype resolved_session = SessionUnavailable | RoomSession | OrdinarySession string

text \<open>After \<^verbatim>\<open>resolveBackgroundSession\<close>: failure, a group or remote room, or a session to run in.\<close>

definition redriveResolved :: "ack_env \<Rightarrow> string \<Rightarrow> resolved_session \<Rightarrow> acks \<Rightarrow> acks" where
  "redriveResolved n agentId session s =
     (if agentId \<notin> set (resolving s) then s
      else let s1 = s\<lparr>resolving := remove1 agentId (resolving s)\<rparr>
           in case session of
                SessionUnavailable \<Rightarrow> scheduleAckRedriveAfterIdle n agentId s1
              | RoomSession \<Rightarrow> s1\<lparr>store := store_clear (n_writeOk n) agentId (store s1)\<rparr>
              | OrdinarySession sid \<Rightarrow>
                  let (s2, token) = mintAckRunToken n sid s1
                  in s2\<lparr>runs := runs s2 @ [\<lparr>k_agentId = agentId, k_sessionId = sid,
                                             k_token = token, k_started = False\<rparr>]\<rparr>)"

definition drop_run :: "nat \<Rightarrow> acks \<Rightarrow> acks" where
  "drop_run i s = s\<lparr>runs := take i (runs s) @ drop (Suc i) (runs s)\<rparr>"

text \<open>The scheduled task: nothing to do when the obligation is gone; its \<^verbatim>\<open>finally\<close> retires the token.\<close>

definition redriveTaskEnds :: "nat \<Rightarrow> acks \<Rightarrow> acks" where
  "redriveTaskEnds i s =
     (if i < length (runs s)
      then retireAckRunToken (k_sessionId (runs s ! i)) (k_token (runs s ! i)) (drop_run i s) else s)"

definition redriveTaskStarts :: "nat \<Rightarrow> acks \<Rightarrow> acks" where
  "redriveTaskStarts i s =
     (if i < length (runs s)
      then (if store_get (store s) (k_agentId (runs s ! i)) = None then redriveTaskEnds i s
            else s\<lparr>runs := (runs s)[i := (runs s ! i)\<lparr>k_started := True\<rparr>]\<rparr>)
      else s)"

datatype ack_event =
    AkSend ack_env string millis
  | AkGuard ack_env bool string millis
  | AkConfirm ack_env string millis bool
  | AkMint ack_env string
  | AkRetire string "nat option"
  | AkFulfill ack_env "string option" "nat option"
  | AkLost ack_env string string
  | AkIdle ack_env string
  | AkBoot ack_env
  | AkTimer ack_env string
  | AkResolved ack_env string resolved_session
  | AkTaskStarts nat
  | AkTaskEnds nat

fun ack_step :: "acks \<Rightarrow> ack_event \<Rightarrow> acks" where
  "ack_step s (AkSend n a t) = recordAckObligationSend n a t s"
| "ack_step s (AkGuard n g a t) = sendGuardDispose n g a t s"
| "ack_step s (AkConfirm n a t i) = confirmAckObligationAfterInterrupt n a t i s"
| "ack_step s (AkMint n a) = fst (mintAckRunToken n a s)"
| "ack_step s (AkRetire a t) = retireAckRunToken a t s"
| "ack_step s (AkFulfill n a t) = fulfillAckObligation n a t s"
| "ack_step s (AkLost n a r) = markAckObligationLost n a r s"
| "ack_step s (AkIdle n a) = scheduleAckRedriveAfterIdle n a s"
| "ack_step s (AkBoot n) = redriveUnfulfilledAckObligations n s"
| "ack_step s (AkTimer n a) = redriveTimerFires n a s"
| "ack_step s (AkResolved n a r) = redriveResolved n a r s"
| "ack_step s (AkTaskStarts i) = redriveTaskStarts i s"
| "ack_step s (AkTaskEnds i) = redriveTaskEnds i s"

subsection \<open>Store lemmas\<close>

definition obligation_ok :: "ack_obligation \<Rightarrow> bool" where
  "obligation_ok ob \<longleftrightarrow> o_agentId ob \<noteq> '''' \<and> 1 \<le> o_coalescedCount ob \<and> 0 \<le> o_redriveAttempts ob"

lemma coerce_obligation_json: "obligation_ok ob \<Longrightarrow> coerceObligation (obligation_json ob) = Some ob"
  by (cases "o_lastInterruptAtMs ob")
    (simp_all add: coerceObligation_def obligation_json_def obligation_ok_def finiteNumber_def Let_def)

lemma coerced_obligation_ok: "coerceObligation j = Some ob \<Longrightarrow> obligation_ok ob"
  by (auto simp: coerceObligation_def obligation_ok_def Let_def split: if_splits option.splits)

lemma map_filter_json: "\<forall>ob \<in> set obs. obligation_ok ob \<Longrightarrow>
    List.map_filter coerceObligation (map obligation_json obs) = obs"
  by (induction obs) (auto simp: coerce_obligation_json List.map_filter_def)

lemma parsed_obligations_ok: "ob \<in> set (parseAckObligationsFile raw) \<Longrightarrow> obligation_ok ob"
  by (auto simp: parseAckObligationsFile_def List.map_filter_def coerced_obligation_ok
      split: disk_file.splits option.splits json.splits)

lemma parse_written:
  "\<forall>ob \<in> set obs. obligation_ok ob \<Longrightarrow>
   parseAckObligationsFile (Contents (JObj [(''version'', JNum 1), (''pending'', JArr (map obligation_json obs))])) = obs"
  by (simp add: parseAckObligationsFile_def map_filter_json)

lemma pending_upsert:
  "pending_list (upsert w ob s) =
     (if w then filter (\<lambda>x. o_agentId x \<noteq> o_agentId ob) (pending_list s) @ [ob] else pending_list s)"
  by (simp add: upsert_def readPending_def write_pending_def pending_list_def)

lemma filter_length_same: "length (filter P xs) = length xs \<Longrightarrow> filter P xs = xs"
  by (metis filter_id_conv length_filter_less less_irrefl)

lemma pending_clear:
  "pending_list (store_clear w a s) =
     (if w then filter (\<lambda>x. o_agentId x \<noteq> a) (pending_list s) else pending_list s)"
proof (cases "length (filter (\<lambda>x. o_agentId x \<noteq> a) (pending_list s)) = length (pending_list s)")
  case True
  then have "filter (\<lambda>x. o_agentId x \<noteq> a) (pending_list s) = pending_list s" by (rule filter_length_same)
  then show ?thesis by (simp add: store_clear_def readPending_def pending_list_def)
next
  case False
  then show ?thesis by (auto simp: store_clear_def readPending_def write_pending_def Let_def)
      (auto simp: pending_list_def)
qed

lemma get_upsert: "store_get (upsert w ob s) k =
    (if w \<and> k = o_agentId ob then Some ob else store_get s k)"
  by (simp add: store_get_def pending_upsert find_replace)

lemma get_clear: "store_get (store_clear w a s) k = (if w \<and> k = a then None else store_get s k)"
  by (simp add: store_get_def pending_clear find_filter_key)

lemma store_get_agent: "store_get s a = Some ob \<Longrightarrow> o_agentId ob = a \<and> ob \<in> set (pending_list s)"
  by (auto simp: store_get_def dest: find_SomeD)

interpretation ack_cache: record_store o_agentId "\<lambda>_. True" store_get "\<lambda>s ob. upsert True ob s" "\<lambda>s a. store_clear True a s" "\<lambda>_. True"
  by unfold_locales (simp_all add: fun_eq_iff get_upsert get_clear)

text \<open>The same laws for what a restarted process reads from the file.\<close>

definition store_durable :: "ack_store \<Rightarrow> bool" where
  "store_durable s \<longleftrightarrow> (\<forall>ob \<in> set (pending_list s). obligation_ok ob) \<and>
     parseAckObligationsFile (s_file s) = pending_list s"

lemma ack_upsert_durable: "store_durable s \<Longrightarrow> obligation_ok ob \<Longrightarrow> store_durable (upsert True ob s)"
proof -
  assume "store_durable s" "obligation_ok ob"
  then have "\<forall>x \<in> set (pending_list (upsert True ob s)). obligation_ok x"
    by (auto simp: store_durable_def pending_upsert)
  moreover have "s_file (upsert True ob s) = Contents (JObj [(''version'', JNum 1),
      (''pending'', JArr (map obligation_json (pending_list (upsert True ob s))))])"
    by (simp add: pending_upsert) (simp add: upsert_def readPending_def write_pending_def)
  ultimately show ?thesis by (simp add: store_durable_def parse_written del: list.map)
qed

lemma ack_clear_durable: "store_durable s \<Longrightarrow> store_durable (store_clear True a s)"
proof -
  assume d: "store_durable s"
  then have ok: "\<forall>x \<in> set (filter (\<lambda>x. o_agentId x \<noteq> a) (pending_list s)). obligation_ok x"
    by (auto simp: store_durable_def)
  show ?thesis
  proof (cases "length (filter (\<lambda>x. o_agentId x \<noteq> a) (pending_list s)) = length (pending_list s)")
    case True
    then have "filter (\<lambda>x. o_agentId x \<noteq> a) (pending_list s) = pending_list s" by (rule filter_length_same)
    with True d show ?thesis
      by (auto simp: store_durable_def pending_clear)
        (auto simp: store_clear_def readPending_def)
  next
    case False
    then have "s_file (store_clear True a s) = Contents (JObj [(''version'', JNum 1),
        (''pending'', JArr (map obligation_json (filter (\<lambda>x. o_agentId x \<noteq> a) (pending_list s))))])"
      by (simp add: store_clear_def readPending_def write_pending_def Let_def)
    with ok show ?thesis by (simp add: store_durable_def pending_clear parse_written)
  qed
qed

definition reload_get :: "ack_store \<Rightarrow> string \<Rightarrow> ack_obligation option" where
  "reload_get s = store_get (new_ack_store (s_file s))"

lemma reload_get: "store_durable s \<Longrightarrow> reload_get s = store_get s"
  by (simp add: fun_eq_iff reload_get_def store_get_def new_ack_store_def store_durable_def pending_list_def)

interpretation ack_disk: record_store o_agentId obligation_ok reload_get "\<lambda>s ob. upsert True ob s" "\<lambda>s a. store_clear True a s" store_durable
  by unfold_locales
    (simp_all add: reload_get ack_upsert_durable ack_clear_durable fun_eq_iff get_upsert get_clear)

subsection \<open>What each call does to the store\<close>

lemma report_simps [simp]:
  "store (report r s) = store s" "ackRunTokens (report r s) = ackRunTokens s"
  "ackRedriveTimers (report r s) = ackRedriveTimers s" "reports (report r s) = reports s @ [r]"
  "runs (report r s) = runs s" "resolving (report r s) = resolving s"
  by (simp_all add: report_def)

lemma timer_frames [simp]:
  "store (clearAckRedriveTimer a s) = store s" "reports (clearAckRedriveTimer a s) = reports s"
  "store (armAckRedriveTimer n a t s) = store s" "reports (armAckRedriveTimer n a t s) = reports s"
  "store (scheduleAckRedriveAfterIdle n a s) = store s" "reports (scheduleAckRedriveAfterIdle n a s) = reports s"
  by (simp_all add: clearAckRedriveTimer_def armAckRedriveTimer_def scheduleAckRedriveAfterIdle_def Let_def)

lemma arm_all_frames [simp]:
  "store (foldl (\<lambda>s ob. armAckRedriveTimer n (o_agentId ob) Boot s) s obs) = store s"
  "reports (foldl (\<lambda>s ob. armAckRedriveTimer n (o_agentId ob) Boot s) s obs) = reports s"
  by (induction obs arbitrary: s) simp_all

lemma token_frames [simp]:
  "store (fst (mintAckRunToken n a s)) = store s" "reports (fst (mintAckRunToken n a s)) = reports s"
  "store (retireAckRunToken a t s) = store s" "reports (retireAckRunToken a t s) = reports s"
  by (auto simp: mintAckRunToken_def retireAckRunToken_def Let_def split: option.splits)

lemma task_frames [simp]:
  "store (redriveTaskEnds i s) = store s" "reports (redriveTaskEnds i s) = reports s"
  "store (redriveTaskStarts i s) = store s" "reports (redriveTaskStarts i s) = reports s"
  by (auto simp: redriveTaskStarts_def redriveTaskEnds_def drop_run_def)

lemma boot_frames [simp]:
  "store (redriveUnfulfilledAckObligations n s) = store s"
  "reports (redriveUnfulfilledAckObligations n s) = reports s"
  by (simp_all add: redriveUnfulfilledAckObligations_def)

lemma fst_readPending_get [simp]: "store_get (fst (readPending s)) = store_get s"
  by (simp add: fun_eq_iff store_get_def readPending_def pending_list_def)

lemma fst_readPending_list [simp]: "pending_list (fst (readPending s)) = pending_list s"
  by (simp add: readPending_def pending_list_def)

subsection \<open>The redrive budget\<close>

definition is_redrive :: "ack_outcome \<Rightarrow> bool" where
  "is_redrive oc = (case oc of Redrive _ \<Rightarrow> True | _ \<Rightarrow> False)"

definition redrives :: "string \<Rightarrow> acks \<Rightarrow> nat" where
  "redrives a s = length (filter (\<lambda>r. a_conversationId r = a \<and> is_redrive (a_outcome r)) (reports s))"

definition budget :: "string \<Rightarrow> acks \<Rightarrow> nat" where
  "budget a s = (case store_get (store s) a of None \<Rightarrow> 0
     | Some ob \<Rightarrow> nat (MAX_ACK_REDRIVES - o_redriveAttempts ob))"

fun writes_ok :: "ack_event \<Rightarrow> bool" where
  "writes_ok (AkSend n _ _) = n_writeOk n"
| "writes_ok (AkGuard n _ _ _) = n_writeOk n"
| "writes_ok (AkConfirm n _ _ _) = n_writeOk n"
| "writes_ok (AkFulfill n _ _) = n_writeOk n"
| "writes_ok (AkLost n _ _) = n_writeOk n"
| "writes_ok (AkTimer n _) = n_writeOk n"
| "writes_ok (AkResolved n _ _) = n_writeOk n"
| "writes_ok _ = True"

fun sends_to :: "string \<Rightarrow> ack_event \<Rightarrow> bool" where
  "sends_to a (AkSend _ b _) = (b = a)"
| "sends_to a (AkGuard _ _ b _) = (b = a)"
| "sends_to a (AkConfirm _ b _ _) = (b = a)"
| "sends_to a _ = False"

text \<open>No new obligation begins for the agent: sends only coalesce into an outstanding one.\<close>

fun no_new_obligation :: "string \<Rightarrow> acks \<Rightarrow> ack_event list \<Rightarrow> bool" where
  "no_new_obligation a s [] = True"
| "no_new_obligation a s (ev # es) =
     ((sends_to a ev \<longrightarrow> store_get (store s) a \<noteq> None) \<and> no_new_obligation a (ack_step s ev) es)"

definition sent :: "string \<Rightarrow> millis \<Rightarrow> ack_obligation option \<Rightarrow> ack_obligation" where
  "sent a t existing = (case existing of
      None \<Rightarrow> \<lparr>o_agentId = a, o_createdAtMs = t, o_lastSendAtMs = t, o_lastInterruptAtMs = None,
               o_coalescedCount = 1, o_redriveAttempts = 0\<rparr>
    | Some x \<Rightarrow> x\<lparr>o_lastSendAtMs := t, o_coalescedCount := o_coalescedCount x + 1\<rparr>)"

lemma recordSend_eq:
  "recordSend w a t s = (upsert w (sent a t (store_get s a)) s, sent a t (store_get s a), store_get s a = None)"
  by (simp add: recordSend_def sent_def Let_def)

lemma sent_agent: "(\<And>x. existing = Some x \<Longrightarrow> o_agentId x = a) \<Longrightarrow> o_agentId (sent a t existing) = a"
  by (cases existing) (simp_all add: sent_def)

lemma get_recordSend:
  "store_get (fst (recordSend w a t s)) k =
    (if w \<and> k = a then Some (sent a t (store_get s a)) else store_get s k)"
proof -
  have "o_agentId (sent a t (store_get s a)) = a" by (rule sent_agent) (auto dest: store_get_agent)
  then show ?thesis by (simp add: recordSend_eq get_upsert)
qed

lemma get_recordInterrupt:
  "store_get (recordInterrupt w a t s) k =
    (if w \<and> k = a then map_option (\<lambda>x. x\<lparr>o_lastInterruptAtMs := Some t\<rparr>) (store_get s a) else store_get s k)"
  by (auto simp: recordInterrupt_def get_upsert dest: store_get_agent split: option.splits)

lemma recordRedriveAttempt_Some:
  assumes "store_get s a = Some ob"
  shows "recordRedriveAttempt w a s =
    (upsert w (ob\<lparr>o_redriveAttempts := o_redriveAttempts ob + 1\<rparr>) s,
     Some (ob\<lparr>o_redriveAttempts := o_redriveAttempts ob + 1\<rparr>))"
  using assms by (simp add: recordRedriveAttempt_def Let_def)

lemma send_effect:
  "store (recordAckObligationSend n a t s) =
     (if active n then fst (recordSend (n_writeOk n) a t (store s)) else store s) \<and>
   redrives b (recordAckObligationSend n a t s) = redrives b s"
  by (auto simp: recordAckObligationSend_def Let_def recordSend_eq redrives_def report_of_def is_redrive_def)

lemma lost_effect:
  "store_get (store (markAckObligationLost n a r s)) b =
     (if active n \<and> n_writeOk n \<and> b = a then None else store_get (store s) b) \<and>
   redrives b (markAckObligationLost n a r s) = redrives b s"
  by (auto simp: markAckObligationLost_def get_clear redrives_def report_of_def is_redrive_def split: option.splits)

lemma fulfill_effect:
  "store_get (store (fulfillAckObligation n a t s)) b =
     (if active n \<and> n_writeOk n \<and> a = Some b \<and> t \<noteq> None \<and> live_token s b (the t) then None
      else store_get (store s) b) \<and>
   redrives b (fulfillAckObligation n a t s) = redrives b s"
  by (auto simp: fulfillAckObligation_def get_clear redrives_def report_of_def is_redrive_def split: option.splits)

lemma resolved_effect:
  "store_get (store (redriveResolved n a r s)) b =
     (if a \<in> set (resolving s) \<and> r = RoomSession \<and> n_writeOk n \<and> b = a then None else store_get (store s) b) \<and>
   redrives b (redriveResolved n a r s) = redrives b s"
proof (cases r)
  case (OrdinarySession sid)
  let ?s = "s\<lparr>resolving := remove1 a (resolving s)\<rparr>"
  have "store (fst (mintAckRunToken n sid ?s)) = store s" "reports (fst (mintAckRunToken n sid ?s)) = reports s"
    by simp_all
  with OrdinarySession show ?thesis
    by (auto simp: redriveResolved_def Let_def split_beta redrives_def)
qed (auto simp: redriveResolved_def Let_def get_clear redrives_def)

text \<open>One redrive: an existing obligation below the cap is bumped once and reported once.\<close>

lemma redrive_effect:
  assumes "s' = redriveAckObligation n a trig s"
  shows "(store s' = store s \<and> reports s' = reports s) \<or>
    (\<exists>ob. store_get (store s) a = Some ob \<and> (n_agentGone n \<or> MAX_ACK_REDRIVES \<le> o_redriveAttempts ob) \<and>
       active n \<and> (\<forall>b. store_get (store s') b = (if n_writeOk n \<and> b = a then None else store_get (store s) b)) \<and>
       (\<forall>b. redrives b s' = redrives b s)) \<or>
    (\<exists>ob. store_get (store s) a = Some ob \<and> o_redriveAttempts ob < MAX_ACK_REDRIVES \<and>
       store s' = upsert (n_writeOk n) (ob\<lparr>o_redriveAttempts := o_redriveAttempts ob + 1\<rparr>) (store s) \<and>
       (\<forall>b. redrives b s' = redrives b s + (if b = a then 1 else 0)))"
proof (cases "\<not> active n \<or> \<not> n_canExecute n \<or> n_disposed n \<or> n_quiescing n \<or> store_get (store s) a = None")
  case True
  with assms show ?thesis by (auto simp: redriveAckObligation_def)
next
  case False
  then obtain ob where ob: "store_get (store s) a = Some ob" by auto
  show ?thesis
  proof (cases "n_agentGone n \<or> MAX_ACK_REDRIVES \<le> o_redriveAttempts ob")
    case True
    with False ob assms show ?thesis by (auto simp: redriveAckObligation_def lost_effect)
  next
    case small: False
    with False ob assms have "s' = report (report_of a (Redrive trig) (n_now n)
        (ob\<lparr>o_redriveAttempts := o_redriveAttempts ob + 1\<rparr>))
        (s\<lparr>store := upsert (n_writeOk n) (ob\<lparr>o_redriveAttempts := o_redriveAttempts ob + 1\<rparr>) (store s),
           resolving := resolving s @ [a]\<rparr>)"
      by (simp add: redriveAckObligation_def recordRedriveAttempt_Some [OF ob])
    with ob small show ?thesis
      by (auto simp: redrives_def report_of_def is_redrive_def)
  qed
qed

lemma guard_effect:
  "sendGuardDispose n g a t s = s \<or>
   store_get (store s) a = None \<and> active n \<and> g \<and> sendGuardDispose n g a t s = recordAckObligationSend n a t s"
  by (auto simp: sendGuardDispose_def)

lemma confirm_effect:
  assumes "store_get (store s) a \<noteq> None"
  shows "store_get (store (confirmAckObligationAfterInterrupt n a t i s)) b =
     (if active n \<and> i \<and> n_writeOk n \<and> b = a
      then map_option (\<lambda>x. x\<lparr>o_lastInterruptAtMs := Some t\<rparr>) (store_get (store s) a) else store_get (store s) b) \<and>
   redrives b (confirmAckObligationAfterInterrupt n a t i s) = redrives b s"
  using assms by (auto simp: confirmAckObligationAfterInterrupt_def Let_def get_recordInterrupt redrives_def)

lemma confirm_redrives: "redrives b (confirmAckObligationAfterInterrupt n a t i s) = redrives b s"
proof -
  have r: "redrives b (s\<lparr>store := x\<rparr>) = redrives b s" for x s by (simp add: redrives_def)
  have c: "redrives b (clearAckRedriveTimer a s) = redrives b s" by (simp add: redrives_def)
  show ?thesis
    by (simp add: confirmAckObligationAfterInterrupt_def Let_def r c send_effect)
qed

lemma confirm_other:
  assumes "b \<noteq> a"
  shows "store_get (store (confirmAckObligationAfterInterrupt n a t i s)) b = store_get (store s) b"
  using assms by (auto simp: confirmAckObligationAfterInterrupt_def Let_def get_recordInterrupt
      send_effect get_recordSend)

lemma guard_redrives: "redrives b (sendGuardDispose n g a t s) = redrives b s"
  by (metis guard_effect send_effect)

lemma budget_cong: "store_get (store s') a = store_get (store s) a \<Longrightarrow> budget a s' = budget a s"
  by (simp add: budget_def)

lemma redrive_budget:
  assumes "n_writeOk n"
  shows "redrives a (redriveAckObligation n b trig s) + budget a (redriveAckObligation n b trig s)
    \<le> redrives a s + budget a s"
  using redrive_effect [OF refl, of n b trig s] assms
  by (fastforce simp: budget_def redrives_def get_upsert MAX_ACK_REDRIVES_def dest: store_get_agent split: option.splits)

lemma redrives_timers [simp]:
  "redrives b (s\<lparr>ackRedriveTimers := x\<rparr>) = redrives b s" "budget b (s\<lparr>ackRedriveTimers := x\<rparr>) = budget b s"
  by (simp_all add: redrives_def budget_def)

lemma send_budget:
  assumes "n_writeOk n" and "b = a \<longrightarrow> store_get (store s) a \<noteq> None"
  shows "budget a (recordAckObligationSend n b t s) = budget a s"
  using assms by (auto simp: budget_def send_effect get_recordSend sent_def)

lemma step_budget:
  assumes "writes_ok ev" and "sends_to a ev \<longrightarrow> store_get (store s) a \<noteq> None"
  shows "redrives a (ack_step s ev) + budget a (ack_step s ev) \<le> redrives a s + budget a s"
proof (cases ev)
  case (AkSend n b t)
  with assms show ?thesis by (simp add: send_budget send_effect)
next
  case (AkGuard n g b t)
  with assms guard_effect [of n g b t s] show ?thesis
    by (metis ack_step.simps(2) add_le_mono1 guard_redrives le_refl send_budget sends_to.simps(2) writes_ok.simps(2))
next
  case (AkConfirm n b t i)
  show ?thesis
  proof (cases "b = a")
    case True
    with assms AkConfirm have g: "store_get (store s) a \<noteq> None" by simp
    with True AkConfirm show ?thesis
      using confirm_effect [OF g, of n t i a] by (auto simp: budget_def split: option.splits)
  next
    case False
    then have "a \<noteq> b" by simp
    with AkConfirm show ?thesis
      by (simp add: confirm_redrives budget_cong [OF confirm_other [OF \<open>a \<noteq> b\<close>]])
  qed
next
  case (AkTimer n b)
  show ?thesis
  proof (cases "jm_get (ackRedriveTimers s) b")
    case None
    with AkTimer show ?thesis by (simp add: redriveTimerFires_def)
  next
    case (Some trig)
    with AkTimer assms redrive_budget [of n a b trig "s\<lparr>ackRedriveTimers := jm_delete (ackRedriveTimers s) b\<rparr>"]
    show ?thesis by (simp add: redriveTimerFires_def)
  qed
qed (simp_all add: budget_def fulfill_effect lost_effect resolved_effect redrives_def [of _ "redriveTaskStarts _ _"]
      redrives_def [of _ "redriveTaskEnds _ _"] redrives_def [of _ "scheduleAckRedriveAfterIdle _ _ _"]
      redrives_def [of _ "redriveUnfulfilledAckObligations _ _"] redrives_def [of _ "fst (mintAckRunToken _ _ _)"]
      redrives_def [of _ "retireAckRunToken _ _ _"] redrives_def [of _ s] split: option.splits)

lemma run_budget:
  assumes "\<forall>ev \<in> set es. writes_ok ev" and "no_new_obligation a s es"
  shows "redrives a (foldl ack_step s es) \<le> redrives a s + budget a s"
proof -
  have "redrives a (foldl ack_step s es) + budget a (foldl ack_step s es) \<le> redrives a s + budget a s"
    using assms
  proof (induction es arbitrary: s)
    case Nil
    then show ?case by simp
  next
    case (Cons ev es)
    have "redrives a (ack_step s ev) + budget a (ack_step s ev) \<le> redrives a s + budget a s"
      by (rule step_budget) (use Cons.prems in simp_all)
    moreover have "redrives a (foldl ack_step (ack_step s ev) es) + budget a (foldl ack_step (ack_step s ev) es)
        \<le> redrives a (ack_step s ev) + budget a (ack_step s ev)"
      by (rule Cons.IH) (use Cons.prems in simp_all)
    ultimately show ?case by simp
  qed
  then show ?thesis by simp
qed

definition attempts_ok :: "acks \<Rightarrow> bool" where
  "attempts_ok s \<longleftrightarrow> (\<forall>a ob. store_get (store s) a = Some ob \<longrightarrow> 0 \<le> o_redriveAttempts ob)"

lemma send_attempts: "attempts_ok s \<Longrightarrow> attempts_ok (recordAckObligationSend n b t s)"
  by (auto simp: attempts_ok_def send_effect get_recordSend sent_def split: option.splits if_splits)

lemma step_attempts: "attempts_ok s \<Longrightarrow> attempts_ok (ack_step s ev)"
proof (cases ev)
  case (AkGuard n g b t)
  assume "attempts_ok s"
  with AkGuard guard_effect [of n g b t s] show ?thesis by (metis ack_step.simps(2) send_attempts)
next
  case (AkConfirm n b t i)
  assume ok: "attempts_ok s"
  have "attempts_ok (clearAckRedriveTimer b s)" using ok by (simp add: attempts_ok_def)
  with ok AkConfirm send_attempts [of "clearAckRedriveTimer b s" n b t] show ?thesis
    by (auto simp: confirmAckObligationAfterInterrupt_def Let_def attempts_ok_def get_recordInterrupt
        split: if_splits)
next
  case (AkTimer n b)
  assume ok: "attempts_ok s"
  show ?thesis
  proof (cases "jm_get (ackRedriveTimers s) b")
    case None
    with AkTimer ok show ?thesis by (simp add: redriveTimerFires_def)
  next
    case (Some trig)
    let ?s = "s\<lparr>ackRedriveTimers := jm_delete (ackRedriveTimers s) b\<rparr>"
    have "attempts_ok ?s" using ok by (simp add: attempts_ok_def)
    then have "attempts_ok (redriveAckObligation n b trig ?s)"
      using redrive_effect [OF refl, of n b trig ?s]
      by (fastforce simp: attempts_ok_def get_upsert split: if_splits)
    with Some AkTimer show ?thesis by (simp add: redriveTimerFires_def)
  qed
qed (auto simp: attempts_ok_def send_effect get_recordSend sent_def fulfill_effect lost_effect resolved_effect
      split: if_splits option.splits)

interpretation acks: invariant_machine ack_step attempts_ok
  by unfold_locales (rule step_attempts)

definition new_acks :: "disk_file \<Rightarrow> acks" where
  "new_acks file = \<lparr>store = new_ack_store file, ackRedriveTimers = [], ackRunTokens = [], nextToken = 0,
     resolving = [], runs = [], reports = []\<rparr>"

lemma new_acks_ok: "attempts_ok (new_acks file)"
  by (auto simp: attempts_ok_def new_acks_def new_ack_store_def store_get_def pending_list_def obligation_ok_def
      dest!: find_SomeD parsed_obligations_ok)

subsection \<open>Properties\<close>

text \<open>
  Property C23. The redrive budget: whatever happened before, from any state of a process and
  for as long as no new obligation begins for an agent (more messages may still coalesce into
  the outstanding one), and the obligations file can be written, timers, boot passes, failed
  session lookups and late answers redrive that agent at most three times.
\<close>

theorem at_most_three_redrives:
  assumes "s = foldl ack_step (new_acks file) es0"
    and "\<forall>ev \<in> set es. writes_ok ev" and "no_new_obligation a s es"
  shows "redrives a (foldl ack_step s es) \<le> redrives a s + 3"
proof -
  have "attempts_ok s" using acks.run_inv [OF new_acks_ok] assms(1) by simp
  then have "budget a s \<le> 3"
    by (cases "store_get (store s) a") (force simp: budget_def attempts_ok_def MAX_ACK_REDRIVES_def)+
  with run_budget [OF assms(2,3)] show ?thesis by simp
qed

text \<open>
  Fact. An obligation is never dropped silently: when one step of the component makes
  it disappear, that step fulfilled it through the token of a live run of that agent, declared
  it lost, gave up on it (agent gone, or three redrives spent), or found its agent is a room.
\<close>

theorem obligation_only_leaves_answered_or_lost:
  assumes "store_get (store s) a = Some ob" and "store_get (store (ack_step s ev)) a = None"
  shows "(\<exists>n t. ev = AkFulfill n (Some a) (Some t) \<and> live_token s a t) \<or>
    (\<exists>n r. ev = AkLost n a r) \<or>
    (\<exists>n. ev = AkTimer n a \<and> (n_agentGone n \<or> MAX_ACK_REDRIVES \<le> o_redriveAttempts ob)) \<or>
    (\<exists>n. ev = AkResolved n a RoomSession)"
proof (cases ev)
  case (AkSend n b t)
  with assms show ?thesis by (auto simp: send_effect get_recordSend split: if_splits)
next
  case (AkGuard n g b t)
  with assms guard_effect [of n g b t s] show ?thesis
    by (auto simp: send_effect get_recordSend split: if_splits)
next
  case (AkConfirm n b t i)
  show ?thesis
  proof (cases "b = a")
    case True
    with assms AkConfirm confirm_effect [of s a n t i a] show ?thesis by (auto split: if_splits)
  next
    case False
    with assms AkConfirm confirm_other [of a b n t i s] show ?thesis by simp
  qed
next
  case (AkTimer n b)
  show ?thesis
  proof (cases "jm_get (ackRedriveTimers s) b")
    case None
    with AkTimer assms show ?thesis by (simp add: redriveTimerFires_def)
  next
    case (Some trig)
    with AkTimer assms
      redrive_effect [OF refl, of n b trig "s\<lparr>ackRedriveTimers := jm_delete (ackRedriveTimers s) b\<rparr>"]
    show ?thesis by (auto simp: redriveTimerFires_def get_upsert split: if_splits)
  qed
qed (use assms in \<open>auto simp: fulfill_effect lost_effect resolved_effect split: if_splits\<close>)

lemma sends_effect:
  assumes "active n" and "n_writeOk n" and "store_get (store s) a = Some ob"
  shows "store_get (store (foldl (\<lambda>s t. recordAckObligationSend n a t s) s ts)) a =
    Some (ob\<lparr>o_lastSendAtMs := last (o_lastSendAtMs ob # ts),
             o_coalescedCount := o_coalescedCount ob + int (length ts)\<rparr>)"
  using assms(3)
proof (induction ts arbitrary: s ob)
  case Nil
  then show ?case by simp
next
  case (Cons t ts)
  have "store_get (store (recordAckObligationSend n a t s)) a =
      Some (ob\<lparr>o_lastSendAtMs := t, o_coalescedCount := o_coalescedCount ob + 1\<rparr>)"
    using assms(1,2) Cons.prems by (simp add: send_effect get_recordSend sent_def)
  from Cons.IH [OF this] show ?case by (simp add: algebra_simps)
qed

text \<open>
  Fact. Messages coalesce: after the first unanswered message and any further ones there
  is one obligation, dated from the first, last touched by the newest, counting them all, with
  no redrive spent.
\<close>

theorem sends_coalesce:
  assumes "active n" and "n_writeOk n" and "store_get (store s) a = None"
  shows "store_get (store (foldl (\<lambda>s t. recordAckObligationSend n a t s) s (t # ts))) a =
    Some \<lparr>o_agentId = a, o_createdAtMs = t, o_lastSendAtMs = last (t # ts), o_lastInterruptAtMs = None,
          o_coalescedCount = int (length (t # ts)), o_redriveAttempts = 0\<rparr>"
proof -
  have "store_get (store (recordAckObligationSend n a t s)) a = Some (sent a t None)"
    using assms by (simp add: send_effect get_recordSend)
  from sends_effect [OF assms(1,2) this, of ts] show ?thesis by (simp add: sent_def)
qed

text \<open>
  Fact. The obligations file is a faithful mirror: after any upserts of well-formed
  obligations a restarted process finds, for every agent, the last one written.
\<close>

theorem obligations_survive_restart:
  assumes "\<forall>ob \<in> set obs. obligation_ok ob"
  shows "store_get (new_ack_store (s_file (foldl (\<lambda>s ob. upsert True ob s) (new_ack_store file) obs))) a =
    (case find (\<lambda>ob. o_agentId ob = a) (rev obs) of
       Some ob \<Rightarrow> Some ob | None \<Rightarrow> store_get (new_ack_store file) a)"
proof -
  have d: "store_durable (new_ack_store file)"
    by (auto simp: store_durable_def new_ack_store_def pending_list_def dest: parsed_obligations_ok)
  have m: "map_of (map (\<lambda>v. (o_agentId v, v)) xs) k = find (\<lambda>ob. o_agentId ob = k) xs" for xs k
    by (induction xs) auto
  have "reload_get (foldl (\<lambda>s ob. upsert True ob s) (new_ack_store file) obs) a =
      (reload_get (new_ack_store file) ++ map_of (rev (map (\<lambda>v. (o_agentId v, v)) obs))) a"
    by (simp only: ack_disk.lookup_put_all [OF d assms])
  then show ?thesis using d
    by (simp add: reload_get_def [symmetric] reload_get map_add_def rev_map m split: option.splits)
qed

subsection \<open>Witnesses\<close>

definition demo_ack_env :: ack_env where
  "demo_ack_env = \<lparr>n_hasStore = True, n_hasScheduler = True, n_disposed = False, n_quiescing = False,
     n_canExecute = True, n_agentGone = False, n_writeOk = True, n_now = 9\<rparr>"

definition demo_acks :: acks where
  "demo_acks = foldl ack_step (new_acks NoFile) [AkSend demo_ack_env ''a'' 1, AkIdle demo_ack_env ''a'']"

lemmas demo_ack_defs = demo_ack_env_def demo_acks_def new_acks_def new_ack_store_def active_def
  recordAckObligationSend_def recordSend_def clearAckRedriveTimer_def scheduleAckRedriveAfterIdle_def
  armAckRedriveTimer_def upsert_def readPending_def write_pending_def pending_list_def store_get_def
  parseAckObligationsFile_def report_def report_of_def jm_delete_def jm_set_def Let_def
  redriveTimerFires_def redriveAckObligation_def recordRedriveAttempt_def MAX_ACK_REDRIVES_def
  markAckObligationLost_def store_clear_def fulfillAckObligation_def live_token_def mintAckRunToken_def set_add_def

theorem at_most_three_redrives_witness:
  "redrives ''a'' (foldl ack_step demo_acks [AkTimer demo_ack_env ''a'', AkSend demo_ack_env ''a'' 4])
     \<le> redrives ''a'' demo_acks + 3"
  by (rule at_most_three_redrives [OF demo_acks_def]) (simp_all add: demo_ack_defs)

theorem obligation_only_leaves_answered_or_lost_witness:
  "live_token (ack_step demo_acks (AkMint demo_ack_env ''a'')) ''a'' 0"
proof -
  let ?s = "ack_step demo_acks (AkMint demo_ack_env ''a'')"
    and ?ev = "AkFulfill demo_ack_env (Some ''a'') (Some 0)"
  obtain ob where "store_get (store ?s) ''a'' = Some ob" by (simp add: demo_ack_defs)
  moreover have "store_get (store (ack_step ?s ?ev)) ''a'' = None" by (simp add: demo_ack_defs)
  ultimately show ?thesis
    by (auto dest: obligation_only_leaves_answered_or_lost simp del: ack_step.simps)
qed

theorem sends_coalesce_witness:
  "store_get (store (foldl (\<lambda>s t. recordAckObligationSend demo_ack_env ''a'' t s) (new_acks Garbage) [3, 5, 8])) ''a'' =
    Some \<lparr>o_agentId = ''a'', o_createdAtMs = 3, o_lastSendAtMs = last [3, 5, 8], o_lastInterruptAtMs = None,
          o_coalescedCount = int (length [3 :: millis, 5, 8]), o_redriveAttempts = 0\<rparr>"
  by (rule sends_coalesce) (simp_all add: demo_ack_defs)

theorem obligations_survive_restart_witness:
  "store_get (new_ack_store (s_file (foldl (\<lambda>s ob. upsert True ob s) (new_ack_store Garbage)
     [sent ''a'' 1 None, sent ''b'' 2 None, sent ''a'' 3 (Some (sent ''a'' 1 None))]))) ''a'' =
   Some (sent ''a'' 3 (Some (sent ''a'' 1 None)))"
proof -
  let ?obs = "[sent ''a'' 1 None, sent ''b'' 2 None, sent ''a'' 3 (Some (sent ''a'' 1 None))]"
  have "\<forall>ob \<in> set ?obs. obligation_ok ob" by (simp add: sent_def obligation_ok_def)
  from obligations_survive_restart [OF this, of Garbage "''a''"] show ?thesis by (simp add: sent_def)
qed

end
