(* ===== verification/Pending_Wakes.thy ===== *)
theory Pending_Wakes
  imports Js_Prelude
begin

text \<open>
  Pending wakes (\<^verbatim>\<open>host/extensions/transcript/sand-pending-wake-store.ts\<close>,
  \<^verbatim>\<open>pending-wake-rearm.ts\<close>): background work an agent waits for (a cloud agent, a subagent, a
  shell) leaves a marker in a file, so that a restarted host re-arms the wait or tells the
  agent what was lost.

  The store is the file alone (every call reads it afresh); whether the read, a write or a removal
  succeeds is part of the call. The end of the process forgets the markers being re-armed. The re-arm is split at its \<^verbatim>\<open>await\<close>: markers being re-armed are
  a list, and the resolution of one is an event that carries what the session lookup and the
  runner answered. Calls into the runner are a log, and so are the telemetry reports.
\<close>

subsection \<open>Markers\<close>

datatype wake_kind = CloudAgent | Subagent | Shell

record quiet_origin =
  q_automation :: "(string \<times> string) option"

record wake_marker =
  m_agentId :: string
  m_kind :: wake_kind
  m_workId :: string
  m_markedAtMs :: millis
  m_quietOrigin :: "quiet_origin option"
  m_title :: "string option"
  m_subagentType :: "string option"
  m_interruptedByRecreate :: bool

definition coerceQuietOrigin :: "json option \<Rightarrow> quiet_origin option" where
  "coerceQuietOrigin value =
     (case value of None \<Rightarrow> None
      | Some v \<Rightarrow>
        if \<not> is_object v then None
        else case jget v ''automation'' of None \<Rightarrow> Some \<lparr>q_automation = None\<rparr>
        | Some automation \<Rightarrow>
            if \<not> is_object automation then Some \<lparr>q_automation = None\<rparr>
            else (case (as_string (jget automation ''id''), as_string (jget automation ''name'')) of
                    (Some i, Some n) \<Rightarrow> if 0 < length i then Some \<lparr>q_automation = Some (i, n)\<rparr>
                                       else Some \<lparr>q_automation = None\<rparr>
                  | _ \<Rightarrow> Some \<lparr>q_automation = None\<rparr>))"

definition coerce_kind :: "json option \<Rightarrow> wake_kind option" where
  "coerce_kind v =
     (if v = Some (JStr ''cloud-agent'') then Some CloudAgent
      else if v = Some (JStr ''subagent'') then Some Subagent
      else if v = Some (JStr ''shell'') then Some Shell else None)"

definition non_empty :: "json option \<Rightarrow> string option" where
  "non_empty v = (case as_string v of Some s \<Rightarrow> if s = '''' then None else Some s | None \<Rightarrow> None)"

definition coerceMarker :: "json \<Rightarrow> wake_marker option" where
  "coerceMarker e =
     (if \<not> is_object e then None
      else case (non_empty (jget e ''agentId''), non_empty (jget e ''workId''), coerce_kind (jget e ''kind'')) of
        (Some agentId, Some workId, Some kind) \<Rightarrow>
          Some \<lparr>m_agentId = agentId, m_kind = kind, m_workId = workId,
                m_markedAtMs = (case as_finite (jget e ''markedAtMs'') of Some t \<Rightarrow> t | None \<Rightarrow> 0),
                m_quietOrigin = coerceQuietOrigin (jget e ''quietOrigin''),
                m_title = non_empty (jget e ''title''),
                m_subagentType = non_empty (jget e ''subagentType''),
                m_interruptedByRecreate = (jget e ''interruptedByRecreate'' = Some (JBool True))\<rparr>
      | _ \<Rightarrow> None)"

definition coercePendingWakeMarkers :: "json option \<Rightarrow> wake_marker list" where
  "coercePendingWakeMarkers value =
     (case value of Some (JArr entries) \<Rightarrow> List.map_filter coerceMarker entries | _ \<Rightarrow> [])"

definition parsePendingWakeFile :: "disk_file \<Rightarrow> wake_marker list" where
  "parsePendingWakeFile raw =
     (case raw of Contents value \<Rightarrow> coercePendingWakeMarkers (jget value ''pending'') | _ \<Rightarrow> [])"

type_synonym wake_key = "string \<times> wake_kind \<times> string"

definition marker_key :: "wake_marker \<Rightarrow> wake_key" where
  "marker_key m = (m_agentId m, m_kind m, m_workId m)"

definition markerKeyMatches :: "wake_marker \<Rightarrow> string \<Rightarrow> wake_kind \<Rightarrow> string \<Rightarrow> bool" where
  "markerKeyMatches m agentId kind workId \<longleftrightarrow>
     m_agentId m = agentId \<and> m_kind m = kind \<and> m_workId m = workId"

definition upsertPendingWakeMarker :: "wake_marker list \<Rightarrow> wake_marker \<Rightarrow> wake_marker list" where
  "upsertPendingWakeMarker existing m =
     filter (\<lambda>x. \<not> markerKeyMatches x (m_agentId m) (m_kind m) (m_workId m)) existing @ [m]"

subsection \<open>The store\<close>

definition kind_json :: "wake_kind \<Rightarrow> json" where
  "kind_json k = JStr (case k of CloudAgent \<Rightarrow> ''cloud-agent'' | Subagent \<Rightarrow> ''subagent'' | Shell \<Rightarrow> ''shell'')"

definition opt_field :: "string \<Rightarrow> ('a \<Rightarrow> json) \<Rightarrow> 'a option \<Rightarrow> (string \<times> json) list" where
  "opt_field k f v = (case v of None \<Rightarrow> [] | Some x \<Rightarrow> [(k, f x)])"

definition quiet_json :: "quiet_origin \<Rightarrow> json" where
  "quiet_json q = JObj (opt_field ''automation''
     (\<lambda>(i, n). JObj [(''id'', JStr i), (''name'', JStr n)]) (q_automation q))"

definition marker_json :: "wake_marker \<Rightarrow> json" where
  "marker_json m = JObj
     ([(''agentId'', JStr (m_agentId m)), (''kind'', kind_json (m_kind m)),
       (''workId'', JStr (m_workId m)), (''markedAtMs'', JNum (m_markedAtMs m))] @
      opt_field ''quietOrigin'' quiet_json (m_quietOrigin m) @
      opt_field ''title'' JStr (m_title m) @
      opt_field ''subagentType'' JStr (m_subagentType m) @
      (if m_interruptedByRecreate m then [(''interruptedByRecreate'', JBool True)] else []))"

definition wake_file :: "wake_marker list \<Rightarrow> disk_file" where
  "wake_file pending = Contents (JObj [(''version'', JNum 1), (''pending'', JArr (map marker_json pending))])"

text \<open>
  Whether the file operations of a call succeed: the read, the write (or its rename), the removal.
  A read that fails gives no markers, whatever is in the file.
\<close>

record io =
  io_read :: bool
  io_write :: bool
  io_remove :: bool

definition readPending :: "io \<Rightarrow> disk_file \<Rightarrow> wake_marker list" where
  "readPending io f = (if io_read io then parsePendingWakeFile f else [])"

definition listPending :: "io \<Rightarrow> disk_file \<Rightarrow> wake_marker list" where
  "listPending io f = readPending io f"

definition deleteFile :: "io \<Rightarrow> disk_file \<Rightarrow> disk_file" where
  "deleteFile io f = (if io_remove io then NoFile else f)"

text \<open>\<^verbatim>\<open>write\<close> throws when it fails; the callers catch it.\<close>

definition write_wakes :: "io \<Rightarrow> wake_marker list \<Rightarrow> disk_file option" where
  "write_wakes io pending = (if io_write io then Some (wake_file pending) else None)"

definition markPending :: "io \<Rightarrow> wake_marker \<Rightarrow> disk_file \<Rightarrow> disk_file \<times> bool" where
  "markPending io m f =
     (case write_wakes io (upsertPendingWakeMarker (readPending io f) m) of
        Some f' \<Rightarrow> (f', True) | None \<Rightarrow> (f, False))"

definition hasPending :: "io \<Rightarrow> string \<Rightarrow> wake_kind \<Rightarrow> string \<Rightarrow> disk_file \<Rightarrow> bool" where
  "hasPending io agentId kind workId f =
     list_ex (\<lambda>x. markerKeyMatches x agentId kind workId) (readPending io f)"

definition write_or_delete :: "io \<Rightarrow> wake_marker list \<Rightarrow> disk_file \<Rightarrow> disk_file option" where
  "write_or_delete io remaining f =
     (if remaining = [] then Some (deleteFile io f) else write_wakes io remaining)"

definition clearOne :: "io \<Rightarrow> string \<Rightarrow> wake_kind \<Rightarrow> string \<Rightarrow> disk_file \<Rightarrow> disk_file \<times> bool" where
  "clearOne io agentId kind workId f =
     (let existing = readPending io f;
          remaining = filter (\<lambda>x. \<not> markerKeyMatches x agentId kind workId) existing
      in if length remaining = length existing then (f, False)
         else case write_or_delete io remaining f of Some f' \<Rightarrow> (f', True) | None \<Rightarrow> (f, False))"

definition clearAgent :: "io \<Rightarrow> string \<Rightarrow> disk_file \<Rightarrow> disk_file" where
  "clearAgent io agentId f =
     (let existing = readPending io f; remaining = filter (\<lambda>x. m_agentId x \<noteq> agentId) existing
      in if length remaining = length existing then f
         else case write_or_delete io remaining f of Some f' \<Rightarrow> f' | None \<Rightarrow> f)"

definition clearAll :: "io \<Rightarrow> disk_file \<Rightarrow> disk_file" where
  "clearAll io f = deleteFile io f"

definition pruneStale :: "io \<Rightarrow> millis \<Rightarrow> millis \<Rightarrow> disk_file \<Rightarrow> disk_file \<times> wake_marker list" where
  "pruneStale io maxAgeMs nowMs f =
     (let existing = readPending io f;
          pruned = filter (\<lambda>x. nowMs - m_markedAtMs x > maxAgeMs) existing
      in if pruned = [] then (f, [])
         else case write_or_delete io (filter (\<lambda>x. nowMs - m_markedAtMs x \<le> maxAgeMs) existing) f of
                Some f' \<Rightarrow> (f', pruned) | None \<Rightarrow> (f, []))"

subsection \<open>Re-arming\<close>

definition PENDING_WAKE_STALE_MAX_AGE_MS :: millis where
  "PENDING_WAKE_STALE_MAX_AGE_MS = 48 * 60 * 60 * 1000"

datatype wake_outcome =
    Persisted | PersistFailed | Settled | Pruned | RearmSkipped | RearmFailed | Rearmed | DroppedWithNotice

record wake_report =
  w_conversationId :: string
  w_outcome :: wake_outcome
  w_kind :: wake_kind
  w_workId :: string
  w_ageMs :: "millis option"
  w_reason :: "string option"

datatype wake_call =
    WatchCloudAgent string string
  | WatchBackgroundShell string string
  | SubagentCompletion string string
  | ShellCompletion string string
  | EmitAsyncTasks string

record rearming =
  ra_marker :: wake_marker
  ra_nowMs :: millis
  ra_successReason :: "string option"

record wakes =
  hasStore :: bool
  wakeFile :: disk_file
  rearmings :: "rearming list"
  calls :: "wake_call list"
  wakeReports :: "wake_report list"

record wake_env =
  v_io :: io
  v_list :: io
  v_clear :: "wake_marker \<Rightarrow> io"
  v_io2 :: io
  v_canExecute :: bool
  v_deleted :: bool
  v_gone :: "string \<Rightarrow> bool"
  v_now :: millis

definition reportPendingWake ::
  "string \<Rightarrow> wake_outcome \<Rightarrow> wake_kind \<Rightarrow> string \<Rightarrow> millis option \<Rightarrow> string option \<Rightarrow> wakes \<Rightarrow> wakes" where
  "reportPendingWake agent outcome kind workId age reason s =
     s\<lparr>wakeReports := wakeReports s @
        [\<lparr>w_conversationId = agent, w_outcome = outcome, w_kind = kind, w_workId = workId,
          w_ageMs = age, w_reason = reason\<rparr>]\<rparr>"

definition call :: "wake_call \<Rightarrow> wakes \<Rightarrow> wakes" where
  "call c s = s\<lparr>calls := calls s @ [c]\<rparr>"

definition persistPendingWake ::
  "wake_env \<Rightarrow> string \<Rightarrow> wake_kind \<Rightarrow> string \<Rightarrow> quiet_origin option \<Rightarrow> string \<Rightarrow> string option
     \<Rightarrow> wakes \<Rightarrow> wakes \<times> bool" where
  "persistPendingWake v parentAgentId kind workId quietOrigin title subagentType s =
     (if \<not> hasStore s \<or> v_deleted v then (s, False)
      else let (f, written) = markPending (v_io v)
                 \<lparr>m_agentId = parentAgentId, m_kind = kind, m_workId = workId, m_markedAtMs = v_now v,
                  m_quietOrigin = quietOrigin, m_title = Some title, m_subagentType = subagentType,
                  m_interruptedByRecreate = False\<rparr> (wakeFile s)
           in (reportPendingWake parentAgentId (if written then Persisted else PersistFailed) kind workId
                 None None (s\<lparr>wakeFile := f\<rparr>), written))"

definition clear_and_report ::
  "wake_env \<Rightarrow> string \<Rightarrow> wake_kind \<Rightarrow> string \<Rightarrow> string option \<Rightarrow> wakes \<Rightarrow> wakes" where
  "clear_and_report v agentId kind workId reason s =
     (if \<not> hasStore s then s
      else let (f, cleared) = clearOne (v_io v) agentId kind workId (wakeFile s)
           in if \<not> cleared then s\<lparr>wakeFile := f\<rparr>
              else call (EmitAsyncTasks agentId)
                     (reportPendingWake agentId Settled kind workId None reason (s\<lparr>wakeFile := f\<rparr>)))"

definition clearSettledPendingWake :: "wake_env \<Rightarrow> string \<Rightarrow> wake_kind \<Rightarrow> string \<Rightarrow> wakes \<Rightarrow> wakes" where
  "clearSettledPendingWake v agentId kind workId = clear_and_report v agentId kind workId None"

definition disarmPendingWake :: "wake_env \<Rightarrow> string \<Rightarrow> wake_kind \<Rightarrow> string \<Rightarrow> wakes \<Rightarrow> wakes" where
  "disarmPendingWake v agentId kind workId = clear_and_report v agentId kind workId (Some ''aborted'')"

definition shell_notice_due :: "wake_marker \<Rightarrow> bool" where
  "shell_notice_due m \<longleftrightarrow> m_kind m = Shell \<and> m_interruptedByRecreate m"

definition clear_marker :: "io \<Rightarrow> wake_marker \<Rightarrow> wakes \<Rightarrow> wakes" where
  "clear_marker io m s =
     (if hasStore s
      then s\<lparr>wakeFile := fst (clearOne io (m_agentId m) (m_kind m) (m_workId m) (wakeFile s))\<rparr> else s)"

definition start_rearm :: "wake_marker \<Rightarrow> millis \<Rightarrow> string option \<Rightarrow> wakes \<Rightarrow> wakes" where
  "start_rearm m now reason s =
     s\<lparr>rearmings := rearmings s @ [\<lparr>ra_marker = m, ra_nowMs = now, ra_successReason = reason\<rparr>]\<rparr>"

definition rearm_listed :: "wake_env \<Rightarrow> millis \<Rightarrow> wakes \<Rightarrow> wake_marker \<Rightarrow> wakes" where
  "rearm_listed v now s m =
     (if v_gone v (m_agentId m)
      then reportPendingWake (m_agentId m) RearmSkipped (m_kind m) (m_workId m)
             (Some (now - m_markedAtMs m)) (Some ''agent_gone'') s
      else start_rearm m now None (if shell_notice_due m then s else clear_marker (v_clear v m) m s))"

definition rearmPendingWakes :: "wake_env \<Rightarrow> wakes \<Rightarrow> wakes" where
  "rearmPendingWakes v s =
     (if \<not> hasStore s \<or> \<not> v_canExecute v then s
      else let now = v_now v;
               (f, pruned) = pruneStale (v_io v) PENDING_WAKE_STALE_MAX_AGE_MS now (wakeFile s);
               s1 = foldl (\<lambda>s m. reportPendingWake (m_agentId m) Pruned (m_kind m) (m_workId m)
                             (Some (now - m_markedAtMs m)) (Some ''stale'') s) (s\<lparr>wakeFile := f\<rparr>) pruned
           in foldl (rearm_listed v now) s1 (listPending (v_list v) (wakeFile s1)))"

text \<open>The local \<^verbatim>\<open>report\<close> of \<^verbatim>\<open>rearmPendingWake\<close>: a failure puts the marker back first.\<close>

definition rearm_report ::
  "wake_env \<Rightarrow> rearming \<Rightarrow> wake_outcome \<Rightarrow> string option \<Rightarrow> wakes \<Rightarrow> wakes" where
  "rearm_report v r outcome reason s =
     (let m = ra_marker r;
          s1 = (if outcome = RearmFailed \<and> hasStore s
                then s\<lparr>wakeFile := fst (markPending (v_io2 v) m (wakeFile s))\<rparr> else s);
          effective = (case reason of Some x \<Rightarrow> Some x
                       | None \<Rightarrow> if outcome = Rearmed then ra_successReason r else None)
      in reportPendingWake (m_agentId m) outcome (m_kind m) (m_workId m)
           (Some (ra_nowMs r - m_markedAtMs m)) effective s1)"

text \<open>What the runner answers: its call throws, it watches the work already, it does afterwards.\<close>

record runner_view =
  rv_throws :: bool
  rv_watching :: bool
  rv_watchingAfter :: bool
  rv_handlerThrows :: bool

datatype wake_session = NoSession | GroupSession | RunnerSession runner_view

definition the_title :: "wake_marker \<Rightarrow> string \<Rightarrow> string" where
  "the_title m fallback = (case m_title m of Some t \<Rightarrow> t | None \<Rightarrow> fallback)"

definition rearmCloudAgentWake :: "wake_env \<Rightarrow> rearming \<Rightarrow> runner_view \<Rightarrow> wakes \<Rightarrow> wakes" where
  "rearmCloudAgentWake v r rv s =
     (let m = ra_marker r
      in if rv_watching rv
         then rearm_report v r Rearmed None
                (fst (persistPendingWake v (m_agentId m) CloudAgent (m_workId m) (m_quietOrigin m)
                        (the_title m (''Cloud agent '' @ m_workId m)) None s))
         else let s1 = call (WatchCloudAgent (m_agentId m) (m_workId m)) s
              in if rv_watchingAfter rv then rearm_report v r Rearmed None s1
                 else rearm_report v r RearmFailed (Some ''watch_not_armed'') s1)"

definition rearmShellWake :: "wake_env \<Rightarrow> rearming \<Rightarrow> wakes \<Rightarrow> wakes" where
  "rearmShellWake v r s =
     rearm_report v r Rearmed None
       (call (WatchBackgroundShell (m_agentId (ra_marker r)) (m_workId (ra_marker r))) s)"

definition deliverRecreateInterruptedShellNotice :: "wake_env \<Rightarrow> rearming \<Rightarrow> runner_view \<Rightarrow> wakes \<Rightarrow> wakes" where
  "deliverRecreateInterruptedShellNotice v r rv s =
     (let s1 = call (ShellCompletion (m_agentId (ra_marker r)) (m_workId (ra_marker r)))
                 (rearm_report v r DroppedWithNotice None s)
      in if rv_handlerThrows rv then rearm_report v r RearmFailed (Some ''error'') s1 else s1)"

definition reviveParentForLostSubagentWake :: "wake_env \<Rightarrow> rearming \<Rightarrow> runner_view \<Rightarrow> wakes \<Rightarrow> wakes" where
  "reviveParentForLostSubagentWake v r rv s =
     (let m = ra_marker r;
          s1 = fst (persistPendingWake v (m_agentId m) Subagent (m_workId m) (m_quietOrigin m)
                      (the_title m ''Background task'') (m_subagentType m) s);
          s2 = call (SubagentCompletion (m_agentId m) (m_workId m))
                 (rearm_report v r Rearmed (Some ''interrupted_completion'') s1)
      in if rv_handlerThrows rv then rearm_report v r RearmFailed (Some ''error'') s2 else s2)"

text \<open>\<^verbatim>\<open>rearmPendingWake\<close> after its \<^verbatim>\<open>await\<close>, for the \<open>i\<close>th marker being re-armed.\<close>

definition rearm_resolved :: "wake_env \<Rightarrow> rearming \<Rightarrow> wake_session \<Rightarrow> wakes \<Rightarrow> wakes" where
  "rearm_resolved v r session s =
     (let m = ra_marker r
      in case session of
           NoSession \<Rightarrow> rearm_report v r RearmFailed (Some ''session_unavailable'') s
         | GroupSession \<Rightarrow>
             rearm_report v r RearmSkipped (Some ''group_session'')
               (if shell_notice_due m then clear_marker (v_io v) m s else s)
         | RunnerSession rv \<Rightarrow>
             if m_kind m = CloudAgent
             then (if rv_throws rv then rearm_report v r RearmFailed (Some ''error'') s
                   else rearmCloudAgentWake v r rv s)
             else if shell_notice_due m then deliverRecreateInterruptedShellNotice v r rv s
             else if m_kind m = Shell
             then (if rv_throws rv then rearm_report v r RearmFailed (Some ''error'') s
                   else rearmShellWake v r s)
             else reviveParentForLostSubagentWake v r rv s)"

definition rearmPendingWake :: "wake_env \<Rightarrow> nat \<Rightarrow> wake_session \<Rightarrow> wakes \<Rightarrow> wakes" where
  "rearmPendingWake v i session s =
     (if i < length (rearmings s)
      then rearm_resolved v (rearmings s ! i) session
             (s\<lparr>rearmings := take i (rearmings s) @ drop (Suc i) (rearmings s)\<rparr>)
      else s)"

definition enqueuePendingWake ::
  "bool \<Rightarrow> (string, 'a list) js_map \<Rightarrow> string \<Rightarrow> 'a list \<Rightarrow> (string, 'a list) js_map \<times> bool" where
  "enqueuePendingWake gone queue agentId items =
     (if gone then (queue, False)
      else let queued = (case jm_get queue agentId of Some q \<Rightarrow> q | None \<Rightarrow> [])
           in (jm_set queue agentId (queued @ items), True))"

datatype wake_event =
    WkPersist wake_env string wake_kind string "quiet_origin option" string "string option"
  | WkSettled wake_env string wake_kind string
  | WkDisarm wake_env string wake_kind string
  | WkRearmAll wake_env
  | WkRearm wake_marker millis "string option"
  | WkResolved wake_env nat wake_session
  | WkClearAgent io string
  | WkClearAll io
  | WkProcessEnds

text \<open>
  The end of the process leaves the file; the re-armings it was waiting for are forgotten. The logs
  are history.
\<close>

fun wake_step :: "wakes \<Rightarrow> wake_event \<Rightarrow> wakes" where
  "wake_step s (WkPersist v a k w q t st) = fst (persistPendingWake v a k w q t st s)"
| "wake_step s (WkSettled v a k w) = clearSettledPendingWake v a k w s"
| "wake_step s (WkDisarm v a k w) = disarmPendingWake v a k w s"
| "wake_step s (WkRearmAll v) = rearmPendingWakes v s"
| "wake_step s (WkRearm m now reason) = start_rearm m now reason s"
| "wake_step s (WkResolved v i session) = rearmPendingWake v i session s"
| "wake_step s (WkClearAgent io a) = (if hasStore s then s\<lparr>wakeFile := clearAgent io a (wakeFile s)\<rparr> else s)"
| "wake_step s (WkClearAll io) = (if hasStore s then s\<lparr>wakeFile := clearAll io (wakeFile s)\<rparr> else s)"
| "wake_step s WkProcessEnds = s\<lparr>rearmings := []\<rparr>"

subsection \<open>Markers read back\<close>

lemma map_of_opt_field [simp]:
  "map_of (opt_field k f v) k' = (if k' = k then map_option f v else None)"
  by (simp add: opt_field_def split: option.splits)

lemma jget_marker_json [simp]:
  "jget (marker_json m) ''agentId'' = Some (JStr (m_agentId m))"
  "jget (marker_json m) ''kind'' = Some (kind_json (m_kind m))"
  "jget (marker_json m) ''workId'' = Some (JStr (m_workId m))"
  "jget (marker_json m) ''markedAtMs'' = Some (JNum (m_markedAtMs m))"
  "jget (marker_json m) ''quietOrigin'' = map_option quiet_json (m_quietOrigin m)"
  "jget (marker_json m) ''title'' = map_option JStr (m_title m)"
  "jget (marker_json m) ''subagentType'' = map_option JStr (m_subagentType m)"
  "jget (marker_json m) ''interruptedByRecreate'' = (if m_interruptedByRecreate m then Some (JBool True) else None)"
  "is_object (marker_json m)"
  by (simp_all add: marker_json_def map_add_def split: option.splits)

lemma coerce_kind_json [simp]: "coerce_kind (Some (kind_json k)) = Some k"
  by (cases k) (simp_all add: coerce_kind_def kind_json_def)

definition quiet_ok :: "quiet_origin option \<Rightarrow> bool" where
  "quiet_ok q = (case q of None \<Rightarrow> True | Some x \<Rightarrow>
     (case q_automation x of None \<Rightarrow> True | Some (i, n) \<Rightarrow> i \<noteq> ''''))"

lemma coerce_quiet_json: "quiet_ok q \<Longrightarrow> coerceQuietOrigin (map_option quiet_json q) = q"
  by (auto simp: quiet_ok_def coerceQuietOrigin_def quiet_json_def opt_field_def split: option.splits)

lemma coerced_quiet_ok: "quiet_ok (coerceQuietOrigin v)"
  by (auto simp: quiet_ok_def coerceQuietOrigin_def split: option.splits)

definition marker_ok :: "wake_marker \<Rightarrow> bool" where
  "marker_ok m \<longleftrightarrow> m_agentId m \<noteq> '''' \<and> m_workId m \<noteq> '''' \<and> m_title m \<noteq> Some '''' \<and>
     m_subagentType m \<noteq> Some '''' \<and> quiet_ok (m_quietOrigin m)"

lemma non_empty_str [simp]: "non_empty (map_option JStr v) = (if v = Some '''' then None else v)"
  by (cases v) (simp_all add: non_empty_def)

lemma non_empty_one [simp]: "non_empty (Some (JStr s)) = (if s = '''' then None else Some s)"
  by (simp add: non_empty_def)

lemma non_empty_ne [simp]: "non_empty v \<noteq> Some ''''"
  by (auto simp: non_empty_def split: option.splits)

lemma coerce_marker_json: "marker_ok m \<Longrightarrow> coerceMarker (marker_json m) = Some m"
  by (simp add: coerceMarker_def marker_ok_def coerce_quiet_json)

lemma coerced_marker_ok: "coerceMarker j = Some m \<Longrightarrow> marker_ok m"
  by (auto simp: coerceMarker_def marker_ok_def coerced_quiet_ok split: if_splits option.splits)

definition key_ok :: "wake_key \<Rightarrow> bool" where
  "key_ok k \<longleftrightarrow> fst k \<noteq> '''' \<and> snd (snd k) \<noteq> ''''"

lemma coerce_marker_json_key:
  "map_option marker_key (coerceMarker (marker_json m)) = (if key_ok (marker_key m) then Some (marker_key m) else None)"
  by (auto simp: coerceMarker_def key_ok_def marker_key_def)

lemma parse_wake_file:
  "\<forall>m \<in> set ms. marker_ok m \<Longrightarrow> parsePendingWakeFile (wake_file ms) = ms"
proof -
  assume "\<forall>m \<in> set ms. marker_ok m"
  then have "List.map_filter coerceMarker (map marker_json ms) = ms"
    by (induction ms) (auto simp: coerce_marker_json List.map_filter_def)
  then show ?thesis by (simp add: parsePendingWakeFile_def wake_file_def coercePendingWakeMarkers_def)
qed

lemma parsed_marker_ok: "m \<in> set (parsePendingWakeFile f) \<Longrightarrow> marker_ok m"
  by (auto simp: parsePendingWakeFile_def coercePendingWakeMarkers_def List.map_filter_def coerced_marker_ok
      split: disk_file.splits option.splits json.splits)

definition pending_keys :: "disk_file \<Rightarrow> wake_key set" where
  "pending_keys f = marker_key ` set (parsePendingWakeFile f)"

lemma pending_keys_ok: "k \<in> pending_keys f \<Longrightarrow> key_ok k"
  by (auto simp: pending_keys_def marker_key_def key_ok_def marker_ok_def dest!: parsed_marker_ok)

lemma pending_keys_wake_file: "pending_keys (wake_file ms) = {k \<in> marker_key ` set ms. key_ok k}"
proof -
  have "marker_key ` set (List.map_filter coerceMarker (map marker_json ms)) = {k \<in> marker_key ` set ms. key_ok k}"
  proof (induction ms)
    case Nil
    then show ?case by (simp add: List.map_filter_def)
  next
    case (Cons m ms)
    with coerce_marker_json_key [of m] show ?case
      by (auto simp: List.map_filter_def split: if_splits)
  qed
  then show ?thesis
    by (simp add: pending_keys_def parsePendingWakeFile_def wake_file_def coercePendingWakeMarkers_def)
qed

lemma key_matches: "markerKeyMatches x (m_agentId m) (m_kind m) (m_workId m) \<longleftrightarrow> marker_key x = marker_key m"
  by (simp add: markerKeyMatches_def marker_key_def)

lemma key_matches3: "markerKeyMatches x a k w \<longleftrightarrow> marker_key x = (a, k, w)"
  by (auto simp: markerKeyMatches_def marker_key_def)

lemma hasPending_keys: "io_read io \<Longrightarrow> hasPending io a k w f \<longleftrightarrow> (a, k, w) \<in> pending_keys f"
  by (force simp: hasPending_def readPending_def list_ex_iff key_matches3 pending_keys_def image_iff)

subsection \<open>The store as a store of records\<close>

definition all_ok :: io where "all_ok = \<lparr>io_read = True, io_write = True, io_remove = True\<rparr>"

definition wake_lookup :: "disk_file \<Rightarrow> wake_key \<Rightarrow> wake_marker option" where
  "wake_lookup f k = find (\<lambda>m. marker_key m = k) (parsePendingWakeFile f)"

lemma parse_markPending:
  assumes "marker_ok m"
  shows "parsePendingWakeFile (fst (markPending all_ok m f)) =
    filter (\<lambda>x. marker_key x \<noteq> marker_key m) (parsePendingWakeFile f) @ [m]"
proof -
  have "\<forall>x \<in> set (filter (\<lambda>x. marker_key x \<noteq> marker_key m) (parsePendingWakeFile f) @ [m]). marker_ok x"
    using assms parsed_marker_ok by auto
  then show ?thesis
    by (simp add: markPending_def readPending_def write_wakes_def all_ok_def upsertPendingWakeMarker_def key_matches parse_wake_file)
qed

lemma filter_same_length: "length (filter P xs) = length xs \<Longrightarrow> filter P xs = xs"
  by (metis filter_id_conv length_filter_less less_irrefl)

lemma parse_NoFile [simp]: "parsePendingWakeFile NoFile = []"
  by (simp add: parsePendingWakeFile_def)

lemma write_or_delete_parse:
  assumes "write_or_delete io ms f = Some f'" and "\<forall>m \<in> set ms. marker_ok m" and "io_remove io"
  shows "parsePendingWakeFile f' = ms"
  using assms
  by (auto simp: write_or_delete_def deleteFile_def write_wakes_def parse_wake_file split: if_splits)

lemma parse_clearOne:
  "parsePendingWakeFile (fst (clearOne all_ok a k w f)) =
    filter (\<lambda>x. marker_key x \<noteq> (a, k, w)) (parsePendingWakeFile f)"
proof -
  define r where "r = filter (\<lambda>x. marker_key x \<noteq> (a, k, w)) (parsePendingWakeFile f)"
  have "\<forall>m \<in> set r. marker_ok m" using parsed_marker_ok by (auto simp: r_def)
  then have p: "parsePendingWakeFile (if r = [] then NoFile else wake_file r) = r"
    by (simp add: parse_wake_file)
  have c: "clearOne all_ok a k w f =
      (if length r = length (parsePendingWakeFile f) then (f, False) else (if r = [] then NoFile else wake_file r, True))"
    by (simp add: clearOne_def readPending_def key_matches3 Let_def r_def [symmetric] write_or_delete_def deleteFile_def
        write_wakes_def all_ok_def)
  have "length r = length (parsePendingWakeFile f) \<Longrightarrow> parsePendingWakeFile f = r"
    unfolding r_def by (simp only: filter_same_length)
  with p c show ?thesis by (auto simp: r_def [symmetric])
qed

interpretation wakes: record_store marker_key marker_ok wake_lookup
    "\<lambda>f m. fst (markPending all_ok m f)" "\<lambda>f k. fst (clearOne all_ok (fst k) (fst (snd k)) (snd (snd k)) f)" "\<lambda>_. True"
  by unfold_locales
    (simp_all add: fun_eq_iff wake_lookup_def parse_markPending parse_clearOne find_replace find_filter_key)

subsection \<open>Where a wake can be\<close>

definition report_key :: "wake_report \<Rightarrow> wake_key" where
  "report_key r = (w_conversationId r, w_kind r, w_workId r)"

text \<open>A report that ends the wait: the agent gets the wake, or is told, or will never run alone.\<close>

definition closing :: "wake_report \<Rightarrow> bool" where
  "closing r \<longleftrightarrow> w_outcome r \<in> {Settled, Pruned, Rearmed, DroppedWithNotice} \<or>
     (w_outcome r = RearmSkipped \<and> w_reason r = Some ''group_session'')"

text \<open>Reports are counted from the \<open>n\<close>th on.\<close>

definition accounted :: "nat \<Rightarrow> wake_key \<Rightarrow> wakes \<Rightarrow> bool" where
  "accounted n k s \<longleftrightarrow> n \<le> length (wakeReports s) \<and>
     (k \<in> pending_keys (wakeFile s) \<or> (\<exists>r \<in> set (drop n (wakeReports s)). closing r \<and> report_key r = k))"

definition in_flight :: "wake_key \<Rightarrow> wakes \<Rightarrow> bool" where
  "in_flight k s \<longleftrightarrow> (\<exists>r \<in> set (rearmings s). marker_key (ra_marker r) = k)"

definition tracked :: "nat \<Rightarrow> wake_key \<Rightarrow> wakes \<Rightarrow> bool" where
  "tracked n k s \<longleftrightarrow> hasStore s \<and> key_ok k \<and> n \<le> length (wakeReports s) \<and> (accounted n k s \<or> in_flight k s)"

text \<open>A write after a failed read would replace the file.\<close>

definition io_safe :: "io \<Rightarrow> bool" where
  "io_safe io \<longleftrightarrow> (io_write io \<longrightarrow> io_read io)"

lemma markPending_keeps: "k \<in> pending_keys f \<Longrightarrow> io_safe io \<Longrightarrow> k \<in> pending_keys (fst (markPending io m f))"
  using pending_keys_ok [of k f]
  by (auto simp: markPending_def readPending_def io_safe_def write_wakes_def pending_keys_wake_file upsertPendingWakeMarker_def
      key_matches) (auto simp: pending_keys_def)

lemma markPending_adds:
  "io_write io \<Longrightarrow> key_ok (marker_key m) \<Longrightarrow> marker_key m \<in> pending_keys (fst (markPending io m f))"
  by (simp add: markPending_def write_wakes_def pending_keys_wake_file upsertPendingWakeMarker_def)

lemma write_or_delete_keeps:
  assumes "write_or_delete io ms f = Some f'" and "k \<in> marker_key ` set ms" and "key_ok k"
  shows "k \<in> pending_keys f'"
  using assms by (auto simp: write_or_delete_def write_wakes_def pending_keys_wake_file split: if_splits)

lemma clearOne_keeps:
  assumes "k' \<in> pending_keys f" and "k' \<noteq> (a, k, w) \<or> \<not> snd (clearOne io a k w f)"
  shows "k' \<in> pending_keys (fst (clearOne io a k w f))"
proof -
  have "k' \<noteq> (a, k, w) \<Longrightarrow> k' \<in> marker_key ` set (filter (\<lambda>x. \<not> markerKeyMatches x a k w) (parsePendingWakeFile f))"
    using assms(1) by (auto simp: pending_keys_def key_matches3)
  with assms pending_keys_ok [OF assms(1)] show ?thesis
    by (auto simp: clearOne_def readPending_def Let_def split: option.splits intro: write_or_delete_keeps)
qed

lemma pruneStale_keeps:
  assumes "k \<in> pending_keys f"
  shows "k \<in> pending_keys (fst (pruneStale io age now f)) \<or> k \<in> marker_key ` set (snd (pruneStale io age now f))"
proof -
  obtain m where m: "m \<in> set (parsePendingWakeFile f)" "marker_key m = k"
    using assms by (auto simp: pending_keys_def)
  have "k \<in> marker_key ` set (filter (\<lambda>x. now - m_markedAtMs x \<le> age) (parsePendingWakeFile f))"
    if "\<not> now - m_markedAtMs m > age"
    using m that by force
  with m pending_keys_ok [OF assms] assms show ?thesis
    by (cases "now - m_markedAtMs m > age")
      (auto simp: pruneStale_def readPending_def Let_def split: option.splits intro: write_or_delete_keeps)
qed

lemma report_frames [simp]:
  "wakeFile (reportPendingWake a oc k w ag re s) = wakeFile s"
  "hasStore (reportPendingWake a oc k w ag re s) = hasStore s"
  "rearmings (reportPendingWake a oc k w ag re s) = rearmings s"
  "wakeReports (reportPendingWake a oc k w ag re s) = wakeReports s @
     [\<lparr>w_conversationId = a, w_outcome = oc, w_kind = k, w_workId = w, w_ageMs = ag, w_reason = re\<rparr>]"
  "wakeFile (call c s) = wakeFile s" "hasStore (call c s) = hasStore s"
  "rearmings (call c s) = rearmings s" "wakeReports (call c s) = wakeReports s"
  by (simp_all add: reportPendingWake_def call_def)

text \<open>What every internal step keeps: the store, the markers in flight, what is accounted for.\<close>

definition keeps :: "wakes \<Rightarrow> wakes \<Rightarrow> bool" where
  "keeps s s' \<longleftrightarrow> hasStore s' = hasStore s \<and> rearmings s' = rearmings s \<and>
     length (wakeReports s) \<le> length (wakeReports s') \<and> (\<forall>n k. accounted n k s \<longrightarrow> accounted n k s')"

lemma keeps_refl [simp, intro]: "keeps s s" by (simp add: keeps_def)

lemma keeps_trans [trans]: "keeps s t \<Longrightarrow> keeps t u \<Longrightarrow> keeps s u" by (auto simp: keeps_def)

lemma keeps_report [simp]: "keeps s (reportPendingWake a oc k w ag re s)"
  by (auto simp: keeps_def accounted_def)

lemma keeps_call [simp]: "keeps s (call c s)"
  by (auto simp: keeps_def accounted_def)

lemma keeps_persist: "io_safe (v_io v) \<Longrightarrow> keeps s (fst (persistPendingWake v a k w q t st s))"
  by (auto simp: keeps_def persistPendingWake_def accounted_def Let_def split_beta markPending_keeps)

lemma keeps_clear_and_report: "keeps s (clear_and_report v a k w reason s)"
proof -
  have "accounted n k' (clear_and_report v a k w reason s)" if "accounted n k' s" for n k'
  proof (cases "hasStore s \<and> snd (clearOne (v_io v) a k w (wakeFile s)) \<and> k' = (a, k, w)")
    case True
    moreover have "n \<le> length (wakeReports s)" using that by (simp add: accounted_def)
    ultimately show ?thesis
      by (simp add: clear_and_report_def split_beta Let_def accounted_def closing_def report_key_def)
  next
    case False
    with that clearOne_keeps [of k' "wakeFile s" a k w "v_io v"] show ?thesis
      by (auto simp: clear_and_report_def split_beta Let_def accounted_def)
  qed
  then show ?thesis by (auto simp: keeps_def clear_and_report_def Let_def split_beta)
qed

lemma keeps_rearm_report: "io_safe (v_io2 v) \<Longrightarrow> keeps s (rearm_report v r oc reason s)"
  by (auto simp: keeps_def rearm_report_def Let_def accounted_def markPending_keeps)

lemma rearm_report_accounts:
  assumes "hasStore s" and "key_ok (marker_key (ra_marker r))" and "io_write (v_io2 v)"
    and "n \<le> length (wakeReports s)"
    and "oc \<in> {RearmFailed, Rearmed, DroppedWithNotice} \<or> oc = RearmSkipped \<and> reason = Some ''group_session''"
  shows "accounted n (marker_key (ra_marker r)) (rearm_report v r oc reason s)"
proof (cases "oc = RearmFailed")
  case True
  with assms markPending_adds show ?thesis by (simp add: rearm_report_def Let_def accounted_def)
next
  case False
  with assms show ?thesis
    by (auto simp: rearm_report_def Let_def accounted_def closing_def report_key_def marker_key_def)
qed

lemmas keeps_accounted = keeps_def [THEN iffD1, THEN conjunct2, THEN conjunct2, THEN conjunct2, rule_format]
lemmas keeps_store = keeps_def [THEN iffD1, THEN conjunct1]

lemma rearm_report_frames [simp]:
  "hasStore (rearm_report v r oc reason s) = hasStore s" "rearmings (rearm_report v r oc reason s) = rearmings s"
  by (simp_all add: rearm_report_def Let_def)

lemma persist_frames [simp]:
  "hasStore (fst (persistPendingWake v a k w q t st s)) = hasStore s"
  "rearmings (fst (persistPendingWake v a k w q t st s)) = rearmings s"
  by (simp_all add: persistPendingWake_def Let_def split_beta)

lemma clear_marker_frames [simp]:
  "hasStore (clear_marker io m s) = hasStore s" "rearmings (clear_marker io m s) = rearmings s"
  by (simp_all add: clear_marker_def)

text \<open>Resolving a marker accounts for it, and loses no other.\<close>

lemma reports_grow [simp]:
  "length (wakeReports s) \<le> length (wakeReports (fst (persistPendingWake v a k w q t st s)))"
  "wakeReports (clear_marker io m s) = wakeReports s"
  by (simp_all add: persistPendingWake_def clear_marker_def Let_def split_beta)

lemma resolved_accounts:
  assumes "hasStore s" and "key_ok (marker_key (ra_marker r))" and "io_write (v_io2 v)" and "io_safe (v_io2 v)"
    and "n \<le> length (wakeReports s)"
  shows "accounted n (marker_key (ra_marker r)) (rearm_resolved v r session s)"
proof -
  have acc: "hasStore t \<Longrightarrow> n \<le> length (wakeReports t) \<Longrightarrow> accounted n (marker_key (ra_marker r)) (rearm_report v r RearmFailed x t)"
    "hasStore t \<Longrightarrow> n \<le> length (wakeReports t) \<Longrightarrow> accounted n (marker_key (ra_marker r)) (rearm_report v r Rearmed x t)"
    "hasStore t \<Longrightarrow> n \<le> length (wakeReports t) \<Longrightarrow> accounted n (marker_key (ra_marker r)) (rearm_report v r DroppedWithNotice x t)"
    "hasStore t \<Longrightarrow> n \<le> length (wakeReports t) \<Longrightarrow> accounted n (marker_key (ra_marker r)) (rearm_report v r RearmSkipped (Some ''group_session'') t)"
    for x t
    by (rule rearm_report_accounts; use assms(2,3) in simp)+
  note grow = order_trans [OF assms(5) reports_grow(1)]
  have more: "n \<le> length (wakeReports (rearm_report v r oc x t))" if "n \<le> length (wakeReports t)" for oc x t
    using that by (simp add: rearm_report_def Let_def)
  show ?thesis
    using assms(1,5) grow
    by (auto simp: rearm_resolved_def Let_def rearmCloudAgentWake_def rearmShellWake_def
        deliverRecreateInterruptedShellNotice_def reviveParentForLostSubagentWake_def
        split: wake_session.splits intro!: acc keeps_accounted [OF keeps_call] more)
qed

lemma keeps_clear_marker_other:
  "accounted n k s \<Longrightarrow> k \<noteq> marker_key m \<Longrightarrow> accounted n k (clear_marker io m s)"
  using clearOne_keeps [of k "wakeFile s" "m_agentId m" "m_kind m" "m_workId m" io]
  by (auto simp: accounted_def clear_marker_def marker_key_def)

lemma resolved_keeps_other:
  assumes "accounted n k s" and "k \<noteq> marker_key (ra_marker r)" and "io_safe (v_io v)" and "io_safe (v_io2 v)"
  shows "accounted n k (rearm_resolved v r session s)"
proof -
  note keep = keeps_accounted [OF keeps_rearm_report, OF assms(4)] keeps_accounted [OF keeps_call]
    keeps_accounted [OF keeps_persist, OF assms(3)] keeps_clear_marker_other [OF _ assms(2)]
  show ?thesis
    using assms(1)
    by (auto simp: rearm_resolved_def Let_def rearmCloudAgentWake_def rearmShellWake_def
        deliverRecreateInterruptedShellNotice_def reviveParentForLostSubagentWake_def
        split: wake_session.splits intro!: keep)
qed

lemma resolved_frames [simp]:
  "hasStore (rearm_resolved v r session s) = hasStore s"
  "rearmings (rearm_resolved v r session s) = rearmings s"
  by (auto simp: rearm_resolved_def Let_def rearmCloudAgentWake_def rearmShellWake_def
      deliverRecreateInterruptedShellNotice_def reviveParentForLostSubagentWake_def split: wake_session.splits)

lemma resolved_reports_grow: "length (wakeReports s) \<le> length (wakeReports (rearm_resolved v r session s))"
proof -
  have more: "m \<le> length (wakeReports t) \<Longrightarrow> m \<le> length (wakeReports (rearm_report v r oc x t))" for m oc x t
    by (simp add: rearm_report_def Let_def)
  show ?thesis
    by (auto simp: rearm_resolved_def Let_def rearmCloudAgentWake_def rearmShellWake_def
        deliverRecreateInterruptedShellNotice_def reviveParentForLostSubagentWake_def
        split: wake_session.splits intro!: more)
qed

lemma tracked_keeps: "keeps s s' \<Longrightarrow> tracked n k s \<Longrightarrow> tracked n k s'"
  using keeps_accounted [of s s' n k] by (auto simp: tracked_def in_flight_def keeps_def simp del: split_paired_All)

lemma start_rearm_tracked: "tracked n k s \<Longrightarrow> tracked n k (start_rearm m now reason s)"
  by (auto simp: tracked_def start_rearm_def in_flight_def accounted_def)

lemma start_rearm_in_flight: "in_flight (marker_key m) (start_rearm m now reason s)"
  by (simp add: start_rearm_def in_flight_def)

lemma rearm_listed_tracked: "tracked n k s \<Longrightarrow> tracked n k (rearm_listed v now s m)"
proof (cases "v_gone v (m_agentId m)")
  case True
  assume "tracked n k s"
  then show ?thesis using True tracked_keeps [OF keeps_report] by (simp add: rearm_listed_def)
next
  case False
  assume t: "tracked n k s"
  let ?t = "if shell_notice_due m then s else clear_marker (v_clear v m) m s"
  have e: "rearm_listed v now s m = start_rearm m now None ?t" using False by (simp add: rearm_listed_def)
  show ?thesis
  proof (cases "k = marker_key m")
    case True
    with t e start_rearm_in_flight [of m now None ?t] show ?thesis
      by (auto simp: tracked_def start_rearm_def)
  next
    case ne: False
    with t have "tracked n k ?t"
      by (auto simp: tracked_def in_flight_def intro: keeps_clear_marker_other)
    with e show ?thesis by (simp add: start_rearm_tracked)
  qed
qed

lemma rearm_all_tracked: "tracked n k s \<Longrightarrow> tracked n k (foldl (rearm_listed v now) s ms)"
  by (induction ms arbitrary: s) (auto simp: rearm_listed_tracked)

definition report_pruned :: "millis \<Rightarrow> wakes \<Rightarrow> wake_marker \<Rightarrow> wakes" where
  "report_pruned now s m = reportPendingWake (m_agentId m) Pruned (m_kind m) (m_workId m)
     (Some (now - m_markedAtMs m)) (Some ''stale'') s"

lemma report_pruned_fold: "keeps s (foldl (report_pruned now) s ms)"
  by (induction ms arbitrary: s) (auto simp: report_pruned_def intro: keeps_trans keeps_report)

lemma report_pruned_accounts:
  "k \<in> marker_key ` set ms \<Longrightarrow> n \<le> length (wakeReports s) \<Longrightarrow> accounted n k (foldl (report_pruned now) s ms)"
proof (induction ms arbitrary: s)
  case Nil
  then show ?case by simp
next
  case (Cons m ms)
  have "accounted n (marker_key m) (report_pruned now s m)"
    using Cons.prems by (simp add: report_pruned_def accounted_def closing_def report_key_def marker_key_def)
  then have "accounted n (marker_key m) (foldl (report_pruned now) s (m # ms))"
    using keeps_accounted [OF report_pruned_fold] by simp
  moreover have "n \<le> length (wakeReports (report_pruned now s m))"
    using Cons.prems by (simp add: report_pruned_def)
  ultimately show ?case using Cons by auto
qed

lemma rearmPendingWakes_eq:
  "rearmPendingWakes v s =
     (if \<not> hasStore s \<or> \<not> v_canExecute v then s
      else let p = pruneStale (v_io v) PENDING_WAKE_STALE_MAX_AGE_MS (v_now v) (wakeFile s);
               s1 = foldl (report_pruned (v_now v)) (s\<lparr>wakeFile := fst p\<rparr>) (snd p)
           in foldl (rearm_listed v (v_now v)) s1 (listPending (v_list v) (wakeFile s1)))"
  by (simp add: rearmPendingWakes_def Let_def split_beta report_pruned_def [abs_def])

lemma rearmPendingWakes_tracked: "tracked n k s \<Longrightarrow> tracked n k (rearmPendingWakes v s)"
proof -
  assume t: "tracked n k s"
  define p where "p = pruneStale (v_io v) PENDING_WAKE_STALE_MAX_AGE_MS (v_now v) (wakeFile s)"
  define s1 where "s1 = foldl (report_pruned (v_now v)) (s\<lparr>wakeFile := fst p\<rparr>) (snd p)"
  have f: "keeps (s\<lparr>wakeFile := fst p\<rparr>) s1" unfolding s1_def by (rule report_pruned_fold)
  have "accounted n k s \<Longrightarrow> accounted n k s1"
  proof -
    assume "accounted n k s"
    then consider "k \<in> pending_keys (fst p)" | "k \<in> marker_key ` set (snd p)" |
        "accounted n k (s\<lparr>wakeFile := fst p\<rparr>)"
      using pruneStale_keeps unfolding p_def accounted_def by fastforce
    then show ?thesis
    proof cases
      case 1
      then have "accounted n k (s\<lparr>wakeFile := fst p\<rparr>)" using t by (simp add: accounted_def tracked_def)
      with keeps_accounted [OF f] show ?thesis .
    next
      case 2
      then show ?thesis unfolding s1_def by (rule report_pruned_accounts) (use t in \<open>simp add: tracked_def\<close>)
    next
      case 3
      with keeps_accounted [OF f] show ?thesis .
    qed
  qed
  with t f have "tracked n k s1" by (auto simp: tracked_def keeps_def in_flight_def)
  then have "tracked n k (foldl (rearm_listed v (v_now v)) s1 (listPending (v_list v) (wakeFile s1)))"
    by (rule rearm_all_tracked)
  with t show ?thesis by (simp add: rearmPendingWakes_eq Let_def p_def [symmetric] s1_def [symmetric])
qed

lemma in_flight_drop:
  assumes "i < length (rearmings s)"
  shows "in_flight k s \<longleftrightarrow> k = marker_key (ra_marker (rearmings s ! i)) \<or>
    in_flight k (s\<lparr>rearmings := take i (rearmings s) @ drop (Suc i) (rearmings s)\<rparr>)"
proof -
  have "set (rearmings s) = insert (rearmings s ! i) (set (take i (rearmings s) @ drop (Suc i) (rearmings s)))"
    using arg_cong [OF mset_remove_nth [OF assms], of set_mset] by simp
  then show ?thesis by (auto simp: in_flight_def)
qed

lemma resolve_tracked:
  assumes "tracked n k s" and io: "io_safe (v_io v)" "io_safe (v_io2 v)" "io_write (v_io2 v)"
  shows "tracked n k (rearmPendingWake v i session s)"
proof (cases "i < length (rearmings s)")
  case False
  with assms(1) show ?thesis by (simp add: rearmPendingWake_def)
next
  case True
  let ?r = "rearmings s ! i" and ?t = "s\<lparr>rearmings := take i (rearmings s) @ drop (Suc i) (rearmings s)\<rparr>"
  have e: "rearmPendingWake v i session s = rearm_resolved v ?r session ?t"
    using True by (simp add: rearmPendingWake_def)
  have h: "hasStore ?t" "key_ok k" "n \<le> length (wakeReports ?t)" using assms(1) by (simp_all add: tracked_def)
  have a: "accounted n k ?t \<longleftrightarrow> accounted n k s" by (simp add: accounted_def)
  have grown: "n \<le> length (wakeReports (rearm_resolved v ?r session ?t))"
    using h(3) resolved_reports_grow order_trans by blast
  show ?thesis
  proof (cases "k = marker_key (ra_marker ?r)")
    case True
    with h grown resolved_accounts [of ?t ?r v n session] io e show ?thesis by (simp add: tracked_def)
  next
    case False
    with assms(1) h a grown in_flight_drop [OF True, of k] resolved_keeps_other [of n k ?t ?r v session] io e
    show ?thesis by (auto simp: tracked_def in_flight_def)
  qed
qed

text \<open>
  What may not happen to a wake: a write that follows a failed read, a failed write when a marker is
  put back, the deletion of its agent or of all markers, and the end of the process while the marker
  is only in memory.
\<close>

fun wake_event_ok :: "wake_key \<Rightarrow> wakes \<Rightarrow> wake_event \<Rightarrow> bool" where
  "wake_event_ok k s (WkPersist v _ _ _ _ _ _) = io_safe (v_io v)"
| "wake_event_ok k s (WkResolved v _ _) = (io_safe (v_io v) \<and> io_safe (v_io2 v) \<and> io_write (v_io2 v))"
| "wake_event_ok k s (WkClearAgent _ a) = (a \<noteq> fst k)"
| "wake_event_ok k s (WkClearAll _) = False"
| "wake_event_ok k s WkProcessEnds = (in_flight k s \<longrightarrow> k \<in> pending_keys (wakeFile s))"
| "wake_event_ok k s _ = True"

fun undisturbed :: "wake_key \<Rightarrow> wakes \<Rightarrow> wake_event list \<Rightarrow> bool" where
  "undisturbed k s [] = True"
| "undisturbed k s (ev # es) = (wake_event_ok k s ev \<and> undisturbed k (wake_step s ev) es)"

lemma clearAgent_keeps:
  assumes "k \<in> pending_keys f" and "a \<noteq> fst k"
  shows "k \<in> pending_keys (clearAgent io a f)"
proof -
  define r where "r = filter (\<lambda>x. m_agentId x \<noteq> a) (parsePendingWakeFile f)"
  obtain m where "m \<in> set (parsePendingWakeFile f)" "marker_key m = k"
    using assms(1) unfolding pending_keys_def by blast
  then have "m \<in> set r" "marker_key m = k" using assms(2) by (auto simp: r_def marker_key_def)
  then have "k \<in> marker_key ` set r" by blast
  then have "k \<in> pending_keys f'" if "write_or_delete io r f = Some f'" for f'
    using write_or_delete_keeps [OF that] pending_keys_ok [OF assms(1)] by simp
  with assms(1) show ?thesis
    by (simp add: clearAgent_def readPending_def Let_def r_def [symmetric] split: option.split)
qed

lemma step_tracked: "tracked n k s \<Longrightarrow> wake_event_ok k s ev \<Longrightarrow> tracked n k (wake_step s ev)"
proof (cases ev)
  case (WkClearAgent io a)
  assume "tracked n k s" "wake_event_ok k s ev"
  with WkClearAgent clearAgent_keeps [of k "wakeFile s" a io] show ?thesis
    by (auto simp: tracked_def accounted_def in_flight_def)
next
  case WkProcessEnds
  assume "tracked n k s" "wake_event_ok k s ev"
  with WkProcessEnds show ?thesis by (auto simp: tracked_def accounted_def in_flight_def)
qed (auto simp: clearSettledPendingWake_def disarmPendingWake_def
      intro: tracked_keeps [OF keeps_persist] tracked_keeps [OF keeps_clear_and_report]
        rearmPendingWakes_tracked start_rearm_tracked resolve_tracked)

lemma run_tracked: "tracked n k s \<Longrightarrow> undisturbed k s es \<Longrightarrow> tracked n k (foldl wake_step s es)"
  by (induction es arbitrary: s) (auto simp: step_tracked)

subsection \<open>Properties\<close>

text \<open>
  Property C24. A pending wake does not vanish silently. Once a marker is in the file, then
  through any interleaving of new markers, settlements, re-arm passes, session and runner failures
  and failed writes of the other calls, the work is still in the file, or is being re-armed right
  now, or a report made since says how the wait ended. What is excluded: no write follows a read
  that failed, putting a failed marker back can write, neither the markers of its agent nor all are
  cleared, and the process does not end while its marker is being re-armed and not in the file
  (it would be lost, see below).
\<close>

theorem pending_wake_is_never_lost:
  assumes "hasStore s" and "hasPending all_ok a k w (wakeFile s)"
    and "undisturbed (a, k, w) s es"
    and "s' = foldl wake_step s es"
  shows "hasPending all_ok a k w (wakeFile s') \<or> in_flight (a, k, w) s' \<or>
    (\<exists>r \<in> set (drop (length (wakeReports s)) (wakeReports s')). closing r \<and> report_key r = (a, k, w))"
proof -
  have r: "io_read all_ok" by (simp add: all_ok_def)
  have "tracked (length (wakeReports s)) (a, k, w) s"
    using assms(1,2) pending_keys_ok by (simp add: tracked_def accounted_def hasPending_keys [OF r])
  from run_tracked [OF this assms(3)] assms(4) show ?thesis
    by (auto simp: tracked_def accounted_def hasPending_keys [OF r])
qed

text \<open>
  Fact. The end of the process loses a wake that is being re-armed: its marker was taken out of the
  file before the session was asked for, and nothing reports it.
\<close>

theorem process_end_loses_a_rearming_wake:
  assumes "(a, k, w) \<notin> pending_keys (wakeFile s)"
  shows "\<not> hasPending all_ok a k w (wakeFile (wake_step s WkProcessEnds)) \<and>
    \<not> in_flight (a, k, w) (wake_step s WkProcessEnds) \<and>
    wakeReports (wake_step s WkProcessEnds) = wakeReports s"
  using assms hasPending_keys [of all_ok] by (simp add: in_flight_def all_ok_def)

text \<open>
  Fact. The marker file is a faithful store: after marking any well-formed markers, the
  next reader of the file (this process or a restarted one) finds under every key the marker
  last written there, all fields included, and the earlier ones of other keys untouched.
\<close>

theorem marked_wakes_are_read_back:
  assumes "\<forall>m \<in> set ms. marker_ok m"
  shows "wake_lookup (foldl (\<lambda>f m. fst (markPending all_ok m f)) f ms) k =
    (case find (\<lambda>m. marker_key m = k) (rev ms) of Some m \<Rightarrow> Some m | None \<Rightarrow> wake_lookup f k)"
proof -
  have m: "map_of (map (\<lambda>v. (marker_key v, v)) xs) k = find (\<lambda>m. marker_key m = k) xs" for xs
    by (induction xs) auto
  have lookup: "wake_lookup (foldl (\<lambda>f m. fst (markPending all_ok m f)) f ms) =
      wake_lookup f ++ map_of (rev (map (\<lambda>v. (marker_key v, v)) ms))"
    by (rule wakes.lookup_put_all) (use assms in simp_all)
  show ?thesis
    using fun_cong [OF lookup, of k] by (simp add: map_add_def rev_map m split: option.splits)
qed

text \<open>
  Fact. A failed re-arm keeps its marker: when the session cannot be resolved, the same
  marker, with its original time, is in the file again afterwards, so that the next start of
  the host tries again until the marker is 48 hours old.
\<close>

theorem failed_rearm_keeps_marker:
  assumes "i < length (rearmings s)" and "hasStore s" and "v_io2 v = all_ok"
    and "marker_ok (ra_marker (rearmings s ! i))"
  shows "wake_lookup (wakeFile (rearmPendingWake v i NoSession s)) (marker_key (ra_marker (rearmings s ! i))) =
    Some (ra_marker (rearmings s ! i))"
  using assms wakes.lookup_put [OF _ assms(4)]
  by (simp add: rearmPendingWake_def rearm_resolved_def rearm_report_def Let_def)

subsection \<open>Witnesses\<close>

definition demo_marker :: "string \<Rightarrow> wake_marker" where
  "demo_marker w = \<lparr>m_agentId = ''a'', m_kind = CloudAgent, m_workId = w, m_markedAtMs = 5,
     m_quietOrigin = None, m_title = None, m_subagentType = None, m_interruptedByRecreate = False\<rparr>"

definition demo_wake_env :: wake_env where
  "demo_wake_env = \<lparr>v_io = all_ok, v_list = all_ok, v_clear = \<lambda>_. all_ok, v_io2 = all_ok, v_canExecute = True, v_deleted = False,
     v_gone = (\<lambda>_. False), v_now = 9\<rparr>"

definition demo_wakes :: wakes where
  "demo_wakes = \<lparr>hasStore = True, wakeFile = wake_file [demo_marker ''w''], rearmings = [], calls = [], wakeReports = []\<rparr>"

lemma demo_parse: "parsePendingWakeFile (wake_file [demo_marker w]) = [demo_marker w]" if "w \<noteq> ''''"
  by (rule parse_wake_file) (use that in \<open>simp add: demo_marker_def marker_ok_def quiet_ok_def\<close>)

lemma demo_marker_key: "markerKeyMatches (demo_marker w) ''a'' CloudAgent w"
  by (simp add: markerKeyMatches_def demo_marker_def)

theorem pending_wake_is_never_lost_witness:
  "hasPending all_ok ''a'' CloudAgent ''w'' (wakeFile (foldl wake_step demo_wakes
       [WkRearmAll demo_wake_env, WkResolved demo_wake_env 0 NoSession])) \<or>
   in_flight (''a'', CloudAgent, ''w'') (foldl wake_step demo_wakes
       [WkRearmAll demo_wake_env, WkResolved demo_wake_env 0 NoSession]) \<or>
   (\<exists>r \<in> set (drop (length (wakeReports demo_wakes)) (wakeReports (foldl wake_step demo_wakes
       [WkRearmAll demo_wake_env, WkResolved demo_wake_env 0 NoSession]))).
      closing r \<and> report_key r = (''a'', CloudAgent, ''w''))"
  by (rule pending_wake_is_never_lost [OF _ _ _ refl])
    (simp_all add: demo_wakes_def hasPending_def readPending_def demo_parse demo_marker_key demo_wake_env_def
      all_ok_def io_safe_def)

theorem marked_wakes_are_read_back_witness:
  "wake_lookup (foldl (\<lambda>f m. fst (markPending all_ok m f)) Garbage [demo_marker ''w'', demo_marker ''x''])
     (''a'', CloudAgent, ''w'') = Some (demo_marker ''w'')"
proof -
  have "\<forall>m \<in> set [demo_marker ''w'', demo_marker ''x'']. marker_ok m"
    by (simp add: demo_marker_def marker_ok_def quiet_ok_def)
  from marked_wakes_are_read_back [OF this, of Garbage "(''a'', CloudAgent, ''w'')"]
  show ?thesis by (simp add: marker_key_def demo_marker_def)
qed

theorem failed_rearm_keeps_marker_witness:
  "wake_lookup (wakeFile (rearmPendingWake demo_wake_env 0 NoSession (start_rearm (demo_marker ''w'') 7 None demo_wakes)))
     (marker_key (demo_marker ''w'')) = Some (demo_marker ''w'')"
  using failed_rearm_keeps_marker [of 0 "start_rearm (demo_marker ''w'') 7 None demo_wakes" demo_wake_env]
  by (simp add: start_rearm_def demo_wakes_def demo_wake_env_def demo_marker_def marker_ok_def quiet_ok_def)

end
