(* ===== verification/Transcript_Ids.thy ===== *)
theory Transcript_Ids
  imports Js_Prelude
begin

text \<open>
  Transcript entry ids (\<^verbatim>\<open>host/extensions/transcript/transcript-entry-ids.ts\<close>): an entry is named
  after its turn and its place among the trailing entries of its kind, and the counter moves on
  while the name is taken. The loop is given one more step than there are entries, which the
  theorem shows to be enough; \<^verbatim>\<open>String(n)\<close> of a counter is its decimal text.
\<close>

subsection \<open>Decimal text of a counter\<close>

definition digit :: "nat \<Rightarrow> char" where
  "digit d = char_of (48 + d)"

fun decimal :: "nat \<Rightarrow> string" where
  "decimal n = (if n < 10 then [digit n] else decimal (n div 10) @ [digit (n mod 10)])"

declare decimal.simps [simp del]

definition read_decimal :: "string \<Rightarrow> nat" where
  "read_decimal s = foldl (\<lambda>acc c. 10 * acc + (of_char c - 48)) 0 s"

lemma read_digit: "d < 10 \<Longrightarrow> of_char (digit d) - 48 = d"
  by (simp add: digit_def)

lemma read_decimal_decimal: "read_decimal (decimal n) = n"
proof (induction n rule: decimal.induct)
  case (1 n)
  then show ?case
    by (cases "n < 10") (auto simp: decimal.simps [of n] read_decimal_def read_digit)
qed

lemma decimal_inject [simp]: "decimal m = decimal n \<longleftrightarrow> m = n"
  by (metis read_decimal_decimal)

subsection \<open>Entries\<close>

datatype role = UserRole | AssistantRole | SystemRole

datatype 'w entry_kind = Message role | UserAttachment | SendMessage "'w option" | OtherEntry

record 'w entry =
  en_id :: string
  en_kind :: "'w entry_kind"

datatype id_kind = UserMessageId | UserAttachmentId | AssistantMessageId | SendMessageId

fun firstUnusedId :: "nat \<Rightarrow> string list \<Rightarrow> (nat \<Rightarrow> string) \<Rightarrow> nat \<Rightarrow> string option" where
  "firstUnusedId 0 ids mint index = None"
| "firstUnusedId (Suc fuel) ids mint index =
     (if mint index \<in> set ids then firstUnusedId fuel ids mint (Suc index) else Some (mint index))"

definition is_user_message :: "'w entry \<Rightarrow> bool" where
  "is_user_message e \<longleftrightarrow> (case en_kind e of Message UserRole \<Rightarrow> True | _ \<Rightarrow> False)"

definition countUserMessages :: "'w entry list \<Rightarrow> nat" where
  "countUserMessages entries = length (filter is_user_message entries)"

text \<open>The backwards loop: it stops at the last user message.\<close>

fun countTrailing_rev :: "'w entry list \<Rightarrow> ('w entry \<Rightarrow> bool) \<Rightarrow> nat" where
  "countTrailing_rev [] predicate = 0"
| "countTrailing_rev (e # es) predicate =
     (if is_user_message e then 0
      else (if predicate e then 1 else 0) + countTrailing_rev es predicate)"

definition countTrailing :: "'w entry list \<Rightarrow> ('w entry \<Rightarrow> bool) \<Rightarrow> nat" where
  "countTrailing entries = countTrailing_rev (rev entries)"

definition countTrailingUserAttachments :: "'w entry list \<Rightarrow> nat" where
  "countTrailingUserAttachments entries =
     countTrailing entries (\<lambda>e. case en_kind e of UserAttachment \<Rightarrow> True | _ \<Rightarrow> False)"

definition countTrailingAssistantMessages :: "'w entry list \<Rightarrow> nat" where
  "countTrailingAssistantMessages entries =
     countTrailing entries (\<lambda>e. case en_kind e of Message AssistantRole \<Rightarrow> True | _ \<Rightarrow> False)"

definition countTrailingSendMessages :: "'w entry list \<Rightarrow> nat" where
  "countTrailingSendMessages entries =
     countTrailing entries (\<lambda>e. case en_kind e of SendMessage _ \<Rightarrow> True | _ \<Rightarrow> False)"

definition BOOT_TURN :: string where "BOOT_TURN = ''b''"

definition turn_name :: "nat \<Rightarrow> string" where
  "turn_name users = (if users = 0 then BOOT_TURN else decimal (users - 1))"

definition mint_id :: "nat \<Rightarrow> id_kind \<Rightarrow> nat \<Rightarrow> string" where
  "mint_id users kind n =
     (case kind of
        UserMessageId \<Rightarrow> ''t'' @ decimal n @ ''u''
      | UserAttachmentId \<Rightarrow> ''t'' @ decimal users @ ''ua'' @ decimal n
      | AssistantMessageId \<Rightarrow> ''t'' @ turn_name users @ ''a'' @ decimal n
      | SendMessageId \<Rightarrow> ''t'' @ turn_name users @ ''s'' @ decimal n)"

definition start_index :: "'w entry list \<Rightarrow> id_kind \<Rightarrow> nat" where
  "start_index entries kind =
     (case kind of
        UserMessageId \<Rightarrow> countUserMessages entries
      | UserAttachmentId \<Rightarrow> countTrailingUserAttachments entries
      | AssistantMessageId \<Rightarrow> countTrailingAssistantMessages entries
      | SendMessageId \<Rightarrow> countTrailingSendMessages entries)"

definition nextEntryId :: "'w entry list \<Rightarrow> id_kind \<Rightarrow> string option" where
  "nextEntryId entries kind =
     (let ids = map en_id entries
      in firstUnusedId (Suc (length ids)) ids (mint_id (countUserMessages entries) kind)
           (start_index entries kind))"

subsection \<open>Fresh names\<close>

lemma mint_id_inj: "inj (mint_id users kind)"
  by (cases kind) (auto simp: inj_on_def mint_id_def)

lemma firstUnusedId_None:
  "firstUnusedId fuel ids mint i = None \<Longrightarrow> \<forall>j < fuel. mint (i + j) \<in> set ids"
proof (induction fuel arbitrary: i)
  case 0
  then show ?case by simp
next
  case (Suc fuel)
  then have "mint i \<in> set ids" and rest: "firstUnusedId fuel ids mint (Suc i) = None"
    by (auto split: if_splits)
  moreover have "\<forall>j < fuel. mint (Suc i + j) \<in> set ids" by (rule Suc.IH [OF rest])
  ultimately have "mint i \<in> set ids" "\<forall>j < fuel. mint (Suc i + j) \<in> set ids" by simp_all
  then show ?case by (metis add_0_right add_Suc_shift less_Suc_eq_0_disj)
qed

text \<open>More counters than names taken: one of them is free.\<close>

lemma firstUnusedId_enough:
  assumes "inj mint"
  shows "firstUnusedId (Suc (length ids)) ids mint i \<noteq> None"
proof
  assume "firstUnusedId (Suc (length ids)) ids mint i = None"
  then have "(\<lambda>j. mint (i + j)) ` {..< Suc (length ids)} \<subseteq> set ids"
    using firstUnusedId_None by blast
  then have "card ((\<lambda>j. mint (i + j)) ` {..< Suc (length ids)}) \<le> card (set ids)"
    by (rule card_mono [OF finite_set])
  moreover have "inj_on (\<lambda>j. mint (i + j)) {..< Suc (length ids)}"
    using assms by (auto simp: inj_on_def dest: add_left_imp_eq)
  ultimately have "Suc (length ids) \<le> card (set ids)" by (simp add: card_image)
  then show False using card_length [of ids] by simp
qed

lemma firstUnusedId_least:
  "firstUnusedId fuel ids mint i = Some s \<Longrightarrow>
   \<exists>j \<ge> i. s = mint j \<and> s \<notin> set ids \<and> (\<forall>k. i \<le> k \<and> k < j \<longrightarrow> mint k \<in> set ids)"
proof (induction fuel arbitrary: i)
  case 0
  then show ?case by simp
next
  case (Suc fuel)
  show ?case
  proof (cases "mint i \<in> set ids")
    case False
    with Suc.prems show ?thesis by (intro exI [of _ i]) auto
  next
    case True
    with Suc.prems Suc.IH [of "Suc i"] obtain j where
      "j \<ge> Suc i" "s = mint j" "s \<notin> set ids" "\<forall>k. Suc i \<le> k \<and> k < j \<longrightarrow> mint k \<in> set ids" by auto
    with True show ?thesis by (metis Suc_leD le_antisym not_less_eq_eq)
  qed
qed

lemma nextEntryId_fresh: "\<exists>s. nextEntryId entries kind = Some s \<and> s \<notin> en_id ` set entries"
proof -
  let ?m = "mint_id (countUserMessages entries) kind" and ?ids = "map en_id entries"
  obtain s where "firstUnusedId (Suc (length ?ids)) ?ids ?m (start_index entries kind) = Some s"
    using firstUnusedId_enough [OF mint_id_inj] by blast
  with firstUnusedId_least [OF this] show ?thesis by (auto simp: nextEntryId_def Let_def)
qed

text \<open>A transcript built by appending entries under the ids the code mints.\<close>

fun append_entries :: "'w entry list \<Rightarrow> (id_kind \<times> 'w entry_kind) list \<Rightarrow> 'w entry list" where
  "append_entries entries [] = entries"
| "append_entries entries ((idk, kind) # rest) =
     (case nextEntryId entries idk of
        None \<Rightarrow> entries
      | Some i \<Rightarrow> append_entries (entries @ [\<lparr>en_id = i, en_kind = kind\<rparr>]) rest)"

subsection \<open>Properties\<close>

text \<open>
  Fact. Entry ids are fresh: the loop that looks for an unused id always ends with one,
  whatever ids the transcript holds, so that a transcript built by any sequence of appends keeps
  every entry it was given and all its ids distinct.
\<close>

theorem entry_ids_are_distinct:
  assumes "distinct (map en_id entries)"
  shows "distinct (map en_id (append_entries entries kinds)) \<and>
    map en_kind (append_entries entries kinds) = map en_kind entries @ map snd kinds"
  using assms
proof (induction kinds arbitrary: entries)
  case Nil
  then show ?case by simp
next
  case (Cons p kinds)
  obtain idk kind where p: "p = (idk, kind)" by fastforce
  obtain i where i: "nextEntryId entries idk = Some i" "i \<notin> en_id ` set entries"
    using nextEntryId_fresh by blast
  with Cons.prems have "distinct (map en_id (entries @ [\<lparr>en_id = i, en_kind = kind\<rparr>]))" by auto
  from Cons.IH [OF this] i p show ?case by simp
qed

theorem entry_ids_are_distinct_witness:
  "distinct (map en_id (append_entries [\<lparr>en_id = ''tbs0'', en_kind = (OtherEntry :: nat entry_kind)\<rparr>]
     [(SendMessageId, SendMessage None), (UserMessageId, Message UserRole)])) \<and>
   map en_kind (append_entries [\<lparr>en_id = ''tbs0'', en_kind = (OtherEntry :: nat entry_kind)\<rparr>]
     [(SendMessageId, SendMessage None), (UserMessageId, Message UserRole)]) =
   [OtherEntry, SendMessage None, Message UserRole]"
  using entry_ids_are_distinct [of "[\<lparr>en_id = ''tbs0'', en_kind = (OtherEntry :: nat entry_kind)\<rparr>]"
      "[(SendMessageId, SendMessage None), (UserMessageId, Message UserRole)]"] by simp

end
