(* ===== verification/Spend_Guard.thy ===== *)
theory Spend_Guard
  imports Transcript_Ids
begin

text \<open>
  The automation spend guard (\<^verbatim>\<open>host/extensions/transcript/sand-automation-spend-guard.ts\<close>,
  \<^verbatim>\<open>automation-spend-guard-runtime.ts\<close>): routines of a user who has been away are first
  questioned by a card and, three days later, paused.

  The first part is the decision and the cards; the second the runtime over a session: its
  routines, its unread state, the guard state kept in its database and its transcript entries.
  A guard transition runs as one queued mutation, so it is one step here, with the clock it
  reads; what happens between the evaluation of a firing and the queued pause is other steps.
  The wording of the reminder and the acknowledgement, change records and events to the UI are
  not modelled.
\<close>

subsection \<open>The decision\<close>

definition SPEND_GUARD_IDLE_TTL_MS :: millis where "SPEND_GUARD_IDLE_TTL_MS = 3 * 24 * 60 * 60000"
definition SPEND_GUARD_MIN_UNREAD_COUNT :: int where "SPEND_GUARD_MIN_UNREAD_COUNT = 15"
definition SPEND_GUARD_MIN_FIRES_SINCE_VIEWED :: int where "SPEND_GUARD_MIN_FIRES_SINCE_VIEWED = 20"
definition SPEND_GUARD_PAUSE_DELAY_MS :: millis where "SPEND_GUARD_PAUSE_DELAY_MS = 3 * 24 * 60 * 60000"
definition SPEND_GUARD_SNOOZE_MS :: millis where "SPEND_GUARD_SNOOZE_MS = 30 * 24 * 60 * 60000"
definition SPEND_GUARD_VALUE_PREFIX :: string where "SPEND_GUARD_VALUE_PREFIX = ''spend-guard:''"

datatype answer = Keep | PauseAll | OptOut | Resume | StayPaused

text \<open>\<^verbatim>\<open>SPEND_GUARD_ANSWER_VALUES\<close>, in the order \<^verbatim>\<open>Object.entries\<close> lists it.\<close>

definition SPEND_GUARD_ANSWER_VALUES :: "(answer \<times> string) list" where
  "SPEND_GUARD_ANSWER_VALUES =
     [(Keep, SPEND_GUARD_VALUE_PREFIX @ ''keep''),
      (PauseAll, SPEND_GUARD_VALUE_PREFIX @ ''pause''),
      (OptOut, SPEND_GUARD_VALUE_PREFIX @ ''never-ask''),
      (Resume, SPEND_GUARD_VALUE_PREFIX @ ''resume''),
      (StayPaused, SPEND_GUARD_VALUE_PREFIX @ ''stay-paused'')]"

definition answer_value :: "answer \<Rightarrow> string" where
  "answer_value a = the (map_of SPEND_GUARD_ANSWER_VALUES a)"

definition interpretSpendGuardAnswer :: "string \<Rightarrow> answer option" where
  "interpretSpendGuardAnswer value =
     map_option fst (find (\<lambda>(a, sentinel). value = sentinel) SPEND_GUARD_ANSWER_VALUES)"

record evaluation =
  v_nowMs :: millis
  v_lastViewedAtMs :: millis
  v_unreadCount :: int
  v_firesSinceViewedCount :: int
  v_nudgedAtMs :: "millis option"
  v_snoozedUntilMs :: "millis option"
  v_optedOut :: bool

datatype decision = OptedOut | UserActive | Snoozed | PauseNow | AwaitingAck | Nudge | BelowThresholds

definition evaluateAutomationSpendGuard :: "evaluation \<Rightarrow> decision" where
  "evaluateAutomationSpendGuard i =
     (if v_optedOut i then OptedOut
      else if v_nowMs i - v_lastViewedAtMs i < SPEND_GUARD_IDLE_TTL_MS then UserActive
      else if (case v_snoozedUntilMs i of None \<Rightarrow> False | Some t \<Rightarrow> v_nowMs i < t) then Snoozed
      else if (case v_nudgedAtMs i of None \<Rightarrow> False | Some t \<Rightarrow> t > v_lastViewedAtMs i)
      then (if v_nowMs i - the (v_nudgedAtMs i) \<ge> SPEND_GUARD_PAUSE_DELAY_MS then PauseNow else AwaitingAck)
      else if v_unreadCount i \<ge> SPEND_GUARD_MIN_UNREAD_COUNT \<or>
              v_firesSinceViewedCount i \<ge> SPEND_GUARD_MIN_FIRES_SINCE_VIEWED then Nudge
      else BelowThresholds)"

record automation =
  a_id :: string
  a_isEnabled :: bool
  a_runs :: "millis list"

definition countAutomationRunsSince :: "automation list \<Rightarrow> millis \<Rightarrow> int" where
  "countAutomationRunsSince automations sinceMs =
     int (length (filter (\<lambda>startedAt. startedAt > sinceMs) (concat (map a_runs automations))))"

subsection \<open>The cards\<close>

record widget =
  wd_prompt :: string
  wd_options :: "(string \<times> string \<times> string option) list"

text \<open>The dash of the first prompt is written as a hyphen: theory files are ASCII.\<close>

definition buildSpendGuardNudgeWidget :: widget where
  "buildSpendGuardNudgeWidget =
     \<lparr>wd_prompt = ''You've been away for a bit - keep my routines running?'',
      wd_options = [(''Keep them running'', answer_value Keep, Some ''primary''),
                    (''Pause them all'', answer_value PauseAll, None),
                    (''Keep running, don't ask again'', answer_value OptOut, None)]\<rparr>"

definition buildSpendGuardPausedWidget :: widget where
  "buildSpendGuardPausedWidget =
     \<lparr>wd_prompt = ''I paused all your routines while you were away to avoid wasted spend. Want me to start them back up?'',
      wd_options = [(''Resume routines'', answer_value Resume, Some ''primary''),
                    (''Keep them paused'', answer_value StayPaused, None)]\<rparr>"

definition isSpendGuardCard :: "widget \<Rightarrow> string \<Rightarrow> bool" where
  "isSpendGuardCard w value \<longleftrightarrow>
     wd_prompt w \<in> {wd_prompt buildSpendGuardNudgeWidget, wd_prompt buildSpendGuardPausedWidget} \<and>
     list_ex (\<lambda>(_, v, _). v = value) (wd_options w)"

subsection \<open>The session\<close>

record guard_state =
  nudgedAtMs :: "millis option"
  snoozedUntilMs :: "millis option"
  optedOut :: bool
  cardEntryIds :: "string list"
  pausedAutomationIds :: "string list"

definition CLEARED_GUARD_STATE :: guard_state where
  "CLEARED_GUARD_STATE = \<lparr>nudgedAtMs = None, snoozedUntilMs = None, optedOut = False,
     cardEntryIds = [], pausedAutomationIds = []\<rparr>"

record session =
  automations :: "automation list"
  lastViewedAt :: millis
  unreadCount :: int
  guard :: guard_state
  entries :: "widget entry list"

text \<open>\<^verbatim>\<open>automations.setEnabled\<close>: the flag of the routine of that id.\<close>

definition setEnabled :: "string \<Rightarrow> bool \<Rightarrow> automation list \<Rightarrow> automation list" where
  "setEnabled i b as = map (\<lambda>a. if a_id a = i then a\<lparr>a_isEnabled := b\<rparr> else a) as"

text \<open>The loop runs over the list read before it.\<close>

definition disableEveryEnabledRoutine :: "session \<Rightarrow> session \<times> string list" where
  "disableEveryEnabledRoutine s =
     (let disabled = map a_id (filter a_isEnabled (automations s))
      in (s\<lparr>automations := foldl (\<lambda>as i. setEnabled i False as) (automations s) disabled\<rparr>, disabled))"

definition reEnableGuardPausedRoutines :: "string list \<Rightarrow> session \<Rightarrow> session" where
  "reEnableGuardPausedRoutines ids s =
     s\<lparr>automations := foldl (\<lambda>as a. if a_id a \<in> set ids \<and> \<not> a_isEnabled a then setEnabled (a_id a) True as else as)
         (automations s) (automations s)\<rparr>"

definition evaluate :: "session \<Rightarrow> millis \<Rightarrow> decision" where
  "evaluate s nowMs =
     evaluateAutomationSpendGuard
       \<lparr>v_nowMs = nowMs, v_lastViewedAtMs = lastViewedAt s, v_unreadCount = unreadCount s,
        v_firesSinceViewedCount = countAutomationRunsSince (automations s) (lastViewedAt s),
        v_nudgedAtMs = nudgedAtMs (guard s), v_snoozedUntilMs = snoozedUntilMs (guard s),
        v_optedOut = optedOut (guard s)\<rparr>"

definition issueGuardCard :: "widget \<Rightarrow> session \<Rightarrow> session \<times> string" where
  "issueGuardCard w s =
     (let i = the (nextEntryId (entries s) SendMessageId)
      in (s\<lparr>entries := entries s @ [\<lparr>en_id = i, en_kind = SendMessage (Some w)\<rparr>]\<rparr>, i))"

definition issueCardIfNone :: "session \<Rightarrow> session" where
  "issueCardIfNone s =
     (if cardEntryIds (guard s) \<noteq> [] then s
      else let (s1, i) = issueGuardCard buildSpendGuardNudgeWidget s
           in s1\<lparr>guard := (guard s)\<lparr>cardEntryIds := [i]\<rparr>\<rparr>)"

definition isFiringOff :: "string \<Rightarrow> session \<Rightarrow> bool" where
  "isFiringOff firing s =
     (case find (\<lambda>a. a_id a = firing) (automations s) of None \<Rightarrow> True | Some a \<Rightarrow> \<not> a_isEnabled a)"

text \<open>
  \<^verbatim>\<open>apply\<close> up to the queued pause: the answer, or \<open>QueuePause\<close>; then the queued transition, and
  the answer after it.
\<close>

datatype applied = Fires bool | FiresWithReminder bool | QueuePause

definition apply_guard :: "string \<Rightarrow> millis \<Rightarrow> session \<Rightarrow> session \<times> applied" where
  "apply_guard firing nowMs s =
     (case evaluate s nowMs of
        AwaitingAck \<Rightarrow> let s1 = issueCardIfNone s in (s1, Fires (isFiringOff firing s1))
      | Nudge \<Rightarrow>
          let (s1, i) = issueGuardCard buildSpendGuardNudgeWidget s;
              s2 = s1\<lparr>guard := CLEARED_GUARD_STATE\<lparr>nudgedAtMs := Some nowMs, cardEntryIds := [i]\<rparr>\<rparr>
          in (s2, FiresWithReminder (isFiringOff firing s2))
      | PauseNow \<Rightarrow> (s, QueuePause)
      | _ \<Rightarrow> (s, Fires (isFiringOff firing s)))"

definition pauseForAwayUser :: "millis \<Rightarrow> session \<Rightarrow> session \<times> bool" where
  "pauseForAwayUser nowMs s =
     (if evaluate s nowMs \<noteq> PauseNow then (s, False)
      else let current = guard s; (s1, guardPausedIds) = disableEveryEnabledRoutine s
           in if guardPausedIds = [] then (s1, False)
              else let (s2, cards) = (if pausedAutomationIds current \<noteq> [] then (s1, cardEntryIds current)
                                      else let (s2, i) = issueGuardCard buildSpendGuardPausedWidget s1
                                           in (s2, cardEntryIds current @ [i]))
                   in (s2\<lparr>guard := CLEARED_GUARD_STATE
                            \<lparr>nudgedAtMs := nudgedAtMs current,
                             pausedAutomationIds := unique (pausedAutomationIds current @ guardPausedIds),
                             cardEntryIds := cards\<rparr>\<rparr>, True))"

definition apply_resumed :: "string \<Rightarrow> session \<times> bool \<Rightarrow> session \<times> applied" where
  "apply_resumed firing r = (fst r, Fires (snd r \<or> isFiringOff firing (fst r)))"

datatype routines = ResumeGuardPaused | DisableEveryEnabled | LeaveAsIs

record answer_outcome =
  ao_routines :: routines
  ao_snoozes :: bool
  ao_retiresGuard :: bool

fun SPEND_GUARD_ANSWER_OUTCOMES :: "answer \<Rightarrow> answer_outcome" where
  "SPEND_GUARD_ANSWER_OUTCOMES Keep = \<lparr>ao_routines = ResumeGuardPaused, ao_snoozes = True, ao_retiresGuard = False\<rparr>"
| "SPEND_GUARD_ANSWER_OUTCOMES Resume = \<lparr>ao_routines = ResumeGuardPaused, ao_snoozes = True, ao_retiresGuard = False\<rparr>"
| "SPEND_GUARD_ANSWER_OUTCOMES OptOut = \<lparr>ao_routines = ResumeGuardPaused, ao_snoozes = False, ao_retiresGuard = True\<rparr>"
| "SPEND_GUARD_ANSWER_OUTCOMES PauseAll = \<lparr>ao_routines = DisableEveryEnabled, ao_snoozes = False, ao_retiresGuard = False\<rparr>"
| "SPEND_GUARD_ANSWER_OUTCOMES StayPaused = \<lparr>ao_routines = LeaveAsIs, ao_snoozes = False, ao_retiresGuard = False\<rparr>"

definition isHostIssuedCard :: "session \<Rightarrow> string \<Rightarrow> string \<Rightarrow> bool" where
  "isHostIssuedCard s entryId value =
     (case find (\<lambda>e. en_id e = entryId) (entries s) of
        Some e \<Rightarrow> (case en_kind e of SendMessage (Some w) \<Rightarrow> isSpendGuardCard w value | _ \<Rightarrow> False)
      | None \<Rightarrow> False)"

text \<open>The queued transition of \<^verbatim>\<open>handleWidgetAnswer\<close>; \<open>nowMs\<close> was read before it was queued.\<close>

definition answer_transition :: "answer \<Rightarrow> millis \<Rightarrow> string \<Rightarrow> string \<Rightarrow> session \<Rightarrow> session \<times> bool" where
  "answer_transition answer nowMs entryId value s =
     (let current = guard s
      in if entryId \<notin> set (cardEntryIds current) \<or> \<not> isHostIssuedCard s entryId value then (s, False)
         else let outcome = SPEND_GUARD_ANSWER_OUTCOMES answer;
                  (s1, guardPausedIds) =
                    (case ao_routines outcome of
                       ResumeGuardPaused \<Rightarrow> (reEnableGuardPausedRoutines (pausedAutomationIds current) s, [])
                     | DisableEveryEnabled \<Rightarrow>
                         (let (s1, disabled) = disableEveryEnabledRoutine s
                          in (s1, unique (pausedAutomationIds current @ disabled)))
                     | LeaveAsIs \<Rightarrow> (s, []))
              in (s1\<lparr>guard := CLEARED_GUARD_STATE
                        \<lparr>snoozedUntilMs := (if ao_snoozes outcome then Some (nowMs + SPEND_GUARD_SNOOZE_MS) else None),
                         optedOut := ao_retiresGuard outcome,
                         pausedAutomationIds := guardPausedIds,
                         cardEntryIds := (if guardPausedIds \<noteq> [] then cardEntryIds current else [])\<rparr>\<rparr>, True))"

definition handleWidgetAnswer ::
  "bool \<Rightarrow> millis \<Rightarrow> string \<Rightarrow> string \<Rightarrow> session \<Rightarrow> session \<times> answer option" where
  "handleWidgetAnswer agentGone nowMs entryId value s =
     (case interpretSpendGuardAnswer value of
        None \<Rightarrow> (s, None)
      | Some answer \<Rightarrow>
          if agentGone then (s, None)
          else let (s1, applied) = answer_transition answer nowMs entryId value s
               in (s1, if applied then Some answer else None))"

text \<open>The guard's calls, and what the user, the agent and the routines do to the session.\<close>

datatype guard_event =
    GvApply string millis
  | GvPause millis
  | GvAnswer bool millis string string
  | GvViewed millis
  | GvUnread int
  | GvAutomations "automation list"
  | GvAppend "widget entry"

fun guard_step :: "session \<Rightarrow> guard_event \<Rightarrow> session" where
  "guard_step s (GvApply firing now) = fst (apply_guard firing now s)"
| "guard_step s (GvPause now) = fst (pauseForAwayUser now s)"
| "guard_step s (GvAnswer gone now i v) = fst (handleWidgetAnswer gone now i v s)"
| "guard_step s (GvViewed t) = s\<lparr>lastViewedAt := t, unreadCount := 0\<rparr>"
| "guard_step s (GvUnread n) = s\<lparr>unreadCount := n\<rparr>"
| "guard_step s (GvAutomations as) = s\<lparr>automations := as\<rparr>"
| "guard_step s (GvAppend e) = s\<lparr>entries := entries s @ [e]\<rparr>"

subsection \<open>Routine lemmas\<close>

lemma setEnabled_fold:
  "foldl (\<lambda>as i. setEnabled i b as) as is =
    map (\<lambda>a. if a_id a \<in> set is then a\<lparr>a_isEnabled := b\<rparr> else a) as"
  by (induction "is" arbitrary: as) (auto simp: setEnabled_def)

lemma disable_eq:
  "disableEveryEnabledRoutine s =
    (s\<lparr>automations := map (\<lambda>a. if a_id a \<in> a_id ` {a \<in> set (automations s). a_isEnabled a}
                               then a\<lparr>a_isEnabled := False\<rparr> else a) (automations s)\<rparr>,
     map a_id (filter a_isEnabled (automations s)))"
  by (simp add: disableEveryEnabledRoutine_def setEnabled_fold)

lemma disable_all_off: "\<forall>a \<in> set (automations (fst (disableEveryEnabledRoutine s))). \<not> a_isEnabled a"
  by (auto simp: disable_eq)

lemma reEnable_fold:
  "foldl (\<lambda>as a. if a_id a \<in> set ids \<and> \<not> a_isEnabled a then setEnabled (a_id a) True as else as) as bs =
    map (\<lambda>a. if \<exists>b \<in> set bs. a_id b = a_id a \<and> a_id b \<in> set ids \<and> \<not> a_isEnabled b
             then a\<lparr>a_isEnabled := True\<rparr> else a) as"
proof (induction bs arbitrary: as)
  case Nil
  then show ?case by simp
next
  case (Cons b bs)
  show ?case
    by (cases "a_id b \<in> set ids \<and> \<not> a_isEnabled b") (auto simp: Cons setEnabled_def)
qed

lemma same_id: "distinct (map a_id as) \<Longrightarrow> a \<in> set as \<Longrightarrow> b \<in> set as \<Longrightarrow> a_id a = a_id b \<Longrightarrow> a = b"
  by (simp add: distinct_map inj_on_def)

text \<open>Turning everything off and the same ids on again gives the routines back.\<close>

lemma disable_reEnable:
  assumes "distinct (map a_id (automations s))"
    and "set ids = set (snd (disableEveryEnabledRoutine s))"
    and "automations t = automations (fst (disableEveryEnabledRoutine s))"
  shows "automations (reEnableGuardPausedRoutines ids t) = automations s"
proof -
  define off :: "automation \<Rightarrow> automation" where "off = (\<lambda>a. if a_id a \<in> a_id ` {a \<in> set (automations s). a_isEnabled a}
      then a\<lparr>a_isEnabled := False\<rparr> else a)"
  have t: "automations t = map off (automations s)" using assms(3) by (simp add: disable_eq off_def)
  have ids: "set ids = a_id ` {a \<in> set (automations s). a_isEnabled a}"
    using assms(2) by (simp add: disable_eq)
  have same: "a_id a \<in> set ids \<longleftrightarrow> a_isEnabled a" if "a \<in> set (automations s)" for a
    using same_id [OF assms(1) that] that ids by (auto simp: image_iff)
  have off: "off a = (if a_isEnabled a then a\<lparr>a_isEnabled := False\<rparr> else a)" if "a \<in> set (automations s)" for a
    using same [OF that] ids by (simp add: off_def)
  have again: "(if \<exists>b \<in> set (map off (automations s)). a_id b = a_id (off a) \<and> a_id b \<in> set ids \<and> \<not> a_isEnabled b
      then (off a)\<lparr>a_isEnabled := True\<rparr> else off a) = a" if a: "a \<in> set (automations s)" for a
  proof (cases "a_isEnabled a")
    case True
    have "off a \<in> set (map off (automations s))" "a_id (off a) \<in> set ids" "\<not> a_isEnabled (off a)"
      using a True off same by auto
    then have ex: "\<exists>b \<in> set (map off (automations s)). a_id b = a_id (off a) \<and> a_id b \<in> set ids \<and> \<not> a_isEnabled b"
      by blast
    have "(off a)\<lparr>a_isEnabled := True\<rparr> = a" using True off [OF a] by (cases a) simp
    then show ?thesis by (simp only: if_P [OF ex])
  next
    case False
    have "a_id (off a) \<notin> set ids" using False off [OF a] same [OF a] by simp
    then show ?thesis using False off [OF a] by auto
  qed
  have "automations (reEnableGuardPausedRoutines ids t) =
      map (\<lambda>a. if \<exists>b \<in> set (map off (automations s)). a_id b = a_id a \<and> a_id b \<in> set ids \<and> \<not> a_isEnabled b
               then a\<lparr>a_isEnabled := True\<rparr> else a) (map off (automations s))"
    unfolding reEnableGuardPausedRoutines_def t reEnable_fold by simp
  also have "\<dots> = map (\<lambda>a. a) (automations s)"
    unfolding map_map by (rule map_cong [OF refl]) (use again in \<open>simp only: o_apply\<close>)
  finally show ?thesis by simp
qed

lemma interpret_answer_value: "interpretSpendGuardAnswer (answer_value a) = Some a"
  by (cases a) (simp_all add: interpretSpendGuardAnswer_def answer_value_def SPEND_GUARD_ANSWER_VALUES_def
      SPEND_GUARD_VALUE_PREFIX_def)

lemma evaluate_pause_iff:
  "evaluate s now = PauseNow \<longleftrightarrow>
    \<not> optedOut (guard s) \<and> SPEND_GUARD_IDLE_TTL_MS \<le> now - lastViewedAt s \<and>
    (\<forall>t. snoozedUntilMs (guard s) = Some t \<longrightarrow> t \<le> now) \<and>
    (\<exists>t. nudgedAtMs (guard s) = Some t \<and> lastViewedAt s < t \<and> SPEND_GUARD_PAUSE_DELAY_MS \<le> now - t)"
  by (auto simp: evaluate_def evaluateAutomationSpendGuard_def split: option.splits if_splits)

subsection \<open>Warnings\<close>

definition has_nudge_card :: "session \<Rightarrow> bool" where
  "has_nudge_card s \<longleftrightarrow> (\<exists>e \<in> set (entries s). en_kind e = SendMessage (Some buildSpendGuardNudgeWidget))"

text \<open>A nudge on record was issued by an evaluation of the run, with its card in the transcript.\<close>

definition warned :: "guard_event list \<Rightarrow> session \<Rightarrow> bool" where
  "warned es s \<longleftrightarrow> (\<forall>t. nudgedAtMs (guard s) = Some t \<longrightarrow>
     (\<exists>firing. GvApply firing t \<in> set es) \<and> has_nudge_card s)"

lemma issueGuardCard_simps [simp]:
  "guard (fst (issueGuardCard w s)) = guard s" "automations (fst (issueGuardCard w s)) = automations s"
  "lastViewedAt (fst (issueGuardCard w s)) = lastViewedAt s"
  "entries (fst (issueGuardCard w s)) =
     entries s @ [\<lparr>en_id = snd (issueGuardCard w s), en_kind = SendMessage (Some w)\<rparr>]"
  by (simp_all add: issueGuardCard_def Let_def)

lemma disable_simps [simp]:
  "guard (fst (disableEveryEnabledRoutine s)) = guard s"
  "entries (fst (disableEveryEnabledRoutine s)) = entries s"
  "lastViewedAt (fst (disableEveryEnabledRoutine s)) = lastViewedAt s"
  by (simp_all add: disable_eq)

lemma reEnable_simps [simp]:
  "guard (reEnableGuardPausedRoutines ids s) = guard s" "entries (reEnableGuardPausedRoutines ids s) = entries s"
  by (simp_all add: reEnableGuardPausedRoutines_def)

lemma pause_effect:
  "(\<exists>rest. entries (fst (pauseForAwayUser now s)) = entries s @ rest) \<and>
   nudgedAtMs (guard (fst (pauseForAwayUser now s))) = nudgedAtMs (guard s)"
  by (auto simp: pauseForAwayUser_def Let_def split_beta CLEARED_GUARD_STATE_def)

lemma answer_effect:
  "entries (fst (handleWidgetAnswer gone now i v s)) = entries s \<and>
   (nudgedAtMs (guard (fst (handleWidgetAnswer gone now i v s))) = nudgedAtMs (guard s) \<or>
    nudgedAtMs (guard (fst (handleWidgetAnswer gone now i v s))) = None)"
  by (auto simp: handleWidgetAnswer_def answer_transition_def Let_def split_beta CLEARED_GUARD_STATE_def
      split: option.splits routines.splits)

lemma apply_effect:
  "(\<exists>rest. entries (fst (apply_guard f now s)) = entries s @ rest) \<and>
   (nudgedAtMs (guard (fst (apply_guard f now s))) = nudgedAtMs (guard s) \<or>
    nudgedAtMs (guard (fst (apply_guard f now s))) = Some now \<and> has_nudge_card (fst (apply_guard f now s)))"
  by (auto simp: apply_guard_def issueCardIfNone_def Let_def split_beta has_nudge_card_def split: decision.splits)

lemma nudge_card_append: "has_nudge_card s \<Longrightarrow> entries t = entries s @ rest \<Longrightarrow> has_nudge_card t"
  by (auto simp: has_nudge_card_def)

lemma warned_step: "warned es s \<Longrightarrow> warned (es @ [ev]) (guard_step s ev)"
proof (cases ev)
  case (GvApply f now)
  assume w: "warned es s"
  obtain rest where "entries (fst (apply_guard f now s)) = entries s @ rest" using apply_effect by blast
  with w apply_effect [of f now s] nudge_card_append GvApply show ?thesis
    by (fastforce simp: warned_def)
next
  case (GvPause now)
  assume w: "warned es s"
  obtain rest where "entries (fst (pauseForAwayUser now s)) = entries s @ rest" using pause_effect by blast
  with w pause_effect [of now s] nudge_card_append GvPause show ?thesis
    by (fastforce simp: warned_def)
next
  case (GvAnswer gone now i v)
  assume w: "warned es s"
  with answer_effect [of gone now i v s] GvAnswer show ?thesis
    by (auto simp: warned_def has_nudge_card_def)
qed (auto simp: warned_def has_nudge_card_def)

lemma warned_run: "warned es0 s \<Longrightarrow> warned (es0 @ es) (foldl guard_step s es)"
proof (induction es arbitrary: es0 s)
  case Nil
  then show ?case by simp
next
  case (Cons ev es)
  from Cons.IH [OF warned_step [OF Cons.prems, of ev]] show ?case by simp
qed

lemma pause_open:
  assumes "snd (pauseForAwayUser now s)" and "pausedAutomationIds (guard s) = []"
  defines "s1 \<equiv> fst (pauseForAwayUser now s)"
  shows "automations s1 = automations (fst (disableEveryEnabledRoutine s))"
    and "set (pausedAutomationIds (guard s1)) = set (snd (disableEveryEnabledRoutine s))"
    and "\<exists>i. cardEntryIds (guard s1) = cardEntryIds (guard s) @ [i] \<and> i \<notin> en_id ` set (entries s) \<and>
           entries s1 = entries s @ [\<lparr>en_id = i, en_kind = SendMessage (Some buildSpendGuardPausedWidget)\<rparr>]"
proof -
  let ?d = "disableEveryEnabledRoutine s"
  let ?c = "issueGuardCard buildSpendGuardPausedWidget (fst ?d)"
  have go: "evaluate s now = PauseNow" "snd ?d \<noteq> []"
    using assms(1) by (auto simp: pauseForAwayUser_def Let_def split_beta split: if_splits)
  then have s1: "s1 = (fst ?c)\<lparr>guard := CLEARED_GUARD_STATE\<lparr>nudgedAtMs := nudgedAtMs (guard s),
      pausedAutomationIds := unique (snd ?d), cardEntryIds := cardEntryIds (guard s) @ [snd ?c]\<rparr>\<rparr>"
    using assms(2) by (simp add: s1_def pauseForAwayUser_def Let_def split_beta)
  then show "automations s1 = automations (fst ?d)" "set (pausedAutomationIds (guard s1)) = set (snd ?d)"
    by simp_all
  obtain i where i: "nextEntryId (entries s) SendMessageId = Some i" "i \<notin> en_id ` set (entries s)"
    using nextEntryId_fresh by blast
  then have "snd ?c = i" by (simp add: issueGuardCard_def Let_def)
  with s1 i show "\<exists>i. cardEntryIds (guard s1) = cardEntryIds (guard s) @ [i] \<and> i \<notin> en_id ` set (entries s) \<and>
      entries s1 = entries s @ [\<lparr>en_id = i, en_kind = SendMessage (Some buildSpendGuardPausedWidget)\<rparr>]"
    by simp
qed

lemma find_last: "K x \<notin> K ` set xs \<Longrightarrow> find (\<lambda>e. K e = K x) (xs @ [x]) = Some x"
  by (induction xs) auto

subsection \<open>Properties\<close>

text \<open>
  Property C25. No pause without a warning: from a session without an open nudge, through any
  sequence of firings, pauses, answers, visits and edits, a pause only happens when an earlier
  firing of the run nudged the user after their last visit and at least three days before, the
  card with the question is in the transcript, and the user has neither opted out nor been
  back for three days.
\<close>

theorem no_pause_without_warning:
  assumes "nudgedAtMs (guard s0) = None" and "s = foldl guard_step s0 es"
    and "snd (pauseForAwayUser now s)"
  shows "(\<exists>firing t. GvApply firing t \<in> set es \<and> lastViewedAt s < t \<and> t + SPEND_GUARD_PAUSE_DELAY_MS \<le> now) \<and>
    has_nudge_card s \<and> \<not> optedOut (guard s) \<and> lastViewedAt s + SPEND_GUARD_IDLE_TTL_MS \<le> now"
proof -
  have "warned [] s0" using assms(1) by (simp add: warned_def)
  from warned_run [OF this, of es] assms(2) have w: "warned es s" by simp
  have "evaluate s now = PauseNow"
    using assms(3) by (auto simp: pauseForAwayUser_def split: if_splits)
  then obtain t where t: "nudgedAtMs (guard s) = Some t" "lastViewedAt s < t" "SPEND_GUARD_PAUSE_DELAY_MS \<le> now - t"
      and o: "\<not> optedOut (guard s)" "SPEND_GUARD_IDLE_TTL_MS \<le> now - lastViewedAt s"
    by (auto simp: evaluate_pause_iff)
  from w t(1) obtain firing where f: "GvApply firing t \<in> set es" "has_nudge_card s"
    by (auto simp: warned_def)
  from t have "t + SPEND_GUARD_PAUSE_DELAY_MS \<le> now" by simp
  with f t(2) have "\<exists>firing t. GvApply firing t \<in> set es \<and> lastViewedAt s < t \<and> t + SPEND_GUARD_PAUSE_DELAY_MS \<le> now"
    by blast
  with f(2) o show ?thesis by simp
qed

text \<open>
  Fact. Resuming undoes the pause exactly: after the guard paused a session and asked,
  the answer "resume" to that very card turns on again the routines the guard turned off and no
  other, closes the card, and snoozes the guard for thirty days.
\<close>

theorem resume_undoes_the_pause:
  assumes "distinct (map a_id (automations s))" and "pausedAutomationIds (guard s) = []"
    and "snd (pauseForAwayUser now s)" and "s1 = fst (pauseForAwayUser now s)"
    and "r = handleWidgetAnswer False later (last (cardEntryIds (guard s1))) (answer_value Resume) s1"
  shows "snd r = Some Resume \<and> automations (fst r) = automations s \<and> cardEntryIds (guard (fst r)) = [] \<and>
    snoozedUntilMs (guard (fst r)) = Some (later + SPEND_GUARD_SNOOZE_MS)"
proof -
  note open_pause = pause_open [OF assms(3,2), folded assms(4)]
  from open_pause(3) obtain i where i: "cardEntryIds (guard s1) = cardEntryIds (guard s) @ [i]"
      "i \<notin> en_id ` set (entries s)"
      "entries s1 = entries s @ [\<lparr>en_id = i, en_kind = SendMessage (Some buildSpendGuardPausedWidget)\<rparr>]"
    by blast
  have "find (\<lambda>e. en_id e = i) (entries s1) = Some \<lparr>en_id = i, en_kind = SendMessage (Some buildSpendGuardPausedWidget)\<rparr>"
    using find_last [of en_id "\<lparr>en_id = i, en_kind = SendMessage (Some buildSpendGuardPausedWidget)\<rparr>" "entries s"] i
    by simp
  then have "isHostIssuedCard s1 i (answer_value Resume)"
    by (simp add: isHostIssuedCard_def isSpendGuardCard_def buildSpendGuardPausedWidget_def)
  moreover have "automations (reEnableGuardPausedRoutines (pausedAutomationIds (guard s1)) s1) = automations s"
    by (rule disable_reEnable [OF assms(1) open_pause(2,1)])
  ultimately show ?thesis using i(1)
    by (simp add: assms(5) handleWidgetAnswer_def interpret_answer_value answer_transition_def Let_def
        CLEARED_GUARD_STATE_def)
qed

text \<open>
  Fact. Only the host's own cards are answered: an answer that changes anything names an
  open card of the guard, that card is in the transcript with one of the guard's two questions,
  it offers the value, and the value is one of the five answers.
\<close>

theorem answers_only_from_host_cards:
  assumes "fst (handleWidgetAnswer gone now entryId value s) \<noteq> s"
  shows "entryId \<in> set (cardEntryIds (guard s)) \<and> value \<in> answer_value ` UNIV \<and>
    (\<exists>e \<in> set (entries s). \<exists>w. en_id e = entryId \<and> en_kind e = SendMessage (Some w) \<and> isSpendGuardCard w value)"
proof -
  obtain a where a: "interpretSpendGuardAnswer value = Some a"
    and changed: "fst (answer_transition a now entryId value s) \<noteq> s"
    using assms by (auto simp: handleWidgetAnswer_def Let_def split_beta split: option.splits if_splits)
  have "value = answer_value a"
    using a by (auto simp: interpretSpendGuardAnswer_def answer_value_def SPEND_GUARD_ANSWER_VALUES_def
        split: if_splits)
  moreover have "entryId \<in> set (cardEntryIds (guard s))" "isHostIssuedCard s entryId value"
    using changed by (auto simp: answer_transition_def Let_def split: if_splits)
  ultimately show ?thesis
    by (auto simp: isHostIssuedCard_def dest!: find_SomeD split: option.splits entry_kind.splits)
qed

subsection \<open>Witnesses\<close>

definition demo_day :: millis where "demo_day = 24 * 60 * 60000"

definition demo_session :: session where
  "demo_session = \<lparr>automations = [\<lparr>a_id = ''r'', a_isEnabled = True, a_runs = []\<rparr>,
       \<lparr>a_id = ''q'', a_isEnabled = False, a_runs = []\<rparr>],
     lastViewedAt = 0, unreadCount = 15, guard = CLEARED_GUARD_STATE, entries = []\<rparr>"

definition demo_away :: session where
  "demo_away = foldl guard_step demo_session [GvApply ''r'' (4 * demo_day)]"

lemmas demo_guard_defs = demo_away_def demo_session_def demo_day_def CLEARED_GUARD_STATE_def apply_guard_def
  issueGuardCard_def evaluate_def evaluateAutomationSpendGuard_def countAutomationRunsSince_def
  SPEND_GUARD_IDLE_TTL_MS_def SPEND_GUARD_MIN_UNREAD_COUNT_def SPEND_GUARD_MIN_FIRES_SINCE_VIEWED_def
  SPEND_GUARD_PAUSE_DELAY_MS_def pauseForAwayUser_def disableEveryEnabledRoutine_def setEnabled_def Let_def

lemma demo_pauses: "snd (pauseForAwayUser (7 * demo_day) demo_away)"
  by (simp add: demo_guard_defs split_beta)

theorem no_pause_without_warning_witness: "has_nudge_card demo_away \<and> \<not> optedOut (guard demo_away)"
  using no_pause_without_warning [OF _ demo_away_def demo_pauses]
  by (simp add: demo_session_def CLEARED_GUARD_STATE_def)

theorem resume_undoes_the_pause_witness:
  "automations (fst (handleWidgetAnswer False (9 * demo_day)
     (last (cardEntryIds (guard (fst (pauseForAwayUser (7 * demo_day) demo_away))))) (answer_value Resume)
     (fst (pauseForAwayUser (7 * demo_day) demo_away)))) = automations demo_session"
proof -
  have "distinct (map a_id (automations demo_away))" "pausedAutomationIds (guard demo_away) = []"
    "automations demo_away = automations demo_session"
    by (simp_all add: demo_guard_defs)
  with resume_undoes_the_pause [OF this(1,2) demo_pauses refl refl] show ?thesis by simp
qed

theorem answers_only_from_host_cards_witness:
  "last (cardEntryIds (guard demo_away)) \<in> set (cardEntryIds (guard demo_away))"
proof -
  have n: "nextEntryId [] SendMessageId = Some (''tbs'' @ decimal 0)"
    by (simp add: nextEntryId_def mint_id_def turn_name_def BOOT_TURN_def start_index_def countUserMessages_def
        countTrailingSendMessages_def countTrailing_def)
  let ?r = "fst (handleWidgetAnswer False 0 (last (cardEntryIds (guard demo_away))) (answer_value OptOut) demo_away)"
  have "optedOut (guard ?r)"
    by (simp add: handleWidgetAnswer_def interpret_answer_value answer_transition_def demo_guard_defs n
        isHostIssuedCard_def isSpendGuardCard_def buildSpendGuardNudgeWidget_def)
  moreover have "\<not> optedOut (guard demo_away)" by (simp add: demo_guard_defs)
  ultimately have "?r \<noteq> demo_away" by metis
  from answers_only_from_host_cards [OF this] show ?thesis by simp
qed

end
