(* ===== verification/Scheduling_Policies.thy ===== *)
theory Scheduling_Policies
  imports Js_Prelude Complex_Main
begin

text \<open>
  The scheduling policies of \<^verbatim>\<open>shared/scheduling.ts\<close>: debounce, idle watchdog, polling, expiry,
  retry, deadline and the cancellable delay under retry.

  A JavaScript number is a finite rational or not finite (\<^verbatim>\<open>NaN\<close> and the infinities, which
  every policy rejects); arithmetic is exact. A policy's use of the clock is its state: the timer
  it has scheduled, with the time it is due. Calls, timer callbacks, settled promises and abort
  signals are the events of a step function; a callback the policy makes is a log entry with the
  time it is made. A timer callback runs at or after the time it was due.
\<close>

subsection \<open>Options\<close>

datatype num = Fin rat | NotFinite

datatype option_error = TypeError string | RangeError string

definition blank :: "string \<Rightarrow> bool" where
  "blank s \<longleftrightarrow> list_all (\<lambda>c. of_char c \<in> {9, 10, 11, 12, 13, 32, 160 :: nat}) s"

definition check_name :: "string \<Rightarrow> option_error option" where
  "check_name name = (if blank name then Some (TypeError ''name must not be empty'') else None)"

definition check_delay :: "string \<Rightarrow> num \<Rightarrow> option_error option" where
  "check_delay field v =
     (case v of Fin d \<Rightarrow> if d < 0 then Some (RangeError (field @ '' must be a finite non-negative number'')) else None
      | NotFinite \<Rightarrow> Some (RangeError (field @ '' must be a finite non-negative number'')))"

text \<open>The checks of a constructor in order: the first that fails is thrown.\<close>

fun first_error :: "option_error option list \<Rightarrow> option_error option" where
  "first_error [] = None"
| "first_error (Some e # es) = Some e"
| "first_error (None # es) = first_error es"

definition is_integer :: "rat \<Rightarrow> bool" where
  "is_integer q \<longleftrightarrow> snd (quotient_of q) = 1"

definition the_rat :: "num \<Rightarrow> rat" where
  "the_rat v = (case v of Fin q \<Rightarrow> q | NotFinite \<Rightarrow> 0)"

definition debounce_options_error :: "string \<Rightarrow> num \<Rightarrow> option_error option" where
  "debounce_options_error name delayMs = first_error [check_name name, check_delay ''delayMs'' delayMs]"

definition watchdog_options_error :: "string \<Rightarrow> num \<Rightarrow> option_error option" where
  "watchdog_options_error name idleMs = first_error [check_name name, check_delay ''idleMs'' idleMs]"

definition expiry_options_error :: "string \<Rightarrow> num \<Rightarrow> option_error option" where
  "expiry_options_error name ttlMs = first_error [check_name name, check_delay ''ttlMs'' ttlMs]"

definition polling_options_error :: "string \<Rightarrow> num \<Rightarrow> option_error option" where
  "polling_options_error name intervalMs =
     first_error [check_name name, check_delay ''intervalMs'' intervalMs,
       if intervalMs = Fin 0 then Some (RangeError ''intervalMs must be greater than 0'') else None]"

definition deadline_options_error :: "string \<Rightarrow> num \<Rightarrow> option_error option" where
  "deadline_options_error name timeoutMs =
     first_error [if name = '''' then Some (RangeError ''name must be non-empty'') else None,
       check_delay ''timeoutMs'' timeoutMs]"

record retry_options =
  ro_name :: string
  ro_maxAttempts :: num
  ro_initialDelayMs :: num
  ro_maxDelayMs :: num
  ro_backoffFactor :: "num option"

definition backoffFactor :: "retry_options \<Rightarrow> num" where
  "backoffFactor ro = (case ro_backoffFactor ro of None \<Rightarrow> Fin 2 | Some f \<Rightarrow> f)"

definition retry_options_error :: "retry_options \<Rightarrow> option_error option" where
  "retry_options_error ro = first_error
     [check_name (ro_name ro),
      (case ro_maxAttempts ro of
         Fin n \<Rightarrow> if \<not> is_integer n \<or> n < 1 then Some (RangeError ''maxAttempts must be a positive integer'') else None
       | NotFinite \<Rightarrow> Some (RangeError ''maxAttempts must be a positive integer'')),
      check_delay ''initialDelayMs'' (ro_initialDelayMs ro),
      check_delay ''maxDelayMs'' (ro_maxDelayMs ro),
      if the_rat (ro_maxDelayMs ro) < the_rat (ro_initialDelayMs ro)
      then Some (RangeError ''maxDelayMs must be at least initialDelayMs'') else None,
      (case backoffFactor ro of
         Fin f \<Rightarrow> if f < 1 then Some (RangeError ''backoffFactor must be a finite number at least 1'') else None
       | NotFinite \<Rightarrow> Some (RangeError ''backoffFactor must be a finite number at least 1''))]"

subsection \<open>Debounce and idle watchdog\<close>

record 'a debounce =
  db_active :: bool
  db_scheduled :: "(rat \<times> 'a) option"
  db_calls :: "(rat \<times> 'a) list"

datatype 'a debounce_event = DbCall rat 'a | DbTimer rat | DbDispose

definition debounce_call :: "rat \<Rightarrow> rat \<Rightarrow> 'a \<Rightarrow> 'a debounce \<Rightarrow> 'a debounce" where
  "debounce_call delayMs now args s =
     (if \<not> db_active s then s else s\<lparr>db_scheduled := Some (now + delayMs, args)\<rparr>)"

definition debounce_timer :: "rat \<Rightarrow> 'a debounce \<Rightarrow> 'a debounce" where
  "debounce_timer now s =
     (case db_scheduled s of None \<Rightarrow> s
      | Some (due, args) \<Rightarrow>
          if now < due then s else s\<lparr>db_scheduled := None, db_calls := db_calls s @ [(now, args)]\<rparr>)"

definition debounce_dispose :: "'a debounce \<Rightarrow> 'a debounce" where
  "debounce_dispose s = (if \<not> db_active s then s else s\<lparr>db_active := False, db_scheduled := None\<rparr>)"

fun debounce_step :: "rat \<Rightarrow> 'a debounce \<Rightarrow> 'a debounce_event \<Rightarrow> 'a debounce" where
  "debounce_step delayMs s (DbCall now args) = debounce_call delayMs now args s"
| "debounce_step delayMs s (DbTimer now) = debounce_timer now s"
| "debounce_step delayMs s DbDispose = debounce_dispose s"

definition new_debounce :: "'a debounce" where
  "new_debounce = \<lparr>db_active = True, db_scheduled = None, db_calls = []\<rparr>"

record watchdog =
  wd_active :: bool
  wd_due :: "rat option"
  wd_fired :: "rat list"

datatype watchdog_event = WdKick rat | WdTimer rat | WdDispose

definition watchdog_arm :: "rat \<Rightarrow> rat \<Rightarrow> watchdog" where
  "watchdog_arm idleMs now = \<lparr>wd_active = True, wd_due = Some (now + idleMs), wd_fired = []\<rparr>"

definition watchdog_kick :: "rat \<Rightarrow> rat \<Rightarrow> watchdog \<Rightarrow> watchdog" where
  "watchdog_kick idleMs now s = (if wd_active s then s\<lparr>wd_due := Some (now + idleMs)\<rparr> else s)"

definition watchdog_timer :: "rat \<Rightarrow> watchdog \<Rightarrow> watchdog" where
  "watchdog_timer now s =
     (case wd_due s of None \<Rightarrow> s
      | Some due \<Rightarrow> if now < due then s else s\<lparr>wd_due := None, wd_fired := wd_fired s @ [now]\<rparr>)"

definition watchdog_dispose :: "watchdog \<Rightarrow> watchdog" where
  "watchdog_dispose s = (if \<not> wd_active s then s else s\<lparr>wd_active := False, wd_due := None\<rparr>)"

fun watchdog_step :: "rat \<Rightarrow> watchdog \<Rightarrow> watchdog_event \<Rightarrow> watchdog" where
  "watchdog_step idleMs s (WdKick now) = watchdog_kick idleMs now s"
| "watchdog_step idleMs s (WdTimer now) = watchdog_timer now s"
| "watchdog_step idleMs s WdDispose = watchdog_dispose s"

subsection \<open>Polling\<close>

text \<open>The outcome of \<^verbatim>\<open>tick()\<close> itself: it throws, or returns a promise that settles later.\<close>

record polling =
  po_active :: bool
  po_due :: "rat option"
  po_inFlight :: nat
  po_listening :: bool
  po_ticks :: "rat list"

datatype polling_event = PoTimer rat bool | PoResolved rat | PoRejected | PoAbort | PoDispose

definition polling_dispose :: "polling \<Rightarrow> polling" where
  "polling_dispose s =
     (if \<not> po_active s then s else s\<lparr>po_active := False, po_due := None, po_listening := False\<rparr>)"

definition polling_run :: "rat \<Rightarrow> bool \<Rightarrow> polling \<Rightarrow> polling" where
  "polling_run now throws s =
     (let s1 = s\<lparr>po_due := None\<rparr>
      in if \<not> po_active s1 then s1
         else let s2 = s1\<lparr>po_ticks := po_ticks s1 @ [now]\<rparr>
              in if throws then polling_dispose s2 else s2\<lparr>po_inFlight := Suc (po_inFlight s2)\<rparr>)"

definition polling_start :: "bool \<Rightarrow> bool \<Rightarrow> rat \<Rightarrow> bool \<Rightarrow> polling" where
  "polling_start hasSignal aborted now throws =
     (let s = \<lparr>po_active = True, po_due = None, po_inFlight = 0, po_listening = False, po_ticks = []\<rparr>
      in if hasSignal \<and> aborted then polling_dispose s
         else polling_run now throws (s\<lparr>po_listening := hasSignal\<rparr>))"

fun polling_step :: "rat \<Rightarrow> polling \<Rightarrow> polling_event \<Rightarrow> polling" where
  "polling_step intervalMs s (PoTimer now throws) =
     (case po_due s of None \<Rightarrow> s | Some due \<Rightarrow> if now < due then s else polling_run now throws s)"
| "polling_step intervalMs s (PoResolved now) =
     (if po_inFlight s = 0 then s
      else let s1 = s\<lparr>po_inFlight := po_inFlight s - 1\<rparr>
           in if po_active s1 then s1\<lparr>po_due := Some (now + intervalMs)\<rparr> else s1)"
| "polling_step intervalMs s PoRejected =
     (if po_inFlight s = 0 then s else polling_dispose (s\<lparr>po_inFlight := po_inFlight s - 1\<rparr>))"
| "polling_step intervalMs s PoAbort = (if po_listening s then polling_dispose s else s)"
| "polling_step intervalMs s PoDispose = polling_dispose s"

subsection \<open>Expiry\<close>

text \<open>A handle is the number of its timer; an armed timer is its number, its key and its due time.\<close>

record expiry =
  ex_pending :: "(string, nat) js_map"
  ex_timers :: "(nat \<times> string \<times> rat) list"
  ex_next :: nat
  ex_expired :: "(nat \<times> string \<times> rat) list"

datatype expiry_event = ExArm string rat | ExTimer nat rat | ExDispose nat string

definition cancel_timer :: "nat \<Rightarrow> expiry \<Rightarrow> expiry" where
  "cancel_timer i s = s\<lparr>ex_timers := filter (\<lambda>t. fst t \<noteq> i) (ex_timers s)\<rparr>"

definition expiry_arm :: "rat \<Rightarrow> string \<Rightarrow> rat \<Rightarrow> expiry \<Rightarrow> expiry" where
  "expiry_arm ttlMs key now s =
     (let s1 = (case jm_get (ex_pending s) key of None \<Rightarrow> s | Some i \<Rightarrow> cancel_timer i s);
          i = ex_next s1
      in s1\<lparr>ex_next := Suc i, ex_timers := ex_timers s1 @ [(i, key, now + ttlMs)],
            ex_pending := jm_set (ex_pending s1) key i\<rparr>)"

definition expiry_timer :: "nat \<Rightarrow> rat \<Rightarrow> expiry \<Rightarrow> expiry" where
  "expiry_timer i now s =
     (case find (\<lambda>t. fst t = i) (ex_timers s) of None \<Rightarrow> s
      | Some (_, key, due) \<Rightarrow>
          if now < due then s
          else (cancel_timer i s)\<lparr>ex_pending := jm_delete (ex_pending s) key,
                                  ex_expired := ex_expired s @ [(i, key, now)]\<rparr>)"

definition expiry_dispose :: "nat \<Rightarrow> string \<Rightarrow> expiry \<Rightarrow> expiry" where
  "expiry_dispose i key s =
     (if jm_get (ex_pending s) key \<noteq> Some i then s
      else (cancel_timer i s)\<lparr>ex_pending := jm_delete (ex_pending s) key\<rparr>)"

fun expiry_step :: "rat \<Rightarrow> expiry \<Rightarrow> expiry_event \<Rightarrow> expiry" where
  "expiry_step ttlMs s (ExArm key now) = expiry_arm ttlMs key now s"
| "expiry_step ttlMs s (ExTimer i now) = expiry_timer i now s"
| "expiry_step ttlMs s (ExDispose i key) = expiry_dispose i key s"

definition new_expiry :: expiry where
  "new_expiry = \<lparr>ex_pending = [], ex_timers = [], ex_next = 0, ex_expired = []\<rparr>"

subsection \<open>Retry\<close>

definition MAX_VALUE :: rat where "MAX_VALUE = (2 ^ 53 - 1) * 2 ^ 971"

definition retry_delay :: "retry_options \<Rightarrow> nat \<Rightarrow> rat" where
  "retry_delay ro attempt =
     (let growth = min (the_rat (backoffFactor ro) ^ (attempt - 1)) MAX_VALUE
      in min (the_rat (ro_maxDelayMs ro)) (the_rat (ro_initialDelayMs ro) * growth))"

definition schedule_error :: "rat \<Rightarrow> option_error option" where
  "schedule_error attempt =
     (if \<not> is_integer attempt \<or> attempt < 1 then Some (RangeError ''attempt must be a positive integer'') else None)"

text \<open>
  What one attempt meets: an abort before it, its own outcome (or an abort while it runs), and
  an abort during the delay after it.
\<close>

datatype ('e, 'a) attempt_outcome = Succeeds 'a | Fails 'e | AbortedDuring

record ('e, 'a) attempt_env =
  ae_abortedBefore :: bool
  ae_outcome :: "('e, 'a) attempt_outcome"
  ae_abortedInDelay :: bool

datatype ('e, 'a) retry_result = Returned 'a | Threw 'e | Aborted

definition max_attempts :: "retry_options \<Rightarrow> nat" where
  "max_attempts ro = nat \<lfloor>the_rat (ro_maxAttempts ro)\<rfloor>"

text \<open>The loop from an attempt on: the result, and each call of the work with the delay after it.\<close>

function retry_from ::
  "retry_options \<Rightarrow> ('e \<Rightarrow> nat \<Rightarrow> bool) \<Rightarrow> (nat \<Rightarrow> ('e, 'a) attempt_env) \<Rightarrow> nat
     \<Rightarrow> ('e, 'a) retry_result \<times> (nat \<times> rat option) list" where
  "retry_from ro shouldRetry env attempt =
     (if ae_abortedBefore (env attempt) then (Aborted, [])
      else case ae_outcome (env attempt) of
        Succeeds v \<Rightarrow> (Returned v, [(attempt, None)])
      | AbortedDuring \<Rightarrow> (Aborted, [(attempt, None)])
      | Fails e \<Rightarrow>
          if attempt \<ge> max_attempts ro \<or> \<not> shouldRetry e attempt then (Threw e, [(attempt, None)])
          else if ae_abortedInDelay (env attempt) then (Aborted, [(attempt, Some (retry_delay ro attempt))])
          else let (r, calls) = retry_from ro shouldRetry env (Suc attempt)
               in (r, (attempt, Some (retry_delay ro attempt)) # calls))"
  by pat_completeness auto
termination
  by (relation "measure (\<lambda>(ro, _, _, attempt). max_attempts ro - attempt)") auto

declare retry_from.simps [simp del]

definition runWithRetry ::
  "retry_options \<Rightarrow> ('e \<Rightarrow> nat \<Rightarrow> bool) \<Rightarrow> (nat \<Rightarrow> ('e, 'a) attempt_env)
     \<Rightarrow> ('e, 'a) retry_result \<times> (nat \<times> rat option) list" where
  "runWithRetry ro shouldRetry env = retry_from ro shouldRetry env 1"

subsection \<open>Delay and deadline\<close>

datatype delay_state = DelayPending | DelayElapsed | DelayRejected string

record delay =
  dl_state :: delay_state
  dl_timerLive :: bool
  dl_listening :: bool

definition delay_cancel :: "string \<Rightarrow> delay \<Rightarrow> delay" where
  "delay_cancel reason s =
     (if dl_state s \<noteq> DelayPending then s
      else \<lparr>dl_state = DelayRejected reason, dl_timerLive = False, dl_listening = False\<rparr>)"

definition createDelay :: "bool \<Rightarrow> bool \<Rightarrow> string \<Rightarrow> delay" where
  "createDelay hasSignal aborted reason =
     (let s = \<lparr>dl_state = DelayPending, dl_timerLive = True, dl_listening = False\<rparr>
      in if hasSignal \<and> aborted then delay_cancel reason s else s\<lparr>dl_listening := hasSignal\<rparr>)"

datatype delay_event = DlTimer | DlAbort string | DlDispose

fun delay_step :: "delay \<Rightarrow> delay_event \<Rightarrow> delay" where
  "delay_step s DlTimer =
     (if \<not> dl_timerLive s \<or> dl_state s \<noteq> DelayPending then s
      else \<lparr>dl_state = DelayElapsed, dl_timerLive = False, dl_listening = False\<rparr>)"
| "delay_step s (DlAbort reason) = (if dl_listening s then delay_cancel reason s else s)"
| "delay_step s DlDispose = delay_cancel ''Operation aborted'' s"

datatype 'a deadline_result = WorkResult 'a | DeadlineExceeded string | AbortReason string

record 'a deadline =
  de_result :: "'a deadline_result option"
  de_controller :: "'a deadline_result option"
  de_timerLive :: bool
  de_listening :: bool

datatype 'a deadline_event = DeWork 'a | DeTimer | DeAbort string

definition deadline_run :: "bool \<Rightarrow> bool \<Rightarrow> string \<Rightarrow> 'a deadline" where
  "deadline_run hasSignal aborted reason =
     (if hasSignal \<and> aborted
      then \<lparr>de_result = Some (AbortReason reason), de_controller = None, de_timerLive = False, de_listening = False\<rparr>
      else \<lparr>de_result = None, de_controller = None, de_timerLive = True, de_listening = hasSignal\<rparr>)"

text \<open>The first of the race settles the run; its \<^verbatim>\<open>finally\<close> drops the timer and the listener.\<close>

definition settle :: "'a deadline_result \<Rightarrow> 'a deadline \<Rightarrow> 'a deadline" where
  "settle r s = s\<lparr>de_result := Some r, de_timerLive := False, de_listening := False\<rparr>"

fun deadline_step :: "string \<Rightarrow> 'a deadline \<Rightarrow> 'a deadline_event \<Rightarrow> 'a deadline" where
  "deadline_step name s (DeWork v) = (if de_result s = None then settle (WorkResult v) s else s)"
| "deadline_step name s DeTimer =
     (if de_timerLive s then settle (DeadlineExceeded name) (s\<lparr>de_controller := Some (DeadlineExceeded name)\<rparr>) else s)"
| "deadline_step name s (DeAbort reason) =
     (if de_listening s then settle (AbortReason reason) (s\<lparr>de_controller := Some (AbortReason reason)\<rparr>) else s)"

subsection \<open>Debounce lemmas\<close>

definition breaks_wait :: "'a debounce_event \<Rightarrow> bool" where
  "breaks_wait ev = (case ev of DbTimer _ \<Rightarrow> False | _ \<Rightarrow> True)"

text \<open>The event list ends in a call that nothing has overtaken since.\<close>

definition waiting_for :: "rat \<Rightarrow> 'a debounce_event list \<Rightarrow> rat \<Rightarrow> 'a \<Rightarrow> bool" where
  "waiting_for delayMs es due a \<longleftrightarrow>
     (\<exists>es1 t0 es2. es = es1 @ DbCall t0 a # es2 \<and> due = t0 + delayMs \<and> (\<forall>ev \<in> set es2. \<not> breaks_wait ev))"

definition fired_for :: "rat \<Rightarrow> 'a debounce_event list \<Rightarrow> rat \<Rightarrow> 'a \<Rightarrow> bool" where
  "fired_for delayMs es t a \<longleftrightarrow>
     (\<exists>es1 t0 es2 es3. es = es1 @ DbCall t0 a # es2 @ DbTimer t # es3 \<and> t0 + delayMs \<le> t \<and>
        (\<forall>ev \<in> set es2. \<not> breaks_wait ev))"

lemma waiting_snoc: "waiting_for d es due a \<Longrightarrow> \<not> breaks_wait ev \<Longrightarrow> waiting_for d (es @ [ev]) due a"
proof -
  assume "waiting_for d es due a" and b: "\<not> breaks_wait ev"
  then obtain es1 t0 es2 where w: "es = es1 @ DbCall t0 a # es2" "due = t0 + d" "\<forall>ev \<in> set es2. \<not> breaks_wait ev"
    by (auto simp: waiting_for_def)
  then show ?thesis unfolding waiting_for_def
    by (intro exI [of _ es1] exI [of _ t0] exI [of _ "es2 @ [ev]"]) (use b in auto)
qed

lemma waiting_call: "waiting_for d (es @ [DbCall t a]) (t + d) a"
  unfolding waiting_for_def by (intro exI [of _ es] exI [of _ t] exI [of _ "[]"]) simp

lemma fired_snoc: "fired_for d es t a \<Longrightarrow> fired_for d (es @ [ev]) t a"
  unfolding fired_for_def by (metis append.assoc append_Cons)

lemma waiting_fires: "waiting_for d es due a \<Longrightarrow> due \<le> t \<Longrightarrow> fired_for d (es @ [DbTimer t]) t a"
  unfolding waiting_for_def fired_for_def by (metis append.assoc append_Cons)

lemma debounce_inactive:
  "\<not> db_active (foldl (debounce_step d) new_debounce es) \<Longrightarrow>
   db_scheduled (foldl (debounce_step d) new_debounce es) = None"
proof (induction es rule: rev_induct)
  case Nil
  then show ?case by (simp add: new_debounce_def)
next
  case (snoc ev es)
  then show ?case
    by (cases ev) (auto simp: debounce_call_def debounce_timer_def debounce_dispose_def
        split: option.splits if_splits)
qed

lemma debounce_run:
  "(\<forall>due a. db_scheduled (foldl (debounce_step d) new_debounce es) = Some (due, a) \<longrightarrow> waiting_for d es due a) \<and>
   (\<forall>(t, a) \<in> set (db_calls (foldl (debounce_step d) new_debounce es)). fired_for d es t a)"
proof (induction es rule: rev_induct)
  case Nil
  then show ?case by (simp add: new_debounce_def)
next
  case (snoc ev es)
  let ?s = "foldl (debounce_step d) new_debounce es"
  have calls: "\<forall>(t, a) \<in> set (db_calls ?s). fired_for d (es @ [ev]) t a" using snoc fired_snoc by fastforce
  show ?case
  proof (cases ev)
    case (DbCall t a)
    show ?thesis
    proof (cases "db_active ?s")
      case True
      with DbCall calls waiting_call [of d es t a] show ?thesis by (simp add: debounce_call_def)
    next
      case False
      with DbCall calls debounce_inactive [OF False] show ?thesis by (simp add: debounce_call_def)
    qed
  next
    case (DbTimer t)
    then have nb: "\<not> breaks_wait ev" by (simp add: breaks_wait_def)
    show ?thesis
    proof (cases "db_scheduled ?s")
      case None
      with DbTimer calls show ?thesis by (simp add: debounce_timer_def)
    next
      case (Some p)
      obtain due a where p: "p = (due, a)" by fastforce
      with Some snoc have w: "waiting_for d es due a" by simp
      show ?thesis
      proof (cases "t < due")
        case True
        with DbTimer Some p calls waiting_snoc [OF w nb] show ?thesis by (simp add: debounce_timer_def)
      next
        case False
        then have "fired_for d (es @ [ev]) t a" using waiting_fires [OF w] DbTimer by simp
        with DbTimer Some p calls False show ?thesis by (simp add: debounce_timer_def)
      qed
    qed
  next
    case DbDispose
    with calls debounce_inactive [of d es] show ?thesis by (auto simp: debounce_dispose_def)
  qed
qed

subsection \<open>Polling and expiry lemmas\<close>

definition polling_ok :: "polling \<Rightarrow> bool" where
  "polling_ok s \<longleftrightarrow> po_inFlight s \<le> 1 \<and> (po_due s \<noteq> None \<longrightarrow> po_inFlight s = 0 \<and> po_active s)"

lemma polling_step_ok: "polling_ok s \<Longrightarrow> polling_ok (polling_step intervalMs s ev)"
  by (cases ev) (auto simp: polling_ok_def polling_run_def polling_dispose_def Let_def split: option.splits)

lemma polling_start_ok: "polling_ok (polling_start hasSignal aborted now throws)"
  by (auto simp: polling_start_def polling_run_def polling_dispose_def polling_ok_def Let_def)

interpretation polling: invariant_machine "polling_step intervalMs" polling_ok
  for intervalMs
  by unfold_locales (rule polling_step_ok)

lemma polling_inactive:
  assumes "polling_ok s" and "\<not> po_active s"
  shows "po_ticks (polling_step intervalMs s ev) = po_ticks s \<and> \<not> po_active (polling_step intervalMs s ev)"
  using assms by (cases ev) (auto simp: polling_ok_def polling_run_def polling_dispose_def Let_def split: option.splits)

lemma polling_inactive_run:
  "polling_ok s \<Longrightarrow> \<not> po_active s \<Longrightarrow>
   po_ticks (foldl (polling_step intervalMs) s es) = po_ticks s \<and> \<not> po_active (foldl (polling_step intervalMs) s es)"
proof (induction es arbitrary: s)
  case Nil
  then show ?case by simp
next
  case (Cons ev es)
  with polling_inactive [OF Cons.prems, of intervalMs ev] polling_step_ok [OF Cons.prems(1), of intervalMs ev]
  show ?case by simp
qed

text \<open>The pending map and the live timers are the same thing.\<close>

definition expiry_ok :: "expiry \<Rightarrow> bool" where
  "expiry_ok s \<longleftrightarrow> distinct (map fst (ex_timers s)) \<and> (\<forall>t \<in> set (ex_timers s). fst t < ex_next s) \<and>
     jm_wf (ex_pending s) \<and>
     (\<forall>key i. jm_get (ex_pending s) key = Some i \<longleftrightarrow> (\<exists>due. (i, key, due) \<in> set (ex_timers s)))"

lemma cancel_timer_ok:
  assumes "expiry_ok s" and "jm_get (ex_pending s) key = Some i"
  shows "expiry_ok ((cancel_timer i s)\<lparr>ex_pending := jm_delete (ex_pending s) key\<rparr>)"
proof -
  obtain due where t: "(i, key, due) \<in> set (ex_timers s)" using assms by (auto simp: expiry_ok_def)
  have uniq: "k = key" if "(i, k, d) \<in> set (ex_timers s)" for k d
  proof -
    have "distinct (map fst (ex_timers s))" using assms(1) by (simp add: expiry_ok_def)
    from eq_key_imp_eq_value [OF this that t] show ?thesis by simp
  qed
  have d: "distinct (map fst (filter (\<lambda>t. fst t \<noteq> i) (ex_timers s)))"
    using assms(1) by (auto simp: expiry_ok_def distinct_map_filter)
  have "jm_get (jm_delete (ex_pending s) key) k = Some j \<longleftrightarrow> (\<exists>d. (j, k, d) \<in> set (filter (\<lambda>t. fst t \<noteq> i) (ex_timers s)))" for k j
  proof (cases "k = key")
    case True
    have "j = i" if "(j, key, d) \<in> set (ex_timers s)" for d
    proof -
      have "jm_get (ex_pending s) key = Some j" using that assms(1) by (auto simp: expiry_ok_def)
      with assms(2) show ?thesis by simp
    qed
    with True show ?thesis by auto
  next
    case False
    with assms(1) uniq show ?thesis by (auto simp: expiry_ok_def)
  qed
  with d assms(1) show ?thesis by (auto simp: expiry_ok_def cancel_timer_def)
qed

lemma expiry_arm_eq:
  "expiry_arm ttlMs key now s =
    (let s0 = (case jm_get (ex_pending s) key of None \<Rightarrow> s
               | Some i \<Rightarrow> (cancel_timer i s)\<lparr>ex_pending := jm_delete (ex_pending s) key\<rparr>)
     in s0\<lparr>ex_next := Suc (ex_next s), ex_timers := ex_timers s0 @ [(ex_next s, key, now + ttlMs)],
           ex_pending := jm_set (ex_pending s) key (ex_next s)\<rparr>)"
  by (simp add: expiry_arm_def cancel_timer_def Let_def split: option.splits)

lemma expiry_arm_ok: "expiry_ok s \<Longrightarrow> expiry_ok (expiry_arm ttlMs key now s)"
proof -
  assume ok: "expiry_ok s"
  define s0 where "s0 = (case jm_get (ex_pending s) key of None \<Rightarrow> s
      | Some i \<Rightarrow> (cancel_timer i s)\<lparr>ex_pending := jm_delete (ex_pending s) key\<rparr>)"
  have ok0: "expiry_ok s0" using ok cancel_timer_ok [OF ok] by (simp add: s0_def split: option.splits)
  have next0: "ex_next s0 = ex_next s" by (simp add: s0_def cancel_timer_def split: option.splits)
  have get0: "jm_get (ex_pending s0) = (jm_get (ex_pending s))(key := None)"
    by (auto simp: s0_def cancel_timer_def fun_eq_iff split: option.splits)
  have nokey: "(j, key, d) \<notin> set (ex_timers s0)" for j d
  proof
    assume "(j, key, d) \<in> set (ex_timers s0)"
    then have "jm_get (ex_pending s0) key = Some j" using ok0 unfolding expiry_ok_def by blast
    with get0 show False by simp
  qed
  have fresh: "(ex_next s, k, d) \<notin> set (ex_timers s0)" for k d
    using ok0 next0 by (fastforce simp: expiry_ok_def)
  have "jm_get (jm_set (ex_pending s) key (ex_next s)) k = Some j \<longleftrightarrow>
      (\<exists>d. (j, k, d) \<in> set (ex_timers s0 @ [(ex_next s, key, now + ttlMs)]))" for k j
  proof (cases "k = key")
    case True
    with nokey show ?thesis by auto
  next
    case False
    then have same: "jm_get (ex_pending s0) k = jm_get (ex_pending s) k" using get0 by simp
    have "jm_get (ex_pending s0) k = Some j \<longleftrightarrow> (\<exists>d. (j, k, d) \<in> set (ex_timers s0))"
      using ok0 unfolding expiry_ok_def by blast
    with False same show ?thesis by auto
  qed
  moreover have "distinct (map fst (ex_timers s0 @ [(ex_next s, key, now + ttlMs)]))"
    using ok0 next0 by (fastforce simp: expiry_ok_def)
  moreover have "\<forall>t \<in> set (ex_timers s0 @ [(ex_next s, key, now + ttlMs)]). fst t < Suc (ex_next s)"
    using ok0 next0 by (fastforce simp: expiry_ok_def)
  moreover have "jm_wf (jm_set (ex_pending s) key (ex_next s))" using ok by (auto simp: expiry_ok_def)
  ultimately show ?thesis unfolding expiry_arm_eq Let_def s0_def [symmetric] by (simp add: expiry_ok_def)
qed

lemma expiry_step_ok: "expiry_ok s \<Longrightarrow> expiry_ok (expiry_step ttlMs s ev)"
proof (cases ev)
  case (ExTimer i now)
  assume ok: "expiry_ok s"
  show ?thesis
  proof (cases "find (\<lambda>t. fst t = i) (ex_timers s)")
    case None
    with ok ExTimer show ?thesis by (simp add: expiry_timer_def)
  next
    case (Some t)
    obtain j key due where t: "t = (j, key, due)" by (cases t) auto
    from find_SomeD [OF Some] t have "(i, key, due) \<in> set (ex_timers s)" "j = i" by auto
    with ok have "jm_get (ex_pending s) key = Some i" by (auto simp: expiry_ok_def)
    from cancel_timer_ok [OF ok this] ok Some t ExTimer show ?thesis
      by (auto simp: expiry_timer_def expiry_ok_def)
  qed
qed (auto simp: expiry_arm_ok expiry_dispose_def cancel_timer_ok)

interpretation expiry: invariant_machine "expiry_step ttlMs" expiry_ok
  for ttlMs
  by unfold_locales (rule expiry_step_ok)

lemma new_expiry_ok: "expiry_ok new_expiry" by (simp add: expiry_ok_def new_expiry_def)


subsection \<open>Retry lemmas\<close>

lemma retry_calls:
  "max_attempts ro \<ge> attempt \<Longrightarrow>
   (let (r, calls) = retry_from ro shouldRetry env attempt
    in map fst calls = [attempt..<attempt + length calls] \<and> attempt + length calls \<le> Suc (max_attempts ro))"
proof (induction ro shouldRetry env attempt rule: retry_from.induct)
  case (1 ro shouldRetry env attempt)
  show ?case
  proof (cases "ae_abortedBefore (env attempt)")
    case True
    with "1.prems" show ?thesis by (simp add: retry_from.simps [of ro shouldRetry env attempt])
  next
    case False
    show ?thesis
    proof (cases "\<exists>e. ae_outcome (env attempt) = Fails e \<and> attempt < max_attempts ro \<and> shouldRetry e attempt \<and>
        \<not> ae_abortedInDelay (env attempt)")
      case True
      then obtain e where e: "ae_outcome (env attempt) = Fails e" "attempt < max_attempts ro" "shouldRetry e attempt"
        "\<not> ae_abortedInDelay (env attempt)" by blast
      obtain r calls where rest: "retry_from ro shouldRetry env (Suc attempt) = (r, calls)" by fastforce
      with "1.IH" [OF False e(1)] e have ih: "map fst calls = [Suc attempt..<Suc attempt + length calls]"
        "Suc attempt + length calls \<le> Suc (max_attempts ro)" by auto
      have "[attempt..<attempt + Suc (length calls)] = attempt # [Suc attempt..<Suc attempt + length calls]"
        by (simp add: upt_rec del: upt_Suc)
      with e False rest ih show ?thesis
        by (simp add: retry_from.simps [of ro shouldRetry env attempt] del: upt_Suc)
    next
      case no: False
      with False "1.prems" show ?thesis
        by (auto simp: retry_from.simps [of ro shouldRetry env attempt] split: attempt_outcome.splits)
    qed
  qed
qed

text \<open>What the calls prove of the attempts: all but the last failed and were to be retried.\<close>

definition retried :: "('e \<Rightarrow> nat \<Rightarrow> bool) \<Rightarrow> (nat \<Rightarrow> ('e, 'a) attempt_env) \<Rightarrow> nat \<Rightarrow> bool" where
  "retried shouldRetry env i \<longleftrightarrow> \<not> ae_abortedBefore (env i) \<and> \<not> ae_abortedInDelay (env i) \<and>
     (case ae_outcome (env i) of Fails e \<Rightarrow> shouldRetry e i | _ \<Rightarrow> False)"

lemma retry_success:
  "max_attempts ro \<ge> attempt \<Longrightarrow> k \<ge> attempt \<Longrightarrow> k \<le> max_attempts ro \<Longrightarrow>
   (\<And>i. attempt \<le> i \<Longrightarrow> i < k \<Longrightarrow> retried shouldRetry env i) \<Longrightarrow>
   \<not> ae_abortedBefore (env k) \<Longrightarrow> ae_outcome (env k) = Succeeds v \<Longrightarrow>
   fst (retry_from ro shouldRetry env attempt) = Returned v \<and>
   snd (retry_from ro shouldRetry env attempt) =
     map (\<lambda>i. (i, Some (retry_delay ro i))) [attempt..<k] @ [(k, None)]"
proof (induction "k - attempt" arbitrary: attempt)
  case 0
  then have "attempt = k" by simp
  with 0 show ?case by (simp add: retry_from.simps [of ro shouldRetry env k])
next
  case (Suc n)
  then have lt: "attempt < k" by simp
  from Suc.prems(4) [of attempt] lt have r: "retried shouldRetry env attempt" by simp
  then obtain e where e: "ae_outcome (env attempt) = Fails e" "shouldRetry e attempt"
    by (auto simp: retried_def split: attempt_outcome.splits)
  have ih: "fst (retry_from ro shouldRetry env (Suc attempt)) = Returned v \<and>
     snd (retry_from ro shouldRetry env (Suc attempt)) =
       map (\<lambda>i. (i, Some (retry_delay ro i))) [Suc attempt..<k] @ [(k, None)]"
    by (rule Suc.hyps(1)) (use Suc.prems Suc.hyps(2) lt in auto)
  have up: "[attempt..<k] = attempt # [Suc attempt..<k]" using lt by (rule upt_conv_Cons)
  obtain r' calls where rest: "retry_from ro shouldRetry env (Suc attempt) = (r', calls)" by fastforce
  from r e lt Suc.prems(3) ih rest up show ?case
    by (simp add: retry_from.simps [of ro shouldRetry env attempt] retried_def del: upt_Suc)
qed

lemma retry_options_valid:
  assumes "retry_options_error ro = None"
  shows "0 \<le> the_rat (ro_initialDelayMs ro)" and "the_rat (ro_initialDelayMs ro) \<le> the_rat (ro_maxDelayMs ro)"
    and "1 \<le> the_rat (backoffFactor ro)" and "1 \<le> max_attempts ro"
  using assms
  by (auto simp: retry_options_error_def check_name_def check_delay_def the_rat_def max_attempts_def le_nat_iff le_floor_iff
      split: if_splits num.splits)

lemma retry_call_delays:
  "(i, d) \<in> set (snd (retry_from ro shouldRetry env attempt)) \<Longrightarrow> d = None \<or> d = Some (retry_delay ro i)"
proof (induction ro shouldRetry env attempt rule: retry_from.induct)
  case (1 ro shouldRetry env attempt)
  then show ?case
    by (subst (asm) (2) retry_from.simps)
      (auto simp: Let_def split: if_splits attempt_outcome.splits prod.splits)
qed

lemma map_filter_delays:
  "(\<And>i d. (i, d) \<in> set calls \<Longrightarrow> d = None \<or> d = Some (g i)) \<Longrightarrow>
   List.map_filter snd calls = map g (map fst (filter (\<lambda>c. snd c \<noteq> None) calls))"
proof (induction calls)
  case Nil
  then show ?case by (simp add: List.map_filter_def)
next
  case (Cons c calls)
  obtain i d where c: "c = (i, d)" by fastforce
  with Cons.prems [of i d] have d: "d = None \<or> d = Some (g i)" by simp
  have "List.map_filter snd calls = map g (map fst (filter (\<lambda>c. snd c \<noteq> None) calls))"
    by (rule Cons.IH) (use Cons.prems in auto)
  with c d show ?case by (auto simp: List.map_filter_def)
qed

lemma retry_delay_le: "retry_delay ro i \<le> the_rat (ro_maxDelayMs ro)"
  by (simp add: retry_delay_def Let_def)

lemma retry_growth_mono:
  assumes "1 \<le> the_rat (backoffFactor ro)" and "i \<le> j"
  shows "min (the_rat (backoffFactor ro) ^ (i - 1)) MAX_VALUE \<le> min (the_rat (backoffFactor ro) ^ (j - 1)) MAX_VALUE"
  using assms power_increasing [of "i - 1" "j - 1" "the_rat (backoffFactor ro)"] by (simp add: min.coboundedI1)

lemma retry_growth_ge_1: "1 \<le> the_rat (backoffFactor ro) \<Longrightarrow> 1 \<le> min (the_rat (backoffFactor ro) ^ (i - 1)) MAX_VALUE"
  by (simp add: MAX_VALUE_def one_le_power)

lemma retry_delay_mono:
  assumes "retry_options_error ro = None" and "i \<le> j"
  shows "retry_delay ro i \<le> retry_delay ro j"
proof -
  note v = retry_options_valid [OF assms(1)]
  from mult_left_mono [OF retry_growth_mono [OF v(3) assms(2)] v(1)]
  show ?thesis by (simp add: retry_delay_def Let_def min.coboundedI2)
qed

lemma retry_delay_ge_initial:
  assumes "retry_options_error ro = None"
  shows "the_rat (ro_initialDelayMs ro) \<le> retry_delay ro i"
proof -
  note v = retry_options_valid [OF assms(1)]
  from mult_left_mono [OF retry_growth_ge_1 [OF v(3), of i] v(1)] v(2)
  show ?thesis by (simp add: retry_delay_def Let_def)
qed


subsection \<open>Properties\<close>

text \<open>
  Fact. Every call a debounced function makes is of the last arguments it was given: the
  call at \<open>t\<close> with \<open>a\<close> follows a wrapper call with \<open>a\<close> at least \<open>delayMs\<close> before, with no other
  wrapper call and no dispose in between.
\<close>

theorem debounced_calls_are_the_last_quiet_one:
  assumes "(t, a) \<in> set (db_calls (foldl (debounce_step delayMs) new_debounce es))"
  shows "\<exists>es1 t0 es2 es3. es = es1 @ DbCall t0 a # es2 @ DbTimer t # es3 \<and> t0 + delayMs \<le> t \<and>
    list_all (\<lambda>ev. case ev of DbTimer _ \<Rightarrow> True | _ \<Rightarrow> False) es2"
proof -
  from assms debounce_run [of delayMs es] have "fired_for delayMs es t a" by auto
  then obtain es1 t0 es2 es3 where f: "es = es1 @ DbCall t0 a # es2 @ DbTimer t # es3" "t0 + delayMs \<le> t"
    "\<forall>ev \<in> set es2. \<not> breaks_wait ev" by (auto simp: fired_for_def)
  then have "list_all (\<lambda>ev. case ev of DbTimer _ \<Rightarrow> True | _ \<Rightarrow> False) es2"
    by (auto simp: list_all_iff breaks_wait_def split: debounce_event.splits)
  with f show ?thesis by blast
qed

lemma debounced_calls_are_the_last_quiet_one_witness:
  "\<exists>es1 t0 es2 es3. [DbCall 0 ''a'', DbTimer 1, DbCall 2 ''b'', DbTimer 3, DbTimer 5] =
     es1 @ DbCall t0 ''b'' # es2 @ DbTimer (5 :: rat) # es3 \<and> t0 + 3 \<le> 5 \<and>
     list_all (\<lambda>ev. case ev of DbTimer _ \<Rightarrow> True | _ \<Rightarrow> False) es2"
  by (rule debounced_calls_are_the_last_quiet_one)
    (simp add: new_debounce_def debounce_call_def debounce_timer_def)

text \<open>
  Property C30. A polling policy never overlaps two ticks: at every moment of every run at most one
  tick is in flight, the timer of the next one is only set while none is, and once the policy is
  stopped (a tick threw or rejected, the signal was aborted, it was disposed of) no tick runs again.
\<close>

theorem polling_never_overlaps:
  "let s = foldl (polling_step intervalMs) (polling_start hasSignal aborted now throws) es;
       later = foldl (polling_step intervalMs) s es'
   in po_inFlight s \<le> 1 \<and> \<not> (po_due s \<noteq> None \<and> po_inFlight s \<noteq> 0) \<and> \<not> (po_due s \<noteq> None \<and> \<not> po_active s) \<and>
      (po_active s \<or> po_ticks later = po_ticks s)"
proof -
  have ok: "polling_ok (foldl (polling_step intervalMs) (polling_start hasSignal aborted now throws) es)"
    by (rule polling.run_inv [OF polling_start_ok])
  with polling_inactive_run [OF ok] show ?thesis by (auto simp: polling_ok_def Let_def)
qed

text \<open>
  Fact. In every run of an expiry policy the pending keys are exactly the keys with a live
  timer, one timer for each; so disposing of a handle that is no longer the current one of its key
  changes nothing, and arming a key again leaves one timer, due a full \<open>ttlMs\<close> later.
\<close>

theorem expiry_one_timer_per_key:
  "let s = foldl (expiry_step ttlMs) new_expiry es;
       s' = expiry_arm ttlMs key now s
   in distinct (map (\<lambda>(_, k, _). k) (ex_timers s)) \<and>
      {k. jm_get (ex_pending s) k \<noteq> None} = (\<lambda>(_, k, _). k) ` set (ex_timers s) \<and>
      filter (\<lambda>(_, k, _). k = key) (ex_timers s') = [(ex_next s, key, now + ttlMs)] \<and>
      (jm_get (ex_pending s) key = Some i \<or> expiry_dispose i key s = s)"
proof -
  let ?s = "foldl (expiry_step ttlMs) new_expiry es"
  let ?s' = "expiry_arm ttlMs key now ?s"
  have ok: "expiry_ok ?s" by (rule expiry.run_inv [OF new_expiry_ok])
  have dist: "distinct (map (\<lambda>(_, k, _). k) (ex_timers s))" if "expiry_ok s" for s
  proof -
    have "inj_on (\<lambda>(_, k, _). k) (set (ex_timers s))"
    proof (rule inj_onI)
      fix t u assume t: "t \<in> set (ex_timers s)" and u: "u \<in> set (ex_timers s)"
        and same: "(case t of (_, k, _) \<Rightarrow> k) = (case u of (_, k, _) \<Rightarrow> k)"
      obtain i1 k d1 i2 d2 where tu: "t = (i1, k, d1)" "u = (i2, k, d2)" using same by (cases t; cases u) auto
      with t u that have "jm_get (ex_pending s) k = Some i1" "jm_get (ex_pending s) k = Some i2"
        unfolding expiry_ok_def by blast+
      then have i: "i1 = i2" by simp
      have "distinct (map fst (ex_timers s))" using that by (simp add: expiry_ok_def)
      from eq_key_imp_eq_value [OF this, of i1 "(k, d1)" "(k, d2)"] t u tu i show "t = u" by simp
    qed
    moreover have "distinct (ex_timers s)" using that by (auto simp: expiry_ok_def distinct_map)
    ultimately show ?thesis by (simp add: distinct_map)
  qed
  have keys: "{k. jm_get (ex_pending ?s) k \<noteq> None} = (\<lambda>(_, k, _). k) ` set (ex_timers ?s)"
    using ok unfolding expiry_ok_def by (force simp: image_iff)
  have mem: "(ex_next ?s, key, now + ttlMs) \<in> set (ex_timers ?s')"
    by (simp add: expiry_arm_def cancel_timer_def Let_def split: option.splits)
  have "filter (\<lambda>t. (case t of (_, k, _) \<Rightarrow> k) = key) (ex_timers ?s') = [(ex_next ?s, key, now + ttlMs)]"
    using filter_unique_key [OF dist [OF expiry_arm_ok [OF ok]] mem] by simp
  then have "filter (\<lambda>(_, k, _). k = key) (ex_timers ?s') = [(ex_next ?s, key, now + ttlMs)]"
    by (simp add: case_prod_beta')
  with dist [OF ok] keys show ?thesis by (auto simp: Let_def expiry_dispose_def)
qed

text \<open>
  Fact. A retry run makes its attempts in order from 1, at most \<open>maxAttempts\<close> of them, and
  the delays it schedules between them lie between \<open>initialDelayMs\<close> and \<open>maxDelayMs\<close> and never
  shrink.
\<close>

theorem retry_attempts_bounded:
  assumes "retry_options_error ro = None"
  shows "let calls = snd (runWithRetry ro shouldRetry env); delays = List.map_filter snd calls in
    map fst calls = [1..<Suc (length calls)] \<and> length calls \<le> max_attempts ro \<and>
    list_all (\<lambda>d. the_rat (ro_initialDelayMs ro) \<le> d \<and> d \<le> the_rat (ro_maxDelayMs ro)) delays \<and>
    sorted delays"
proof -
  let ?calls = "snd (runWithRetry ro shouldRetry env)"
  have calls: "map fst ?calls = [1..<Suc (length ?calls)]" "length ?calls \<le> max_attempts ro"
    using retry_calls [of 1 ro shouldRetry env] retry_options_valid(4) [OF assms]
    by (auto simp: runWithRetry_def split: prod.splits)
  have d: "(i, d) \<in> set ?calls \<Longrightarrow> d = None \<or> d = Some (retry_delay ro i)" for i d
    by (simp add: runWithRetry_def retry_call_delays)
  have eq: "List.map_filter snd ?calls = map (retry_delay ro) (map fst (filter (\<lambda>c. snd c \<noteq> None) ?calls))"
    using d by (rule map_filter_delays)
  have s: "sorted (map fst (filter (\<lambda>c. snd c \<noteq> None) ?calls))"
    using calls(1) by (metis sorted_filter sorted_upt)
  have "sorted (map (retry_delay ro) ns)" if "sorted ns" for ns
    using that by (simp add: sorted_map sorted_wrt_mono_rel [OF retry_delay_mono [OF assms]])
  with s have "sorted (List.map_filter snd ?calls)" by (simp only: eq)
  with calls show ?thesis
    by (auto simp: Let_def list_all_iff eq retry_delay_le retry_delay_ge_initial [OF assms])
qed


definition demo_retry_options :: retry_options where
  "demo_retry_options = \<lparr>ro_name = ''upload'', ro_maxAttempts = Fin 4, ro_initialDelayMs = Fin 100,
     ro_maxDelayMs = Fin 350, ro_backoffFactor = None\<rparr>"

definition demo_retry_env :: "nat \<Rightarrow> (nat, nat) attempt_env" where
  "demo_retry_env i = \<lparr>ae_abortedBefore = False,
     ae_outcome = (if i < 3 then Fails i else Succeeds 7), ae_abortedInDelay = False\<rparr>"

lemma demo_retry_options_ok: "retry_options_error demo_retry_options = None"
  by (simp add: demo_retry_options_def retry_options_error_def check_name_def check_delay_def blank_def
      is_integer_def the_rat_def backoffFactor_def)

lemma retry_attempts_bounded_witness:
  "let calls = snd (runWithRetry demo_retry_options (\<lambda>_ _. True) demo_retry_env); delays = List.map_filter snd calls in
    map fst calls = [1..<Suc (length calls)] \<and> length calls \<le> max_attempts demo_retry_options \<and>
    list_all (\<lambda>d. the_rat (ro_initialDelayMs demo_retry_options) \<le> d \<and> d \<le> the_rat (ro_maxDelayMs demo_retry_options)) delays \<and>
    sorted delays"
  by (rule retry_attempts_bounded [OF demo_retry_options_ok])

text \<open>
  Fact. When every attempt before the \<open>k\<close>-th fails with an error to be retried, nothing is
  aborted and the \<open>k\<close>-th attempt, within the limit, succeeds, the run returns its value after
  exactly the calls 1 to \<open>k\<close> with the backoff delay of each between them.
\<close>

theorem retry_returns_first_success:
  assumes "1 \<le> k" and "k \<le> max_attempts ro"
    and "list_all (retried shouldRetry env) [1..<k]"
    and "\<not> ae_abortedBefore (env k)" and "ae_outcome (env k) = Succeeds v"
  shows "runWithRetry ro shouldRetry env =
    (Returned v, map (\<lambda>i. (i, Some (retry_delay ro i))) [1..<k] @ [(k, None)])"
  using retry_success [of 1 ro k shouldRetry env v] assms
  by (simp add: runWithRetry_def list_all_iff prod_eq_iff del: upt_Suc)

lemma retry_returns_first_success_witness:
  "runWithRetry demo_retry_options (\<lambda>_ _. True) demo_retry_env =
    (Returned 7, [(1, Some 100), (2, Some 200), (3, None)])"
proof -
  have "runWithRetry demo_retry_options (\<lambda>_ _. True) demo_retry_env =
      (Returned 7, map (\<lambda>i. (i, Some (retry_delay demo_retry_options i))) [1..<3] @ [(3, None)])"
    by (rule retry_returns_first_success)
      (simp_all add: max_attempts_def demo_retry_options_def demo_retry_env_def the_rat_def retried_def upt_rec)
  then show ?thesis
    by (simp add: upt_rec retry_delay_def demo_retry_options_def the_rat_def backoffFactor_def MAX_VALUE_def)
qed

end
