(* ===== verification/Js_Strings.thy ===== *)
theory Js_Strings
  imports Js_Prelude
begin

text \<open>
  JavaScript strings where their characters matter: a string is the list of its UTF-16 code
  units (\<^verbatim>\<open>length\<close>, indexing and \<^verbatim>\<open>===\<close> work on units), and \<^verbatim>\<open>for (const char of s)\<close> walks its
  code points, joining a high surrogate with the low one after it.
\<close>

type_synonym ustr = "nat list"

definition is_high :: "nat \<Rightarrow> bool" where "is_high u \<longleftrightarrow> 55296 \<le> u \<and> u \<le> 56319"
definition is_low :: "nat \<Rightarrow> bool" where "is_low u \<longleftrightarrow> 56320 \<le> u \<and> u \<le> 57343"

fun code_points :: "ustr \<Rightarrow> ustr list" where
  "code_points [] = []"
| "code_points [u] = [[u]]"
| "code_points (u # v # us) =
     (if is_high u \<and> is_low v then [u, v] # code_points us else [u] # code_points (v # us))"

text \<open>White space and line terminators: what \<^verbatim>\<open>\s\<close> matches and \<^verbatim>\<open>trim\<close> removes.\<close>

definition js_space :: "nat \<Rightarrow> bool" where
  "js_space u \<longleftrightarrow> (9 \<le> u \<and> u \<le> 13) \<or> (8192 \<le> u \<and> u \<le> 8202) \<or>
     u \<in> {32, 160, 5760, 8232, 8233, 8239, 8287, 12288, 65279}"

definition js_trim :: "ustr \<Rightarrow> ustr" where
  "js_trim s = rev (dropWhile js_space (rev (dropWhile js_space s)))"

definition newline :: nat where "newline = 10"

definition ascii :: "string \<Rightarrow> ustr" where "ascii s = map of_char s"

text \<open>\<^verbatim>\<open>s.split(c)\<close> for one character.\<close>

fun split_on :: "nat \<Rightarrow> ustr \<Rightarrow> ustr list" where
  "split_on c [] = [[]]"
| "split_on c (u # us) =
     (if u = c then [] # split_on c us
      else case split_on c us of [] \<Rightarrow> [[u]] | w # ws \<Rightarrow> (u # w) # ws)"

lemma split_on_nonempty [simp]: "split_on c s \<noteq> []"
  by (induction c s rule: split_on.induct) (auto split: list.splits)

lemma concat_code_points [simp]: "concat (code_points s) = s"
  by (induction s rule: code_points.induct) auto

lemma code_points_nonempty: "c \<in> set (code_points s) \<Longrightarrow> c \<noteq> []"
  by (induction s rule: code_points.induct) (auto split: if_splits)

lemma js_trim_Nil: "js_trim s = [] \<longleftrightarrow> (\<forall>u \<in> set s. js_space u)"
proof (cases "dropWhile js_space s")
  case Nil
  then have "\<forall>u \<in> set s. js_space u" by (simp only: dropWhile_eq_Nil_conv)
  with Nil show ?thesis by (auto simp: js_trim_def dest: set_dropWhileD)
next
  case (Cons u us)
  then have "\<not> js_space u" using hd_dropWhile [of js_space s] by simp
  moreover from Cons have "u \<in> set s" by (metis list.set_intros(1) set_dropWhileD)
  ultimately show ?thesis using Cons by (auto simp: js_trim_def)
qed


lemma dropWhile_hd: "xs = [] \<or> \<not> P (hd xs) \<Longrightarrow> dropWhile P xs = xs"
  by (cases xs) auto

lemma js_trim_idem [simp]: "js_trim (js_trim s) = js_trim s"
proof -
  define t where "t = dropWhile js_space s"
  define r where "r = dropWhile js_space (rev t)"
  have trim: "js_trim s = rev r" by (simp add: js_trim_def t_def r_def)
  have "rev r = [] \<or> \<not> js_space (hd (rev r))"
  proof (cases "r = []")
    case False
    obtain us where us: "rev t = us @ r" unfolding r_def by (metis takeWhile_dropWhile_id)
    then have t: "t = rev r @ rev us" by (metis rev_append rev_rev_ident)
    with False have "hd t = hd (rev r)" by simp
    moreover have "t \<noteq> []" using t False by simp
    then have "\<not> js_space (hd t)" unfolding t_def by (rule hd_dropWhile)
    ultimately show ?thesis by simp
  qed simp
  then have 1: "dropWhile js_space (rev r) = rev r" by (rule dropWhile_hd)
  have "r = [] \<or> \<not> js_space (hd r)" unfolding r_def using hd_dropWhile by blast
  then have "dropWhile js_space r = r" by (rule dropWhile_hd)
  with 1 trim show ?thesis by (simp add: js_trim_def)
qed

end
