(* ===== verification/Background_Work.thy ===== *)
theory Background_Work
  imports Js_Strings
begin

text \<open>
  The registry of background work and the wakeup queue it keeps for the conversations:
  \<^verbatim>\<open>lib/agent-exec/background-work-registry.ts\<close> and \<^verbatim>\<open>mergeWakeup\<close> of
  \<^verbatim>\<open>lib/agent-exec/wakeup/index.ts\<close>.

  The queue is a state record and a step for each method. A wakeup is pending, then (once it is
  pulled) in flight, then acknowledged or put back; the accepted keys, a string of the
  conversation, a NUL and the id, are what refuses a second copy meanwhile. Ids and
  conversations are strings of code units because the code trims them and splits them by
  prefix. The copies the code makes with \<^verbatim>\<open>{ ...wakeup }\<close> are the wakeups themselves.
  An abort callback is a log entry of the record whose callback is called.
\<close>

subsection \<open>Wakeups\<close>

record 'p wakeup =
  lw_conversationId :: ustr
  lw_id :: ustr
  lw_groupKey :: "ustr option"
  lw_payload :: 'p
  lw_source :: "ustr option"

definition same_wakeup :: "'p wakeup \<Rightarrow> 'p wakeup \<Rightarrow> bool" where
  "same_wakeup a b \<longleftrightarrow> lw_conversationId a = lw_conversationId b \<and> lw_id a = lw_id b"

definition same_group :: "'p wakeup \<Rightarrow> 'p wakeup \<Rightarrow> bool" where
  "same_group a b \<longleftrightarrow> lw_conversationId a = lw_conversationId b \<and> lw_groupKey a = lw_groupKey b"

definition mergeWakeup :: "'p wakeup list \<Rightarrow> 'p wakeup \<Rightarrow> 'p wakeup list \<times> 'p wakeup option" where
  "mergeWakeup queue incoming =
     (if list_ex (\<lambda>w. same_wakeup w incoming) queue then (queue, None)
      else if lw_groupKey incoming = None then (queue @ [incoming], None)
      else case findIndex (\<lambda>w. same_group w incoming) queue of
             None \<Rightarrow> (queue @ [incoming], None)
           | Some i \<Rightarrow> (queue[i := incoming], Some (queue ! i)))"

subsection \<open>The queue\<close>

record 'p wakeup_queue =
  wq_pending :: "'p wakeup list"
  wq_inFlight :: "(ustr, 'p wakeup) js_map"
  wq_accepted :: "ustr list"
  wq_suppressed :: "(ustr, ustr list) js_map"
  wq_revision :: nat

definition new_wakeup_queue :: "'p wakeup_queue" where
  "new_wakeup_queue = \<lparr>wq_pending = [], wq_inFlight = [], wq_accepted = [], wq_suppressed = [], wq_revision = 0\<rparr>"

definition acceptedKey :: "ustr \<Rightarrow> ustr \<Rightarrow> ustr" where
  "acceptedKey conversationId i = conversationId @ [0] @ i"

definition wakeup_key :: "'p wakeup \<Rightarrow> ustr" where
  "wakeup_key w = acceptedKey (lw_conversationId w) (lw_id w)"

definition is_suppressed :: "'p wakeup_queue \<Rightarrow> ustr \<Rightarrow> ustr \<Rightarrow> bool" where
  "is_suppressed s conversationId i =
     (case jm_get (wq_suppressed s) conversationId of None \<Rightarrow> False | Some ids \<Rightarrow> i \<in> set ids)"

definition drop_replaced :: "ustr list \<Rightarrow> 'p wakeup option \<Rightarrow> ustr list" where
  "drop_replaced accepted replaced =
     (case replaced of None \<Rightarrow> accepted | Some w \<Rightarrow> set_remove accepted (wakeup_key w))"

definition enqueue :: "'p wakeup \<Rightarrow> 'p wakeup_queue \<Rightarrow> 'p wakeup_queue" where
  "enqueue w s =
     (let i = js_trim (lw_id w); key = acceptedKey (lw_conversationId w) i
      in if i = [] \<or> key \<in> set (wq_accepted s) then s
         else if is_suppressed s (lw_conversationId w) i then s
         else let (queue, replaced) = mergeWakeup (wq_pending s) (w\<lparr>lw_id := i\<rparr>)
              in s\<lparr>wq_accepted := drop_replaced (set_add (wq_accepted s) key) replaced,
                   wq_pending := queue, wq_revision := Suc (wq_revision s)\<rparr>)"

text \<open>The loop of \<^verbatim>\<open>pull\<close>: what is pulled, what stays, how many are dropped.\<close>

fun pull_loop ::
  "(ustr \<Rightarrow> bool) \<Rightarrow> ustr \<Rightarrow> 'p wakeup list \<Rightarrow> (ustr, 'p wakeup) js_map \<Rightarrow> ustr list
     \<Rightarrow> 'p wakeup list \<times> 'p wakeup list \<times> nat \<times> (ustr, 'p wakeup) js_map \<times> ustr list" where
  "pull_loop suppressed conversationId [] inFlight accepted = ([], [], 0, inFlight, accepted)"
| "pull_loop suppressed conversationId (w # ws) inFlight accepted =
     (if lw_conversationId w \<noteq> conversationId then
        (let (pulled, rest, dropped, inF, acc) = pull_loop suppressed conversationId ws inFlight accepted
         in (pulled, w # rest, dropped, inF, acc))
      else if suppressed (lw_id w) then
        (let (pulled, rest, dropped, inF, acc) =
           pull_loop suppressed conversationId ws inFlight (set_remove accepted (acceptedKey conversationId (lw_id w)))
         in (pulled, rest, Suc dropped, inF, acc))
      else
        (let (pulled, rest, dropped, inF, acc) =
           pull_loop suppressed conversationId ws (jm_set inFlight (lw_id w) w) accepted
         in (w # pulled, rest, dropped, inF, acc)))"

definition pull :: "ustr \<Rightarrow> 'p wakeup_queue \<Rightarrow> 'p wakeup list \<times> 'p wakeup_queue" where
  "pull conversationId s =
     (let (pulled, rest, dropped, inF, acc) =
        pull_loop (is_suppressed s conversationId) conversationId (wq_pending s) (wq_inFlight s) (wq_accepted s);
          s1 = s\<lparr>wq_inFlight := inF, wq_accepted := acc\<rparr>
      in (pulled, if pulled \<noteq> [] \<or> 0 < dropped
                  then s1\<lparr>wq_pending := rest, wq_revision := Suc (wq_revision s)\<rparr> else s1))"

fun pull_each :: "ustr list \<Rightarrow> 'p wakeup_queue \<Rightarrow> 'p wakeup list \<times> 'p wakeup_queue" where
  "pull_each [] s = ([], s)"
| "pull_each (c # cs) s =
     (let (ws, s1) = pull c s; (ws', s2) = pull_each cs s1 in (ws @ ws', s2))"

definition pullAll :: "'p wakeup_queue \<Rightarrow> 'p wakeup list \<times> 'p wakeup_queue" where
  "pullAll s = pull_each (unique (map lw_conversationId (wq_pending s))) s"

fun ack :: "ustr list \<Rightarrow> 'p wakeup_queue \<Rightarrow> 'p wakeup list \<times> 'p wakeup_queue" where
  "ack [] s = ([], s)"
| "ack (i # is) s =
     (let n = js_trim i;
          s1 = s\<lparr>wq_inFlight := jm_delete (wq_inFlight s) n\<rparr>
      in case jm_get (wq_inFlight s) n of
           None \<Rightarrow> ack is s1
         | Some w \<Rightarrow>
             let (acked, s2) = ack is (s1\<lparr>wq_accepted := set_remove (wq_accepted s) (acceptedKey (lw_conversationId w) n)\<rparr>)
             in (w # acked, s2))"

text \<open>Putting pending wakeups behind requeued ones, one by one.\<close>

definition requeue_one :: "'p wakeup list \<times> ustr list \<Rightarrow> 'p wakeup \<Rightarrow> 'p wakeup list \<times> ustr list" where
  "requeue_one qa w =
     (let (queue, replaced) = mergeWakeup (fst qa) w in (queue, drop_replaced (snd qa) replaced))"

definition nack :: "ustr list \<Rightarrow> bool \<Rightarrow> 'p wakeup_queue \<Rightarrow> 'p wakeup_queue" where
  "nack ids requeue s =
     (let requested = js_trim ` set ids;
          selected = map snd (filter (\<lambda>(i, _). i \<in> requested) (wq_inFlight s));
          s1 = s\<lparr>wq_inFlight := filter (\<lambda>(i, _). i \<notin> requested) (wq_inFlight s)\<rparr>
      in if \<not> requeue then s1\<lparr>wq_accepted := foldl (\<lambda>acc w. set_remove acc (wakeup_key w)) (wq_accepted s) selected\<rparr>
         else if selected = [] then s1
         else let (queue, accepted) = foldl requeue_one (selected, wq_accepted s) (wq_pending s)
              in s1\<lparr>wq_pending := queue, wq_accepted := accepted, wq_revision := Suc (wq_revision s)\<rparr>)"

definition suppress :: "ustr \<Rightarrow> ustr \<Rightarrow> 'p wakeup_queue \<Rightarrow> 'p wakeup_queue" where
  "suppress conversationId i s =
     (let n = js_trim i
      in if n = [] then s
         else
           let ids = (case jm_get (wq_suppressed s) conversationId of None \<Rightarrow> [] | Some ids \<Rightarrow> ids);
               rest = filter (\<lambda>w. lw_conversationId w \<noteq> conversationId \<or> lw_id w \<noteq> n) (wq_pending s);
               s1 = s\<lparr>wq_suppressed := jm_set (wq_suppressed s) conversationId (set_add ids n), wq_pending := rest\<rparr>;
               changed1 = (length rest \<noteq> length (wq_pending s));
               s2 = (if changed1 then s1\<lparr>wq_accepted := set_remove (wq_accepted s1) (acceptedKey conversationId n)\<rparr> else s1);
               changed2 = (case jm_get (wq_inFlight s) n of None \<Rightarrow> False | Some w \<Rightarrow> lw_conversationId w = conversationId);
               s3 = (if changed2
                     then s2\<lparr>wq_inFlight := jm_delete (wq_inFlight s2) n,
                             wq_accepted := set_remove (wq_accepted s2) (acceptedKey conversationId n)\<rparr> else s2)
           in if changed1 \<or> changed2 then s3\<lparr>wq_revision := Suc (wq_revision s)\<rparr> else s3)"

definition unsuppress :: "ustr \<Rightarrow> ustr \<Rightarrow> 'p wakeup_queue \<Rightarrow> 'p wakeup_queue" where
  "unsuppress conversationId i s =
     (case jm_get (wq_suppressed s) conversationId of None \<Rightarrow> s
      | Some ids \<Rightarrow>
          if js_trim i \<notin> set ids then s
          else let left = set_remove ids (js_trim i)
               in s\<lparr>wq_suppressed := (if left = [] then jm_delete (wq_suppressed s) conversationId
                                      else jm_set (wq_suppressed s) conversationId left)\<rparr>)"

definition unsuppressId :: "ustr \<Rightarrow> 'p wakeup_queue \<Rightarrow> 'p wakeup_queue" where
  "unsuppressId i s = foldl (\<lambda>s c. unsuppress c (js_trim i) s) s (map fst (wq_suppressed s))"

definition clear :: "ustr \<Rightarrow> 'p wakeup_queue \<Rightarrow> 'p wakeup_queue" where
  "clear conversationId s =
     (let rest = filter (\<lambda>w. lw_conversationId w \<noteq> conversationId) (wq_pending s);
          inF = filter (\<lambda>(_, w). lw_conversationId w \<noteq> conversationId) (wq_inFlight s);
          keyPrefix = acceptedKey conversationId [];
          acc = filter (\<lambda>key. \<not> prefix keyPrefix key) (wq_accepted s);
          changed = (length rest \<noteq> length (wq_pending s) \<or> length inF \<noteq> length (wq_inFlight s) \<or>
                     length acc \<noteq> length (wq_accepted s));
          hadSuppressed = (jm_get (wq_suppressed s) conversationId \<noteq> None);
          s1 = s\<lparr>wq_pending := rest, wq_inFlight := inF, wq_accepted := acc,
                 wq_suppressed := jm_delete (wq_suppressed s) conversationId\<rparr>
      in if changed \<or> hadSuppressed then s1\<lparr>wq_revision := Suc (wq_revision s)\<rparr> else s1)"

definition hasPending :: "ustr option \<Rightarrow> 'p wakeup_queue \<Rightarrow> bool" where
  "hasPending conversationId s =
     (case conversationId of None \<Rightarrow> 0 < length (wq_pending s)
      | Some c \<Rightarrow> list_ex (\<lambda>w. lw_conversationId w = c) (wq_pending s))"

definition hasPendingMatching :: "ustr \<Rightarrow> ('p \<Rightarrow> bool) \<Rightarrow> 'p wakeup_queue \<Rightarrow> bool" where
  "hasPendingMatching conversationId P s =
     list_ex (\<lambda>w. lw_conversationId w = conversationId \<and> P (lw_payload w)) (wq_pending s)"

definition getPendingCount :: "'p wakeup_queue \<Rightarrow> nat" where
  "getPendingCount s = length (wq_pending s)"

definition getRevision :: "'p wakeup_queue \<Rightarrow> nat" where
  "getRevision s = wq_revision s"

datatype 'p queue_event =
    Enqueue "'p wakeup" | Pull ustr | PullAll | Ack "ustr list" | Nack "ustr list" bool
  | Suppress ustr ustr | Unsuppress ustr ustr | UnsuppressId ustr | Clear ustr

fun queue_step :: "'p wakeup_queue \<Rightarrow> 'p queue_event \<Rightarrow> 'p wakeup_queue" where
  "queue_step s (Enqueue w) = enqueue w s"
| "queue_step s (Pull c) = snd (pull c s)"
| "queue_step s PullAll = snd (pullAll s)"
| "queue_step s (Ack ids) = snd (ack ids s)"
| "queue_step s (Nack ids requeue) = nack ids requeue s"
| "queue_step s (Suppress c i) = suppress c i s"
| "queue_step s (Unsuppress c i) = unsuppress c i s"
| "queue_step s (UnsuppressId i) = unsuppressId i s"
| "queue_step s (Clear c) = clear c s"


subsection \<open>The registry\<close>

record 'm work =
  wr_id :: ustr
  wr_kind :: string
  wr_state :: string
  wr_ownerId :: "string option"
  wr_hasAbort :: bool
  wr_metadata :: 'm

record work_filter =
  wf_kind :: "string option"
  wf_state :: "string option"
  wf_ownerId :: "string option"

text \<open>\<^verbatim>\<open>filter.kind && ...\<close>: an absent or an empty string does not filter.\<close>

definition truthy :: "string option \<Rightarrow> bool" where
  "truthy s \<longleftrightarrow> s \<noteq> None \<and> s \<noteq> Some ''''"

definition matchesFilter :: "'m work \<Rightarrow> work_filter option \<Rightarrow> bool" where
  "matchesFilter r filt =
     (case filt of None \<Rightarrow> True
      | Some f \<Rightarrow>
          if truthy (wf_kind f) \<and> Some (wr_kind r) \<noteq> wf_kind f then False
          else if truthy (wf_state f) \<and> Some (wr_state r) \<noteq> wf_state f then False
          else if truthy (wf_ownerId f) \<and> wr_ownerId r \<noteq> wf_ownerId f then False
          else True)"

record ('m, 'p) registry =
  bw_records :: "(ustr, 'm work) js_map"
  bw_wakeups :: "'p wakeup_queue"
  bw_aborted :: "ustr list"

definition new_registry :: "('m, 'p) registry" where
  "new_registry = \<lparr>bw_records = [], bw_wakeups = new_wakeup_queue, bw_aborted = []\<rparr>"

definition upsertWork :: "'m work \<Rightarrow> ('m, 'p) registry \<Rightarrow> ('m, 'p) registry" where
  "upsertWork r s = s\<lparr>bw_records := jm_set (bw_records s) (wr_id r) r\<rparr>"

definition clearWork :: "ustr \<Rightarrow> ('m, 'p) registry \<Rightarrow> bool \<times> ('m, 'p) registry" where
  "clearWork i s =
     (jm_get (bw_records s) i \<noteq> None,
      s\<lparr>bw_records := jm_delete (bw_records s) i, bw_wakeups := unsuppressId i (bw_wakeups s)\<rparr>)"

definition call_abort :: "'m work \<Rightarrow> ('m, 'p) registry \<Rightarrow> ('m, 'p) registry" where
  "call_abort r s = (if wr_hasAbort r then s\<lparr>bw_aborted := bw_aborted s @ [wr_id r]\<rparr> else s)"

definition abortWork :: "ustr \<Rightarrow> ('m, 'p) registry \<Rightarrow> bool \<times> ('m, 'p) registry" where
  "abortWork i s =
     (case jm_get (bw_records s) i of None \<Rightarrow> (False, s)
      | Some r \<Rightarrow>
          let s1 = call_abort r s
          in (True, s1\<lparr>bw_records := jm_delete (bw_records s1) i, bw_wakeups := unsuppressId i (bw_wakeups s1)\<rparr>))"

definition hasRunningWork :: "work_filter option \<Rightarrow> ('m, 'p) registry \<Rightarrow> bool" where
  "hasRunningWork filt s =
     list_ex (\<lambda>(_, r). wr_state r = ''running'' \<and> matchesFilter r filt) (bw_records s)"

fun abort_loop :: "work_filter option \<Rightarrow> 'm work list \<Rightarrow> ('m, 'p) registry \<Rightarrow> nat \<times> ('m, 'p) registry" where
  "abort_loop filt [] s = (0, s)"
| "abort_loop filt (r # rs) s =
     (if \<not> matchesFilter r filt then abort_loop filt rs s
      else let s1 = call_abort r s;
               s2 = s1\<lparr>bw_records := jm_delete (bw_records s1) (wr_id r),
                       bw_wakeups := unsuppressId (wr_id r) (bw_wakeups s1)\<rparr>;
               (n, s3) = abort_loop filt rs s2
           in (Suc n, s3))"

definition abortAllWork :: "work_filter option \<Rightarrow> ('m, 'p) registry \<Rightarrow> nat \<times> ('m, 'p) registry" where
  "abortAllWork filt s = abort_loop filt (map snd (bw_records s)) s"

text \<open>A snapshot is the record: its \<^verbatim>\<open>hasAbort\<close> stands for the callback already.\<close>

definition listWork :: "work_filter option \<Rightarrow> ('m, 'p) registry \<Rightarrow> 'm work list" where
  "listWork filt s = filter (\<lambda>r. matchesFilter r filt) (map snd (bw_records s))"

definition LEGACY_LOCAL_WAKEUP_CONVERSATION_ID :: ustr where
  "LEGACY_LOCAL_WAKEUP_CONVERSATION_ID = map of_char ''local''"

text \<open>\<open>enqueueCompletion\<close> of an item with its task id, its kind and itself as the payload.\<close>

definition enqueueCompletion :: "ustr \<Rightarrow> ustr \<Rightarrow> 'p \<Rightarrow> ('m, 'p) registry \<Rightarrow> ('m, 'p) registry" where
  "enqueueCompletion taskId kind item s =
     s\<lparr>bw_wakeups := enqueue \<lparr>lw_conversationId = LEGACY_LOCAL_WAKEUP_CONVERSATION_ID, lw_id = taskId,
        lw_groupKey = None, lw_payload = item, lw_source = Some kind\<rparr> (bw_wakeups s)\<rparr>"

definition drainCompletions :: "('m, 'p) registry \<Rightarrow> 'p list \<times> ('m, 'p) registry" where
  "drainCompletions s =
     (let (ws, q1) = pullAll (bw_wakeups s); (_, q2) = ack (map lw_id ws) q1
      in (map lw_payload ws, s\<lparr>bw_wakeups := q2\<rparr>))"

definition hasPendingCompletions :: "ustr option \<Rightarrow> ('m, 'p) registry \<Rightarrow> bool" where
  "hasPendingCompletions c s = hasPending c (bw_wakeups s)"

definition markAwaitedCompletion :: "ustr \<Rightarrow> ('m, 'p) registry \<Rightarrow> ('m, 'p) registry" where
  "markAwaitedCompletion taskId s =
     s\<lparr>bw_wakeups := suppress LEGACY_LOCAL_WAKEUP_CONVERSATION_ID taskId (bw_wakeups s)\<rparr>"

definition getWakeupRevision :: "('m, 'p) registry \<Rightarrow> nat" where
  "getWakeupRevision s = getRevision (bw_wakeups s)"

subsection \<open>Merging\<close>

lemma acceptedKey_eq [simp]:
  "0 \<notin> set c \<Longrightarrow> 0 \<notin> set c' \<Longrightarrow> acceptedKey c i = acceptedKey c' i' \<longleftrightarrow> c = c' \<and> i = i'"
proof (induction c arbitrary: c')
  case Nil
  then show ?case by (cases c') (auto simp: acceptedKey_def)
next
  case (Cons u c)
  then show ?case by (cases c') (auto simp: acceptedKey_def)
qed

definition no_nul :: "'p wakeup \<Rightarrow> bool" where
  "no_nul w \<longleftrightarrow> 0 \<notin> set (lw_conversationId w)"

lemma wakeup_key_eq: "no_nul a \<Longrightarrow> no_nul b \<Longrightarrow> wakeup_key a = wakeup_key b \<longleftrightarrow> same_wakeup a b"
  by (simp add: no_nul_def wakeup_key_def same_wakeup_def)

lemma mergeWakeup_cases:
  assumes "mergeWakeup queue w = (q, r)"
  obtains (same) "\<exists>u \<in> set queue. same_wakeup u w" "q = queue" "r = None"
  | (append) "\<forall>u \<in> set queue. \<not> same_wakeup u w" "q = queue @ [w]" "r = None"
  | (replace) pre old post where "\<forall>u \<in> set queue. \<not> same_wakeup u w" "queue = pre @ old # post"
      "same_group old w" "q = pre @ w # post" "r = Some old" "lw_groupKey w \<noteq> None"
proof -
  show thesis
  proof (cases "\<exists>u \<in> set queue. same_wakeup u w")
    case True
    with assms have "q = queue" "r = None" by (simp_all add: mergeWakeup_def list_ex_iff)
    with True show thesis by (rule same)
  next
    case False
    then have no: "\<forall>u \<in> set queue. \<not> same_wakeup u w" by simp
    show thesis
    proof (cases "lw_groupKey w = None \<or> findIndex (\<lambda>u. same_group u w) queue = None")
      case True
      with assms no have "q = queue @ [w]" "r = None"
        by (auto simp: mergeWakeup_def list_ex_iff split: if_splits)
      with no show thesis by (rule append)
    next
      case False
      then obtain i where fi: "findIndex (\<lambda>u. same_group u w) queue = Some i" and g: "lw_groupKey w \<noteq> None" by auto
      from findIndex_Some [OF fi] have i: "i < length queue" "same_group (queue ! i) w" by auto
      from fi g no assms have q: "q = queue[i := w]" "r = Some (queue ! i)"
        by (auto simp: mergeWakeup_def list_ex_iff split: if_splits)
      show thesis
      proof (rule replace [OF no])
        show "queue = take i queue @ queue ! i # drop (Suc i) queue" using i by (simp add: id_take_nth_drop [symmetric])
        show "q = take i queue @ w # drop (Suc i) queue" using i q by (simp add: upd_conv_take_nth_drop)
      qed (use i q g in auto)
    qed
  qed
qed

lemma fresh_key:
  assumes "no_nul w" and "\<forall>u \<in> set queue. no_nul u" and "\<forall>u \<in> set queue. \<not> same_wakeup u w"
  shows "wakeup_key w \<notin> wakeup_key ` set queue"
proof
  assume "wakeup_key w \<in> wakeup_key ` set queue"
  then obtain u where u: "u \<in> set queue" "wakeup_key u = wakeup_key w" by auto
  with assms(1,2) have "same_wakeup u w" by (simp add: wakeup_key_eq)
  with u assms(3) show False by blast
qed

text \<open>Distinct keys, each of them accepted: what the merges keep.\<close>

definition keys_ok :: "'p wakeup list \<Rightarrow> ustr list \<Rightarrow> bool" where
  "keys_ok ws accepted \<longleftrightarrow> distinct (map wakeup_key ws) \<and> (\<forall>w \<in> set ws. no_nul w \<and> wakeup_key w \<in> set accepted)"

lemma merge_keys:
  assumes ok: "keys_ok queue accepted" and w: "no_nul w" "wakeup_key w \<in> set accepted"
    and m: "mergeWakeup queue w = (q, r)"
  shows "keys_ok q (drop_replaced accepted r)"
    and "set q \<subseteq> insert w (set queue)"
    and "set (drop_replaced accepted r) \<subseteq> set accepted"
    and "set accepted \<subseteq> set (drop_replaced accepted r) \<union> wakeup_key ` set queue"
    and "wakeup_key w \<in> wakeup_key ` set q"
    and "wakeup_key ` set q = insert (wakeup_key w) (wakeup_key ` set queue) - (case r of None \<Rightarrow> {} | Some old \<Rightarrow> {wakeup_key old})"
proof -
  have d: "distinct (map wakeup_key queue)" and nn: "\<forall>u \<in> set queue. no_nul u \<and> wakeup_key u \<in> set accepted"
    using ok by (auto simp: keys_ok_def)
  have goal: "keys_ok q (drop_replaced accepted r) \<and> set q \<subseteq> insert w (set queue) \<and>
      set (drop_replaced accepted r) \<subseteq> set accepted \<and>
      set accepted \<subseteq> set (drop_replaced accepted r) \<union> wakeup_key ` set queue \<and> wakeup_key w \<in> wakeup_key ` set q \<and>
      wakeup_key ` set q = insert (wakeup_key w) (wakeup_key ` set queue) - (case r of None \<Rightarrow> {} | Some old \<Rightarrow> {wakeup_key old})"
    using m
  proof (cases rule: mergeWakeup_cases)
    case same
    then obtain u where u: "u \<in> set queue" "same_wakeup u w" by blast
    with nn w have "wakeup_key u = wakeup_key w" by (simp add: wakeup_key_eq)
    with imageI [OF u(1), of wakeup_key] have "wakeup_key w \<in> wakeup_key ` set queue" by simp
    with same ok show ?thesis by (auto simp: drop_replaced_def insert_absorb)
  next
    case append
    then have "wakeup_key w \<notin> wakeup_key ` set queue" using nn w by (intro fresh_key) auto
    with append d nn w show ?thesis by (auto simp: drop_replaced_def keys_ok_def)
  next
    case (replace pre old post)
    then have fresh: "wakeup_key w \<notin> wakeup_key ` set queue" using nn w by (intro fresh_key) auto
    have other: "\<forall>u \<in> set pre \<union> set post. wakeup_key u \<noteq> wakeup_key old \<and> wakeup_key u \<noteq> wakeup_key w"
      using d fresh replace(2) by (auto simp del: image_Un intro: rev_image_eqI)
    have "wakeup_key w \<noteq> wakeup_key old" using fresh replace(2) by auto
    moreover have "distinct (map wakeup_key q)" using d other replace by (auto simp: image_iff)
    ultimately show ?thesis using other replace nn w by (auto simp: drop_replaced_def keys_ok_def)
  qed
  then show "keys_ok q (drop_replaced accepted r)"
    and "set q \<subseteq> insert w (set queue)"
    and "set (drop_replaced accepted r) \<subseteq> set accepted"
    and "set accepted \<subseteq> set (drop_replaced accepted r) \<union> wakeup_key ` set queue"
    and "wakeup_key w \<in> wakeup_key ` set q"
    and "wakeup_key ` set q = insert (wakeup_key w) (wakeup_key ` set queue) - (case r of None \<Rightarrow> {} | Some old \<Rightarrow> {wakeup_key old})"
    by blast+
qed


lemma keys_ok_append:
  "keys_ok (ws @ vs) acc \<longleftrightarrow> keys_ok ws acc \<and> keys_ok vs acc \<and> wakeup_key ` set ws \<inter> wakeup_key ` set vs = {}"
  by (auto simp: keys_ok_def)

lemma keys_ok_Cons:
  "keys_ok (w # ws) acc \<longleftrightarrow>
   no_nul w \<and> wakeup_key w \<in> set acc \<and> wakeup_key w \<notin> wakeup_key ` set ws \<and> keys_ok ws acc"
  by (auto simp: keys_ok_def)

lemma keys_ok_Nil [simp]: "keys_ok [] acc"
  by (simp add: keys_ok_def)

lemma keys_ok_mset: "mset ws = mset vs \<Longrightarrow> keys_ok ws acc \<Longrightarrow> keys_ok vs acc"
  unfolding keys_ok_def by (metis mset_eq_imp_distinct_iff mset_map set_mset_mset)

lemma keys_ok_sub: "mset vs \<subseteq># mset ws \<Longrightarrow> keys_ok ws acc \<Longrightarrow> keys_ok vs acc"
proof -
  assume "mset vs \<subseteq># mset ws" and ok: "keys_ok ws acc"
  then obtain C where "mset ws = mset vs + C" by (auto simp: mset_subset_eq_exists_conv)
  moreover obtain us where "mset us = C" using ex_mset by blast
  ultimately have "mset ws = mset (vs @ us)" by simp
  from keys_ok_mset [OF this ok] show ?thesis by (simp add: keys_ok_append)
qed

lemma keys_ok_mono: "set acc \<subseteq> set acc' \<Longrightarrow> keys_ok ws acc \<Longrightarrow> keys_ok ws acc'"
  by (auto simp: keys_ok_def)

lemma keys_ok_remove: "keys_ok ws acc \<Longrightarrow> k \<notin> wakeup_key ` set ws \<Longrightarrow> keys_ok ws (set_remove acc k)"
  by (auto simp: keys_ok_def)

lemma disjoint_below: "A \<subseteq> insert k B \<Longrightarrow> k \<notin> C \<Longrightarrow> B \<inter> C = {} \<Longrightarrow> A \<inter> C = {}"
  by blast

lemma merge_keys_beside:
  assumes ok: "keys_ok (w # queue @ vs) acc" and m: "mergeWakeup queue w = (q, r)"
  shows "keys_ok (q @ vs) (drop_replaced acc r)"
proof -
  from ok have parts: "no_nul w" "wakeup_key w \<in> set acc" "wakeup_key w \<notin> wakeup_key ` set vs"
    "keys_ok queue acc" "keys_ok vs acc" "wakeup_key ` set queue \<inter> wakeup_key ` set vs = {}"
    by (auto simp: keys_ok_Cons keys_ok_append)
  note k = merge_keys [OF parts(4,1,2) m]
  have "wakeup_key ` set q \<subseteq> insert (wakeup_key w) (wakeup_key ` set queue)" unfolding k(6) by (rule Diff_subset)
  then have disj: "wakeup_key ` set q \<inter> wakeup_key ` set vs = {}" by (rule disjoint_below) (rule parts(3) parts(6))+
  have "wakeup_key v \<in> set (drop_replaced acc r)" if v: "v \<in> set vs" for v
  proof -
    from v parts(5) have "wakeup_key v \<in> set acc" by (simp add: keys_ok_def)
    moreover have "wakeup_key v \<notin> wakeup_key ` set queue" using parts(6) imageI [OF v, of wakeup_key] by auto
    ultimately show ?thesis using k(4) by auto
  qed
  with parts(5) have "keys_ok vs (drop_replaced acc r)" by (simp add: keys_ok_def)
  with k(1) disj show ?thesis by (simp add: keys_ok_append)
qed

lemma requeue_keys:
  "keys_ok (fst qa @ ws @ vs) (snd qa) \<Longrightarrow>
   (let (q, acc) = foldl requeue_one qa ws in keys_ok (q @ vs) acc)"
proof (induction ws arbitrary: qa)
  case Nil
  then show ?case by (simp add: case_prod_beta)
next
  case (Cons w ws)
  obtain q r where m: "mergeWakeup (fst qa) w = (q, r)" by fastforce
  have "keys_ok (w # fst qa @ ws @ vs) (snd qa)"
    by (rule keys_ok_mset [OF _ Cons.prems]) simp
  from merge_keys_beside [OF this m] have "keys_ok (q @ ws @ vs) (drop_replaced (snd qa) r)" by simp
  with Cons.IH [of "(q, drop_replaced (snd qa) r)"] show ?case by (simp add: requeue_one_def m)
qed

lemma requeue_items: "set (fst (foldl requeue_one qa ws)) \<subseteq> set (fst qa) \<union> set ws"
proof (induction ws arbitrary: qa)
  case (Cons w ws)
  obtain q r where m: "mergeWakeup (fst qa) w = (q, r)" by fastforce
  have "set q \<subseteq> insert w (set (fst qa))" using m by (cases rule: mergeWakeup_cases) auto
  with Cons [of "(q, drop_replaced (snd qa) r)"] show ?case by (auto simp: requeue_one_def m)
qed simp

subsection \<open>The invariant\<close>

definition tracked :: "'p wakeup_queue \<Rightarrow> 'p wakeup list" where
  "tracked s = wq_pending s @ map snd (wq_inFlight s)"

definition item_ok :: "'p wakeup_queue \<Rightarrow> 'p wakeup \<Rightarrow> bool" where
  "item_ok s w \<longleftrightarrow> js_trim (lw_id w) = lw_id w \<and> lw_id w \<noteq> [] \<and> \<not> is_suppressed s (lw_conversationId w) (lw_id w)"

definition queue_ok :: "'p wakeup_queue \<Rightarrow> bool" where
  "queue_ok s \<longleftrightarrow> keys_ok (tracked s) (wq_accepted s) \<and> (\<forall>w \<in> set (tracked s). item_ok s w) \<and>
     jm_wf (wq_inFlight s) \<and> (\<forall>(i, w) \<in> set (wq_inFlight s). lw_id w = i) \<and> jm_wf (wq_suppressed s)"

fun allowed :: "'p queue_event \<Rightarrow> bool" where
  "allowed (Enqueue w) = no_nul w"
| "allowed (Suppress c i) = (0 \<notin> set c)"
| "allowed (Clear c) = (0 \<notin> set c)"
| "allowed _ = True"

lemma is_suppressed_cong [simp]:
  "is_suppressed (s\<lparr>wq_pending := p\<rparr>) = is_suppressed s"
  "is_suppressed (s\<lparr>wq_inFlight := f\<rparr>) = is_suppressed s"
  "is_suppressed (s\<lparr>wq_accepted := a\<rparr>) = is_suppressed s"
  "is_suppressed (s\<lparr>wq_revision := n\<rparr>) = is_suppressed s"
  by (simp_all add: is_suppressed_def fun_eq_iff)

lemma item_ok_cong [simp]:
  "item_ok (s\<lparr>wq_pending := p\<rparr>) = item_ok s"
  "item_ok (s\<lparr>wq_inFlight := f\<rparr>) = item_ok s"
  "item_ok (s\<lparr>wq_accepted := a\<rparr>) = item_ok s"
  "item_ok (s\<lparr>wq_revision := n\<rparr>) = item_ok s"
  by (simp_all add: item_ok_def fun_eq_iff)

lemma queue_ok_revision [simp]: "queue_ok (s\<lparr>wq_revision := n\<rparr>) = queue_ok s"
  by (simp add: queue_ok_def tracked_def)

lemma new_queue_ok: "queue_ok new_wakeup_queue"
  by (simp add: queue_ok_def new_wakeup_queue_def tracked_def)

lemma enqueue_ok [machine_inv]:
  assumes ok: "queue_ok s" and w: "no_nul w"
  shows "queue_ok (enqueue w s)"
proof -
  define i where "i = js_trim (lw_id w)"
  define v where "v = w\<lparr>lw_id := i\<rparr>"
  have v: "no_nul v" "lw_id v = i" "lw_conversationId v = lw_conversationId w" "wakeup_key v = acceptedKey (lw_conversationId w) i"
    using w by (simp_all add: v_def no_nul_def wakeup_key_def)
  show ?thesis
  proof (cases "i = [] \<or> wakeup_key v \<in> set (wq_accepted s) \<or> is_suppressed s (lw_conversationId w) i")
    case True
    with ok v show ?thesis by (auto simp: enqueue_def Let_def i_def [symmetric])
  next
    case False
    obtain q r where m: "mergeWakeup (wq_pending s) v = (q, r)" by fastforce
    let ?acc = "set_add (wq_accepted s) (wakeup_key v)"
    have "keys_ok (tracked s) ?acc" by (rule keys_ok_mono [of "wq_accepted s"]) (use ok in \<open>auto simp: queue_ok_def\<close>)
    moreover have "wakeup_key v \<notin> wakeup_key ` set (tracked s)" using ok False by (auto simp: queue_ok_def keys_ok_def)
    ultimately have "keys_ok (v # wq_pending s @ map snd (wq_inFlight s)) ?acc"
      using v(1) by (simp add: keys_ok_Cons tracked_def)
    from merge_keys_beside [OF this m]
    have k: "keys_ok (q @ map snd (wq_inFlight s)) (drop_replaced ?acc r)" .
    have q: "set q \<subseteq> insert v (set (wq_pending s))" using m by (cases rule: mergeWakeup_cases) auto
    have "item_ok s v" using v False by (simp add: item_ok_def i_def)
    with q ok have "\<forall>u \<in> set (q @ map snd (wq_inFlight s)). item_ok s u" by (auto simp: queue_ok_def tracked_def)
    with k ok False m v show ?thesis
      by (auto simp: enqueue_def Let_def i_def [symmetric] v_def [symmetric] queue_ok_def tracked_def)
  qed
qed

lemma partition_mset: "mset (filter P xs @ filter (\<lambda>x. \<not> P x) xs) = mset xs"
  by (induction xs) auto

lemma inFlight_split:
  "mset (map snd (filter P m) @ map snd (filter (\<lambda>p. \<not> P p) m)) = mset (map snd m)"
  by (induction m) auto

lemma remove_keys:
  "keys_ok (ws @ vs) acc \<Longrightarrow> keys_ok vs (foldl (\<lambda>acc w. set_remove acc (wakeup_key w)) acc ws)"
proof (induction ws arbitrary: acc)
  case Nil
  then show ?case by simp
next
  case (Cons w ws)
  then have "keys_ok (ws @ vs) (set_remove acc (wakeup_key w))"
    by (intro keys_ok_remove) (auto simp: keys_ok_Cons)
  with Cons.IH show ?case by simp
qed

text \<open>What a nack takes out of flight, and what it leaves.\<close>

definition nack_selected :: "ustr list \<Rightarrow> 'p wakeup_queue \<Rightarrow> 'p wakeup list" where
  "nack_selected ids s = map snd (filter (\<lambda>p. fst p \<in> js_trim ` set ids) (wq_inFlight s))"

definition nack_left :: "ustr list \<Rightarrow> 'p wakeup_queue \<Rightarrow> (ustr, 'p wakeup) js_map" where
  "nack_left ids s = filter (\<lambda>p. \<not> fst p \<in> js_trim ` set ids) (wq_inFlight s)"

lemma nack_eq:
  "nack ids requeue s =
     (let s1 = s\<lparr>wq_inFlight := nack_left ids s\<rparr>
      in if \<not> requeue then s1\<lparr>wq_accepted := foldl (\<lambda>acc w. set_remove acc (wakeup_key w)) (wq_accepted s) (nack_selected ids s)\<rparr>
         else if nack_selected ids s = [] then s1
         else let qa = foldl requeue_one (nack_selected ids s, wq_accepted s) (wq_pending s)
              in s1\<lparr>wq_pending := fst qa, wq_accepted := snd qa, wq_revision := Suc (wq_revision s)\<rparr>)"
  unfolding nack_def nack_left_def nack_selected_def Let_def case_prod_unfold by (rule refl)

lemma nack_mset: "mset (nack_selected ids s @ wq_pending s @ map snd (nack_left ids s)) = mset (tracked s)"
  using inFlight_split [of "\<lambda>p. fst p \<in> js_trim ` set ids" "wq_inFlight s"]
  by (simp add: tracked_def nack_selected_def nack_left_def ac_simps)

lemma nack_ok [machine_inv]:
  assumes ok: "queue_ok s"
  shows "queue_ok (nack ids requeue s)"
proof -
  let ?sel = "nack_selected ids s" and ?left = "nack_left ids s"
  note m = nack_mset [of ids s]
  have keys: "keys_ok (?sel @ wq_pending s @ map snd ?left) (wq_accepted s)"
    by (rule keys_ok_mset [OF m [symmetric]]) (use ok in \<open>simp add: queue_ok_def\<close>)
  have items: "\<forall>w \<in> set ?sel \<union> set (wq_pending s) \<union> set (map snd ?left). item_ok s w"
    using ok mset_eq_setD [OF m] by (auto simp: queue_ok_def)
  have left: "jm_wf ?left" "\<forall>(i, w) \<in> set ?left. lw_id w = i"
    using ok by (auto simp: queue_ok_def nack_left_def jm_wf_def distinct_map_filter)
  have supp: "jm_wf (wq_suppressed s)" using ok by (simp add: queue_ok_def)
  consider "\<not> requeue" | "requeue" "?sel = []" | "requeue" "?sel \<noteq> []" by blast
  then show ?thesis
  proof cases
    case 1
    with remove_keys [OF keys] items left supp show ?thesis
      unfolding nack_eq Let_def by (simp add: queue_ok_def tracked_def)
  next
    case 2
    with keys items left supp show ?thesis
      unfolding nack_eq Let_def by (simp add: queue_ok_def tracked_def)
  next
    case 3
    let ?qa = "foldl requeue_one (?sel, wq_accepted s) (wq_pending s)"
    have "keys_ok (fst ?qa @ map snd ?left) (snd ?qa)"
      using requeue_keys [of "(?sel, wq_accepted s)" "wq_pending s" "map snd ?left"] keys
      by (simp add: case_prod_unfold Let_def)
    moreover have "set (fst ?qa) \<subseteq> set ?sel \<union> set (wq_pending s)"
      using requeue_items [of "(?sel, wq_accepted s)" "wq_pending s"] by simp
    ultimately show ?thesis using 3 items left supp
      unfolding nack_eq Let_def by (simp add: queue_ok_def tracked_def) blast
  qed
qed

lemma jm_delete_entries: "set (jm_delete m k) \<subseteq> set m"
  by (auto simp: jm_delete_def)

lemma ack_step_mset:
  assumes ok: "queue_ok s" and g: "jm_get (wq_inFlight s) n = Some w"
  shows "mset (w # wq_pending s @ map snd (jm_delete (wq_inFlight s) n)) = mset (tracked s)" and "lw_id w = n"
proof -
  have mem: "(n, w) \<in> set (wq_inFlight s)" using g by (rule map_of_SomeD)
  with ok show "lw_id w = n" by (auto simp: queue_ok_def)
  have uniq: "filter (\<lambda>p. fst p = n) (wq_inFlight s) = [(n, w)]"
    using filter_unique_key [of fst "wq_inFlight s" "(n, w)"] mem ok by (simp add: queue_ok_def jm_wf_def)
  have del: "jm_delete (wq_inFlight s) n = filter (\<lambda>p. fst p \<noteq> n) (wq_inFlight s)"
    by (simp add: jm_delete_def case_prod_unfold)
  show "mset (w # wq_pending s @ map snd (jm_delete (wq_inFlight s) n)) = mset (tracked s)"
    using inFlight_split [of "\<lambda>p. fst p = n" "wq_inFlight s"] by (simp add: tracked_def uniq del ac_simps)
qed

lemma ack_step_ok:
  assumes ok: "queue_ok s" and g: "jm_get (wq_inFlight s) n = Some w"
  shows "queue_ok (s\<lparr>wq_inFlight := jm_delete (wq_inFlight s) n,
      wq_accepted := set_remove (wq_accepted s) (acceptedKey (lw_conversationId w) n)\<rparr>)"
proof -
  note m = ack_step_mset(1) [OF ok g] and n = ack_step_mset(2) [OF ok g]
  have "keys_ok (w # wq_pending s @ map snd (jm_delete (wq_inFlight s) n)) (wq_accepted s)"
    by (rule keys_ok_mset [OF m [symmetric]]) (use ok in \<open>simp add: queue_ok_def\<close>)
  then have "keys_ok (wq_pending s @ map snd (jm_delete (wq_inFlight s) n)) (set_remove (wq_accepted s) (wakeup_key w))"
    by (intro keys_ok_remove) (auto simp: keys_ok_Cons)
  moreover have "jm_wf (jm_delete (wq_inFlight s) n)" using ok by (simp add: queue_ok_def jm_wf_delete)
  ultimately show ?thesis
    using ok n jm_delete_entries [of "wq_inFlight s" n]
    by (auto simp: queue_ok_def tracked_def wakeup_key_def)
qed

lemma jm_delete_unset: "jm_get m k = None \<Longrightarrow> jm_delete m k = m"
  by (induction m) (auto simp: jm_delete_def split: if_splits)

lemma ack_ok [machine_inv]: "queue_ok s \<Longrightarrow> queue_ok (snd (ack ids s))"
proof (induction ids s rule: ack.induct)
  case (1 s)
  then show ?case by simp
next
  case (2 i "is" s)
  show ?case
  proof (cases "jm_get (wq_inFlight s) (js_trim i)")
    case None
    with "2.IH"(1) [OF refl refl None] "2.prems" show ?thesis by (simp add: Let_def jm_delete_unset)
  next
    case (Some w)
    from "2.IH"(2) [OF refl refl Some ack_step_ok [OF "2.prems" Some, simplified]] Some
    show ?thesis by (simp add: Let_def case_prod_unfold)
  qed
qed

lemma pull_loop_eq:
  "\<forall>w \<in> set ws. lw_conversationId w = c \<longrightarrow> \<not> blocked (lw_id w) \<Longrightarrow>
   pull_loop blocked c ws inF acc =
     (filter (\<lambda>w. lw_conversationId w = c) ws, filter (\<lambda>w. lw_conversationId w \<noteq> c) ws, 0,
      foldl (\<lambda>m w. jm_set m (lw_id w) w) inF (filter (\<lambda>w. lw_conversationId w = c) ws), acc)"
  by (induction ws arbitrary: inF) auto

definition pulled_into :: "(ustr, 'p wakeup) js_map \<Rightarrow> 'p wakeup list \<Rightarrow> (ustr, 'p wakeup) js_map" where
  "pulled_into inF ws = foldl (\<lambda>m w. jm_set m (lw_id w) w) inF ws"

text \<open>A pull in a state that keeps the invariant drops nothing.\<close>

lemma pull_eq:
  assumes ok: "queue_ok s"
  shows "pull c s =
    (let ws = filter (\<lambda>w. lw_conversationId w = c) (wq_pending s)
     in (ws, if ws \<noteq> []
             then s\<lparr>wq_inFlight := pulled_into (wq_inFlight s) ws,
                    wq_pending := filter (\<lambda>w. lw_conversationId w \<noteq> c) (wq_pending s), wq_revision := Suc (wq_revision s)\<rparr>
             else s))"
proof -
  have "\<forall>w \<in> set (wq_pending s). lw_conversationId w = c \<longrightarrow> \<not> is_suppressed s c (lw_id w)"
    using ok by (auto simp: queue_ok_def tracked_def item_ok_def)
  from pull_loop_eq [OF this] show ?thesis by (simp add: pull_def Let_def pulled_into_def)
qed

lemma distinct_jm_set:
  assumes "keys_ok (w # ws @ map snd m) acc"
  shows "keys_ok (ws @ map snd (jm_set m k w)) acc"
proof -
  have "\<exists>vs. mset (vs @ map snd (jm_set m k w)) = mset (w # map snd m)"
  proof (induction m)
    case Nil
    then show ?case by (intro exI [of _ "[]"]) (simp add: jm_set_def)
  next
    case (Cons p m)
    obtain k' v where p: "p = (k', v)" by fastforce
    show ?case
    proof (cases "k' = k")
      case True
      with p show ?thesis by (intro exI [of _ "[v]"]) (simp add: jm_set_def)
    next
      case False
      from Cons obtain vs where "mset (vs @ map snd (jm_set m k w)) = mset (w # map snd m)" by blast
      with False p show ?thesis by (intro exI [of _ vs]) (simp add: jm_set_def)
    qed
  qed
  then obtain vs where vs: "mset (vs @ map snd (jm_set m k w)) = mset (w # map snd m)" by blast
  have "keys_ok (vs @ ws @ map snd (jm_set m k w)) acc"
    by (rule keys_ok_mset [OF _ assms]) (use vs in \<open>simp add: ac_simps\<close>)
  then show ?thesis by (simp add: keys_ok_append)
qed

lemma pulled_into_keys: "keys_ok (ws @ vs @ map snd m) acc \<Longrightarrow> keys_ok (vs @ map snd (pulled_into m ws)) acc"
proof (induction ws arbitrary: m)
  case Nil
  then show ?case by (simp add: pulled_into_def)
next
  case (Cons w ws)
  from Cons.prems have "keys_ok (w # (ws @ vs) @ map snd m) acc" by simp
  from distinct_jm_set [OF this] Cons.IH show ?case by (simp add: pulled_into_def)
qed

lemma jm_set_entries: "set (jm_set m k v) \<subseteq> insert (k, v) (set m)"
  by (induction m) (auto simp: jm_set_def)

lemma pulled_into_entries: "set (pulled_into m ws) \<subseteq> set m \<union> (\<lambda>w. (lw_id w, w)) ` set ws"
proof (induction ws arbitrary: m)
  case (Cons w ws)
  with jm_set_entries [of m "lw_id w" w] show ?case by (fastforce simp: pulled_into_def)
qed (simp add: pulled_into_def)

lemma pulled_into_wf: "jm_wf m \<Longrightarrow> jm_wf (pulled_into m ws)"
  by (induction ws arbitrary: m) (auto simp: pulled_into_def)

lemma pull_ok [machine_inv]:
  assumes ok: "queue_ok s"
  shows "queue_ok (snd (pull c s))"
proof -
  let ?ws = "filter (\<lambda>w. lw_conversationId w = c) (wq_pending s)"
  let ?rest = "filter (\<lambda>w. lw_conversationId w \<noteq> c) (wq_pending s)"
  have m: "mset (?ws @ ?rest @ map snd (wq_inFlight s)) = mset (tracked s)"
    using partition_mset [of "\<lambda>w. lw_conversationId w = c" "wq_pending s"] by (simp add: tracked_def)
  have "keys_ok (?ws @ ?rest @ map snd (wq_inFlight s)) (wq_accepted s)"
    by (rule keys_ok_mset [OF m [symmetric]]) (use ok in \<open>simp add: queue_ok_def\<close>)
  then have keys: "keys_ok (?rest @ map snd (pulled_into (wq_inFlight s) ?ws)) (wq_accepted s)"
    by (rule pulled_into_keys)
  have ents: "set (pulled_into (wq_inFlight s) ?ws) \<subseteq> set (wq_inFlight s) \<union> (\<lambda>w. (lw_id w, w)) ` set (wq_pending s)"
    using pulled_into_entries [of "wq_inFlight s" ?ws] by auto
  have "snd ` set (pulled_into (wq_inFlight s) ?ws) \<subseteq> set (tracked s)"
    using image_mono [OF ents, of snd] by (simp add: tracked_def image_Un image_image ac_simps)
  then have items: "\<forall>w \<in> set (?rest @ map snd (pulled_into (wq_inFlight s) ?ws)). item_ok s w"
    using ok by (auto simp: queue_ok_def tracked_def)
  have ids: "\<forall>(i, w) \<in> set (pulled_into (wq_inFlight s) ?ws). lw_id w = i"
    using ents ok by (auto simp: queue_ok_def)
  have wf: "jm_wf (pulled_into (wq_inFlight s) ?ws)" using ok by (intro pulled_into_wf) (simp add: queue_ok_def)
  show ?thesis
  proof (cases "?ws = []")
    case True
    with ok show ?thesis unfolding pull_eq [OF ok] Let_def by simp
  next
    case False
    with keys items ids wf ok show ?thesis
      unfolding pull_eq [OF ok] Let_def by (simp add: queue_ok_def tracked_def)
  qed
qed

lemma pull_each_ok: "queue_ok s \<Longrightarrow> queue_ok (snd (pull_each cs s))"
  by (induction cs arbitrary: s) (simp_all add: Let_def case_prod_unfold pull_ok)

lemma pullAll_ok [machine_inv]: "queue_ok s \<Longrightarrow> queue_ok (snd (pullAll s))"
  by (simp add: pullAll_def pull_each_ok)


lemma suppress_pending:
  "js_trim i \<noteq> [] \<Longrightarrow> wq_pending (suppress c i s) =
     filter (\<lambda>w. lw_conversationId w \<noteq> c \<or> lw_id w \<noteq> js_trim i) (wq_pending s)"
  by (simp add: suppress_def Let_def)

lemma suppress_inFlight:
  "js_trim i \<noteq> [] \<Longrightarrow> wq_inFlight (suppress c i s) =
     (case jm_get (wq_inFlight s) (js_trim i) of
        Some w \<Rightarrow> if lw_conversationId w = c then jm_delete (wq_inFlight s) (js_trim i) else wq_inFlight s
      | None \<Rightarrow> wq_inFlight s)"
  by (simp add: suppress_def Let_def split: option.splits)

lemma suppress_accepted:
  "set (wq_accepted s) - {acceptedKey c (js_trim i)} \<subseteq> set (wq_accepted (suppress c i s))"
  by (auto simp: suppress_def Let_def split: option.splits)

lemma suppress_suppressed:
  "js_trim i \<noteq> [] \<Longrightarrow>
   is_suppressed (suppress c i s) c' j \<longleftrightarrow> is_suppressed s c' j \<or> (c' = c \<and> j = js_trim i)"
  by (auto simp: suppress_def Let_def is_suppressed_def split: option.splits)

lemma suppress_wf: "jm_wf (wq_suppressed s) \<Longrightarrow> jm_wf (wq_suppressed (suppress c i s))"
  by (auto simp: suppress_def Let_def split: option.splits)

lemma keys_ok_swap:
  "keys_ok ws acc \<Longrightarrow> k \<notin> wakeup_key ` set ws \<Longrightarrow> set acc - {k} \<subseteq> set acc' \<Longrightarrow> keys_ok ws acc'"
  by (rule keys_ok_mono [OF _ keys_ok_remove]) simp_all

lemma mset_filter_sub: "mset (filter P xs) \<subseteq># mset xs"
  by (simp add: mset_filter)

lemma filter_all_id: "\<forall>x \<in> set xs. P x \<Longrightarrow> filter P xs = xs"
  by (induction xs) auto

lemma suppress_tracked:
  assumes ok: "queue_ok s" and n: "js_trim i \<noteq> []"
  shows "tracked (suppress c i s) = filter (\<lambda>w. lw_conversationId w \<noteq> c \<or> lw_id w \<noteq> js_trim i) (tracked s)"
proof -
  let ?n = "js_trim i"
  let ?keep = "\<lambda>w. lw_conversationId w \<noteq> c \<or> lw_id w \<noteq> ?n"
  have ids: "\<And>k w. (k, w) \<in> set (wq_inFlight s) \<Longrightarrow> lw_id w = k" and wf: "jm_wf (wq_inFlight s)"
    using ok by (auto simp: queue_ok_def)
  have "map snd (wq_inFlight (suppress c i s)) = filter ?keep (map snd (wq_inFlight s))"
  proof (cases "\<exists>w. jm_get (wq_inFlight s) ?n = Some w \<and> lw_conversationId w = c")
    case True
    then obtain w where w: "jm_get (wq_inFlight s) ?n = Some w" "lw_conversationId w = c" by blast
    have "fst p \<noteq> ?n \<longleftrightarrow> ?keep (snd p)" if p: "p \<in> set (wq_inFlight s)" for p
    proof -
      obtain k v where kv: "p = (k, v)" by fastforce
      have "v = w" if "k = ?n"
        using p kv w(1) that wf by (auto simp: jm_wf_def)
      with ids [of k v] p kv w(2) show ?thesis by auto
    qed
    then have "jm_delete (wq_inFlight s) ?n = filter (\<lambda>p. ?keep (snd p)) (wq_inFlight s)"
      unfolding jm_delete_def case_prod_unfold by (intro filter_cong) auto
    with w n show ?thesis by (simp add: suppress_inFlight filter_map o_def)
  next
    case False
    have "?keep w" if w: "(k, w) \<in> set (wq_inFlight s)" for k w
    proof -
      have "jm_get (wq_inFlight s) k = Some w" using w wf by (simp add: jm_wf_def)
      with False ids [OF w] show ?thesis by auto
    qed
    then have "filter ?keep (map snd (wq_inFlight s)) = map snd (wq_inFlight s)" by (intro filter_all_id) auto
    with False n show ?thesis by (auto simp: suppress_inFlight split: option.splits)
  qed
  with n show ?thesis by (simp add: tracked_def suppress_pending)
qed

lemma suppress_ok [machine_inv]:
  assumes ok: "queue_ok s" and c: "0 \<notin> set c"
  shows "queue_ok (suppress c i s)"
proof (cases "js_trim i = []")
  case True
  with ok show ?thesis by (simp add: suppress_def Let_def)
next
  case n: False
  note tr = suppress_tracked [OF ok n, of c]
  have keys: "keys_ok (tracked (suppress c i s)) (wq_accepted s)"
    unfolding tr by (rule keys_ok_sub [OF mset_filter_sub]) (use ok in \<open>simp add: queue_ok_def\<close>)
  have "acceptedKey c (js_trim i) \<notin> wakeup_key ` set (tracked (suppress c i s))"
  proof
    assume "acceptedKey c (js_trim i) \<in> wakeup_key ` set (tracked (suppress c i s))"
    then obtain w where w: "w \<in> set (tracked (suppress c i s))" "wakeup_key w = acceptedKey c (js_trim i)" by auto
    with keys have "no_nul w" by (simp add: keys_ok_def)
    with w c have "lw_conversationId w = c \<and> lw_id w = js_trim i" by (simp add: wakeup_key_def no_nul_def)
    with w tr show False by simp
  qed
  from keys_ok_swap [OF keys this suppress_accepted]
  have k: "keys_ok (tracked (suppress c i s)) (wq_accepted (suppress c i s))" .
  have items: "\<forall>w \<in> set (tracked (suppress c i s)). item_ok (suppress c i s) w"
    using ok n tr by (auto simp: queue_ok_def item_ok_def suppress_suppressed)
  have "set (wq_inFlight (suppress c i s)) \<subseteq> set (wq_inFlight s)" "jm_wf (wq_inFlight (suppress c i s))"
    using n ok jm_delete_entries [of "wq_inFlight s" "js_trim i"]
    by (auto simp: suppress_inFlight queue_ok_def split: option.splits)
  with k items ok suppress_wf [of s c i] show ?thesis by (auto simp: queue_ok_def)
qed

lemma unsuppress_fields [simp]:
  "wq_pending (unsuppress c i s) = wq_pending s" "wq_inFlight (unsuppress c i s) = wq_inFlight s"
  "wq_accepted (unsuppress c i s) = wq_accepted s" "wq_revision (unsuppress c i s) = wq_revision s"
  by (simp_all add: unsuppress_def Let_def split: option.splits)

lemma is_suppressed_unsuppress:
  "is_suppressed (unsuppress c i s) c' j \<longleftrightarrow> is_suppressed s c' j \<and> \<not> (c' = c \<and> j = js_trim i)"
proof (cases "jm_get (wq_suppressed s) c")
  case None
  then show ?thesis by (auto simp: unsuppress_def is_suppressed_def)
next
  case (Some ids)
  have "set_remove ids (js_trim i) = [] \<longleftrightarrow> set ids - {js_trim i} = {}" by (simp flip: set_set_remove)
  with Some show ?thesis by (cases "c' = c") (auto simp: unsuppress_def Let_def is_suppressed_def)
qed

lemma unsuppress_ok [machine_inv]: "queue_ok s \<Longrightarrow> queue_ok (unsuppress c i s)"
proof -
  assume ok: "queue_ok s"
  then have "jm_wf (wq_suppressed (unsuppress c i s))"
    by (auto simp: unsuppress_def Let_def queue_ok_def split: option.splits)
  with ok show ?thesis by (auto simp: queue_ok_def tracked_def item_ok_def is_suppressed_unsuppress)
qed

lemma unsuppressId_ok [machine_inv]: "queue_ok s \<Longrightarrow> queue_ok (unsuppressId i s)"
proof -
  have "queue_ok s \<Longrightarrow> queue_ok (foldl (\<lambda>s c. unsuppress c (js_trim i) s) s cs)" for cs
    by (induction cs arbitrary: s) (simp_all add: unsuppress_ok)
  then show "queue_ok s \<Longrightarrow> queue_ok (unsuppressId i s)" by (simp add: unsuppressId_def)
qed

lemma clear_fields:
  "wq_pending (clear c s) = filter (\<lambda>w. lw_conversationId w \<noteq> c) (wq_pending s)"
  "wq_inFlight (clear c s) = filter (\<lambda>p. lw_conversationId (snd p) \<noteq> c) (wq_inFlight s)"
  "wq_accepted (clear c s) = filter (\<lambda>key. \<not> prefix (acceptedKey c []) key) (wq_accepted s)"
  "wq_suppressed (clear c s) = jm_delete (wq_suppressed s) c"
  by (simp_all add: clear_def Let_def case_prod_unfold)

lemma prefix_acceptedKey:
  "0 \<notin> set c \<Longrightarrow> 0 \<notin> set c' \<Longrightarrow> prefix (acceptedKey c []) (acceptedKey c' i) \<longleftrightarrow> c = c'"
proof -
  assume c: "0 \<notin> set c" "0 \<notin> set c'"
  have "prefix (acceptedKey c []) (acceptedKey c' i) \<longleftrightarrow> (\<exists>j. acceptedKey c' i = acceptedKey c j)"
    by (simp add: prefix_def acceptedKey_def)
  with c show ?thesis by auto
qed

lemma clear_tracked: "tracked (clear c s) = filter (\<lambda>w. lw_conversationId w \<noteq> c) (tracked s)"
  by (simp add: tracked_def clear_fields filter_map o_def)

lemma clear_ok [machine_inv]:
  assumes ok: "queue_ok s" and c: "0 \<notin> set c"
  shows "queue_ok (clear c s)"
proof -
  have keys: "keys_ok (tracked (clear c s)) (wq_accepted s)"
    unfolding clear_tracked by (rule keys_ok_sub [OF mset_filter_sub]) (use ok in \<open>simp add: queue_ok_def\<close>)
  have "wakeup_key w \<in> set (wq_accepted (clear c s))" if "w \<in> set (tracked (clear c s))" for w
  proof -
    from that keys have "no_nul w" "wakeup_key w \<in> set (wq_accepted s)" by (auto simp: keys_ok_def)
    moreover from that have "lw_conversationId w \<noteq> c" by (simp add: clear_tracked)
    ultimately show ?thesis using c by (auto simp: clear_fields wakeup_key_def no_nul_def prefix_acceptedKey)
  qed
  with keys have k: "keys_ok (tracked (clear c s)) (wq_accepted (clear c s))" by (simp add: keys_ok_def)
  have "is_suppressed (clear c s) c' j \<longrightarrow> is_suppressed s c' j" for c' j
    by (simp add: is_suppressed_def clear_fields)
  then have items: "\<forall>w \<in> set (tracked (clear c s)). item_ok (clear c s) w"
    using ok by (auto simp: clear_tracked queue_ok_def item_ok_def)
  have "jm_wf (wq_inFlight (clear c s))" "\<forall>(i, w) \<in> set (wq_inFlight (clear c s)). lw_id w = i"
    using ok by (auto simp: clear_fields queue_ok_def jm_wf_def distinct_map_filter)
  with k items ok show ?thesis by (auto simp: queue_ok_def clear_fields)
qed

lemma queue_step_ok: "queue_ok s \<Longrightarrow> allowed ev \<Longrightarrow> queue_ok (queue_step s ev)"
  by (cases ev) (simp_all add: machine_inv)

interpretation wakeups: guarded_machine queue_step allowed queue_ok
  by unfold_locales (rule queue_step_ok)


subsection \<open>Exactness when an id belongs to one conversation\<close>

text \<open>
  In flight wakeups are kept by id alone. While no id is used by two conversations the accepted
  keys are exactly those of the pending and in-flight wakeups.
\<close>

fun owned :: "(ustr \<Rightarrow> ustr) \<Rightarrow> 'p queue_event \<Rightarrow> bool" where
  "owned owner (Enqueue w) = (lw_conversationId w = owner (js_trim (lw_id w)))"
| "owned owner _ = True"

definition exact :: "(ustr \<Rightarrow> ustr) \<Rightarrow> 'p wakeup_queue \<Rightarrow> bool" where
  "exact owner s \<longleftrightarrow> set (wq_accepted s) = wakeup_key ` set (tracked s) \<and>
     (\<forall>w \<in> set (tracked s). lw_conversationId w = owner (lw_id w))"

lemma merge_exact:
  assumes keys: "keys_ok (w # queue @ vs) acc" and m: "mergeWakeup queue w = (q, r)"
    and acc: "set acc = wakeup_key ` set (w # queue @ vs)"
  shows "set (drop_replaced acc r) = wakeup_key ` set (q @ vs)"
proof -
  from keys have parts: "no_nul w" "wakeup_key w \<in> set acc" "wakeup_key w \<notin> wakeup_key ` set vs"
    "keys_ok queue acc" "wakeup_key w \<notin> wakeup_key ` set queue" "wakeup_key ` set queue \<inter> wakeup_key ` set vs = {}"
    by (auto simp: keys_ok_Cons keys_ok_append)
  from m show ?thesis
  proof (cases rule: mergeWakeup_cases)
    case same
    then obtain u where u: "u \<in> set queue" "same_wakeup u w" by blast
    with parts(4,1) have "wakeup_key u = wakeup_key w" by (simp add: wakeup_key_eq keys_ok_def)
    with u(1) parts(5) show ?thesis by (metis imageI)
  next
    case append
    with acc show ?thesis by (auto simp: drop_replaced_def)
  next
    case (replace pre old post)
    have "wakeup_key old \<in> wakeup_key ` set queue" using replace(2) by simp
    with parts(6) have ov: "wakeup_key old \<notin> wakeup_key ` set vs" by blast
    have ow: "wakeup_key old \<noteq> wakeup_key w" using parts(5) replace(2) by auto
    have rest: "wakeup_key old \<notin> wakeup_key ` (set pre \<union> set post)"
      using parts(4) replace(2) by (auto simp: keys_ok_def)
    have "set acc = insert (wakeup_key old) (wakeup_key ` set (q @ vs))" using acc replace(2,4) by auto
    moreover have "wakeup_key old \<notin> wakeup_key ` set (q @ vs)" using ov ow rest replace(4) by auto
    ultimately show ?thesis using replace(5) by (simp add: drop_replaced_def)
  qed
qed

lemma enqueue_exact:
  assumes ok: "queue_ok s" and ex: "exact owner s" and w: "no_nul w" "lw_conversationId w = owner (js_trim (lw_id w))"
  shows "exact owner (enqueue w s)"
proof -
  define v where "v = w\<lparr>lw_id := js_trim (lw_id w)\<rparr>"
  have v: "no_nul v" "lw_conversationId v = owner (lw_id v)" "wakeup_key v = acceptedKey (lw_conversationId w) (js_trim (lw_id w))"
    using w by (simp_all add: v_def no_nul_def wakeup_key_def)
  show ?thesis
  proof (cases "js_trim (lw_id w) = [] \<or> wakeup_key v \<in> set (wq_accepted s) \<or> is_suppressed s (lw_conversationId w) (js_trim (lw_id w))")
    case True
    with ex v show ?thesis by (auto simp: enqueue_def Let_def)
  next
    case False
    obtain q r where m: "mergeWakeup (wq_pending s) v = (q, r)" by fastforce
    let ?acc = "set_add (wq_accepted s) (wakeup_key v)"
    have "keys_ok (tracked s) ?acc" by (rule keys_ok_mono [of "wq_accepted s"]) (use ok in \<open>auto simp: queue_ok_def\<close>)
    moreover have "wakeup_key v \<notin> wakeup_key ` set (tracked s)" using ok False by (auto simp: queue_ok_def keys_ok_def)
    ultimately have keys: "keys_ok (v # wq_pending s @ map snd (wq_inFlight s)) ?acc"
      using v(1) by (simp add: keys_ok_Cons tracked_def)
    have "set (wq_accepted s) = wakeup_key ` set (tracked s)" using ex unfolding exact_def by (rule conjunct1)
    then have "set ?acc = wakeup_key ` set (v # wq_pending s @ map snd (wq_inFlight s))"
      by (simp add: tracked_def)
    from merge_exact [OF keys m this]
    have k: "set (drop_replaced ?acc r) = wakeup_key ` set (q @ map snd (wq_inFlight s))" .
    have q: "set q \<subseteq> insert v (set (wq_pending s))" using m by (cases rule: mergeWakeup_cases) auto
    have all: "\<forall>u \<in> set (tracked s). lw_conversationId u = owner (lw_id u)"
      using ex unfolding exact_def by (rule conjunct2)
    have own: "\<forall>u \<in> set (q @ map snd (wq_inFlight s)). lw_conversationId u = owner (lw_id u)"
    proof
      fix u assume "u \<in> set (q @ map snd (wq_inFlight s))"
      with q have "u = v \<or> u \<in> set (tracked s)" unfolding tracked_def by auto
      with all v(2) show "lw_conversationId u = owner (lw_id u)" by blast
    qed
    have "enqueue w s = s\<lparr>wq_accepted := drop_replaced ?acc r, wq_pending := q, wq_revision := Suc (wq_revision s)\<rparr>"
      using False m by (simp add: enqueue_def Let_def v(3) v_def [symmetric])
    then have f: "tracked (enqueue w s) = q @ map snd (wq_inFlight s)" "wq_accepted (enqueue w s) = drop_replaced ?acc r"
      by (simp_all add: tracked_def)
    from k own show ?thesis unfolding exact_def f by (rule conjI)
  qed
qed

lemma pulled_into_fresh:
  "\<forall>w \<in> set ws. lw_id w \<notin> fst ` set m \<Longrightarrow> distinct (map lw_id ws) \<Longrightarrow>
   pulled_into m ws = m @ map (\<lambda>w. (lw_id w, w)) ws"
proof (induction ws arbitrary: m)
  case Nil
  then show ?case by (simp add: pulled_into_def)
next
  case (Cons w ws)
  then have "pulled_into (m @ [(lw_id w, w)]) ws = (m @ [(lw_id w, w)]) @ map (\<lambda>w. (lw_id w, w)) ws"
    by (intro Cons.IH) (auto simp: image_iff)
  with Cons.prems show ?case by (simp add: pulled_into_def jm_set_new)
qed

lemma pull_fresh:
  assumes ok: "queue_ok s" and ex: "exact owner s"
  shows "pulled_into (wq_inFlight s) (filter (\<lambda>w. lw_conversationId w = c) (wq_pending s)) =
    wq_inFlight s @ map (\<lambda>w. (lw_id w, w)) (filter (\<lambda>w. lw_conversationId w = c) (wq_pending s))"
proof (rule pulled_into_fresh)
  have keys: "keys_ok (wq_pending s) (wq_accepted s)"
    "wakeup_key ` set (wq_pending s) \<inter> wakeup_key ` set (map snd (wq_inFlight s)) = {}"
    using ok by (auto simp: queue_ok_def tracked_def keys_ok_append)
  have same: "wakeup_key u = wakeup_key w" if "u \<in> set (tracked s)" "w \<in> set (tracked s)" "lw_id u = lw_id w" for u w
    using that ex by (simp add: exact_def wakeup_key_def)
  show "\<forall>w \<in> set (filter (\<lambda>w. lw_conversationId w = c) (wq_pending s)). lw_id w \<notin> fst ` set (wq_inFlight s)"
  proof (rule ballI, rule notI)
    fix w assume w: "w \<in> set (filter (\<lambda>w. lw_conversationId w = c) (wq_pending s))" and "lw_id w \<in> fst ` set (wq_inFlight s)"
    then obtain u where u: "(lw_id w, u) \<in> set (wq_inFlight s)" by auto
    with ok have "lw_id u = lw_id w" by (auto simp: queue_ok_def)
    moreover have mem: "u \<in> set (map snd (wq_inFlight s))" using u by force
    ultimately have "wakeup_key u = wakeup_key w" using w by (intro same) (auto simp: tracked_def)
    moreover have "wakeup_key w \<in> wakeup_key ` set (wq_pending s)" using w by simp
    moreover have "wakeup_key u \<in> wakeup_key ` set (map snd (wq_inFlight s))" using mem by (rule imageI)
    ultimately show False using keys(2) by auto
  qed
  have "inj_on lw_id (set (wq_pending s))"
  proof (rule inj_onI)
    fix u w assume "u \<in> set (wq_pending s)" "w \<in> set (wq_pending s)" "lw_id u = lw_id w"
    moreover from this same have "wakeup_key u = wakeup_key w" by (simp add: tracked_def)
    ultimately show "u = w" using keys(1) by (auto simp: keys_ok_def distinct_map dest: inj_onD)
  qed
  then show "distinct (map lw_id (filter (\<lambda>w. lw_conversationId w = c) (wq_pending s)))"
    using keys(1) by (auto simp: keys_ok_def distinct_map intro: inj_on_subset)
qed

lemma set_split: "{x \<in> A. \<not> P x} \<union> B \<union> {x \<in> A. P x} = A \<union> B"
  by blast

lemma pull_exact: "queue_ok s \<Longrightarrow> exact owner s \<Longrightarrow> exact owner (snd (pull c s))"
proof -
  assume ok: "queue_ok s" and ex: "exact owner s"
  show ?thesis
  proof (cases "filter (\<lambda>w. lw_conversationId w = c) (wq_pending s) = []")
    case True
    with ex show ?thesis unfolding pull_eq [OF ok] Let_def by simp
  next
    case False
    have "set (tracked (snd (pull c s))) = set (tracked s)"
      unfolding pull_eq [OF ok] Let_def
      using False by (simp add: tracked_def pull_fresh [OF ok ex] image_Un image_image Un_assoc [symmetric] set_split)
    moreover have "wq_accepted (snd (pull c s)) = wq_accepted s"
      using False unfolding pull_eq [OF ok] Let_def by simp
    ultimately show ?thesis using ex by (simp add: exact_def)
  qed
qed


lemma exact_sub:
  "exact owner s \<Longrightarrow> set (tracked s') \<subseteq> set (tracked s) \<Longrightarrow>
   set (wq_accepted s') = wakeup_key ` set (tracked s') \<Longrightarrow> exact owner s'"
  unfolding exact_def by blast

lemma exact_accepted: "exact owner s \<Longrightarrow> set (wq_accepted s) = wakeup_key ` set (tracked s)"
  unfolding exact_def by (rule conjunct1)

lemma ack_step_exact:
  assumes ok: "queue_ok s" and ex: "exact owner s" and g: "jm_get (wq_inFlight s) n = Some w"
  shows "exact owner (s\<lparr>wq_inFlight := jm_delete (wq_inFlight s) n,
      wq_accepted := set_remove (wq_accepted s) (acceptedKey (lw_conversationId w) n)\<rparr>)" (is "exact owner ?s'")
proof -
  let ?ws = "wq_pending s @ map snd (jm_delete (wq_inFlight s) n)"
  note m = ack_step_mset [OF ok g]
  have keys: "keys_ok (w # ?ws) (wq_accepted s)"
    by (rule keys_ok_mset [OF m(1) [symmetric]]) (use ok in \<open>simp add: queue_ok_def\<close>)
  have sub: "set (tracked s) = insert w (set ?ws)" using mset_eq_setD [OF m(1)] by simp
  have tr: "tracked ?s' = ?ws" by (simp add: tracked_def)
  have "set (wq_accepted s) = insert (wakeup_key w) (wakeup_key ` set ?ws)"
    unfolding exact_accepted [OF ex] sub by simp
  moreover have "wakeup_key w \<notin> wakeup_key ` set ?ws" using keys by (simp add: keys_ok_Cons)
  ultimately have "set (wq_accepted ?s') = wakeup_key ` set ?ws"
    using m(2) by (simp add: wakeup_key_def)
  with sub show ?thesis by (intro exact_sub [OF ex]) (auto simp: tr)
qed

lemma ack_exact: "queue_ok s \<Longrightarrow> exact owner s \<Longrightarrow> exact owner (snd (ack ids s))"
proof (induction ids s rule: ack.induct)
  case (1 s)
  then show ?case by simp
next
  case (2 i "is" s)
  show ?case
  proof (cases "jm_get (wq_inFlight s) (js_trim i)")
    case None
    with "2.IH"(1) [OF refl refl None] "2.prems" show ?thesis by (simp add: Let_def jm_delete_unset)
  next
    case (Some w)
    from "2.IH"(2) [OF refl refl Some ack_step_ok [OF "2.prems"(1) Some, simplified]
        ack_step_exact [OF "2.prems" Some, simplified]] Some
    show ?thesis by (simp add: Let_def case_prod_unfold)
  qed
qed

lemma requeue_exact:
  "keys_ok (fst qa @ ws @ vs) (snd qa) \<Longrightarrow> set (snd qa) = wakeup_key ` set (fst qa @ ws @ vs) \<Longrightarrow>
   set (snd (foldl requeue_one qa ws)) = wakeup_key ` set (fst (foldl requeue_one qa ws) @ vs)"
proof (induction ws arbitrary: qa)
  case Nil
  then show ?case by simp
next
  case (Cons w ws)
  obtain q r where m: "mergeWakeup (fst qa) w = (q, r)" by fastforce
  have keys: "keys_ok (w # fst qa @ ws @ vs) (snd qa)"
    by (rule keys_ok_mset [OF _ Cons.prems(1)]) simp
  have "set (snd qa) = wakeup_key ` set (w # fst qa @ ws @ vs)" using Cons.prems(2) by auto
  from merge_exact [OF keys m this] merge_keys_beside [OF keys m]
  have "set (drop_replaced (snd qa) r) = wakeup_key ` set (q @ ws @ vs)"
    "keys_ok (q @ ws @ vs) (drop_replaced (snd qa) r)" by simp_all
  with Cons.IH [of "(q, drop_replaced (snd qa) r)"] show ?case by (simp add: requeue_one_def m)
qed

lemma remove_keys_set:
  "set (foldl (\<lambda>acc w. set_remove acc (wakeup_key w)) acc ws) = set acc - wakeup_key ` set ws"
  by (induction ws arbitrary: acc) auto

lemma nack_exact:
  assumes ok: "queue_ok s" and ex: "exact owner s"
  shows "exact owner (nack ids requeue s)"
proof -
  let ?sel = "nack_selected ids s" and ?left = "map snd (nack_left ids s)"
  note m = nack_mset [of ids s]
  have keys: "keys_ok (?sel @ wq_pending s @ ?left) (wq_accepted s)"
    by (rule keys_ok_mset [OF m [symmetric]]) (use ok in \<open>simp add: queue_ok_def\<close>)
  have tr: "set (tracked s) = set (?sel @ wq_pending s @ ?left)" using mset_eq_setD [OF m] by simp
  have acc: "set (wq_accepted s) = wakeup_key ` set (?sel @ wq_pending s @ ?left)"
    unfolding exact_accepted [OF ex] tr by (rule refl)
  consider "\<not> requeue" | "requeue" "?sel = []" | "requeue" "?sel \<noteq> []" by blast
  then show ?thesis
  proof cases
    case 1
    have "wakeup_key ` set ?sel \<inter> wakeup_key ` set (wq_pending s @ ?left) = {}"
      using keys by (subst (asm) keys_ok_append) blast
    then have "set (wq_accepted s) - wakeup_key ` set ?sel = wakeup_key ` set (wq_pending s @ ?left)"
      unfolding acc set_append [of ?sel] image_Un by blast
    with 1 tr show ?thesis
      by (intro exact_sub [OF ex]) (auto simp: nack_eq Let_def tracked_def remove_keys_set)
  next
    case 2
    with acc tr show ?thesis by (intro exact_sub [OF ex]) (auto simp: nack_eq Let_def tracked_def)
  next
    case 3
    let ?qa = "foldl requeue_one (?sel, wq_accepted s) (wq_pending s)"
    have "set (snd ?qa) = wakeup_key ` set (fst ?qa @ ?left)"
      by (rule requeue_exact) (use keys acc in simp_all)
    moreover have "set (fst ?qa @ ?left) \<subseteq> set (tracked s)"
      using requeue_items [of "(?sel, wq_accepted s)" "wq_pending s"] tr by auto
    ultimately show ?thesis using 3
      by (intro exact_sub [OF ex]) (simp_all add: nack_eq Let_def tracked_def)
  qed
qed


lemma suppress_exact:
  assumes ok: "queue_ok s" and ex: "exact owner s" and c: "0 \<notin> set c"
  shows "exact owner (suppress c i s)"
proof (cases "js_trim i = []")
  case True
  with ex show ?thesis by (simp add: suppress_def Let_def)
next
  case n: False
  let ?n = "js_trim i"
  note tr = suppress_tracked [OF ok n, of c]
  have mem: "wakeup_key w = acceptedKey c ?n \<longleftrightarrow> lw_conversationId w = c \<and> lw_id w = ?n" if "w \<in> set (tracked s)" for w
  proof -
    have "no_nul w" using that ok by (auto simp: queue_ok_def keys_ok_def)
    with c show ?thesis by (auto simp: wakeup_key_def no_nul_def)
  qed
  have keys: "wakeup_key ` set (tracked (suppress c i s)) = wakeup_key ` set (tracked s) - {acceptedKey c ?n}"
  proof -
    have "set (tracked (suppress c i s)) = {w \<in> set (tracked s). wakeup_key w \<noteq> acceptedKey c ?n}"
      unfolding tr using mem by auto
    then show ?thesis by auto
  qed
  have "set (wq_accepted (suppress c i s)) = set (wq_accepted s) - {acceptedKey c ?n}"
  proof (cases "wq_accepted (suppress c i s) = wq_accepted s")
    case False
    then show ?thesis by (auto simp: suppress_def Let_def split: option.splits if_splits)
  next
    case True
    have "acceptedKey c ?n \<notin> set (wq_accepted (suppress c i s))"
    proof (cases "\<exists>w \<in> set (tracked s). lw_conversationId w = c \<and> lw_id w = ?n")
      case False
      then have "acceptedKey c ?n \<notin> wakeup_key ` set (tracked s)" using mem by (auto dest: sym)
      with True ex show ?thesis unfolding exact_accepted [OF ex, symmetric] by simp
    next
      case found: True
      then obtain w where w: "w \<in> set (tracked s)" "lw_conversationId w = c" "lw_id w = ?n" by blast
      from w(1) consider "w \<in> set (wq_pending s)" | k where "(k, w) \<in> set (wq_inFlight s)" by (auto simp: tracked_def)
      then show ?thesis
      proof cases
        case 1
        then have "length (filter (\<lambda>w. lw_conversationId w \<noteq> c \<or> lw_id w \<noteq> ?n) (wq_pending s)) \<noteq> length (wq_pending s)"
          using w length_filter_less [of w "wq_pending s" "\<lambda>w. lw_conversationId w \<noteq> c \<or> lw_id w \<noteq> ?n"] by simp
        then show ?thesis using n by (auto simp: suppress_def Let_def split: option.splits)
      next
        case (2 k)
        with ok w have "jm_get (wq_inFlight s) ?n = Some w" by (auto simp: queue_ok_def jm_wf_def)
        with w n show ?thesis by (auto simp: suppress_def Let_def)
      qed
    qed
    with True show ?thesis by simp
  qed
  then have acc: "set (wq_accepted (suppress c i s)) = wakeup_key ` set (tracked (suppress c i s))"
    unfolding keys exact_accepted [OF ex] .
  have "set (tracked (suppress c i s)) \<subseteq> set (tracked s)" unfolding tr by (rule filter_is_subset)
  then show ?thesis by (rule exact_sub [OF ex _ acc])
qed

lemma unsuppress_exact:
  assumes ex: "exact owner s"
  shows "exact owner (unsuppress c i s)"
proof -
  have tr: "tracked (unsuppress c i s) = tracked s" by (simp add: tracked_def)
  have "set (wq_accepted (unsuppress c i s)) = wakeup_key ` set (tracked (unsuppress c i s))"
    unfolding tr unsuppress_fields by (rule exact_accepted [OF ex])
  then show ?thesis by (rule exact_sub [OF ex, rotated]) (simp only: tr order_refl)
qed

lemma unsuppressId_exact: "exact owner s \<Longrightarrow> exact owner (unsuppressId i s)"
proof -
  have "exact owner s \<Longrightarrow> exact owner (foldl (\<lambda>s c. unsuppress c (js_trim i) s) s cs)" for cs
    by (induction cs arbitrary: s) (simp_all add: unsuppress_exact)
  then show "exact owner s \<Longrightarrow> exact owner (unsuppressId i s)" by (simp add: unsuppressId_def)
qed

lemma clear_exact:
  assumes ok: "queue_ok s" and ex: "exact owner s" and c: "0 \<notin> set c"
  shows "exact owner (clear c s)"
proof -
  have "prefix (acceptedKey c []) (wakeup_key w) \<longleftrightarrow> lw_conversationId w = c" if "w \<in> set (tracked s)" for w
  proof -
    have "no_nul w" using that ok by (auto simp: queue_ok_def keys_ok_def)
    with c show ?thesis by (auto simp: wakeup_key_def no_nul_def prefix_acceptedKey)
  qed
  then have "set (wq_accepted (clear c s)) = wakeup_key ` set (tracked (clear c s))"
    by (auto simp: clear_fields clear_tracked exact_accepted [OF ex])
  then show ?thesis by (intro exact_sub [OF ex]) (auto simp: clear_tracked)
qed

lemma pull_each_exact: "queue_ok s \<Longrightarrow> exact owner s \<Longrightarrow> exact owner (snd (pull_each cs s))"
  by (induction cs arbitrary: s) (simp_all add: Let_def case_prod_unfold pull_ok pull_exact)

lemma step_exact: "queue_ok s \<Longrightarrow> exact owner s \<Longrightarrow> allowed ev \<Longrightarrow> owned owner ev \<Longrightarrow> exact owner (queue_step s ev)"
  by (cases ev)
    (simp_all add: enqueue_exact pull_exact pull_each_exact pullAll_def ack_exact nack_exact
      suppress_exact unsuppress_exact unsuppressId_exact clear_exact)

interpretation owned_wakeups: guarded_machine queue_step "\<lambda>ev. allowed ev \<and> owned owner ev" "\<lambda>s. queue_ok s \<and> exact owner s"
  for owner
  by unfold_locales (simp add: queue_step_ok step_exact)

lemma new_exact: "exact owner new_wakeup_queue"
  by (simp add: exact_def new_wakeup_queue_def tracked_def)


subsection \<open>What can become of a wakeup\<close>














subsection \<open>Registry lemmas\<close>

lemma is_suppressed_unsuppressId:
  "is_suppressed (unsuppressId i s) c j \<longleftrightarrow> is_suppressed s c j \<and> j \<noteq> js_trim i"
proof -
  have fold: "is_suppressed (foldl (\<lambda>s c. unsuppress c (js_trim i) s) s cs) c j \<longleftrightarrow>
      is_suppressed s c j \<and> \<not> (c \<in> set cs \<and> j = js_trim i)" for cs
    by (induction cs arbitrary: s) (auto simp: is_suppressed_unsuppress)
  have "is_suppressed s c j \<Longrightarrow> c \<in> set (map fst (wq_suppressed s))"
    by (auto simp: is_suppressed_def split: option.splits dest: map_of_SomeD intro: rev_image_eqI)
  with fold show ?thesis unfolding unsuppressId_def by blast
qed

definition records_ok :: "('m, 'p) registry \<Rightarrow> bool" where
  "records_ok s \<longleftrightarrow> jm_wf (bw_records s) \<and> (\<forall>(i, r) \<in> set (bw_records s). wr_id r = i)"

datatype ('m, 'p) registry_event =
    UpsertWork "'m work" | ClearWork ustr | AbortWork ustr | AbortAllWork "work_filter option"
  | EnqueueCompletion ustr ustr 'p | DrainCompletions | MarkAwaitedCompletion ustr | QueueEvent "'p queue_event"

fun registry_step :: "('m, 'p) registry \<Rightarrow> ('m, 'p) registry_event \<Rightarrow> ('m, 'p) registry" where
  "registry_step s (UpsertWork r) = upsertWork r s"
| "registry_step s (ClearWork i) = snd (clearWork i s)"
| "registry_step s (AbortWork i) = snd (abortWork i s)"
| "registry_step s (AbortAllWork filt) = snd (abortAllWork filt s)"
| "registry_step s (EnqueueCompletion i k p) = enqueueCompletion i k p s"
| "registry_step s DrainCompletions = snd (drainCompletions s)"
| "registry_step s (MarkAwaitedCompletion i) = markAwaitedCompletion i s"
| "registry_step s (QueueEvent ev) = s\<lparr>bw_wakeups := queue_step (bw_wakeups s) ev\<rparr>"

lemma call_abort_fields [simp]:
  "bw_records (call_abort r s) = bw_records s" "bw_wakeups (call_abort r s) = bw_wakeups s"
  "bw_aborted (call_abort r s) = bw_aborted s @ (if wr_hasAbort r then [wr_id r] else [])"
  by (simp_all add: call_abort_def)

lemma abort_loop_fields:
  "fst (abort_loop filt rs s) = length (filter (\<lambda>r. matchesFilter r filt) rs)"
  "bw_records (snd (abort_loop filt rs s)) =
     filter (\<lambda>p. fst p \<notin> wr_id ` {r \<in> set rs. matchesFilter r filt}) (bw_records s)"
  "bw_aborted (snd (abort_loop filt rs s)) =
     bw_aborted s @ map wr_id (filter wr_hasAbort (filter (\<lambda>r. matchesFilter r filt) rs))"
  "is_suppressed (bw_wakeups (snd (abort_loop filt rs s))) c j \<longleftrightarrow>
     is_suppressed (bw_wakeups s) c j \<and> j \<notin> js_trim ` wr_id ` {r \<in> set rs. matchesFilter r filt}"
proof (induction filt rs s rule: abort_loop.induct)
  case (1 filt s)
  {
    case 1 show ?case by simp
  next
    case 2 show ?case by (simp add: filter_all_id)
  next
    case 3 show ?case by simp
  next
    case 4 show ?case by simp
  }
next
  case (2 filt r rs s)
  have sets: "{r' \<in> set (r # rs). matchesFilter r' filt} =
      (if matchesFilter r filt then insert r {r' \<in> set rs. matchesFilter r' filt} else {r' \<in> set rs. matchesFilter r' filt})"
    by auto
  {
    case 1 show ?case using "2.IH" by (simp add: Let_def case_prod_unfold)
  next
    case 2 show ?case using "2.IH"
      unfolding sets by (simp add: Let_def case_prod_unfold jm_delete_def)
  next
    case 3 show ?case using "2.IH" by (simp add: Let_def case_prod_unfold)
  next
    case 4 show ?case using "2.IH"
      unfolding sets by (auto simp add: Let_def case_prod_unfold is_suppressed_unsuppressId)
  }
qed

lemma abort_records:
  assumes ok: "records_ok s"
  shows "bw_records (snd (abortAllWork filt s)) = filter (\<lambda>p. \<not> matchesFilter (snd p) filt) (bw_records s)"
proof -
  have "fst p \<notin> wr_id ` {r \<in> set (map snd (bw_records s)). matchesFilter r filt} \<longleftrightarrow> \<not> matchesFilter (snd p) filt"
    if p: "p \<in> set (bw_records s)" for p
  proof -
    obtain i r where ir: "p = (i, r)" by fastforce
    have "r' = r" if "(j, r') \<in> set (bw_records s)" "wr_id r' = i" for j r'
    proof -
      from that ok have "j = i" by (auto simp: records_ok_def)
      with that p ir ok show ?thesis by (auto simp: records_ok_def jm_wf_def dest: eq_key_imp_eq_value)
    qed
    moreover have "wr_id r = i" using ok p ir by (auto simp: records_ok_def)
    ultimately show ?thesis using p ir by force
  qed
  then show ?thesis unfolding abortAllWork_def abort_loop_fields(2) by (intro filter_cong) auto
qed

lemma records_ok_sub: "records_ok s \<Longrightarrow> bw_records s' = filter P (bw_records s) \<Longrightarrow> records_ok s'"
  by (auto simp: records_ok_def jm_wf_def distinct_map_filter)

lemma registry_step_ok: "records_ok s \<Longrightarrow> records_ok (registry_step s ev)"
proof (cases ev)
  case (UpsertWork r)
  assume "records_ok s"
  with UpsertWork jm_set_entries [of "bw_records s" "wr_id r" r] show ?thesis
    by (auto simp: upsertWork_def records_ok_def)
next
  case (AbortAllWork filt)
  assume "records_ok s"
  with AbortAllWork show ?thesis by (simp add: records_ok_sub [OF _ abort_records])
qed (auto simp: clearWork_def abortWork_def records_ok_def enqueueCompletion_def drainCompletions_def
      markAwaitedCompletion_def Let_def case_prod_unfold dest: subsetD [OF jm_delete_entries] split: option.splits)

interpretation work_records: invariant_machine registry_step records_ok
  by unfold_locales (rule registry_step_ok)

lemma new_records_ok: "records_ok new_registry"
  by (simp add: records_ok_def new_registry_def)


subsection \<open>Properties\<close>

definition run_queue :: "'p queue_event list \<Rightarrow> 'p wakeup_queue" where
  "run_queue es = foldl queue_step new_wakeup_queue es"

lemma run_queue_inv:
  "list_all (\<lambda>ev. allowed ev \<and> owned owner ev) es \<Longrightarrow> queue_ok (run_queue es) \<and> exact owner (run_queue es)"
  unfolding run_queue_def by (rule owned_wakeups.run_inv) (simp_all add: new_queue_ok new_exact)







definition demo_wakeup :: "ustr \<Rightarrow> ustr \<Rightarrow> nat wakeup" where
  "demo_wakeup c i = \<lparr>lw_conversationId = c, lw_id = i, lw_groupKey = None, lw_payload = 5, lw_source = None\<rparr>"

lemmas demo_queue_defs = run_queue_def new_wakeup_queue_def demo_wakeup_def enqueue_def acceptedKey_def is_suppressed_def
  mergeWakeup_def drop_replaced_def pull_def jm_set_def set_add_def set_remove_def tracked_def js_trim_def js_space_def
  no_nul_def Let_def jm_delete_def wakeup_key_def nack_def requeue_one_def same_wakeup_def


lemma enqueue_ignored_iff:
  "enqueue w s = s \<longleftrightarrow> js_trim (lw_id w) = [] \<or>
     acceptedKey (lw_conversationId w) (js_trim (lw_id w)) \<in> set (wq_accepted s) \<or>
     is_suppressed s (lw_conversationId w) (js_trim (lw_id w))"
proof -
  obtain q r where m: "mergeWakeup (wq_pending s) (w\<lparr>lw_id := js_trim (lw_id w)\<rparr>) = (q, r)" by fastforce
  show ?thesis
  proof (cases "js_trim (lw_id w) = [] \<or> acceptedKey (lw_conversationId w) (js_trim (lw_id w)) \<in> set (wq_accepted s) \<or>
      is_suppressed s (lw_conversationId w) (js_trim (lw_id w))")
    case True
    then have "enqueue w s = s" by (auto simp: enqueue_def Let_def)
    with True show ?thesis by blast
  next
    case False
    with m have "wq_revision (enqueue w s) = Suc (wq_revision s)" by (simp add: enqueue_def Let_def)
    then have "enqueue w s \<noteq> s" by (metis n_not_Suc_n)
    with False show ?thesis by blast
  qed
qed

text \<open>
  Fact. In every run where an id is used by one conversation the accepted keys are exactly
  those of the pending and in-flight wakeups, each kept once and none of them suppressed: an
  enqueue is ignored exactly when its trimmed id is empty, suppressed, or already pending or in
  flight, so after an acknowledgement the same id is accepted again.
\<close>

theorem enqueue_ignored_exactly:
  assumes "list_all (\<lambda>ev. allowed ev \<and> owned owner ev) es" and "no_nul w"
  shows "let s = run_queue es; i = js_trim (lw_id w); c = lw_conversationId w in
    distinct (map wakeup_key (tracked s)) \<and>
    list_all (\<lambda>u. \<not> is_suppressed s (lw_conversationId u) (lw_id u)) (tracked s) \<and>
    (enqueue w s = s \<longleftrightarrow> i = [] \<or> is_suppressed s c i \<or>
       list_ex (\<lambda>u. lw_conversationId u = c \<and> lw_id u = i) (tracked s))"
proof -
  let ?s = "run_queue es" and ?i = "js_trim (lw_id w)" and ?c = "lw_conversationId w"
  have ok: "queue_ok ?s" and ex: "exact owner ?s" using run_queue_inv [OF assms(1)] by auto
  have nn: "\<forall>u \<in> set (tracked ?s). no_nul u" using ok by (auto simp: queue_ok_def keys_ok_def)
  have "acceptedKey ?c ?i \<in> set (wq_accepted ?s) \<longleftrightarrow> (\<exists>u \<in> set (tracked ?s). acceptedKey ?c ?i = wakeup_key u)"
    unfolding exact_accepted [OF ex] by (rule image_iff)
  also have "\<dots> \<longleftrightarrow> (\<exists>u \<in> set (tracked ?s). lw_conversationId u = ?c \<and> lw_id u = ?i)"
    using nn assms(2) by (intro bex_cong) (auto simp: wakeup_key_def no_nul_def)
  finally have acc: "acceptedKey ?c ?i \<in> set (wq_accepted ?s) \<longleftrightarrow>
      list_ex (\<lambda>u. lw_conversationId u = ?c \<and> lw_id u = ?i) (tracked ?s)" by (simp add: list_ex_iff)
  have "enqueue w ?s = ?s \<longleftrightarrow> ?i = [] \<or> acceptedKey ?c ?i \<in> set (wq_accepted ?s) \<or> is_suppressed ?s ?c ?i"
    by (rule enqueue_ignored_iff)
  with acc ok show ?thesis
    by (auto simp: Let_def queue_ok_def keys_ok_def item_ok_def list_all_iff)
qed

lemma enqueue_ignored_exactly_witness:
  "let s = run_queue [Enqueue (demo_wakeup [1] [2]), Pull [1], Ack [[2]]] in
   enqueue (demo_wakeup [1] [32, 2]) s \<noteq> s"
  using enqueue_ignored_exactly [of "\<lambda>_. [1]" "[Enqueue (demo_wakeup [1] [2]), Pull [1], Ack [[2]]]" "demo_wakeup [1] [32, 2]"]
  by (simp add: demo_queue_defs)

text \<open>
  Fact. Aborting all work that matches a filter, in every run of the registry: exactly the
  matching records are removed and counted, the abort callback of each that has one is called
  once, in order, their ids are no longer suppressed, and no matching work is left to list or running.
\<close>

theorem abort_all_work:
  "let s = foldl registry_step new_registry es; (n, s') = abortAllWork filt s in
    n = length (listWork filt s) \<and>
    bw_records s' = filter (\<lambda>p. \<not> matchesFilter (snd p) filt) (bw_records s) \<and>
    bw_aborted s' = bw_aborted s @ map wr_id (filter wr_hasAbort (listWork filt s)) \<and>
    list_all (\<lambda>r. \<not> is_suppressed (bw_wakeups s') c (js_trim (wr_id r))) (listWork filt s) \<and>
    listWork filt s' = [] \<and> \<not> hasRunningWork filt s'"
proof -
  let ?s = "foldl registry_step new_registry es"
  have ok: "records_ok ?s" by (rule work_records.run_inv [OF new_records_ok])
  have recs: "bw_records (snd (abortAllWork filt ?s)) = filter (\<lambda>p. \<not> matchesFilter (snd p) filt) (bw_records ?s)"
    by (rule abort_records [OF ok])
  have "list_all (\<lambda>r. \<not> is_suppressed (bw_wakeups (snd (abortAllWork filt ?s))) c (js_trim (wr_id r))) (listWork filt ?s)"
    unfolding abortAllWork_def list_all_iff abort_loop_fields(4) listWork_def by auto
  moreover have "fst (abortAllWork filt ?s) = length (listWork filt ?s)"
    unfolding abortAllWork_def abort_loop_fields(1) listWork_def by (rule refl)
  moreover have "bw_aborted (snd (abortAllWork filt ?s)) = bw_aborted ?s @ map wr_id (filter wr_hasAbort (listWork filt ?s))"
    unfolding abortAllWork_def abort_loop_fields(3) listWork_def by (rule refl)
  moreover have "listWork filt (snd (abortAllWork filt ?s)) = []" "\<not> hasRunningWork filt (snd (abortAllWork filt ?s))"
    by (auto simp: listWork_def hasRunningWork_def recs filter_empty_conv list_ex_iff)
  ultimately show ?thesis using recs by (simp add: Let_def case_prod_unfold)
qed

text \<open>
  Fact. The same id in two conversations: pulling both puts the second in the place of the first in
  flight, so acknowledging them leaves the first key accepted for ever; that wakeup can never be
  enqueued again, though nothing of it is pending or in flight.
\<close>

lemma same_id_in_two_conversations_stays_refused:
  "let s = run_queue [Enqueue (demo_wakeup [1] [7]), Enqueue (demo_wakeup [2] [7]), Pull [1], Pull [2], Ack [[7], [7]]] in
   tracked s = [] \<and> enqueue (demo_wakeup [1] [7]) s = s"
proof -
  have "run_queue [Enqueue (demo_wakeup [1] [7]), Enqueue (demo_wakeup [2] [7]), Pull [1], Pull [2], Ack [[7], [7]]] =
      \<lparr>wq_pending = [], wq_inFlight = [], wq_accepted = [[1, 0, 7]], wq_suppressed = [], wq_revision = 4\<rparr>"
    by (simp add: demo_queue_defs)
  then show ?thesis by (simp add: tracked_def enqueue_ignored_iff) (simp add: demo_wakeup_def acceptedKey_def js_trim_def js_space_def)
qed

end
