(* ===== verification/Cron_Schedule.thy ===== *)
theory Cron_Schedule
  imports Js_Strings
begin

text \<open>
  When a routine runs next: \<^verbatim>\<open>shared/automation-schedule.ts\<close>. Parsing of cron expressions,
  aliases, time zones and \<^verbatim>\<open>@every\<close> intervals, matching of a wall clock, and the search for the
  next matching minute, which skips whole days.

  Times are whole milliseconds. The wall clock of an instant comes from the platform's calendar
  (\<^verbatim>\<open>Date\<close>, \<^verbatim>\<open>Intl.DateTimeFormat\<close>), so it is a parameter: a function from instants to the
  fields the code reads, for the host and for each time zone, and which zones exist. Numerals
  are read exactly, where a float rounds beyond 2^53 and may round a decimal fraction to a whole
  number. The texts that describe a schedule are not
  modelled.
\<close>

subsection \<open>Numbers in a field\<close>

definition is_digit :: "nat \<Rightarrow> bool" where "is_digit u \<longleftrightarrow> 48 \<le> u \<and> u \<le> 57"

definition digit_value :: "nat \<Rightarrow> nat" where
  "digit_value u = (if is_digit u then u - 48 else if 97 \<le> u \<and> u \<le> 102 then u - 87
     else if 65 \<le> u \<and> u \<le> 70 then u - 55 else 99)"

fun digits_value :: "nat \<Rightarrow> nat \<Rightarrow> ustr \<Rightarrow> nat" where
  "digits_value base acc [] = acc"
| "digits_value base acc (u # us) = digits_value base (base * acc + digit_value u) us"

definition radix_number :: "nat \<Rightarrow> ustr \<Rightarrow> int option" where
  "radix_number base ds =
     (if ds \<noteq> [] \<and> list_all (\<lambda>u. digit_value u < base) ds then Some (int (digits_value base 0 ds)) else None)"

fun sign_of :: "ustr \<Rightarrow> int \<times> ustr" where
  "sign_of [] = (1, [])"
| "sign_of (u # us) = (if u = 45 then (-1, us) else if u = 43 then (1, us) else (1, u # us))"

text \<open>The exponent of a decimal literal; \<^term>\<open>None\<close> when the text after it is not one.\<close>

definition exponent_of :: "ustr \<Rightarrow> int option" where
  "exponent_of s =
     (case s of [] \<Rightarrow> Some 0
      | u # us \<Rightarrow>
          if u \<noteq> 101 \<and> u \<noteq> 69 then None
          else let (sg, ds) = sign_of us
               in if ds \<noteq> [] \<and> list_all is_digit ds then Some (sg * int (digits_value 10 0 ds)) else None)"

definition integer_at_scale :: "int \<Rightarrow> int \<Rightarrow> int option" where
  "integer_at_scale n e =
     (if n = 0 then Some 0
      else if 0 \<le> e then (if 400 < e \<or> 2 ^ 1024 \<le> \<bar>n * 10 ^ nat e\<bar> then None else Some (n * 10 ^ nat e))
      else if 10 ^ nat (- e) dvd n then Some (n div 10 ^ nat (- e)) else None)"

definition decimal_integer :: "ustr \<Rightarrow> int option" where
  "decimal_integer s =
     (let (sg, r) = sign_of s;
          ip = takeWhile is_digit r;
          r1 = dropWhile is_digit r;
          fp = (case r1 of u # us \<Rightarrow> if u = 46 then takeWhile is_digit us else [] | [] \<Rightarrow> []);
          r2 = (case r1 of u # us \<Rightarrow> if u = 46 then dropWhile is_digit us else r1 | [] \<Rightarrow> [])
      in if ip = [] \<and> fp = [] then None
         else case exponent_of r2 of None \<Rightarrow> None
              | Some e \<Rightarrow> integer_at_scale (sg * int (digits_value 10 0 (ip @ fp))) (e - int (length fp)))"

text \<open>\<^verbatim>\<open>Number(s)\<close> where it is an integer; \<^term>\<open>None\<close> for NaN, a fraction or an infinity.\<close>

definition js_integer :: "ustr \<Rightarrow> int option" where
  "js_integer s =
     (let t = js_trim s
      in case t of [] \<Rightarrow> Some 0
         | [u] \<Rightarrow> decimal_integer t
         | u # v # ds \<Rightarrow>
             if u = 48 \<and> (v = 120 \<or> v = 88) then radix_number 16 ds
             else if u = 48 \<and> (v = 111 \<or> v = 79) then radix_number 8 ds
             else if u = 48 \<and> (v = 98 \<or> v = 66) then radix_number 2 ds
             else decimal_integer t)"

subsection \<open>Cron expressions\<close>

definition stepped :: "int \<Rightarrow> int \<Rightarrow> int \<Rightarrow> int list" where
  "stepped start stop step = map (\<lambda>k. start + int k * step) [0..<nat ((stop - start) div step) + 1]"

definition parse_part :: "int \<Rightarrow> int \<Rightarrow> ustr \<Rightarrow> int list option" where
  "parse_part lo hi part =
     (let split = split_on 47 part; rangePart = hd split in
      if 2 < length split then None
      else case (if length split = 2 then js_integer (split ! 1) else Some 1) of
             None \<Rightarrow> None
           | Some step \<Rightarrow>
               if step \<le> 0 then None
               else case (if rangePart = [42] \<or> rangePart = [] then (Some lo, Some hi)
                          else if 45 \<in> set rangePart
                          then (js_integer (split_on 45 rangePart ! 0), js_integer (split_on 45 rangePart ! 1))
                          else (js_integer rangePart, if length split = 2 then Some hi else js_integer rangePart)) of
                      (Some start, Some stop) \<Rightarrow>
                        if start < lo \<or> hi < stop \<or> stop < start then None else Some (stepped start stop step)
                    | _ \<Rightarrow> None)"

fun parse_parts :: "int \<Rightarrow> int \<Rightarrow> ustr list \<Rightarrow> int list \<Rightarrow> int list option" where
  "parse_parts lo hi [] values = Some values"
| "parse_parts lo hi (part # parts) values =
     (case parse_part lo hi part of None \<Rightarrow> None
      | Some vs \<Rightarrow> parse_parts lo hi parts (foldl set_add values vs))"

definition parseCronField :: "ustr \<Rightarrow> int \<Rightarrow> int \<Rightarrow> int list option" where
  "parseCronField field lo hi =
     (case parse_parts lo hi (split_on 44 field) [] of None \<Rightarrow> None
      | Some values \<Rightarrow> if values \<noteq> [] then Some values else None)"

record cron_matcher =
  cm_minute :: "int list"
  cm_hour :: "int list"
  cm_dayOfMonth :: "int list"
  cm_month :: "int list"
  cm_dayOfWeek :: "int list"
  cm_isDayOfMonthRestricted :: bool
  cm_isDayOfWeekRestricted :: bool
  cm_timeZone :: "ustr option"

definition parseCron :: "ustr \<Rightarrow> cron_matcher option" where
  "parseCron expression =
     (case split_on 32 expression of
        [mi, hr, dm, mo, dw] \<Rightarrow>
          (case (parseCronField mi 0 59, parseCronField hr 0 23, parseCronField dm 1 31,
                 parseCronField mo 1 12, parseCronField dw 0 7) of
             (Some minute, Some hour, Some dayOfMonth, Some month, Some rawDow) \<Rightarrow>
               Some \<lparr>cm_minute = minute, cm_hour = hour, cm_dayOfMonth = dayOfMonth, cm_month = month,
                     cm_dayOfWeek = unique (map (\<lambda>day. if day = 7 then 0 else day) rawDow),
                     cm_isDayOfMonthRestricted = (dm \<noteq> [42]), cm_isDayOfWeekRestricted = (dw \<noteq> [42]),
                     cm_timeZone = None\<rparr>
           | _ \<Rightarrow> None)
      | _ \<Rightarrow> None)"

text \<open>\<^verbatim>\<open>replace(/\s+/g, " ")\<close>.\<close>

fun squeeze :: "ustr \<Rightarrow> ustr" where
  "squeeze [] = []"
| "squeeze [u] = (if js_space u then [32] else [u])"
| "squeeze (u # v # us) =
     (if \<not> js_space u then u # squeeze (v # us)
      else if js_space v then squeeze (v # us) else 32 # squeeze (v # us))"

definition normalizeSchedule :: "ustr \<Rightarrow> ustr" where
  "normalizeSchedule raw = squeeze (js_trim raw)"

definition zone_prefix :: "ustr \<Rightarrow> ustr option" where
  "zone_prefix s =
     (if prefix (ascii ''CRON_TZ='') s then Some (drop 8 s)
      else if prefix (ascii ''TZ='') s then Some (drop 3 s) else None)"

definition splitScheduleTimeZone :: "ustr \<Rightarrow> ustr \<times> ustr option" where
  "splitScheduleTimeZone schedule =
     (let normalized = normalizeSchedule schedule in
      case zone_prefix normalized of None \<Rightarrow> (normalized, None)
      | Some r \<Rightarrow>
          let zone = takeWhile (\<lambda>u. \<not> js_space u) r; after = dropWhile (\<lambda>u. \<not> js_space u) r
          in if zone = [] \<or> after = [] then (normalized, None)
             else (dropWhile js_space after, Some zone))"

text \<open>
  Lower case where only ASCII results matter: the capitals, and the Kelvin sign, the one
  character outside ASCII whose lower case is an ASCII letter alone.
\<close>

definition to_lower :: "ustr \<Rightarrow> ustr" where
  "to_lower s = map (\<lambda>u. if 65 \<le> u \<and> u \<le> 90 then u + 32 else if u = 8490 then 107 else u) s"

definition CRON_ALIASES :: "(ustr \<times> ustr) list" where
  "CRON_ALIASES =
     [(ascii ''@hourly'', ascii ''0 * * * *''), (ascii ''@daily'', ascii ''0 0 * * *''),
      (ascii ''@midnight'', ascii ''0 0 * * *''), (ascii ''@weekly'', ascii ''0 0 * * 0''),
      (ascii ''@monthly'', ascii ''0 0 1 * *''), (ascii ''@yearly'', ascii ''0 0 1 1 *''),
      (ascii ''@annually'', ascii ''0 0 1 1 *'')]"

datatype js_error = NotAString

text \<open>
  \<^verbatim>\<open>CRON_ALIASES[key] ?? schedule\<close>: an object also answers for the properties it inherits, and
  two of their names are their own lower case. What it answers then is not a string, and the
  \<^verbatim>\<open>split\<close> that follows throws.
\<close>

definition inherited :: "ustr \<Rightarrow> bool" where
  "inherited key \<longleftrightarrow> key = ascii ''constructor'' \<or> key = ascii ''__proto__''"

definition expandCronAlias :: "ustr \<Rightarrow> js_error + ustr" where
  "expandCronAlias schedule =
     (case map_of CRON_ALIASES (to_lower schedule) of
        Some e \<Rightarrow> Inr e
      | None \<Rightarrow> if inherited (to_lower schedule) then Inl NotAString else Inr schedule)"

subsection \<open>Matching\<close>

record wall_clock =
  wc_year :: int
  wc_minute :: int
  wc_hour :: int
  wc_month :: int
  wc_dayOfMonth :: int
  wc_dayOfWeek :: int

definition cronDayMatches :: "cron_matcher \<Rightarrow> wall_clock \<Rightarrow> bool" where
  "cronDayMatches m w =
     (if wc_month w \<notin> set (cm_month m) then False
      else let dom = wc_dayOfMonth w \<in> set (cm_dayOfMonth m); dow = wc_dayOfWeek w \<in> set (cm_dayOfWeek m)
           in if cm_isDayOfMonthRestricted m \<and> cm_isDayOfWeekRestricted m then dom \<or> dow
              else (if cm_isDayOfMonthRestricted m then dom else True) \<and>
                   (if cm_isDayOfWeekRestricted m then dow else True))"

definition cronMatchesWallClock :: "cron_matcher \<Rightarrow> wall_clock \<Rightarrow> bool" where
  "cronMatchesWallClock m w \<longleftrightarrow>
     wc_minute w \<in> set (cm_minute m) \<and> wc_hour w \<in> set (cm_hour m) \<and> cronDayMatches m w"

subsection \<open>The search\<close>

definition MINUTE_MS :: int where "MINUTE_MS = 60000"
definition MAX_CRON_SEARCH_MINUTES :: nat where "MAX_CRON_SEARCH_MINUTES = 366 * 24 * 60"

definition same_date :: "wall_clock \<Rightarrow> wall_clock \<Rightarrow> bool" where
  "same_date a b \<longleftrightarrow> wc_year a = wc_year b \<and> wc_month a = wc_month b \<and> wc_dayOfMonth a = wc_dayOfMonth b"

definition to_midnight :: "wall_clock \<Rightarrow> int" where
  "to_midnight w = (23 - wc_hour w) * 60 + (60 - wc_minute w)"

text \<open>The loop, with fuel: \<^term>\<open>None\<close> is a loop that has not ended.\<close>

fun cron_search :: "nat \<Rightarrow> cron_matcher \<Rightarrow> (int \<Rightarrow> wall_clock) \<Rightarrow> int \<Rightarrow> int \<Rightarrow> int option option" where
  "cron_search 0 m wallClockOf cursor deadline = None"
| "cron_search (Suc n) m wallClockOf cursor deadline =
     (if cursor < deadline then
        (let wall = wallClockOf cursor in
         if cronMatchesWallClock m wall then Some (Some cursor)
         else if cronDayMatches m wall then cron_search n m wallClockOf (cursor + MINUTE_MS) deadline
         else let toMidnight = to_midnight wall;
                  candidate = cursor + toMidnight * MINUTE_MS;
                  nextWall = wallClockOf candidate
              in if same_date nextWall wall then cron_search n m wallClockOf candidate deadline
                 else let overshoot = min (wc_hour nextWall * 60 + wc_minute nextWall) (toMidnight - 1)
                      in cron_search n m wallClockOf (candidate - overshoot * MINUTE_MS) deadline)
      else Some None)"

definition cron_start :: "int \<Rightarrow> int" where
  "cron_start afterMs = (afterMs div MINUTE_MS) * MINUTE_MS + MINUTE_MS"

definition nextCronRun :: "cron_matcher \<Rightarrow> int \<Rightarrow> (int \<Rightarrow> wall_clock) \<Rightarrow> int option option" where
  "nextCronRun m afterMs wallClockOf =
     cron_search (Suc MAX_CRON_SEARCH_MINUTES) m wallClockOf (cron_start afterMs)
       (cron_start afterMs + int MAX_CRON_SEARCH_MINUTES * MINUTE_MS)"

subsection \<open>Schedules\<close>

definition unit_ms :: "nat \<Rightarrow> int option" where
  "unit_ms u =
     (if u = 115 \<or> u = 83 then Some 1000 else if u = 109 \<or> u = 77 then Some 60000
      else if u = 104 \<or> u = 72 then Some 3600000 else if u = 100 \<or> u = 68 then Some 86400000 else None)"

fun match_word :: "ustr \<Rightarrow> ustr \<Rightarrow> ustr option" where
  "match_word [] s = Some s"
| "match_word (c # cs) [] = None"
| "match_word (c # cs) (u # us) =
     (if u = c \<or> (97 \<le> c \<and> c \<le> 122 \<and> u + 32 = c) then match_word cs us else None)"

definition parseEveryIntervalMs :: "ustr \<Rightarrow> int option" where
  "parseEveryIntervalMs schedule =
     (case match_word (ascii ''@every'') (js_trim schedule) of None \<Rightarrow> None
      | Some r \<Rightarrow>
          let r1 = dropWhile js_space r; ds = takeWhile is_digit r1; r2 = dropWhile js_space (dropWhile is_digit r1)
          in if r = [] \<or> \<not> js_space (hd r) \<or> ds = [] then None
             else case r2 of
                    [u] \<Rightarrow> (case unit_ms u of None \<Rightarrow> None
                            | Some k \<Rightarrow>
                                let amount = int (digits_value 10 0 ds)
                                in if amount \<le> 0 \<or> 2 ^ 1024 \<le> amount then None else Some (amount * k))
                  | _ \<Rightarrow> None)"

record calendar =
  cal_zone_exists :: "ustr \<Rightarrow> bool"
  cal_zoned :: "ustr \<Rightarrow> int \<Rightarrow> wall_clock"
  cal_local :: "int \<Rightarrow> wall_clock"

definition compileCronMatcher :: "calendar \<Rightarrow> ustr \<Rightarrow> js_error + cron_matcher option" where
  "compileCronMatcher cal schedule =
     (let (rest, timeZone) = splitScheduleTimeZone schedule in
      case expandCronAlias rest of Inl e \<Rightarrow> Inl e
      | Inr expression \<Rightarrow>
          (case (parseCron expression, timeZone) of
             (None, _) \<Rightarrow> Inr None
           | (Some m, None) \<Rightarrow> Inr (Some m)
           | (Some m, Some z) \<Rightarrow>
               if \<not> cal_zone_exists cal z then Inr None else Inr (Some (m\<lparr>cm_timeZone := Some z\<rparr>))))"

definition wall_of :: "calendar \<Rightarrow> ustr option \<Rightarrow> int \<Rightarrow> wall_clock" where
  "wall_of cal zone =
     (case zone of None \<Rightarrow> cal_local cal
      | Some z \<Rightarrow> if z \<noteq> [] \<and> cal_zone_exists cal z then cal_zoned cal z else cal_local cal)"

text \<open>\<^verbatim>\<open>a ?? b\<close> on options.\<close>

definition or_else :: "'a option \<Rightarrow> 'a option \<Rightarrow> 'a option" where
  "or_else a b = (case a of Some _ \<Rightarrow> a | None \<Rightarrow> b)"

definition computeNextRunAt :: "calendar \<Rightarrow> ustr \<Rightarrow> int \<Rightarrow> ustr option \<Rightarrow> js_error + int option option" where
  "computeNextRunAt cal schedule afterMs timeZone =
     (let normalized = normalizeSchedule schedule in
      case parseEveryIntervalMs normalized of
        Some interval \<Rightarrow> Inr (Some (Some (afterMs + interval)))
      | None \<Rightarrow>
          (case compileCronMatcher cal normalized of
             Inl e \<Rightarrow> Inl e
           | Inr None \<Rightarrow> Inr (Some None)
           | Inr (Some m) \<Rightarrow> Inr (nextCronRun m afterMs (wall_of cal (or_else (cm_timeZone m) timeZone)))))"


subsection \<open>Fields stay in range\<close>

lemma stepped_range:
  assumes "0 < step" and "start \<le> stop" and "v \<in> set (stepped start stop step)"
  shows "start \<le> v \<and> v \<le> stop"
proof -
  from assms(3) have "v \<in> (\<lambda>k. start + int k * step) ` {0..<nat ((stop - start) div step) + 1}"
    by (simp add: stepped_def del: upt_Suc)
  then obtain k where k: "v = start + int k * step" and "k \<in> {0..<nat ((stop - start) div step) + 1}" by blast
  then have k2: "k < nat ((stop - start) div step) + 1" by simp
  have "0 \<le> (stop - start) div step" using assms by (simp add: pos_imp_zdiv_nonneg_iff)
  with k2 have "int k \<le> (stop - start) div step" by linarith
  then have "int k * step \<le> (stop - start) div step * step" using assms(1) by (simp add: mult_right_mono)
  also have "\<dots> \<le> stop - start" using assms(1) pos_mod_sign [of step "stop - start"] by (simp add: minus_mod_eq_div_mult [symmetric])
  finally show ?thesis using assms(1) k by simp
qed

definition part_bounds :: "int \<Rightarrow> int \<Rightarrow> ustr \<Rightarrow> int option \<times> int option" where
  "part_bounds lo hi part =
     (let split = split_on 47 part; rangePart = hd split
      in if rangePart = [42] \<or> rangePart = [] then (Some lo, Some hi)
         else if 45 \<in> set rangePart
         then (js_integer (split_on 45 rangePart ! 0), js_integer (split_on 45 rangePart ! 1))
         else (js_integer rangePart, if length split = 2 then Some hi else js_integer rangePart))"

definition part_step :: "ustr \<Rightarrow> int option" where
  "part_step part =
     (if length (split_on 47 part) = 2 then js_integer (split_on 47 part ! 1) else Some 1)"

lemma parse_part_eq:
  "parse_part lo hi part =
     (if 2 < length (split_on 47 part) then None
      else case part_step part of
             None \<Rightarrow> None
           | Some step \<Rightarrow>
               if step \<le> 0 then None
               else case part_bounds lo hi part of
                      (Some start, Some stop) \<Rightarrow>
                        if start < lo \<or> hi < stop \<or> stop < start then None else Some (stepped start stop step)
                    | _ \<Rightarrow> None)"
  unfolding parse_part_def part_bounds_def part_step_def Let_def by (rule refl)

lemma parse_part_range:
  assumes "parse_part lo hi part = Some vs"
  shows "vs \<noteq> [] \<and> (\<forall>v \<in> set vs. lo \<le> v \<and> v \<le> hi)"
proof -
  obtain a b where ab: "part_bounds lo hi part = (a, b)" by fastforce
  from assms obtain step where step: "part_step part = Some step" "0 < step"
    by (cases "part_step part") (auto simp: parse_part_eq split: if_splits)
  from assms ab step obtain start stop where bounds: "a = Some start" "b = Some stop"
    by (cases a; cases b) (simp_all add: parse_part_eq split: if_splits)
  from assms step ab bounds have s: "0 < step" "lo \<le> start" "stop \<le> hi" "start \<le> stop" "vs = stepped start stop step"
    by (simp_all add: parse_part_eq split: if_splits)
  have "vs \<noteq> []" using s(5) by (simp add: stepped_def)
  with stepped_range [OF s(1,4)] s show ?thesis by fastforce
qed

lemma parse_parts_range:
  "parse_parts lo hi parts acc = Some vs \<Longrightarrow> distinct acc \<Longrightarrow> \<forall>v \<in> set acc. lo \<le> v \<and> v \<le> hi \<Longrightarrow>
   distinct vs \<and> (\<forall>v \<in> set vs. lo \<le> v \<and> v \<le> hi)"
proof (induction parts arbitrary: acc)
  case Nil
  then show ?case by simp
next
  case (Cons part parts)
  from Cons.prems(1) obtain us where us: "parse_part lo hi part = Some us" by (cases "parse_part lo hi part") simp_all
  with Cons.prems(1) have "parse_parts lo hi parts (foldl set_add acc us) = Some vs" by simp
  then show ?case
  proof (rule Cons.IH)
    show "distinct (foldl set_add acc us)" using Cons.prems(2) by simp
    show "\<forall>v \<in> set (foldl set_add acc us). lo \<le> v \<and> v \<le> hi"
      using parse_part_range [OF us] Cons.prems(3) by (simp add: ball_Un)
  qed
qed

lemma parseCronField_range:
  "parseCronField field lo hi = Some vs \<Longrightarrow> vs \<noteq> [] \<and> distinct vs \<and> (\<forall>v \<in> set vs. lo \<le> v \<and> v \<le> hi)"
  by (auto simp: parseCronField_def split: option.splits if_splits dest!: parse_parts_range)

definition matcher_ok :: "cron_matcher \<Rightarrow> bool" where
  "matcher_ok m \<longleftrightarrow>
     list_all (\<lambda>v. 0 \<le> v \<and> v \<le> 59) (cm_minute m) \<and> list_all (\<lambda>v. 0 \<le> v \<and> v \<le> 23) (cm_hour m) \<and>
     list_all (\<lambda>v. 1 \<le> v \<and> v \<le> 31) (cm_dayOfMonth m) \<and> list_all (\<lambda>v. 1 \<le> v \<and> v \<le> 12) (cm_month m) \<and>
     list_all (\<lambda>v. 0 \<le> v \<and> v \<le> 6) (cm_dayOfWeek m) \<and>
     list_all (\<lambda>vs. 1 \<le> length vs \<and> distinct vs)
       [cm_minute m, cm_hour m, cm_dayOfMonth m, cm_month m, cm_dayOfWeek m]"

lemma parseCron_ok:
  assumes "parseCron expression = Some m"
  shows "matcher_ok m"
proof -
  from assms obtain mi hr dm mo dw raw where f:
    "parseCronField mi 0 59 = Some (cm_minute m)" "parseCronField hr 0 23 = Some (cm_hour m)"
    "parseCronField dm 1 31 = Some (cm_dayOfMonth m)" "parseCronField mo 1 12 = Some (cm_month m)"
    and raw: "parseCronField dw 0 7 = Some raw" "cm_dayOfWeek m = unique (map (\<lambda>day. if day = 7 then 0 else day) raw)"
    by (auto simp: parseCron_def split: list.splits option.splits)
  note r = f [THEN parseCronField_range] parseCronField_range [OF raw(1)]
  have days: "\<forall>v \<in> set (cm_dayOfWeek m). 0 \<le> v \<and> v \<le> 6" using r(5) raw(2) by fastforce
  have ne: "cm_dayOfWeek m \<noteq> []" "distinct (cm_dayOfWeek m)" using r(5) raw(2) by auto
  from r(1-4) days ne show ?thesis by (auto simp: matcher_ok_def list_all_iff Suc_le_eq)
qed

subsection \<open>The search against a plain one\<close>

text \<open>The first matching minute of \<open>n\<close>, one after the other.\<close>

definition first_match :: "cron_matcher \<Rightarrow> (int \<Rightarrow> wall_clock) \<Rightarrow> int \<Rightarrow> nat \<Rightarrow> int option" where
  "first_match m w c n = find (\<lambda>t. cronMatchesWallClock m (w t)) (map (\<lambda>k. c + int k * MINUTE_MS) [0..<n])"

text \<open>
  What the search relies on of a wall clock, on the minutes it visits: hours and minutes are in
  range; the date fixes the day of the week; the minutes of one date are consecutive; and when
  the date has changed by the naive midnight, the clock shows at least the time gone since. A
  clock with a fixed offset has this, and so has a change of offset that does not repeat the
  first hours of a day.
\<close>

definition civil_clock :: "(int \<Rightarrow> wall_clock) \<Rightarrow> bool" where
  "civil_clock w \<longleftrightarrow>
     (\<forall>t. 0 \<le> wc_hour (w t) \<and> wc_hour (w t) \<le> 23 \<and> 0 \<le> wc_minute (w t) \<and> wc_minute (w t) \<le> 59) \<and>
     (\<forall>s t. same_date (w s) (w t) \<longrightarrow> wc_dayOfWeek (w s) = wc_dayOfWeek (w t)) \<and>
     (\<forall>r s t. r \<le> s \<and> s \<le> t \<and> same_date (w t) (w r) \<longrightarrow> same_date (w s) (w r)) \<and>
     (\<forall>r i j. 0 \<le> i \<and> i \<le> j \<and> j \<le> to_midnight (w r) \<and>
        \<not> same_date (w (r + j * MINUTE_MS)) (w r) \<and> \<not> same_date (w (r + i * MINUTE_MS)) (w r) \<longrightarrow>
        j - i \<le> wc_hour (w (r + j * MINUTE_MS)) * 60 + wc_minute (w (r + j * MINUTE_MS)))"

lemma first_match_0 [simp]: "first_match m w c 0 = None"
  by (simp add: first_match_def)

lemma first_match_Suc:
  "first_match m w c (Suc n) =
     (if cronMatchesWallClock m (w c) then Some c else first_match m w (c + MINUTE_MS) n)"
proof -
  have "map (\<lambda>k. c + int k * MINUTE_MS) [0..<Suc n] = c # map (\<lambda>k. c + MINUTE_MS + int k * MINUTE_MS) [0..<n]"
    unfolding upt_conv_Cons [OF zero_less_Suc] by (simp add: map_Suc_upt [symmetric] algebra_simps del: map_Suc_upt upt_Suc)
  then show ?thesis by (simp only: first_match_def find.simps)
qed

lemma first_match_skip:
  "(\<And>k. k < j \<Longrightarrow> \<not> cronMatchesWallClock m (w (c + int k * MINUTE_MS))) \<Longrightarrow>
   first_match m w c n = first_match m w (c + int j * MINUTE_MS) (n - j)"
proof (induction j arbitrary: c n)
  case 0
  then show ?case by simp
next
  case (Suc j)
  have no: "\<not> cronMatchesWallClock m (w c)" using Suc.prems [of 0] by simp
  have rest: "\<not> cronMatchesWallClock m (w (c + MINUTE_MS + int k * MINUTE_MS))" if "k < j" for k
    using Suc.prems [of "Suc k"] that by (simp add: algebra_simps)
  show ?case
  proof (cases n)
    case 0
    then show ?thesis by simp
  next
    case (Suc n')
    with no Suc.IH [OF rest, of n'] show ?thesis by (simp add: first_match_Suc algebra_simps)
  qed
qed

lemma same_date_days:
  "same_date a b \<Longrightarrow> wc_dayOfWeek a = wc_dayOfWeek b \<Longrightarrow> cronDayMatches m a = cronDayMatches m b"
  by (simp add: same_date_def cronDayMatches_def)

lemma cron_search_done: "deadline \<le> cursor \<Longrightarrow> cron_search (Suc n) m w cursor deadline = Some None"
  by simp


text \<open>Every branch of the loop moves the cursor by whole minutes over minutes that do not match.\<close>

lemma skip_safe:
  assumes clock: "civil_clock w" and day: "\<not> cronDayMatches m (w c)"
    and target: "\<And>k. k < j \<Longrightarrow> same_date (w (c + int k * MINUTE_MS)) (w c)"
  shows "first_match m w c n = first_match m w (c + int j * MINUTE_MS) (n - j)"
proof (rule first_match_skip)
  fix k assume "k < j"
  from target [OF this] have same: "same_date (w (c + int k * MINUTE_MS)) (w c)" .
  with clock have "wc_dayOfWeek (w (c + int k * MINUTE_MS)) = wc_dayOfWeek (w c)" by (auto simp: civil_clock_def)
  with same_date_days [OF same] day show "\<not> cronMatchesWallClock m (w (c + int k * MINUTE_MS))"
    by (simp add: cronMatchesWallClock_def)
qed

lemma MINUTE_pos: "0 < MINUTE_MS"
  by (simp add: MINUTE_MS_def)

lemma to_midnight_pos:
  assumes "civil_clock w"
  shows "1 \<le> to_midnight (w c)"
proof -
  from assms have "wc_hour (w c) \<le> 23 \<and> wc_minute (w c) \<le> 59" unfolding civil_clock_def by blast
  then show ?thesis by (simp add: to_midnight_def)
qed

lemma same_day_skip:
  assumes clock: "civil_clock w" and same: "same_date (w (c + to_midnight (w c) * MINUTE_MS)) (w c)"
    and k: "k < nat (to_midnight (w c))"
  shows "same_date (w (c + int k * MINUTE_MS)) (w c)"
proof -
  have "c \<le> c + int k * MINUTE_MS" using MINUTE_pos by simp
  moreover have "int k \<le> to_midnight (w c)" using k by linarith
  then have "c + int k * MINUTE_MS \<le> c + to_midnight (w c) * MINUTE_MS" using MINUTE_pos by simp
  ultimately show ?thesis using clock same unfolding civil_clock_def by blast
qed

lemma midnight_skip:
  assumes clock: "civil_clock w" and new: "\<not> same_date (w (c + to_midnight (w c) * MINUTE_MS)) (w c)"
  defines "e \<equiv> c + to_midnight (w c) * MINUTE_MS"
  defines "over \<equiv> min (wc_hour (w e) * 60 + wc_minute (w e)) (to_midnight (w c) - 1)"
  assumes k: "k < nat (to_midnight (w c) - over)"
  shows "same_date (w (c + int k * MINUTE_MS)) (w c)"
proof (rule ccontr)
  assume changed: "\<not> same_date (w (c + int k * MINUTE_MS)) (w c)"
  have "k \<noteq> 0" using changed by (cases "k = 0") (simp_all add: same_date_def)
  have kT: "int k < to_midnight (w c) - over" using k by linarith
  have over0: "0 \<le> over"
  proof -
    have "0 \<le> wc_hour (w e)" "0 \<le> wc_minute (w e)" using clock unfolding civil_clock_def by blast+
    with to_midnight_pos [OF clock, of c] show ?thesis by (simp add: over_def)
  qed
  have lag: "0 \<le> i \<and> i \<le> j \<and> j \<le> to_midnight (w r) \<and>
      \<not> same_date (w (r + j * MINUTE_MS)) (w r) \<and> \<not> same_date (w (r + i * MINUTE_MS)) (w r) \<longrightarrow>
      j - i \<le> wc_hour (w (r + j * MINUTE_MS)) * 60 + wc_minute (w (r + j * MINUTE_MS))" for r i j
    using clock unfolding civil_clock_def by blast
  have "to_midnight (w c) - int k \<le> wc_hour (w e) * 60 + wc_minute (w e)"
    using lag [of "int k" "to_midnight (w c)" c] changed new kT over0 by (simp add: e_def)
  with kT \<open>k \<noteq> 0\<close> show False by (auto simp: over_def min_def split: if_splits)
qed

lemma cron_search_first:
  assumes clock: "civil_clock w"
  shows "n < fuel \<Longrightarrow> deadline = c + int n * MINUTE_MS \<or> (n = 0 \<and> deadline \<le> c) \<Longrightarrow>
    cron_search fuel m w c deadline = Some (first_match m w c n)"
proof (induction n arbitrary: fuel c rule: less_induct)
  case (less n)
  then obtain f where fuel: "fuel = Suc f" by (cases fuel) auto
  show ?case
  proof (cases "n = 0")
    case True
    with less.prems(2) have "deadline \<le> c" by auto
    with True show ?thesis unfolding fuel by (simp only: cron_search_done first_match_0)
  next
    case False
    with less.prems have dl: "deadline = c + int n * MINUTE_MS" by simp
    with False MINUTE_pos have lt: "c < deadline" by simp
    have step: "cron_search f m w (c + int j * MINUTE_MS) deadline = Some (first_match m w (c + int j * MINUTE_MS) (n - j))"
      if "1 \<le> j" for j
    proof (rule less.IH)
      show "n - j < n" "n - j < f" using that False less.prems(1) fuel by auto
      show "deadline = c + int j * MINUTE_MS + int (n - j) * MINUTE_MS \<or> (n - j = 0 \<and> deadline \<le> c + int j * MINUTE_MS)"
      proof (cases "j \<le> n")
        case True
        then show ?thesis by (simp add: dl of_nat_diff algebra_simps)
      next
        case nj: False
        then have "int n * MINUTE_MS \<le> int j * MINUTE_MS" using MINUTE_pos by simp
        with nj show ?thesis by (simp add: dl)
      qed
    qed
    let ?T = "to_midnight (w c)"
    let ?e = "c + ?T * MINUTE_MS"
    have T: "1 \<le> ?T" by (rule to_midnight_pos [OF clock])
    consider (hit) "cronMatchesWallClock m (w c)"
      | (day) "\<not> cronMatchesWallClock m (w c)" "cronDayMatches m (w c)"
      | (same) "\<not> cronMatchesWallClock m (w c)" "\<not> cronDayMatches m (w c)" "same_date (w ?e) (w c)"
      | (skip) "\<not> cronMatchesWallClock m (w c)" "\<not> cronDayMatches m (w c)" "\<not> same_date (w ?e) (w c)"
      by blast
    then show ?thesis
    proof cases
      case hit
      with fuel lt False show ?thesis by (cases n) (simp_all add: Let_def first_match_Suc)
    next
      case day
      with fuel lt step [of 1] first_match_skip [of 1 m w c n] show ?thesis by (simp add: Let_def)
    next
      case same
      have e: "?e = c + int (nat ?T) * MINUTE_MS" using T by simp
      have "first_match m w c n = first_match m w (c + int (nat ?T) * MINUTE_MS) (n - nat ?T)"
        by (rule skip_safe [OF clock same(2) same_day_skip [OF clock same(3)]])
      with same fuel lt step [of "nat ?T"] T show ?thesis by (simp add: Let_def)
    next
      case skip
      let ?over = "min (wc_hour (w ?e) * 60 + wc_minute (w ?e)) (?T - 1)"
      have "?over \<le> ?T - 1" by (rule min.cobounded2)
      then have N: "int (nat (?T - ?over)) = ?T - ?over" by simp
      have e: "?e - ?over * MINUTE_MS = c + int (nat (?T - ?over)) * MINUTE_MS" unfolding N by (simp only: left_diff_distrib)
      have first: "first_match m w c n = first_match m w (c + int (nat (?T - ?over)) * MINUTE_MS) (n - nat (?T - ?over))"
        by (rule skip_safe [OF clock skip(2) midnight_skip [OF clock skip(3)]])
      have "1 \<le> nat (?T - ?over)" by linarith
      note later = step [OF this, folded e first]
      from skip fuel lt have "cron_search fuel m w c deadline = cron_search f m w (?e - ?over * MINUTE_MS) deadline"
        by (simp add: Let_def)
      with later show ?thesis by simp
    qed
  qed
qed

text \<open>A clock at a constant distance from a calendar that never gives two days one date is civil.\<close>

definition DAY_MS :: int where "DAY_MS = 86400000"

definition fixed_clock :: "int \<Rightarrow> (int \<Rightarrow> int \<times> int \<times> int) \<Rightarrow> int \<Rightarrow> wall_clock" where
  "fixed_clock offset date t =
     (let l = t + offset; (y, mo, d) = date (l div DAY_MS) in
      \<lparr>wc_year = y, wc_minute = (l div MINUTE_MS) mod 60, wc_hour = (l div 3600000) mod 24,
       wc_month = mo, wc_dayOfMonth = d, wc_dayOfWeek = (l div DAY_MS + 4) mod 7\<rparr>)"

lemma fixed_clock_fields:
  "wc_minute (fixed_clock offset date t) = ((t + offset) div 60000) mod 60"
  "wc_hour (fixed_clock offset date t) = ((t + offset) div 3600000) mod 24"
  "wc_dayOfWeek (fixed_clock offset date t) = ((t + offset) div 86400000 + 4) mod 7"
  by (simp_all add: fixed_clock_def Let_def MINUTE_MS_def DAY_MS_def split: prod.splits)

lemma fixed_clock_same_date:
  assumes "inj date"
  shows "same_date (fixed_clock offset date s) (fixed_clock offset date t) \<longleftrightarrow>
    (s + offset) div 86400000 = (t + offset) div 86400000"
proof -
  have "same_date (fixed_clock offset date s) (fixed_clock offset date t) \<longleftrightarrow>
      date ((s + offset) div 86400000) = date ((t + offset) div 86400000)"
    by (auto simp: fixed_clock_def same_date_def Let_def DAY_MS_def split: prod.splits)
  then show ?thesis by (simp add: inj_eq [OF assms])
qed

text \<open>Milliseconds in terms of the minutes since the epoch.\<close>

lemma minutes_div:
  "(q + j * 60000) div 86400000 = (q div 60000 + j) div (1440::int)"
  "(q + j * 60000) div 3600000 = (q div 60000 + j) div 60" "(q + j * 60000) div 60000 = q div 60000 + j"
  "q div 86400000 = q div 60000 div 1440" "q div 3600000 = q div 60000 div 60"
proof -
  have q: "x div 86400000 = x div 60000 div 1440" "x div 3600000 = x div 60000 div 60" for x :: int
    using zdiv_zmult2_eq [of 1440 x 60000] zdiv_zmult2_eq [of 60 x 60000] by simp_all
  show m: "(q + j * 60000) div 60000 = q div 60000 + j" by simp
  show "(q + j * 60000) div 86400000 = (q div 60000 + j) div 1440"
    "(q + j * 60000) div 3600000 = (q div 60000 + j) div 60" unfolding q m by (rule refl)+
  show "q div 86400000 = q div 60000 div 1440" "q div 3600000 = q div 60000 div 60" by (rule q)+
qed

lemma minute_of_day: "(m div 60) mod 24 * 60 + m mod 60 = m mod (1440::int)"
  using zmod_zmult2_eq [of 24 m 60] by simp

lemma lag_at_midnight:
  fixes m :: int
  assumes "i \<le> j" "j \<le> 1440 - m mod 1440" "(m + j) div 1440 \<noteq> m div 1440" "(m + i) div 1440 \<noteq> m div 1440"
    and "0 \<le> i"
  shows "j - i \<le> (m + j) mod 1440"
proof -
  have le: "(m div 1440 + 1) * 1440 \<le> m + k" if "0 \<le> k" "(m + k) div 1440 \<noteq> m div 1440" for k
  proof -
    have "m div 1440 \<le> (m + k) div 1440" using that(1) by (simp add: zdiv_mono1)
    with that(2) have "m div 1440 + 1 \<le> (m + k) div 1440" by simp
    then have "(m div 1440 + 1) * 1440 \<le> (m + k) div 1440 * 1440" by simp
    also have "\<dots> \<le> m + k" by (simp add: minus_mod_eq_div_mult [symmetric])
    finally show ?thesis .
  qed
  have "m + j \<le> (m div 1440 + 1) * 1440" using assms(2) div_mult_mod_eq [of m 1440] by (simp only: distrib_right)
  with le [of i] assms have "j = i" by linarith
  then show ?thesis by simp
qed

lemma fixed_clock_civil:
  assumes "inj date"
  shows "civil_clock (fixed_clock offset date)"
proof -
  have lag: "j - i \<le> ((r + j * 60000 + offset) div 3600000) mod 24 * 60 + ((r + j * 60000 + offset) div 60000) mod 60"
    if i: "0 \<le> i" "i \<le> j"
      and j: "j \<le> (23 - ((r + offset) div 3600000) mod 24) * 60 + (60 - ((r + offset) div 60000) mod 60)"
      and d: "(r + j * 60000 + offset) div 86400000 \<noteq> (r + offset) div 86400000"
        "(r + i * 60000 + offset) div 86400000 \<noteq> (r + offset) div 86400000" for r i j
  proof -
    let ?m = "(r + offset) div 60000"
    have shift: "r + k * 60000 + offset = (r + offset) + k * 60000" for k by simp
    have "j \<le> 1440 - (?m div 60 mod 24 * 60 + ?m mod 60)"
      using j unfolding minutes_div(5) by (simp only: left_diff_distrib)
    then have "j \<le> 1440 - ?m mod 1440" unfolding minute_of_day .
    moreover have "(?m + j) div 1440 \<noteq> ?m div 1440" "(?m + i) div 1440 \<noteq> ?m div 1440"
      using d unfolding shift minutes_div(1) unfolding minutes_div(4) .
    ultimately have "j - i \<le> (?m + j) mod 1440" using lag_at_midnight [of i j ?m] i by blast
    then show ?thesis unfolding shift minutes_div(2,3) minute_of_day .
  qed
  have days: "(s + offset) div 86400000 = (r + offset) div 86400000"
    if "r \<le> s" "s \<le> t" "(t + offset) div 86400000 = (r + offset) div 86400000" for r s t :: int
    using that by linarith
  show ?thesis
    unfolding civil_clock_def fixed_clock_same_date [OF assms] to_midnight_def fixed_clock_fields MINUTE_MS_def
  proof (intro conjI allI impI; (elim conjE)?)
    show "0 \<le> (t + offset) div 3600000 mod 24" "(t + offset) div 3600000 mod 24 \<le> 23"
      "0 \<le> (t + offset) div 60000 mod 60" "(t + offset) div 60000 mod 60 \<le> 59" for t by simp_all
    show "((s + offset) div 86400000 + 4) mod 7 = ((t + offset) div 86400000 + 4) mod 7"
      if "(s + offset) div 86400000 = (t + offset) div 86400000" for s t using that by simp
  qed (rule days lag; assumption)+
qed


subsection \<open>Properties\<close>

definition clock_in_range :: "(int \<Rightarrow> wall_clock) \<Rightarrow> bool" where
  "clock_in_range w \<longleftrightarrow> (\<forall>t. 0 \<le> wc_hour (w t) \<and> wc_hour (w t) \<le> 23 \<and> 0 \<le> wc_minute (w t) \<and> wc_minute (w t) \<le> 59)"

lemma civil_in_range: "civil_clock w \<Longrightarrow> clock_in_range w"
  by (simp add: civil_clock_def clock_in_range_def)

text \<open>One step of the loop moves the cursor by at least a minute, by whole minutes.\<close>

lemma cron_search_step:
  assumes range: "clock_in_range w" and no: "\<not> cronMatchesWallClock m (w c)" and lt: "c < deadline"
  obtains j where "1 \<le> j" "cron_search (Suc f) m w c deadline = cron_search f m w (c + int j * MINUTE_MS) deadline"
proof -
  let ?T = "to_midnight (w c)"
  let ?e = "c + ?T * MINUTE_MS"
  let ?over = "min (wc_hour (w ?e) * 60 + wc_minute (w ?e)) (?T - 1)"
  from range have "wc_hour (w c) \<le> 23 \<and> wc_minute (w c) \<le> 59" unfolding clock_in_range_def by blast
  then have T: "1 \<le> ?T" by (simp add: to_midnight_def)
  have "?over \<le> ?T - 1" by (rule min.cobounded2)
  then have over: "1 \<le> nat (?T - ?over)" "int (nat (?T - ?over)) = ?T - ?over" by simp_all
  have bk: "?e - ?over * MINUTE_MS = c + int (nat (?T - ?over)) * MINUTE_MS"
    unfolding over(2) by (simp only: left_diff_distrib)
  have step: "cron_search (Suc f) m w c deadline =
      cron_search f m w (if cronDayMatches m (w c) then c + MINUTE_MS else if same_date (w ?e) (w c) then ?e
                         else ?e - ?over * MINUTE_MS) deadline"
    using no lt by (simp add: Let_def)
  consider "cronDayMatches m (w c)" | "\<not> cronDayMatches m (w c)" "same_date (w ?e) (w c)"
    | "\<not> cronDayMatches m (w c)" "\<not> same_date (w ?e) (w c)" by blast
  then show ?thesis
  proof cases
    case 1
    show ?thesis using that [of 1] step 1 by simp
  next
    case 2
    show ?thesis using that [of "nat ?T"] step 2 T by simp
  next
    case 3
    show ?thesis using that [OF over(1)] step 3 unfolding bk by simp
  qed
qed

lemma cron_search_hit:
  "c < deadline \<Longrightarrow> cronMatchesWallClock m (w c) \<Longrightarrow> cron_search (Suc n) m w c deadline = Some (Some c)"
  by (simp add: Let_def)

lemma cron_search_ends:
  assumes range: "clock_in_range w"
  shows "deadline \<le> c + int fuel * MINUTE_MS \<Longrightarrow>
    \<exists>r. cron_search (Suc fuel) m w c deadline = Some r \<and>
      (\<forall>t. r = Some t \<longrightarrow> cronMatchesWallClock m (w t) \<and> t < deadline \<and> (\<exists>k. t = c + int k * MINUTE_MS))"
proof (induction fuel arbitrary: c)
  case 0
  then show ?case by simp
next
  case (Suc f)
  show ?case
  proof (cases "c < deadline \<and> \<not> cronMatchesWallClock m (w c)")
    case True
    with cron_search_step [OF range, of m c deadline "Suc f"] obtain j where j: "1 \<le> j"
      "cron_search (Suc (Suc f)) m w c deadline = cron_search (Suc f) m w (c + int j * MINUTE_MS) deadline" by blast
    have "1 * MINUTE_MS \<le> int j * MINUTE_MS" using j(1) MINUTE_pos by (simp add: mult_right_mono)
    with Suc.prems have "deadline \<le> c + int j * MINUTE_MS + int f * MINUTE_MS" by (simp add: distrib_right)
    from Suc.IH [OF this] obtain r where r: "cron_search (Suc f) m w (c + int j * MINUTE_MS) deadline = Some r"
      and t: "\<And>t. r = Some t \<Longrightarrow> cronMatchesWallClock m (w t) \<and> t < deadline \<and> (\<exists>k. t = c + int j * MINUTE_MS + int k * MINUTE_MS)"
      by blast
    have "\<exists>k. c + int j * MINUTE_MS + int i * MINUTE_MS = c + int k * MINUTE_MS" for i
      by (rule exI [of _ "j + i"]) (simp add: distrib_right)
    with t have "\<And>t. r = Some t \<Longrightarrow> cronMatchesWallClock m (w t) \<and> t < deadline \<and> (\<exists>k. t = c + int k * MINUTE_MS)"
      by metis
    with r show ?thesis unfolding j(2) by blast
  next
    case False
    have "\<exists>k. c = c + int k * MINUTE_MS" by (rule exI [of _ 0]) simp
    with False show ?thesis
      by (cases "c < deadline") (simp_all only: cron_search_done cron_search_hit, simp_all)
  qed
qed

lemma cron_start_after: "after < cron_start after" "MINUTE_MS dvd cron_start after" "cron_start after \<le> after + MINUTE_MS"
proof -
  have "after div MINUTE_MS * MINUTE_MS + after mod MINUTE_MS = after" by simp
  moreover have "0 \<le> after mod MINUTE_MS" "after mod MINUTE_MS < MINUTE_MS" using MINUTE_pos by simp_all
  ultimately show "after < cron_start after" "cron_start after \<le> after + MINUTE_MS" unfolding cron_start_def by linarith+
  show "MINUTE_MS dvd cron_start after" by (simp add: cron_start_def)
qed

lemma nextCronRun_ends:
  assumes "clock_in_range w"
  obtains r where "nextCronRun m after w = Some r"
    "\<And>t. r = Some t \<Longrightarrow> cronMatchesWallClock m (w t) \<and> after < t \<and>
       t < cron_start after + int MAX_CRON_SEARCH_MINUTES * MINUTE_MS \<and> MINUTE_MS dvd t"
proof -
  from cron_search_ends [OF assms order_refl, where c = "cron_start after" and fuel = MAX_CRON_SEARCH_MINUTES and m = m]
  obtain r where r: "nextCronRun m after w = Some r"
    and t: "\<And>t. r = Some t \<Longrightarrow> cronMatchesWallClock m (w t) \<and>
       t < cron_start after + int MAX_CRON_SEARCH_MINUTES * MINUTE_MS \<and> (\<exists>k. t = cron_start after + int k * MINUTE_MS)"
    unfolding nextCronRun_def by blast
  have "after < cron_start after + int k * MINUTE_MS \<and> MINUTE_MS dvd cron_start after + int k * MINUTE_MS" for k
  proof -
    have "0 \<le> int k * MINUTE_MS" using MINUTE_pos by simp
    moreover have "MINUTE_MS dvd cron_start after + int k * MINUTE_MS" using cron_start_after(2) by simp
    ultimately show ?thesis using cron_start_after(1) [of after] by linarith
  qed
  with t have "\<And>t. r = Some t \<Longrightarrow> cronMatchesWallClock m (w t) \<and> after < t \<and>
      t < cron_start after + int MAX_CRON_SEARCH_MINUTES * MINUTE_MS \<and> MINUTE_MS dvd t" by metis
  with r that show ?thesis by blast
qed

lemma first_match_None: "first_match m w c n = None \<longleftrightarrow> (\<forall>k < n. \<not> cronMatchesWallClock m (w (c + int k * MINUTE_MS)))"
  by (auto simp: first_match_def find_None_iff)

text \<open>A calendar of months of 31 days, to have clocks at hand.\<close>

definition plain_date :: "int \<Rightarrow> int \<times> int \<times> int" where
  "plain_date d = (1970 + d div 372, (d div 31) mod 12 + 1, d mod 31 + 1)"

lemma inj_plain_date: "inj plain_date"
proof (rule injI)
  fix a b assume "plain_date a = plain_date b"
  then have e: "a div 372 = b div 372" "(a div 31) mod 12 = (b div 31) mod 12" "a mod 31 = b mod 31"
    by (simp_all add: plain_date_def)
  have q: "x div 372 = x div 31 div 12" for x :: int using zdiv_zmult2_eq [of 12 x 31] by simp
  have "a div 31 div 12 = b div 31 div 12" using e(1) unfolding q .
  with e(2) have "a div 31 = b div 31" using div_mult_mod_eq [of "a div 31" 12] div_mult_mod_eq [of "b div 31" 12] by metis
  with e(3) show "a = b" using div_mult_mod_eq [of a 31] div_mult_mod_eq [of b 31] by metis
qed


text \<open>
  Property C14. The search for the next run, which steps over days that cannot match and comes back
  from a midnight it has overshot, finds exactly what trying every minute of the next 366 days
  would find, on every civil clock.
\<close>
theorem next_run_is_first_match:
  assumes "civil_clock w"
  shows "nextCronRun m after w = Some (first_match m w (cron_start after) MAX_CRON_SEARCH_MINUTES)"
  unfolding nextCronRun_def by (rule cron_search_first [OF assms]) simp_all

definition demo_matcher :: cron_matcher where
  "demo_matcher = \<lparr>cm_minute = [30], cm_hour = [9], cm_dayOfMonth = [1], cm_month = [1, 2, 3], cm_dayOfWeek = [1],
     cm_isDayOfMonthRestricted = True, cm_isDayOfWeekRestricted = True, cm_timeZone = None\<rparr>"

theorem next_run_is_first_match_witness:
  "nextCronRun demo_matcher 1000 (fixed_clock (-18000000) plain_date) =
     Some (first_match demo_matcher (fixed_clock (-18000000) plain_date) 60000 527040)"
  using next_run_is_first_match [OF fixed_clock_civil [OF inj_plain_date], of demo_matcher 1000 "-18000000"]
  by (simp add: cron_start_def MINUTE_MS_def MAX_CRON_SEARCH_MINUTES_def)

text \<open>
  Fact. On any clock whose hours and minutes are in range, even one that repeats or skips
  days, the search ends within one round per minute of 366 days. What it returns matches the
  expression, is a whole minute, and lies after the instant it was asked for.
\<close>
theorem next_run_ends:
  assumes "clock_in_range w"
  shows "\<exists>r. nextCronRun m after w = Some r \<and>
    (case r of None \<Rightarrow> True
     | Some t \<Rightarrow> cronMatchesWallClock m (w t) \<and> after < t \<and> MINUTE_MS dvd t \<and>
         t < cron_start after + int MAX_CRON_SEARCH_MINUTES * MINUTE_MS)"
proof -
  from nextCronRun_ends [OF assms] obtain r where "nextCronRun m after w = Some r"
    "\<And>t. r = Some t \<Longrightarrow> cronMatchesWallClock m (w t) \<and> after < t \<and>
       t < cron_start after + int MAX_CRON_SEARCH_MINUTES * MINUTE_MS \<and> MINUTE_MS dvd t" by blast
  then show ?thesis by (auto split: option.split)
qed

theorem next_run_ends_witness:
  "\<exists>r. nextCronRun demo_matcher 1000 (\<lambda>t. \<lparr>wc_year = 1970, wc_minute = 0, wc_hour = 12, wc_month = 1, wc_dayOfMonth = 1, wc_dayOfWeek = 4\<rparr>) = Some r"
  using next_run_ends [of "\<lambda>t. \<lparr>wc_year = 1970, wc_minute = 0, wc_hour = 12, wc_month = 1, wc_dayOfMonth = 1, wc_dayOfWeek = 4\<rparr>" demo_matcher 1000]
  by (auto simp: clock_in_range_def)

lemma every_interval_pos: "parseEveryIntervalMs s = Some k \<Longrightarrow> 0 < k"
  by (auto simp: parseEveryIntervalMs_def unit_ms_def Let_def split: option.splits if_splits list.splits)

definition calendar_in_range :: "calendar \<Rightarrow> bool" where
  "calendar_in_range cal \<longleftrightarrow> clock_in_range (cal_local cal) \<and> (\<forall>z. clock_in_range (cal_zoned cal z))"

lemma wall_of_in_range: "calendar_in_range cal \<Longrightarrow> clock_in_range (wall_of cal zone)"
  by (simp add: wall_of_def calendar_in_range_def split: option.splits)

lemma compute_outcome:
  assumes "calendar_in_range cal"
  shows "case computeNextRunAt cal schedule after zone of
      Inl e \<Rightarrow> inherited (to_lower (fst (splitScheduleTimeZone (normalizeSchedule schedule))))
    | Inr None \<Rightarrow> False | Inr (Some None) \<Rightarrow> True | Inr (Some (Some t)) \<Rightarrow> after < t"
proof (cases "parseEveryIntervalMs (normalizeSchedule schedule)")
  case (Some k)
  with every_interval_pos [OF this] show ?thesis by (simp add: computeNextRunAt_def Let_def)
next
  case None
  show ?thesis
  proof (cases "compileCronMatcher cal (normalizeSchedule schedule)")
    case (Inl e)
    then have "inherited (to_lower (fst (splitScheduleTimeZone (normalizeSchedule schedule))))"
      by (auto simp: compileCronMatcher_def expandCronAlias_def split: prod.splits sum.splits option.splits if_splits)
    with None Inl show ?thesis by (simp add: computeNextRunAt_def Let_def)
  next
    case (Inr mo)
    show ?thesis
    proof (cases mo)
      case None
      with Inr \<open>parseEveryIntervalMs _ = None\<close> show ?thesis by (simp add: computeNextRunAt_def Let_def)
    next
      case (Some m)
      from nextCronRun_ends [OF wall_of_in_range [OF assms]] obtain r where
        r: "nextCronRun m after (wall_of cal (or_else (cm_timeZone m) zone)) = Some r"
        and t: "\<And>t. r = Some t \<Longrightarrow> after < t" by metis
      have "computeNextRunAt cal schedule after zone = Inr (Some r)"
        using None Inr Some r by (simp add: computeNextRunAt_def Let_def)
      with t show ?thesis by (cases r) simp_all
    qed
  qed
qed

text \<open>
  Fact. Computing the next run of any text is defined and never gives an instant that is
  not after the one asked for: an interval of \<^verbatim>\<open>@every\<close> is positive and the search only goes
  forward. The one other outcome is the error for a name that every object inherits.
\<close>
theorem next_run_after_now:
  assumes "calendar_in_range cal"
  shows "case computeNextRunAt cal schedule after zone of
      Inl e \<Rightarrow> inherited (to_lower (fst (splitScheduleTimeZone (normalizeSchedule schedule))))
    | Inr None \<Rightarrow> False | Inr (Some None) \<Rightarrow> True | Inr (Some (Some t)) \<Rightarrow> after < t"
  by (rule compute_outcome [OF assms])

definition utc_calendar :: calendar where
  "utc_calendar = \<lparr>cal_zone_exists = \<lambda>z. z = ascii ''UTC'', cal_zoned = \<lambda>z. fixed_clock 0 plain_date,
     cal_local = fixed_clock 7200000 plain_date\<rparr>"

lemma utc_calendar_in_range: "calendar_in_range utc_calendar"
  unfolding calendar_in_range_def utc_calendar_def
  using civil_in_range [OF fixed_clock_civil [OF inj_plain_date]] by simp

theorem next_run_after_now_witness:
  "case computeNextRunAt utc_calendar (ascii ''CRON_TZ=UTC 30 9 * * 1-5'') 5000 None of
      Inl e \<Rightarrow> inherited (to_lower (fst (splitScheduleTimeZone (normalizeSchedule (ascii ''CRON_TZ=UTC 30 9 * * 1-5'')))))
    | Inr None \<Rightarrow> False | Inr (Some None) \<Rightarrow> True | Inr (Some (Some t)) \<Rightarrow> 5000 < t"
  by (rule next_run_after_now [OF utc_calendar_in_range])

text \<open>
  Property C38. An expression that parses has in each of its five fields at least one value, none
  twice and none outside the range of the field; Sunday, written 0 or 7, is always 0.
\<close>
theorem parsed_fields_in_range:
  assumes "parseCron expression = Some m"
  shows "matcher_ok m"
  by (rule parseCron_ok [OF assms])



lemmas parse_eval = parseCron_def ascii_def parseCronField_def parse_part_def js_integer_def js_trim_def js_space_def
  decimal_integer_def integer_at_scale_def Let_def is_digit_def digit_value_def exponent_of_def stepped_def upt_rec
  unique_def set_add_def

theorem parsed_fields_in_range_witness:
  "matcher_ok \<lparr>cm_minute = [0, 20, 40], cm_hour = [9], cm_dayOfMonth = [1], cm_month = [2], cm_dayOfWeek = [5, 6, 0],
     cm_isDayOfMonthRestricted = True, cm_isDayOfWeekRestricted = True, cm_timeZone = None\<rparr>"
proof -
  have "parseCron (ascii ''*/20 9 1 2 5-7'') = Some \<lparr>cm_minute = [0, 20, 40], cm_hour = [9], cm_dayOfMonth = [1],
     cm_month = [2], cm_dayOfWeek = [5, 6, 0],
     cm_isDayOfMonthRestricted = True, cm_isDayOfWeekRestricted = True, cm_timeZone = None\<rparr>"
    by (simp add: parse_eval)
  from parsed_fields_in_range [OF this] show ?thesis .
qed

text \<open>A name that every object inherits is no alias, yet it is found, and what is found is no text.\<close>

lemma inherited_name_throws: "compileCronMatcher cal (ascii ''constructor'') = Inl NotAString"
  by (simp add: compileCronMatcher_def splitScheduleTimeZone_def normalizeSchedule_def zone_prefix_def js_trim_def
      js_space_def ascii_def expandCronAlias_def CRON_ALIASES_def to_lower_def inherited_def prefix_def Let_def)

end
