(* ===== verification/Local_Cron.thy ===== *)
theory Local_Cron
  imports Cron_Schedule
begin

text \<open>
  The timer that fires scheduled routines on this machine:
  \<^verbatim>\<open>host/extensions/automations/local-cron-scheduler.ts\<close>, with the reading of triggers of
  \<^verbatim>\<open>shared/automations.ts\<close> and the earliest run of a routine of
  \<^verbatim>\<open>host/automations/automation-store.ts\<close>.

  A tick is asynchronous: it waits for the list of routines and for every run it starts. Between
  two waits it is one step, so the machine's events are the calls of the class, the answers to
  what a tick waits for, and the end of the process. What a run reads of the world (the clock,
  readiness, the time zone, whether the state file could be written) comes with the event.
\<close>

subsection \<open>Triggers\<close>

text \<open>The schedules of a trigger; which event another listener waits for plays no part here.\<close>

datatype trigger_member = Cron ustr | Listener
datatype trigger = Single trigger_member | Group "trigger_member list"

fun triggerList :: "trigger \<Rightarrow> trigger_member list" where
  "triggerList (Group listeners) = listeners"
| "triggerList (Single member) = [member]"

definition triggerFromList :: "trigger_member list \<Rightarrow> trigger option" where
  "triggerFromList members =
     (case members of [] \<Rightarrow> None | [first] \<Rightarrow> Some (Single first) | first # second # rest \<Rightarrow> Some (Group (first # second # rest)))"

definition triggerCronSchedules :: "trigger \<Rightarrow> ustr list" where
  "triggerCronSchedules trigger =
     concat (map (\<lambda>member. case member of Cron s \<Rightarrow> [s] | Listener \<Rightarrow> []) (triggerList trigger))"

definition triggerSchedule :: "trigger \<Rightarrow> ustr option" where
  "triggerSchedule trigger = (case triggerCronSchedules trigger of [] \<Rightarrow> None | s # _ \<Rightarrow> Some s)"

subsection \<open>The earliest run of a routine\<close>

fun earliest_from :: "calendar \<Rightarrow> int \<Rightarrow> ustr option \<Rightarrow> int option \<Rightarrow> ustr list \<Rightarrow> js_error + int option option" where
  "earliest_from cal anchor zone earliest [] = Inr (Some earliest)"
| "earliest_from cal anchor zone earliest (schedule # rest) =
     (case computeNextRunAt cal schedule anchor zone of
        Inl e \<Rightarrow> Inl e
      | Inr None \<Rightarrow> Inr None
      | Inr (Some None) \<Rightarrow> earliest_from cal anchor zone earliest rest
      | Inr (Some (Some next)) \<Rightarrow>
          earliest_from cal anchor zone
            (case earliest of None \<Rightarrow> Some next | Some t \<Rightarrow> if next < t then Some next else earliest) rest)"

record automation_times =
  at_createdAt :: int
  at_lastRunAt :: "int option"
  at_trigger :: trigger

definition automationAnchor :: "automation_times \<Rightarrow> int" where
  "automationAnchor a = (case at_lastRunAt a of Some t \<Rightarrow> t | None \<Rightarrow> at_createdAt a)"

definition earliestNextRunAt :: "calendar \<Rightarrow> ustr option \<Rightarrow> automation_times \<Rightarrow> js_error + int option option" where
  "earliestNextRunAt cal zone config =
     earliest_from cal (automationAnchor config) zone None (triggerCronSchedules (at_trigger config))"

subsection \<open>State\<close>

record automation =
  au_agentId :: ustr
  au_id :: ustr
  au_isEnabled :: bool
  au_trigger :: trigger

record fire =
  fi_key :: ustr
  fi_schedule :: ustr
  fi_scheduledForMs :: int
  fi_at :: int

text \<open>Where a tick stands: it waits for the routines, or for a run, with what is left to do.\<close>

datatype tick_at =
    Idle
  | Listing (tick_now: int)
  | Running (tick_now: int) "ustr list" "(automation \<times> ustr) list"

text \<open>The fires are a history: the code does not keep them.\<close>

record scheduler =
  nextByAutomationId :: "(ustr, int) js_map"
  timer :: bool
  busy :: bool
  loaded :: bool
  tick_state :: tick_at
  state_file :: "(ustr, int) js_map option"
  fires :: "fire list"

text \<open>A process that starts with what a former one left on disk.\<close>

definition boot :: "(ustr, int) js_map option \<Rightarrow> fire list \<Rightarrow> scheduler" where
  "boot disk history =
     \<lparr>nextByAutomationId = [], timer = False, busy = False, loaded = False, tick_state = Idle,
      state_file = disk, fires = history\<rparr>"

definition MAX_SAFE_INTEGER :: int where "MAX_SAFE_INTEGER = 2 ^ 53 - 1"
definition MAX_DATE_MS :: int where "MAX_DATE_MS = 8640000000000000"

definition fire_key :: "ustr \<Rightarrow> ustr \<Rightarrow> ustr" where
  "fire_key agentId automationId = agentId @ ascii '':'' @ automationId"

definition loadState :: "scheduler \<Rightarrow> scheduler" where
  "loadState s =
     s\<lparr>loaded := True,
       nextByAutomationId :=
         (case state_file s of None \<Rightarrow> nextByAutomationId s
          | Some kvs \<Rightarrow> foldl (\<lambda>m (k, v). jm_set m k v) (nextByAutomationId s) kvs)\<rparr>"

definition saveState :: "bool \<Rightarrow> scheduler \<Rightarrow> scheduler" where
  "saveState written s = (if written then s\<lparr>state_file := Some (nextByAutomationId s)\<rparr> else s)"

definition forgetAgent :: "bool \<Rightarrow> ustr \<Rightarrow> scheduler \<Rightarrow> scheduler" where
  "forgetAgent written agentId s =
     (let gone = (\<lambda>(k, v). prefix (agentId @ ascii '':'') k);
          m = nextByAutomationId s
      in if list_ex gone m
         then saveState written (s\<lparr>nextByAutomationId := filter (\<lambda>kv. \<not> gone kv) m\<rparr>)
         else s)"

subsection \<open>A tick\<close>

definition tick_done :: "scheduler \<Rightarrow> scheduler" where
  "tick_done s = s\<lparr>busy := False, tick_state := Idle\<rparr>"

definition tick_start :: "int \<Rightarrow> bool \<Rightarrow> scheduler \<Rightarrow> scheduler" where
  "tick_start now ready s =
     (if busy s \<or> \<not> timer s then s
      else if \<not> ready then s
      else s\<lparr>busy := True, tick_state := Listing now\<rparr>)"

text \<open>The routines no one lists any more are dropped when the tick ends.\<close>

definition tick_prune :: "bool \<Rightarrow> ustr list \<Rightarrow> scheduler \<Rightarrow> scheduler" where
  "tick_prune written seen s =
     (let m = nextByAutomationId s
      in if list_ex (\<lambda>(k, v). k \<notin> set seen) m
         then saveState written (s\<lparr>nextByAutomationId := filter (\<lambda>(k, v). k \<in> set seen) m\<rparr>)
         else s)"

text \<open>
  The loop from one wait to the next. An error of the schedule, or of the date in the log line,
  leaves the loop for the outer handler.
\<close>

fun tick_loop :: "calendar \<Rightarrow> ustr option \<Rightarrow> bool \<Rightarrow> int \<Rightarrow> ustr list \<Rightarrow> (automation \<times> ustr) list \<Rightarrow> scheduler \<Rightarrow> scheduler" where
  "tick_loop cal zone written now seen [] s = tick_done (tick_prune written seen s)"
| "tick_loop cal zone written now seen ((a, schedule) # rest) s =
     (let key = fire_key (au_agentId a) (au_id a); seen = set_add seen key in
      case jm_get (nextByAutomationId s) key of
        None \<Rightarrow>
          (case computeNextRunAt cal schedule now zone of
             Inr (Some (Some next)) \<Rightarrow>
               tick_loop cal zone written now seen rest (s\<lparr>nextByAutomationId := jm_set (nextByAutomationId s) key next\<rparr>)
           | Inr (Some None) \<Rightarrow> tick_loop cal zone written now seen rest s
           | _ \<Rightarrow> tick_done s)
      | Some dueAt \<Rightarrow>
          if now < dueAt then tick_loop cal zone written now seen rest s
          else (case computeNextRunAt cal schedule now zone of
                  Inr (Some next) \<Rightarrow>
                    (let s = saveState written
                           (s\<lparr>nextByAutomationId :=
                              jm_set (nextByAutomationId s) key (case next of Some t \<Rightarrow> t | None \<Rightarrow> MAX_SAFE_INTEGER)\<rparr>)
                     in if MAX_DATE_MS < \<bar>dueAt\<bar> then tick_done s
                        else s\<lparr>fires := \<lparr>fi_key = key, fi_schedule = schedule, fi_scheduledForMs = dueAt, fi_at = now\<rparr> # fires s,
                               tick_state := Running now seen rest\<rparr>)
                | _ \<Rightarrow> tick_done s))"

definition tick_items :: "automation list \<Rightarrow> (automation \<times> ustr) list" where
  "tick_items autos =
     concat (map (\<lambda>a. if \<not> au_isEnabled a then [] else map (Pair a) (triggerCronSchedules (au_trigger a))) autos)"

definition tick_listed :: "calendar \<Rightarrow> ustr option \<Rightarrow> bool \<Rightarrow> automation list option \<Rightarrow> scheduler \<Rightarrow> scheduler" where
  "tick_listed cal zone written answer s =
     (case tick_state s of
        Listing now \<Rightarrow> (case answer of None \<Rightarrow> tick_done s | Some autos \<Rightarrow> tick_loop cal zone written now [] (tick_items autos) s)
      | _ \<Rightarrow> s)"

text \<open>The run has ended, well or not: a failure is only logged.\<close>

definition tick_fired :: "calendar \<Rightarrow> ustr option \<Rightarrow> bool \<Rightarrow> scheduler \<Rightarrow> scheduler" where
  "tick_fired cal zone written s =
     (case tick_state s of Running now seen rest \<Rightarrow> tick_loop cal zone written now seen rest s | _ \<Rightarrow> s)"

subsection \<open>Calls and events\<close>

definition start :: "int \<Rightarrow> bool \<Rightarrow> scheduler \<Rightarrow> scheduler" where
  "start now ready s = (if timer s then s else tick_start now ready ((loadState s)\<lparr>timer := True\<rparr>))"

definition stop :: "scheduler \<Rightarrow> scheduler" where
  "stop s = s\<lparr>timer := False\<rparr>"

definition requestReconcile :: "int \<Rightarrow> bool \<Rightarrow> scheduler \<Rightarrow> scheduler" where
  "requestReconcile now ready s = tick_start now ready s"

datatype event =
    Start int bool
  | Stop
  | Timer int bool
  | Reconcile int bool
  | Forget bool ustr
  | Listed calendar "ustr option" bool "automation list option"
  | Fired calendar "ustr option" bool
  | Restart

fun step :: "scheduler \<Rightarrow> event \<Rightarrow> scheduler" where
  "step s (Start now ready) = start now ready s"
| "step s Stop = stop s"
| "step s (Timer now ready) = (if timer s then tick_start now ready s else s)"
| "step s (Reconcile now ready) = requestReconcile now ready s"
| "step s (Forget written agentId) = forgetAgent written agentId s"
| "step s (Listed cal zone written answer) = tick_listed cal zone written answer s"
| "step s (Fired cal zone written) = tick_fired cal zone written s"
| "step s Restart = boot (state_file s) (fires s)"

subsection \<open>Lemmas on the next run\<close>

lemma compute_later:
  "calendar_in_range cal \<Longrightarrow> computeNextRunAt cal schedule now zone = Inr (Some (Some t)) \<Longrightarrow> now < t"
  using compute_outcome [of cal schedule now zone] by simp

subsection \<open>What every state keeps\<close>

text \<open>No due time that is held, in memory or on disk, is one at or before which its routine has fired.\<close>

definition after_fires :: "(ustr \<Rightarrow> int option) \<Rightarrow> fire list \<Rightarrow> bool" where
  "after_fires m fs \<longleftrightarrow> (\<forall>f \<in> set fs. \<forall>v. m (fi_key f) = Some v \<longrightarrow> fi_at f < v)"

definition once_each :: "fire list \<Rightarrow> bool" where
  "once_each fs \<longleftrightarrow> sorted_wrt (\<lambda>later sooner. fi_key sooner = fi_key later \<longrightarrow> fi_at sooner < fi_scheduledForMs later) fs \<and>
     (\<forall>f \<in> set fs. fi_scheduledForMs f \<le> fi_at f)"

definition state_ok :: "int \<Rightarrow> scheduler \<Rightarrow> bool" where
  "state_ok t s \<longleftrightarrow>
     jm_wf (nextByAutomationId s) \<and> after_fires (jm_get (nextByAutomationId s)) (fires s) \<and>
     (\<forall>kvs. state_file s = Some kvs \<longrightarrow> jm_wf kvs \<and> after_fires (jm_get kvs) (fires s)) \<and>
     once_each (fires s) \<and> (\<forall>f \<in> set (fires s). fi_at f \<le> t)"

definition tick_ok :: "int \<Rightarrow> scheduler \<Rightarrow> bool" where
  "tick_ok t s \<longleftrightarrow> (busy s \<longleftrightarrow> tick_state s \<noteq> Idle) \<and>
     (tick_state s \<noteq> Idle \<longrightarrow> tick_now (tick_state s) \<le> t \<and> tick_now (tick_state s) \<le> MAX_DATE_MS \<and>
        state_ok (tick_now (tick_state s)) s)"

definition scheduler_ok :: "int \<Rightarrow> scheduler \<Rightarrow> bool" where
  "scheduler_ok t s \<longleftrightarrow> state_ok t s \<and> tick_ok t s"

lemma after_fires_update:
  "after_fires m fs \<Longrightarrow> \<forall>f \<in> set fs. fi_at f < v \<Longrightarrow> after_fires (m(k \<mapsto> v)) fs"
  by (auto simp: after_fires_def)

lemma after_fires_sub:
  assumes "after_fires m fs" and "m' \<subseteq>\<^sub>m m"
  shows "after_fires m' fs"
proof -
  have "m k = Some v" if "m' k = Some v" for k v using assms(2) that by (simp add: map_le_def dom_def)
  with assms(1) show ?thesis unfolding after_fires_def by blast
qed

lemma map_of_filter_sub: "distinct (map fst m) \<Longrightarrow> map_of (filter P m) \<subseteq>\<^sub>m map_of m"
  by (auto simp: map_le_def distinct_map_filter dest!: map_of_SomeD intro!: map_of_is_SomeI [symmetric])

lemma jm_wf_filter: "jm_wf m \<Longrightarrow> jm_wf (filter P m)"
  by (simp add: jm_wf_def distinct_map_filter)

lemma state_ok_frame:
  "state_ok t (s\<lparr>busy := b\<rparr>) = state_ok t s" "state_ok t (s\<lparr>tick_state := p\<rparr>) = state_ok t s"
  "state_ok t (s\<lparr>timer := tm\<rparr>) = state_ok t s" "state_ok t (s\<lparr>loaded := l\<rparr>) = state_ok t s"
  by (simp_all add: state_ok_def)

lemma state_ok_mono: "state_ok t s \<Longrightarrow> t \<le> u \<Longrightarrow> state_ok u s"
  by (force simp: state_ok_def)

text \<open>Setting a due time after now, dropping entries, saving and loading all keep it.\<close>

lemma state_ok_set:
  assumes "state_ok now s" and "now < v"
  shows "state_ok now (s\<lparr>nextByAutomationId := jm_set (nextByAutomationId s) k v\<rparr>)"
proof -
  have "\<forall>f \<in> set (fires s). fi_at f < v" using assms by (force simp: state_ok_def)
  with assms(1) show ?thesis by (auto simp: state_ok_def after_fires_def)
qed

lemma state_ok_filter:
  assumes "state_ok t s"
  shows "state_ok t (s\<lparr>nextByAutomationId := filter P (nextByAutomationId s)\<rparr>)"
proof -
  from assms have wf: "jm_wf (nextByAutomationId s)" by (simp add: state_ok_def)
  then have "map_of (filter P (nextByAutomationId s)) \<subseteq>\<^sub>m map_of (nextByAutomationId s)"
    by (simp add: jm_wf_def map_of_filter_sub)
  with assms wf show ?thesis by (auto simp: state_ok_def jm_wf_filter intro: after_fires_sub)
qed

lemma state_ok_save: "state_ok t s \<Longrightarrow> state_ok t (saveState written s)"
  by (simp add: state_ok_def saveState_def)

lemma state_ok_load:
  assumes "state_ok t s"
  shows "state_ok t (loadState s)"
proof (cases "state_file s")
  case None
  with assms show ?thesis by (simp add: loadState_def state_ok_def)
next
  case (Some kvs)
  have load: "jm_wf (foldl (\<lambda>m (k, v). jm_set m k v) m kvs) \<and>
      after_fires (jm_get (foldl (\<lambda>m (k, v). jm_set m k v) m kvs)) (fires s)"
    if "jm_wf m" "after_fires (jm_get m) (fires s)" "\<forall>(k, v) \<in> set kvs. \<forall>f \<in> set (fires s). fi_key f = k \<longrightarrow> fi_at f < v"
    for m using that
  proof (induction kvs arbitrary: m)
    case Nil
    then show ?case by simp
  next
    case (Cons kv kvs)
    obtain k v where kv: "kv = (k, v)" by (cases kv)
    have "after_fires (jm_get (jm_set m k v)) (fires s)"
      using Cons.prems(2,3) by (auto simp: kv after_fires_def)
    with Cons.IH [of "jm_set m k v"] Cons.prems show ?case by (simp add: kv)
  qed
  have "\<forall>(k, v) \<in> set kvs. \<forall>f \<in> set (fires s). fi_key f = k \<longrightarrow> fi_at f < v"
    using assms Some by (auto simp: state_ok_def after_fires_def jm_wf_def)
  with load [of "nextByAutomationId s"] assms Some show ?thesis by (simp add: state_ok_def loadState_def)
qed


lemma scheduler_okI:
  assumes "state_ok now s" "now \<le> t" "now \<le> MAX_DATE_MS" "busy s \<longleftrightarrow> tick_state s \<noteq> Idle"
    "tick_state s \<noteq> Idle \<Longrightarrow> tick_now (tick_state s) = now"
  shows "scheduler_ok t s"
  using assms by (auto simp: scheduler_ok_def tick_ok_def intro: state_ok_mono)

lemma tick_done_ok: "state_ok now s \<Longrightarrow> now \<le> t \<Longrightarrow> now \<le> MAX_DATE_MS \<Longrightarrow> scheduler_ok t (tick_done s)"
  by (rule scheduler_okI [of now]) (simp_all add: tick_done_def state_ok_frame)

lemma tick_prune_ok: "state_ok t s \<Longrightarrow> state_ok t (tick_prune written seen s)"
  by (simp add: tick_prune_def Let_def state_ok_filter state_ok_save)

lemma saved_file: "state_file (saveState True s) = Some (nextByAutomationId s)"
  by (simp add: saveState_def)

lemma MAX_DATE_safe: "now \<le> MAX_DATE_MS \<Longrightarrow> now < MAX_SAFE_INTEGER"
  by (simp add: MAX_DATE_MS_def MAX_SAFE_INTEGER_def)

text \<open>Moving the due time past now, saving it, and only then starting the run.\<close>

lemma state_ok_fire:
  assumes ok: "state_ok now s" and due: "jm_get (nextByAutomationId s) k = Some d" "d \<le> now" and v: "now < v"
  defines "s' \<equiv> saveState True (s\<lparr>nextByAutomationId := jm_set (nextByAutomationId s) k v\<rparr>)"
  shows "state_ok now (s'\<lparr>fires := \<lparr>fi_key = k, fi_schedule = sch, fi_scheduledForMs = d, fi_at = now\<rparr> # fires s'\<rparr>)"
proof -
  have "\<forall>f \<in> set (fires s). fi_key f = k \<longrightarrow> fi_at f < d" using ok due(1) by (auto simp: state_ok_def after_fires_def)
  moreover have "\<forall>f \<in> set (fires s). fi_at f < v" using ok v by (force simp: state_ok_def)
  ultimately show ?thesis using ok due(2) v
    by (auto simp: state_ok_def s'_def saveState_def after_fires_def once_each_def)
qed

lemma tick_loop_ok:
  assumes cal: "calendar_in_range cal" and now: "now \<le> t" "now \<le> MAX_DATE_MS"
  shows "state_ok now s \<Longrightarrow> busy s \<Longrightarrow> scheduler_ok t (tick_loop cal zone True now seen items s)"
proof (induction items arbitrary: s seen)
  case Nil
  show ?case by (simp add: tick_done_ok [OF tick_prune_ok [OF Nil.prems(1)] now])
next
  case (Cons item rest)
  obtain a schedule where item: "item = (a, schedule)" by (cases item)
  let ?k = "fire_key (au_agentId a) (au_id a)"
  note done_ok = tick_done_ok [OF Cons.prems(1) now]
  show ?case
  proof (cases "jm_get (nextByAutomationId s) ?k")
    case None
    have set_ok: "scheduler_ok t (tick_loop cal zone True now (set_add seen ?k) rest
        (s\<lparr>nextByAutomationId := jm_set (nextByAutomationId s) ?k next\<rparr>))"
      if "computeNextRunAt cal schedule now zone = Inr (Some (Some next))" for "next"
      using Cons.IH [OF state_ok_set [OF Cons.prems(1) compute_later [OF cal that]]] Cons.prems(2) by simp
    from None set_ok done_ok Cons.IH [OF Cons.prems] show ?thesis
      by (simp add: item Let_def split: sum.split option.split)
  next
    case (Some d)
    have fire_ok: "scheduler_ok t (tick_loop cal zone True now seen (item # rest) s)"
      if r: "computeNextRunAt cal schedule now zone = Inr (Some next)" and due: "\<not> now < d" for "next"
    proof -
      define v where "v = (case next of Some t \<Rightarrow> t | None \<Rightarrow> MAX_SAFE_INTEGER)"
      have v: "now < v" using compute_later [OF cal, of schedule now zone] r MAX_DATE_safe [OF now(2)]
        by (cases "next") (simp_all add: v_def)
      define s' where "s' = saveState True (s\<lparr>nextByAutomationId := jm_set (nextByAutomationId s) ?k v\<rparr>)"
      have s': "state_ok now s'" unfolding s'_def by (rule state_ok_save [OF state_ok_set [OF Cons.prems(1) v]])
      have d: "d \<le> now" using due by simp
      have fired: "state_ok now (s'\<lparr>fires := \<lparr>fi_key = ?k, fi_schedule = schedule, fi_scheduledForMs = d, fi_at = now\<rparr> # fires s'\<rparr>)"
        unfolding s'_def by (rule state_ok_fire [OF Cons.prems(1) Some d v])
      have busy: "busy s'" using Cons.prems(2) by (simp add: s'_def saveState_def)
      let ?f = "s'\<lparr>fires := \<lparr>fi_key = ?k, fi_schedule = schedule, fi_scheduledForMs = d, fi_at = now\<rparr> # fires s',
          tick_state := Running now (set_add seen ?k) rest\<rparr>"
      have "scheduler_ok t ?f"
        by (rule scheduler_okI [OF _ now]) (use fired busy in \<open>simp_all add: state_ok_frame\<close>)
      moreover have "scheduler_ok t (tick_done s')" by (rule tick_done_ok [OF s' now])
      ultimately show ?thesis using Some due r by (simp add: item Let_def v_def s'_def)
    qed
    show ?thesis
    proof (cases "now < d")
      case True
      with Some Cons.IH [OF Cons.prems] show ?thesis by (simp add: item Let_def)
    next
      case False
      show ?thesis
      proof (cases "\<exists>next. computeNextRunAt cal schedule now zone = Inr (Some next)")
        case True
        with fire_ok False show ?thesis by blast
      next
        case no: False
        then have "tick_loop cal zone True now seen (item # rest) s = tick_done s"
          using Some False by (auto simp: item Let_def split: sum.split option.split)
        with done_ok show ?thesis by simp
      qed
    qed
  qed
qed


subsection \<open>Runs\<close>

fun allowed :: "event \<Rightarrow> bool" where
  "allowed (Forget written agentId) = written"
| "allowed (Listed cal zone written answer) = (calendar_in_range cal \<and> written)"
| "allowed (Fired cal zone written) = (calendar_in_range cal \<and> written)"
| "allowed _ = True"

text \<open>The clock the calls read does not go back, and shows a date.\<close>

fun event_now :: "event \<Rightarrow> int option" where
  "event_now (Start now ready) = Some now"
| "event_now (Timer now ready) = Some now"
| "event_now (Reconcile now ready) = Some now"
| "event_now _ = None"

definition well_timed :: "event list \<Rightarrow> bool" where
  "well_timed es \<longleftrightarrow> sorted (List.map_filter event_now es) \<and> list_all (\<lambda>t. t \<le> MAX_DATE_MS) (List.map_filter event_now es)"

lemma tick_start_ok:
  assumes "scheduler_ok t s" "t \<le> now" "now \<le> MAX_DATE_MS"
  shows "scheduler_ok now (tick_start now ready s)"
proof (cases "busy s \<or> \<not> timer s \<or> \<not> ready")
  case True
  with assms show ?thesis
    by (auto simp: tick_start_def scheduler_ok_def tick_ok_def intro: state_ok_mono)
next
  case False
  have "state_ok now s" using assms by (auto simp: scheduler_ok_def intro: state_ok_mono)
  then have "scheduler_ok now (s\<lparr>busy := True, tick_state := Listing now\<rparr>)"
    by (intro scheduler_okI [of now]) (simp_all add: state_ok_frame assms)
  with False show ?thesis by (simp add: tick_start_def)
qed

lemma scheduler_ok_frame:
  "scheduler_ok t (s\<lparr>timer := b\<rparr>) = scheduler_ok t s"
  by (simp add: scheduler_ok_def tick_ok_def state_ok_frame)

lemma scheduler_ok_filter:
  "scheduler_ok t s \<Longrightarrow> scheduler_ok t (s\<lparr>nextByAutomationId := filter P (nextByAutomationId s)\<rparr>)"
  by (simp add: scheduler_ok_def tick_ok_def state_ok_filter)

lemma same_tick:
  "busy (saveState w s) = busy s" "tick_state (saveState w s) = tick_state s"
  "busy (loadState s) = busy s" "tick_state (loadState s) = tick_state s"
  by (simp_all add: saveState_def loadState_def)

lemma scheduler_ok_save: "scheduler_ok t s \<Longrightarrow> scheduler_ok t (saveState True s)"
  by (simp add: scheduler_ok_def tick_ok_def state_ok_save same_tick)

lemma scheduler_ok_load: "scheduler_ok t s \<Longrightarrow> scheduler_ok t (loadState s)"
  by (simp add: scheduler_ok_def tick_ok_def state_ok_load same_tick)

lemma step_ok:
  assumes ok: "scheduler_ok t s" and e: "allowed e"
    and now: "\<And>now. event_now e = Some now \<Longrightarrow> t \<le> now \<and> now \<le> MAX_DATE_MS"
  shows "scheduler_ok (case event_now e of Some now \<Rightarrow> now | None \<Rightarrow> t) (step s e)"
proof (cases e)
  case (Start n ready)
  have later: "scheduler_ok n s" if "t \<le> n" using ok that by (auto simp: scheduler_ok_def tick_ok_def intro: state_ok_mono)
  have "scheduler_ok t ((loadState s)\<lparr>timer := True\<rparr>)" unfolding scheduler_ok_frame by (rule scheduler_ok_load [OF ok])
  from tick_start_ok [OF this] later now [of n] Start show ?thesis by (simp add: start_def)
next
  case Stop
  with ok show ?thesis by (simp add: stop_def scheduler_ok_frame)
next
  case (Timer n ready)
  have "scheduler_ok n s" if "t \<le> n" using ok that by (auto simp: scheduler_ok_def tick_ok_def intro: state_ok_mono)
  with tick_start_ok [OF ok] now [of n] Timer show ?thesis by simp
next
  case (Reconcile n ready)
  with tick_start_ok [OF ok] now [of n] show ?thesis by (simp add: requestReconcile_def)
next
  case (Forget written agentId)
  with ok e show ?thesis by (simp add: forgetAgent_def Let_def scheduler_ok_filter scheduler_ok_save)
next
  case (Listed cal zone written answer)
  show ?thesis
  proof (cases "tick_state s")
    case (Listing n)
    with ok have n: "n \<le> t" "n \<le> MAX_DATE_MS" "state_ok n s" "busy s" by (simp_all add: scheduler_ok_def tick_ok_def)
    with Listed Listing e tick_loop_ok [OF _ n] tick_done_ok [OF n(3,1,2)] show ?thesis
      by (simp add: tick_listed_def split: option.split)
  qed (use ok Listed in \<open>simp_all add: tick_listed_def\<close>)
next
  case (Fired cal zone written)
  show ?thesis
  proof (cases "tick_state s")
    case (Running n seen rest)
    with ok have n: "n \<le> t" "n \<le> MAX_DATE_MS" "state_ok n s" "busy s" by (simp_all add: scheduler_ok_def tick_ok_def)
    with Fired Running e tick_loop_ok [OF _ n] show ?thesis by (simp add: tick_fired_def)
  qed (use ok Fired in \<open>simp_all add: tick_fired_def\<close>)
next
  case Restart
  with ok show ?thesis by (auto simp: scheduler_ok_def tick_ok_def state_ok_def boot_def jm_wf_def after_fires_def)
qed

lemma run_ok:
  "scheduler_ok t s \<Longrightarrow> list_all allowed es \<Longrightarrow> well_timed es \<Longrightarrow>
   \<forall>now \<in> set (List.map_filter event_now es). t \<le> now \<Longrightarrow> \<exists>u. scheduler_ok u (foldl step s es)"
proof (induction es arbitrary: s t)
  case Nil
  then show ?case by auto
next
  case (Cons e es)
  let ?u = "case event_now e of Some now \<Rightarrow> now | None \<Rightarrow> t"
  have "scheduler_ok ?u (step s e)"
    using Cons.prems by (intro step_ok) (auto simp: well_timed_def List.map_filter_simps split: option.splits)
  moreover have "well_timed es" using Cons.prems(3) by (auto simp: well_timed_def List.map_filter_simps split: option.splits)
  moreover have "\<forall>now \<in> set (List.map_filter event_now es). ?u \<le> now"
    using Cons.prems(3,4) by (auto simp: well_timed_def List.map_filter_simps split: option.splits)
  ultimately show ?case using Cons.IH Cons.prems(2) by simp
qed

definition distinct_keys :: "(ustr, int) js_map option \<Rightarrow> bool" where
  "distinct_keys disk = (case disk of None \<Rightarrow> True | Some kvs \<Rightarrow> jm_wf kvs)"

text \<open>
  Property C11. Starting from any state file, through any sequence of calls, failed lists, failed
  runs, stops, starts and ends of the process between any two steps: as long as the file can be
  written and the clock does not go back, no occurrence of a routine runs twice. Two runs of one
  routine have the later one due after the moment the sooner one started, and no run starts
  before it is due.
\<close>
theorem no_occurrence_fires_twice:
  assumes "distinct_keys disk" "list_all allowed es" "well_timed es"
  shows "once_each (fires (foldl step (boot disk []) es))"
proof -
  define t where "t = Min (insert 0 (set (List.map_filter event_now es)))"
  have "scheduler_ok t (boot disk [])"
    using assms(1) by (auto simp: scheduler_ok_def tick_ok_def state_ok_def boot_def jm_wf_def after_fires_def once_each_def
        distinct_keys_def split: option.splits)
  moreover have "\<forall>now \<in> set (List.map_filter event_now es). t \<le> now" by (simp add: t_def)
  ultimately obtain u where "scheduler_ok u (foldl step (boot disk []) es)" using run_ok assms by blast
  then show ?thesis by (simp add: scheduler_ok_def state_ok_def)
qed


definition demo_routine :: "ustr list \<Rightarrow> automation" where
  "demo_routine schedules = \<lparr>au_agentId = ascii ''a'', au_id = ascii ''r'', au_isEnabled = True,
     au_trigger = Group (map Cron schedules)\<rparr>"

theorem no_occurrence_fires_twice_witness:
  "once_each (fires (foldl step (boot (Some [(fire_key (ascii ''a'') (ascii ''r''), 100)]) [])
     [Start 200 True, Listed utc_calendar None True (Some [demo_routine [ascii ''@every 1m'']]), Restart, Start 300 True,
      Listed utc_calendar None True (Some [demo_routine [ascii ''@every 1m'']]), Timer 90000 True,
      Listed utc_calendar None True (Some [demo_routine [ascii ''@every 1m'']])]))"
  by (rule no_occurrence_fires_twice)
    (simp_all add: distinct_keys_def jm_wf_def utc_calendar_in_range well_timed_def List.map_filter_simps MAX_DATE_MS_def)

subsection \<open>What a tick fires\<close>

text \<open>The fires a tick owes: each routine that is due, once, by the first of its schedules, in order.\<close>

fun due_runs :: "(ustr \<Rightarrow> int option) \<Rightarrow> int \<Rightarrow> (automation \<times> ustr) list \<Rightarrow> fire list" where
  "due_runs m now [] = []"
| "due_runs m now ((a, schedule) # rest) =
     (let key = fire_key (au_agentId a) (au_id a) in
      case m key of
        Some d \<Rightarrow>
          if d \<le> now
          then \<lparr>fi_key = key, fi_schedule = schedule, fi_scheduledForMs = d, fi_at = now\<rparr> # due_runs (m(key := None)) now rest
          else due_runs m now rest
      | None \<Rightarrow> due_runs m now rest)"

definition due_only :: "(ustr \<Rightarrow> int option) \<Rightarrow> int \<Rightarrow> ustr \<Rightarrow> int option" where
  "due_only m now k = (case m k of Some d \<Rightarrow> if d \<le> now then Some d else None | None \<Rightarrow> None)"

lemma due_runs_due_only: "due_runs (due_only m now) now items = due_runs m now items"
proof (induction items arbitrary: m)
  case (Cons item rest)
  obtain a schedule where item: "item = (a, schedule)" by (cases item)
  let ?k = "fire_key (au_agentId a) (au_id a)"
  have "(due_only m now)(?k := None) = due_only (m(?k := None)) now" by (auto simp: due_only_def)
  then have clear: "due_runs ((due_only m now)(?k := None)) now rest = due_runs (m(?k := None)) now rest"
    by (simp only: Cons.IH)
  have lookup: "due_only m now ?k = (case m ?k of Some d \<Rightarrow> if d \<le> now then Some d else None | None \<Rightarrow> None)"
    by (rule due_only_def)
  show ?case
    by (cases "m ?k") (simp_all add: item Let_def lookup clear Cons.IH)
qed simp

lemma due_runs_cong:
  "due_only m now = due_only m' now \<Longrightarrow> due_runs m now items = due_runs m' now items"
  by (metis due_runs_due_only)

definition computes :: "calendar \<Rightarrow> ustr option \<Rightarrow> int \<Rightarrow> (automation \<times> ustr) list \<Rightarrow> bool" where
  "computes cal zone now items \<longleftrightarrow>
     list_all (\<lambda>(a, schedule). case computeNextRunAt cal schedule now zone of Inr (Some _) \<Rightarrow> True | _ \<Rightarrow> False) items"

definition dates_only :: "scheduler \<Rightarrow> int \<Rightarrow> bool" where
  "dates_only s now \<longleftrightarrow> (\<forall>k d. jm_get (nextByAutomationId s) k = Some d \<longrightarrow> d \<le> now \<longrightarrow> \<bar>d\<bar> \<le> MAX_DATE_MS)"

lemma computesE:
  assumes "computes cal zone now ((a, schedule) # rest)"
  obtains r where "computeNextRunAt cal schedule now zone = Inr (Some r)" "computes cal zone now rest"
  using assms by (auto simp: computes_def split: sum.splits option.splits)

lemma saved_fields:
  "nextByAutomationId (saveState w s) = nextByAutomationId s" "fires (saveState w s) = fires s"
  by (simp_all add: saveState_def)

lemma pruned_fields: "fires (tick_prune w seen s) = fires s"
  by (simp add: tick_prune_def Let_def saveState_def)

lemma tick_fires_due:
  assumes cal: "calendar_in_range cal" and now: "now \<le> MAX_DATE_MS"
  shows "computes cal zone now items \<Longrightarrow> dates_only s now \<Longrightarrow> busy s \<Longrightarrow>
    let n = length (due_runs (jm_get (nextByAutomationId s)) now items);
        s' = foldl step (tick_loop cal zone written now seen items s) (replicate n (Fired cal zone written))
    in fires s' = rev (due_runs (jm_get (nextByAutomationId s)) now items) @ fires s \<and> tick_state s' = Idle \<and> \<not> busy s'"
proof (induction items arbitrary: s seen)
  case Nil
  show ?case by (simp add: tick_done_def pruned_fields)
next
  case (Cons item rest)
  obtain a schedule where item: "item = (a, schedule)" by (cases item)
  let ?k = "fire_key (au_agentId a) (au_id a)"
  let ?m = "jm_get (nextByAutomationId s)"
  from Cons.prems(1) obtain r where r: "computeNextRunAt cal schedule now zone = Inr (Some r)"
    and rest: "computes cal zone now rest" unfolding item by (rule computesE)
  have later: "now < t" if "r = Some t" for t using compute_later [OF cal] r that by blast
  have same: "due_only (?m(?k \<mapsto> v)) now = due_only (?m(?k := None)) now" if "now < v" for v
    using that by (auto simp: due_only_def fun_eq_iff)
  show ?case
  proof (cases "?m ?k")
    case None
    show ?thesis
    proof (cases r)
      case None
      with \<open>?m ?k = None\<close> r Cons.IH [OF rest Cons.prems(2,3)] show ?thesis by (simp add: item Let_def)
    next
      case (Some t)
      let ?s = "s\<lparr>nextByAutomationId := jm_set (nextByAutomationId s) ?k t\<rparr>"
      have "dates_only ?s now" using Cons.prems(2) later [OF Some] by (auto simp: dates_only_def)
      moreover have "due_runs (jm_get (nextByAutomationId ?s)) now rest = due_runs ?m now rest"
      proof (rule due_runs_cong)
        have "?m(?k := None) = ?m" using None by (rule fun_upd_idem)
        with same [OF later [OF Some]] have "due_only (?m(?k \<mapsto> t)) now = due_only ?m now" by (simp only:)
        moreover have "jm_get (nextByAutomationId ?s) = ?m(?k \<mapsto> t)" by (simp add: fun_eq_iff)
        ultimately show "due_only (jm_get (nextByAutomationId ?s)) now = due_only ?m now" by (simp only:)
      qed
      ultimately show ?thesis using None r Some Cons.IH [OF rest, of ?s] Cons.prems(3) by (simp add: item Let_def)
    qed
  next
    case (Some d)
    show ?thesis
    proof (cases "now < d")
      case True
      with Some Cons.IH [OF rest Cons.prems(2,3)] show ?thesis by (simp add: item Let_def)
    next
      case False
      define v where "v = (case r of Some t \<Rightarrow> t | None \<Rightarrow> MAX_SAFE_INTEGER)"
      have v: "now < v" using later MAX_DATE_safe [OF now] by (simp add: v_def split: option.split)
      define s' where "s' = saveState written (s\<lparr>nextByAutomationId := jm_set (nextByAutomationId s) ?k v\<rparr>)"
      let ?f = "\<lparr>fi_key = ?k, fi_schedule = schedule, fi_scheduledForMs = d, fi_at = now\<rparr>"
      let ?s = "s'\<lparr>fires := ?f # fires s', tick_state := Running now (set_add seen ?k) rest\<rparr>"
      have fields: "nextByAutomationId ?s = jm_set (nextByAutomationId s) ?k v" "fires ?s = ?f # fires s" "busy ?s"
        using Cons.prems(3) by (simp_all add: s'_def saved_fields same_tick)
      have date: "\<not> MAX_DATE_MS < \<bar>d\<bar>" using Cons.prems(2) Some False by (auto simp: dates_only_def not_less)
      have "dates_only ?s now" using Cons.prems(2) v unfolding dates_only_def fields(1) by auto
      note IH = Cons.IH [OF rest this fields(3), of "set_add seen ?k", unfolded fields(1,2) Let_def]
      have runs: "due_runs ?m now (item # rest) = ?f # due_runs (jm_get (jm_set (nextByAutomationId s) ?k v)) now rest"
      proof -
        have "jm_get (jm_set (nextByAutomationId s) ?k v) = ?m(?k \<mapsto> v)" by (simp add: fun_eq_iff)
        then have "due_runs (jm_get (jm_set (nextByAutomationId s) ?k v)) now rest = due_runs (?m(?k := None)) now rest"
          using due_runs_cong [OF same [OF v], of rest] by (simp only:)
        with Some False show ?thesis by (simp add: item Let_def del: jm_get_set)
      qed
      have loop: "tick_loop cal zone written now seen (item # rest) s = ?s"
        using Some False r date by (simp add: item Let_def v_def s'_def)
      have fired: "step ?s (Fired cal zone written) = tick_loop cal zone written now (set_add seen ?k) rest ?s"
        by (simp add: tick_fired_def)
      show ?thesis using IH unfolding runs loop Let_def by (simp del: step.simps add: fired)
    qed
  qed
qed


text \<open>
  Property C27. A tick that is left to run ends, and it has fired exactly the routines that were due
  when it listed them: each once, in the order of the list, by its first schedule, however late it
  is; nothing seen for the first time is fired. This holds when every listed schedule is computed
  without an error, the due times that have come and the time of the tick are dates of JavaScript,
  and the fields of the calendar are in their ranges; a schedule that throws ends the tick instead
  (\<^verbatim>\<open>throwing_schedule_ends_the_tick\<close>).
\<close>
theorem tick_fires_what_is_due:
  assumes "calendar_in_range cal" "tick_state s = Listing now" "busy s" "now \<le> MAX_DATE_MS"
    and "computes cal zone now (tick_items autos)" "dates_only s now"
  shows "let owed = due_runs (jm_get (nextByAutomationId s)) now (tick_items autos);
             s' = foldl step s (Listed cal zone written (Some autos) # replicate (length owed) (Fired cal zone written))
         in fires s' = rev owed @ fires s \<and> tick_state s' = Idle \<and> \<not> busy s'"
  using tick_fires_due [OF assms(1,4,5,6,3), of written "[]"] by (simp add: Let_def tick_listed_def assms(2))

lemmas schedule_eval = computeNextRunAt_def normalizeSchedule_def parseEveryIntervalMs_def unit_ms_def parse_eval

definition waiting :: scheduler where
  "waiting = (boot None [])\<lparr>timer := True, busy := True, tick_state := Listing 500,
     nextByAutomationId := [(fire_key (ascii ''a'') (ascii ''r''), 100)]\<rparr>"

theorem tick_fires_what_is_due_witness:
  "let s' = foldl step waiting [Listed utc_calendar None True (Some [demo_routine [ascii ''@every 1m'', ascii ''@every 2m'']]),
       Fired utc_calendar None True]
   in fires s' = [\<lparr>fi_key = [97, 58, 114], fi_schedule = ascii ''@every 1m'', fi_scheduledForMs = 100, fi_at = 500\<rparr>] \<and>
     tick_state s' = Idle \<and> \<not> busy s'"
proof -
  have c: "computeNextRunAt utc_calendar (ascii ''@every 1m'') 500 None = Inr (Some (Some 60500))"
    "computeNextRunAt utc_calendar (ascii ''@every 2m'') 500 None = Inr (Some (Some 120500))"
    by (simp_all add: schedule_eval)
  have items: "tick_items [demo_routine [ascii ''@every 1m'', ascii ''@every 2m'']] =
      [(demo_routine [ascii ''@every 1m'', ascii ''@every 2m''], ascii ''@every 1m''),
       (demo_routine [ascii ''@every 1m'', ascii ''@every 2m''], ascii ''@every 2m'')]"
    by (simp add: tick_items_def demo_routine_def triggerCronSchedules_def)
  have owed: "due_runs (jm_get (nextByAutomationId waiting)) 500 (tick_items [demo_routine [ascii ''@every 1m'', ascii ''@every 2m'']]) =
      [\<lparr>fi_key = [97, 58, 114], fi_schedule = ascii ''@every 1m'', fi_scheduledForMs = 100, fi_at = 500\<rparr>]"
    unfolding items by (simp add: waiting_def demo_routine_def fire_key_def ascii_def Let_def)
  have "computes utc_calendar None 500 (tick_items [demo_routine [ascii ''@every 1m'', ascii ''@every 2m'']])"
    by (simp add: items computes_def c)
  from tick_fires_what_is_due [OF utc_calendar_in_range _ _ _ this, of waiting True] owed show ?thesis
    by (simp add: waiting_def dates_only_def MAX_DATE_MS_def Let_def boot_def split: if_splits)
qed

text \<open>Where the tick stood plays no part once its loop runs on.\<close>

lemma saveState_left: "saveState w (s\<lparr>tick_state := p\<rparr>) = (saveState w s)\<lparr>tick_state := p\<rparr>"
  by (simp add: saveState_def)




subsection \<open>Routines with several schedules, and schedules that throw\<close>





text \<open>
  Fact. One routine whose schedule throws, when it is new or due, ends the tick: no routine
  listed after it is given a due time or fired, and nothing is dropped, at this tick and at
  every later one that lists the same.
\<close>
theorem throwing_schedule_ends_the_tick:
  assumes "tick_state s = Listing now" "au_isEnabled a" "triggerCronSchedules (au_trigger a) = schedule # others"
    and "computeNextRunAt cal schedule now zone = Inl e"
    and "jm_get (nextByAutomationId s) (fire_key (au_agentId a) (au_id a)) = None"
  shows "tick_listed cal zone written (Some (a # autos)) s = tick_done s \<and>
    fires (tick_done s) = fires s \<and> nextByAutomationId (tick_done s) = nextByAutomationId s"
  using assms by (simp add: tick_listed_def tick_items_def Let_def tick_done_def)

theorem throwing_schedule_ends_the_tick_witness:
  "tick_listed utc_calendar None True (Some [demo_routine [ascii ''constructor''], demo_routine [ascii ''@every 1m'']])
     (waiting\<lparr>nextByAutomationId := []\<rparr>) = tick_done (waiting\<lparr>nextByAutomationId := []\<rparr>)"
proof -
  have n: "normalizeSchedule (ascii ''constructor'') = ascii ''constructor''" by (simp add: normalizeSchedule_def js_trim_def js_space_def ascii_def)
  have every: "parseEveryIntervalMs (ascii ''constructor'') = None"
    by (simp add: parseEveryIntervalMs_def js_trim_def js_space_def ascii_def Let_def)
  have "computeNextRunAt utc_calendar (ascii ''constructor'') 500 None = Inl NotAString"
    by (simp only: computeNextRunAt_def n Let_def every inherited_name_throws option.case sum.case)
  from throwing_schedule_ends_the_tick [OF _ _ _ this, of "waiting\<lparr>nextByAutomationId := []\<rparr>" "demo_routine [ascii ''constructor'']"]
  show ?thesis by (simp add: waiting_def demo_routine_def triggerCronSchedules_def)
qed

subsection \<open>The earliest run\<close>

lemma earliest_from_least:
  "earliest_from cal anchor zone e ss = Inr (Some r) \<Longrightarrow>
   (\<forall>s \<in> set ss. \<exists>n. computeNextRunAt cal s anchor zone = Inr (Some n)) \<and>
   (let runs = (case e of Some t \<Rightarrow> {t} | None \<Rightarrow> {}) \<union> {t. \<exists>s \<in> set ss. computeNextRunAt cal s anchor zone = Inr (Some (Some t))}
    in case r of None \<Rightarrow> runs = {} | Some t \<Rightarrow> t \<in> runs \<and> (\<forall>u \<in> runs. t \<le> u))"
proof (induction ss arbitrary: e)
  case Nil
  then show ?case by (auto split: option.splits)
next
  case (Cons s ss)
  obtain n where n: "computeNextRunAt cal s anchor zone = Inr (Some n)"
    using Cons.prems by (auto split: sum.splits option.splits)
  let ?e = "case n of None \<Rightarrow> e | Some next \<Rightarrow> (case e of None \<Rightarrow> Some next | Some t \<Rightarrow> if next < t then Some next else e)"
  have "earliest_from cal anchor zone ?e ss = Inr (Some r)"
    using Cons.prems n by (cases n) simp_all
  from Cons.IH [OF this] n show ?case
    by (cases n; cases e) (force simp: Let_def split: option.splits if_splits)+
qed

text \<open>
  Fact. The next run shown for a routine is the least of what its schedules give from its
  anchor, over all of them; none is shown when none of them gives one.
\<close>
theorem earliest_run_is_least:
  assumes "earliestNextRunAt cal zone config = Inr (Some r)"
  shows "let runs = {t. \<exists>s \<in> set (triggerCronSchedules (at_trigger config)).
               computeNextRunAt cal s (automationAnchor config) zone = Inr (Some (Some t))}
         in case r of None \<Rightarrow> runs = {} | Some t \<Rightarrow> t \<in> runs \<and> (\<forall>u \<in> runs. t \<le> u)"
  using earliest_from_least [OF assms [unfolded earliestNextRunAt_def]] by (simp add: Let_def split: option.splits)

theorem earliest_run_is_least_witness:
  "(60500::int) \<in> {t. \<exists>s \<in> {ascii ''@every 1h'', ascii ''@every 1m''}. computeNextRunAt utc_calendar s 500 None = Inr (Some (Some t))}"
proof -
  let ?config = "\<lparr>at_createdAt = 500, at_lastRunAt = None, at_trigger = Group [Cron (ascii ''@every 1h''), Cron (ascii ''@every 1m'')]\<rparr>"
  have c: "computeNextRunAt utc_calendar (ascii ''@every 1h'') 500 None = Inr (Some (Some 3600500))"
    "computeNextRunAt utc_calendar (ascii ''@every 1m'') 500 None = Inr (Some (Some 60500))"
    by (simp_all add: schedule_eval)
  have "earliestNextRunAt utc_calendar None ?config = Inr (Some (Some 60500))"
    by (simp add: earliestNextRunAt_def triggerCronSchedules_def automationAnchor_def c)
  from earliest_run_is_least [OF this] show ?thesis by (simp add: triggerCronSchedules_def automationAnchor_def)
qed

end
