(* ===== verification/Request_Coalescer.thy ===== *)
theory Request_Coalescer
  imports Js_Prelude "HOL-Library.Multiset"
begin

text \<open>
  Requests of one kind that arrive together are sent together:
  \<^verbatim>\<open>host/extensions/box-store-sync/request-coalescer.ts\<close>. A batch takes requests from the front
  of the queue, at most one for each conflict key; the others keep their place. A batch that
  fails may be tried again one request at a time.

  The service behind it is the caller's \<^verbatim>\<open>run\<close>, so its answers come with the events. A promise is
  settled by recording its outcome under the number of the call.
\<close>

subsection \<open>Options and state\<close>

datatype 'e failure = RunFailed 'e | NoResult | WrongCount nat nat

text \<open>
  \<^verbatim>\<open>maxBatchSize\<close> as given, in whole steps; \<^verbatim>\<open>conflictKey\<close> and \<^verbatim>\<open>shouldSplitOnError\<close> are total
  functions: where the option is missing, the key is never there and no error splits.
\<close>

record ('r, 'k, 'e) options =
  maxBatchSize :: int
  conflictKey :: "'r \<Rightarrow> 'k option"
  shouldSplitOnError :: "'e failure \<Rightarrow> bool"

record 'r pending =
  call :: nat
  request :: 'r

text \<open>
  Where the drain stands: not running, waiting for a batch, waiting for the first of the requests
  that are tried one at a time, or on its way to the next batch.
\<close>

datatype 'r drain = Resting | Batch "'r pending list" | Each "'r pending list" | Next_Batch

text \<open>
  A result may be \<^verbatim>\<open>undefined\<close>, which is \<^term>\<open>None\<close>. What was settled, sent and asked for is
  history, which the code does not keep; a call's number is its place in what was asked for.
\<close>

record ('r, 'b, 'e) coalescer =
  queue :: "'r pending list"
  draining :: "'r drain"
  settled :: "(nat \<times> ('e failure + 'b option)) list"
  runs :: "'r list list"
  asked :: "'r list"

definition new_coalescer :: "('r, 'b, 'e) coalescer" where
  "new_coalescer = \<lparr>queue = [], draining = Resting, settled = [], runs = [], asked = []\<rparr>"

definition batch_limit :: "('r, 'k, 'e) options \<Rightarrow> nat" where
  "batch_limit op = nat (max 1 (maxBatchSize op))"

subsection \<open>Batches\<close>

text \<open>The batch, what was put off, and what of the queue was not looked at.\<close>

fun takeBatch :: "('r \<Rightarrow> 'k option) \<Rightarrow> nat \<Rightarrow> 'k list \<Rightarrow> 'r pending list \<Rightarrow>
    'r pending list \<times> 'r pending list \<times> 'r pending list" where
  "takeBatch key 0 claimed q = ([], [], q)"
| "takeBatch key (Suc n) claimed [] = ([], [], [])"
| "takeBatch key (Suc n) claimed (p # q) =
     (case key (request p) of
        None \<Rightarrow> (let (batch, deferred, rest) = takeBatch key n claimed q in (p # batch, deferred, rest))
      | Some k \<Rightarrow>
          if k \<in> set claimed
          then (let (batch, deferred, rest) = takeBatch key (Suc n) claimed q in (batch, p # deferred, rest))
          else (let (batch, deferred, rest) = takeBatch key n (set_add claimed k) q in (p # batch, deferred, rest)))"

text \<open>From one turn of the drain's loop to its next wait.\<close>

definition drain_loop :: "('r, 'k, 'e) options \<Rightarrow> ('r, 'b, 'e) coalescer \<Rightarrow> ('r, 'b, 'e) coalescer" where
  "drain_loop op s =
     (if queue s = [] then s\<lparr>draining := Resting\<rparr>
      else let (batch, deferred, rest) = takeBatch (conflictKey op) (batch_limit op) [] (queue s)
           in if batch = [] then s\<lparr>queue := deferred @ rest, draining := Resting\<rparr>
              else s\<lparr>queue := deferred @ rest, draining := Batch batch, runs := map request batch # runs s\<rparr>)"

definition settle :: "'r pending \<Rightarrow> 'e failure + 'b option \<Rightarrow> ('r, 'b, 'e) coalescer \<Rightarrow> ('r, 'b, 'e) coalescer" where
  "settle p r s = s\<lparr>settled := (call p, r) # settled s\<rparr>"

text \<open>\<^verbatim>\<open>runIndividually\<close>, from one request to the next.\<close>

fun runIndividually :: "'r pending list \<Rightarrow> ('r, 'b, 'e) coalescer \<Rightarrow> ('r, 'b, 'e) coalescer" where
  "runIndividually [] s = s\<lparr>draining := Next_Batch\<rparr>"
| "runIndividually (p # ps) s = s\<lparr>draining := Each (p # ps), runs := [request p] # runs s\<rparr>"

definition batch_failed :: "('r, 'k, 'e) options \<Rightarrow> 'r pending list \<Rightarrow> 'e failure \<Rightarrow>
    ('r, 'b, 'e) coalescer \<Rightarrow> ('r, 'b, 'e) coalescer" where
  "batch_failed op batch e s =
     (if 1 < length batch \<and> shouldSplitOnError op e then runIndividually batch s
      else (foldl (\<lambda>s p. settle p (Inl e) s) s batch)\<lparr>draining := Next_Batch\<rparr>)"

definition runBatch :: "('r, 'k, 'e) options \<Rightarrow> 'r pending list \<Rightarrow> 'e + 'b option list \<Rightarrow>
    ('r, 'b, 'e) coalescer \<Rightarrow> ('r, 'b, 'e) coalescer" where
  "runBatch op batch answer s =
     (case answer of
        Inl e \<Rightarrow> batch_failed op batch (RunFailed e) s
      | Inr results \<Rightarrow>
          if length results \<noteq> length batch then batch_failed op batch (WrongCount (length results) (length batch)) s
          else (foldl (\<lambda>s (p, r). settle p (Inr r) s) s (zip batch results))\<lparr>draining := Next_Batch\<rparr>)"

definition single_outcome :: "'e + 'b option list \<Rightarrow> 'e failure + 'b option" where
  "single_outcome answer =
     (case answer of
        Inl e \<Rightarrow> Inl (RunFailed e)
      | Inr [] \<Rightarrow> Inl NoResult
      | Inr (None # _) \<Rightarrow> Inl NoResult
      | Inr (Some b # _) \<Rightarrow> Inr (Some b))"

subsection \<open>Events\<close>

datatype ('r, 'b, 'e) event = Call 'r | Ran "'e + 'b option list" | Continue

definition coalesce :: "('r, 'k, 'e) options \<Rightarrow> 'r \<Rightarrow> ('r, 'b, 'e) coalescer \<Rightarrow> ('r, 'b, 'e) coalescer" where
  "coalesce op r s =
     (let s = s\<lparr>queue := queue s @ [\<lparr>call = length (asked s), request = r\<rparr>], asked := asked s @ [r]\<rparr>
      in if draining s = Resting then drain_loop op s else s)"

definition step :: "('r, 'k, 'e) options \<Rightarrow> ('r, 'b, 'e) coalescer \<Rightarrow> ('r, 'b, 'e) event \<Rightarrow> ('r, 'b, 'e) coalescer" where
  "step op s e =
     (case e of
        Call r \<Rightarrow> coalesce op r s
      | Ran answer \<Rightarrow>
          (case draining s of
             Batch batch \<Rightarrow> runBatch op batch answer s
           | Each (p # ps) \<Rightarrow> runIndividually ps (settle p (single_outcome answer) s)
           | _ \<Rightarrow> s)
      | Continue \<Rightarrow> (case draining s of Next_Batch \<Rightarrow> drain_loop op s | _ \<Rightarrow> s))"

subsection \<open>What a batch is\<close>

definition conflicts :: "('r \<Rightarrow> 'k option) \<Rightarrow> 'r pending \<Rightarrow> 'r pending \<Rightarrow> bool" where
  "conflicts key p q \<longleftrightarrow> key (request p) \<noteq> None \<and> key (request p) = key (request q)"

text \<open>Requests that conflict stand in the order of their calls.\<close>

abbreviation in_order :: "('r \<Rightarrow> 'k option) \<Rightarrow> 'r pending \<Rightarrow> 'r pending \<Rightarrow> bool" where
  "in_order key p q \<equiv> conflicts key p q \<longrightarrow> call p < call q"

lemma takeBatch_mset:
  "takeBatch key n claimed q = (b, d, r) \<Longrightarrow> mset b + mset (d @ r) = mset q \<and> length b \<le> n"
  by (induction key n claimed q arbitrary: b d r rule: takeBatch.induct)
    (force split: option.splits if_splits prod.splits simp: Let_def)+

lemma takeBatch_nonempty:
  "takeBatch key (Suc n) [] (p # q) = (b, d, r) \<Longrightarrow> b \<noteq> []"
  by (auto split: option.splits prod.splits)

lemma takeBatch_keys:
  "takeBatch key n claimed q = (b, d, r) \<Longrightarrow>
   distinct (List.map_filter (key \<circ> request) b) \<and> set (List.map_filter (key \<circ> request) b) \<inter> set claimed = {}"
  by (induction key n claimed q arbitrary: b d r rule: takeBatch.induct)
    (force split: option.splits if_splits prod.splits simp: Let_def List.map_filter_simps)+

lemma map_filter_memI: "x \<in> set xs \<Longrightarrow> key (request x) = Some k \<Longrightarrow> k \<in> set (List.map_filter (key \<circ> request) xs)"
  by (induction xs) (auto simp: List.map_filter_simps split: option.splits)

lemma takeBatch_sorted:
  "takeBatch key n claimed q = (b, d, r) \<Longrightarrow> sorted_wrt (in_order key) q \<Longrightarrow>
   sorted_wrt (in_order key) (d @ r) \<and> (\<forall>p \<in> set b. \<forall>p' \<in> set (d @ r). in_order key p p')"
proof (induction key n claimed q arbitrary: b d r rule: takeBatch.induct)
  case (3 key n claimed p q)
  have parts: "set b' \<union> set (d' @ r') = set q" if "takeBatch key m cl q = (b', d', r')" for m cl b' d' r'
    using takeBatch_mset [OF that] by (metis set_mset_mset set_mset_union)
  show ?case
  proof (cases "\<exists>k. key (request p) = Some k \<and> k \<in> set claimed")
    case True
    then obtain k where k: "key (request p) = Some k" "k \<in> set claimed" by blast
    obtain b' d' r' where q: "takeBatch key (Suc n) claimed q = (b', d', r')" by (metis prod_cases3)
    with 3(4) k have eq: "b = b'" "d = p # d'" "r = r'" by simp_all
    from 3(2) [OF k q] 3(5) have IH: "sorted_wrt (in_order key) (d' @ r')" "\<forall>x \<in> set b'. \<forall>y \<in> set (d' @ r'). in_order key x y"
      by simp_all
    have "\<not> conflicts key x p" if "x \<in> set b'" for x
    proof
      assume "conflicts key x p"
      with k have "key (request x) = Some k" by (simp add: conflicts_def)
      with that have "k \<in> set (List.map_filter (key \<circ> request) b')" by (rule map_filter_memI)
      with takeBatch_keys [OF q] k(2) show False by blast
    qed
    moreover have "\<forall>y \<in> set (d' @ r'). in_order key p y" using 3(5) parts [OF q] by auto
    ultimately show ?thesis using IH unfolding eq by simp
  next
    case False
    obtain cl b' d' r' where q: "takeBatch key n cl q = (b', d', r')" and eq: "b = p # b'" "d = d'" "r = r'"
      and IH: "sorted_wrt (in_order key) (d' @ r') \<and> (\<forall>x \<in> set b'. \<forall>y \<in> set (d' @ r'). in_order key x y)"
    proof (cases "key (request p)")
      case None
      obtain b' d' r' where q: "takeBatch key n claimed q = (b', d', r')" by (metis prod_cases3)
      from that [OF q] 3(1) [OF None q] 3(4,5) None q show ?thesis by simp
    next
      case (Some k)
      with False have k: "k \<notin> set claimed" by blast
      obtain b' d' r' where q: "takeBatch key n (set_add claimed k) q = (b', d', r')" by (metis prod_cases3)
      from that [OF q] 3(3) [OF Some k q] 3(4,5) Some k q show ?thesis by simp
    qed
    moreover have "\<forall>y \<in> set (d' @ r'). in_order key p y" using 3(5) parts [OF q] by auto
    ultimately show ?thesis by simp
  qed
qed auto

subsection \<open>Every call has one place\<close>

definition held :: "('r, 'b, 'e) coalescer \<Rightarrow> 'r pending list" where
  "held s = (case draining s of Batch ps \<Rightarrow> ps | Each ps \<Rightarrow> ps | _ \<Rightarrow> [])"

definition places :: "('r, 'b, 'e) coalescer \<Rightarrow> nat multiset" where
  "places s = mset (map fst (settled s)) + mset (map call (held s)) + mset (map call (queue s))"

definition drain_ok :: "('r, 'k, 'e) options \<Rightarrow> ('r, 'b, 'e) coalescer \<Rightarrow> bool" where
  "drain_ok op s \<longleftrightarrow>
     (draining s = Resting \<longrightarrow> queue s = []) \<and>
     (\<forall>b. draining s \<in> {Batch b, Each b} \<longrightarrow> b \<noteq> []) \<and>
     length (held s) \<le> batch_limit op \<and> distinct (List.map_filter (conflictKey op \<circ> request) (held s))"

definition order_ok :: "('r, 'k, 'e) options \<Rightarrow> ('r, 'b, 'e) coalescer \<Rightarrow> bool" where
  "order_ok op s \<longleftrightarrow>
     sorted_wrt (in_order (conflictKey op)) (queue s) \<and>
     (\<forall>p \<in> set (held s). \<forall>q \<in> set (queue s). in_order (conflictKey op) p q) \<and>
     (\<forall>(i, r) \<in> set (settled s). \<forall>q \<in> set (held s @ queue s).
        in_order (conflictKey op) \<lparr>call = i, request = asked s ! i\<rparr> q)"

definition coalescer_ok :: "('r, 'k, 'e) options \<Rightarrow> ('r, 'b, 'e) coalescer \<Rightarrow> bool" where
  "coalescer_ok op s \<longleftrightarrow>
     places s = mset [0..<length (asked s)] \<and> (\<forall>p \<in> set (held s @ queue s). request p = asked s ! call p) \<and>
     drain_ok op s \<and> order_ok op s"


definition held_of :: "'r drain \<Rightarrow> 'r pending list" where
  "held_of d = (case d of Batch ps \<Rightarrow> ps | Each ps \<Rightarrow> ps | _ \<Rightarrow> [])"

lemma held_of: "held s = held_of (draining s)"
  by (simp add: held_def held_of_def)

lemma held_of_simps [simp]:
  "held_of (Batch ps) = ps" "held_of (Each ps) = ps" "held_of Resting = []" "held_of Next_Batch = []"
  by (simp_all add: held_of_def)

lemma distinct_keys_no_conflict:
  "distinct (List.map_filter (key \<circ> request) (xs @ ys)) \<Longrightarrow> p \<in> set xs \<Longrightarrow> q \<in> set ys \<Longrightarrow> \<not> conflicts key p q"
proof
  assume d: "distinct (List.map_filter (key \<circ> request) (xs @ ys))" and pq: "p \<in> set xs" "q \<in> set ys" "conflicts key p q"
  from pq(3) obtain k where k: "key (request p) = Some k" "key (request q) = Some k"
    by (metis conflicts_def option.exhaust)
  have "List.map_filter (key \<circ> request) (xs @ ys) = List.map_filter (key \<circ> request) xs @ List.map_filter (key \<circ> request) ys"
    by (simp add: List.map_filter_def)
  with d map_filter_memI [of p xs key k] map_filter_memI [of q ys key k] pq k show False by auto
qed

text \<open>Some of what is held is settled, the rest stays held.\<close>

lemma settle_ok:
  assumes ok: "coalescer_ok op s" and split: "held s = dn @ left" and new: "map fst new = rev (map call dn)"
    and nxt: "left = [] \<and> d = Next_Batch \<or> left \<noteq> [] \<and> d = Each left"
  shows "coalescer_ok op (s\<lparr>settled := new @ settled s, draining := d, runs := rs\<rparr>)"
proof -
  let ?s = "s\<lparr>settled := new @ settled s, draining := d, runs := rs\<rparr>"
  have held: "held ?s = left" using nxt by (auto simp: held_of)
  have "mset (map fst new) = mset (map call dn)" by (simp add: new)
  then have places: "places ?s = places s" using split by (simp add: places_def held)
  have drain: "drain_ok op ?s"
    using ok nxt split by (auto simp: drain_ok_def coalescer_ok_def held List.map_filter_def)
  have order: "in_order (conflictKey op) \<lparr>call = i, request = asked s ! i\<rparr> q"
    if "(i, r) \<in> set new" and q: "q \<in> set (left @ queue s)" for i r q
  proof -
    from that(1) have "i \<in> set (map fst new)" by (metis fst_conv image_eqI list.set_map)
    then obtain p where p: "p \<in> set dn" "i = call p" unfolding new by auto
    with ok split have "p = \<lparr>call = i, request = asked s ! i\<rparr>" by (simp add: coalescer_ok_def)
    moreover have "in_order (conflictKey op) p q"
      using ok split p(1) q distinct_keys_no_conflict [of "conflictKey op" dn left p q]
      by (auto simp: coalescer_ok_def drain_ok_def order_ok_def)
    ultimately show ?thesis by simp
  qed
  have "order_ok op ?s"
    using ok order split by (auto simp: order_ok_def coalescer_ok_def held)
  with ok places drain split show ?thesis by (simp add: coalescer_ok_def held)
qed

text \<open>Nothing is held, and the next batch is taken.\<close>

lemma drain_loop_ok:
  assumes held: "held s = []" and places: "places s = mset [0..<length (asked s)]"
    and req: "\<forall>p \<in> set (queue s). request p = asked s ! call p" and order: "order_ok op s"
  shows "coalescer_ok op (drain_loop op s)"
proof (cases "queue s")
  case Nil
  with assms show ?thesis by (simp add: drain_loop_def coalescer_ok_def drain_ok_def order_ok_def places_def held_of List.map_filter_def)
next
  case (Cons p q)
  obtain b d r where t: "takeBatch (conflictKey op) (batch_limit op) [] (queue s) = (b, d, r)" by (metis prod_cases3)
  have "batch_limit op = Suc (batch_limit op - 1)" by (simp add: batch_limit_def)
  then have ne: "b \<noteq> []" using t Cons takeBatch_nonempty by metis
  let ?s = "s\<lparr>queue := d @ r, draining := Batch b, runs := map request b # runs s\<rparr>"
  have eq: "drain_loop op s = ?s" using Cons t ne by (simp add: drain_loop_def)
  note m = takeBatch_mset [OF t]
  have sets: "set b \<union> set (d @ r) = set (queue s)" using m by (metis set_mset_mset set_mset_union)
  have "mset (map call b) + mset (map call (d @ r)) = mset (map call (queue s))"
    using m by (metis image_mset_union mset_map)
  then have "places ?s = places s" using held by (simp add: places_def held_of)
  moreover have "drain_ok op ?s" using ne m takeBatch_keys [OF t] by (auto simp: drain_ok_def held_of)
  moreover have "order_ok op ?s"
    using takeBatch_sorted [OF t] order held sets by (auto simp: order_ok_def held_of)
  ultimately show ?thesis using places req sets unfolding eq by (auto simp: coalescer_ok_def held_of)
qed

lemma places_bound:
  assumes "places s = mset [0..<length (asked s)]"
  shows "(i, r) \<in> set (settled s) \<Longrightarrow> i < length (asked s)"
    and "p \<in> set (held s @ queue s) \<Longrightarrow> call p < length (asked s)"
proof -
  have "set_mset (places s) = {0..<length (asked s)}" unfolding assms by simp
  then show "(i, r) \<in> set (settled s) \<Longrightarrow> i < length (asked s)" "p \<in> set (held s @ queue s) \<Longrightarrow> call p < length (asked s)"
    by (force simp: places_def)+
qed

lemma coalesce_ok:
  assumes ok: "coalescer_ok op s"
  shows "coalescer_ok op (coalesce op r s)"
proof -
  let ?p = "\<lparr>call = length (asked s), request = r\<rparr>"
  let ?s = "s\<lparr>queue := queue s @ [?p], asked := asked s @ [r]\<rparr>"
  have p: "places s = mset [0..<length (asked s)]" using ok by (simp add: coalescer_ok_def)
  note bound = places_bound [OF p]
  have held: "held ?s = held s" by (simp add: held_of)
  have places: "places ?s = mset [0..<length (asked ?s)]" using p by (simp add: places_def held)
  have req: "\<forall>q \<in> set (held ?s @ queue ?s). request q = asked ?s ! call q"
    using ok bound(2) by (auto simp: coalescer_ok_def held nth_append)
  have order: "order_ok op ?s"
    using ok bound by (auto simp: order_ok_def coalescer_ok_def held sorted_wrt_append nth_append)
  show ?thesis
  proof (cases "draining s = Resting")
    case True
    then have "held ?s = []" by (simp add: held_of)
    from drain_loop_ok [OF this places _ order] req True show ?thesis by (simp add: coalesce_def)
  next
    case False
    with ok have "drain_ok op ?s" by (simp add: coalescer_ok_def drain_ok_def held)
    with places req order False show ?thesis by (simp add: coalesce_def coalescer_ok_def)
  qed
qed

lemma settle_all: "foldl (\<lambda>s p. settle p (Inl e) s) s ps = s\<lparr>settled := rev (map (\<lambda>p. (call p, Inl e)) ps) @ settled s\<rparr>"
  by (induction ps arbitrary: s) (auto simp: settle_def)

lemma settle_results:
  "foldl (\<lambda>s (p, r). settle p (Inr r) s) s prs = s\<lparr>settled := rev (map (\<lambda>(p, r). (call p, Inr r)) prs) @ settled s\<rparr>"
  by (induction prs arbitrary: s) (auto simp: settle_def)


lemma drain_run_ok:
  assumes ok: "coalescer_ok op s"
  shows "coalescer_ok op (step op s (Ran answer))"
proof (cases "draining s")
  case (Batch b)
  have held: "held s = b" by (simp add: held_of Batch)
  have ne: "b \<noteq> []" using ok Batch by (simp add: coalescer_ok_def drain_ok_def)
  have all: "coalescer_ok op (s\<lparr>settled := rev (map (\<lambda>(p, r). (call p, r)) prs) @ settled s, draining := Next_Batch\<rparr>)"
    if "map fst prs = b" for prs
  proof -
    have "map fst (rev (map (\<lambda>(p, r). (call p, r)) prs)) = rev (map call (map fst prs))"
      by (simp add: rev_map comp_def case_prod_unfold)
    with settle_ok [OF ok, of b "[]" "rev (map (\<lambda>(p, r). (call p, r)) prs)" Next_Batch "runs s"] held that
    show ?thesis by simp
  qed
  have failed: "coalescer_ok op (batch_failed op b e s)" for e
  proof (cases "1 < length b \<and> shouldSplitOnError op e")
    case True
    obtain p ps where b: "b = p # ps" using ne by (cases b) auto
    from settle_ok [OF ok, of "[]" b "[]" "Each b" "[request p] # runs s"] held ne True b show ?thesis
      by (simp add: batch_failed_def)
  next
    case False
    have "map fst (map (\<lambda>p. (p, Inl e)) b) = b" by (simp add: comp_def)
    from all [OF this] False show ?thesis by (auto simp: batch_failed_def settle_all comp_def)
  qed
  have "coalescer_ok op (runBatch op b (Inr results) s)" for results
  proof (cases "length results = length b")
    case True
    then have "map fst (map (\<lambda>(p, r). (p, Inr r)) (zip b results)) = b" by (simp add: comp_def case_prod_unfold)
    from all [OF this] True show ?thesis by (simp add: runBatch_def settle_results [unfolded case_prod_unfold] comp_def case_prod_unfold)
  next
    case False
    with failed show ?thesis by (simp add: runBatch_def)
  qed
  with failed show ?thesis by (cases answer) (simp_all add: step_def Batch runBatch_def)
next
  case (Each b)
  have "b \<noteq> []" using ok Each by (simp add: coalescer_ok_def drain_ok_def)
  then obtain p ps where b: "b = p # ps" by (cases b) auto
  let ?r = "single_outcome answer"
  have held: "held s = [p] @ ps" by (simp add: held_of Each b)
  show ?thesis
  proof (cases ps)
    case Nil
    with settle_ok [OF ok held, of "[(call p, ?r)]" Next_Batch "runs s"] show ?thesis
      by (simp add: step_def Each b settle_def)
  next
    case (Cons q qs)
    with settle_ok [OF ok held, of "[(call p, ?r)]" "Each ps" "[request q] # runs s"] show ?thesis
      by (simp add: step_def Each b settle_def)
  qed
qed (use ok in \<open>simp_all add: step_def\<close>)

lemma continue_ok:
  assumes ok: "coalescer_ok op s"
  shows "coalescer_ok op (step op s Continue)"
proof (cases "draining s = Next_Batch")
  case True
  then have "held s = []" by (simp add: held_of)
  moreover from ok have "places s = mset [0..<length (asked s)]" "\<forall>p \<in> set (queue s). request p = asked s ! call p" "order_ok op s"
    by (simp_all add: coalescer_ok_def)
  ultimately have "coalescer_ok op (drain_loop op s)" by (rule drain_loop_ok)
  with True show ?thesis by (simp add: step_def)
next
  case False
  with ok show ?thesis by (simp add: step_def split: drain.split)
qed

lemma coalescer_step_ok: "coalescer_ok op s \<Longrightarrow> coalescer_ok op (step op s e)"
  using coalesce_ok [of op s] drain_run_ok [of op s] continue_ok [of op s]
  by (cases e) (simp_all add: step_def)

lemma new_ok: "coalescer_ok op new_coalescer"
  by (simp add: coalescer_ok_def new_coalescer_def places_def drain_ok_def order_ok_def held_of List.map_filter_def)

interpretation coalescer: invariant_machine "step op" "coalescer_ok op" for op
  by unfold_locales (rule coalescer_step_ok)

lemma reachable_ok: "coalescer_ok op (foldl (step op) new_coalescer es)"
  by (rule coalescer.run_inv [OF new_ok])


lemma distinct_held:
  assumes "distinct (List.map_filter (key \<circ> request) ps)" and "p \<in> set ps" "q \<in> set ps" "call p \<noteq> call q"
  shows "\<not> conflicts key p q"
proof -
  obtain xs ys where ps: "ps = xs @ p # ys" using assms(2) by (metis split_list)
  have "distinct (List.map_filter (key \<circ> request) ((xs @ [p]) @ ys))" "distinct (List.map_filter (key \<circ> request) (xs @ [p] @ ys))"
    using assms(1) by (simp_all add: ps)
  from distinct_keys_no_conflict [OF this(1), of p q] distinct_keys_no_conflict [OF this(2), of q p] assms(3,4)
  show ?thesis by (auto simp: ps conflicts_def)
qed


text \<open>
  Fact. Whatever is asked and whatever the service answers, every call has exactly one
  place: it waits, is being sent, or has been settled, once. Nothing waits unless a batch is
  under way, and no batch is larger than the limit or has two requests that conflict.
\<close>
theorem every_call_has_one_place:
  "let s = foldl (step op) new_coalescer es in
   mset (map fst (settled s)) + mset (map call (held s)) + mset (map call (queue s)) = mset [0..<length (asked s)] \<and>
   \<not> (draining s = Resting \<and> queue s \<noteq> []) \<and>
   length (held s) \<le> batch_limit op \<and> distinct (List.map_filter (conflictKey op \<circ> request) (held s))"
  using reachable_ok [of op es] by (auto simp: coalescer_ok_def places_def drain_ok_def Let_def held_of)

text \<open>
  Property C32. Requests that conflict are served in the order they were asked for: once a request
  is being sent or settled, every earlier one with its key has been settled.
\<close>
theorem conflicting_requests_in_order:
  assumes "i < j" "conflictKey op (asked s ! i) = Some k" "conflictKey op (asked s ! j) = Some k"
    and "j \<in> fst ` set (settled s) \<union> call ` set (held s)" "s = foldl (step op) new_coalescer es"
  shows "i \<in> fst ` set (settled s)"
proof -
  have ok: "coalescer_ok op s" unfolding assms(5) by (rule reachable_ok)
  then have places: "places s = mset [0..<length (asked s)]" by (simp add: coalescer_ok_def)
  have "j < length (asked s)" using assms(4) places_bound [OF places] by auto
  then have "i \<in> set_mset (places s)" using assms(1) unfolding places by simp
  then consider "i \<in> fst ` set (settled s)" | p where "p \<in> set (held s)" "call p = i" | p where "p \<in> set (queue s)" "call p = i"
    by (auto simp: places_def)
  then show ?thesis
  proof cases
    case 2
    show ?thesis
    proof (rule ccontr)
      from assms(4) consider r where "(j, r) \<in> set (settled s)" | q where "q \<in> set (held s)" "call q = j" by auto
      then show False
      proof cases
        case 1
        with ok 2 assms(1-3) show False by (force simp: coalescer_ok_def order_ok_def conflicts_def)
      next
        case (2 q)
        have "\<not> conflicts (conflictKey op) p q"
        proof (rule distinct_held)
          show "distinct (List.map_filter (conflictKey op \<circ> request) (held s))" using ok by (simp add: coalescer_ok_def drain_ok_def)
        qed (use 2 \<open>p \<in> set (held s)\<close> \<open>call p = i\<close> assms(1) in auto)
        moreover have "request p = asked s ! i" "request q = asked s ! j"
          using ok 2 \<open>p \<in> set (held s)\<close> \<open>call p = i\<close> by (auto simp: coalescer_ok_def)
        ultimately show False using assms(2,3) by (simp add: conflicts_def)
      qed
    qed
  next
    case 3
    show ?thesis
    proof (rule ccontr)
      have p: "request p = asked s ! i" using ok 3 by (simp add: coalescer_ok_def)
      from assms(4) consider r where "(j, r) \<in> set (settled s)" | q where "q \<in> set (held s)" "call q = j" by auto
      then show False
      proof cases
        case 1
        with ok 3 p assms(1-3) show False by (force simp: coalescer_ok_def order_ok_def conflicts_def)
      next
        case (2 q)
        then have "request q = asked s ! j" using ok by (simp add: coalescer_ok_def)
        with ok 2 3 p assms(1-3) show False by (force simp: coalescer_ok_def order_ok_def conflicts_def)
      qed
    qed
  qed
qed


definition demo_options :: "(nat, nat, string) options" where
  "demo_options = \<lparr>maxBatchSize = 2, conflictKey = \<lambda>r. Some (r mod 10), shouldSplitOnError = \<lambda>e. True\<rparr>"

lemma demo_fields: "batch_limit demo_options = Suc (Suc 0)" "conflictKey demo_options r = Some (r mod 10)"
  "shouldSplitOnError demo_options x"
  by (simp_all add: demo_options_def batch_limit_def)

lemmas coalescer_eval = demo_fields new_coalescer_def step_def coalesce_def drain_loop_def Let_def
  runBatch_def batch_failed_def settle_def single_outcome_def held_def set_add_def

theorem conflicting_requests_in_order_witness:
  "0 \<in> fst ` set (settled (foldl (step demo_options) new_coalescer [Call 1, Call 11, Ran (Inr [Some True]), Continue]))"
  by (rule conflicting_requests_in_order [OF _ _ _ _ refl, of 0 1 demo_options _ 1]) (simp_all add: coalescer_eval)

subsection \<open>The service as its callers see it\<close>

text \<open>
  The contract is a service that answers each request by itself: calls wait, and each is at some
  time answered by \<open>f\<close> of its own request. There are no batches, no keys and no order.
\<close>

record ('r, 'b, 'e) service =
  waiting :: "(nat \<times> 'r) multiset"
  answered :: "(nat \<times> ('e failure + 'b option)) multiset"

definition answer_of :: "('r \<Rightarrow> 'e + 'b) \<Rightarrow> 'r \<Rightarrow> 'e failure + 'b option" where
  "answer_of f r = (case f r of Inl e \<Rightarrow> Inl (RunFailed e) | Inr b \<Rightarrow> Inr (Some b))"

inductive service_step :: "('r \<Rightarrow> 'e + 'b) \<Rightarrow> ('r, 'b, 'e) service \<Rightarrow> ('r, 'b, 'e) service \<Rightarrow> bool" for f where
  ask: "n = size W + size D \<Longrightarrow>
    service_step f \<lparr>waiting = W, answered = D\<rparr> \<lparr>waiting = W + {#(n, r)#}, answered = D\<rparr>"
| answer: "service_step f \<lparr>waiting = W + {#(n, r)#}, answered = D\<rparr> \<lparr>waiting = W, answered = D + {#(n, answer_of f r)#}\<rparr>"

inductive_simps service_step_simps: "service_step f \<lparr>waiting = W, answered = D\<rparr> t"

definition abs_service :: "('r, 'b, 'e) coalescer \<Rightarrow> ('r, 'b, 'e) service" where
  "abs_service s = \<lparr>waiting = mset (map (\<lambda>p. (call p, request p)) (held s @ queue s)), answered = mset (settled s)\<rparr>"

text \<open>
  What the caller's \<^verbatim>\<open>run\<close> must keep for the coalescer to be invisible: a batch either gets every
  request's own answer or fails with an error that splits it; a request alone gets its own.
\<close>

fun faithful_answer :: "('r, 'k, 'e) options \<Rightarrow> ('r \<Rightarrow> 'e + 'b) \<Rightarrow> ('r, 'b, 'e) coalescer \<Rightarrow> ('r, 'b, 'e) event \<Rightarrow> bool" where
  "faithful_answer op f s (Ran answer) =
     (case draining s of
        Batch b \<Rightarrow>
          (case answer of
             Inr results \<Rightarrow> list_all2 (\<lambda>p r. r \<noteq> None \<and> Inr r = answer_of f (request p)) b results
           | Inl e \<Rightarrow> if 1 < length b then shouldSplitOnError op (RunFailed e) else f (request (hd b)) = Inl e)
      | Each b \<Rightarrow> single_outcome answer = answer_of f (request (hd b))
      | _ \<Rightarrow> True)"
| "faithful_answer op f s e = True"

fun faithful_run :: "('r, 'k, 'e) options \<Rightarrow> ('r \<Rightarrow> 'e + 'b) \<Rightarrow> ('r, 'b, 'e) coalescer \<Rightarrow> ('r, 'b, 'e) event list \<Rightarrow> bool" where
  "faithful_run op f s [] = True"
| "faithful_run op f s (e # es) = (faithful_answer op f s e \<and> faithful_run op f (step op s e) es)"

lemma answers_reach:
  "(service_step f)\<^sup>*\<^sup>*
     \<lparr>waiting = mset (map (\<lambda>p. (call p, request p)) ps) + W, answered = D\<rparr>
     \<lparr>waiting = W, answered = D + mset (map (\<lambda>p. (call p, answer_of f (request p))) ps)\<rparr>"
proof (induction ps arbitrary: D)
  case Nil
  show ?case by simp
next
  case (Cons p ps)
  let ?W = "mset (map (\<lambda>p. (call p, request p)) ps) + W"
  have "service_step f \<lparr>waiting = ?W + {#(call p, request p)#}, answered = D\<rparr>
      \<lparr>waiting = ?W, answered = D + {#(call p, answer_of f (request p))#}\<rparr>" by (rule service_step.answer)
  from converse_rtranclp_into_rtranclp [OF this Cons.IH] show ?case by (simp add: ac_simps)
qed

lemma abs_drain_loop:
  assumes "held s = []"
  shows "abs_service (drain_loop op s) = abs_service s"
proof -
  obtain b d r where t: "takeBatch (conflictKey op) (batch_limit op) [] (queue s) = (b, d, r)" by (metis prod_cases3)
  from takeBatch_mset [OF t] have m: "mset b + mset (d @ r) = mset (queue s)" by blast
  let ?c = "\<lambda>p. (call p, request p)"
  have c: "mset (map ?c (b @ d @ r)) = mset (map ?c (queue s))"
    unfolding mset_map m [symmetric] by simp
  consider "queue s = []" | "queue s \<noteq> []" "b = []" | "queue s \<noteq> []" "b \<noteq> []" by blast
  then show ?thesis
  proof cases
    case 1
    with assms show ?thesis by (simp add: abs_service_def drain_loop_def held_of)
  next
    case 2
    have "abs_service (drain_loop op s) = \<lparr>waiting = mset (map ?c (b @ d @ r)), answered = mset (settled s)\<rparr>"
      using t 2 by (simp add: abs_service_def drain_loop_def held_of)
    also have "\<dots> = abs_service s" unfolding c using assms by (simp add: abs_service_def)
    finally show ?thesis .
  next
    case 3
    have "abs_service (drain_loop op s) = \<lparr>waiting = mset (map ?c (b @ d @ r)), answered = mset (settled s)\<rparr>"
      using t 3 by (simp add: abs_service_def drain_loop_def held_of)
    also have "\<dots> = abs_service s" unfolding c using assms by (simp add: abs_service_def)
    finally show ?thesis .
  qed
qed


lemma abs_settled:
  assumes "held s = dn @ left" and "held_of d = left"
    and "new = rev (map (\<lambda>p. (call p, answer_of f (request p))) dn)"
  shows "(service_step f)\<^sup>*\<^sup>* (abs_service s) (abs_service (s\<lparr>settled := new @ settled s, draining := d, runs := rs\<rparr>))"
proof -
  let ?c = "\<lambda>p. (call p, request p)"
  have "abs_service s = \<lparr>waiting = mset (map ?c dn) + mset (map ?c (left @ queue s)), answered = mset (settled s)\<rparr>"
    using assms(1) by (simp add: abs_service_def)
  moreover have "abs_service (s\<lparr>settled := new @ settled s, draining := d, runs := rs\<rparr>) =
      \<lparr>waiting = mset (map ?c (left @ queue s)), answered = mset (settled s) + mset (map (\<lambda>p. (call p, answer_of f (request p))) dn)\<rparr>"
    using assms(2,3) by (simp add: abs_service_def held_of)
  ultimately show ?thesis using answers_reach [of f dn] by simp
qed

lemma step_refines:
  assumes ok: "coalescer_ok op s" and faithful: "faithful_answer op f s e"
  shows "(service_step f)\<^sup>*\<^sup>* (abs_service s) (abs_service (step op s e))"
proof (cases e)
  case (Call r)
  let ?s = "s\<lparr>queue := queue s @ [\<lparr>call = length (asked s), request = r\<rparr>], asked := asked s @ [r]\<rparr>"
  have "places s = mset [0..<length (asked s)]" using ok by (simp add: coalescer_ok_def)
  then have "size (places s) = length (asked s)" by simp
  then have n: "length (asked s) = size (waiting (abs_service s)) + size (answered (abs_service s))"
    by (simp add: places_def abs_service_def)
  have "service_step f (abs_service s) (abs_service ?s)"
    using service_step.ask [OF n, of f r] by (simp add: abs_service_def held_of)
  moreover have "abs_service (step op s e) = abs_service ?s"
  proof (cases "draining s = Resting")
    case True
    then have "held ?s = []" by (simp add: held_of)
    from abs_drain_loop [OF this, of op] True Call show ?thesis by (simp add: step_def coalesce_def)
  next
    case False
    with Call show ?thesis by (simp add: step_def coalesce_def)
  qed
  ultimately show ?thesis by simp
next
  case (Ran answer)
  show ?thesis
  proof (cases "draining s")
    case (Batch b)
    have held: "held s = b" by (simp add: held_of Batch)
    have ne: "b \<noteq> []" using ok Batch by (simp add: coalescer_ok_def drain_ok_def)
    show ?thesis
    proof (cases answer)
      case (Inl x)
      show ?thesis
      proof (cases "1 < length b")
        case True
        with faithful Ran Batch Inl have split: "shouldSplitOnError op (RunFailed x)" by simp
        obtain p ps where b: "b = p # ps" using ne by (cases b) auto
        have "step op s e = s\<lparr>settled := [] @ settled s, draining := Each b, runs := [request p] # runs s\<rparr>"
          using Ran Batch Inl True split b by (simp add: step_def runBatch_def batch_failed_def)
        then show ?thesis using abs_settled [of s "[]" b "Each b" "[]"] held by simp
      next
        case False
        with ne obtain p where b: "b = [p]" by (cases b) (auto simp: Suc_le_eq)
        with faithful Ran Batch Inl have "answer_of f (request p) = Inl (RunFailed x)" by (simp add: answer_of_def)
        moreover have "step op s e = s\<lparr>settled := [(call p, Inl (RunFailed x))] @ settled s, draining := Next_Batch, runs := runs s\<rparr>"
          using Ran Batch Inl b by (simp add: step_def runBatch_def batch_failed_def settle_def)
        ultimately show ?thesis using abs_settled [of s "[p]" "[]" Next_Batch "[(call p, Inl (RunFailed x))]" f "runs s"] held b by simp
      qed
    next
      case (Inr results)
      with faithful Ran Batch have all: "list_all2 (\<lambda>p r. r \<noteq> None \<and> Inr r = answer_of f (request p)) b results" by simp
      then have "map (\<lambda>(p, r). (call p, Inr r)) (zip b results) = map (\<lambda>p. (call p, answer_of f (request p))) b"
        by (induction rule: list_all2_induct) simp_all
      moreover have "step op s e = s\<lparr>settled := rev (map (\<lambda>(p, r). (call p, Inr r)) (zip b results)) @ settled s,
          draining := Next_Batch, runs := runs s\<rparr>"
        using Ran Batch Inr list_all2_lengthD [OF all] by (simp add: step_def runBatch_def settle_results)
      ultimately show ?thesis using abs_settled [of s b "[]" Next_Batch _ f "runs s"] held by simp
    qed
  next
    case (Each b)
    have "b \<noteq> []" using ok Each by (simp add: coalescer_ok_def drain_ok_def)
    then obtain p ps where b: "b = p # ps" by (cases b) auto
    let ?d = "case ps of [] \<Rightarrow> Next_Batch | _ \<Rightarrow> Each ps"
    let ?rs = "case ps of [] \<Rightarrow> runs s | q # qs \<Rightarrow> [request q] # runs s"
    have r: "single_outcome answer = answer_of f (request p)" using faithful Ran Each b by simp
    have "step op s e = s\<lparr>settled := [(call p, answer_of f (request p))] @ settled s, draining := ?d, runs := ?rs\<rparr>"
      using Ran Each b r by (cases ps) (simp_all add: step_def settle_def)
    then show ?thesis using abs_settled [of s "[p]" ps ?d "[(call p, answer_of f (request p))]" f ?rs] Each b
      by (cases ps) (simp_all add: held_of)
  qed (use Ran in \<open>simp_all add: step_def\<close>)
next
  case Continue
  show ?thesis
  proof (cases "draining s = Next_Batch")
    case True
    then have "held s = []" by (simp add: held_of)
    from abs_drain_loop [OF this, of op] True Continue show ?thesis by (simp add: step_def)
  next
    case False
    with Continue have "step op s e = s" by (simp add: step_def split: drain.split)
    then show ?thesis by simp
  qed
qed

text \<open>
  Property C8. The coalescer implements the service: as long as \<^verbatim>\<open>run\<close> answers batches request by
  request, every run of the coalescer, with its batches, deferrals and second tries, is a run of
  the service that answers each call by itself. So no caller sees another's result or a failure
  that is not its own.
\<close>
theorem coalescer_refines_service:
  assumes "faithful_run op f new_coalescer es"
  shows "(service_step f)\<^sup>*\<^sup>* \<lparr>waiting = {#}, answered = {#}\<rparr> (abs_service (foldl (step op) new_coalescer es))"
proof -
  have "(service_step f)\<^sup>*\<^sup>* (abs_service s) (abs_service (foldl (step op) s es))"
    if "coalescer_ok op s" "faithful_run op f s es" for s
    using that
  proof (induction es arbitrary: s)
    case Nil
    show ?case by simp
  next
    case (Cons e es)
    from Cons.prems have "faithful_answer op f s e" "faithful_run op f (step op s e) es" by simp_all
    from rtranclp_trans [OF step_refines [OF Cons.prems(1) this(1)] Cons.IH [OF coalescer_step_ok [OF Cons.prems(1)] this(2)]]
    show ?case by simp
  qed
  from this [OF new_ok assms] show ?thesis by (simp add: abs_service_def new_coalescer_def held_of)
qed

theorem coalescer_refines_service_witness:
  "(service_step (\<lambda>r::nat. if r < 5 then Inr True else Inl ''bad''))\<^sup>*\<^sup>* \<lparr>waiting = {#}, answered = {#}\<rparr>
     \<lparr>waiting = {#}, answered = mset [(2, Inl (RunFailed ''bad'')), (1, Inr (Some True)), (0, Inr (Some True))]\<rparr>"
proof -
  let ?f = "\<lambda>r::nat. if r < 5 then Inr True else Inl ''bad''"
  let ?es = "[Call 1, Call 2, Call 13, Ran (Inr [Some True]), Continue, Ran (Inl ''bad''), Ran (Inr [Some True]), Ran (Inl ''bad'')]"
  have "faithful_run demo_options ?f new_coalescer ?es" by (auto simp: coalescer_eval answer_of_def)
  from coalescer_refines_service [OF this]
  show ?thesis by (simp add: coalescer_eval abs_service_def numeral_2_eq_2)
qed

subsection \<open>Every call is answered\<close>

definition left_to_do :: "('r, 'b, 'e) coalescer \<Rightarrow> nat" where
  "left_to_do s = 2 * length (queue s) +
     (case draining s of Resting \<Rightarrow> 0 | Next_Batch \<Rightarrow> 1 | Batch b \<Rightarrow> length b + 1 | Each b \<Rightarrow> length b)"

lemma drain_loop_left:
  assumes "held s = []"
  shows "left_to_do (drain_loop op s) \<le> 2 * length (queue s)"
proof (cases "queue s")
  case Nil
  then show ?thesis by (simp add: drain_loop_def left_to_do_def)
next
  case (Cons p q)
  obtain b d r where t: "takeBatch (conflictKey op) (batch_limit op) [] (queue s) = (b, d, r)" by (metis prod_cases3)
  have "batch_limit op = Suc (batch_limit op - 1)" by (simp add: batch_limit_def)
  then have "1 \<le> length b" using t Cons takeBatch_nonempty [of "conflictKey op" _ p q b d r] by (metis Suc_leI length_greater_0_conv One_nat_def)
  moreover have "length b + length (d @ r) = length (queue s)"
    using takeBatch_mset [OF t] by (metis size_mset size_union)
  ultimately show ?thesis using Cons t by (auto simp: drain_loop_def left_to_do_def)
qed

lemma continue_left:
  "left_to_do (step op t Continue) \<le> left_to_do t \<and>
   (draining t = Next_Batch \<longrightarrow> left_to_do (step op t Continue) \<le> 2 * length (queue t))"
  using drain_loop_left [of t op] by (auto simp: step_def held_of left_to_do_def split: drain.split)

lemma answer_and_go_on:
  assumes ok: "coalescer_ok op s" and busy: "draining s \<noteq> Resting"
  shows "left_to_do (step op (step op s (Ran answer)) Continue) < left_to_do s"
proof -
  note go = continue_left [of op]
  let ?t = "step op s (Ran answer)"
  show ?thesis
  proof (cases "draining s")
    case (Batch b)
    have "left_to_do ?t \<le> 2 * length (queue s) + length b \<and> (draining ?t = Next_Batch \<longrightarrow> queue ?t = queue s) \<or> False"
      using ok Batch by (cases b) (auto simp: step_def runBatch_def batch_failed_def settle_all settle_results left_to_do_def
          coalescer_ok_def drain_ok_def split: sum.split)
    then have "left_to_do ?t \<le> 2 * length (queue s) + length b" by blast
    with go [of ?t] Batch show ?thesis by (simp add: left_to_do_def)
  next
    case (Each b)
    then obtain p ps where b: "b = p # ps" using ok by (cases b) (auto simp: coalescer_ok_def drain_ok_def)
    have "draining ?t = Next_Batch \<and> queue ?t = queue s \<or> left_to_do ?t < left_to_do s"
      using Each b by (cases ps) (simp_all add: step_def settle_def left_to_do_def)
    with go [of ?t] Each b show ?thesis by (auto simp: left_to_do_def)
  next
    case Next_Batch
    then have "?t = s" by (simp add: step_def)
    with go [of s] Next_Batch show ?thesis by (simp add: left_to_do_def)
  qed (use busy in simp)
qed


lemma asked_settle: "asked (settle p r s) = asked s" "asked (foldl (\<lambda>s p. settle p (Inl e) s) s ps) = asked s"
    "asked (foldl (\<lambda>s (p, r). settle p (Inr r) s) s prs) = asked s"
  unfolding settle_all settle_results by (simp_all add: settle_def)

lemma asked_individually: "asked (runIndividually ps s) = asked s"
  by (cases ps) simp_all

lemma asked_answers: "asked (step op s (Ran answer)) = asked s" "asked (step op s Continue) = asked s"
  by (auto simp: step_def runBatch_def batch_failed_def drain_loop_def Let_def asked_settle asked_individually
      split: drain.split sum.split list.split prod.split)

definition answers_only :: "('e + 'b option list) list \<Rightarrow> ('r, 'b, 'e) event list" where
  "answers_only answers = concat (map (\<lambda>a. [Ran a, Continue]) answers)"

lemma answered_to_rest:
  "coalescer_ok op s \<Longrightarrow> left_to_do s \<le> length answers \<Longrightarrow>
   draining (foldl (step op) s (answers_only answers)) = Resting \<and> asked (foldl (step op) s (answers_only answers)) = asked s"
proof (induction answers arbitrary: s)
  case Nil
  then show ?case by (auto simp: left_to_do_def answers_only_def coalescer_ok_def drain_ok_def split: drain.splits)
next
  case (Cons a answers)
  let ?s = "step op (step op s (Ran a)) Continue"
  have "left_to_do ?s \<le> length answers"
  proof (cases "draining s = Resting")
    case True
    then have "?s = s" by (simp add: step_def)
    moreover have "left_to_do s = 0" using Cons.prems(1) True by (simp add: left_to_do_def coalescer_ok_def drain_ok_def)
    ultimately show ?thesis by simp
  next
    case False
    from answer_and_go_on [OF Cons.prems(1) False, of a] Cons.prems(2) show ?thesis by simp
  qed
  from Cons.IH [OF coalescer_step_ok [OF coalescer_step_ok [OF Cons.prems(1)]] this] show ?case
    by (simp add: answers_only_def asked_answers)
qed

lemma left_bound:
  assumes "coalescer_ok op s"
  shows "left_to_do s \<le> 2 * length (asked s) + 1"
proof -
  from assms have "size (places s) = length (asked s)" by (simp add: coalescer_ok_def)
  then have "length (held s) + length (queue s) \<le> length (asked s)" by (simp add: places_def)
  then show ?thesis by (cases "draining s") (simp_all add: left_to_do_def held_of)
qed

text \<open>
  Property C35. No call is left hanging: from any reachable state, when no more is asked and the service
  answers each request, in whatever way, good, short or failed, everything asked has been settled,
  each call once, and the coalescer rests, once as many answers have come as twice the calls and
  one more.
\<close>
theorem every_call_is_answered:
  assumes "2 * length (asked (foldl (step op) new_coalescer es)) + 1 \<le> length answers"
  shows "let s = foldl (step op) new_coalescer es; s' = foldl (step op) s (answers_only answers) in
    draining s' = Resting \<and> queue s' = [] \<and> asked s' = asked s \<and>
    mset (map fst (settled s')) = mset [0..<length (asked s)]"
proof -
  let ?s = "foldl (step op) new_coalescer es"
  let ?s' = "foldl (step op) ?s (answers_only answers)"
  have ok: "coalescer_ok op ?s" by (rule reachable_ok)
  have ok': "coalescer_ok op ?s'" by (rule coalescer.run_inv [OF ok])
  from answered_to_rest [OF ok order_trans [OF left_bound [OF ok] assms]]
  have rest: "draining ?s' = Resting" "asked ?s' = asked ?s" by blast+
  then have "held ?s' = []" "queue ?s' = []" using ok' by (simp_all add: held_of coalescer_ok_def drain_ok_def)
  moreover have "places ?s' = mset [0..<length (asked ?s)]" using ok' rest(2) by (simp add: coalescer_ok_def)
  ultimately show ?thesis using rest by (simp add: Let_def places_def)
qed

theorem every_call_is_answered_witness:
  "mset (map fst (settled (foldl (step demo_options) new_coalescer
      (Call 1 # answers_only [Inl ''down'', Inr [], Inr [Some True]])))) = mset [0]"
  using every_call_is_answered [of demo_options "[Call 1]" "[Inl ''down'', Inr [], Inr [Some True]]"]
  by (simp add: coalescer_eval)

end
