(* ===== verification/Store_Lock.thy ===== *)
theory Store_Lock
  imports Js_Prelude
begin

text \<open>
  The lock file of an agent store: \<^verbatim>\<open>lib/agent-store-sync/store-lock.ts\<close>, with the exclusive write of
  \<^verbatim>\<open>lib/agent-store-sync/secure-open.ts\<close>.

  Several windows and processes work on one path. Every wait for the file system is a point where
  the others may run, so a call is a thread that makes one file operation at each of its steps.
  Creating the lock file is two operations: the file is opened, empty, and written afterwards,
  into the file that was opened even when the path has another one by then. The files are
  therefore kept apart from the path that names one of them.

  Whether a process lives, the time, and failures other than the expected ones come with the step.
\<close>

subsection \<open>Owners and their text\<close>

record owner =
  ow_uid :: "int option"
  ow_sid :: "string option"
  ow_pid :: int
  ow_hostname :: string
  ow_windowId :: string
  ow_acquiredAt :: int

definition isSameOwner :: "owner \<Rightarrow> owner \<Rightarrow> bool" where
  "isSameOwner l r \<longleftrightarrow> ow_pid l = ow_pid r \<and> ow_hostname l = ow_hostname r \<and>
     ow_windowId l = ow_windowId r \<and> ow_acquiredAt l = ow_acquiredAt r"

text \<open>\<^verbatim>\<open>JSON.stringify\<close> leaves out what is undefined.\<close>

definition owner_json :: "owner \<Rightarrow> json" where
  "owner_json ow = JObj (
     (case ow_uid ow of None \<Rightarrow> [] | Some u \<Rightarrow> [(''uid'', JNum u)]) @
     (case ow_sid ow of None \<Rightarrow> [] | Some s \<Rightarrow> [(''sid'', JStr s)]) @
     [(''pid'', JNum (ow_pid ow)), (''hostname'', JStr (ow_hostname ow)),
      (''windowId'', JStr (ow_windowId ow)), (''acquiredAt'', JNum (ow_acquiredAt ow))])"

fun optional_number :: "json option \<Rightarrow> int option option" where
  "optional_number None = Some None"
| "optional_number (Some (JNum n)) = Some (Some n)"
| "optional_number _ = None"

fun optional_string :: "json option \<Rightarrow> string option option" where
  "optional_string None = Some None"
| "optional_string (Some (JStr s)) = Some (Some s)"
| "optional_string _ = None"

definition storeLockOwnerFromJson :: "json \<Rightarrow> owner option" where
  "storeLockOwnerFromJson v =
     (case v of
        JObj _ \<Rightarrow>
          (case (jget v ''pid'', jget v ''hostname'', jget v ''windowId'', jget v ''acquiredAt'',
                 optional_number (jget v ''uid''), optional_string (jget v ''sid'')) of
             (Some (JNum pid), Some (JStr hostname), Some (JStr windowId), Some (JNum acquiredAt), Some uid, Some sid) \<Rightarrow>
               Some \<lparr>ow_uid = uid, ow_sid = sid, ow_pid = pid, ow_hostname = hostname,
                     ow_windowId = windowId, ow_acquiredAt = acquiredAt\<rparr>
           | _ \<Rightarrow> None)
      | _ \<Rightarrow> None)"

subsection \<open>Files\<close>

datatype text_of_file = Unreadable | Not_Json | Parsed json

record lock_file =
  contents :: text_of_file
  mtime :: int

record filesystem =
  path :: "nat option"
  files :: "lock_file list"

definition linked :: "filesystem \<Rightarrow> lock_file option" where
  "linked fs = (case path fs of None \<Rightarrow> None | Some n \<Rightarrow> if n < length (files fs) then Some (files fs ! n) else None)"

datatype read_result = Read_Absent | Read_Invalid | Read_Owner owner

text \<open>\<^verbatim>\<open>readLockfileContents\<close>; what is invalid is \<^verbatim>\<open>undefined\<close> or an error, as the caller asks.\<close>

definition readLockfileContents :: "filesystem \<Rightarrow> read_result" where
  "readLockfileContents fs =
     (case linked fs of
        None \<Rightarrow> Read_Absent
      | Some f \<Rightarrow>
          (case contents f of
             Parsed j \<Rightarrow> (case storeLockOwnerFromJson j of None \<Rightarrow> Read_Invalid | Some ow \<Rightarrow> Read_Owner ow)
           | _ \<Rightarrow> Read_Invalid))"

text \<open>\<^verbatim>\<open>throwOnInvalid: false\<close>.\<close>

definition read_owner :: "filesystem \<Rightarrow> owner option" where
  "read_owner fs = (case readLockfileContents fs of Read_Owner ow \<Rightarrow> Some ow | _ \<Rightarrow> None)"

definition readMtime :: "filesystem \<Rightarrow> int" where
  "readMtime fs = (case linked fs of None \<Rightarrow> 0 | Some f \<Rightarrow> mtime f)"

text \<open>\<^verbatim>\<open>O_CREAT\<close> with \<^verbatim>\<open>O_EXCL\<close>: the new file, or nothing where the path is taken.\<close>

definition open_exclusive :: "int \<Rightarrow> filesystem \<Rightarrow> (nat \<times> filesystem) option" where
  "open_exclusive now fs =
     (case path fs of
        Some _ \<Rightarrow> None
      | None \<Rightarrow> Some (length (files fs),
          fs\<lparr>path := Some (length (files fs)), files := files fs @ [\<lparr>contents = Not_Json, mtime = now\<rparr>]\<rparr>))"

definition write_file :: "nat \<Rightarrow> json \<Rightarrow> int \<Rightarrow> filesystem \<Rightarrow> filesystem" where
  "write_file n j now fs = fs\<lparr>files := (files fs)[n := \<lparr>contents = Parsed j, mtime = now\<rparr>]\<rparr>"

definition unlink :: "filesystem \<Rightarrow> filesystem" where
  "unlink fs = fs\<lparr>path := None\<rparr>"

definition utimes :: "int \<Rightarrow> filesystem \<Rightarrow> filesystem" where
  "utimes now fs = (case path fs of None \<Rightarrow> fs | Some n \<Rightarrow> fs\<lparr>files := (files fs)[n := (files fs ! n)\<lparr>mtime := now\<rparr>]\<rparr>)"

subsection \<open>Calls\<close>

record options =
  op_uid :: "int option"
  op_sid :: "string option"
  op_pid :: int
  op_hostname :: string
  op_windowId :: string
  op_staleLockMs :: int
  op_mtimeUpdateMs :: int

definition createOwner :: "options \<Rightarrow> int \<Rightarrow> owner" where
  "createOwner op now = \<lparr>ow_uid = op_uid op, ow_sid = op_sid op, ow_pid = op_pid op,
     ow_hostname = op_hostname op, ow_windowId = op_windowId op, ow_acquiredAt = now\<rparr>"

definition sameOsUser :: "owner \<Rightarrow> options \<Rightarrow> bool" where
  "sameOsUser ow op \<longleftrightarrow> ow_uid ow = op_uid op \<and> ow_sid ow = op_sid op"

text \<open>Where a thread waits; the flag tells the second attempt, and a number is a clock read before the wait.\<close>

datatype place =
    Resting
  | Opening owner bool
  | Filling owner nat
  | Reading bool
  | Aging owner int
  | Waiting owner
  | Aging_Again owner int
  | Stealing
  | Acquired owner
  | Held "owner option"
  | Failed
  | Verifying nat
  | Verified bool
  | Refreshing nat
  | Touching nat int
  | Disposing nat
  | Removing
  | Finished
  | Looking
  | Looking_Age owner int
  | Looking_Again owner
  | Active "owner option"

text \<open>The object a successful call returns; a handle is known by the number of its thread.\<close>

record handle =
  owned :: owner
  disposed :: bool
  unhealthy :: bool
  timer :: bool

record world =
  disk :: filesystem
  threads :: "nat \<Rightarrow> place"
  handles :: "nat \<Rightarrow> handle option"
  opts :: "nat \<Rightarrow> options"

definition goto :: "nat \<Rightarrow> place \<Rightarrow> world \<Rightarrow> world" where
  "goto t p w = w\<lparr>threads := (threads w)(t := p)\<rparr>"

definition stealLock :: "nat \<Rightarrow> world \<Rightarrow> world" where
  "stealLock t w = goto t Stealing w"

definition clearTimer :: "nat \<Rightarrow> world \<Rightarrow> world" where
  "clearTimer h w = w\<lparr>handles := (handles w)(h := map_option (\<lambda>x. x\<lparr>timer := False\<rparr>) (handles w h))\<rparr>"

definition markUnhealthy :: "nat \<Rightarrow> world \<Rightarrow> world" where
  "markUnhealthy h w =
     clearTimer h (w\<lparr>handles := (handles w)(h := map_option (\<lambda>x. x\<lparr>unhealthy := True\<rparr>) (handles w h))\<rparr>)"

subsection \<open>Steps\<close>

text \<open>What the world answers at a step.\<close>

record answer =
  clock :: int
  alive :: "int \<Rightarrow> bool"
  canonical :: bool
  fault :: bool

text \<open>\<^verbatim>\<open>tryAcquire\<close>, \<^verbatim>\<open>stealLock\<close> and \<^verbatim>\<open>writeLockFileExclusive\<close>, one file operation each.\<close>

definition open_step :: "nat \<Rightarrow> owner \<Rightarrow> bool \<Rightarrow> answer \<Rightarrow> world \<Rightarrow> world" where
  "open_step t ow second ans w =
     (if fault ans then goto t Failed w
      else case open_exclusive (clock ans) (disk w) of
             None \<Rightarrow> goto t (Reading second) w
           | Some (n, fs) \<Rightarrow>
               if \<not> canonical ans then goto t Failed (w\<lparr>disk := fs\<rparr>) else goto t (Filling ow n) (w\<lparr>disk := fs\<rparr>))"

definition fill_step :: "nat \<Rightarrow> owner \<Rightarrow> nat \<Rightarrow> answer \<Rightarrow> world \<Rightarrow> world" where
  "fill_step t ow n ans w =
     (if fault ans then goto t Failed w
      else goto t (Acquired ow)
        (w\<lparr>disk := write_file n (owner_json ow) (clock ans) (disk w),
           handles := (handles w)(t \<mapsto> \<lparr>owned = ow, disposed = False, unhealthy = False,
             timer = 0 < op_mtimeUpdateMs (opts w t)\<rparr>)\<rparr>))"

definition read_step :: "nat \<Rightarrow> bool \<Rightarrow> answer \<Rightarrow> world \<Rightarrow> world" where
  "read_step t second ans w =
     (if fault ans then goto t Failed w
      else case read_owner (disk w) of
             None \<Rightarrow> if second then goto t (Held None) w else stealLock t w
           | Some ow \<Rightarrow>
               if \<not> sameOsUser ow (opts w t) then goto t Failed w
               else if second then goto t (Held (Some ow)) w
               else if \<not> alive ans (ow_pid ow) then stealLock t w
               else goto t (Aging ow (clock ans)) w)"

definition age_step :: "nat \<Rightarrow> owner \<Rightarrow> int \<Rightarrow> bool \<Rightarrow> answer \<Rightarrow> world \<Rightarrow> world" where
  "age_step t ow now again ans w =
     (if fault ans then goto t Failed w
      else if now - readMtime (disk w) \<le> op_staleLockMs (opts w t) then goto t (Held (Some ow)) w
      else if again then stealLock t w else goto t (Waiting ow) w)"

definition steal_step :: "nat \<Rightarrow> answer \<Rightarrow> world \<Rightarrow> world" where
  "steal_step t ans w =
     (if fault ans then goto t Failed w
      else goto t (Opening (createOwner (opts w t) (clock ans)) True) (w\<lparr>disk := unlink (disk w)\<rparr>))"

text \<open>\<^verbatim>\<open>StoreLock\<close>.\<close>

definition same_on_disk :: "owner \<Rightarrow> filesystem \<Rightarrow> bool" where
  "same_on_disk ow fs = (case read_owner fs of None \<Rightarrow> False | Some c \<Rightarrow> isSameOwner c ow)"

definition verify_step :: "nat \<Rightarrow> nat \<Rightarrow> answer \<Rightarrow> world \<Rightarrow> world" where
  "verify_step t h ans w =
     (case handles w h of None \<Rightarrow> w
      | Some x \<Rightarrow> if fault ans then goto t Failed w else goto t (Verified (same_on_disk (owned x) (disk w))) w)"

definition refresh_step :: "nat \<Rightarrow> nat \<Rightarrow> answer \<Rightarrow> world \<Rightarrow> world" where
  "refresh_step t h ans w =
     (case handles w h of None \<Rightarrow> w
      | Some x \<Rightarrow>
          if fault ans \<or> readLockfileContents (disk w) = Read_Invalid then goto t Failed (clearTimer h w)
          else if disposed x \<or> unhealthy x then goto t Finished w
          else if \<not> same_on_disk (owned x) (disk w) then goto t Finished (clearTimer h w)
          else goto t (Touching h (clock ans)) w)"

definition touch_step :: "nat \<Rightarrow> nat \<Rightarrow> int \<Rightarrow> answer \<Rightarrow> world \<Rightarrow> world" where
  "touch_step t h now ans w =
     (if fault ans then goto t Failed (clearTimer h w) else goto t Finished (w\<lparr>disk := utimes now (disk w)\<rparr>))"

definition dispose_step :: "nat \<Rightarrow> nat \<Rightarrow> answer \<Rightarrow> world \<Rightarrow> world" where
  "dispose_step t h ans w =
     (case handles w h of None \<Rightarrow> w
      | Some x \<Rightarrow>
          if fault ans then goto t Failed w
          else if same_on_disk (owned x) (disk w) then goto t Removing w else goto t Finished w)"

definition remove_step :: "nat \<Rightarrow> answer \<Rightarrow> world \<Rightarrow> world" where
  "remove_step t ans w =
     (if fault ans then goto t Failed w else goto t Finished (w\<lparr>disk := unlink (disk w)\<rparr>))"

text \<open>\<^verbatim>\<open>readActiveStoreLockOwner\<close>.\<close>

definition look_step :: "nat \<Rightarrow> answer \<Rightarrow> world \<Rightarrow> world" where
  "look_step t ans w =
     (if fault ans then goto t Failed w
      else case read_owner (disk w) of
             None \<Rightarrow> goto t (Active None) w
           | Some ow \<Rightarrow>
               if \<not> sameOsUser ow (opts w t) then goto t Failed w
               else if \<not> alive ans (ow_pid ow) then goto t (Active None) w
               else goto t (Looking_Age ow (clock ans)) w)"

definition look_age_step :: "nat \<Rightarrow> owner \<Rightarrow> int \<Rightarrow> answer \<Rightarrow> world \<Rightarrow> world" where
  "look_age_step t ow now ans w =
     (if fault ans then goto t Failed w
      else if op_staleLockMs (opts w t) < now - readMtime (disk w) then goto t (Active None) w
      else goto t (Looking_Again ow) w)"

definition look_again_step :: "nat \<Rightarrow> owner \<Rightarrow> answer \<Rightarrow> world \<Rightarrow> world" where
  "look_again_step t ow ans w =
     (if fault ans then goto t Failed w
      else goto t (Active (if same_on_disk ow (disk w) then Some ow else None)) w)"

definition thread_step :: "nat \<Rightarrow> answer \<Rightarrow> world \<Rightarrow> world" where
  "thread_step t ans w =
     (case threads w t of
        Opening ow second \<Rightarrow> open_step t ow second ans w
      | Filling ow n \<Rightarrow> fill_step t ow n ans w
      | Reading second \<Rightarrow> read_step t second ans w
      | Aging ow now \<Rightarrow> age_step t ow now False ans w
      | Waiting ow \<Rightarrow> goto t (Aging_Again ow (clock ans)) w
      | Aging_Again ow now \<Rightarrow> age_step t ow now True ans w
      | Stealing \<Rightarrow> steal_step t ans w
      | Verifying h \<Rightarrow> verify_step t h ans w
      | Refreshing h \<Rightarrow> refresh_step t h ans w
      | Touching h now \<Rightarrow> touch_step t h now ans w
      | Disposing h \<Rightarrow> dispose_step t h ans w
      | Removing \<Rightarrow> remove_step t ans w
      | Looking \<Rightarrow> look_step t ans w
      | Looking_Age ow now \<Rightarrow> look_age_step t ow now ans w
      | Looking_Again ow \<Rightarrow> look_again_step t ow ans w
      | _ \<Rightarrow> w)"

text \<open>The calls: a thread that rests begins one, on behalf of a handle where it is one of a lock.\<close>

definition begin_acquire :: "nat \<Rightarrow> options \<Rightarrow> int \<Rightarrow> bool \<Rightarrow> world \<Rightarrow> world" where
  "begin_acquire t op now ok w =
     (if \<not> ok then goto t Failed w else goto t (Opening (createOwner op now) False) (w\<lparr>opts := (opts w)(t := op)\<rparr>))"

definition begin_look :: "nat \<Rightarrow> options \<Rightarrow> bool \<Rightarrow> world \<Rightarrow> world" where
  "begin_look t op ok w = (if \<not> ok then goto t Failed w else goto t Looking (w\<lparr>opts := (opts w)(t := op)\<rparr>))"

definition verifyStillOwned :: "nat \<Rightarrow> nat \<Rightarrow> world \<Rightarrow> world" where
  "verifyStillOwned t h w =
     (case handles w h of None \<Rightarrow> w
      | Some x \<Rightarrow> if disposed x then goto t (Verified False) w else goto t (Verifying h) w)"

definition refreshMtime :: "nat \<Rightarrow> nat \<Rightarrow> world \<Rightarrow> world" where
  "refreshMtime t h w =
     (case handles w h of None \<Rightarrow> w
      | Some x \<Rightarrow> if \<not> timer x then w else if disposed x \<or> unhealthy x then goto t Finished w else goto t (Refreshing h) w)"

definition dispose :: "nat \<Rightarrow> nat \<Rightarrow> world \<Rightarrow> world" where
  "dispose t h w =
     (case handles w h of None \<Rightarrow> w
      | Some x \<Rightarrow>
          if disposed x then goto t Finished w
          else goto t (Disposing h) (clearTimer h (w\<lparr>handles := (handles w)(h \<mapsto> x\<lparr>disposed := True\<rparr>)\<rparr>)))"

datatype event =
    Acquire nat options int bool
  | Look nat options bool
  | Verify nat nat
  | Tick nat nat
  | Dispose nat nat
  | Mark_Unhealthy nat
  | Step nat answer

fun step :: "world \<Rightarrow> event \<Rightarrow> world" where
  "step w (Acquire t op now ok) = (if threads w t = Resting then begin_acquire t op now ok w else w)"
| "step w (Look t op ok) = (if threads w t = Resting then begin_look t op ok w else w)"
| "step w (Verify t h) = (if threads w t = Resting then verifyStillOwned t h w else w)"
| "step w (Tick t h) = (if threads w t = Resting then refreshMtime t h w else w)"
| "step w (Dispose t h) = (if threads w t = Resting then dispose t h w else w)"
| "step w (Mark_Unhealthy h) = markUnhealthy h w"
| "step w (Step t ans) = thread_step t ans w"

definition new_world :: "filesystem \<Rightarrow> options \<Rightarrow> world" where
  "new_world fs op = \<lparr>disk = fs, threads = \<lambda>t. Resting, handles = \<lambda>h. None, opts = \<lambda>t. op\<rparr>"


subsection \<open>Lemmas on files\<close>

lemma owner_roundtrip: "storeLockOwnerFromJson (owner_json ow) = Some ow"
  by (cases "ow_uid ow"; cases "ow_sid ow") (simp_all add: storeLockOwnerFromJson_def owner_json_def)

lemma isSameOwner_refl [simp]: "isSameOwner ow ow"
  by (simp add: isSameOwner_def)

lemma isSameOwner_sym: "isSameOwner a b = isSameOwner b a"
  by (auto simp: isSameOwner_def)






lemmas thread_defs = thread_step_def open_step_def fill_step_def read_step_def age_step_def steal_step_def verify_step_def
  refresh_step_def touch_step_def dispose_step_def remove_step_def look_step_def look_age_step_def look_again_step_def
  stealLock_def goto_def clearTimer_def

lemmas call_defs = begin_acquire_def begin_look_def verifyStillOwned_def refreshMtime_def dispose_def markUnhealthy_def

subsection \<open>A live lock stays\<close>






lemma threads_simps [simp]:
  "threads (goto t p w) t' = (if t' = t then p else threads w t')" "threads (clearTimer h w) = threads w"
  "threads (markUnhealthy h w) = threads w"
  by (simp_all add: goto_def clearTimer_def markUnhealthy_def)







lemma thread_step_others: "t' \<noteq> t \<Longrightarrow> threads (thread_step t ans w) t' = threads w t'"
  by (cases "threads w t") (simp_all add: thread_defs split: option.split)

lemma call_threads:
  assumes "\<forall>t ans. e \<noteq> Step t ans"
  shows "threads (step w e) t = threads w t \<or> threads w t = Resting \<and> (\<forall>ow. threads (step w e) t \<noteq> Acquired ow)"
  using assms by (cases e) (auto simp: call_defs split: option.split)



definition demo_options :: "int \<Rightarrow> string \<Rightarrow> options" where
  "demo_options pid window = \<lparr>op_uid = Some 501, op_sid = None, op_pid = pid, op_hostname = ''host'', op_windowId = window,
     op_staleLockMs = 600000, op_mtimeUpdateMs = 1000\<rparr>"

definition ok_at :: "int \<Rightarrow> answer" where
  "ok_at now = \<lparr>clock = now, alive = \<lambda>pid. True, canonical = True, fault = False\<rparr>"

definition empty_disk :: filesystem where
  "empty_disk = \<lparr>path = None, files = []\<rparr>"

definition one_holder :: world where
  "one_holder = foldl step (new_world empty_disk (demo_options 1 ''a'')) [Acquire 0 (demo_options 1 ''a'') 10 True, Step 0 (ok_at 11), Step 0 (ok_at 12)]"

lemmas lock_eval = ok_at_def demo_options_def empty_disk_def new_world_def thread_step_def open_step_def fill_step_def
  read_step_def age_step_def steal_step_def stealLock_def goto_def begin_acquire_def createOwner_def open_exclusive_def
  write_file_def unlink_def linked_def readMtime_def read_owner_def readLockfileContents_def owner_roundtrip sameOsUser_def



subsection \<open>Two holders\<close>

text \<open>
  Fact. The lock does not exclude: with no lock file, nothing stale and no failure, two
  calls that start together can both acquire it. The second finds the file the first has opened
  and not yet written, takes it for an invalid one, unlinks it and creates its own; the first
  then writes the file that no path names. Its lock is lost the moment it is returned.
\<close>
theorem fresh_lock_can_have_two_holders:
  "let w = foldl step (new_world empty_disk a)
       [Acquire 0 a n True, Step 0 (ok_at n), Acquire 1 b m True, Step 1 (ok_at m), Step 1 (ok_at m), Step 1 (ok_at m),
        Step 1 (ok_at m), Step 1 (ok_at m), Step 0 (ok_at k)]
   in threads w 0 = Acquired (createOwner a n) \<and> threads w 1 = Acquired (createOwner b m) \<and>
      read_owner (disk w) = Some (createOwner b m)"
  by (simp add: Let_def new_world_def empty_disk_def ok_at_def thread_step_def open_step_def fill_step_def read_step_def
      steal_step_def stealLock_def goto_def begin_acquire_def open_exclusive_def write_file_def unlink_def linked_def
      read_owner_def readLockfileContents_def owner_roundtrip)

subsection \<open>Calls end\<close>

text \<open>How many steps a call that acquires may still take; the lock is got, held by another, or the call failed.\<close>

fun steps_left :: "place \<Rightarrow> nat" where
  "steps_left (Opening ow second) = (if second then 3 else 9)"
| "steps_left (Reading second) = (if second then 1 else 8)"
| "steps_left (Filling ow n) = 1"
| "steps_left (Aging ow now) = 7"
| "steps_left (Waiting ow) = 6"
| "steps_left (Aging_Again ow now) = 5"
| "steps_left Stealing = 4"
| "steps_left _ = 0"

fun acquiring :: "place \<Rightarrow> bool" where
  "acquiring (Acquired ow) = True"
| "acquiring (Held ow) = True"
| "acquiring Failed = True"
| "acquiring p = (0 < steps_left p)"

lemma acquiring_step:
  assumes "acquiring (threads w t)"
  shows "acquiring (threads (thread_step t ans w) t) \<and>
    (steps_left (threads w t) = 0 \<and> threads (thread_step t ans w) t = threads w t \<or>
     steps_left (threads (thread_step t ans w) t) < steps_left (threads w t))"
  using assms
  by (cases "threads w t")
    (simp_all add: thread_step_def open_step_def fill_step_def read_step_def age_step_def steal_step_def stealLock_def
      split: option.split)

lemma acquiring_event:
  assumes "acquiring (threads w t)"
  shows "acquiring (threads (step w e) t) \<and>
    steps_left (threads (step w e) t) \<le> (if \<exists>ans. e = Step t ans then steps_left (threads w t) - 1 else steps_left (threads w t))"
proof (cases "\<exists>t' ans. e = Step t' ans")
  case True
  then obtain t' ans where e: "e = Step t' ans" by blast
  show ?thesis
  proof (cases "t' = t")
    case True
    with acquiring_step [OF assms, of ans] show ?thesis by (auto simp: e)
  next
    case False
    with assms thread_step_others [of t t' ans w] show ?thesis by (simp add: e)
  qed
next
  case False
  have "threads w t \<noteq> Resting" using assms by (cases "threads w t") simp_all
  with False assms call_threads [of e w t] show ?thesis by auto
qed

definition steps_of :: "nat \<Rightarrow> event list \<Rightarrow> nat" where
  "steps_of t es = length (filter (\<lambda>e. case e of Step t' ans \<Rightarrow> t' = t | _ \<Rightarrow> False) es)"

lemma acquiring_run:
  "acquiring (threads w t) \<Longrightarrow> acquiring (threads (foldl step w es) t) \<and>
     steps_left (threads (foldl step w es) t) \<le> steps_left (threads w t) - steps_of t es"
proof (induction es arbitrary: w)
  case Nil
  then show ?case by (simp add: steps_of_def)
next
  case (Cons e es)
  note one = acquiring_event [OF Cons.prems, of e]
  have "steps_of t (e # es) = (if \<exists>ans. e = Step t ans then 1 else 0) + steps_of t es"
    by (cases e) (auto simp: steps_of_def)
  with one Cons.IH [of "step w e"] show ?case by (auto split: if_splits)
qed

text \<open>
  Fact. A call to acquire the lock always ends: after nine of its file operations, whatever
  the others do in between and whatever the file system answers, it has the lock, has been told
  it is held, or has failed. There is no second theft and no waiting for the holder.
\<close>
theorem acquiring_ends:
  assumes "threads w t = Opening ow False" "9 \<le> steps_of t es"
  shows "(\<exists>ow'. threads (foldl step w es) t = Acquired ow') \<or> (\<exists>c. threads (foldl step w es) t = Held c) \<or>
    threads (foldl step w es) t = Failed"
proof -
  have "acquiring (threads w t)" using assms(1) by simp
  from acquiring_run [OF this, of es] assms
  have "acquiring (threads (foldl step w es) t)" "steps_left (threads (foldl step w es) t) = 0" by simp_all
  then show ?thesis by (cases "threads (foldl step w es) t") simp_all
qed

theorem acquiring_ends_witness:
  "let w = foldl step (step one_holder (Acquire 1 (demo_options 2 ''b'') 20 True)) (replicate 9 (Step 1 (ok_at 30)))
   in (\<exists>ow'. threads w 1 = Acquired ow') \<or> (\<exists>c. threads w 1 = Held c) \<or> threads w 1 = Failed"
  unfolding Let_def
  by (rule acquiring_ends [of _ _ "createOwner (demo_options 2 ''b'') 20"])
    (simp_all add: one_holder_def lock_eval steps_of_def eval_nat_numeral)

subsection \<open>Giving up the lock\<close>

text \<open>
  Fact. Disposing of a lock that nobody interrupts removes the file exactly when it still
  names this owner, leaves another's or an unreadable one alone, and turns every later check of
  ownership and every later disposal into a no.
\<close>
theorem dispose_removes_only_its_own:
  fixes w :: world and ow :: owner
  assumes "threads w t = Resting" "handles w h = Some x" "\<not> disposed x" "\<not> fault a" "\<not> fault b"
  defines "w' \<equiv> foldl step w [Dispose t h, Step t a, Step t b]"
  shows "disk w' = (if same_on_disk (owned x) (disk w) then unlink (disk w) else disk w) \<and> threads w' t = Finished \<and>
    threads (verifyStillOwned u h w') u = Verified False \<and> disk (dispose u h w') = disk w'"
  using assms(1-5) unfolding w'_def
  by (simp add: dispose_def thread_step_def dispose_step_def remove_step_def goto_def clearTimer_def verifyStillOwned_def)

theorem dispose_removes_only_its_own_witness:
  "disk (foldl step one_holder [Dispose 5 0, Step 5 (ok_at 20), Step 5 (ok_at 21)]) = unlink (disk one_holder)"
proof -
  have "threads one_holder 5 = Resting"
    "handles one_holder 0 = Some \<lparr>owned = createOwner (demo_options 1 ''a'') 10, disposed = False, unhealthy = False, timer = True\<rparr>"
    "same_on_disk (createOwner (demo_options 1 ''a'') 10) (disk one_holder)"
    by (simp_all add: one_holder_def lock_eval same_on_disk_def)
  with dispose_removes_only_its_own [of one_holder 5 0 _ "ok_at 20" "ok_at 21"] show ?thesis by (simp add: ok_at_def)
qed

end
