(* ===== verification/Local_Tool_Permission.thy ===== *)
theory Local_Tool_Permission
  imports Js_Strings
begin

text \<open>
  Who may use the user's own computer, and when the user is asked:
  \<^verbatim>\<open>host/extensions/local-tool-permission/local-tool-permission-controller.ts\<close>, with
  \<^verbatim>\<open>local-tool-permission-resolution.ts\<close>, \<^verbatim>\<open>shared/local-tool-permission.ts\<close> and
  \<^verbatim>\<open>shared/local-tool-permission-machinery.ts\<close>.

  Every operation of the controller runs to its end without waiting; a call that has to wait for
  the user leaves a waiter, known by a number. The settings file is part of the state: the choice
  of the user and the ceiling of the administrator. The decisions given, the answers of the user
  and the approvals withdrawn are kept as history. What the code takes from outside (the time, a
  random id, whether there is somewhere to ask and a computer, whether settings could be saved)
  comes with the call; the digest of a target is a parameter.
\<close>

subsection \<open>Permissions\<close>

datatype permission = Always | Ask | Never

definition permission_rank :: "permission \<Rightarrow> nat" where
  "permission_rank p = (case p of Never \<Rightarrow> 0 | Ask \<Rightarrow> 1 | Always \<Rightarrow> 2)"

definition resolveSandLocalToolPermission :: "permission \<Rightarrow> permission option \<Rightarrow> permission" where
  "resolveSandLocalToolPermission choice adminCeiling =
     (case adminCeiling of None \<Rightarrow> choice
      | Some c \<Rightarrow> if permission_rank choice \<le> permission_rank c then choice else c)"

datatype action = Run_Command | Send_Input | Read_File | List_Directory | Write_File

fun action_name :: "action \<Rightarrow> ustr" where
  "action_name Run_Command = ascii ''run-command''"
| "action_name Send_Input = ascii ''send-input''"
| "action_name Read_File = ascii ''read-file''"
| "action_name List_Directory = ascii ''list-directory''"
| "action_name Write_File = ascii ''write-file''"

text \<open>The messages a refused call is given, by their names in the code.\<close>

datatype reason =
    DISABLED | DENIED | ASK_EXPIRED | ASK_UNAVAILABLE | UNAPPROVED | ABANDONED | STALE_TASK
  | PREPARATORY | TARGET_TOO_LARGE | ASK_CANCELLED | NO_LOCAL_MACHINE

datatype decision = Allowed "ustr option" | Refused reason

subsection \<open>Requests and approvals\<close>

record request =
  rq_action :: action
  rq_target :: ustr
  rq_resourcePath :: "ustr option"
  rq_attachToResourcePath :: "ustr option"
  rq_outlivesScope :: bool
  rq_aborted :: bool
  rq_description :: "ustr option"

record scope =
  sc_agentId :: ustr
  sc_toolCallId :: "ustr option"
  sc_action :: "action option"
  sc_directionEpoch :: "int option"

record approval =
  ap_id :: ustr
  ap_agentId :: ustr
  ap_toolCallId :: ustr
  ap_outlivesScope :: bool
  ap_action :: action
  ap_target :: ustr
  ap_resourcePath :: "ustr option"

datatype status = Pending_Status | Allowed_Status | Denied_Status | Always_Status | Never_Status | Expired_Status

record ask_request =
  ar_id :: ustr
  ar_agentId :: ustr
  ar_action :: action
  ar_target :: ustr
  ar_status :: status
  ar_createdAtMs :: int
  ar_expiresAtMs :: int
  ar_description :: "ustr option"

record pending =
  pe_request :: ask_request
  pe_waiters :: "nat list"
  pe_toolCallId :: ustr
  pe_resourcePath :: "ustr option"
  pe_outlivesScope :: bool
  pe_directionEpoch :: int

definition normalizeResourcePath :: "ustr option \<Rightarrow> ustr option" where
  "normalizeResourcePath path =
     (case path of None \<Rightarrow> None
      | Some p \<Rightarrow> if p = [] then None else Some (map (\<lambda>u. if u = 92 then 47 else u) p))"

definition localToolApprovalCovers :: "approval \<Rightarrow> request \<Rightarrow> bool" where
  "localToolApprovalCovers a r \<longleftrightarrow>
     ap_action a = rq_action r \<and> ap_target a = rq_target r \<or>
     (let owned = normalizeResourcePath (ap_resourcePath a) in
      owned \<noteq> None \<and> owned = normalizeResourcePath (rq_attachToResourcePath r))"

text \<open>\<^verbatim>\<open>/\<close> for every backslash, and none at the end.\<close>

definition normalizeSeparators :: "ustr \<Rightarrow> ustr" where
  "normalizeSeparators path = rev (dropWhile (\<lambda>u. u = 47) (rev (map (\<lambda>u. if u = 92 then 47 else u) path)))"

definition sandTerminalFilePath :: "ustr \<Rightarrow> ustr \<Rightarrow> ustr option" where
  "sandTerminalFilePath folder shellId =
     (if shellId = [] then None else Some (normalizeSeparators folder @ [47] @ shellId @ ascii ''.txt''))"

definition isTerminalFile :: "ustr \<Rightarrow> ustr \<Rightarrow> bool" where
  "isTerminalFile path terminalsFolder =
     (let folder = normalizeSeparators terminalsFolder;
          normalized = normalizeSeparators path;
          rest = drop (length folder + 1) normalized
      in folder \<noteq> [] \<and> prefix (folder @ [47]) normalized \<and>
         rest \<noteq> [] \<and> 47 \<notin> set rest \<and> suffix (ascii ''.txt'') rest)"

text \<open>What the machine on the other side was asked to run.\<close>

datatype local_exec =
    Shell_Stream ustr bool
  | Background_Shell_Spawn ustr
  | Force_Background_Shell
  | Write_Shell_Stdin ustr
  | Read_Args ustr
  | Ls_Args ustr
  | Other_Message

definition plain_request :: "action \<Rightarrow> ustr \<Rightarrow> request" where
  "plain_request act target = \<lparr>rq_action = act, rq_target = target, rq_resourcePath = None, rq_attachToResourcePath = None,
     rq_outlivesScope = False, rq_aborted = False, rq_description = None\<rparr>"

fun describeLocalExec :: "local_exec \<Rightarrow> ustr \<Rightarrow> request option" where
  "describeLocalExec (Shell_Stream command isBackground) folder =
     Some ((plain_request Run_Command command)\<lparr>rq_resourcePath := Some folder, rq_outlivesScope := isBackground\<rparr>)"
| "describeLocalExec (Background_Shell_Spawn command) folder =
     Some ((plain_request Run_Command command)\<lparr>rq_resourcePath := Some folder, rq_outlivesScope := True\<rparr>)"
| "describeLocalExec Force_Background_Shell folder =
     Some ((plain_request Run_Command (ascii ''a command already running''))
       \<lparr>rq_attachToResourcePath := Some folder, rq_outlivesScope := True\<rparr>)"
| "describeLocalExec (Write_Shell_Stdin chars) folder = Some (plain_request Send_Input chars)"
| "describeLocalExec (Read_Args path) folder =
     Some ((plain_request Read_File path)\<lparr>rq_attachToResourcePath := if isTerminalFile path folder then Some folder else None\<rparr>)"
| "describeLocalExec (Ls_Args path) folder = Some (plain_request List_Directory path)"
| "describeLocalExec Other_Message folder = None"

subsection \<open>State\<close>

definition SETTLED_ID_MEMORY :: nat where "SETTLED_ID_MEMORY = 64"
definition REFUSAL_DIRECTION_WINDOW :: int where "REFUSAL_DIRECTION_WINDOW = 64"
definition REFUSED_ACTION_MEMORY_PER_AGENT :: nat where "REFUSED_ACTION_MEMORY_PER_AGENT = 512"
definition FORGOTTEN_AGENT_MEMORY :: nat where "FORGOTTEN_AGENT_MEMORY = 256"
definition TARGET_MAX_CHARS :: nat where "TARGET_MAX_CHARS = 10000"

datatype resolution = Allow_Once | Deny | Grant_Always | Grant_Never

record given =
  gv_waiter :: nat
  gv_agentId :: "ustr option"
  gv_decision :: decision
  gv_permission :: permission

record controller =
  choice :: permission
  ceiling :: "permission option"
  pendingByKey :: "(ustr, pending) js_map"
  pendingById :: "(ustr, ustr) js_map"
  approvalsById :: "(ustr, approval) js_map"
  directionEpochs :: "(ustr, int) js_map"
  refusedActions :: "(ustr, ustr \<times> int) js_map"
  saturatedDirections :: "(ustr, int) js_map"
  alwaysGrantedAtEpoch :: "(ustr, int) js_map"
  forgottenAgents :: "ustr list"
  notedPermission :: "permission option"
  settledIds :: "ustr list"
  decisions :: "given list"
  answers :: "(ustr \<times> ustr \<times> resolution) list"
  retired :: "ustr list"
  next_waiter :: nat

definition new_controller :: "permission \<Rightarrow> permission option \<Rightarrow> controller" where
  "new_controller ch ce =
     \<lparr>choice = ch, ceiling = ce, pendingByKey = [], pendingById = [], approvalsById = [], directionEpochs = [],
      refusedActions = [], saturatedDirections = [], alwaysGrantedAtEpoch = [], forgottenAgents = [],
      notedPermission = None, settledIds = [], decisions = [], answers = [], retired = [], next_waiter = 0\<rparr>"

definition permission :: "controller \<Rightarrow> permission" where
  "permission s = resolveSandLocalToolPermission (choice s) (ceiling s)"

definition askKey :: "ustr \<Rightarrow> ustr \<Rightarrow> request \<Rightarrow> ustr" where
  "askKey agentId toolCallId r = agentId @ [0] @ toolCallId @ [0] @ action_name (rq_action r) @ [0] @ rq_target r"

definition refusalKey :: "(ustr \<Rightarrow> ustr) \<Rightarrow> ustr \<Rightarrow> action \<Rightarrow> ustr \<Rightarrow> ustr" where
  "refusalKey digest agentId act target = agentId @ [0] @ action_name act @ [0] @ digest target"

definition directionEpoch :: "controller \<Rightarrow> ustr \<Rightarrow> int" where
  "directionEpoch s agentId = (case jm_get (directionEpochs s) agentId of None \<Rightarrow> 0 | Some e \<Rightarrow> e)"

definition scopeEpoch :: "controller \<Rightarrow> scope \<Rightarrow> int" where
  "scopeEpoch s sc = (case sc_directionEpoch sc of Some e \<Rightarrow> e | None \<Rightarrow> directionEpoch s (sc_agentId sc))"

subsection \<open>Refusals\<close>

definition refusalFor :: "(ustr \<Rightarrow> ustr) \<Rightarrow> scope \<Rightarrow> request \<Rightarrow> controller \<Rightarrow> reason option" where
  "refusalFor digest sc r s =
     (if sc_agentId sc \<in> set (forgottenAgents s) then Some STALE_TASK
      else let epoch = scopeEpoch s sc in
        case jm_get (saturatedDirections s) (sc_agentId sc) of
          Some saturatedAt \<Rightarrow> if epoch \<le> saturatedAt then Some STALE_TASK
            else (case jm_get (refusedActions s) (refusalKey digest (sc_agentId sc) (rq_action r) (rq_target r)) of
                    Some (a, e) \<Rightarrow> if epoch \<le> e then Some ABANDONED else None | None \<Rightarrow> None)
        | None \<Rightarrow>
            (case jm_get (refusedActions s) (refusalKey digest (sc_agentId sc) (rq_action r) (rq_target r)) of
               Some (a, e) \<Rightarrow> if epoch \<le> e then Some ABANDONED else None | None \<Rightarrow> None))"

definition predatesStandingGrant :: "scope option \<Rightarrow> controller \<Rightarrow> bool" where
  "predatesStandingGrant sc s =
     (case sc of None \<Rightarrow> False
      | Some x \<Rightarrow> (case jm_get (alwaysGrantedAtEpoch s) (sc_agentId x) of None \<Rightarrow> False | Some e \<Rightarrow> scopeEpoch s x < e))"

definition isStalePending :: "pending \<Rightarrow> controller \<Rightarrow> bool" where
  "isStalePending p s \<longleftrightarrow> pe_directionEpoch p < directionEpoch s (ar_agentId (pe_request p))"

definition noteStandingPermission :: "permission \<Rightarrow> controller \<Rightarrow> controller" where
  "noteStandingPermission p s =
     (let widened = (p = Always \<and> notedPermission s \<noteq> Some Always);
          s = s\<lparr>notedPermission := Some p\<rparr>
      in if \<not> widened then s else s\<lparr>alwaysGrantedAtEpoch := directionEpochs s\<rparr>)"

definition noteRefusalForgotten :: "ustr \<times> int \<Rightarrow> controller \<Rightarrow> controller" where
  "noteRefusalForgotten refused s =
     (case refused of (agentId, e) \<Rightarrow>
        case jm_get (saturatedDirections s) agentId of
          None \<Rightarrow> s\<lparr>saturatedDirections := jm_set (saturatedDirections s) agentId e\<rparr>
        | Some marker \<Rightarrow> if marker < e then s\<lparr>saturatedDirections := jm_set (saturatedDirections s) agentId e\<rparr> else s)"

definition forget_refusal :: "ustr \<Rightarrow> ustr \<times> int \<Rightarrow> controller \<Rightarrow> controller" where
  "forget_refusal key refused s = noteRefusalForgotten refused (s\<lparr>refusedActions := jm_delete (refusedActions s) key\<rparr>)"

text \<open>The two loops: first the refusals of directions long past, then any, while there are too many.\<close>

fun reclaim_old :: "int \<Rightarrow> nat \<Rightarrow> (ustr \<times> ustr \<times> int) list \<Rightarrow> controller \<Rightarrow> nat \<times> controller" where
  "reclaim_old current held [] s = (held, s)"
| "reclaim_old current held ((key, refused) # mine) s =
     (if held \<le> REFUSED_ACTION_MEMORY_PER_AGENT then (held, s)
      else if REFUSAL_DIRECTION_WINDOW < current - snd refused
           then reclaim_old current (held - 1) mine (forget_refusal key refused s)
           else reclaim_old current held mine s)"

fun reclaim_any :: "nat \<Rightarrow> (ustr \<times> ustr \<times> int) list \<Rightarrow> controller \<Rightarrow> nat \<times> controller" where
  "reclaim_any held [] s = (held, s)"
| "reclaim_any held ((key, refused) # mine) s =
     (if held \<le> REFUSED_ACTION_MEMORY_PER_AGENT then (held, s)
      else if jm_get (refusedActions s) key \<noteq> None then reclaim_any (held - 1) mine (forget_refusal key refused s)
      else reclaim_any held mine s)"

definition reclaimRefusedActions :: "ustr \<Rightarrow> controller \<Rightarrow> controller" where
  "reclaimRefusedActions agentId s =
     (let mine = filter (\<lambda>(k, a, e). a = agentId) (refusedActions s); held = length mine in
      if held \<le> REFUSED_ACTION_MEMORY_PER_AGENT then s
      else let (held, s) = reclaim_old (directionEpoch s agentId) held mine s in snd (reclaim_any held mine s))"

definition rememberRefusedAction :: "(ustr \<Rightarrow> ustr) \<Rightarrow> pending \<Rightarrow> controller \<Rightarrow> controller" where
  "rememberRefusedAction digest p s =
     (let agentId = ar_agentId (pe_request p);
          key = refusalKey digest agentId (ar_action (pe_request p)) (ar_target (pe_request p));
          e = (case jm_get (refusedActions s) key of None \<Rightarrow> pe_directionEpoch p | Some (a, d) \<Rightarrow> max d (pe_directionEpoch p))
      in reclaimRefusedActions agentId (s\<lparr>refusedActions := jm_set (refusedActions s) key (agentId, e)\<rparr>))"

subsection \<open>Decisions\<close>

definition give :: "nat \<Rightarrow> ustr option \<Rightarrow> decision \<Rightarrow> controller \<Rightarrow> controller" where
  "give w agentId d s =
     s\<lparr>decisions := \<lparr>gv_waiter = w, gv_agentId = agentId, gv_decision = d, gv_permission = permission s\<rparr> # decisions s\<rparr>"

definition remember_bounded :: "nat \<Rightarrow> ustr list \<Rightarrow> ustr \<Rightarrow> ustr list" where
  "remember_bounded limit xs x = (let ys = set_add xs x in if limit < length ys then tl ys else ys)"

text \<open>
  The request leaves both maps, is remembered as refused where that applies, and every waiter is
  told. The statuses other than allowed and always are the refused ones.
\<close>

definition settle :: "(ustr \<Rightarrow> ustr) \<Rightarrow> pending \<Rightarrow> status \<Rightarrow> decision \<Rightarrow> bool option \<Rightarrow> controller \<Rightarrow> controller" where
  "settle digest p st d remember s =
     (let id = ar_id (pe_request p);
          s = (case jm_get (pendingById s) id of None \<Rightarrow> s
               | Some key \<Rightarrow>
                   (case jm_get (pendingByKey s) key of None \<Rightarrow> s
                    | Some q \<Rightarrow> if ar_id (pe_request q) = id then s\<lparr>pendingByKey := jm_delete (pendingByKey s) key\<rparr> else s));
          s = s\<lparr>pendingById := jm_delete (pendingById s) id\<rparr>;
          remembers = (case remember of Some b \<Rightarrow> b | None \<Rightarrow> st \<noteq> Allowed_Status \<and> st \<noteq> Always_Status);
          s = (if remembers then rememberRefusedAction digest p s else s);
          s = s\<lparr>settledIds := remember_bounded SETTLED_ID_MEMORY (settledIds s) id\<rparr>
      in foldl (\<lambda>s w. give w (Some (ar_agentId (pe_request p))) d s) s (pe_waiters p))"

definition retireApproval :: "ustr \<Rightarrow> controller \<Rightarrow> controller" where
  "retireApproval aid s =
     (if jm_get (approvalsById s) aid = None then s
      else s\<lparr>approvalsById := jm_delete (approvalsById s) aid, retired := aid # retired s\<rparr>)"

definition findApprovalForResource :: "ustr \<Rightarrow> ustr option \<Rightarrow> controller \<Rightarrow> approval option" where
  "findApprovalForResource agentId resourcePath s =
     (case normalizeResourcePath resourcePath of None \<Rightarrow> None
      | Some n \<Rightarrow> find (\<lambda>a. ap_agentId a = agentId \<and> normalizeResourcePath (ap_resourcePath a) = Some n)
          (map snd (approvalsById s)))"

record surroundings =
  now :: int
  randomId :: ustr
  canAsk :: bool
  hasLiveComputer :: bool

definition askTtlMs :: int where "askTtlMs = 600000"

definition join :: "nat \<Rightarrow> ustr \<Rightarrow> controller \<Rightarrow> controller" where
  "join w key s =
     (case jm_get (pendingByKey s) key of None \<Rightarrow> s
      | Some p \<Rightarrow> s\<lparr>pendingByKey := jm_set (pendingByKey s) key (p\<lparr>pe_waiters := pe_waiters p @ [w]\<rparr>)\<rparr>)"

definition trimmed_description :: "ustr option \<Rightarrow> ustr option" where
  "trimmed_description d = (case d of None \<Rightarrow> None | Some t \<Rightarrow> if js_trim t = [] then None else Some (js_trim t))"

definition new_pending :: "surroundings \<Rightarrow> scope \<Rightarrow> ustr \<Rightarrow> request \<Rightarrow> controller \<Rightarrow> pending" where
  "new_pending env sc toolCallId r s =
     \<lparr>pe_request = \<lparr>ar_id = randomId env, ar_agentId = sc_agentId sc, ar_action = rq_action r, ar_target = rq_target r,
        ar_status = Pending_Status, ar_createdAtMs = now env, ar_expiresAtMs = now env + askTtlMs,
        ar_description = trimmed_description (rq_description r)\<rparr>,
      pe_waiters = [], pe_toolCallId = toolCallId, pe_resourcePath = normalizeResourcePath (rq_resourcePath r),
      pe_outlivesScope = rq_outlivesScope r, pe_directionEpoch = scopeEpoch s sc\<rparr>"

definition ask :: "surroundings \<Rightarrow> nat \<Rightarrow> scope \<Rightarrow> ustr \<Rightarrow> request \<Rightarrow> controller \<Rightarrow> controller" where
  "ask env w sc toolCallId r s =
     (let say = (\<lambda>d. give w (Some (sc_agentId sc)) d);
          mine = filter (\<lambda>a. ap_agentId a = sc_agentId sc) (map snd (approvalsById s))
      in case find (\<lambda>a. (ap_toolCallId a = toolCallId \<or> ap_resourcePath a \<noteq> None) \<and> localToolApprovalCovers a r) mine of
           Some a \<Rightarrow>
             say (Allowed (Some (ap_id a)))
               (if rq_outlivesScope r \<and> \<not> ap_outlivesScope a
                then s\<lparr>approvalsById := jm_set (approvalsById s) (ap_id a) (a\<lparr>ap_outlivesScope := True\<rparr>)\<rparr> else s)
         | None \<Rightarrow>
             if \<not> canAsk env then say (Refused ASK_UNAVAILABLE) s
             else if \<not> hasLiveComputer env then say (Refused NO_LOCAL_MACHINE) s
             else if sc_action sc \<noteq> None \<and> sc_action sc \<noteq> Some (rq_action r) \<and>
                     \<not> list_ex (\<lambda>a. ap_toolCallId a = toolCallId \<and> Some (ap_action a) = sc_action sc) mine
                  then say (Refused PREPARATORY) s
             else if rq_aborted r then say (Refused ASK_CANCELLED) s
             else if TARGET_MAX_CHARS < length (rq_target r) then say (Refused TARGET_TOO_LARGE) s
             else let key = askKey (sc_agentId sc) toolCallId r in
               if jm_get (pendingByKey s) key \<noteq> None then join w key s
               else join w key (s\<lparr>pendingByKey := jm_set (pendingByKey s) key (new_pending env sc toolCallId r s),
                                  pendingById := jm_set (pendingById s) (randomId env) key\<rparr>))"

definition authorize :: "(ustr \<Rightarrow> ustr) \<Rightarrow> surroundings \<Rightarrow> scope option \<Rightarrow> request \<Rightarrow> controller \<Rightarrow> controller" where
  "authorize digest env sc r s =
     (let w = next_waiter s; s = s\<lparr>next_waiter := Suc w\<rparr>; agent = map_option sc_agentId sc in
      if permission s = Never then give w agent (Refused DISABLED) s
      else case (case sc of None \<Rightarrow> None | Some x \<Rightarrow> refusalFor digest x r s) of
             Some why \<Rightarrow> give w agent (Refused why) s
           | None \<Rightarrow>
               if permission s = Always \<and> \<not> predatesStandingGrant sc s then give w agent (Allowed None) s
               else case sc of None \<Rightarrow> give w agent (Refused UNAPPROVED) s
                    | Some x \<Rightarrow>
                        (case sc_toolCallId x of
                           None \<Rightarrow>
                             (case findApprovalForResource (sc_agentId x) (rq_attachToResourcePath r) s of
                                None \<Rightarrow> give w agent (Refused UNAPPROVED) s
                              | Some a \<Rightarrow> give w agent (Allowed (Some (ap_id a))) s)
                         | Some t \<Rightarrow> ask env w x t r s))"

text \<open>The wait of a command that the desktop has to decide on.\<close>

definition awaitDesktopStandingDecision ::
  "(ustr \<Rightarrow> ustr) \<Rightarrow> surroundings \<Rightarrow> ustr \<Rightarrow> ustr \<Rightarrow> ustr option \<Rightarrow> ustr option \<Rightarrow> bool \<Rightarrow> controller \<Rightarrow> controller" where
  "awaitDesktopStandingDecision digest env agentId toolCallId command description aborted s =
     (if permission s = Never
      then give (next_waiter s) (Some agentId) (Refused DISABLED) (s\<lparr>next_waiter := Suc (next_waiter s)\<rparr>)
      else if permission s = Always
      then give (next_waiter s) (Some agentId) (Allowed None) (s\<lparr>next_waiter := Suc (next_waiter s)\<rparr>)
      else authorize digest env
        (Some \<lparr>sc_agentId = agentId, sc_toolCallId = Some toolCallId, sc_action = Some Run_Command,
               sc_directionEpoch = Some (directionEpoch s agentId)\<rparr>)
        \<lparr>rq_action = Run_Command, rq_target = (case command of None \<Rightarrow> [] | Some c \<Rightarrow> c), rq_resourcePath = None,
         rq_attachToResourcePath = None, rq_outlivesScope = False, rq_aborted = aborted,
         rq_description = (case description of None \<Rightarrow> None | Some d \<Rightarrow> if d = [] then None else Some d)\<rparr> s)"


subsection \<open>Scopes, turns and agents\<close>

definition retire_all :: "approval list \<Rightarrow> controller \<Rightarrow> controller" where
  "retire_all as s = foldl (\<lambda>s a. retireApproval (ap_id a) s) s as"

definition completeScope :: "scope option \<Rightarrow> controller \<Rightarrow> controller" where
  "completeScope sc s =
     (case sc of None \<Rightarrow> s
      | Some x \<Rightarrow>
          (case sc_toolCallId x of None \<Rightarrow> s
           | Some t \<Rightarrow> retire_all (filter (\<lambda>a. ap_agentId a = sc_agentId x \<and> ap_toolCallId a = t \<and> \<not> ap_outlivesScope a)
               (map snd (approvalsById s))) s))"

definition beginTurn :: "(ustr \<Rightarrow> ustr) \<Rightarrow> ustr \<Rightarrow> controller \<Rightarrow> controller" where
  "beginTurn digest agentId s =
     (let s = s\<lparr>forgottenAgents := set_remove (forgottenAgents s) agentId,
                directionEpochs := jm_set (directionEpochs s) agentId (directionEpoch s agentId + 1)\<rparr>;
          s = retire_all (filter (\<lambda>a. ap_agentId a = agentId) (map snd (approvalsById s))) s
      in foldl (\<lambda>s p. settle digest p Expired_Status (Refused ASK_EXPIRED) None s) s
           (filter (\<lambda>p. ar_agentId (pe_request p) = agentId) (map snd (pendingByKey s))))"

definition forgetAgent :: "(ustr \<Rightarrow> ustr) \<Rightarrow> ustr \<Rightarrow> controller \<Rightarrow> controller" where
  "forgetAgent digest agentId s =
     (let s = beginTurn digest agentId s
      in s\<lparr>directionEpochs := jm_delete (directionEpochs s) agentId,
           saturatedDirections := jm_delete (saturatedDirections s) agentId,
           alwaysGrantedAtEpoch := jm_delete (alwaysGrantedAtEpoch s) agentId,
           refusedActions := filter (\<lambda>(k, a, e). a \<noteq> agentId) (refusedActions s),
           forgottenAgents := remember_bounded FORGOTTEN_AGENT_MEMORY (forgottenAgents s) agentId\<rparr>)"

definition notePermissionChanged :: "(ustr \<Rightarrow> ustr) \<Rightarrow> controller \<Rightarrow> controller" where
  "notePermissionChanged digest s =
     (let p = permission s; previous = notedPermission s; s = noteStandingPermission p s in
      if p = Ask then (if previous = Some Never then s\<lparr>refusedActions := []\<rparr> else s)
      else let s = (if p = Always then s else retire_all (map snd (approvalsById s)) s)
           in foldl (\<lambda>s q.
                if p = Always \<and> isStalePending q s then settle digest q Expired_Status (Refused ABANDONED) None s
                else if p = Always then settle digest q Always_Status (Allowed None) None s
                else settle digest q Never_Status (Refused DISABLED) (Some False) s) s (map snd (pendingByKey s)))"

fun settled_status :: "resolution \<Rightarrow> status" where
  "settled_status Allow_Once = Allowed_Status"
| "settled_status Deny = Denied_Status"
| "settled_status Grant_Always = Always_Status"
| "settled_status Grant_Never = Never_Status"

text \<open>The user's choice in the settings file; it stays as it was when it cannot be saved.\<close>

definition setPermission :: "bool \<Rightarrow> resolution \<Rightarrow> controller \<Rightarrow> controller" where
  "setPermission saved r s =
     (if \<not> saved then s else s\<lparr>choice := (case r of Grant_Always \<Rightarrow> Always | Grant_Never \<Rightarrow> Never | _ \<Rightarrow> choice s)\<rparr>)"

definition approval_of :: "pending \<Rightarrow> approval" where
  "approval_of p =
     \<lparr>ap_id = ar_id (pe_request p), ap_agentId = ar_agentId (pe_request p), ap_toolCallId = pe_toolCallId p,
      ap_outlivesScope = pe_outlivesScope p, ap_action = ar_action (pe_request p), ap_target = ar_target (pe_request p),
      ap_resourcePath = pe_resourcePath p\<rparr>"

definition getPendingRequestById :: "ustr \<Rightarrow> controller \<Rightarrow> pending option" where
  "getPendingRequestById rid s =
     (case jm_get (pendingById s) rid of None \<Rightarrow> None | Some key \<Rightarrow> jm_get (pendingByKey s) key)"

definition resolveRequest :: "(ustr \<Rightarrow> ustr) \<Rightarrow> bool \<Rightarrow> ustr \<Rightarrow> resolution \<Rightarrow> controller \<Rightarrow> controller option" where
  "resolveRequest digest saved rid initial s =
     (case getPendingRequestById rid s of None \<Rightarrow> None
      | Some p \<Rightarrow>
          if ar_id (pe_request p) \<noteq> rid then None
          else let s = (if initial = Grant_Always \<or> initial = Grant_Never then setPermission saved initial s else s);
                   r = (if initial = Grant_Always \<and> permission s \<noteq> Always then Allow_Once else initial);
                   ok = (r = Allow_Once \<or> r = Grant_Always);
                   s = s\<lparr>answers := (ar_agentId (pe_request p), rid, r) # answers s\<rparr>;
                   s = (if ok then s\<lparr>approvalsById := jm_set (approvalsById s) rid (approval_of p)\<rparr> else s);
                   d = (if ok then Allowed (Some rid) else Refused (if r = Grant_Never then DISABLED else DENIED));
                   s = settle digest p (settled_status r) d None s
               in Some (if r = Grant_Always \<or> r = Grant_Never then notePermissionChanged digest s else s))"

text \<open>
  What the user's click does: an unknown answer, a request of another agent and a request that is
  no longer pending are errors, but for a request that was settled lately. The card of a request
  the controller has never heard of is the transcript's to settle.
\<close>

datatype click_error = Unknown_Resolution | Stale_Request

datatype click = Done | Ask_Transcript | Failed click_error

definition resolveLocalToolPermissionAsk ::
  "(ustr \<Rightarrow> ustr) \<Rightarrow> bool \<Rightarrow> ustr \<Rightarrow> ustr \<Rightarrow> resolution option \<Rightarrow> controller \<Rightarrow> click \<times> controller" where
  "resolveLocalToolPermissionAsk digest saved agentId rid r s =
     (case r of None \<Rightarrow> (Failed Unknown_Resolution, s)
      | Some r \<Rightarrow>
          (case getPendingRequestById rid s of
             None \<Rightarrow> if rid \<in> set (settledIds s) then (Done, s) else (Ask_Transcript, s)
           | Some p \<Rightarrow>
               if ar_agentId (pe_request p) \<noteq> agentId then (Failed Stale_Request, s)
               else (case resolveRequest digest saved rid r s of None \<Rightarrow> (Failed Stale_Request, s) | Some s \<Rightarrow> (Done, s))))"

text \<open>A caller that gives up: the others go on waiting; the last one to go ends the request.\<close>

definition abort_waiter :: "(ustr \<Rightarrow> ustr) \<Rightarrow> nat \<Rightarrow> controller \<Rightarrow> controller" where
  "abort_waiter digest w s =
     (case find (\<lambda>(k, p). w \<in> set (pe_waiters p)) (pendingByKey s) of None \<Rightarrow> s
      | Some (k, p) \<Rightarrow>
          let q = p\<lparr>pe_waiters := set_remove (pe_waiters p) w\<rparr>;
              s = give w (Some (ar_agentId (pe_request p))) (Refused ASK_CANCELLED) (s\<lparr>pendingByKey := jm_set (pendingByKey s) k q\<rparr>)
          in if pe_waiters q = [] \<and> jm_get (pendingById s) (ar_id (pe_request q)) \<noteq> None
             then settle digest q Expired_Status (Refused ASK_CANCELLED) None s else s)"

definition expire :: "(ustr \<Rightarrow> ustr) \<Rightarrow> ustr \<Rightarrow> controller \<Rightarrow> controller" where
  "expire digest rid s =
     (case getPendingRequestById rid s of None \<Rightarrow> s
      | Some p \<Rightarrow> settle digest p Expired_Status (Refused ASK_EXPIRED) None s)"

subsection \<open>Events\<close>

datatype event =
    Authorize surroundings "scope option" request
  | Await_Desktop surroundings ustr ustr "ustr option" "ustr option" bool
  | Complete_Scope "scope option"
  | Begin_Turn ustr
  | Forget_Agent ustr
  | Set_Permission permission
  | Click bool ustr ustr "resolution option"
  | Abort nat
  | Expire ustr

text \<open>A change of the settings is saved and then noted.\<close>

fun step :: "(ustr \<Rightarrow> ustr) \<Rightarrow> controller \<Rightarrow> event \<Rightarrow> controller" where
  "step digest s (Authorize env sc r) = authorize digest env sc r s"
| "step digest s (Await_Desktop env a t c d ab) = awaitDesktopStandingDecision digest env a t c d ab s"
| "step digest s (Complete_Scope sc) = completeScope sc s"
| "step digest s (Begin_Turn a) = beginTurn digest a s"
| "step digest s (Forget_Agent a) = forgetAgent digest a s"
| "step digest s (Set_Permission p) = notePermissionChanged digest (s\<lparr>choice := p\<rparr>)"
| "step digest s (Click saved a rid r) = snd (resolveLocalToolPermissionAsk digest saved a rid r s)"
| "step digest s (Abort w) = abort_waiter digest w s"
| "step digest s (Expire rid) = expire digest rid s"


subsection \<open>What the operations leave alone\<close>

text \<open>Remembering a refusal touches the refusals only.\<close>

definition sans_refusals :: "controller \<Rightarrow> controller" where
  "sans_refusals s = s\<lparr>refusedActions := [], saturatedDirections := []\<rparr>"

definition only_refusals :: "controller \<Rightarrow> controller \<Rightarrow> bool" where
  "only_refusals s s' \<longleftrightarrow> sans_refusals s' = sans_refusals s"

lemma only_refusals_trans: "only_refusals s t \<Longrightarrow> only_refusals t u \<Longrightarrow> only_refusals s u"
  by (simp add: only_refusals_def)

lemma only_refusals_refl [simp]: "only_refusals s s"
  by (simp add: only_refusals_def)

lemma forget_refusal_only: "only_refusals s (forget_refusal k r s)"
  by (simp add: only_refusals_def sans_refusals_def forget_refusal_def noteRefusalForgotten_def split: prod.split option.split)

lemma forget_then_only: "only_refusals (forget_refusal k r s) t \<Longrightarrow> only_refusals s t"
  by (rule only_refusals_trans [OF forget_refusal_only])

lemma reclaim_old_only: "only_refusals s (snd (reclaim_old c held mine s))"
proof (induction c held mine s rule: reclaim_old.induct)
  case (2 c held key refused mine s)
  then show ?case using forget_then_only [of key refused s] by simp
qed simp

lemma reclaim_any_only: "only_refusals s (snd (reclaim_any held mine s))"
proof (induction held mine s rule: reclaim_any.induct)
  case (2 held key refused mine s)
  then show ?case using forget_then_only [of key refused s] by simp
qed simp

lemma reclaim_only: "only_refusals s (reclaimRefusedActions a s)"
  using only_refusals_trans [OF reclaim_old_only reclaim_any_only]
  by (simp add: reclaimRefusedActions_def Let_def split: prod.split) (metis snd_conv)

lemma remember_only: "only_refusals s (rememberRefusedAction digest p s)"
proof -
  have "only_refusals s (s\<lparr>refusedActions := R\<rparr>)" for R by (simp add: only_refusals_def sans_refusals_def)
  from only_refusals_trans [OF this reclaim_only] show ?thesis by (simp add: rememberRefusedAction_def Let_def)
qed

lemma only_refusals_field: "(\<And>s. f (sans_refusals s) = f s) \<Longrightarrow> only_refusals s s' \<Longrightarrow> f s' = f s"
  unfolding only_refusals_def by metis

lemma only_refusals_fields:
  assumes "only_refusals s s'"
  shows "choice s' = choice s" "ceiling s' = ceiling s" "pendingByKey s' = pendingByKey s" "pendingById s' = pendingById s"
    "approvalsById s' = approvalsById s" "directionEpochs s' = directionEpochs s" "answers s' = answers s"
    "decisions s' = decisions s" "next_waiter s' = next_waiter s" "notedPermission s' = notedPermission s"
    "forgottenAgents s' = forgottenAgents s" "settledIds s' = settledIds s" "alwaysGrantedAtEpoch s' = alwaysGrantedAtEpoch s"
    "retired s' = retired s" "permission s' = permission s"
proof -
  note e' = only_refusals_field [OF _ assms]
  show "choice s' = choice s" "ceiling s' = ceiling s" "pendingByKey s' = pendingByKey s" "pendingById s' = pendingById s"
    "approvalsById s' = approvalsById s" "directionEpochs s' = directionEpochs s" "answers s' = answers s"
    "decisions s' = decisions s" "next_waiter s' = next_waiter s" "notedPermission s' = notedPermission s"
    "forgottenAgents s' = forgottenAgents s" "settledIds s' = settledIds s" "alwaysGrantedAtEpoch s' = alwaysGrantedAtEpoch s"
    "retired s' = retired s" "permission s' = permission s"
    by (rule e', simp add: sans_refusals_def permission_def)+
qed

lemmas remember_fields [simp] = only_refusals_fields [OF remember_only]

lemma give_list:
  "foldl (\<lambda>s w. give w a d s) s ws =
     s\<lparr>decisions := rev (map (\<lambda>w. \<lparr>gv_waiter = w, gv_agentId = a, gv_decision = d, gv_permission = permission s\<rparr>) ws) @ decisions s\<rparr>"
  by (induction ws arbitrary: s) (simp_all add: give_def permission_def)

text \<open>What settling a request does, on the fields others read.\<close>

definition told :: "controller \<Rightarrow> pending \<Rightarrow> decision \<Rightarrow> given list" where
  "told s p d = rev (map (\<lambda>w. \<lparr>gv_waiter = w, gv_agentId = Some (ar_agentId (pe_request p)), gv_decision = d,
     gv_permission = permission s\<rparr>) (pe_waiters p))"

lemma settle_fields [simp]:
  "choice (settle digest p st d rm s) = choice s" "ceiling (settle digest p st d rm s) = ceiling s"
  "approvalsById (settle digest p st d rm s) = approvalsById s" "answers (settle digest p st d rm s) = answers s"
  "directionEpochs (settle digest p st d rm s) = directionEpochs s"
  "next_waiter (settle digest p st d rm s) = next_waiter s" "notedPermission (settle digest p st d rm s) = notedPermission s"
  "forgottenAgents (settle digest p st d rm s) = forgottenAgents s" "permission (settle digest p st d rm s) = permission s"
  "pendingById (settle digest p st d rm s) = jm_delete (pendingById s) (ar_id (pe_request p))"
  "decisions (settle digest p st d rm s) = told s p d @ decisions s"
  by (simp_all add: settle_def Let_def give_list told_def permission_def split: option.split)

lemma settle_pending:
  assumes "jm_get (pendingById s) (ar_id (pe_request p)) = Some k" "jm_get (pendingByKey s) k = Some q"
    "ar_id (pe_request q) = ar_id (pe_request p)"
  shows "pendingByKey (settle digest p st d rm s) = jm_delete (pendingByKey s) k"
  using assms by (simp add: settle_def Let_def give_list)

subsection \<open>The two maps of pending requests agree\<close>

definition maps_ok :: "controller \<Rightarrow> bool" where
  "maps_ok s \<longleftrightarrow> jm_wf (pendingByKey s) \<and> jm_wf (pendingById s) \<and>
     (\<forall>k p. jm_get (pendingByKey s) k = Some p \<longrightarrow> jm_get (pendingById s) (ar_id (pe_request p)) = Some k) \<and>
     (\<forall>i k. jm_get (pendingById s) i = Some k \<longrightarrow> (\<exists>p. jm_get (pendingByKey s) k = Some p \<and> ar_id (pe_request p) = i))"

lemma settle_maps_ok:
  assumes ok: "maps_ok s" and p: "jm_get (pendingByKey s) k = Some q" "ar_id (pe_request q) = ar_id (pe_request p)"
  shows "maps_ok (settle digest p st d rm s) \<and> pendingByKey (settle digest p st d rm s) = jm_delete (pendingByKey s) k"
proof -
  have "jm_get (pendingById s) (ar_id (pe_request q)) = Some k" using ok p(1) by (simp add: maps_ok_def)
  then have id: "jm_get (pendingById s) (ar_id (pe_request p)) = Some k" by (simp only: p(2))
  have key: "pendingByKey (settle digest p st d rm s) = jm_delete (pendingByKey s) k" by (rule settle_pending [OF id p])
  have one: "i = ar_id (pe_request p)" if "jm_get (pendingById s) i = Some k" for i
    using ok p that unfolding maps_ok_def by (metis option.inject)
  have "jm_get (pendingById s) (ar_id (pe_request r)) = Some k' \<and> ar_id (pe_request r) \<noteq> ar_id (pe_request p)"
    if "jm_get (pendingByKey s) k' = Some r" "k' \<noteq> k" for k' r
    using ok id that unfolding maps_ok_def by (metis option.inject)
  moreover have "k' \<noteq> k \<and> (\<exists>r. jm_get (pendingByKey s) k' = Some r \<and> ar_id (pe_request r) = i)"
    if "jm_get (pendingById s) i = Some k'" "i \<noteq> ar_id (pe_request p)" for i k'
    using ok one that unfolding maps_ok_def by metis
  ultimately have "maps_ok (settle digest p st d rm s)"
    using ok unfolding maps_ok_def key settle_fields by (simp add: jm_wf_delete)
  with key show ?thesis by blast
qed


lemma maps_ok_ids:
  "maps_ok s \<Longrightarrow> jm_get (pendingByKey s) k = Some p \<Longrightarrow> jm_get (pendingByKey s) k' = Some q \<Longrightarrow>
   ar_id (pe_request p) = ar_id (pe_request q) \<Longrightarrow> k = k' \<and> p = q"
  unfolding maps_ok_def by (metis option.inject)

lemma maps_ok_values:
  assumes "maps_ok s"
  shows "distinct (map (ar_id \<circ> pe_request \<circ> snd) (pendingByKey s))"
    and "p \<in> set (map snd (pendingByKey s)) \<Longrightarrow> \<exists>k. jm_get (pendingByKey s) k = Some p"
proof -
  have wf: "distinct (map fst (pendingByKey s))" using assms by (simp add: maps_ok_def jm_wf_def)
  have "inj_on (ar_id \<circ> pe_request \<circ> snd) (set (pendingByKey s))"
  proof (rule inj_onI)
    fix x y assume "x \<in> set (pendingByKey s)" "y \<in> set (pendingByKey s)"
      and e: "(ar_id \<circ> pe_request \<circ> snd) x = (ar_id \<circ> pe_request \<circ> snd) y"
    then have "jm_get (pendingByKey s) (fst x) = Some (snd x)" "jm_get (pendingByKey s) (fst y) = Some (snd y)"
      using wf by simp_all
    from maps_ok_ids [OF assms this] e show "x = y" by (simp add: prod_eq_iff)
  qed
  with wf show "distinct (map (ar_id \<circ> pe_request \<circ> snd) (pendingByKey s))" by (simp add: distinct_map)
  show "\<exists>k. jm_get (pendingByKey s) k = Some p" if "p \<in> set (map snd (pendingByKey s))"
    using that wf by auto
qed

text \<open>Settling several requests, one after the other.\<close>

lemma fold_settle:
  assumes inv: "\<And>s p k. P s \<Longrightarrow> maps_ok s \<Longrightarrow> p \<in> Q \<Longrightarrow> jm_get (pendingByKey s) k = Some p \<Longrightarrow> P (settle digest p (st p s) (d p s) (rm p s) s)"
  shows "maps_ok s \<Longrightarrow> P s \<Longrightarrow> set ps \<subseteq> Q \<Longrightarrow> distinct (map (ar_id \<circ> pe_request) ps) \<Longrightarrow>
    \<forall>p \<in> set ps. \<exists>k. jm_get (pendingByKey s) k = Some p \<Longrightarrow>
    (let s' = foldl (\<lambda>s p. settle digest p (st p s) (d p s) (rm p s) s) s ps in
     maps_ok s' \<and> P s' \<and> (\<forall>k p. jm_get (pendingByKey s') k = Some p \<longleftrightarrow> jm_get (pendingByKey s) k = Some p \<and> p \<notin> set ps))"
proof (induction ps arbitrary: s)
  case Nil
  then show ?case by simp
next
  case (Cons p ps)
  obtain k where k: "jm_get (pendingByKey s) k = Some p" using Cons.prems(5) by auto
  let ?s = "settle digest p (st p s) (d p s) (rm p s) s"
  have ok: "maps_ok ?s" "pendingByKey ?s = jm_delete (pendingByKey s) k"
    using settle_maps_ok [OF Cons.prems(1) k refl] by blast+
  have P: "P ?s" using inv [OF Cons.prems(2,1) _ k] Cons.prems(3) by simp
  have other: "\<exists>k'. jm_get (pendingByKey ?s) k' = Some q" if "q \<in> set ps" for q
  proof -
    obtain k' where k': "jm_get (pendingByKey s) k' = Some q" using Cons.prems(5) \<open>q \<in> set ps\<close> by auto
    have "k' \<noteq> k" using k k' that Cons.prems(4) by auto
    with k' show ?thesis unfolding ok(2) by auto
  qed
  have only: "jm_get (pendingByKey ?s) k' = Some q \<longleftrightarrow> jm_get (pendingByKey s) k' = Some q \<and> q \<noteq> p" for k' q
  proof (cases "k' = k")
    case True
    with k show ?thesis by (auto simp: ok(2))
  next
    case False
    then have "q \<noteq> p" if "jm_get (pendingByKey s) k' = Some q"
      using maps_ok_ids [OF Cons.prems(1) k that] by blast
    with False show ?thesis by (auto simp: ok(2))
  qed
  have "set ps \<subseteq> Q" "distinct (map (ar_id \<circ> pe_request) ps)" "\<forall>q \<in> set ps. \<exists>k'. jm_get (pendingByKey ?s) k' = Some q"
    using Cons.prems(3,4) other by (simp_all add: comp_def)
  note rest = Cons.IH [OF ok(1) P this]
  let ?t = "foldl (\<lambda>s p. settle digest p (st p s) (d p s) (rm p s) s) ?s ps"
  from rest have t: "maps_ok ?t" "P ?t"
    "\<And>k' q. jm_get (pendingByKey ?t) k' = Some q \<longleftrightarrow> jm_get (pendingByKey ?s) k' = Some q \<and> q \<notin> set ps"
    unfolding Let_def by blast+
  have "jm_get (pendingByKey ?t) k' = Some q \<longleftrightarrow> jm_get (pendingByKey s) k' = Some q \<and> q \<notin> set (p # ps)" for k' q
    unfolding t(3) only by auto
  with t(1,2) show ?case unfolding Let_def foldl_Cons by blast
qed

subsection \<open>Waiters\<close>

definition waiting :: "(ustr, pending) js_map \<Rightarrow> nat multiset" where
  "waiting m = mset (concat (map (\<lambda>(k, p). pe_waiters p) m))"

lemma waiting_delete: "jm_wf m \<Longrightarrow> jm_get m k = Some p \<Longrightarrow> waiting m = mset (pe_waiters p) + waiting (jm_delete m k)"
proof (induction m)
  case (Cons kv m)
  obtain k' q where kv: "kv = (k', q)" by (cases kv)
  show ?case
  proof (cases "k' = k")
    case True
    with Cons.prems have "k \<notin> fst ` set m" by (simp add: kv jm_wf_def)
    then have "jm_delete m k = m" by (rule jm_delete_absent)
    with True Cons.prems show ?thesis by (simp add: kv waiting_def jm_delete_def)
  next
    case False
    with Cons show ?thesis by (simp add: kv waiting_def jm_delete_def jm_wf_def)
  qed
qed simp

lemma waiting_set:
  "jm_wf m \<Longrightarrow> jm_get m k = Some p \<Longrightarrow> waiting (jm_set m k q) + mset (pe_waiters p) = waiting m + mset (pe_waiters q)"
proof (induction m)
  case (Cons kv m)
  obtain k' r where kv: "kv = (k', r)" by (cases kv)
  from Cons show ?case by (cases "k' = k") (simp_all add: kv waiting_def jm_set_def jm_wf_def)
qed simp

lemma waiting_new: "jm_get m k = None \<Longrightarrow> waiting (jm_set m k q) = waiting m + mset (pe_waiters q)"
  by (simp add: map_of_eq_None_iff jm_set_new waiting_def)


subsection \<open>Consent\<close>

definition granted :: "(ustr \<times> ustr \<times> resolution) list \<Rightarrow> ustr \<Rightarrow> ustr \<Rightarrow> bool" where
  "granted as agentId aid \<longleftrightarrow> (agentId, aid, Allow_Once) \<in> set as \<or> (agentId, aid, Grant_Always) \<in> set as"

text \<open>
  A decision to allow rests on the standing permission, or on an approval: an answer of the user
  to a request of the same agent, used while the permission is not never.
\<close>

definition fair :: "(ustr \<times> ustr \<times> resolution) list \<Rightarrow> ustr option \<Rightarrow> decision \<Rightarrow> permission \<Rightarrow> bool" where
  "fair as agent d p =
     (case d of
        Refused why \<Rightarrow> True
      | Allowed None \<Rightarrow> p = Always
      | Allowed (Some aid) \<Rightarrow> p \<noteq> Never \<and> (case agent of None \<Rightarrow> False | Some a \<Rightarrow> granted as a aid))"

definition core :: "controller \<Rightarrow> bool" where
  "core s \<longleftrightarrow> maps_ok s \<and> jm_wf (approvalsById s) \<and>
     (\<forall>k a. jm_get (approvalsById s) k = Some a \<longrightarrow> ap_id a = k \<and> granted (answers s) (ap_agentId a) k) \<and>
     (\<forall>g \<in> set (decisions s). fair (answers s) (gv_agentId g) (gv_decision g) (gv_permission g)) \<and>
     mset (map gv_waiter (decisions s)) + waiting (pendingByKey s) = mset [0..<next_waiter s]"

definition silent :: "controller \<Rightarrow> bool" where
  "silent s \<longleftrightarrow> (permission s = Never \<longrightarrow> pendingByKey s = [] \<and> approvalsById s = [])"

lemma fair_mono: "fair as agent d p \<Longrightarrow> set as \<subseteq> set bs \<Longrightarrow> fair bs agent d p"
  by (auto simp: fair_def granted_def split: decision.splits option.splits)

lemma fair_refused [simp]: "fair as agent (Refused why) p"
  by (simp add: fair_def)

lemma settle_core:
  assumes c: "core s" and k: "jm_get (pendingByKey s) k = Some p" and f: "fair (answers s) (Some (ar_agentId (pe_request p))) d (permission s)"
  shows "core (settle digest p st d rm s)"
proof -
  have m: "maps_ok s" using c by (simp add: core_def)
  note sm = settle_maps_ok [OF m k refl, of digest st d rm]
  have "map gv_waiter (told s p d) = rev (pe_waiters p)" by (simp add: told_def rev_map [symmetric] comp_def)
  then have "mset (map gv_waiter (told s p d)) = mset (pe_waiters p)" by (simp only: mset_rev)
  moreover have "waiting (pendingByKey s) = mset (pe_waiters p) + waiting (jm_delete (pendingByKey s) k)"
    using m by (intro waiting_delete k) (simp add: maps_ok_def)
  moreover have "fair (answers s) (gv_agentId g) (gv_decision g) (gv_permission g)" if "g \<in> set (told s p d)" for g
    using that f by (auto simp: told_def)
  ultimately show ?thesis using c sm by (auto simp: core_def ac_simps)
qed

lemma core_cong:
  assumes "core s" "pendingByKey t = pendingByKey s" "pendingById t = pendingById s" "approvalsById t = approvalsById s"
    "answers t = answers s" "decisions t = decisions s" "next_waiter t = next_waiter s"
  shows "core t"
  using assms by (simp add: core_def maps_ok_def)

lemma give_core:
  assumes "core s" "fair (answers s) a d (permission s)"
  shows "core (give (next_waiter s) a d (s\<lparr>next_waiter := Suc (next_waiter s)\<rparr>))"
  using assms by (auto simp: core_def give_def permission_def maps_ok_def)

lemma approvals_core:
  assumes "core s" "jm_wf as" "\<And>k a. jm_get as k = Some a \<Longrightarrow> ap_id a = k \<and> granted (answers s) (ap_agentId a) k"
  shows "core (s\<lparr>approvalsById := as\<rparr>)"
  using assms by (simp add: core_def maps_ok_def)

lemma answers_core:
  assumes "core s"
  shows "core (s\<lparr>answers := x # answers s\<rparr>)"
proof -
  have "fair (x # answers s) a d p" if "fair (answers s) a d p" for a d p
    using fair_mono [OF that, of "x # answers s"] by (simp add: set_mp subset_insertI)
  moreover have "granted (x # answers s) a aid" if "granted (answers s) a aid" for a aid
    using that by (auto simp: granted_def)
  ultimately show ?thesis using assms by (simp add: core_def maps_ok_def)
qed

lemma maps_ok_same:
  assumes ok: "maps_ok s" and p: "jm_get (pendingByKey s) key = Some p" and q: "pe_request q = pe_request p"
  shows "maps_ok (s\<lparr>pendingByKey := jm_set (pendingByKey s) key q\<rparr>)"
proof -
  have "\<exists>r. (if k = key then Some q else jm_get (pendingByKey s) k) = Some r \<and> ar_id (pe_request r) = i"
    if "jm_get (pendingById s) i = Some k" for i k
    using ok p q that unfolding maps_ok_def by (cases "k = key") force+
  then show ?thesis using ok p q by (auto simp: maps_ok_def)
qed

lemma maps_ok_new:
  assumes ok: "maps_ok s" and new: "jm_get (pendingByKey s) key = None" "jm_get (pendingById s) (ar_id (pe_request q)) = None"
  shows "maps_ok (s\<lparr>pendingByKey := jm_set (pendingByKey s) key q, pendingById := jm_set (pendingById s) (ar_id (pe_request q)) key\<rparr>)"
proof -
  have "ar_id (pe_request r) \<noteq> ar_id (pe_request q)" if "jm_get (pendingByKey s) k = Some r" for k r
    using ok new(2) that unfolding maps_ok_def by (metis option.distinct(1))
  moreover have "k \<noteq> key" if "jm_get (pendingById s) i = Some k" for i k
    using ok new(1) that unfolding maps_ok_def by (metis option.distinct(1))
  ultimately show ?thesis using ok by (auto simp: maps_ok_def)
qed

lemma join_core:
  assumes "core s" "jm_get (pendingByKey s) key \<noteq> None"
  shows "core (join (next_waiter s) key (s\<lparr>next_waiter := Suc (next_waiter s)\<rparr>))"
proof -
  obtain p where p: "jm_get (pendingByKey s) key = Some p" using assms(2) by auto
  let ?q = "p\<lparr>pe_waiters := pe_waiters p @ [next_waiter s]\<rparr>"
  have m: "maps_ok s" "jm_wf (pendingByKey s)" using assms(1) by (simp_all add: core_def maps_ok_def)
  from waiting_set [OF m(2) p, of ?q]
  have "waiting (jm_set (pendingByKey s) key ?q) = waiting (pendingByKey s) + {#next_waiter s#}" by simp
  moreover have "maps_ok (s\<lparr>pendingByKey := jm_set (pendingByKey s) key ?q\<rparr>)" by (rule maps_ok_same [OF m(1) p]) simp
  ultimately show ?thesis using assms(1) p by (simp add: core_def join_def maps_ok_def)
qed

lemma retire_core: "core s \<Longrightarrow> core (retireApproval aid s)"
  by (auto simp: retireApproval_def core_def maps_ok_def)

lemma retire_fields [simp]:
  "pendingByKey (retireApproval aid s) = pendingByKey s" "permission (retireApproval aid s) = permission s"
  "answers (retireApproval aid s) = answers s" "directionEpochs (retireApproval aid s) = directionEpochs s"
  by (simp_all add: retireApproval_def permission_def)

lemma retire_all_core: "core s \<Longrightarrow> core (retire_all as s)"
  by (induction as arbitrary: s) (simp_all add: retire_all_def retire_core)

lemma retire_all_fields [simp]:
  "pendingByKey (retire_all as s) = pendingByKey s" "permission (retire_all as s) = permission s"
  "answers (retire_all as s) = answers s" "directionEpochs (retire_all as s) = directionEpochs s"
  by (induction as arbitrary: s) (simp_all add: retire_all_def)

lemma retire_all_get:
  "jm_get (approvalsById (retire_all as s)) k = (if k \<in> ap_id ` set as then None else jm_get (approvalsById s) k)"
  by (induction as arbitrary: s) (auto simp: retire_all_def retireApproval_def)

lemma retire_every:
  assumes "core s"
  shows "approvalsById (retire_all (map snd (approvalsById s)) s) = []"
proof (rule jm_empty)
  fix k
  show "jm_get (approvalsById (retire_all (map snd (approvalsById s)) s)) k = None"
  proof (cases "jm_get (approvalsById s) k")
    case None
    then show ?thesis by (simp add: retire_all_get)
  next
    case (Some a)
    then have "ap_id a = k" using assms by (simp add: core_def)
    moreover have "a \<in> set (map snd (approvalsById s))" using map_of_SomeD [OF Some] by force
    ultimately have "k \<in> ap_id ` set (map snd (approvalsById s))" by blast
    then show ?thesis by (simp add: retire_all_get)
  qed
qed


lemma retire_all_silent: "silent s \<Longrightarrow> silent (retire_all as s)"
proof -
  assume "silent s"
  moreover have "approvalsById (retire_all as s) = []" if "approvalsById s = []" for as s
    using that by (induction as) (simp_all add: retire_all_def retireApproval_def)
  ultimately show ?thesis by (simp add: silent_def)
qed

definition consistent :: "controller \<Rightarrow> bool" where
  "consistent s \<longleftrightarrow> core s \<and> silent s"

lemma new_consistent: "consistent (new_controller ch ce)"
  by (simp add: consistent_def core_def silent_def new_controller_def maps_ok_def jm_wf_def waiting_def)

text \<open>The id of a new request is one that no pending request has.\<close>

fun fresh_event :: "controller \<Rightarrow> event \<Rightarrow> bool" where
  "fresh_event s (Authorize env sc r) \<longleftrightarrow> jm_get (pendingById s) (randomId env) = None"
| "fresh_event s (Await_Desktop env a t c d ab) \<longleftrightarrow> jm_get (pendingById s) (randomId env) = None"
| "fresh_event s e \<longleftrightarrow> True"

lemma approval_granted:
  assumes "core s" "a \<in> set (map snd (approvalsById s))"
  shows "granted (answers s) (ap_agentId a) (ap_id a)" "jm_get (approvalsById s) (ap_id a) = Some a"
proof -
  have wf: "distinct (map fst (approvalsById s))" using assms(1) by (simp add: core_def jm_wf_def)
  obtain k where "(k, a) \<in> set (approvalsById s)" using assms(2) by auto
  then have "jm_get (approvalsById s) k = Some a" using wf by simp
  moreover from this have "ap_id a = k \<and> granted (answers s) (ap_agentId a) k" using assms(1) unfolding core_def by blast
  ultimately show "granted (answers s) (ap_agentId a) (ap_id a)" "jm_get (approvalsById s) (ap_id a) = Some a" by blast+
qed

lemma approve_core:
  assumes "core s" "granted (answers s) (ap_agentId b) k" "ap_id b = k"
  shows "core (s\<lparr>approvalsById := jm_set (approvalsById s) k b\<rparr>)"
proof (rule approvals_core [OF assms(1)])
  show "jm_wf (jm_set (approvalsById s) k b)" using assms(1) by (simp add: core_def jm_wf_set)
next
  fix i c assume c: "jm_get (jm_set (approvalsById s) k b) i = Some c"
  show "ap_id c = i \<and> granted (answers s) (ap_agentId c) i"
  proof (cases "i = k")
    case True
    with c assms(2,3) show ?thesis by simp
  next
    case False
    with c assms(1) show ?thesis unfolding core_def by simp
  qed
qed

lemma new_pending_core:
  assumes "core s" "jm_get (pendingByKey s) key = None" "jm_get (pendingById s) (ar_id (pe_request p)) = None" "pe_waiters p = []"
  shows "core (s\<lparr>pendingByKey := jm_set (pendingByKey s) key p, pendingById := jm_set (pendingById s) (ar_id (pe_request p)) key\<rparr>)"
  using assms maps_ok_new [of s key p] by (simp add: core_def waiting_new)


lemma permission_frame [simp]:
  "permission (s\<lparr>next_waiter := n\<rparr>) = permission s" "permission (s\<lparr>approvalsById := as\<rparr>) = permission s"
  "permission (s\<lparr>answers := xs\<rparr>) = permission s" "permission (s\<lparr>notedPermission := np\<rparr>) = permission s"
  "permission (s\<lparr>pendingByKey := pk\<rparr>) = permission s" "permission (s\<lparr>pendingById := pi\<rparr>) = permission s"
  "permission (give w a d s) = permission s"
  by (simp_all add: permission_def give_def)

lemma give_fields [simp]:
  "pendingByKey (give w a d s) = pendingByKey s" "pendingById (give w a d s) = pendingById s"
  "approvalsById (give w a d s) = approvalsById s" "answers (give w a d s) = answers s"
  "directionEpochs (give w a d s) = directionEpochs s"
  "refusedActions (give w a d s) = refusedActions s" "saturatedDirections (give w a d s) = saturatedDirections s"
  "forgottenAgents (give w a d s) = forgottenAgents s" "notedPermission (give w a d s) = notedPermission s"
  by (simp_all add: give_def)

lemma join_permission [simp]: "permission (join w k s) = permission s"
  by (simp add: join_def split: option.split)

lemma ask_core:
  assumes c: "core s" and fresh: "jm_get (pendingById s) (randomId env) = None" and p: "permission s \<noteq> Never"
  shows "core (ask env (next_waiter s) sc t r (s\<lparr>next_waiter := Suc (next_waiter s)\<rparr>))"
proof -
  let ?s = "s\<lparr>next_waiter := Suc (next_waiter s)\<rparr>"
  let ?mine = "filter (\<lambda>a. ap_agentId a = sc_agentId sc) (map snd (approvalsById s))"
  let ?found = "find (\<lambda>a. (ap_toolCallId a = t \<or> ap_resourcePath a \<noteq> None) \<and> localToolApprovalCovers a r) ?mine"
  have refused: "core (give (next_waiter s) ag (Refused why) ?s)" for ag why by (rule give_core [OF c]) simp
  show ?thesis
  proof (cases ?found)
    case (Some a)
    then have a: "a \<in> set (map snd (approvalsById s))" "ap_agentId a = sc_agentId sc"
      using find_SomeD [OF Some] by simp_all
    then have f: "fair (answers s) (Some (sc_agentId sc)) (Allowed (Some (ap_id a))) (permission s)"
      using approval_granted(1) [OF c a(1)] p by (simp add: fair_def)
    let ?t = "s\<lparr>approvalsById := jm_set (approvalsById s) (ap_id a) (a\<lparr>ap_outlivesScope := True\<rparr>)\<rparr>"
    have "core ?t" using approval_granted(1) [OF c a(1)] by (intro approve_core c) simp_all
    from give_core [OF this] f
    have "core (give (next_waiter s) (Some (sc_agentId sc)) (Allowed (Some (ap_id a))) (?t\<lparr>next_waiter := Suc (next_waiter s)\<rparr>))"
      by simp
    moreover have "?t\<lparr>next_waiter := Suc (next_waiter s)\<rparr> = ?s\<lparr>approvalsById := jm_set (approvalsById s) (ap_id a) (a\<lparr>ap_outlivesScope := True\<rparr>)\<rparr>"
      by simp
    ultimately show ?thesis using Some give_core [OF c f] by (simp add: ask_def)
  next
    case None
    let ?key = "askKey (sc_agentId sc) t r"
    let ?p = "new_pending env sc t r ?s"
    let ?n = "s\<lparr>pendingByKey := jm_set (pendingByKey s) ?key ?p, pendingById := jm_set (pendingById s) (randomId env) ?key\<rparr>"
    have old: "core (join (next_waiter s) ?key ?s)" if "jm_get (pendingByKey s) ?key \<noteq> None"
      by (rule join_core [OF c that])
    have "core ?n" if "jm_get (pendingByKey s) ?key = None"
      using new_pending_core [OF c that, of ?p] fresh by (simp add: new_pending_def)
    from join_core [OF this]
    have new: "core (join (next_waiter s) ?key (?n\<lparr>next_waiter := Suc (next_waiter s)\<rparr>))" if "jm_get (pendingByKey s) ?key = None"
      using that by simp
    moreover have "?n\<lparr>next_waiter := Suc (next_waiter s)\<rparr> =
        ?s\<lparr>pendingByKey := jm_set (pendingByKey s) ?key ?p, pendingById := jm_set (pendingById s) (randomId env) ?key\<rparr>" by simp
    ultimately show ?thesis using None refused old by (simp add: ask_def Let_def)
  qed
qed

lemma ask_permission [simp]: "permission (ask env w sc t r s) = permission s"
  by (simp add: ask_def Let_def split: option.split)

lemma authorize_consistent:
  assumes c: "consistent s" and fresh: "fresh_event s (Authorize env sc r)"
  shows "consistent (authorize digest env sc r s)"
proof -
  have core: "core s" and sil: "silent s" using c by (simp_all add: consistent_def)
  let ?s = "s\<lparr>next_waiter := Suc (next_waiter s)\<rparr>"
  have given: "consistent (give (next_waiter s) a d ?s)" if "fair (answers s) a d (permission s)" for a d
    using give_core [OF core that] sil by (simp add: consistent_def silent_def)
  show ?thesis
  proof (cases "permission s = Never")
    case True
    then show ?thesis using given by (simp add: authorize_def Let_def)
  next
    case live: False
    have asked: "consistent (ask env (next_waiter s) x t r ?s)" for x t
      using ask_core [OF core _ live] fresh live by (simp add: consistent_def silent_def)
    have attached: "consistent (give (next_waiter s) (Some (sc_agentId x)) (Allowed (Some (ap_id a))) ?s)"
      if "findApprovalForResource (sc_agentId x) f ?s = Some a" for x f a
    proof (rule given)
      from that have "a \<in> set (map snd (approvalsById s))" "ap_agentId a = sc_agentId x"
        by (auto simp: findApprovalForResource_def dest!: find_SomeD split: option.splits)
      with approval_granted(1) [OF core this(1)] live
      show "fair (answers s) (Some (sc_agentId x)) (Allowed (Some (ap_id a))) (permission s)" by (simp add: fair_def)
    qed
    have standing: "consistent (give (next_waiter s) a (Allowed None) ?s)" if "permission s = Always" for a
      using given [of a "Allowed None"] that by (simp add: fair_def)
    show ?thesis using live asked attached [of _ "rq_attachToResourcePath r"] standing given
      by (auto simp: authorize_def Let_def split: option.split)
  qed
qed


lemma controller_frame:
  "core (s\<lparr>choice := c\<rparr>) = core s" "core (s\<lparr>notedPermission := np\<rparr>) = core s"
  "core (s\<lparr>forgottenAgents := fa\<rparr>) = core s" "core (s\<lparr>directionEpochs := de\<rparr>) = core s"
  "core (s\<lparr>saturatedDirections := sd\<rparr>) = core s" "core (s\<lparr>alwaysGrantedAtEpoch := ag\<rparr>) = core s"
  "core (s\<lparr>refusedActions := ra\<rparr>) = core s"
  by (simp_all add: core_def maps_ok_def)

lemma silent_frame:
  "silent (s\<lparr>notedPermission := np\<rparr>) = silent s"
  "silent (s\<lparr>forgottenAgents := fa\<rparr>) = silent s" "silent (s\<lparr>directionEpochs := de\<rparr>) = silent s"
  "silent (s\<lparr>saturatedDirections := sd\<rparr>) = silent s" "silent (s\<lparr>alwaysGrantedAtEpoch := ag\<rparr>) = silent s"
  "silent (s\<lparr>refusedActions := ra\<rparr>) = silent s"
  by (simp_all add: silent_def permission_def)

lemmas frame = controller_frame silent_frame

lemma settle_silent: "silent s \<Longrightarrow> jm_get (pendingByKey s) k = Some p \<Longrightarrow> silent (settle digest p st d rm s)"
  by (auto simp: silent_def)

text \<open>Settling all the requests of a list, with decisions that are fair.\<close>

lemma settle_each:
  assumes c: "core s" and ps: "ps = filter F (map snd (pendingByKey s))"
    and f: "\<And>p t. p \<in> set ps \<Longrightarrow> permission t = permission s \<Longrightarrow> directionEpochs t = directionEpochs s \<Longrightarrow>
      fair (answers s) (Some (ar_agentId (pe_request p))) (d p t) (permission s)"
  shows "let s' = foldl (\<lambda>s p. settle digest p (st p s) (d p s) (rm p s) s) s ps in
    core s' \<and> permission s' = permission s \<and> approvalsById s' = approvalsById s \<and> (silent s \<longrightarrow> silent s') \<and>
    (\<forall>k p. jm_get (pendingByKey s') k = Some p \<longleftrightarrow> jm_get (pendingByKey s) k = Some p \<and> p \<notin> set ps)"
proof -
  let ?P = "\<lambda>t. core t \<and> permission t = permission s \<and> answers t = answers s \<and> approvalsById t = approvalsById s \<and>
    directionEpochs t = directionEpochs s \<and> (silent s \<longrightarrow> silent t)"
  have m: "maps_ok s" using c by (simp add: core_def)
  have inv: "?P (settle digest p (st p t) (d p t) (rm p t) t)"
    if "?P t" "p \<in> set ps" "jm_get (pendingByKey t) k = Some p" for t p k
    using that settle_core [of t k p "d p t" digest "st p t" "rm p t"] settle_silent [of t k p] f [of p t] by simp
  have dist: "distinct (map (ar_id \<circ> pe_request) ps)"
    using distinct_map_filter [of "ar_id \<circ> pe_request" "map snd (pendingByKey s)" F] maps_ok_values(1) [OF m] by (simp add: ps comp_def)
  have get: "\<forall>p \<in> set ps. \<exists>k. jm_get (pendingByKey s) k = Some p"
    using maps_ok_values(2) [OF m] by (simp add: ps)
  from fold_settle [of ?P "set ps" digest st d rm s ps, OF _ m _ subset_refl dist get] inv c
  show ?thesis unfolding Let_def by blast
qed

lemma turn_consistent:
  assumes "consistent s"
  shows "consistent (beginTurn digest agentId s)"
proof -
  let ?s = "s\<lparr>forgottenAgents := set_remove (forgottenAgents s) agentId,
                directionEpochs := jm_set (directionEpochs s) agentId (directionEpoch s agentId + 1)\<rparr>"
  let ?t = "retire_all (filter (\<lambda>a. ap_agentId a = agentId) (map snd (approvalsById ?s))) ?s"
  have "core ?t" "silent ?t"
    using assms by (simp_all add: consistent_def retire_all_core retire_all_silent frame)
  then show ?thesis
    using settle_each [OF \<open>core ?t\<close> refl, of "\<lambda>p. ar_agentId (pe_request p) = agentId" "\<lambda>p s. Refused ASK_EXPIRED" digest
        "\<lambda>p s. Expired_Status" "\<lambda>p s. None"]
    by (simp add: beginTurn_def consistent_def Let_def)
qed

lemma forget_consistent: "consistent s \<Longrightarrow> consistent (forgetAgent digest agentId s)"
  using turn_consistent [of s digest agentId] by (simp add: forgetAgent_def consistent_def Let_def frame)

lemma scope_consistent: "consistent s \<Longrightarrow> consistent (completeScope sc s)"
  by (simp add: completeScope_def consistent_def retire_all_core retire_all_silent split: option.split)

lemma expire_consistent:
  assumes "consistent s"
  shows "consistent (expire digest rid s)"
proof (cases "getPendingRequestById rid s")
  case None
  then show ?thesis using assms by (simp add: expire_def)
next
  case (Some p)
  then obtain k where "jm_get (pendingByKey s) k = Some p" by (auto simp: getPendingRequestById_def split: option.splits)
  with Some assms show ?thesis by (auto simp: expire_def consistent_def intro: settle_core settle_silent)
qed


text \<open>
  The permission changes: every request that is pending is settled, unless the user is to be
  asked; with the permission to never, every approval goes too. The new permission is the one in
  the settings, so that this makes the state silent again.
\<close>

lemma note_consistent:
  assumes c: "core s"
  shows "consistent (notePermissionChanged digest s)"
proof -
  define v where "v = noteStandingPermission (permission s) s"
  have s: "core v" "permission v = permission s" "pendingByKey v = pendingByKey s" "approvalsById v = approvalsById s"
    using c by (simp_all add: v_def noteStandingPermission_def Let_def frame permission_def)
  show ?thesis
  proof (cases "permission s = Ask")
    case True
    have "permission (v\<lparr>refusedActions := []\<rparr>) = permission v" by (simp add: permission_def)
    with True s show ?thesis unfolding notePermissionChanged_def Let_def v_def [symmetric]
      by (simp add: consistent_def silent_def frame)
  next
    case asked: False
    define t where "t = (if permission s = Always then v else retire_all (map snd (approvalsById v)) v)"
    have t: "core t" "permission t = permission s" "pendingByKey t = pendingByKey s" using s by (simp_all add: t_def retire_all_core)
    have none: "approvalsById t = []" if "permission s = Never" using retire_every [OF s(1)] that by (simp add: t_def)
    let ?st = "\<lambda>q u. if permission s = Always then if isStalePending q u then Expired_Status else Always_Status else Never_Status"
    let ?d = "\<lambda>q u. if permission s = Always then if isStalePending q u then Refused ABANDONED else Allowed None else Refused DISABLED"
    let ?rm = "\<lambda>(q :: pending) (u :: controller). if permission s = Always then None else Some False"
    define u where "u = foldl (\<lambda>s q. settle digest q (?st q s) (?d q s) (?rm q s) s) t (filter (\<lambda>_. True) (map snd (pendingByKey t)))"
    have u: "notePermissionChanged digest s = u"
      unfolding notePermissionChanged_def Let_def v_def [symmetric] t_def [symmetric] u_def
      using asked by (auto simp: t(3) s(3) intro!: foldl_cong)
    have "fair (answers t) a (?d q w) (permission t)" for a q w by (simp add: t(2) fair_def)
    note each = settle_each [OF t(1) refl, of "\<lambda>_. True" ?d digest ?st ?rm, OF this, folded u_def, unfolded Let_def]
    have "jm_get (pendingByKey u) k = None" for k
    proof (cases "jm_get (pendingByKey u) k")
      case (Some p)
      with each have "jm_get (pendingByKey t) k = Some p" "p \<notin> snd ` set (pendingByKey t)" by simp_all
      with map_of_SomeD [of "pendingByKey t" k p] show ?thesis by force
    qed
    then have "pendingByKey u = []" by (rule jm_empty)
    with each none t(2) show ?thesis unfolding u consistent_def silent_def by auto
  qed
qed


lemma live_choice: "permission s \<noteq> Never \<Longrightarrow> permission (s\<lparr>choice := Always\<rparr>) \<noteq> Never"
  by (simp add: permission_def resolveSandLocalToolPermission_def permission_rank_def split: option.splits permission.splits if_splits)

lemma resolve_consistent:
  assumes c: "consistent s" and r: "resolveRequest digest saved rid initial s = Some s'"
  shows "consistent s'"
proof -
  from r obtain p where p: "getPendingRequestById rid s = Some p" "ar_id (pe_request p) = rid"
    by (auto simp: resolveRequest_def split: option.splits if_splits)
  from p(1) obtain k where k: "jm_get (pendingByKey s) k = Some p" by (auto simp: getPendingRequestById_def split: option.splits)
  have live: "permission s \<noteq> Never" using c k by (auto simp: consistent_def silent_def)
  define s1 where "s1 = (if initial = Grant_Always \<or> initial = Grant_Never then setPermission saved initial s else s)"
  define r where "r = (if initial = Grant_Always \<and> permission s1 \<noteq> Always then Allow_Once else initial)"
  define ok where "ok \<longleftrightarrow> r = Allow_Once \<or> r = Grant_Always"
  define s2 where "s2 = s1\<lparr>answers := (ar_agentId (pe_request p), rid, r) # answers s1\<rparr>"
  define s3 where "s3 = (if ok then s2\<lparr>approvalsById := jm_set (approvalsById s2) rid (approval_of p)\<rparr> else s2)"
  define d where "d = (if ok then Allowed (Some rid) else Refused (if r = Grant_Never then DISABLED else DENIED))"
  define s4 where "s4 = settle digest p (settled_status r) d None s3"
  have s': "s' = (if r = Grant_Always \<or> r = Grant_Never then notePermissionChanged digest s4 else s4)"
    using assms(2) p unfolding s4_def s3_def s2_def d_def ok_def r_def s1_def
    by (cases initial) (auto simp: resolveRequest_def Let_def)
  have perm: "permission s1 \<noteq> Never \<or> initial = Grant_Never"
    using live live_choice [OF live] by (simp add: s1_def setPermission_def split: resolution.split)
  have s1: "core s1" "pendingByKey s1 = pendingByKey s" "approvalsById s1 = approvalsById s"
    using c by (simp_all add: s1_def setPermission_def consistent_def frame)
  have s2: "core s2" "pendingByKey s2 = pendingByKey s" "approvalsById s2 = approvalsById s" "permission s2 = permission s1"
    using answers_core [OF s1(1)] s1(2,3) by (simp_all add: s2_def)
  have "core (s2\<lparr>approvalsById := jm_set (approvalsById s2) rid (approval_of p)\<rparr>)" if ok
    using that by (intro approve_core s2(1)) (auto simp: s2_def ok_def approval_of_def granted_def p(2))
  then have s3: "core s3" "pendingByKey s3 = pendingByKey s" "permission s3 = permission s1" "answers s3 = answers s2"
    using s2 by (simp_all add: s3_def)
  have not_never: "permission s1 \<noteq> Never" if ok
    using perm that by (auto simp: ok_def r_def split: if_splits)
  have "fair (answers s3) (Some (ar_agentId (pe_request p))) d (permission s3)"
    using not_never by (auto simp: fair_def d_def s3(3,4) s2_def granted_def ok_def)
  then have s4: "core s4" using settle_core [OF s3(1), of k p] k s3(2) by (simp add: s4_def)
  show ?thesis
  proof (cases "r = Grant_Always \<or> r = Grant_Never")
    case True
    then show ?thesis using note_consistent [OF s4] s' by simp
  next
    case False
    then have "permission s1 \<noteq> Never" using perm by (auto simp: r_def)
    then show ?thesis using False s' s4 s3(3) by (simp add: consistent_def silent_def s4_def)
  qed
qed

lemma click_consistent: "consistent s \<Longrightarrow> consistent (snd (resolveLocalToolPermissionAsk digest saved a rid r s))"
  using resolve_consistent by (simp add: resolveLocalToolPermissionAsk_def split: option.split)

lemma count_mset_upt: "count (mset [0..<n]) w = (if w < n then 1 else 0)"
  using distinct_count_atmost_1 [of "[0..<n]"] by simp

lemma waiters_distinct:
  assumes "core s" "jm_get (pendingByKey s) k = Some p"
  shows "distinct (pe_waiters p)"
proof -
  have "mset (pe_waiters p) \<subseteq># waiting (pendingByKey s)"
    using waiting_delete [of "pendingByKey s" k p] assms by (simp add: core_def maps_ok_def)
  also have "\<dots> \<subseteq># mset [0..<next_waiter s]" using assms(1) unfolding core_def by (metis mset_subset_eq_add_right)
  finally have "\<And>w. count (mset (pe_waiters p)) w \<le> count (mset [0..<next_waiter s]) w" by (rule mset_subset_eq_count)
  moreover have "count (mset [0..<next_waiter s]) w \<le> 1" for w unfolding count_mset_upt by simp
  ultimately have "count (mset (pe_waiters p)) w \<le> 1" for w using le_trans by blast
  moreover have "0 < count (mset (pe_waiters p)) w" if "w \<in> set (pe_waiters p)" for w using that by simp
  ultimately have "count (mset (pe_waiters p)) w = (if w \<in> set (pe_waiters p) then 1 else 0)" for w
    by (cases "w \<in> set (pe_waiters p)") (auto simp: not_in_iff [symmetric] Suc_le_eq intro: le_antisym)
  then show ?thesis by (simp add: distinct_count_atmost_1)
qed

lemma set_remove_mset: "distinct xs \<Longrightarrow> x \<in> set xs \<Longrightarrow> add_mset x (mset (set_remove xs x)) = mset xs"
proof (induction xs)
  case (Cons y xs)
  have "set_remove xs x = xs" if "x \<notin> set xs" using that by (induction xs) (auto simp: set_remove_def)
  with Cons show ?case by (auto simp: set_remove_def simp del: mset_filter)
qed simp


lemma abort_consistent:
  assumes c: "consistent s"
  shows "consistent (abort_waiter digest w s)"
proof (cases "find (\<lambda>(k, p). w \<in> set (pe_waiters p)) (pendingByKey s)")
  case None
  then show ?thesis using c by (simp add: abort_waiter_def)
next
  case (Some kp)
  then obtain k p where kp: "kp = (k, p)" "(k, p) \<in> set (pendingByKey s)" "w \<in> set (pe_waiters p)"
    by (cases kp) (auto dest: find_SomeD)
  have core: "core s" and m: "maps_ok s" "jm_wf (pendingByKey s)" using c by (simp_all add: consistent_def core_def maps_ok_def)
  have k: "jm_get (pendingByKey s) k = Some p" using kp(2) m(2) by (simp add: jm_wf_def)
  let ?q = "p\<lparr>pe_waiters := set_remove (pe_waiters p) w\<rparr>"
  let ?s = "give w (Some (ar_agentId (pe_request p))) (Refused ASK_CANCELLED) (s\<lparr>pendingByKey := jm_set (pendingByKey s) k ?q\<rparr>)"
  have rest: "add_mset w (mset (pe_waiters ?q)) = mset (pe_waiters p)"
    using set_remove_mset [OF waiters_distinct [OF core k] kp(3)] by simp
  have "waiting (jm_set (pendingByKey s) k ?q) + mset (pe_waiters p) = waiting (pendingByKey s) + mset (pe_waiters ?q)"
    by (rule waiting_set [OF m(2) k])
  then have w: "add_mset w (waiting (jm_set (pendingByKey s) k ?q)) = waiting (pendingByKey s)"
    unfolding rest [symmetric] by simp
  have "maps_ok (s\<lparr>pendingByKey := jm_set (pendingByKey s) k ?q\<rparr>)" by (rule maps_ok_same [OF m(1) k]) simp
  then have mo: "maps_ok ?s" by (simp add: maps_ok_def give_def)
  have "mset (map gv_waiter (decisions s)) + waiting (pendingByKey s) = mset [0..<next_waiter s]" using core by (simp add: core_def)
  note mult = this [folded w]
  have "core ?s"
    using core mo mult unfolding core_def by (simp add: give_def)
  moreover have "silent ?s" using c k by (auto simp: consistent_def silent_def)
  moreover have q: "jm_get (pendingByKey ?s) k = Some ?q" by simp
  ultimately have "consistent ?s" "consistent (settle digest ?q Expired_Status (Refused ASK_CANCELLED) None ?s)"
    using settle_core [OF _ q] settle_silent [OF _ q] by (simp_all add: consistent_def)
  moreover have "consistent (if b then x else y)" if "consistent x" "consistent y" for b x y using that by simp
  ultimately show ?thesis unfolding abort_waiter_def Let_def Some kp(1) option.case prod.case by blast
qed

lemma set_permission_consistent: "consistent s \<Longrightarrow> consistent (notePermissionChanged digest (s\<lparr>choice := p\<rparr>))"
  by (rule note_consistent) (simp add: consistent_def frame)

lemma step_consistent: "consistent s \<Longrightarrow> fresh_event s e \<Longrightarrow> consistent (step digest s e)"
proof (cases e)
  case (Await_Desktop env a t c d ab)
  assume s: "consistent s" "fresh_event s e"
  have "consistent (give (next_waiter s) (Some a) x (s\<lparr>next_waiter := Suc (next_waiter s)\<rparr>))"
    if "fair (answers s) (Some a) x (permission s)" for x
    using give_core [of s "Some a" x] that s(1) by (simp add: consistent_def silent_def)
  then show ?thesis using s authorize_consistent [of s env _ _ digest] Await_Desktop
    by (simp add: awaitDesktopStandingDecision_def fair_def)
qed (simp_all add: authorize_consistent scope_consistent turn_consistent forget_consistent click_consistent
    abort_consistent expire_consistent set_permission_consistent)


subsection \<open>Runs\<close>

definition run :: "(ustr \<Rightarrow> ustr) \<Rightarrow> controller \<Rightarrow> event list \<Rightarrow> controller" where
  "run digest s es = foldl (step digest) s es"

fun fresh_run :: "(ustr \<Rightarrow> ustr) \<Rightarrow> controller \<Rightarrow> event list \<Rightarrow> bool" where
  "fresh_run digest s [] \<longleftrightarrow> True"
| "fresh_run digest s (e # es) \<longleftrightarrow> fresh_event s e \<and> fresh_run digest (step digest s e) es"

lemma permission_run_consistent: "consistent s \<Longrightarrow> fresh_run digest s es \<Longrightarrow> consistent (run digest s es)"
  by (induction es arbitrary: s) (simp_all add: run_def step_consistent)

lemma permission_run_Cons: "run digest s (e # es) = run digest (step digest s e) es"
  by (simp add: run_def)

subsection \<open>Refusals are kept\<close>

definition is_refused :: "(ustr \<Rightarrow> ustr) \<Rightarrow> ustr \<Rightarrow> action \<Rightarrow> ustr \<Rightarrow> int \<Rightarrow> controller \<Rightarrow> bool" where
  "is_refused digest agent act target e s \<longleftrightarrow>
     (\<exists>m. jm_get (saturatedDirections s) agent = Some m \<and> e \<le> m) \<or>
     (\<exists>d. jm_get (refusedActions s) (refusalKey digest agent act target) = Some (agent, d) \<and> e \<le> d)"

lemma is_refused_cong:
  "refusedActions t = refusedActions s \<Longrightarrow> saturatedDirections t = saturatedDirections s \<Longrightarrow>
   is_refused digest agent act target e t = is_refused digest agent act target e s"
  by (simp add: is_refused_def)

lemma refusalKey_agent:
  assumes "refusalKey digest a act t = refusalKey digest b act' t'" "0 \<notin> set a" "0 \<notin> set b"
  shows "a = b"
proof -
  have "takeWhile (\<lambda>u. u \<noteq> 0) (refusalKey digest x y z) = x" if "0 \<notin> set x" for x y z
    using that by (simp add: refusalKey_def takeWhile_append2)
      (induction x, simp_all)
  with assms show ?thesis by metis
qed

text \<open>A refusal that is dropped to make room closes its direction, and those before it.\<close>

lemma forget_refused:
  assumes "is_refused digest agent act target e s" "jm_get (refusedActions s) key = None \<or> jm_get (refusedActions s) key = Some r"
  shows "is_refused digest agent act target e (forget_refusal key r s)"
  using assms
  by (auto simp: is_refused_def forget_refusal_def noteRefusalForgotten_def split: prod.splits option.splits)

definition snapshot :: "(ustr \<times> ustr \<times> int) list \<Rightarrow> controller \<Rightarrow> bool" where
  "snapshot mine s \<longleftrightarrow> (\<forall>(k, r) \<in> set mine. jm_get (refusedActions s) k = None \<or> jm_get (refusedActions s) k = Some r)"

lemma forget_map: "refusedActions (forget_refusal key r s) = jm_delete (refusedActions s) key"
  by (simp add: forget_refusal_def noteRefusalForgotten_def split: prod.split option.split)

lemma snapshot_forget: "snapshot mine s \<Longrightarrow> snapshot mine (forget_refusal key r s)"
  unfolding snapshot_def forget_map by fastforce

lemma reclaim_old_refused:
  "is_refused digest agent act target e s \<Longrightarrow> snapshot mine s \<Longrightarrow> snapshot all s \<Longrightarrow>
   is_refused digest agent act target e (snd (reclaim_old c held mine s)) \<and> snapshot all (snd (reclaim_old c held mine s))"
proof (induction c held mine s rule: reclaim_old.induct)
  case (2 c held key refused mine s)
  have "snapshot mine s" "jm_get (refusedActions s) key = None \<or> jm_get (refusedActions s) key = Some refused"
    using 2(4) by (simp_all add: snapshot_def)
  with 2 show ?case by (simp add: forget_refused snapshot_forget)
qed simp

lemma reclaim_any_refused:
  "is_refused digest agent act target e s \<Longrightarrow> snapshot mine s \<Longrightarrow> is_refused digest agent act target e (snd (reclaim_any held mine s))"
proof (induction held mine s rule: reclaim_any.induct)
  case (2 held key refused mine s)
  have "snapshot mine s" "jm_get (refusedActions s) key = None \<or> jm_get (refusedActions s) key = Some refused"
    using 2(4) by (simp_all add: snapshot_def)
  with 2 show ?case by (simp add: forget_refused snapshot_forget)
qed simp

lemma reclaim_refused:
  assumes r: "is_refused digest agent act target e s" and wf: "jm_wf (refusedActions s)"
  shows "is_refused digest agent act target e (reclaimRefusedActions a s)"
proof -
  let ?mine = "filter (\<lambda>(k, a', e). a' = a) (refusedActions s)"
  have m: "snapshot ?mine s" using wf by (auto simp: snapshot_def jm_wf_def)
  obtain held' s' where old: "reclaim_old (directionEpoch s a) (length ?mine) ?mine s = (held', s')" by fastforce
  have "is_refused digest agent act target e s'" "snapshot ?mine s'"
    using reclaim_old_refused [OF r m m, of "directionEpoch s a" "length ?mine"] old by simp_all
  from reclaim_any_refused [OF this, of held'] r old show ?thesis
    by (simp add: reclaimRefusedActions_def Let_def)
qed


text \<open>
  The refusals of a set are remembered; the refusals are a map, and the agents of the requests that
  are pending have ids without the separator of the keys.
\<close>

type_synonym refusal = "ustr \<times> action \<times> ustr \<times> int"

definition remembered :: "(ustr \<Rightarrow> ustr) \<Rightarrow> refusal set \<Rightarrow> controller \<Rightarrow> bool" where
  "remembered digest W s \<longleftrightarrow>
     jm_wf (refusedActions s) \<and> (\<forall>(k, p) \<in> set (pendingByKey s). 0 \<notin> set (ar_agentId (pe_request p))) \<and>
     (\<forall>(agent, act, target, e) \<in> W. 0 \<notin> set agent \<and> is_refused digest agent act target e s)"

lemma remembered_frame:
  "refusedActions t = refusedActions s \<Longrightarrow> saturatedDirections t = saturatedDirections s \<Longrightarrow>
   set (pendingByKey t) \<subseteq> set (pendingByKey s) \<Longrightarrow> remembered digest W s \<Longrightarrow> remembered digest W t"
  using is_refused_cong [of t s] unfolding remembered_def by auto

lemma reclaim_wf: "jm_wf (refusedActions s) \<Longrightarrow> jm_wf (refusedActions (reclaimRefusedActions a s))"
proof -
  have old: "jm_wf (refusedActions s) \<Longrightarrow> jm_wf (refusedActions (snd (reclaim_old c held mine s)))" for c held mine s
    by (induction c held mine s rule: reclaim_old.induct) (simp_all add: forget_map jm_wf_delete)
  have any: "jm_wf (refusedActions s) \<Longrightarrow> jm_wf (refusedActions (snd (reclaim_any held mine s)))" for held mine s
    by (induction held mine s rule: reclaim_any.induct) (simp_all add: forget_map jm_wf_delete)
  assume "jm_wf (refusedActions s)"
  with any [OF old] show ?thesis by (auto simp: reclaimRefusedActions_def Let_def split: prod.split) (metis snd_conv)
qed

lemma remember_remembered:
  assumes r: "remembered digest W s" and p: "0 \<notin> set (ar_agentId (pe_request p))"
  shows "remembered digest W (rememberRefusedAction digest p s)"
proof -
  define b where "b = ar_agentId (pe_request p)"
  define key where "key = refusalKey digest b (ar_action (pe_request p)) (ar_target (pe_request p))"
  define e' where "e' = (case jm_get (refusedActions s) key of None \<Rightarrow> pe_directionEpoch p | Some (a, d) \<Rightarrow> max d (pe_directionEpoch p))"
  define t where "t = s\<lparr>refusedActions := jm_set (refusedActions s) key (b, e')\<rparr>"
  have eq: "rememberRefusedAction digest p s = reclaimRefusedActions b t"
    by (simp add: rememberRefusedAction_def Let_def b_def key_def e'_def t_def)
  have wf: "jm_wf (refusedActions t)" using r by (simp add: t_def remembered_def jm_wf_set)
  have "is_refused digest agent act target e t" if "is_refused digest agent act target e s" "0 \<notin> set agent" for agent act target e
  proof (cases "refusalKey digest agent act target = key")
    case True
    then have "agent = b" using refusalKey_agent that(2) p unfolding key_def b_def by blast
    with that(1) True show ?thesis by (auto simp: is_refused_def t_def e'_def)
  next
    case False
    with that(1) show ?thesis by (simp add: is_refused_def t_def)
  qed
  with r reclaim_refused [OF _ wf] reclaim_wf [OF wf] only_refusals_fields(3) [OF reclaim_only [of t b]]
  show ?thesis unfolding remembered_def eq by (auto simp: t_def)
qed

lemma remembered_fields [simp]:
  "remembered digest W (s\<lparr>decisions := ds\<rparr>) = remembered digest W s"
  "remembered digest W (s\<lparr>settledIds := si\<rparr>) = remembered digest W s"
  "remembered digest W (s\<lparr>pendingById := pi\<rparr>) = remembered digest W s"
  "remembered digest W (s\<lparr>approvalsById := ap\<rparr>) = remembered digest W s"
  "remembered digest W (s\<lparr>answers := an\<rparr>) = remembered digest W s"
  "remembered digest W (s\<lparr>choice := ch\<rparr>) = remembered digest W s"
  "remembered digest W (s\<lparr>next_waiter := nw\<rparr>) = remembered digest W s"
  "remembered digest W (s\<lparr>forgottenAgents := fa\<rparr>) = remembered digest W s"
  "remembered digest W (s\<lparr>directionEpochs := de\<rparr>) = remembered digest W s"
  "remembered digest W (s\<lparr>alwaysGrantedAtEpoch := ag\<rparr>) = remembered digest W s"
  "remembered digest W (s\<lparr>notedPermission := np\<rparr>) = remembered digest W s"
  "remembered digest W (give w a d s) = remembered digest W s"
  "remembered digest W (retireApproval aid s) = remembered digest W s"
  by (simp_all add: remembered_def is_refused_def give_def retireApproval_def)

lemma remembered_delete: "remembered digest W s \<Longrightarrow> remembered digest W (s\<lparr>pendingByKey := jm_delete (pendingByKey s) k\<rparr>)"
  by (rule remembered_frame) (auto simp: jm_delete_def)

lemma settle_remembered:
  assumes r: "remembered digest W s" and p: "0 \<notin> set (ar_agentId (pe_request p))"
  shows "remembered digest W (settle digest p st d rm s)"
  using r remembered_delete [OF r]
  by (auto simp: settle_def Let_def give_list intro!: remember_remembered p split: option.split)

lemma fold_remembered:
  assumes "remembered digest W s" "\<And>p. p \<in> set ps \<Longrightarrow> 0 \<notin> set (ar_agentId (pe_request p))"
    "\<And>p t. p \<in> set ps \<Longrightarrow> \<exists>st d rm. f t p = settle digest p st d rm t"
  shows "remembered digest W (foldl f s ps)"
  using assms
proof (induction ps arbitrary: s)
  case (Cons p ps)
  obtain st d rm where "f s p = settle digest p st d rm s" using Cons.prems(3) [of p s] by auto
  then have "remembered digest W (f s p)" using Cons.prems by (simp add: settle_remembered)
  with Cons show ?case by simp
qed simp

lemma retire_all_remembered [simp]: "remembered digest W (retire_all as s) = remembered digest W s"
  by (induction as arbitrary: s) (simp_all add: retire_all_def)

lemma pending_agent: "remembered digest W s \<Longrightarrow> jm_get (pendingByKey s) k = Some p \<Longrightarrow> 0 \<notin> set (ar_agentId (pe_request p))"
  using map_of_SomeD [of "pendingByKey s" k p] by (auto simp: remembered_def)

lemma pending_agents: "remembered digest W s \<Longrightarrow> (k, p) \<in> set (pendingByKey s) \<Longrightarrow> 0 \<notin> set (ar_agentId (pe_request p))"
  by (auto simp: remembered_def)

lemma turn_remembered: "remembered digest W s \<Longrightarrow> remembered digest W (beginTurn digest a s)"
  unfolding beginTurn_def Let_def by (rule fold_remembered) (auto dest: pending_agents)

lemma map_of_filter_Some: "map_of m k = Some v \<Longrightarrow> P (k, v) \<Longrightarrow> map_of (filter P m) k = Some v"
  by (induction m) (auto split: if_splits)

lemma forget_remembered:
  assumes "remembered digest W s" "\<And>agent act target e. (agent, act, target, e) \<in> W \<Longrightarrow> agent \<noteq> a"
  shows "remembered digest W (forgetAgent digest a s)"
proof -
  note t = turn_remembered [OF assms(1), of a]
  have "distinct (map fst (filter P m))" if "distinct (map fst m)" for P and m :: "(ustr, ustr \<times> int) js_map"
    using that by (rule distinct_map_filter)
  then show ?thesis using t assms(2)
    by (auto simp: remembered_def forgetAgent_def Let_def jm_wf_def is_refused_def split: prod.splits
      dest!: bspec intro!: map_of_filter_Some)
qed


text \<open>The refusals are kept while the permission does not go from never to ask.\<close>

definition clears :: "controller \<Rightarrow> controller \<Rightarrow> bool" where
  "clears s t \<longleftrightarrow> notedPermission s = Some Never \<and> permission t = Ask"

lemma note_permission [simp]: "permission (notePermissionChanged digest s) = permission s"
proof -
  have fold: "permission (foldl f s ps) = permission s" if "\<And>t p. permission (f t p) = permission t" for f :: "controller \<Rightarrow> pending \<Rightarrow> controller" and s ps
    by (induction ps arbitrary: s) (simp_all add: that)
  have "permission (noteStandingPermission p s) = permission s" for p
    by (simp add: noteStandingPermission_def Let_def permission_def)
  moreover have "permission (s\<lparr>refusedActions := R\<rparr>) = permission s" for s R by (simp add: permission_def)
  ultimately show ?thesis by (simp add: notePermissionChanged_def Let_def fold)
qed

lemma note_remembered:
  assumes r: "remembered digest W s" and k: "W \<noteq> {} \<Longrightarrow> \<not> clears s s"
  shows "remembered digest W (notePermissionChanged digest s)"
proof -
  define v where "v = noteStandingPermission (permission s) s"
  have v: "remembered digest W v" "pendingByKey v = pendingByKey s" using r by (simp_all add: v_def noteStandingPermission_def Let_def)
  have cleared: "remembered digest W (v\<lparr>refusedActions := []\<rparr>)" if "W = {}"
    using v(1) that by (simp add: remembered_def)
  define t where "t = (if permission s = Always then v else retire_all (map snd (approvalsById v)) v)"
  have t: "remembered digest W t" "pendingByKey t = pendingByKey s" using v by (simp_all add: t_def)
  have plain: "0 \<notin> set (ar_agentId (pe_request q))" if "q \<in> set (map snd (pendingByKey t))" for q
    using that by (auto dest: pending_agents [OF t(1)])
  have "\<exists>st d rm. (if permission s = Always \<and> isStalePending q u then settle digest q Expired_Status (Refused ABANDONED) None u
      else if permission s = Always then settle digest q Always_Status (Allowed None) None u
      else settle digest q Never_Status (Refused DISABLED) (Some False) u) = settle digest q st d rm u" for q u
    by (metis (full_types))
  note fold = fold_remembered [OF t(1) plain this]
  show ?thesis
    unfolding notePermissionChanged_def Let_def v_def [symmetric] t_def [symmetric]
    using v(1) cleared k fold [of "map snd (pendingByKey t)"] by (auto simp: clears_def)
qed

lemma jm_set_in: "(k', q) \<in> set (jm_set m k v) \<Longrightarrow> q = v \<or> (k', q) \<in> set m"
  by (induction m) (auto simp: jm_set_def split: if_splits)

lemma ask_remembered:
  "remembered digest W s \<Longrightarrow> 0 \<notin> set (sc_agentId sc) \<Longrightarrow> remembered digest W (ask env w sc t r s)"
proof -
  have join: "remembered digest W (join w key s)" if r: "remembered digest W s" for w key s
  proof (cases "jm_get (pendingByKey s) key")
    case (Some p)
    with pending_agent [OF r Some] r show ?thesis
      by (auto simp: join_def remembered_def is_refused_def dest!: jm_set_in)
  qed (simp add: join_def r)
  have new: "remembered digest W (s\<lparr>pendingByKey := jm_set (pendingByKey s) key p\<rparr>)"
    if "remembered digest W s" "0 \<notin> set (ar_agentId (pe_request p))" for s key p
    using that by (auto simp: remembered_def is_refused_def dest!: jm_set_in)
  assume "remembered digest W s" "0 \<notin> set (sc_agentId sc)"
  then show ?thesis
    by (auto simp: ask_def Let_def intro!: join new split: option.split) (simp_all add: new_pending_def)
qed

lemma authorize_remembered:
  "remembered digest W s \<Longrightarrow> (\<And>x. sc = Some x \<Longrightarrow> 0 \<notin> set (sc_agentId x)) \<Longrightarrow> remembered digest W (authorize digest env sc r s)"
  by (simp add: authorize_def Let_def ask_remembered split: option.split)


lemma pendingById_agent:
  "remembered digest W s \<Longrightarrow> getPendingRequestById rid s = Some p \<Longrightarrow> 0 \<notin> set (ar_agentId (pe_request p))"
  by (auto simp: getPendingRequestById_def pending_agent split: option.splits)

lemma setPermission_remembered [simp]: "remembered digest W (setPermission saved r s) = remembered digest W s"
  by (simp add: setPermission_def)

lemma resolve_remembered:
  assumes r: "remembered digest W s" and s': "resolveRequest digest saved rid initial s = Some s'" and k: "W \<noteq> {} \<Longrightarrow> \<not> clears s s'"
  shows "remembered digest W s'"
proof -
  from s' obtain p where p: "getPendingRequestById rid s = Some p" by (auto simp: resolveRequest_def split: option.splits)
  have noted: "notedPermission (setPermission saved ini s) = notedPermission s" for ini by (simp add: setPermission_def)
  have settled: "remembered digest W (settle digest p st d rm t)" if "remembered digest W t" for st d rm t
    using settle_remembered [OF that pendingById_agent [OF r p]] .
  have changed: "remembered digest W (notePermissionChanged digest (settle digest p st d rm t))"
    if "remembered digest W t" "notedPermission t = notedPermission s" "s' = notePermissionChanged digest (settle digest p st d rm t)" for st d rm t
    using settled [OF that(1)] k that(2,3) by (intro note_remembered) (auto simp: clears_def)
  show ?thesis using s' p r settled changed noted
    by (cases initial) (auto simp: resolveRequest_def Let_def split: if_splits)
qed

lemma abort_remembered:
  assumes r: "remembered digest W s"
  shows "remembered digest W (abort_waiter digest w s)"
proof (cases "find (\<lambda>(k, p). w \<in> set (pe_waiters p)) (pendingByKey s)")
  case (Some kp)
  obtain k p where kp: "kp = (k, p)" by (cases kp)
  have p: "0 \<notin> set (ar_agentId (pe_request p))" using find_SomeD [OF Some] pending_agents [OF r] kp by auto
  let ?q = "p\<lparr>pe_waiters := set_remove (pe_waiters p) w\<rparr>"
  have "remembered digest W (s\<lparr>pendingByKey := jm_set (pendingByKey s) k ?q\<rparr>)"
    using r p by (auto simp: remembered_def is_refused_def dest!: jm_set_in)
  then have g: "remembered digest W (give w a d (s\<lparr>pendingByKey := jm_set (pendingByKey s) k ?q\<rparr>))" for a d by simp
  have q: "0 \<notin> set (ar_agentId (pe_request ?q))" using p by simp
  have "remembered digest W (if b then x else y)" if "remembered digest W x" "remembered digest W y" for b x y using that by simp
  then show ?thesis unfolding abort_waiter_def Let_def Some kp option.case prod.case by (blast intro: g settle_remembered [OF g q])
qed (simp add: abort_waiter_def r)

fun plain_event :: "event \<Rightarrow> bool" where
  "plain_event (Authorize env (Some sc) r) \<longleftrightarrow> 0 \<notin> set (sc_agentId sc)"
| "plain_event (Await_Desktop env a t c d ab) \<longleftrightarrow> 0 \<notin> set a"
| "plain_event e \<longleftrightarrow> True"

lemma step_remembered:
  assumes r: "remembered digest W s" and e: "plain_event e"
    and k: "W \<noteq> {} \<Longrightarrow> \<not> clears s (step digest s e)"
    and f: "\<And>agent act target d. (agent, act, target, d) \<in> W \<Longrightarrow> e \<noteq> Forget_Agent agent"
  shows "remembered digest W (step digest s e)"
proof (cases e)
  case (Authorize env sc q)
  then show ?thesis using e by (cases sc) (auto intro!: authorize_remembered r)
next
  case (Await_Desktop env a t c d ab)
  then show ?thesis using e by (auto simp: awaitDesktopStandingDecision_def r intro!: authorize_remembered)
next
  case (Complete_Scope sc)
  then show ?thesis by (simp add: completeScope_def r split: option.split)
next
  case (Forget_Agent a)
  then show ?thesis using f by (auto intro!: forget_remembered r)
next
  case (Set_Permission p)
  have "remembered digest W (s\<lparr>choice := p\<rparr>)" using r by simp
  moreover have "\<not> clears (s\<lparr>choice := p\<rparr>) (s\<lparr>choice := p\<rparr>)" if "W \<noteq> {}" using k that Set_Permission by (simp add: clears_def)
  ultimately show ?thesis using Set_Permission by (simp add: note_remembered)
next
  case (Click saved a rid answer)
  then show ?thesis using k r resolve_remembered [OF r]
    by (auto simp: resolveLocalToolPermissionAsk_def split: option.splits)
next
  case (Expire rid)
  then show ?thesis using r pendingById_agent [OF r]
    by (auto simp: expire_def intro!: settle_remembered split: option.split)
qed (simp_all add: turn_remembered abort_remembered r)


lemma run_remembered_none:
  "remembered digest {} s \<Longrightarrow> list_all plain_event es \<Longrightarrow> remembered digest {} (run digest s es)"
proof (induction es arbitrary: s)
  case (Cons e es)
  then show ?case using step_remembered [of digest "{}" s e] by (simp add: permission_run_Cons)
qed (simp add: run_def)

text \<open>Events that keep the refusals of an agent.\<close>

fun kept :: "(ustr \<Rightarrow> ustr) \<Rightarrow> ustr \<Rightarrow> controller \<Rightarrow> event list \<Rightarrow> bool" where
  "kept digest agent s [] \<longleftrightarrow> True"
| "kept digest agent s (e # es) \<longleftrightarrow>
     plain_event e \<and> e \<noteq> Forget_Agent agent \<and> \<not> clears s (step digest s e) \<and> kept digest agent (step digest s e) es"

lemma run_remembered:
  "remembered digest {(agent, act, target, d)} s \<Longrightarrow> kept digest agent s es \<Longrightarrow>
   remembered digest {(agent, act, target, d)} (run digest s es)"
proof (induction es arbitrary: s)
  case (Cons e es)
  then have "remembered digest {(agent, act, target, d)} (step digest s e)" by (intro step_remembered) auto
  with Cons show ?case by (simp add: permission_run_Cons)
qed (simp add: run_def)

lemma remember_refuses:
  assumes "jm_wf (refusedActions s)"
  shows "is_refused digest (ar_agentId (pe_request p)) (ar_action (pe_request p)) (ar_target (pe_request p)) (pe_directionEpoch p)
    (rememberRefusedAction digest p s)"
  using assms by (auto simp: rememberRefusedAction_def Let_def intro!: reclaim_refused jm_wf_set split: option.split)
    (auto simp: is_refused_def split: option.split)

lemma settle_refuses:
  assumes "jm_wf (refusedActions s)" "st \<noteq> Allowed_Status" "st \<noteq> Always_Status"
  shows "is_refused digest (ar_agentId (pe_request p)) (ar_action (pe_request p)) (ar_target (pe_request p)) (pe_directionEpoch p)
    (settle digest p st d None s)"
proof -
  let ?R = "is_refused digest (ar_agentId (pe_request p)) (ar_action (pe_request p)) (ar_target (pe_request p)) (pe_directionEpoch p)"
  have frame: "?R (s\<lparr>settledIds := si, decisions := ds\<rparr>) = ?R s" for s si ds by (rule is_refused_cong) simp_all
  show ?thesis using assms
    by (auto simp: settle_def Let_def give_list frame intro!: remember_refuses split: option.split)
qed

lemma refused_answer:
  assumes "is_refused digest (sc_agentId sc) (rq_action r) (rq_target r) e s" "scopeEpoch s sc \<le> e"
  shows "\<exists>why. authorize digest env (Some sc) r s =
    give (next_waiter s) (Some (sc_agentId sc)) (Refused why) (s\<lparr>next_waiter := Suc (next_waiter s)\<rparr>)"
proof -
  have "\<exists>why. refusalFor digest sc r (s\<lparr>next_waiter := n\<rparr>) = Some why" for n
    using assms by (auto simp: refusalFor_def is_refused_def scopeEpoch_def directionEpoch_def Let_def split: option.splits)
  then obtain why where "refusalFor digest sc r (s\<lparr>next_waiter := Suc (next_waiter s)\<rparr>) = Some why" by blast
  then have "authorize digest env (Some sc) r s =
      give (next_waiter s) (Some (sc_agentId sc)) (Refused (if permission s = Never then DISABLED else why))
        (s\<lparr>next_waiter := Suc (next_waiter s)\<rparr>)" by (simp add: authorize_def Let_def)
  then show ?thesis by blast
qed


subsection \<open>What the controller promises\<close>

text \<open>
  Property C1. No call is allowed without consent. In every run in which a new request has an id of
  its own, every decision to allow is given while the permission is not never; it rests on the
  standing permission always, or on an approval whose id is that of a request of the same agent
  which the user answered with allow once or always.
\<close>

theorem every_permit_was_given:
  assumes "fresh_run digest (new_controller ch ce) es" "g \<in> set (decisions (run digest (new_controller ch ce) es))"
    "gv_decision g = Allowed via"
  shows "gv_permission g \<noteq> Never \<and>
    (case via of None \<Rightarrow> gv_permission g = Always
     | Some aid \<Rightarrow> \<exists>a. gv_agentId g = Some a \<and>
         ((a, aid, Allow_Once) \<in> set (answers (run digest (new_controller ch ce) es)) \<or>
          (a, aid, Grant_Always) \<in> set (answers (run digest (new_controller ch ce) es))))"
proof -
  have "core (run digest (new_controller ch ce) es)"
    using permission_run_consistent [OF new_consistent assms(1)] by (simp add: consistent_def)
  then have "fair (answers (run digest (new_controller ch ce) es)) (gv_agentId g) (gv_decision g) (gv_permission g)"
    using assms(2) unfolding core_def by blast
  with assms(3) show ?thesis by (cases via) (auto simp: fair_def granted_def split: option.splits)
qed

text \<open>
  Property C12. Every call is answered exactly once: the waiters that have a decision and the waiters
  of the requests that are pending are, counted with multiplicity, the calls made so far. While the
  permission is never, no request is pending and no approval is left.
\<close>

theorem one_decision_for_each_call:
  assumes "fresh_run digest (new_controller ch ce) es" "s = run digest (new_controller ch ce) es"
  shows "mset (map gv_waiter (decisions s)) + waiting (pendingByKey s) = mset [0..<next_waiter s] \<and>
    \<not> (permission s = Never \<and> (pendingByKey s \<noteq> [] \<or> approvalsById s \<noteq> []))"
  using permission_run_consistent [OF new_consistent assms(1)] assms(2)
  by (auto simp: consistent_def core_def silent_def)

lemma pending_by_id:
  assumes "consistent s" "getPendingRequestById rid s = Some p"
  shows "ar_id (pe_request p) = rid"
proof -
  obtain k where k: "jm_get (pendingById s) rid = Some k" "jm_get (pendingByKey s) k = Some p"
    using assms(2) by (auto simp: getPendingRequestById_def split: option.splits)
  with assms(1) show ?thesis unfolding consistent_def core_def maps_ok_def by (metis option.inject)
qed

text \<open>
  Property C9. A refusal stands until the agent is forgotten or the permission goes from never to
  ask. A request is denied by the user, or expires; through whatever else happens then, a call of
  \<^verbatim>\<open>authorize\<close> by the same agent for the same action on the same target is refused at once, if its
  scope is of the direction of the refused request or an earlier one. Making room in the memory of
  refusals does not reopen any of them. New requests get ids of their own, and the ids of agents
  have no NUL, which separates the parts of a key.
\<close>

theorem refused_stays_refused:
  assumes "fresh_run digest (new_controller ch ce) es" "list_all plain_event es" "s = run digest (new_controller ch ce) es"
    "getPendingRequestById rid s = Some p"
    "ev = Click saved (ar_agentId (pe_request p)) rid (Some Deny) \<or> ev = Expire rid"
    "kept digest (ar_agentId (pe_request p)) (step digest s ev) later" "t = run digest (step digest s ev) later"
    "sc_agentId sc = ar_agentId (pe_request p)" "rq_action r = ar_action (pe_request p)" "rq_target r = ar_target (pe_request p)"
    "scopeEpoch t sc \<le> pe_directionEpoch p"
  shows "\<exists>why. decisions (authorize digest env (Some sc) r t) =
    \<lparr>gv_waiter = next_waiter t, gv_agentId = Some (sc_agentId sc), gv_decision = Refused why, gv_permission = permission t\<rparr> # decisions t"
proof -
  have "remembered digest {} (new_controller ch ce)" by (simp add: remembered_def new_controller_def)
  then have rs: "remembered digest {} s" using assms(2,3) by (simp add: run_remembered_none)
  have id: "ar_id (pe_request p) = rid"
    using pending_by_id [OF permission_run_consistent [OF new_consistent assms(1)]] assms(3,4) by simp
  define W where "W = {(ar_agentId (pe_request p), ar_action (pe_request p), ar_target (pe_request p), pe_directionEpoch p)}"
  have "remembered digest W (settle digest p st d None u)"
    if "st \<noteq> Allowed_Status" "st \<noteq> Always_Status" "remembered digest {} u" for st d u
    using settle_refuses [of u st digest p d] settle_remembered [OF that(3) pendingById_agent [OF rs assms(4)], of st d None]
      pendingById_agent [OF rs assms(4)] that by (simp add: remembered_def W_def)
  then have "remembered digest W (step digest s ev)"
    using assms(4,5) id rs by (auto simp: resolveLocalToolPermissionAsk_def resolveRequest_def Let_def expire_def)
  from run_remembered [OF this [unfolded W_def] assms(6)] assms(7)
  have "is_refused digest (sc_agentId sc) (rq_action r) (rq_target r) (pe_directionEpoch p) t"
    using assms(8,9,10) by (simp add: remembered_def)
  from refused_answer [OF this assms(11), of env] show ?thesis by (auto simp: give_def permission_def)
qed

lemma join_decisions [simp]: "decisions (join w k s) = decisions s"
  by (simp add: join_def split: option.split)

lemma give_decision: "decisions (give w ag d u) = g # decisions s \<Longrightarrow> gv_decision g = d"
  by (auto simp: give_def)

lemma ask_permit:
  assumes dec: "decisions (ask env w sc t r s) = g # decisions s" "gv_decision g = Allowed (Some aid)"
  shows "\<exists>a. a \<in> set (map snd (approvalsById s)) \<and> ap_id a = aid \<and> ap_agentId a = sc_agentId sc \<and> localToolApprovalCovers a r"
proof (cases "find (\<lambda>a. (ap_toolCallId a = t \<or> ap_resourcePath a \<noteq> None) \<and> localToolApprovalCovers a r)
    (filter (\<lambda>a. ap_agentId a = sc_agentId sc) (map snd (approvalsById s)))")
  case (Some a)
  then have "gv_decision g = Allowed (Some (ap_id a))" using give_decision [of w "Some (sc_agentId sc)" _ _ g s] dec(1) by (simp add: ask_def)
  with Some dec(2) find_SomeD [OF Some] show ?thesis by auto
next
  case None
  have "gv_decision g \<noteq> Allowed (Some aid)"
    using dec(1) None by (auto simp: ask_def Let_def dest!: give_decision split: if_splits)
  with dec(2) show ?thesis by simp
qed

text \<open>
  Fact. A call that is allowed at once by an approval is covered by it: the approval is one
  of its own agent, and it is for the same action on the same target, or for the terminal the call
  attaches to.
\<close>

theorem permit_covers_the_call:
  assumes "fresh_run digest (new_controller ch ce) es" "s = run digest (new_controller ch ce) es"
    "decisions (authorize digest env sc r s) = g # decisions s" "gv_decision g = Allowed (Some aid)"
  shows "\<exists>x a. sc = Some x \<and> jm_get (approvalsById s) aid = Some a \<and> ap_agentId a = sc_agentId x \<and> localToolApprovalCovers a r"
proof -
  have core: "core s" using permission_run_consistent [OF new_consistent assms(1)] assms(2) by (simp add: consistent_def)
  let ?s = "s\<lparr>next_waiter := Suc (next_waiter s)\<rparr>"
  have attach: "localToolApprovalCovers a r \<and> a \<in> set (map snd (approvalsById s)) \<and> ap_agentId a = ag"
    if "findApprovalForResource ag (rq_attachToResourcePath r) ?s = Some a" for ag a
    using that by (auto simp: findApprovalForResource_def localToolApprovalCovers_def Let_def dest!: find_SomeD split: option.splits)
  have "\<exists>x a. sc = Some x \<and> a \<in> set (map snd (approvalsById s)) \<and> ap_id a = aid \<and> ap_agentId a = sc_agentId x \<and> localToolApprovalCovers a r"
  proof (cases "\<exists>x t. sc = Some x \<and> authorize digest env sc r s = ask env (next_waiter s) x t r ?s")
    case True
    then obtain x t where "sc = Some x" "decisions (ask env (next_waiter s) x t r ?s) = g # decisions ?s" using assms(3) by auto
    with ask_permit [OF this(2) assms(4)] show ?thesis by simp
  next
    case False
    then show ?thesis using assms(3,4) attach
      by (fastforce simp: authorize_def Let_def dest!: give_decision split: option.splits if_splits)
  qed
  then show ?thesis using approval_granted(2) [OF core] by blast
qed


subsection \<open>Examples\<close>

definition ex_env :: "ustr \<Rightarrow> surroundings" where
  "ex_env i = \<lparr>now = 0, randomId = i, canAsk = True, hasLiveComputer = True\<rparr>"

definition ex_scope :: scope where
  "ex_scope = \<lparr>sc_agentId = [97], sc_toolCallId = Some [116], sc_action = None, sc_directionEpoch = None\<rparr>"

definition ex_call :: request where "ex_call = plain_request Run_Command [108]"

lemmas permission_eval = ex_env_def ex_scope_def ex_call_def plain_request_def new_controller_def run_def authorize_def
  permission_def resolveSandLocalToolPermission_def permission_rank_def refusalFor_def scopeEpoch_def directionEpoch_def
  predatesStandingGrant_def ask_def join_def new_pending_def askKey_def jm_set_def jm_delete_def js_map
  resolveLocalToolPermissionAsk_def getPendingRequestById_def resolveRequest_def approval_of_def settle_def
  rememberRefusedAction_def reclaimRefusedActions_def refusalKey_def remember_bounded_def set_add_def give_def
  TARGET_MAX_CHARS_def SETTLED_ID_MEMORY_def REFUSED_ACTION_MEMORY_PER_AGENT_def trimmed_description_def
  normalizeResourcePath_def expire_def ascii_def localToolApprovalCovers_def Let_def

definition ex_asked :: controller where
  "ex_asked = run id (new_controller Ask None) [Authorize (ex_env [49]) (Some ex_scope) ex_call]"

lemma ex_asked_eq:
  "ex_asked = (new_controller Ask None)\<lparr>
     pendingByKey := [(askKey [97] [116] ex_call, (new_pending (ex_env [49]) ex_scope [116] ex_call (new_controller Ask None))\<lparr>pe_waiters := [0]\<rparr>)],
     pendingById := [([49], askKey [97] [116] ex_call)], next_waiter := Suc 0\<rparr>"
  by (simp add: ex_asked_def permission_eval)

lemma every_permit_was_given_witness:
  "\<exists>g. let s = run id (new_controller Ask None)
         [Authorize (ex_env [49]) (Some ex_scope) ex_call, Click True [97] [49] (Some Allow_Once)] in
     g \<in> set (decisions s) \<and> gv_decision g = Allowed (Some [49]) \<and> gv_permission g \<noteq> Never \<and>
     (\<exists>a. gv_agentId g = Some a \<and> ((a, [49], Allow_Once) \<in> set (answers s) \<or> (a, [49], Grant_Always) \<in> set (answers s)))"
proof -
  let ?es = "[Authorize (ex_env [49]) (Some ex_scope) ex_call, Click True [97] [49] (Some Allow_Once)]"
  let ?s = "run id (new_controller Ask None) ?es"
  let ?g = "\<lparr>gv_waiter = 0, gv_agentId = Some [97], gv_decision = Allowed (Some [49]), gv_permission = Ask\<rparr>"
  have g: "?g \<in> set (decisions ?s)" by (simp add: permission_eval)
  have "fresh_run id (new_controller Ask None) ?es" by (simp add: permission_eval)
  from every_permit_was_given [OF this g] g show ?thesis
    by (intro exI [of _ ?g]) (simp add: Let_def)
qed

lemma one_decision_for_each_call_witness:
  "mset (map gv_waiter (decisions ex_asked)) + waiting (pendingByKey ex_asked) = mset [0..<next_waiter ex_asked]"
proof -
  have "fresh_run id (new_controller Ask None) [Authorize (ex_env [49]) (Some ex_scope) ex_call]"
    by (simp add: permission_eval)
  from one_decision_for_each_call [OF this ex_asked_def] show ?thesis by blast
qed


lemma refused_stays_refused_witness:
  "\<exists>why t. t = run id (step id ex_asked (Expire [49])) [Complete_Scope None, Set_Permission Never, Set_Permission Always] \<and>
     decisions (authorize id (ex_env [50]) (Some ex_scope) ex_call t) =
       \<lparr>gv_waiter = next_waiter t, gv_agentId = Some [97], gv_decision = Refused why, gv_permission = permission t\<rparr> # decisions t"
proof -
  let ?es = "[Authorize (ex_env [49]) (Some ex_scope) ex_call]"
  let ?later = "[Complete_Scope None, Set_Permission Never, Set_Permission Always]"
  let ?p = "(new_pending (ex_env [49]) ex_scope [116] ex_call (new_controller Ask None))\<lparr>pe_waiters := [0]\<rparr>"
  have 1: "fresh_run id (new_controller Ask None) ?es" by (simp add: permission_eval)
  have 2: "list_all plain_event ?es" by (simp add: permission_eval)
  have 3: "getPendingRequestById [49] ex_asked = Some ?p" by (simp add: ex_asked_eq getPendingRequestById_def)
  have 4: "Expire [49] = Click True (ar_agentId (pe_request ?p)) [49] (Some Deny) \<or> Expire [49] = Expire [49]" by simp
  have 5: "kept id (ar_agentId (pe_request ?p)) (step id ex_asked (Expire [49])) ?later"
    by (simp add: ex_asked_eq permission_eval clears_def completeScope_def notePermissionChanged_def noteStandingPermission_def retire_all_def)
  have 6: "scopeEpoch (run id (step id ex_asked (Expire [49])) ?later) ex_scope \<le> pe_directionEpoch ?p"
    by (simp add: ex_asked_eq permission_eval clears_def completeScope_def notePermissionChanged_def noteStandingPermission_def retire_all_def)
  have 7: "sc_agentId ex_scope = ar_agentId (pe_request ?p)" "rq_action ex_call = ar_action (pe_request ?p)"
    "rq_target ex_call = ar_target (pe_request ?p)" by (simp_all add: new_pending_def)
  from refused_stays_refused [OF 1 2 ex_asked_def 3 4 5 refl 7 6, of "ex_env [50]"] show ?thesis by (simp add: ex_scope_def)
qed

lemma permit_covers_the_call_witness:
  "\<exists>x a. Some ex_scope = Some x \<and> ap_agentId a = sc_agentId x \<and> localToolApprovalCovers a ex_call"
proof -
  let ?es = "[Authorize (ex_env [49]) (Some ex_scope) ex_call, Click True [97] [49] (Some Allow_Once)]"
  let ?s = "run id (new_controller Ask None) ?es"
  let ?g = "\<lparr>gv_waiter = 1, gv_agentId = Some [97], gv_decision = Allowed (Some [49]), gv_permission = Ask\<rparr>"
  have 1: "fresh_run id (new_controller Ask None) ?es" by (simp add: permission_eval)
  have 2: "decisions (authorize id (ex_env [50]) (Some ex_scope) ex_call ?s) = ?g # decisions ?s" by (simp add: permission_eval)
  from permit_covers_the_call [OF 1 refl 2, of "[49]"] show ?thesis by auto
qed

end
