(* ===== verification/Media_Dimensions.thy ===== *)
theory Media_Dimensions
  imports Js_Prelude "HOL-Library.Word" "HOL-Library.Monad_Syntax"
begin

unbundle bit_operations_syntax

text \<open>
  The size of an image or a film, read from the bytes of its file:
  \<^verbatim>\<open>shared/media/image-dimensions.ts\<close> (WebP, HEIC, PNG, GIF, JPEG) and
  \<^verbatim>\<open>shared/media/video-dimensions.ts\<close> (MP4).

  A buffer is a list of bytes. Reading past its end gives \<^verbatim>\<open>undefined\<close>, which the bit operators
  of JavaScript take as zero; the definitions take the byte that stands for it as a parameter
  \<open>d\<close>, so that it can be shown that such a byte never has a say. The bit operators work on 32 bits:
  what they give is a \<open>32 word\<close>, read as an unsigned number, which is what \<^verbatim>\<open>>>> 0\<close> does; the other
  results have no sign bit. The tests for finite numbers always hold of these.
\<close>

type_synonym bytes = "8 word list"

record dimensions =
  width :: nat
  height :: nat

definition toImageDimensions :: "nat \<Rightarrow> nat \<Rightarrow> dimensions option" where
  "toImageDimensions w h = (if w = 0 \<or> h = 0 then None else Some \<lparr>width = w, height = h\<rparr>)"

definition byte_at :: "8 word \<Rightarrow> bytes \<Rightarrow> nat \<Rightarrow> 8 word" where
  "byte_at d b i = (if i < length b then b ! i else d)"

abbreviation wide :: "8 word \<Rightarrow> 32 word" where "wide x \<equiv> ucast x"

definition readU16BE :: "8 word \<Rightarrow> bytes \<Rightarrow> nat \<Rightarrow> 32 word" where
  "readU16BE d b i = push_bit 8 (wide (byte_at d b i)) OR wide (byte_at d b (i + 1))"

definition readU32BE :: "8 word \<Rightarrow> bytes \<Rightarrow> nat \<Rightarrow> 32 word" where
  "readU32BE d b i = push_bit 24 (wide (byte_at d b i)) OR push_bit 16 (wide (byte_at d b (i + 1))) OR
     push_bit 8 (wide (byte_at d b (i + 2))) OR wide (byte_at d b (i + 3))"

definition readU16LE :: "8 word \<Rightarrow> bytes \<Rightarrow> nat \<Rightarrow> 32 word" where
  "readU16LE d b i = wide (byte_at d b i) OR push_bit 8 (wide (byte_at d b (i + 1)))"

definition readU24LE :: "8 word \<Rightarrow> bytes \<Rightarrow> nat \<Rightarrow> 32 word" where
  "readU24LE d b i = wide (byte_at d b i) OR push_bit 8 (wide (byte_at d b (i + 1))) OR push_bit 16 (wide (byte_at d b (i + 2)))"

definition readU32LE :: "8 word \<Rightarrow> bytes \<Rightarrow> nat \<Rightarrow> 32 word" where
  "readU32LE d b i = wide (byte_at d b i) OR push_bit 8 (wide (byte_at d b (i + 1))) OR
     push_bit 16 (wide (byte_at d b (i + 2))) OR push_bit 24 (wide (byte_at d b (i + 3)))"

text \<open>Tags are ASCII, four characters.\<close>

definition tag :: "string \<Rightarrow> bytes" where "tag s = map of_char s"

definition fourCharTag :: "8 word \<Rightarrow> bytes \<Rightarrow> nat \<Rightarrow> bytes" where
  "fourCharTag d b i = [byte_at d b i, byte_at d b (i + 1), byte_at d b (i + 2), byte_at d b (i + 3)]"

definition indexOfFourCharTag :: "8 word \<Rightarrow> bytes \<Rightarrow> bytes \<Rightarrow> nat option" where
  "indexOfFourCharTag d b t = find (\<lambda>i. fourCharTag d b i = t) [0..<length b - 3]"

subsection \<open>HEIC\<close>

record iso_box =
  bx_type :: bytes
  bx_body :: nat
  bx_end :: nat

text \<open>The header of the box at an offset: its size and the length of its header, when they fit.\<close>

definition box_size :: "8 word \<Rightarrow> bytes \<Rightarrow> nat \<Rightarrow> nat \<Rightarrow> (nat \<times> nat) option" where
  "box_size d b offset limit =
     (let sz = unat (readU32BE d b offset) in
      if sz = 1 then if limit < offset + 16 then None else Some (unat (readU32BE d b (offset + 12)), 16)
      else if sz = 0 then Some (limit - offset, 8) else Some (sz, 8))"

lemma box_size_header: "box_size d b offset limit = Some (n, h) \<Longrightarrow> h = 8 \<or> h = 16"
  by (auto simp: box_size_def Let_def split: if_splits)

function boxes :: "8 word \<Rightarrow> bytes \<Rightarrow> nat \<Rightarrow> nat \<Rightarrow> iso_box list" where
  "boxes d b offset limit =
     (if limit < offset + 8 then []
      else case box_size d b offset limit of None \<Rightarrow> []
        | Some (sz, hdr) \<Rightarrow>
            if sz < hdr \<or> limit < offset + sz then []
            else \<lparr>bx_type = fourCharTag d b (offset + 4), bx_body = offset + hdr, bx_end = offset + sz\<rparr> #
                 boxes d b (offset + sz) limit)"
  by pat_completeness auto
termination
  by (relation "measure (\<lambda>(d, b, offset, limit). limit - offset)") (auto dest: box_size_header)

definition find_box :: "bytes \<Rightarrow> iso_box list \<Rightarrow> iso_box option" where
  "find_box t bs = find (\<lambda>x. bx_type x = t) bs"

definition primaryItemId :: "8 word \<Rightarrow> bytes \<Rightarrow> iso_box \<Rightarrow> nat option" where
  "primaryItemId d b pitm =
     (if bx_end pitm < bx_body pitm + 6 then None
      else let start = bx_body pitm + 4 in
        if byte_at d b (bx_body pitm) = 0 then Some (unat (readU16BE d b start))
        else if bx_end pitm < start + 4 then None else Some (unat (readU32BE d b start)))"

text \<open>The indices of one entry, and the offset after them.\<close>

fun associations :: "8 word \<Rightarrow> bytes \<Rightarrow> bool \<Rightarrow> nat \<Rightarrow> nat \<Rightarrow> nat \<Rightarrow> nat list \<Rightarrow> (nat list \<times> nat) option" where
  "associations d b indexIs16 limit 0 offset indices = Some (rev indices, offset)"
| "associations d b indexIs16 limit (Suc n) offset indices =
     (if indexIs16
      then if limit < offset + 2 then None
           else associations d b indexIs16 limit n (offset + 2) (unat (readU16BE d b offset AND 32767) # indices)
      else if limit < offset + 1 then None
           else associations d b indexIs16 limit n (offset + 1) (unat (wide (byte_at d b offset) AND 127) # indices))"

function item_entries :: "8 word \<Rightarrow> bytes \<Rightarrow> nat \<Rightarrow> bool \<Rightarrow> nat \<Rightarrow> nat \<Rightarrow> nat \<Rightarrow> nat \<Rightarrow> nat list option" where
  "item_entries d b idBytes indexIs16 itemId limit n offset =
     (if n = 0 \<or> limit < offset + idBytes + 1 then None
      else let ident = unat (if idBytes = 4 then readU32BE d b offset else readU16BE d b offset);
               offset = offset + idBytes
        in case associations d b indexIs16 limit (unat (byte_at d b offset)) (offset + 1) [] of None \<Rightarrow> None
           | Some (indices, offset) \<Rightarrow>
               if ident = itemId then Some indices else item_entries d b idBytes indexIs16 itemId limit (n - 1) offset)"
  by pat_completeness auto
termination
  by (relation "measure (\<lambda>(d, b, idBytes, indexIs16, itemId, limit, n, offset). n)") auto

definition itemPropertyIndices :: "8 word \<Rightarrow> bytes \<Rightarrow> iso_box \<Rightarrow> nat \<Rightarrow> nat list option" where
  "itemPropertyIndices d b ipma itemId =
     (let offset = bx_body ipma in
      if bx_end ipma < offset + 8 then None
      else let version = byte_at d b offset;
               flags = push_bit 16 (wide (byte_at d b (offset + 1))) OR push_bit 8 (wide (byte_at d b (offset + 2))) OR
                       wide (byte_at d b (offset + 3))
        in item_entries d b (if 1 \<le> version then 4 else 2) (flags AND 1 = 1) itemId (bx_end ipma)
             (unat (readU32BE d b (offset + 4))) (offset + 8))"

text \<open>The first image size among the properties of the item, and the last rotation.\<close>

fun select_properties :: "8 word \<Rightarrow> bytes \<Rightarrow> iso_box list \<Rightarrow> nat list \<Rightarrow> nat option \<times> nat \<Rightarrow> nat option \<times> nat" where
  "select_properties d b properties [] (ispe, turns) = (ispe, turns)"
| "select_properties d b properties (i # indices) (ispe, turns) =
     (if i = 0 \<or> length properties < i then select_properties d b properties indices (ispe, turns)
      else let p = properties ! (i - 1) in
        if bx_type p = tag ''ispe'' \<and> ispe = None \<and> bx_body p + 12 \<le> bx_end p
        then select_properties d b properties indices (Some (bx_body p + 4), turns)
        else if bx_type p = tag ''irot'' \<and> bx_body p < bx_end p
        then select_properties d b properties indices (ispe, unat (byte_at d b (bx_body p) AND 3))
        else select_properties d b properties indices (ispe, turns))"

definition fallback :: "8 word \<Rightarrow> bytes \<Rightarrow> (nat \<times> nat) option" where
  "fallback d b =
     (case indexOfFourCharTag d b (tag ''ispe'') of None \<Rightarrow> None
      | Some i \<Rightarrow>
          if length b < i + 16 then None
          else Some (i + 8,
            case indexOfFourCharTag d b (tag ''irot'') of None \<Rightarrow> 0
            | Some r \<Rightarrow> if r + 4 < length b then unat (byte_at d b (r + 4) AND 3) else 0))"

text \<open>What the boxes say of the primary item; every way out of it is to the fallback.\<close>

definition primary_properties :: "8 word \<Rightarrow> bytes \<Rightarrow> (nat \<times> nat) option" where
  "primary_properties d b = do {
     meta \<leftarrow> find_box (tag ''meta'') (boxes d b 0 (length b));
     let metaBoxes = boxes d b (bx_body meta + 4) (bx_end meta);
     pitm \<leftarrow> find_box (tag ''pitm'') metaBoxes;
     iprp \<leftarrow> find_box (tag ''iprp'') metaBoxes;
     let iprpBoxes = boxes d b (bx_body iprp) (bx_end iprp);
     ipco \<leftarrow> find_box (tag ''ipco'') iprpBoxes;
     ipma \<leftarrow> find_box (tag ''ipma'') iprpBoxes;
     let properties = boxes d b (bx_body ipco) (bx_end ipco);
     primaryId \<leftarrow> primaryItemId d b pitm;
     indices \<leftarrow> itemPropertyIndices d b ipma primaryId;
     let (ispe, turns) = select_properties d b properties indices (None, 0);
     ispeBody \<leftarrow> ispe;
     Some (ispeBody, turns)
   }"

definition selectPrimary :: "8 word \<Rightarrow> bytes \<Rightarrow> (nat \<times> nat) option" where
  "selectPrimary d b = (case primary_properties d b of None \<Rightarrow> fallback d b | Some r \<Rightarrow> Some r)"

definition readHeicDimensions :: "8 word \<Rightarrow> bytes \<Rightarrow> dimensions option" where
  "readHeicDimensions d b =
     (if length b < 12 \<or> fourCharTag d b 4 \<noteq> tag ''ftyp'' then None
      else case selectPrimary d b of None \<Rightarrow> None
        | Some (ispe, turns) \<Rightarrow>
            (let w = unat (readU32BE d b ispe); h = unat (readU32BE d b (ispe + 4)) in
             if turns = 1 \<or> turns = 3 then toImageDimensions h w else toImageDimensions w h))"

subsection \<open>WebP, PNG, GIF and JPEG\<close>

definition readWebpDimensions :: "8 word \<Rightarrow> bytes \<Rightarrow> dimensions option" where
  "readWebpDimensions d b =
     (if length b < 30 then None
      else if fourCharTag d b 0 \<noteq> tag ''RIFF'' \<or> fourCharTag d b 8 \<noteq> tag ''WEBP'' then None
      else let t = fourCharTag d b 12 in
        if t = tag ''VP8 '' then toImageDimensions (unat (readU16LE d b 26 AND 16383)) (unat (readU16LE d b 28 AND 16383))
        else if t = tag ''VP8L'' then
          (let packed = readU32LE d b 21
           in toImageDimensions (unat (packed AND 16383) + 1) (unat (drop_bit 14 packed AND 16383) + 1))
        else if t = tag ''VP8X'' then toImageDimensions (unat (readU24LE d b 24) + 1) (unat (readU24LE d b 27) + 1)
        else None)"

definition readWebpOrHeicDimensions :: "8 word \<Rightarrow> bytes \<Rightarrow> dimensions option" where
  "readWebpOrHeicDimensions d b = (case readWebpDimensions d b of None \<Rightarrow> readHeicDimensions d b | Some r \<Rightarrow> Some r)"

definition PNG_SIGNATURE :: bytes where "PNG_SIGNATURE = [137, 80, 78, 71, 13, 10, 26, 10]"

definition readPngDimensions :: "8 word \<Rightarrow> bytes \<Rightarrow> dimensions option" where
  "readPngDimensions d b =
     (if length b < 24 \<or> take 8 b \<noteq> PNG_SIGNATURE then None
      else if fourCharTag d b 12 \<noteq> tag ''IHDR'' then None
      else toImageDimensions (unat (readU32BE d b 16)) (unat (readU32BE d b 20)))"

definition readGifDimensions :: "8 word \<Rightarrow> bytes \<Rightarrow> dimensions option" where
  "readGifDimensions d b =
     (if length b < 10 then None
      else if take 6 b \<noteq> tag ''GIF87a'' \<and> take 6 b \<noteq> tag ''GIF89a'' then None
      else toImageDimensions (unat (readU16LE d b 6)) (unat (readU16LE d b 8)))"

definition JPEG_SEGMENTLESS_MARKERS :: "8 word list" where
  "JPEG_SEGMENTLESS_MARKERS = [1, 208, 209, 210, 211, 212, 213, 214, 215, 216, 217]"

definition JPEG_NON_FRAME_MARKERS :: "8 word list" where "JPEG_NON_FRAME_MARKERS = [196, 200, 204]"

function jpeg_loop :: "8 word \<Rightarrow> bytes \<Rightarrow> nat \<Rightarrow> dimensions option" where
  "jpeg_loop d b offset =
     (if length b \<le> offset + 3 then None
      else if byte_at d b offset \<noteq> 255 then jpeg_loop d b (offset + 1)
      else let marker = byte_at d b (offset + 1) in
        if marker = 255 then jpeg_loop d b (offset + 1)
        else if marker \<in> set JPEG_SEGMENTLESS_MARKERS then jpeg_loop d b (offset + 2)
        else if marker = 218 then None
        else let segmentLength = unat (readU16BE d b (offset + 2)) in
          if segmentLength < 2 then None
          else if 192 \<le> marker \<and> marker \<le> 207 \<and> marker \<notin> set JPEG_NON_FRAME_MARKERS
          then if length b < offset + 9 then None
               else toImageDimensions (unat (readU16BE d b (offset + 7))) (unat (readU16BE d b (offset + 5)))
          else jpeg_loop d b (offset + 2 + segmentLength))"
  by pat_completeness auto
termination
  by (relation "measure (\<lambda>(d, b, offset). length b - offset)") auto

definition readJpegDimensions :: "8 word \<Rightarrow> bytes \<Rightarrow> dimensions option" where
  "readJpegDimensions d b =
     (if length b < 4 \<or> byte_at d b 0 \<noteq> 255 \<or> byte_at d b 1 \<noteq> 216 then None else jpeg_loop d b 2)"

definition readImageFileDimensions :: "8 word \<Rightarrow> bytes \<Rightarrow> dimensions option" where
  "readImageFileDimensions d b =
     (case readWebpOrHeicDimensions d b of Some r \<Rightarrow> Some r
      | None \<Rightarrow> (case readPngDimensions d b of Some r \<Rightarrow> Some r
        | None \<Rightarrow> (case readGifDimensions d b of Some r \<Rightarrow> Some r | None \<Rightarrow> readJpegDimensions d b)))"


subsection \<open>MP4\<close>

record byte_range =
  br_start :: nat
  br_end :: nat

definition indexOfTag :: "8 word \<Rightarrow> bytes \<Rightarrow> bytes \<Rightarrow> nat \<Rightarrow> nat option" where
  "indexOfTag d b t start = find (\<lambda>i. fourCharTag d b i = t) [max start 4..<length b - 3]"

text \<open>The body of the box at an offset, cut at the limit, and the offset after the box.\<close>

definition clampedBoxAt :: "8 word \<Rightarrow> bytes \<Rightarrow> nat \<Rightarrow> nat \<Rightarrow> (byte_range \<times> nat) option" where
  "clampedBoxAt d b offset limit =
     (if limit < offset + 8 then None
      else case box_size d b offset limit of None \<Rightarrow> None
        | Some (sz, hdr) \<Rightarrow>
            if sz < hdr then None
            else Some (\<lparr>br_start = offset + hdr, br_end = min (offset + sz) limit\<rparr>, offset + sz))"

lemma clampedBoxAt_next: "clampedBoxAt d b offset limit = Some (r, n) \<Longrightarrow> offset + 8 \<le> n \<and> br_end r = min n limit \<and> offset + 8 \<le> br_start r"
  using box_size_header [of d b offset limit] by (auto simp: clampedBoxAt_def split: if_splits option.splits)

function childBoxes :: "8 word \<Rightarrow> bytes \<Rightarrow> nat \<Rightarrow> nat \<Rightarrow> bytes \<Rightarrow> byte_range list" where
  "childBoxes d b offset limit t =
     (if limit < offset + 8 then []
      else case clampedBoxAt d b offset limit of None \<Rightarrow> []
        | Some (body, n) \<Rightarrow>
            (if fourCharTag d b (offset + 4) = t then [body] else []) @
            (if limit < n then [] else childBoxes d b n limit t))"
  by pat_completeness auto
termination
  by (relation "measure (\<lambda>(d, b, offset, limit, t). limit - offset)") (auto dest: clampedBoxAt_next)

definition read16Dot16 :: "8 word \<Rightarrow> bytes \<Rightarrow> nat \<Rightarrow> nat" where
  "read16Dot16 d b offset = unat (drop_bit 16 (readU32BE d b offset))"

definition matrixIsQuarterTurn :: "8 word \<Rightarrow> bytes \<Rightarrow> nat \<Rightarrow> bool" where
  "matrixIsQuarterTurn d b i \<longleftrightarrow>
     readU32BE d b i = 0 \<and> readU32BE d b (i + 16) = 0 \<and> readU32BE d b (i + 4) \<noteq> 0 \<and> readU32BE d b (i + 12) \<noteq> 0"

definition readTkhd :: "8 word \<Rightarrow> bytes \<Rightarrow> byte_range \<Rightarrow> dimensions option" where
  "readTkhd d b box =
     (if br_end box \<le> br_start box then None
      else let matrixAt = br_start box + 40 + (if byte_at d b (br_start box) = 1 then 12 else 0);
               widthAt = matrixAt + 36
        in if br_end box < widthAt + 8 then None
           else let w = read16Dot16 d b widthAt; h = read16Dot16 d b (widthAt + 4)
             in if matrixIsQuarterTurn d b matrixAt then toImageDimensions h w else toImageDimensions w h)"

text \<open>The first value that is there: the loops of the source that return from inside.\<close>

fun first_some :: "('a \<Rightarrow> 'b option) \<Rightarrow> 'a list \<Rightarrow> 'b option" where
  "first_some f [] = None"
| "first_some f (x # xs) = (case f x of None \<Rightarrow> first_some f xs | Some y \<Rightarrow> Some y)"

definition readMoov :: "8 word \<Rightarrow> bytes \<Rightarrow> nat \<Rightarrow> dimensions option" where
  "readMoov d b moovTag =
     (case clampedBoxAt d b (moovTag - 4) (length b) of None \<Rightarrow> None
      | Some (body, n) \<Rightarrow>
          first_some (\<lambda>trak. first_some (readTkhd d b) (childBoxes d b (br_start trak) (br_end trak) (tag ''tkhd'')))
            (childBoxes d b (br_start body) (br_end body) (tag ''trak'')))"

lemma indexOfTag_bounds: "indexOfTag d b t start = Some i \<Longrightarrow> start \<le> i \<and> 4 \<le> i \<and> i + 4 \<le> length b"
  by (auto simp: indexOfTag_def dest!: find_SomeD)

function readMp4Dimensions :: "8 word \<Rightarrow> bytes \<Rightarrow> nat \<Rightarrow> dimensions option" where
  "readMp4Dimensions d b searchFrom =
     (if length b < searchFrom + 4 then None
      else case indexOfTag d b (tag ''moov'') searchFrom of None \<Rightarrow> None
        | Some moovTag \<Rightarrow>
            (case readMoov d b moovTag of Some r \<Rightarrow> Some r | None \<Rightarrow> readMp4Dimensions d b (moovTag + 4)))"
  by pat_completeness auto
termination
  by (relation "measure (\<lambda>(d, b, searchFrom). length b - searchFrom)") (auto dest: indexOfTag_bounds)

declare boxes.simps [simp del] item_entries.simps [simp del] jpeg_loop.simps [simp del]
  childBoxes.simps [simp del] readMp4Dimensions.simps [simp del]

subsection \<open>No byte is read past the end\<close>

lemma byte_at_in [simp]: "i < length b \<Longrightarrow> byte_at d b i = b ! i"
  by (simp add: byte_at_def)

text \<open>Inside the buffer the byte that stands for an absent one is not seen.\<close>

lemma reads_inside:
  "i + 1 < length b \<Longrightarrow> readU16BE d b i = readU16BE e b i"
  "i + 1 < length b \<Longrightarrow> readU16LE d b i = readU16LE e b i"
  "i + 2 < length b \<Longrightarrow> readU24LE d b i = readU24LE e b i"
  "i + 3 < length b \<Longrightarrow> readU32BE d b i = readU32BE e b i"
  "i + 3 < length b \<Longrightarrow> readU32LE d b i = readU32LE e b i"
  "i + 3 < length b \<Longrightarrow> fourCharTag d b i = fourCharTag e b i"
  by (simp_all add: readU16BE_def readU16LE_def readU24LE_def readU32BE_def readU32LE_def fourCharTag_def)

lemma byte_inside: "i < length b \<Longrightarrow> byte_at d b i = byte_at e b i"
  by simp

lemma find_cong_on: "(\<And>x. x \<in> set xs \<Longrightarrow> P x = Q x) \<Longrightarrow> find P xs = find Q xs"
  by (induction xs) auto

lemma index_inside: "indexOfFourCharTag d b t = indexOfFourCharTag e b t"
  unfolding indexOfFourCharTag_def by (rule find_cong_on) (simp add: reads_inside(6) [of _ b d e])

lemma index_tag_inside: "indexOfTag d b t k = indexOfTag e b t k"
  unfolding indexOfTag_def
proof (rule find_cong_on)
  fix i assume "i \<in> set [max k 4..<length b - 3]"
  then have "i + 3 < length b" by auto
  then show "(fourCharTag d b i = t) = (fourCharTag e b i = t)" using reads_inside(6) [of i b d e] by simp
qed

lemma box_size_inside: "limit \<le> length b \<Longrightarrow> offset + 8 \<le> limit \<Longrightarrow> box_size d b offset limit = box_size e b offset limit"
  by (simp add: box_size_def Let_def reads_inside(4) [of _ b d e])

lemma boxes_inside: "limit \<le> length b \<Longrightarrow> boxes d b offset limit = boxes e b offset limit"
proof (induction d b offset limit rule: boxes.induct)
  case (1 d b offset limit)
  show ?case
  proof (cases "limit < offset + 8")
    case False
    then have s: "box_size d b offset limit = box_size e b offset limit" and t: "fourCharTag d b (offset + 4) = fourCharTag e b (offset + 4)"
      using 1(2) box_size_inside [of limit b offset d e] reads_inside(6) [of "offset + 4" b d e] by simp_all
    show ?thesis unfolding boxes.simps [of d b offset limit] boxes.simps [of e b offset limit] s t
      using 1 False s by (auto split: option.split)
  qed (simp add: boxes.simps)
qed

lemma boxes_within: "x \<in> set (boxes d b offset limit) \<Longrightarrow> offset \<le> bx_body x \<and> bx_body x \<le> bx_end x \<and> bx_end x \<le> limit"
proof (induction d b offset limit rule: boxes.induct)
  case (1 d b offset limit)
  show ?case
  proof (cases "limit < offset + 8 \<or> box_size d b offset limit = None")
    case True
    with 1(2) show ?thesis by (auto simp: boxes.simps [of d b offset limit] split: if_splits)
  next
    case False
    then obtain n h where s: "box_size d b offset limit = Some (n, h)" by auto
    with 1(2) False have "h \<le> n" "offset + n \<le> limit"
      "x = \<lparr>bx_type = fourCharTag d b (offset + 4), bx_body = offset + h, bx_end = offset + n\<rparr> \<or>
       x \<in> set (boxes d b (offset + n) limit)"
      by (auto simp: boxes.simps [of d b offset limit] split: if_splits)
    moreover have "x \<in> set (boxes d b (offset + n) limit) \<Longrightarrow> offset + n \<le> bx_body x \<and> bx_body x \<le> bx_end x \<and> bx_end x \<le> limit"
      using 1(1) [OF _ s refl] False \<open>h \<le> n\<close> \<open>offset + n \<le> limit\<close> by simp
    ultimately show ?thesis by auto
  qed
qed


lemma associations_inside: "limit \<le> length b \<Longrightarrow> associations d b w limit n offset is = associations e b w limit n offset is"
proof (induction n arbitrary: offset "is")
  case (Suc n)
  then show ?case
    using reads_inside(1) [of offset b d e] byte_inside [of offset b d e] by (cases w) (simp_all add: not_less)
qed simp

lemma item_entries_inside:
  "limit \<le> length b \<Longrightarrow> idBytes = 2 \<or> idBytes = 4 \<Longrightarrow>
   item_entries d b idBytes w itemId limit n offset = item_entries e b idBytes w itemId limit n offset"
proof (induction d b idBytes w itemId limit n offset rule: item_entries.induct)
  case (1 d b idBytes w itemId limit n offset)
  show ?case
  proof (cases "n = 0 \<or> limit < offset + idBytes + 1")
    case False
    with "1.prems" have eqs: "(if idBytes = 4 then readU32BE d b offset else readU16BE d b offset) =
        (if idBytes = 4 then readU32BE e b offset else readU16BE e b offset)"
      "byte_at d b (offset + idBytes) = byte_at e b (offset + idBytes)"
      using reads_inside(1,4) [of offset b d e] byte_inside [of "offset + idBytes" b d e] by auto
    note assoc = associations_inside [OF "1.prems"(1), of d w _ _ _ e]
    show ?thesis
      unfolding item_entries.simps [of d b idBytes w itemId limit n offset]
        item_entries.simps [of e b idBytes w itemId limit n offset] Let_def eqs assoc
      using 1 False assoc eqs by (auto simp: Let_def split: option.split)
  qed (simp add: item_entries.simps)
qed

lemma item_property_inside: "bx_end x \<le> length b \<Longrightarrow> itemPropertyIndices d b x i = itemPropertyIndices e b x i"
  using reads_inside(4) [of "bx_body x + 4" b d e] byte_inside [of "bx_body x" b d e] byte_inside [of "bx_body x + 1" b d e]
    byte_inside [of "bx_body x + 2" b d e] byte_inside [of "bx_body x + 3" b d e]
  by (simp add: itemPropertyIndices_def Let_def item_entries_inside [of _ b _ d _ _ _ _ e])

lemma primary_inside: "bx_end x \<le> length b \<Longrightarrow> primaryItemId d b x = primaryItemId e b x"
  using reads_inside(1,4) [of "bx_body x + 4" b d e] byte_inside [of "bx_body x" b d e]
  by (simp add: primaryItemId_def Let_def)

lemma select_inside:
  assumes "\<And>p. p \<in> set ps \<Longrightarrow> bx_end p \<le> length b"
  shows "select_properties d b ps is r = select_properties e b ps is r"
proof (induction "is" arbitrary: r)
  case (Cons i "is")
  obtain ispe turns where r: "r = (ispe, turns)" by (cases r)
  have "byte_at d b (bx_body p) = byte_at e b (bx_body p)" if "p \<in> set ps" "bx_body p < bx_end p" for p
    using assms [OF that(1)] that(2) by simp
  moreover have "ps ! (i - 1) \<in> set ps" if "\<not> (i = 0 \<or> length ps < i)" using that by (intro nth_mem) auto
  ultimately show ?case by (auto simp: r Let_def Cons)
next
  case Nil
  then show ?case by (cases r) simp
qed

lemma select_bound:
  assumes "\<And>p. p \<in> set ps \<Longrightarrow> bx_end p \<le> length b"
  shows "(\<And>o'. fst r = Some o' \<Longrightarrow> o' + 8 \<le> length b) \<Longrightarrow>
    select_properties d b ps is r = (Some off, t) \<Longrightarrow> off + 8 \<le> length b"
proof (induction "is" arbitrary: r)
  case (Cons i "is")
  obtain ispe turns where r: "r = (ispe, turns)" by (cases r)
  have "ps ! (i - 1) \<in> set ps" if "\<not> (i = 0 \<or> length ps < i)" using that by (intro nth_mem) auto
  with assms have bound: "bx_end (ps ! (i - 1)) \<le> length b" if "\<not> (i = 0 \<or> length ps < i)" using that by blast
  note ih = Cons.IH [of "(Some (bx_body (ps ! (i - 1)) + 4), turns)"] Cons.IH [of "(ispe, unat (byte_at d b (bx_body (ps ! (i - 1))) AND 3))"]
    Cons.IH [of "(ispe, turns)"]
  show ?case using Cons.prems ih bound by (auto simp: r Let_def split: if_splits)
next
  case Nil
  then show ?case by (cases r) simp
qed

lemma fallback_inside: "fallback d b = fallback e b"
  using byte_inside [of _ b d e] by (simp add: fallback_def index_inside [of d b _ e] split: option.split)

lemma fallback_bound: "fallback d b = Some (off, t) \<Longrightarrow> off + 8 \<le> length b"
  by (auto simp: fallback_def split: option.splits if_splits)

lemma find_box_in: "find_box t bs = Some x \<Longrightarrow> x \<in> set bs"
  by (auto simp: find_box_def dest: find_SomeD)


lemma find_box_within:
  "find_box t (boxes d b k l) = Some x \<Longrightarrow> l \<le> length b \<Longrightarrow> bx_end x \<le> length b"
  using boxes_within [of x d b k l] find_box_in by fastforce

lemma primary_properties_inside: "primary_properties d b = primary_properties e b"
proof -
  have sel: "select_properties d b (boxes e b k l) is r = select_properties e b (boxes e b k l) is r" if "l \<le> length b" for k l "is" r
    using boxes_within [of _ e b k l] that by (intro select_inside) fastforce
  show ?thesis
    unfolding primary_properties_def Let_def
  proof (rule bind_option_cong)
    show "find_box (tag ''meta'') (boxes d b 0 (length b)) = find_box (tag ''meta'') (boxes e b 0 (length b))"
      by (simp add: boxes_inside [of _ b d _ e])
  next
    fix meta assume "meta \<in> set_option (find_box (tag ''meta'') (boxes e b 0 (length b)))"
    then have "bx_end meta \<le> length b" using find_box_within [of _ e b 0 "length b"] by simp
    then have m: "boxes d b k (bx_end meta) = boxes e b k (bx_end meta)"
      "\<And>t x. find_box t (boxes e b k (bx_end meta)) = Some x \<Longrightarrow> bx_end x \<le> length b" for k
      using boxes_inside find_box_within by blast+
    show "do { pitm \<leftarrow> find_box (tag ''pitm'') (boxes d b (bx_body meta + 4) (bx_end meta));
        iprp \<leftarrow> find_box (tag ''iprp'') (boxes d b (bx_body meta + 4) (bx_end meta));
        ipco \<leftarrow> find_box (tag ''ipco'') (boxes d b (bx_body iprp) (bx_end iprp));
        ipma \<leftarrow> find_box (tag ''ipma'') (boxes d b (bx_body iprp) (bx_end iprp));
        primaryId \<leftarrow> primaryItemId d b pitm;
        indices \<leftarrow> itemPropertyIndices d b ipma primaryId;
        case select_properties d b (boxes d b (bx_body ipco) (bx_end ipco)) indices (None, 0) of
          (ispe, turns) \<Rightarrow> ispe \<bind> (\<lambda>ispeBody. Some (ispeBody, turns)) } =
      do { pitm \<leftarrow> find_box (tag ''pitm'') (boxes e b (bx_body meta + 4) (bx_end meta));
        iprp \<leftarrow> find_box (tag ''iprp'') (boxes e b (bx_body meta + 4) (bx_end meta));
        ipco \<leftarrow> find_box (tag ''ipco'') (boxes e b (bx_body iprp) (bx_end iprp));
        ipma \<leftarrow> find_box (tag ''ipma'') (boxes e b (bx_body iprp) (bx_end iprp));
        primaryId \<leftarrow> primaryItemId e b pitm;
        indices \<leftarrow> itemPropertyIndices e b ipma primaryId;
        case select_properties e b (boxes e b (bx_body ipco) (bx_end ipco)) indices (None, 0) of
          (ispe, turns) \<Rightarrow> ispe \<bind> (\<lambda>ispeBody. Some (ispeBody, turns)) }"
      unfolding m
    proof (intro bind_option_cong refl, goal_cases)
      case (1 pitm iprp)
      then show ?case using m(2) by (simp add: boxes_inside [of _ b d _ e])
    next
      case (2 pitm iprp ipco)
      then show ?case using m(2) by (simp add: boxes_inside [of _ b d _ e])
    next
      case (3 pitm iprp ipco ipma)
      then show ?case using m(2) by (simp add: primary_inside [of _ b d e])
    next
      case (4 pitm iprp ipco ipma i)
      then have "bx_end ipma \<le> length b" using m(2) find_box_within [of _ e b _ "bx_end iprp"] by auto
      then show ?case by (rule item_property_inside)
    next
      case (5 pitm iprp ipco ipma i "is")
      then have "bx_end ipco \<le> length b" using m(2) find_box_within [of _ e b _ "bx_end iprp"] by auto
      then show ?case by (simp add: sel boxes_inside [of _ b d _ e])
    qed
  qed
qed


lemma primary_properties_bound:
  assumes "primary_properties d b = Some (off, t)"
  shows "off + 8 \<le> length b"
proof -
  from assms obtain meta iprp ipco "is" where
    f: "find_box (tag ''meta'') (boxes d b 0 (length b)) = Some meta"
       "find_box (tag ''iprp'') (boxes d b (bx_body meta + 4) (bx_end meta)) = Some iprp"
       "find_box (tag ''ipco'') (boxes d b (bx_body iprp) (bx_end iprp)) = Some ipco"
    and s: "select_properties d b (boxes d b (bx_body ipco) (bx_end ipco)) is (None, 0) = (Some off, t)"
    unfolding primary_properties_def Let_def by (auto simp: bind_eq_Some_conv split: prod.splits) (metis surj_pair)
  have "bx_end ipco \<le> length b"
    using find_box_within [OF f(3) find_box_within [OF f(2) find_box_within [OF f(1)]]] by simp
  then have "bx_end p \<le> length b" if "p \<in> set (boxes d b (bx_body ipco) (bx_end ipco))" for p
    using boxes_within [OF that] by simp
  from select_bound [OF this _ s] show ?thesis by simp
qed

lemma readHeic_inside: "readHeicDimensions d b = readHeicDimensions e b"
proof -
  have "selectPrimary d b = selectPrimary e b"
    by (simp add: selectPrimary_def primary_properties_inside [of d b e] fallback_inside [of d b e] split: option.split)
  moreover have "readU32BE d b off = readU32BE e b off \<and> readU32BE d b (off + 4) = readU32BE e b (off + 4)"
    if "selectPrimary e b = Some (off, t)" for off t
  proof -
    have "off + 8 \<le> length b"
      using that primary_properties_bound [of e b off t] fallback_bound [of e b off t]
      by (auto simp: selectPrimary_def split: option.splits)
    then show ?thesis using reads_inside(4) [of off b d e] reads_inside(4) [of "off + 4" b d e] by simp
  qed
  ultimately show ?thesis
    using reads_inside(6) [of 4 b d e] by (auto simp: readHeicDimensions_def Let_def split: option.split)
qed

lemma readWebp_inside: "readWebpDimensions d b = readWebpDimensions e b"
proof (cases "length b < 30")
  case False
  then show ?thesis
    by (simp add: readWebpDimensions_def Let_def reads_inside(6) [of _ b d e] reads_inside(2) [of _ b d e]
        reads_inside(3) [of _ b d e] reads_inside(5) [of _ b d e])
qed (simp add: readWebpDimensions_def)

lemma jpeg_loop_inside: "jpeg_loop d b offset = jpeg_loop e b offset"
proof (induction d b offset rule: jpeg_loop.induct)
  case (1 d b offset)
  show ?case
  proof (cases "length b \<le> offset + 3")
    case False
    then have eqs: "byte_at d b offset = byte_at e b offset" "byte_at d b (offset + 1) = byte_at e b (offset + 1)"
      "readU16BE d b (offset + 2) = readU16BE e b (offset + 2)"
      using reads_inside(1) [of "offset + 2" b d e] by simp_all
    have frame: "readU16BE d b (offset + 7) = readU16BE e b (offset + 7)" "readU16BE d b (offset + 5) = readU16BE e b (offset + 5)"
      if "\<not> length b < offset + 9"
      using that reads_inside(1) [of "offset + 7" b d e] reads_inside(1) [of "offset + 5" b d e] by simp_all
    note ih = 1 [OF False, unfolded Let_def eqs]
    show ?thesis
      unfolding jpeg_loop.simps [of d b offset] jpeg_loop.simps [of e b offset] Let_def eqs
      using ih frame by (simp cong: if_cong)
  qed (simp add: jpeg_loop.simps)
qed

lemma readJpeg_inside: "readJpegDimensions d b = readJpegDimensions e b"
proof (cases "length b < 4")
  case False
  then have "byte_at d b 0 = byte_at e b 0" "byte_at d b 1 = byte_at e b 1" by (intro byte_inside, linarith)+
  then show ?thesis by (simp only: readJpegDimensions_def jpeg_loop_inside [of d b _ e])
qed (simp add: readJpegDimensions_def)

lemma readPng_inside: "readPngDimensions d b = readPngDimensions e b"
proof (cases "length b < 24")
  case False
  then show ?thesis by (simp add: readPngDimensions_def reads_inside(6) [of _ b d e] reads_inside(4) [of _ b d e])
qed (simp add: readPngDimensions_def)

lemma readGif_inside: "readGifDimensions d b = readGifDimensions e b"
proof (cases "length b < 10")
  case False
  then show ?thesis by (simp add: readGifDimensions_def reads_inside(2) [of _ b d e])
qed (simp add: readGifDimensions_def)

lemma clamped_inside: "limit \<le> length b \<Longrightarrow> clampedBoxAt d b offset limit = clampedBoxAt e b offset limit"
  using box_size_inside [of limit b offset d e] by (simp add: clampedBoxAt_def)

lemma childBoxes_inside: "limit \<le> length b \<Longrightarrow> childBoxes d b offset limit t = childBoxes e b offset limit t"
proof (induction d b offset limit t rule: childBoxes.induct)
  case (1 d b offset limit t)
  show ?case
  proof (cases "limit < offset + 8")
    case False
    have c: "clampedBoxAt d b offset limit = clampedBoxAt e b offset limit" by (rule clamped_inside [OF 1(2)])
    have f: "fourCharTag d b (offset + 4) = fourCharTag e b (offset + 4)" using False 1(2) reads_inside(6) [of "offset + 4" b d e] by simp
    show ?thesis
      unfolding childBoxes.simps [of d b offset limit t] childBoxes.simps [of e b offset limit t] c f
      using 1 False c by (auto split: option.split)
  qed (simp add: childBoxes.simps)
qed

lemma childBoxes_within: "x \<in> set (childBoxes d b offset limit t) \<Longrightarrow> br_end x \<le> limit"
proof (induction d b offset limit t rule: childBoxes.induct)
  case (1 d b offset limit t)
  show ?case
  proof (cases "limit < offset + 8 \<or> clampedBoxAt d b offset limit = None")
    case True
    with 1(2) show ?thesis by (auto simp: childBoxes.simps [of d b offset limit t] split: if_splits)
  next
    case False
    then obtain r n where c: "clampedBoxAt d b offset limit = Some (r, n)" by auto
    with 1(2) False have "x = r \<or> \<not> limit < n \<and> x \<in> set (childBoxes d b n limit t)"
      by (auto simp: childBoxes.simps [of d b offset limit t] split: if_splits)
    with 1(1) [OF _ c refl] False clampedBoxAt_next [OF c] show ?thesis by auto
  qed
qed

lemma readTkhd_inside: "br_end x \<le> length b \<Longrightarrow> readTkhd d b x = readTkhd e b x"
  using byte_inside [of "br_start x" b d e]
  by (simp add: readTkhd_def Let_def read16Dot16_def matrixIsQuarterTurn_def reads_inside(4) [of _ b d e])

lemma first_some_cong: "(\<And>x. x \<in> set xs \<Longrightarrow> f x = g x) \<Longrightarrow> first_some f xs = first_some g xs"
  by (induction xs) (simp_all split: option.split)

lemma readMoov_inside: "readMoov d b i = readMoov e b i"
proof -
  have inner: "first_some (readTkhd d b) (childBoxes d b k l t) = first_some (readTkhd e b) (childBoxes e b k l t)"
    if "l \<le> length b" for k l t
    unfolding childBoxes_inside [OF that, of d k t e]
    using childBoxes_within [of _ e b k l t] that by (intro first_some_cong readTkhd_inside) (auto intro: order_trans)
  have outer: "first_some (\<lambda>x. first_some (readTkhd d b) (childBoxes d b (br_start x) (br_end x) u)) (childBoxes d b k l t) =
      first_some (\<lambda>x. first_some (readTkhd e b) (childBoxes e b (br_start x) (br_end x) u)) (childBoxes e b k l t)"
    if "l \<le> length b" for k l t u
    unfolding childBoxes_inside [OF that, of d k t e]
    using childBoxes_within [of _ e b k l t] that by (intro first_some_cong inner) (auto intro: order_trans)
  show ?thesis
  proof (cases "clampedBoxAt e b (i - 4) (length b)")
    case None
    then show ?thesis by (simp add: readMoov_def clamped_inside [of "length b" b d _ e])
  next
    case (Some r)
    then obtain body n where r: "clampedBoxAt e b (i - 4) (length b) = Some (body, n)" by (cases r) simp
    with clampedBoxAt_next [OF r] outer show ?thesis by (simp add: readMoov_def clamped_inside [of "length b" b d _ e])
  qed
qed

lemma readMp4_inside: "readMp4Dimensions d b k = readMp4Dimensions e b k"
proof (induction d b k rule: readMp4Dimensions.induct)
  case (1 d b k)
  then show ?case
    by (simp add: readMp4Dimensions.simps [of d b k] readMp4Dimensions.simps [of e b k] index_tag_inside [of d b _ _ e]
        readMoov_inside [of d b _ e] split: option.split)
qed


text \<open>
  Property C40. The readers look at no byte past the end of the buffer: whatever stood for such a
  byte, the size read from an image or a film would be the same.
\<close>

theorem no_byte_past_the_end:
  "readImageFileDimensions d b = readImageFileDimensions e b \<and> readMp4Dimensions d b 0 = readMp4Dimensions e b 0"
  unfolding readImageFileDimensions_def readWebpOrHeicDimensions_def readWebp_inside [of d b e] readHeic_inside [of d b e]
    readPng_inside [of d b e] readGif_inside [of d b e] readJpeg_inside [of d b e] readMp4_inside [of d b 0 e]
  by (intro conjI refl)

subsection \<open>What is read is what was written\<close>

definition be16 :: "16 word \<Rightarrow> bytes" where "be16 x = [ucast (drop_bit 8 x), ucast x]"

definition be32 :: "32 word \<Rightarrow> bytes" where
  "be32 x = [ucast (drop_bit 24 x), ucast (drop_bit 16 x), ucast (drop_bit 8 x), ucast x]"

definition le16 :: "16 word \<Rightarrow> bytes" where "le16 x = [ucast x, ucast (drop_bit 8 x)]"

lemma readU32BE_at:
  assumes "take 4 (drop i b) = be32 x"
  shows "readU32BE d b i = x"
proof -
  have len: "i + 4 \<le> length b" using arg_cong [OF assms, of length] by (simp add: be32_def)
  have "b ! (i + k) = be32 x ! k" if "k < 4" for k
    using that len nth_take [of k 4 "drop i b"] by (simp add: assms)
  from this [of 0] this [of 1] this [of 2] this [of 3] len
  have "readU32BE d b i = push_bit 24 (ucast (ucast (drop_bit 24 x) :: 8 word)) OR push_bit 16 (ucast (ucast (drop_bit 16 x) :: 8 word)) OR
     push_bit 8 (ucast (ucast (drop_bit 8 x) :: 8 word)) OR ucast (ucast x :: 8 word)"
    by (simp add: readU32BE_def be32_def)
  also have "\<dots> = x"
  proof (rule bit_word_eqI)
    fix n assume "n < LENGTH(32)"
    then consider "n < 8" | "8 \<le> n" "n < 16" | "16 \<le> n" "n < 24" | "24 \<le> n" "n < 32" by fastforce
    then show "bit (push_bit 24 (ucast (ucast (drop_bit 24 x) :: 8 word) :: 32 word) OR push_bit 16 (ucast (ucast (drop_bit 16 x) :: 8 word)) OR
        push_bit 8 (ucast (ucast (drop_bit 8 x) :: 8 word)) OR ucast (ucast x :: 8 word)) n \<longleftrightarrow> bit x n"
      by cases (simp_all add: bit_simps less_diff_conv2)
  qed
  finally show ?thesis .
qed

lemma readU16BE_at:
  assumes "take 2 (drop i b) = be16 x"
  shows "unat (readU16BE d b i) = unat x"
proof -
  have len: "i + 2 \<le> length b" using arg_cong [OF assms, of length] by (simp add: be16_def)
  have "b ! (i + k) = be16 x ! k" if "k < 2" for k
    using that len nth_take [of k 2 "drop i b"] by (simp add: assms)
  from this [of 0] this [of 1] len
  have "readU16BE d b i = push_bit 8 (ucast (ucast (drop_bit 8 x) :: 8 word)) OR ucast (ucast x :: 8 word)"
    by (simp add: readU16BE_def be16_def)
  also have "\<dots> = ucast x" by (rule bit_word_eqI) (auto simp: bit_simps dest: bit_imp_le_length)
  finally have "readU16BE d b i = ucast x" .
  moreover have "unat x < 2 ^ 32" using unsigned_less [of x, where 'a = nat] by simp
  ultimately show ?thesis by (simp add: unsigned_ucast_eq take_bit_nat_eq_self)
qed

text \<open>A PNG file: the signature, the length and the tag of the first chunk, and the size.\<close>

definition png_file :: "bytes \<Rightarrow> 32 word \<Rightarrow> 32 word \<Rightarrow> bytes \<Rightarrow> bytes" where
  "png_file len w h rest = PNG_SIGNATURE @ len @ tag ''IHDR'' @ be32 w @ be32 h @ rest"

lemma tag_length [simp]: "length (tag s) = length s"
  by (simp add: tag_def)

lemma be_length [simp]: "length (be32 x) = 4" "length (be16 y) = 2"
  by (simp_all add: be32_def be16_def)

lemma fourCharTag_at: "take 4 (drop i b) = t \<Longrightarrow> length t = 4 \<Longrightarrow> fourCharTag d b i = t"
proof -
  assume t: "take 4 (drop i b) = t" "length t = 4"
  then have len: "i + 4 \<le> length b" by auto
  have "b ! (i + k) = t ! k" if "k < 4" for k
    using that len nth_take [of k 4 "drop i b"] t by simp
  from this [of 0] this [of 1] this [of 2] this [of 3] len t(2)
  show ?thesis by (auto simp: fourCharTag_def eval_nat_numeral length_Suc_conv)
qed

text \<open>
  Fact. The size written in the header of a PNG file is the size that is read, whatever
  follows the header; no other format claims the file first.
\<close>

theorem png_size_is_read_back:
  assumes "length len = 4" "w \<noteq> 0" "h \<noteq> 0"
  shows "readImageFileDimensions d (png_file len w h rest) = Some \<lparr>width = unat w, height = unat h\<rparr>"
proof -
  let ?b = "png_file len w h rest"
  have len: "24 \<le> length ?b" using assms(1) by (simp add: png_file_def PNG_SIGNATURE_def)
  have head: "take 8 ?b = PNG_SIGNATURE" by (simp add: png_file_def PNG_SIGNATURE_def)
  have "fourCharTag d ?b 0 \<noteq> tag ''RIFF''" by (simp add: fourCharTag_def png_file_def PNG_SIGNATURE_def tag_def)
  then have webp: "readWebpDimensions d ?b = None" by (simp add: readWebpDimensions_def)
  have "fourCharTag d ?b 4 \<noteq> tag ''ftyp''" by (simp add: fourCharTag_def png_file_def PNG_SIGNATURE_def tag_def)
  then have heic: "readHeicDimensions d ?b = None" by (simp add: readHeicDimensions_def)
  have parts: "drop 12 ?b = tag ''IHDR'' @ be32 w @ be32 h @ rest" "drop 16 ?b = be32 w @ be32 h @ rest" "drop 20 ?b = be32 h @ rest"
    using assms(1) by (simp_all add: png_file_def PNG_SIGNATURE_def)
  have "fourCharTag d ?b 12 = tag ''IHDR''" "readU32BE d ?b 16 = w" "readU32BE d ?b 20 = h"
    by (rule fourCharTag_at readU32BE_at; simp add: parts)+
  then show ?thesis using len head assms webp heic
    by (simp add: readImageFileDimensions_def readWebpOrHeicDimensions_def readPngDimensions_def toImageDimensions_def unat_eq_zero)
qed


lemma png_size_is_read_back_witness:
  "readImageFileDimensions 0 (png_file [0, 0, 0, 13] 640 480 [8, 6]) = Some \<lparr>width = unat (640 :: 32 word), height = unat (480 :: 32 word)\<rparr>"
  by (rule png_size_is_read_back) simp_all

text \<open>A JPEG file: segments with a marker, a length and a payload, then a frame header.\<close>

definition frame_marker :: "8 word \<Rightarrow> bool" where
  "frame_marker m \<longleftrightarrow> 192 \<le> m \<and> m \<le> 207 \<and> m \<notin> set JPEG_NON_FRAME_MARKERS"

definition skipped_segment :: "8 word \<times> bytes \<Rightarrow> bool" where
  "skipped_segment s \<longleftrightarrow> (case s of (m, p) \<Rightarrow>
     m \<noteq> 255 \<and> m \<noteq> 218 \<and> m \<notin> set JPEG_SEGMENTLESS_MARKERS \<and> \<not> frame_marker m \<and> length p + 2 < 65536)"

definition jpeg_segment :: "8 word \<times> bytes \<Rightarrow> bytes" where
  "jpeg_segment s = (case s of (m, p) \<Rightarrow> [255, m] @ be16 (of_nat (length p + 2)) @ p)"

definition jpeg_frame :: "8 word \<Rightarrow> 16 word \<Rightarrow> 8 word \<Rightarrow> 16 word \<Rightarrow> 16 word \<Rightarrow> bytes \<Rightarrow> bytes" where
  "jpeg_frame m len prec h w rest = [255, m] @ be16 len @ [prec] @ be16 h @ be16 w @ rest"

lemma byte_at_drop: "drop i b = xs \<Longrightarrow> k < length xs \<Longrightarrow> byte_at d b (i + k) = xs ! k"
  by (auto simp: byte_at_def)

lemma unat_of_small: "n < 65536 \<Longrightarrow> unat (of_nat n :: 16 word) = n"
  by (simp add: unsigned_of_nat take_bit_nat_eq_self)

lemma jpeg_skip:
  assumes s: "drop i b = jpeg_segment s @ r" "skipped_segment s"
  shows "jpeg_loop d b i = jpeg_loop d b (i + length (jpeg_segment s))"
proof -
  obtain m p where mp: "s = (m, p)" by (cases s)
  let ?n = "of_nat (length p + 2) :: 16 word"
  have d: "drop i b = [255, m] @ be16 ?n @ p @ r" using s(1) by (simp add: mp jpeg_segment_def)
  have len: "\<not> length b \<le> i + 3" using arg_cong [OF d, of length] by simp
  have b: "byte_at d b i = 255" "byte_at d b (i + 1) = m"
    using byte_at_drop [OF d, of 0] byte_at_drop [OF d, of 1] by simp_all
  have "take 2 (drop (i + 2) b) = be16 ?n" using arg_cong [OF d, of "drop 2"] by (simp add: add.commute)
  from readU16BE_at [OF this, of d] have l: "unat (readU16BE d b (i + 2)) = length p + 2"
    using s(2) unat_of_small [of "length p + 2"] by (simp only: mp skipped_segment_def prod.case)
  have m: "m \<noteq> 255" "m \<notin> set JPEG_SEGMENTLESS_MARKERS" "m \<noteq> 218"
    "\<not> (192 \<le> m \<and> m \<le> 207 \<and> m \<notin> set JPEG_NON_FRAME_MARKERS)"
    using s(2) by (auto simp: mp skipped_segment_def frame_marker_def)
  have "jpeg_loop d b i = jpeg_loop d b (i + 2 + (length p + 2))"
    by (subst jpeg_loop.simps) (simp only: len b l m Let_def if_True if_False not_True_eq_False not_False_eq_True, simp)
  then show ?thesis by (simp add: mp jpeg_segment_def add_ac)
qed

lemma jpeg_skip_all:
  "drop i b = concat (map jpeg_segment ss) @ r \<Longrightarrow> list_all skipped_segment ss \<Longrightarrow>
   jpeg_loop d b i = jpeg_loop d b (i + length (concat (map jpeg_segment ss)))"
proof (induction ss arbitrary: i)
  case (Cons s ss)
  have d: "drop i b = jpeg_segment s @ concat (map jpeg_segment ss) @ r" using Cons.prems(1) by simp
  have "drop (i + length (jpeg_segment s)) b = concat (map jpeg_segment ss) @ r"
    using arg_cong [OF d, of "drop (length (jpeg_segment s))"] by (simp add: add.commute)
  from Cons.IH [OF this] jpeg_skip [OF d, of d] Cons.prems(2) show ?case by (simp add: add_ac)
qed simp

lemma jpeg_frame_read:
  assumes d: "drop i b = jpeg_frame m len prec h w rest" "frame_marker m" "2 \<le> unat len"
  shows "jpeg_loop d b i = toImageDimensions (unat w) (unat h)"
proof -
  note d' = d(1) [unfolded jpeg_frame_def]
  have len: "\<not> length b \<le> i + 3" "\<not> length b < i + 9" using arg_cong [OF d', of length] by simp_all
  have b: "byte_at d b i = 255" "byte_at d b (i + 1) = m"
    using byte_at_drop [OF d', of 0] byte_at_drop [OF d', of 1] by simp_all
  have "take 2 (drop (i + 2) b) = be16 len" "take 2 (drop (i + 5) b) = be16 h" "take 2 (drop (i + 7) b) = be16 w"
    using arg_cong [OF d', of "drop 2"] arg_cong [OF d', of "drop 5"] arg_cong [OF d', of "drop 7"]
    by (simp_all add: add.commute be16_def)
  note reads = this [THEN readU16BE_at, of d]
  have "m \<noteq> 255 \<and> m \<noteq> 218 \<and> m \<notin> set JPEG_SEGMENTLESS_MARKERS"
    using d(2) by (auto simp: frame_marker_def JPEG_SEGMENTLESS_MARKERS_def word_le_nat_alt)
  with len b reads d(2,3) show ?thesis by (subst jpeg_loop.simps) (simp add: frame_marker_def Let_def)
qed

text \<open>
  Fact. In a JPEG file the segments before the frame header are skipped by their lengths,
  whatever their payloads hold (a thumbnail, say, with a frame header of its own): the size that
  is read is the one of the first frame header.
\<close>

theorem jpeg_size_is_the_frames:
  assumes "list_all skipped_segment ss" "frame_marker m" "2 \<le> unat len" "w \<noteq> 0" "h \<noteq> 0"
  shows "readJpegDimensions d ([255, 216] @ concat (map jpeg_segment ss) @ jpeg_frame m len prec h w rest) =
    Some \<lparr>width = unat w, height = unat h\<rparr>"
proof -
  let ?b = "[255, 216] @ concat (map jpeg_segment ss) @ jpeg_frame m len prec h w rest"
  have "jpeg_loop d ?b 2 = jpeg_loop d ?b (2 + length (concat (map jpeg_segment ss)))"
    by (rule jpeg_skip_all [OF _ assms(1)]) simp
  also have "\<dots> = toImageDimensions (unat w) (unat h)"
    by (rule jpeg_frame_read [OF _ assms(2,3)]) simp
  finally have "jpeg_loop d ?b 2 = toImageDimensions (unat w) (unat h)" .
  moreover have "\<not> length ?b < 4" by (simp add: jpeg_frame_def)
  ultimately show ?thesis using assms(4,5)
    by (simp add: readJpegDimensions_def toImageDimensions_def unat_eq_zero)
qed

text \<open>The payload of the first segment looks like a frame header of its own.\<close>

lemma jpeg_size_is_the_frames_witness:
  "readJpegDimensions 0 ([255, 216] @ concat (map jpeg_segment [(225, [255, 192, 0, 11, 8, 0, 1, 0, 1])]) @
     jpeg_frame 192 11 8 480 640 []) = Some \<lparr>width = unat (640 :: 16 word), height = unat (480 :: 16 word)\<rparr>"
  by (rule jpeg_size_is_the_frames)
    (simp_all add: skipped_segment_def frame_marker_def JPEG_SEGMENTLESS_MARKERS_def JPEG_NON_FRAME_MARKERS_def)


subsection \<open>Sizes are positive and bounded\<close>

definition sized :: "nat \<Rightarrow> dimensions option \<Rightarrow> bool" where
  "sized n r = (case r of None \<Rightarrow> True | Some x \<Rightarrow> 0 < width x \<and> width x < n \<and> 0 < height x \<and> height x < n)"

lemma sized_to: "w < n \<Longrightarrow> h < n \<Longrightarrow> sized n (toImageDimensions w h)"
  by (simp add: sized_def toImageDimensions_def)

lemma sized_None [simp]: "sized n None"
  by (simp add: sized_def)

lemma word_small: "unat (x :: 32 word) < 4294967296"
  using unsigned_less [of x, where 'a = nat] by simp

lemma masked_small: "unat (x AND 16383 :: 32 word) + 1 < 4294967296"
proof -
  have "x AND 16383 \<le> 16383" by (rule word_and_le1)
  then have "unat (x AND 16383) \<le> unat (16383 :: 32 word)" by (simp only: word_le_nat_alt)
  then show ?thesis by simp
qed

lemma u24_small: "unat (readU24LE d b i) + 1 < 4294967296"
proof -
  have "take_bit 24 (readU24LE d b i) = readU24LE d b i"
    by (rule bit_word_eqI) (auto simp: readU24LE_def bit_simps dest: bit_imp_le_length)
  then have "unat (readU24LE d b i) = take_bit 24 (unat (readU24LE d b i))"
    using unsigned_take_bit_eq [of 24 "readU24LE d b i", where 'a = nat] by simp
  also have "\<dots> < 2 ^ 24" by (rule take_bit_nat_less_exp)
  finally show ?thesis by simp
qed

lemma sized_case: "sized n x \<Longrightarrow> sized n y \<Longrightarrow> sized n (case x of None \<Rightarrow> y | Some r \<Rightarrow> Some r)"
  by (cases x) simp_all

lemma first_some_sized: "(\<And>x. sized n (f x)) \<Longrightarrow> sized n (first_some f xs)"
  by (induction xs) (simp_all add: sized_case)

lemma jpeg_sized: "sized 4294967296 (jpeg_loop d b i)"
proof (induction d b i rule: jpeg_loop.induct)
  case (1 d b offset)
  then show ?case by (subst jpeg_loop.simps) (auto simp: Let_def intro!: sized_to word_small)
qed

lemma film_sized: "sized 65536 (readMp4Dimensions d b k)"
proof (induction d b k rule: readMp4Dimensions.induct)
  case (1 d b k)
  have half: "read16Dot16 d b i < 65536" for i
    using word_small [of "readU32BE d b i"] less_mult_imp_div_less [of "unat (readU32BE d b i)" 65536 65536]
    unfolding read16Dot16_def unsigned_drop_bit_eq by (simp add: drop_bit_eq_div take_bit_nat_eq_self)
  have "sized 65536 (readTkhd d b x)" for x
    by (auto simp: readTkhd_def Let_def intro!: sized_to half)
  then have "sized 65536 (readMoov d b i)" for i
    by (auto simp: readMoov_def intro!: first_some_sized split: option.split)
  then have moov: "sized 65536 (Some r)" if "readMoov d b i = Some r" for i r using that by metis
  show ?case using 1 by (subst readMp4Dimensions.simps) (auto split: option.split dest: moov)
qed

text \<open>
  Fact. A size that is read has a width and a height of at least one: below two to the
  thirty-second for an image, below two to the sixteenth for a film.
\<close>

theorem sizes_are_positive_and_bounded:
  "sized 4294967296 (readImageFileDimensions d b) \<and> sized 65536 (readMp4Dimensions d b 0)"
proof -
  have webp: "sized 4294967296 (readWebpDimensions d b)"
    using masked_small u24_small
    by (auto simp: readWebpDimensions_def Let_def intro!: sized_to word_small simp del: One_nat_def)
  have heic: "sized 4294967296 (readHeicDimensions d b)"
    by (auto simp: readHeicDimensions_def Let_def intro!: sized_to word_small split: option.split)
  have others: "sized 4294967296 (readPngDimensions d b)" "sized 4294967296 (readGifDimensions d b)" "sized 4294967296 (readJpegDimensions d b)"
    by (auto simp: readPngDimensions_def readGifDimensions_def readJpegDimensions_def Let_def intro!: sized_to word_small jpeg_sized)
  show ?thesis unfolding readImageFileDimensions_def readWebpOrHeicDimensions_def
    by (intro conjI film_sized sized_case webp heic others)
qed

end
