(* ===== verification/Agent_Worker_Pool.thy ===== *)
theory Agent_Worker_Pool
  imports Js_Strings
begin

text \<open>
  The workers that keep the stores of the agents, one for every store in use:
  \<^verbatim>\<open>host/agent-isolation/agent-worker-pool.ts\<close>.

  A connection has a number, and so has an operation; the pool maps the path of a store to the
  number of its connection. What the code does without waiting is one step: the beginning of an
  operation up to the connection it is given, its message to the worker, an answer, the end of a
  worker, a sweep, a close. A promise that settles settles the operation that waits for it in the
  same step, its \<^verbatim>\<open>finally\<close> included. The worker answers when it likes, or ends.
\<close>

subsection \<open>Lines of a worker\<close>

definition MAX_FORWARDED_WORKER_LINE_BYTES :: nat where "MAX_FORWARDED_WORKER_LINE_BYTES = 8 * 1024"

definition truncated_mark :: ustr where "truncated_mark = 8230 # ascii ''[truncated]''"

definition emitLine :: "ustr \<Rightarrow> ustr list" where
  "emitLine line =
     (if line = [] then []
      else if MAX_FORWARDED_WORKER_LINE_BYTES < length line
      then [take MAX_FORWARDED_WORKER_LINE_BYTES line @ truncated_mark] else [line])"

definition strip_return :: "ustr \<Rightarrow> ustr" where
  "strip_return line = (if line \<noteq> [] \<and> last line = 13 then butlast line else line)"

text \<open>A chunk arrives: the lines it completes, and what is kept for the next.\<close>

definition forward_chunk :: "ustr \<Rightarrow> ustr \<Rightarrow> ustr list \<times> ustr" where
  "forward_chunk buffered chunk =
     (let buffered = buffered @ chunk in
      if MAX_FORWARDED_WORKER_LINE_BYTES * 2 < length buffered then (emitLine buffered, [])
      else let lines = split_on newline buffered
        in (concat (map (\<lambda>l. emitLine (strip_return l)) (butlast lines)), last lines))"

fun forward_chunks :: "ustr \<Rightarrow> ustr list \<Rightarrow> ustr list \<times> ustr" where
  "forward_chunks buffered [] = ([], buffered)"
| "forward_chunks buffered (c # cs) =
     (case forward_chunk buffered c of (out, buffered) \<Rightarrow>
        case forward_chunks buffered cs of (out', buffered) \<Rightarrow> (out @ out', buffered))"

text \<open>The whole stream: its chunks, then its end.\<close>

definition forwardStream :: "ustr list \<Rightarrow> ustr list" where
  "forwardStream chunks = (case forward_chunks [] chunks of (out, buffered) \<Rightarrow> out @ emitLine buffered)"

subsection \<open>State\<close>

type_synonym path = string

datatype op_kind =
    Set_Blob | Get_Blob | Find_Latest_Root | Clear_Blobs | Clear_Stale_Roots | Collect_Garbage | Verify_Legacy_Retirement

datatype failure = Worker_Error string | Worker_Gone string | Not_Running

datatype outcome = Answered string | Failed failure

datatype phase = Starting | Initialising nat | Holding nat | Waiting nat | Settled outcome

record operation =
  op_kind :: op_kind
  op_path :: path
  op_phase :: phase

datatype requester = Init_Of nat | Request_Of nat | Closing

record connection =
  cn_path :: path
  cn_dead :: bool
  cn_pending :: "(nat, requester) js_map"
  cn_next :: nat
  cn_activity :: millis
  cn_init :: bool
  cn_terminated :: bool
  cn_closed :: bool

record pool =
  maxWorkers :: nat
  idleTimeoutMs :: "millis option"
  connections :: "(path, nat) js_map"
  activeOps :: "(path, int) js_map"
  sweepTimer :: bool
  conns :: "nat \<Rightarrow> connection"
  next_conn :: nat
  ops :: "nat \<Rightarrow> operation"
  next_op :: nat

definition no_connection :: connection where
  "no_connection = \<lparr>cn_path = [], cn_dead = True, cn_pending = [], cn_next = 1, cn_activity = 0, cn_init = False,
     cn_terminated = False, cn_closed = False\<rparr>"

definition no_operation :: operation where
  "no_operation = \<lparr>op_kind = Get_Blob, op_path = [], op_phase = Settled (Failed Not_Running)\<rparr>"

text \<open>An idle timeout that is not finite is \<open>None\<close>.\<close>

definition new_pool :: "nat \<Rightarrow> millis option \<Rightarrow> pool" where
  "new_pool m idle = \<lparr>maxWorkers = m, idleTimeoutMs = idle, connections = [], activeOps = [], sweepTimer = False,
     conns = (\<lambda>_. no_connection), next_conn = 0, ops = (\<lambda>_. no_operation), next_op = 0\<rparr>"

definition update_conn :: "nat \<Rightarrow> (connection \<Rightarrow> connection) \<Rightarrow> pool \<Rightarrow> pool" where
  "update_conn c f p = p\<lparr>conns := (conns p)(c := f (conns p c))\<rparr>"

subsection \<open>Operations in flight\<close>

definition retain :: "path \<Rightarrow> pool \<Rightarrow> pool" where
  "retain x p = p\<lparr>activeOps := jm_set (activeOps p) x ((case jm_get (activeOps p) x of None \<Rightarrow> 0 | Some n \<Rightarrow> n) + 1)\<rparr>"

definition release :: "path \<Rightarrow> pool \<Rightarrow> pool" where
  "release x p =
     (let n = (case jm_get (activeOps p) x of None \<Rightarrow> 0 | Some n \<Rightarrow> n) - 1 in
      if n \<le> 0 then p\<lparr>activeOps := jm_delete (activeOps p) x\<rparr> else p\<lparr>activeOps := jm_set (activeOps p) x n\<rparr>)"

definition isRetained :: "path \<Rightarrow> pool \<Rightarrow> bool" where
  "isRetained x p \<longleftrightarrow> 0 < (case jm_get (activeOps p) x of None \<Rightarrow> 0 | Some n \<Rightarrow> n)"

text \<open>The end of an operation, with its \<^verbatim>\<open>finally\<close>.\<close>

definition settle_op :: "nat \<Rightarrow> outcome \<Rightarrow> pool \<Rightarrow> pool" where
  "settle_op i out p =
     release (op_path (ops p i)) (p\<lparr>ops := (ops p)(i := (ops p i)\<lparr>op_phase := Settled out\<rparr>)\<rparr>)"

definition set_phase :: "nat \<Rightarrow> phase \<Rightarrow> pool \<Rightarrow> pool" where
  "set_phase i ph p = p\<lparr>ops := (ops p)(i := (ops p i)\<lparr>op_phase := ph\<rparr>)\<rparr>"

subsection \<open>Connections\<close>

definition stopSweep :: "pool \<Rightarrow> pool" where "stopSweep p = p\<lparr>sweepTimer := False\<rparr>"

definition startSweep :: "pool \<Rightarrow> pool" where
  "startSweep p = (if sweepTimer p then p else if idleTimeoutMs p = None then p else p\<lparr>sweepTimer := True\<rparr>)"

text \<open>A message to the worker, of a connection that is not dead.\<close>

definition send :: "nat \<Rightarrow> requester \<Rightarrow> millis \<Rightarrow> pool \<Rightarrow> pool" where
  "send c who now = update_conn c (\<lambda>k. k\<lparr>cn_activity := now, cn_next := Suc (cn_next k),
     cn_pending := jm_set (cn_pending k) (cn_next k) who\<rparr>)"

text \<open>A request leaves the map of those that wait, and whoever made it gets the answer.\<close>

definition answer :: "nat \<Rightarrow> nat \<Rightarrow> outcome \<Rightarrow> millis \<Rightarrow> pool \<Rightarrow> pool" where
  "answer c r out now p =
     (case jm_get (cn_pending (conns p c)) r of None \<Rightarrow> p
      | Some who \<Rightarrow>
          let p = update_conn c (\<lambda>k. k\<lparr>cn_pending := jm_delete (cn_pending k) r, cn_activity := now\<rparr>) p
          in case who of
               Request_Of i \<Rightarrow> settle_op i out p
             | Init_Of i \<Rightarrow>
                 (case out of Failed f \<Rightarrow> settle_op i out p
                  | Answered _ \<Rightarrow> set_phase i (Holding c) (update_conn c (\<lambda>k. k\<lparr>cn_init := True\<rparr>) p))
             | Closing \<Rightarrow> update_conn c (\<lambda>k. k\<lparr>cn_terminated := True\<rparr>) p)"

definition onExit :: "nat \<Rightarrow> pool \<Rightarrow> pool" where
  "onExit c p =
     (let x = cn_path (conns p c) in
      if jm_get (connections p) x = Some c
      then let p = p\<lparr>connections := jm_delete (connections p) x\<rparr> in if connections p = [] then stopSweep p else p
      else p)"

definition die :: "nat \<Rightarrow> string \<Rightarrow> millis \<Rightarrow> pool \<Rightarrow> pool" where
  "die c reason now p =
     (if cn_dead (conns p c) then p
      else let p = update_conn c (\<lambda>k. k\<lparr>cn_dead := True\<rparr>) p
        in onExit c (foldl (\<lambda>p r. answer c r (Failed (Worker_Gone reason)) now p) p (map fst (cn_pending (conns p c)))))"

definition close :: "nat \<Rightarrow> millis \<Rightarrow> pool \<Rightarrow> pool" where
  "close c now p = (if cn_dead (conns p c) then p else send c Closing now p)"

subsection \<open>The pool\<close>

text \<open>The store that was quiet for longest, of those with no operation.\<close>

fun victim :: "(path, nat) js_map \<Rightarrow> (path \<times> millis) option \<Rightarrow> pool \<Rightarrow> path option" where
  "victim [] best p = map_option fst best"
| "victim ((x, c) # rest) best p =
     (if isRetained x p then victim rest best p
      else if (case best of None \<Rightarrow> True | Some (y, t) \<Rightarrow> cn_activity (conns p c) < t)
      then victim rest (Some (x, cn_activity (conns p c))) p
      else victim rest best p)"

definition evictForCapacity :: "millis \<Rightarrow> pool \<Rightarrow> pool" where
  "evictForCapacity now p =
     (if length (connections p) < maxWorkers p then p
      else case victim (connections p) None p of None \<Rightarrow> p
        | Some x \<Rightarrow>
            (case jm_get (connections p) x of None \<Rightarrow> p
             | Some c \<Rightarrow> close c now (p\<lparr>connections := jm_delete (connections p) x\<rparr>)))"

definition new_connection :: "path \<Rightarrow> millis \<Rightarrow> connection" where
  "new_connection x now = \<lparr>cn_path = x, cn_dead = False, cn_pending = [], cn_next = 1, cn_activity = now, cn_init = False,
     cn_terminated = False, cn_closed = False\<rparr>"

definition ensure :: "nat \<Rightarrow> path \<Rightarrow> millis \<Rightarrow> pool \<Rightarrow> pool" where
  "ensure i x now p =
     (case jm_get (connections p) x of Some c \<Rightarrow> set_phase i (Holding c) p
      | None \<Rightarrow>
          let p = evictForCapacity now p;
              c = next_conn p;
              p = p\<lparr>conns := (conns p)(c := new_connection x now), next_conn := Suc c, connections := jm_set (connections p) x c\<rparr>;
              p = startSweep p
          in set_phase i (Initialising c) (send c (Init_Of i) now p))"

text \<open>The seven operations on a store differ in their message only.\<close>

definition begin_op :: "op_kind \<Rightarrow> path \<Rightarrow> millis \<Rightarrow> pool \<Rightarrow> pool" where
  "begin_op kind x now p =
     (let i = next_op p;
          p = p\<lparr>ops := (ops p)(i := \<lparr>op_kind = kind, op_path = x, op_phase = Starting\<rparr>), next_op := Suc i\<rparr>
      in ensure i x now (retain x p))"

text \<open>An operation that was given its connection sends its message.\<close>

definition resume :: "nat \<Rightarrow> millis \<Rightarrow> pool \<Rightarrow> pool" where
  "resume i now p =
     (case op_phase (ops p i) of
        Holding c \<Rightarrow>
          (if cn_dead (conns p c) then settle_op i (Failed Not_Running) p
           else set_phase i (Waiting c) (send c (Request_Of i) now p))
      | _ \<Rightarrow> p)"

text \<open>The flag \<open>cn_closed\<close> is history: the connection was closed by a call, not by the pool.\<close>

definition closed_by_call :: "nat \<Rightarrow> pool \<Rightarrow> pool" where
  "closed_by_call c = update_conn c (\<lambda>k. k\<lparr>cn_closed := True\<rparr>)"

definition closeStore :: "path \<Rightarrow> millis \<Rightarrow> pool \<Rightarrow> pool" where
  "closeStore x now p =
     (case jm_get (connections p) x of None \<Rightarrow> p
      | Some c \<Rightarrow>
          let p = p\<lparr>connections := jm_delete (connections p) x\<rparr>;
              p = (if connections p = [] then stopSweep p else p)
          in close c now (closed_by_call c p))"

definition closeAll :: "millis \<Rightarrow> pool \<Rightarrow> pool" where
  "closeAll now p =
     (let p = stopSweep p; cs = map snd (connections p); p = p\<lparr>connections := []\<rparr>
      in foldl (\<lambda>p c. close c now (closed_by_call c p)) p cs)"

definition sweep_one :: "millis \<Rightarrow> millis \<Rightarrow> pool \<Rightarrow> path \<times> nat \<Rightarrow> pool" where
  "sweep_one now idle p xc =
     (case xc of (x, c) \<Rightarrow>
        if isRetained x p then p
        else if now - cn_activity (conns p c) < idle then p
        else close c now (p\<lparr>connections := jm_delete (connections p) x\<rparr>))"

definition sweepIdle :: "millis \<Rightarrow> pool \<Rightarrow> pool" where
  "sweepIdle now p =
     (case idleTimeoutMs p of None \<Rightarrow> p
      | Some idle \<Rightarrow>
          let p = foldl (sweep_one now idle) p (connections p) in if connections p = [] then stopSweep p else p)"

subsection \<open>Steps\<close>

datatype event =
    Begin op_kind path millis
  | Resume nat millis
  | Message nat nat outcome millis
  | Exit nat string millis
  | Close_Store path millis
  | Close_All millis
  | Sweep millis

text \<open>Messages come from workers that have not ended; the sweep runs while its timer is set.\<close>

fun step :: "pool \<Rightarrow> event \<Rightarrow> pool" where
  "step p (Begin kind x now) = begin_op kind x now p"
| "step p (Resume i now) = resume i now p"
| "step p (Message c r out now) = (if cn_dead (conns p c) then p else answer c r out now p)"
| "step p (Exit c reason now) = die c reason now p"
| "step p (Close_Store x now) = closeStore x now p"
| "step p (Close_All now) = closeAll now p"
| "step p (Sweep now) = (if sweepTimer p then sweepIdle now p else p)"

definition run :: "pool \<Rightarrow> event list \<Rightarrow> pool" where "run p es = foldl step p es"


subsection \<open>The stream of lines does not depend on its chunks\<close>

lemma split_on_append:
  "split_on c (x @ y) = butlast (split_on c x) @ split_on c (last (split_on c x) @ y)"
proof (induction c x rule: split_on.induct)
  case (2 c u us)
  obtain w ws where w: "split_on c us = w # ws" by (cases "split_on c us") simp_all
  show ?case using 2 by (cases ws) (auto simp: w split: list.split)
qed simp

lemma split_on_last: "c \<notin> set (last (split_on c x))"
proof (induction c x rule: split_on.induct)
  case (2 c u us)
  obtain w ws where w: "split_on c us = w # ws" by (cases "split_on c us") simp_all
  then show ?case using 2 by (cases ws) (auto simp: w)
qed simp

lemma split_on_none: "c \<notin> set x \<Longrightarrow> split_on c x = [x]"
  by (induction c x rule: split_on.induct) auto

definition cut :: "ustr \<Rightarrow> ustr list \<times> ustr" where
  "cut x = (concat (map (\<lambda>l. emitLine (strip_return l)) (butlast (split_on newline x))), last (split_on newline x))"

lemma cut_append: "cut (x @ y) = (fst (cut x) @ fst (cut (snd (cut x) @ y)), snd (cut (snd (cut x) @ y)))"
  by (simp add: cut_def split_on_append [of newline x y] butlast_append)

lemma forward_chunks_cut:
  "newline \<notin> set b \<Longrightarrow> length b + length (concat cs) \<le> MAX_FORWARDED_WORKER_LINE_BYTES * 2 \<Longrightarrow>
   forward_chunks b cs = cut (b @ concat cs)"
proof (induction cs arbitrary: b)
  case Nil
  then show ?case by (simp add: cut_def split_on_none)
next
  case (Cons c cs)
  have chunk: "forward_chunk b c = cut (b @ c)" using Cons.prems(2) by (simp add: forward_chunk_def cut_def Let_def)
  have len: "length (snd (cut x)) \<le> length x" for x
  proof -
    have "length (last (split_on d x)) \<le> length x" for d
    proof (induction d x rule: split_on.induct)
      case (2 d u us)
      then show ?case by (cases "u = d") (auto split: list.split)
    qed simp
    then show ?thesis by (simp add: cut_def)
  qed
  have "newline \<notin> set (snd (cut (b @ c)))" by (simp add: cut_def split_on_last)
  moreover have "length (snd (cut (b @ c))) + length (concat cs) \<le> MAX_FORWARDED_WORKER_LINE_BYTES * 2"
    using len [of "b @ c"] Cons.prems(2) by simp
  ultimately have "forward_chunks (snd (cut (b @ c))) cs = cut (snd (cut (b @ c)) @ concat cs)" by (rule Cons.IH)
  then show ?case using cut_append [of "b @ c" "concat cs"]
    by (simp add: chunk case_prod_unfold)
qed

text \<open>
  Fact. While the output of a worker is not longer than two full lines of the limit, how it
  is cut into chunks does not show in the lines that are forwarded.
\<close>

theorem lines_do_not_depend_on_chunks:
  assumes "length (concat chunks) \<le> MAX_FORWARDED_WORKER_LINE_BYTES * 2"
  shows "forwardStream chunks = forwardStream [concat chunks]"
proof -
  have "forward_chunks [] chunks = cut (concat chunks)" "forward_chunks [] [concat chunks] = cut (concat chunks)"
    using forward_chunks_cut [of "[]" chunks] forward_chunks_cut [of "[]" "[concat chunks]"] assms by simp_all
  then show ?thesis by (simp only: forwardStream_def)
qed

lemma lines_do_not_depend_on_chunks_witness:
  "forwardStream [ascii ''ab'', ascii ''c'' @ [10, 100], [13, 10]] = forwardStream [concat [ascii ''ab'', ascii ''c'' @ [10, 100], [13, 10]]]"
  by (rule lines_do_not_depend_on_chunks) (simp add: MAX_FORWARDED_WORKER_LINE_BYTES_def ascii_def)

subsection \<open>The invariant\<close>

definition unsettled :: "operation \<Rightarrow> bool" where
  "unsettled w \<longleftrightarrow> (case op_phase w of Settled _ \<Rightarrow> False | _ \<Rightarrow> True)"

fun on :: "phase \<Rightarrow> nat option" where
  "on (Initialising c) = Some c"
| "on (Holding c) = Some c"
| "on (Waiting c) = Some c"
| "on Starting = None"
| "on (Settled out) = None"

lemma unsettled_on: "on (op_phase w) \<noteq> None \<Longrightarrow> unsettled w" "on (op_phase w) = Some c \<Longrightarrow> unsettled w"
  by (cases "op_phase w"; simp add: unsettled_def)+

definition live :: "pool \<Rightarrow> path \<Rightarrow> nat set" where
  "live p x = {i. i < next_op p \<and> unsettled (ops p i) \<and> op_path (ops p i) = x}"

definition in_flight :: "pool \<Rightarrow> path \<Rightarrow> int option" where
  "in_flight p x = (if live p x = {} then None else Some (int (card (live p x))))"

definition count_ok :: "pool \<Rightarrow> bool" where
  "count_ok p \<longleftrightarrow> (\<forall>x. jm_get (activeOps p) x = in_flight p x)"

definition waits :: "pool \<Rightarrow> nat \<Rightarrow> nat \<Rightarrow> requester option" where
  "waits p c r = jm_get (cn_pending (conns p c)) r"

definition req_ok :: "pool \<Rightarrow> bool" where
  "req_ok p \<longleftrightarrow>
     (\<forall>c. jm_wf (cn_pending (conns p c))) \<and>
     (\<forall>c r who. waits p c r = Some who \<longrightarrow> r < cn_next (conns p c)) \<and>
     (\<forall>c r i. waits p c r = Some (Request_Of i) \<longrightarrow> i < next_op p \<and> op_phase (ops p i) = Waiting c) \<and>
     (\<forall>c r i. waits p c r = Some (Init_Of i) \<longrightarrow> i < next_op p \<and> op_phase (ops p i) = Initialising c) \<and>
     (\<forall>c r s who. waits p c r = Some who \<and> waits p c s = Some who \<and> who \<noteq> Closing \<longrightarrow> r = s) \<and>
     (\<forall>i c. i < next_op p \<and> op_phase (ops p i) = Waiting c \<longrightarrow> (\<exists>r. waits p c r = Some (Request_Of i))) \<and>
     (\<forall>i c. i < next_op p \<and> op_phase (ops p i) = Initialising c \<longrightarrow> (\<exists>r. waits p c r = Some (Init_Of i)))"

definition conn_ok :: "pool \<Rightarrow> bool" where
  "conn_ok p \<longleftrightarrow> jm_wf (connections p) \<and>
     (\<forall>x c. jm_get (connections p) x = Some c \<longrightarrow> c < next_conn p \<and> cn_path (conns p c) = x) \<and>
     (\<forall>i c. i < next_op p \<and> on (op_phase (ops p i)) = Some c \<longrightarrow> c < next_conn p \<and> cn_path (conns p c) = op_path (ops p i) \<and>
        (jm_get (connections p) (op_path (ops p i)) = Some c \<or> cn_dead (conns p c) \<or> cn_closed (conns p c)))"

definition alive_ok :: "pool \<Rightarrow> bool" where
  "alive_ok p \<longleftrightarrow> (\<forall>x c. jm_get (connections p) x = Some c \<longrightarrow> \<not> cn_dead (conns p c)) \<and>
     (\<forall>c. cn_dead (conns p c) \<longrightarrow> cn_pending (conns p c) = []) \<and> (\<forall>c \<ge> next_conn p. cn_dead (conns p c))"

definition timer_ok :: "pool \<Rightarrow> bool" where
  "timer_ok p \<longleftrightarrow> (if idleTimeoutMs p = None then \<not> sweepTimer p else sweepTimer p = (connections p \<noteq> []))"

definition pool_ok :: "pool \<Rightarrow> bool" where
  "pool_ok p \<longleftrightarrow> count_ok p \<and> req_ok p \<and> conn_ok p \<and> alive_ok p \<and> timer_ok p"

lemma new_pool_ok: "pool_ok (new_pool m idle)"
  by (simp add: pool_ok_def new_pool_def count_ok_def in_flight_def live_def req_ok_def waits_def conn_ok_def alive_ok_def timer_ok_def no_connection_def)


subsection \<open>Counting the operations in flight\<close>

lemma finite_live [simp]: "finite (live p x)"
  by (simp add: live_def)

lemma in_flight_cong: "live q x = live p x \<Longrightarrow> in_flight q x = in_flight p x"
  by (simp add: in_flight_def)

lemma live_cong: "ops q = ops p \<Longrightarrow> next_op q = next_op p \<Longrightarrow> live q x = live p x"
  by (simp add: live_def)

lemma count_cong:
  "activeOps q = activeOps p \<Longrightarrow> ops q = ops p \<Longrightarrow> next_op q = next_op p \<Longrightarrow> count_ok q = count_ok p"
  using in_flight_cong [OF live_cong, of q p] by (simp add: count_ok_def)

lemma retained_live: "count_ok p \<Longrightarrow> isRetained x p \<longleftrightarrow> live p x \<noteq> {}"
  by (simp add: count_ok_def isRetained_def in_flight_def card_gt_0_iff)

lemma settle_live:
  "live (settle_op i out p) x = live p x - {i}"
  by (auto simp: live_def settle_op_def release_def Let_def unsettled_def)

lemma settle_count:
  assumes c: "count_ok p" and i: "i < next_op p" "unsettled (ops p i)"
  shows "count_ok (settle_op i out p)"
  unfolding count_ok_def
proof
  fix x
  let ?y = "op_path (ops p i)" and ?q = "settle_op i out p"
  define n where "n = card (live p ?y)"
  have in_live: "i \<in> live p ?y" using i by (simp add: live_def)
  then have n: "0 < n" "jm_get (activeOps p) ?y = Some (int n)" "card (live p ?y - {i}) = n - 1"
    using c by (auto simp: count_ok_def in_flight_def n_def card_gt_0_iff)
  have active: "activeOps ?q = (if n \<le> 1 then jm_delete (activeOps p) ?y else jm_set (activeOps p) ?y (int n - 1))"
    using n(1,2) by (simp add: settle_op_def release_def Let_def)
  show "jm_get (activeOps ?q) x = in_flight ?q x"
  proof (cases "x = ?y")
    case True
    have "live p ?y - {i} = {} \<longleftrightarrow> n \<le> 1" using n(1,3) card_eq_0_iff [of "live p ?y - {i}"] by auto
    then show ?thesis using True n(1,3) by (simp add: active in_flight_def settle_live of_nat_diff)
  next
    case False
    then have "live p x - {i} = live p x" by (auto simp: live_def)
    then show ?thesis using False c by (simp add: active settle_live count_ok_def in_flight_def)
  qed
qed

lemma phase_count:
  assumes "count_ok p" "unsettled (ops p i)" "on ph \<noteq> None"
  shows "count_ok (set_phase i ph p)"
proof -
  have "live (set_phase i ph p) x = live p x" for x
    using assms(2) unsettled_on(1) [of "(ops p i)\<lparr>op_phase := ph\<rparr>"] assms(3) by (auto simp: live_def set_phase_def)
  from in_flight_cong [OF this] assms(1) show ?thesis by (simp add: count_ok_def set_phase_def)
qed

lemma begin_count:
  assumes c: "count_ok p"
  shows "count_ok (retain x (p\<lparr>ops := (ops p)(next_op p := \<lparr>op_kind = kind, op_path = x, op_phase = Starting\<rparr>), next_op := Suc (next_op p)\<rparr>))"
    (is "count_ok ?q")
  unfolding count_ok_def
proof
  fix y
  have live: "live ?q y = (if y = x then insert (next_op p) (live p y) else live p y)"
    by (auto simp: live_def retain_def unsettled_def less_Suc_eq)
  have new: "next_op p \<notin> live p z" for z by (simp add: live_def)
  have "jm_get (activeOps p) x = in_flight p x" "jm_get (activeOps p) y = in_flight p y" using c by (simp_all add: count_ok_def)
  moreover have "activeOps ?q = jm_set (activeOps p) x ((case jm_get (activeOps p) x of None \<Rightarrow> 0 | Some n \<Rightarrow> n) + 1)"
    by (simp add: retain_def)
  ultimately show "jm_get (activeOps ?q) y = in_flight ?q y" using new by (simp add: in_flight_def live)
qed

subsection \<open>Requests\<close>

lemma release_fields [simp]:
  "connections (release x p) = connections p" "conns (release x p) = conns p" "next_conn (release x p) = next_conn p"
  "ops (release x p) = ops p" "next_op (release x p) = next_op p" "sweepTimer (release x p) = sweepTimer p"
  "idleTimeoutMs (release x p) = idleTimeoutMs p" "maxWorkers (release x p) = maxWorkers p"
  by (simp_all add: release_def Let_def)

lemma settle_op_fields [simp]:
  "connections (settle_op i out p) = connections p" "conns (settle_op i out p) = conns p" "next_conn (settle_op i out p) = next_conn p"
  "ops (settle_op i out p) = (ops p)(i := (ops p i)\<lparr>op_phase := Settled out\<rparr>)" "next_op (settle_op i out p) = next_op p"
  "sweepTimer (settle_op i out p) = sweepTimer p" "idleTimeoutMs (settle_op i out p) = idleTimeoutMs p"
  by (simp_all add: settle_op_def)

lemma set_phase_fields [simp]:
  "connections (set_phase i ph p) = connections p" "conns (set_phase i ph p) = conns p" "next_conn (set_phase i ph p) = next_conn p"
  "ops (set_phase i ph p) = (ops p)(i := (ops p i)\<lparr>op_phase := ph\<rparr>)" "next_op (set_phase i ph p) = next_op p"
  "sweepTimer (set_phase i ph p) = sweepTimer p" "idleTimeoutMs (set_phase i ph p) = idleTimeoutMs p"
  "activeOps (set_phase i ph p) = activeOps p"
  by (simp_all add: set_phase_def)

lemma update_conn_fields [simp]:
  "connections (update_conn c f p) = connections p" "conns (update_conn c f p) = (conns p)(c := f (conns p c))"
  "next_conn (update_conn c f p) = next_conn p" "ops (update_conn c f p) = ops p" "next_op (update_conn c f p) = next_op p"
  "sweepTimer (update_conn c f p) = sweepTimer p" "idleTimeoutMs (update_conn c f p) = idleTimeoutMs p"
  "activeOps (update_conn c f p) = activeOps p"
  by (simp_all add: update_conn_def)

lemma send_waits: "waits (send c who now p) d r = (if d = c \<and> r = cn_next (conns p c) then Some who else waits p d r)"
  by (auto simp: send_def waits_def)

lemma send_fields [simp]:
  "connections (send c who now p) = connections p" "next_conn (send c who now p) = next_conn p" "ops (send c who now p) = ops p"
  "next_op (send c who now p) = next_op p" "sweepTimer (send c who now p) = sweepTimer p"
  "idleTimeoutMs (send c who now p) = idleTimeoutMs p" "activeOps (send c who now p) = activeOps p"
  "cn_path (conns (send c who now p) d) = cn_path (conns p d)" "cn_dead (conns (send c who now p) d) = cn_dead (conns p d)"
  "cn_closed (conns (send c who now p) d) = cn_closed (conns p d)"
  "cn_next (conns (send c who now p) d) = (if d = c then Suc (cn_next (conns p c)) else cn_next (conns p d))"
  "cn_pending (conns (send c who now p) d) = (if d = c then jm_set (cn_pending (conns p c)) (cn_next (conns p c)) who else cn_pending (conns p d))"
  by (simp_all add: send_def)

text \<open>A message of an operation that holds its connection.\<close>

lemma send_request_req:
  assumes r: "req_ok p" and i: "i < next_op p" "\<And>d. op_phase (ops p i) \<noteq> Waiting d \<and> op_phase (ops p i) \<noteq> Initialising d"
    and who: "who = Request_Of i \<and> ph = Waiting c \<or> who = Init_Of i \<and> ph = Initialising c"
  shows "req_ok (set_phase i ph (send c who now p))"
proof -
  have none: "waits p d r \<noteq> Some (Request_Of i)" "waits p d r \<noteq> Some (Init_Of i)" for d r
    using r i(2) [of d] unfolding req_ok_def by blast+
  have below: "waits p d r = Some w \<Longrightarrow> r < cn_next (conns p d)" for d r w using r by (simp add: req_ok_def)
  have w: "waits (set_phase i ph (send c who now p)) d r = (if d = c \<and> r = cn_next (conns p c) then Some who else waits p d r)" for d r
    using send_waits [of c who now p d r] by (simp add: waits_def)
  have inj: "r' = s" if "waits p d r' = Some v" "waits p d s = Some v" "v \<noteq> Closing" for d r' s v
    using r that unfolding req_ok_def by blast
  let ?q = "set_phase i ph (send c who now p)"
  have wf: "jm_wf (cn_pending (conns p d))" for d using r by (simp add: req_ok_def)
  have owner: "waits p d r = Some (Request_Of j) \<Longrightarrow> j < next_op p \<and> op_phase (ops p j) = Waiting d"
    "waits p d r = Some (Init_Of j) \<Longrightarrow> j < next_op p \<and> op_phase (ops p j) = Initialising d" for d r j
    using r unfolding req_ok_def by blast+
  have has: "\<exists>r. waits ?q d r = Some v" if "waits p d r = Some v" for d r v
    using that below [OF that] by (intro exI [of _ r]) (auto simp: w)
  have has': "j < next_op p \<Longrightarrow> op_phase (ops p j) = Waiting d \<Longrightarrow> \<exists>r. waits p d r = Some (Request_Of j)"
    "j < next_op p \<Longrightarrow> op_phase (ops p j) = Initialising d \<Longrightarrow> \<exists>r. waits p d r = Some (Init_Of j)" for d j
    using r unfolding req_ok_def by blast+
  have 1: "jm_wf (cn_pending (conns ?q d))" for d using wf by (simp add: jm_wf_set)
  have 2: "waits ?q d r = Some v \<Longrightarrow> r < cn_next (conns ?q d)" for d r v
    using below [of d r v] by (auto simp: w split: if_splits)
  have 3: "j < next_op ?q \<and> op_phase (ops ?q j) = Waiting d" if "waits ?q d r = Some (Request_Of j)" for d r j
    using that owner(1) [of d r j] none(1) [of d r] who i by (auto simp: w split: if_splits)
  have 4: "j < next_op ?q \<and> op_phase (ops ?q j) = Initialising d" if "waits ?q d r = Some (Init_Of j)" for d r j
    using that owner(2) [of d r j] none(2) [of d r] who i by (auto simp: w split: if_splits)
  have 5: "r' = s" if "waits ?q d r' = Some v" "waits ?q d s = Some v" "v \<noteq> Closing" for d r' s v
    using that inj [of d r' v s] none(1) [of d r'] none(2) [of d r'] none(1) [of d s] none(2) [of d s] who
    by (auto simp: w split: if_splits)
  have new: "waits ?q c (cn_next (conns p c)) = Some who" by (simp add: w)
  have 6: "\<exists>r. waits ?q d r = Some (Request_Of j)" if "j < next_op ?q" "op_phase (ops ?q j) = Waiting d" for d j
    using that has'(1) [of j d] has [of d _ "Request_Of j"] who new by (cases "j = i") auto
  have 7: "\<exists>r. waits ?q d r = Some (Init_Of j)" if "j < next_op ?q" "op_phase (ops ?q j) = Initialising d" for d j
    using that has'(2) [of j d] has [of d _ "Init_Of j"] who new by (cases "j = i") auto
  show ?thesis unfolding req_ok_def using 1 2 3 4 5 6 7 by blast
qed

lemma send_closing_req:
  assumes r: "req_ok p"
  shows "req_ok (send c Closing now p)"
proof -
  have w: "waits (send c Closing now p) d r = (if d = c \<and> r = cn_next (conns p c) then Some Closing else waits p d r)" for d r
    by (rule send_waits)
  have below: "waits p d r = Some w \<Longrightarrow> r < cn_next (conns p d)" for d r w using r by (simp add: req_ok_def)
  have keep: "\<exists>r. waits (send c Closing now p) d r = Some v" if "\<exists>r. waits p d r = Some v" for d v
    using that below unfolding w by (metis nat_less_le)
  have 1: "jm_wf (cn_pending (conns (send c Closing now p) d))" for d using r by (simp add: jm_wf_set req_ok_def)
  have 2: "waits (send c Closing now p) d r = Some v \<Longrightarrow> r < cn_next (conns (send c Closing now p) d)" for d r v
    using below [of d r v] by (auto simp: w split: if_splits)
  have old: "waits (send c Closing now p) d r = Some v \<Longrightarrow> v \<noteq> Closing \<Longrightarrow> waits p d r = Some v" for d r v
    by (auto simp: w split: if_splits)
  have 3: "waits p d r = Some (Request_Of j) \<Longrightarrow> j < next_op p \<and> op_phase (ops p j) = Waiting d"
    "waits p d r = Some (Init_Of j) \<Longrightarrow> j < next_op p \<and> op_phase (ops p j) = Initialising d" for d r j
    using r unfolding req_ok_def by blast+
  have 4: "r' = s" if "waits p d r' = Some v" "waits p d s = Some v" "v \<noteq> Closing" for d r' s v
    using r that unfolding req_ok_def by blast
  have 5: "j < next_op p \<Longrightarrow> op_phase (ops p j) = Waiting d \<Longrightarrow> \<exists>r. waits p d r = Some (Request_Of j)"
    "j < next_op p \<Longrightarrow> op_phase (ops p j) = Initialising d \<Longrightarrow> \<exists>r. waits p d r = Some (Init_Of j)" for d j
    using r unfolding req_ok_def by blast+
  show ?thesis unfolding req_ok_def send_fields(3,4)
    using 1 2 3 [OF old] 4 [OF old old] 5 [THEN keep] by (intro conjI allI impI) blast+
qed


fun owner :: "requester \<Rightarrow> nat option" where
  "owner (Request_Of i) = Some i"
| "owner (Init_Of i) = Some i"
| "owner Closing = None"

text \<open>A request is answered: whoever made it waits no more.\<close>

lemma answered_req:
  assumes r: "req_ok p" and w: "waits p c r = Some who"
    and q: "\<And>d s. waits q d s = (if d = c \<and> s = r then None else waits p d s)" "\<And>d. cn_next (conns q d) = cn_next (conns p d)"
      "\<And>d. jm_wf (cn_pending (conns q d))" "next_op q = next_op p"
      "\<And>j. op_phase (ops q j) = (if owner who = Some j then ph else op_phase (ops p j))"
    and ph: "\<And>d. ph \<noteq> Waiting d \<and> ph \<noteq> Initialising d"
  shows "req_ok q"
proof -
  have below: "waits p d s = Some v \<Longrightarrow> s < cn_next (conns p d)" for d s v using r by (simp add: req_ok_def)
  have own: "waits p d s = Some (Request_Of j) \<Longrightarrow> j < next_op p \<and> op_phase (ops p j) = Waiting d"
    "waits p d s = Some (Init_Of j) \<Longrightarrow> j < next_op p \<and> op_phase (ops p j) = Initialising d" for d s j
    using r unfolding req_ok_def by blast+
  have inj: "r' = s" if "waits p d r' = Some v" "waits p d s = Some v" "v \<noteq> Closing" for d r' s v
    using r that unfolding req_ok_def by blast
  have has: "j < next_op p \<Longrightarrow> op_phase (ops p j) = Waiting d \<Longrightarrow> \<exists>r. waits p d r = Some (Request_Of j)"
    "j < next_op p \<Longrightarrow> op_phase (ops p j) = Initialising d \<Longrightarrow> \<exists>r. waits p d r = Some (Init_Of j)" for d j
    using r unfolding req_ok_def by blast+
  have other: "owner who \<noteq> Some j" if "waits q d s = Some v" "owner v = Some j" for d s v j
  proof
    assume o: "owner who = Some j"
    from that(1) have v: "waits p d s = Some v" "\<not> (d = c \<and> s = r)" by (auto simp: q(1) split: if_splits)
    have "who = v \<and> c = d"
      using own(1) [of c r j] own(2) [of c r j] own(1) [of d s j] own(2) [of d s j] w v(1) o that(2)
      by (cases who; cases v) auto
    moreover from that(2) have "v \<noteq> Closing" by auto
    ultimately show False using inj [of c r v s] w v by auto
  qed
  have 2: "waits q d s = Some v \<Longrightarrow> s < cn_next (conns q d)" for d s v using below [of d s v] by (simp add: q split: if_splits)
  have 3: "j < next_op q \<and> op_phase (ops q j) = Waiting d" if "waits q d s = Some (Request_Of j)" for d s j
    using that own(1) [of d s j] other [OF that] by (auto simp: q split: if_splits)
  have 4: "j < next_op q \<and> op_phase (ops q j) = Initialising d" if "waits q d s = Some (Init_Of j)" for d s j
    using that own(2) [of d s j] other [OF that] by (auto simp: q split: if_splits)
  have 5: "r' = s" if "waits q d r' = Some v" "waits q d s = Some v" "v \<noteq> Closing" for d r' s v
    using that inj [of d r' v s] by (auto simp: q(1) split: if_splits)
  have 6: "\<exists>s. waits q d s = Some (Request_Of j)" if "j < next_op q" "op_phase (ops q j) = Waiting d" for d j
    using that has(1) [of j d] w ph by (auto simp: q split: if_splits) (metis option.inject owner.simps(1))
  have 7: "\<exists>s. waits q d s = Some (Init_Of j)" if "j < next_op q" "op_phase (ops q j) = Initialising d" for d j
    using that has(2) [of j d] w ph by (auto simp: q split: if_splits) (metis option.inject owner.simps(2))
  show ?thesis unfolding req_ok_def using q(3) 2 3 4 5 6 7 by (intro conjI allI impI) blast+
qed

lemma answer_fields [simp]:
  "connections (answer c r out now p) = connections p" "next_conn (answer c r out now p) = next_conn p"
  "next_op (answer c r out now p) = next_op p" "sweepTimer (answer c r out now p) = sweepTimer p"
  "idleTimeoutMs (answer c r out now p) = idleTimeoutMs p"
  "cn_path (conns (answer c r out now p) d) = cn_path (conns p d)" "cn_dead (conns (answer c r out now p) d) = cn_dead (conns p d)"
  "cn_closed (conns (answer c r out now p) d) = cn_closed (conns p d)" "cn_next (conns (answer c r out now p) d) = cn_next (conns p d)"
  "op_path (ops (answer c r out now p) j) = op_path (ops p j)"
  "cn_pending (conns (answer c r out now p) d) = (if d = c then jm_delete (cn_pending (conns p c)) r else cn_pending (conns p d))"
  by (auto simp: answer_def Let_def jm_delete_absent map_of_eq_None_iff split: option.split requester.split outcome.split)

text \<open>The phase of whoever made the request.\<close>

lemma answer_phase:
  assumes "waits p c r = Some who"
  shows "\<exists>ph. (\<forall>j. op_phase (ops (answer c r out now p) j) = (if owner who = Some j then ph else op_phase (ops p j))) \<and>
    ((\<exists>x. ph = Settled x) \<or> ph = Holding c \<and> (\<exists>i. who = Init_Of i))"
  using assms
  by (cases who; cases out) (auto simp: answer_def waits_def Let_def)

lemma answer_req: "req_ok p \<Longrightarrow> req_ok (answer c r out now p)"
proof (cases "waits p c r")
  case None
  then show "req_ok p \<Longrightarrow> ?thesis" by (simp add: answer_def waits_def)
next
  case (Some who)
  assume r: "req_ok p"
  obtain ph where ph: "\<And>j. op_phase (ops (answer c r out now p) j) = (if owner who = Some j then ph else op_phase (ops p j))"
    "\<And>d. ph \<noteq> Waiting d \<and> ph \<noteq> Initialising d"
    using answer_phase [OF Some, of out now] by fastforce
  show ?thesis
    by (rule answered_req [OF r Some _ _ _ _ ph]) (use r in \<open>auto simp: waits_def req_ok_def jm_wf_delete\<close>)
qed


definition linked :: "pool \<Rightarrow> bool" where
  "linked p \<longleftrightarrow> count_ok p \<and> req_ok p \<and> conn_ok p"

lemma waiting_unsettled: "req_ok p \<Longrightarrow> waits p c r = Some who \<Longrightarrow> owner who = Some i \<Longrightarrow>
  i < next_op p \<and> unsettled (ops p i) \<and> on (op_phase (ops p i)) = Some c"
  by (cases who) (auto simp: req_ok_def unsettled_def)

lemma answer_count:
  assumes "count_ok p" "req_ok p"
  shows "count_ok (answer c r out now p)"
proof (cases "waits p c r")
  case None
  then show ?thesis using assms(1) by (simp add: answer_def waits_def)
next
  case (Some who)
  have c: "count_ok (update_conn d f p)" for d f using assms(1) by (subst count_cong [of _ p]) simp_all
  have cc: "count_ok (update_conn e g (update_conn d f p))" for d f e g using c by (subst count_cong [of _ "update_conn d f p"]) simp_all
  show ?thesis using Some waiting_unsettled [OF assms(2) Some] c cc
    by (cases who) (auto simp: answer_def waits_def Let_def intro!: settle_count phase_count split: outcome.split)
qed

lemma answer_conn:
  assumes "conn_ok p" "req_ok p"
  shows "conn_ok (answer c r out now p)"
proof (cases "waits p c r")
  case None
  then show ?thesis using assms(1) by (simp add: answer_def waits_def)
next
  case (Some who)
  from answer_phase [OF this, of out now] obtain ph where
    ph: "\<And>j. op_phase (ops (answer c r out now p) j) = (if owner who = Some j then ph else op_phase (ops p j))"
      "(\<exists>x. ph = Settled x) \<or> ph = Holding c \<and> (\<exists>i. who = Init_Of i)" by blast
  have "on (op_phase (ops p j)) = Some d" if "on (op_phase (ops (answer c r out now p) j)) = Some d" for j d
    using that ph(2) waiting_unsettled [OF assms(2) Some, of j] by (auto simp: ph(1) split: if_splits)
  with assms(1) show ?thesis unfolding conn_ok_def answer_fields by blast
qed

lemma answer_linked: "linked p \<Longrightarrow> linked (answer c r out now p)"
  by (simp add: linked_def answer_count answer_req answer_conn)

text \<open>A connection may leave the map when no operation needs it there.\<close>

lemma drop_linked:
  assumes p: "linked p" and x: "jm_get (connections p) x = Some c"
    and safe: "live p x = {} \<or> cn_closed (conns p c) \<or> cn_dead (conns p c)"
  shows "linked (p\<lparr>connections := jm_delete (connections p) x\<rparr>)"
proof -
  let ?q = "p\<lparr>connections := jm_delete (connections p) x\<rparr>"
  have count: "count_ok ?q" using p by (subst count_cong [of _ p]) (simp_all add: linked_def)
  have req: "req_ok ?q" using p by (simp add: linked_def req_ok_def waits_def)
  have old: "e < next_conn p \<and> cn_path (conns p e) = op_path (ops p i) \<and>
      (jm_get (connections p) (op_path (ops p i)) = Some e \<or> cn_dead (conns p e) \<or> cn_closed (conns p e))"
    if "i < next_op p" "on (op_phase (ops p i)) = Some e" for i e
    using p that unfolding linked_def conn_ok_def by blast
  have kept: "jm_get (connections ?q) (op_path (ops p i)) = Some e \<or> cn_dead (conns p e) \<or> cn_closed (conns p e)"
    if "i < next_op p" "on (op_phase (ops p i)) = Some e" for i e
  proof (cases "op_path (ops p i) = x")
    case True
    with that have "i \<in> live p x" by (simp add: live_def unsettled_on(2))
    with safe old [OF that] x True show ?thesis by auto
  qed (use old [OF that] in simp)
  have "\<forall>y e. jm_get (connections ?q) y = Some e \<longrightarrow> e < next_conn p \<and> cn_path (conns p e) = y"
    using p by (auto simp: linked_def conn_ok_def)
  with kept old have "conn_ok ?q" using p by (simp add: linked_def conn_ok_def jm_wf_delete)
  with count req show ?thesis by (simp add: linked_def)
qed

lemma linked_frame [simp]: "linked (p\<lparr>sweepTimer := b\<rparr>) = linked p" "alive_ok (p\<lparr>sweepTimer := b\<rparr>) = alive_ok p"
  using count_cong [of "p\<lparr>sweepTimer := b\<rparr>" p]
  by (simp_all add: linked_def req_ok_def waits_def conn_ok_def alive_ok_def)

subsection \<open>The end of a worker\<close>

lemma mark_dead_linked: "linked p \<Longrightarrow> linked (update_conn c (\<lambda>k. k\<lparr>cn_dead := True\<rparr>) p)"
  using count_cong [of "update_conn c (\<lambda>k. k\<lparr>cn_dead := True\<rparr>) p" p]
  by (auto simp: linked_def req_ok_def waits_def conn_ok_def)

lemma answer_all:
  assumes "linked p"
  shows "let q = foldl (\<lambda>p r. answer c r out now p) p rs in
    linked q \<and> connections q = connections p \<and> next_conn q = next_conn p \<and> sweepTimer q = sweepTimer p \<and>
    idleTimeoutMs q = idleTimeoutMs p \<and> (\<forall>d. cn_dead (conns q d) = cn_dead (conns p d) \<and> cn_path (conns q d) = cn_path (conns p d)) \<and>
    (\<forall>d. d \<noteq> c \<longrightarrow> cn_pending (conns q d) = cn_pending (conns p d)) \<and>
    (\<forall>r. jm_get (cn_pending (conns q c)) r = (if r \<in> set rs then None else jm_get (cn_pending (conns p c)) r))"
  using assms
proof (induction rs arbitrary: p)
  case (Cons r rs)
  from Cons.IH [OF answer_linked [OF Cons.prems], of c r out now] show ?case
    by (auto simp: Let_def)
qed simp

lemma die_ok:
  assumes "pool_ok p"
  shows "pool_ok (die c reason now p)"
proof (cases "cn_dead (conns p c)")
  case True
  then show ?thesis using assms by (simp add: die_def)
next
  case False
  define p1 where "p1 = update_conn c (\<lambda>k. k\<lparr>cn_dead := True\<rparr>) p"
  define q where "q = foldl (\<lambda>p r. answer c r (Failed (Worker_Gone reason)) now p) p1 (map fst (cn_pending (conns p c)))"
  have d: "die c reason now p = onExit c q" using False by (simp add: die_def Let_def p1_def q_def)
  have "linked p1" unfolding p1_def
    by (rule mark_dead_linked) (use assms in \<open>simp add: pool_ok_def linked_def\<close>)
  from answer_all [OF this, of c "Failed (Worker_Gone reason)" now "map fst (cn_pending (conns p c))", folded q_def]
  have q: "linked q" "connections q = connections p" "next_conn q = next_conn p" "sweepTimer q = sweepTimer p"
    "idleTimeoutMs q = idleTimeoutMs p" "\<And>d. cn_dead (conns q d) = (d = c \<or> cn_dead (conns p d))"
    "\<And>d. cn_path (conns q d) = cn_path (conns p d)" "\<And>d. d \<noteq> c \<Longrightarrow> cn_pending (conns q d) = cn_pending (conns p d)"
    "\<And>r. jm_get (cn_pending (conns q c)) r = (if r \<in> fst ` set (cn_pending (conns p c)) then None else jm_get (cn_pending (conns p c)) r)"
    by (auto simp: Let_def p1_def)
  have empty: "cn_pending (conns q c) = []"
    by (rule jm_empty) (auto simp: q(9) map_of_eq_None_iff)
  have dead: "cn_pending (conns q e) = []" if "cn_dead (conns q e)" for e
    using that empty q(6,8) assms by (cases "e = c") (auto simp: pool_ok_def alive_ok_def)
  have path: "jm_get (connections p) y = Some c \<Longrightarrow> y = cn_path (conns p c)" for y
    using assms by (auto simp: pool_ok_def conn_ok_def)
  have alive: "jm_get (connections p) y = Some e \<Longrightarrow> \<not> cn_dead (conns p e)" for y e
    using assms by (auto simp: pool_ok_def alive_ok_def)
  let ?x = "cn_path (conns p c)"
  have timer: "timer_ok p" using assms by (simp add: pool_ok_def)
  have far: "next_conn p \<le> e \<Longrightarrow> cn_dead (conns q e)" for e using assms q(6) by (simp add: pool_ok_def alive_ok_def)
  show ?thesis
  proof (cases "jm_get (connections p) ?x = Some c")
    case True
    let ?r = "q\<lparr>connections := jm_delete (connections p) ?x, sweepTimer := sweepTimer p \<and> jm_delete (connections p) ?x \<noteq> []\<rparr>"
    have e: "onExit c q = ?r" using True by (simp add: onExit_def Let_def q(2,4,7) stopSweep_def)
    have "linked (q\<lparr>connections := jm_delete (connections q) ?x\<rparr>)"
      using True by (intro drop_linked [OF q(1), of ?x c]) (simp_all add: q(2,6))
    then have "linked ?r" by (simp add: q(2))
    moreover have "alive_ok ?r" using dead path alive far by (auto simp: alive_ok_def q(3,6))
    moreover have "timer_ok ?r" using timer by (auto simp: timer_ok_def q(5) jm_delete_def split: if_splits)
    ultimately show ?thesis by (simp add: d e pool_ok_def linked_def)
  next
    case False
    then have e: "onExit c q = q" by (simp add: onExit_def Let_def q(2,7))
    have "alive_ok q" using dead path alive far False by (auto simp: alive_ok_def q(2,3,6))
    moreover have "timer_ok q" using timer by (simp add: timer_ok_def q(2,4,5))
    ultimately show ?thesis using q(1) by (simp add: d e pool_ok_def linked_def)
  qed
qed


subsection \<open>Closing, evicting, sweeping\<close>

text \<open>
  A connection leaves the map and is closed. That is safe for a store with no operation, and for
  a call that asks for it.
\<close>

lemma close_ok:
  assumes p: "linked p" "alive_ok p" and x: "jm_get (connections p) x = Some c"
    and safe: "live p x = {} \<or> cn_closed (conns p c)"
  shows "linked (close c now (p\<lparr>connections := jm_delete (connections p) x\<rparr>)) \<and>
    alive_ok (close c now (p\<lparr>connections := jm_delete (connections p) x\<rparr>))"
proof -
  let ?q = "p\<lparr>connections := jm_delete (connections p) x\<rparr>"
  have c: "c < next_conn p" "\<not> cn_dead (conns p c)" using p x by (auto simp: linked_def conn_ok_def alive_ok_def)
  have q: "linked ?q" using drop_linked [OF p(1) x] safe by blast
  have "count_ok (send c Closing now ?q)" using q by (subst count_cong [of _ ?q]) (simp_all add: linked_def)
  moreover have "req_ok (send c Closing now ?q)" using q by (intro send_closing_req) (simp add: linked_def)
  moreover have "conn_ok (send c Closing now ?q)" using q by (simp add: linked_def conn_ok_def)
  moreover have "alive_ok (send c Closing now ?q)" using p(2) c by (auto simp: alive_ok_def)
  ultimately show ?thesis using c(2) by (simp add: close_def linked_def)
qed

lemma close_fields [simp]:
  "connections (close c now p) = connections p" "next_conn (close c now p) = next_conn p" "ops (close c now p) = ops p"
  "next_op (close c now p) = next_op p" "sweepTimer (close c now p) = sweepTimer p" "idleTimeoutMs (close c now p) = idleTimeoutMs p"
  "activeOps (close c now p) = activeOps p" "cn_path (conns (close c now p) d) = cn_path (conns p d)"
  "cn_dead (conns (close c now p) d) = cn_dead (conns p d)" "cn_closed (conns (close c now p) d) = cn_closed (conns p d)"
  by (simp_all add: close_def)

lemma closed_by_call_fields [simp]:
  "connections (closed_by_call c p) = connections p" "next_conn (closed_by_call c p) = next_conn p" "ops (closed_by_call c p) = ops p"
  "next_op (closed_by_call c p) = next_op p" "sweepTimer (closed_by_call c p) = sweepTimer p"
  "idleTimeoutMs (closed_by_call c p) = idleTimeoutMs p" "activeOps (closed_by_call c p) = activeOps p"
  "cn_path (conns (closed_by_call c p) d) = cn_path (conns p d)" "cn_dead (conns (closed_by_call c p) d) = cn_dead (conns p d)"
  "cn_pending (conns (closed_by_call c p) d) = cn_pending (conns p d)" "cn_next (conns (closed_by_call c p) d) = cn_next (conns p d)"
  "cn_closed (conns (closed_by_call c p) d) = (d = c \<or> cn_closed (conns p d))"
  by (simp_all add: closed_by_call_def)

lemma closed_by_call_linked:
  assumes "linked p" "alive_ok p"
  shows "linked (closed_by_call c p) \<and> alive_ok (closed_by_call c p)"
proof -
  have "count_ok (closed_by_call c p)" using assms(1) by (subst count_cong [of _ p]) (simp_all add: linked_def)
  moreover have "req_ok (closed_by_call c p)" using assms(1) by (simp add: linked_def req_ok_def waits_def)
  moreover have "conn_ok (closed_by_call c p)" using assms(1) by (simp add: linked_def conn_ok_def) blast
  moreover have "alive_ok (closed_by_call c p)" using assms(2) by (simp add: alive_ok_def)
  ultimately show ?thesis by (simp add: linked_def)
qed

lemma closeStore_ok:
  assumes "pool_ok p"
  shows "pool_ok (closeStore x now p)"
proof (cases "jm_get (connections p) x")
  case None
  then show ?thesis using assms by (simp add: closeStore_def)
next
  case (Some c)
  define p1 where "p1 = closed_by_call c (if jm_delete (connections p) x = [] then stopSweep p else p)"
  have p1: "linked p1" "alive_ok p1" "jm_get (connections p1) x = Some c" "cn_closed (conns p1 c)"
    using closed_by_call_linked [of p c] closed_by_call_linked [of "stopSweep p" c] assms Some
    by (simp_all add: p1_def pool_ok_def linked_def [of p] stopSweep_def)
  let ?D = "jm_delete (connections p) x"
  have "closed_by_call c (stopSweep (p\<lparr>connections := ?D\<rparr>)) = (closed_by_call c (stopSweep p))\<lparr>connections := ?D\<rparr>"
    "closed_by_call c (p\<lparr>connections := ?D\<rparr>) = (closed_by_call c p)\<lparr>connections := ?D\<rparr>"
    by (simp_all add: closed_by_call_def update_conn_def stopSweep_def)
  then have eq: "closeStore x now p = close c now (p1\<lparr>connections := jm_delete (connections p1) x\<rparr>)"
    using Some by (cases "?D = []") (simp_all add: closeStore_def Let_def p1_def closed_by_call_def stopSweep_def)
  have "timer_ok (closeStore x now p)" using assms
    by (auto simp: eq timer_ok_def pool_ok_def p1_def closed_by_call_def stopSweep_def jm_delete_def split: if_splits)
  with close_ok [OF p1(1,2,3)] p1(4) show ?thesis by (simp add: pool_ok_def linked_def eq)
qed


lemma close_activity: "cn_activity (conns (close c now p) d) = (if d = c \<and> \<not> cn_dead (conns p c) then now else cn_activity (conns p d))"
  by (simp add: close_def send_def)

text \<open>Closing every connection of a map.\<close>

lemma closeAll_ok:
  assumes p: "pool_ok p"
  shows "pool_ok (closeAll now p)"
proof -
  define q where "q = foldl (\<lambda>p c. close c now (closed_by_call c p)) (p\<lparr>sweepTimer := False, connections := []\<rparr>) (map snd (connections p))"
  have q: "closeAll now p = q" by (simp add: closeAll_def q_def stopSweep_def)
  define allowed where "allowed u \<longleftrightarrow> count_ok u \<and> req_ok u \<and> connections u = [] \<and> sweepTimer u = False \<and>
    idleTimeoutMs u = idleTimeoutMs p \<and> next_conn u = next_conn p \<and> ops u = ops p \<and> next_op u = next_op p \<and> alive_ok u \<and>
    (\<forall>d. cn_path (conns u d) = cn_path (conns p d) \<and> cn_dead (conns u d) = cn_dead (conns p d) \<and> (cn_closed (conns p d) \<longrightarrow> cn_closed (conns u d)))" for u
  have one: "allowed (close c now (closed_by_call c u)) \<and> cn_closed (conns (close c now (closed_by_call c u)) c) \<and>
      (\<forall>d. cn_closed (conns u d) \<longrightarrow> cn_closed (conns (close c now (closed_by_call c u)) d))" if "allowed u" for u c
  proof -
    let ?v = "closed_by_call c u"
    have v: "count_ok ?v" "req_ok ?v" using that count_cong [of ?v u] by (auto simp: allowed_def req_ok_def waits_def)
    have cnt: "count_ok (send c Closing now ?v)" using v(1) by (subst count_cong [of _ ?v]) simp_all
    show ?thesis using that v cnt send_closing_req [OF v(2), of c now]
      by (auto simp: allowed_def close_def alive_ok_def split: if_splits)
  qed
  have fold: "allowed (foldl (\<lambda>p c. close c now (closed_by_call c p)) u cs) \<and>
      (\<forall>c. c \<in> set cs \<or> cn_closed (conns u c) \<longrightarrow> cn_closed (conns (foldl (\<lambda>p c. close c now (closed_by_call c p)) u cs) c))"
    if "allowed u" for u cs
    using that
  proof (induction cs arbitrary: u)
    case (Cons c cs)
    from Cons.IH [of "close c now (closed_by_call c u)"] one [OF Cons.prems, of c] show ?case by auto
  qed simp
  let ?u = "p\<lparr>sweepTimer := False, connections := []\<rparr>"
  have "allowed ?u" using p count_cong [of ?u p]
    by (simp add: allowed_def pool_ok_def req_ok_def waits_def alive_ok_def)
  from fold [OF this, of "map snd (connections p)", folded q_def]
  have a: "allowed q" "\<And>c. c \<in> snd ` set (connections p) \<or> cn_closed (conns p c) \<Longrightarrow> cn_closed (conns q c)" by auto
  have "cn_closed (conns q c)" if "jm_get (connections p) x = Some c" for x c
    using a(2) map_of_SomeD [OF that] by force
  then have "conn_ok q" using p a unfolding pool_ok_def conn_ok_def allowed_def by (simp, blast)
  moreover have "timer_ok q" using a(1) by (simp add: allowed_def timer_ok_def)
  ultimately show ?thesis using a(1) by (simp add: q pool_ok_def allowed_def)
qed


lemma victim_free:
  "victim cs best p = Some x \<Longrightarrow> (\<exists>c. (x, c) \<in> set cs \<and> \<not> isRetained x p) \<or> (\<exists>t. best = Some (x, t))"
proof (induction cs best p rule: victim.induct)
  case (2 y c rest best p)
  then show ?case by (auto split: if_splits)
qed auto

lemma evict_ok:
  assumes p: "linked p" "alive_ok p"
  shows "linked (evictForCapacity now p) \<and> alive_ok (evictForCapacity now p) \<and>
    (\<forall>y e. jm_get (connections (evictForCapacity now p)) y = Some e \<longrightarrow> jm_get (connections p) y = Some e)"
proof (cases "length (connections p) < maxWorkers p \<or> victim (connections p) None p = None")
  case True
  then show ?thesis using p by (auto simp: evictForCapacity_def)
next
  case False
  then obtain x where x: "victim (connections p) None p = Some x" by auto
  from victim_free [OF this] obtain c where c: "(x, c) \<in> set (connections p)" "\<not> isRetained x p" by auto
  then have g: "jm_get (connections p) x = Some c" using p(1) by (simp add: linked_def conn_ok_def jm_wf_def)
  have "live p x = {}" using c(2) retained_live [of p x] p(1) by (simp add: linked_def)
  with close_ok [OF p g, of now] have "linked (close c now (p\<lparr>connections := jm_delete (connections p) x\<rparr>)) \<and>
      alive_ok (close c now (p\<lparr>connections := jm_delete (connections p) x\<rparr>))" by blast
  moreover have "evictForCapacity now p = close c now (p\<lparr>connections := jm_delete (connections p) x\<rparr>)"
    using False x g by (simp add: evictForCapacity_def)
  ultimately show ?thesis by simp
qed

lemma evict_fields [simp]:
  "next_conn (evictForCapacity now p) = next_conn p" "ops (evictForCapacity now p) = ops p" "next_op (evictForCapacity now p) = next_op p"
  "sweepTimer (evictForCapacity now p) = sweepTimer p" "idleTimeoutMs (evictForCapacity now p) = idleTimeoutMs p"
  "activeOps (evictForCapacity now p) = activeOps p"
  by (simp_all add: evictForCapacity_def split: option.split)


text \<open>An operation that made no request changes its phase.\<close>

lemma phase_req:
  assumes r: "req_ok p" and ph: "\<And>d. op_phase (ops p i) \<noteq> Waiting d \<and> op_phase (ops p i) \<noteq> Initialising d"
    "\<And>d. ph \<noteq> Waiting d \<and> ph \<noteq> Initialising d"
    and q: "conns q = conns p" "next_op q = next_op p" "ops q = (ops p)(i := (ops p i)\<lparr>op_phase := ph\<rparr>)"
  shows "req_ok q"
proof -
  have w: "waits q = waits p" by (simp add: waits_def fun_eq_iff q(1))
  have "op_phase (ops q j) = Waiting d \<longleftrightarrow> op_phase (ops p j) = Waiting d"
    "op_phase (ops q j) = Initialising d \<longleftrightarrow> op_phase (ops p j) = Initialising d" for j d
    using ph by (simp_all add: q(3))
  with r show ?thesis by (simp add: req_ok_def w q(1,2))
qed

lemma ensure_new_ok:
  assumes p: "linked p" "alive_ok p" and x: "jm_get (connections p) x = None"
    and i: "i < next_op p" "op_phase (ops p i) = Starting" "op_path (ops p i) = x"
    and q: "q = p\<lparr>conns := (conns p)(next_conn p := new_connection x now), next_conn := Suc (next_conn p),
      connections := jm_set (connections p) x (next_conn p), sweepTimer := b\<rparr>"
  shows "linked (set_phase i (Initialising (next_conn p)) (send (next_conn p) (Init_Of i) now q)) \<and>
    alive_ok (set_phase i (Initialising (next_conn p)) (send (next_conn p) (Init_Of i) now q))" (is "linked ?r \<and> alive_ok ?r")
proof -
  let ?c = "next_conn p"
  have none: "cn_pending (conns p ?c) = []" using p(2) by (auto simp: alive_ok_def)
  have w: "waits q d r = waits p d r" for d r using none by (simp add: waits_def q new_connection_def)
  have below: "waits p d r = Some v \<Longrightarrow> r < cn_next (conns q d)" for d r v
    using p(1) none by (auto simp: linked_def req_ok_def q waits_def)
  have "req_ok q" using p(1) below w
    by (simp add: linked_def req_ok_def) (simp add: q new_connection_def)
  then have "req_ok ?r" using i(1,2) by (intro send_request_req) (simp_all add: q)
  moreover have "count_ok (send ?c (Init_Of i) now q)" using p(1) count_cong [of "send ?c (Init_Of i) now q" p] by (simp add: linked_def q)
  then have "count_ok ?r" using i(2) by (intro phase_count) (simp_all add: q unsettled_def)
  moreover have "conn_ok ?r"
  proof -
    have old: "e < ?c \<and> cn_path (conns p e) = op_path (ops p j) \<and>
        (jm_get (connections p) (op_path (ops p j)) = Some e \<or> cn_dead (conns p e) \<or> cn_closed (conns p e))"
      if "j < next_op p" "on (op_phase (ops p j)) = Some e" for j e
      using p(1) that unfolding linked_def conn_ok_def by blast
    have "e < next_conn ?r \<and> cn_path (conns ?r e) = op_path (ops ?r j) \<and>
        (jm_get (connections ?r) (op_path (ops ?r j)) = Some e \<or> cn_dead (conns ?r e) \<or> cn_closed (conns ?r e))"
      if "j < next_op ?r" "on (op_phase (ops ?r j)) = Some e" for j e
    proof (cases "j = i")
      case True
      with that show ?thesis by (simp add: q i(3) new_connection_def)
    next
      case False
      with that have "j < next_op p" "on (op_phase (ops p j)) = Some e" by (simp_all add: q)
      from old [OF this] False x show ?thesis by (auto simp: q)
    qed
    moreover have "e < next_conn ?r \<and> cn_path (conns ?r e) = y" if "jm_get (connections ?r) y = Some e" for y e
    proof (cases "y = x")
      case True
      with that show ?thesis by (simp add: q new_connection_def)
    next
      case False
      with that have "jm_get (connections p) y = Some e" by (simp add: q)
      then have "e < ?c" "cn_path (conns p e) = y" using p(1) unfolding linked_def conn_ok_def by blast+
      then show ?thesis by (simp add: q)
    qed
    moreover have "jm_wf (connections ?r)" using p(1) by (simp add: q linked_def conn_ok_def jm_wf_set)
    ultimately show ?thesis unfolding conn_ok_def by blast
  qed
  moreover have "alive_ok ?r"
  proof -
    have "\<not> cn_dead (conns ?r e)" if "jm_get (connections ?r) y = Some e" for y e
      using that p(2) by (auto simp: q new_connection_def alive_ok_def split: if_splits)
    moreover have "cn_pending (conns ?r e) = []" if "cn_dead (conns ?r e)" for e
      using that p(2) by (auto simp: q new_connection_def alive_ok_def split: if_splits)
    moreover have "cn_dead (conns ?r e)" if "next_conn ?r \<le> e" for e
      using that p(2) by (auto simp: q alive_ok_def)
    ultimately show ?thesis unfolding alive_ok_def by blast
  qed
  ultimately show ?thesis by (simp add: linked_def)
qed

lemma phase_conn:
  assumes "conn_ok p" "jm_get (connections p) (op_path (ops p i)) = Some c" "on ph = Some c"
  shows "conn_ok (set_phase i ph p)"
  using assms unfolding conn_ok_def set_phase_fields by auto

lemma startSweep_eq: "startSweep p = p\<lparr>sweepTimer := sweepTimer p \<or> idleTimeoutMs p \<noteq> None\<rparr>"
  by (simp add: startSweep_def)

lemma ensure_ok:
  assumes p: "pool_ok p" and i: "i < next_op p" "op_phase (ops p i) = Starting" "op_path (ops p i) = x"
  shows "pool_ok (ensure i x now p)"
proof (cases "jm_get (connections p) x")
  case (Some c)
  have "req_ok (set_phase i (Holding c) p)" by (rule phase_req [of p i "Holding c"]) (use p i(2) in \<open>simp_all add: pool_ok_def\<close>)
  moreover have "count_ok (set_phase i (Holding c) p)" by (rule phase_count) (use p i(2) in \<open>simp_all add: pool_ok_def unsettled_def\<close>)
  moreover have "conn_ok (set_phase i (Holding c) p)" by (rule phase_conn) (use p i(3) Some in \<open>simp_all add: pool_ok_def\<close>)
  ultimately show ?thesis using p Some by (simp add: ensure_def pool_ok_def alive_ok_def timer_ok_def)
next
  case None
  let ?e = "evictForCapacity now p"
  have p': "linked p" "alive_ok p" using p by (simp_all add: pool_ok_def linked_def)
  note ev = evict_ok [OF p', of now]
  have "jm_get (connections ?e) x = None"
    using ev None by (cases "jm_get (connections ?e) x") auto
  with ev have e: "linked ?e" "alive_ok ?e" "jm_get (connections ?e) x = None" by blast+
  define b where "b \<longleftrightarrow> sweepTimer p \<or> idleTimeoutMs p \<noteq> None"
  let ?q = "?e\<lparr>conns := (conns ?e)(next_conn ?e := new_connection x now), next_conn := Suc (next_conn ?e),
      connections := jm_set (connections ?e) x (next_conn ?e), sweepTimer := b\<rparr>"
  have eq: "ensure i x now p = set_phase i (Initialising (next_conn ?e)) (send (next_conn ?e) (Init_Of i) now ?q)"
    using None by (simp add: ensure_def Let_def startSweep_eq b_def)
  have "jm_set m x (k :: nat) \<noteq> []" for m k by (induction m) (auto simp: jm_set_def)
  then have "timer_ok (ensure i x now p)" using p by (auto simp: eq timer_ok_def b_def pool_ok_def split: if_splits)
  with ensure_new_ok [OF e, of i ?q b now] i show ?thesis by (simp add: pool_ok_def linked_def eq)
qed


lemma begin_ok:
  assumes p: "pool_ok p"
  shows "pool_ok (begin_op kind x now p)"
proof -
  let ?w = "\<lparr>op_kind = kind, op_path = x, op_phase = Starting\<rparr>"
  let ?q = "retain x (p\<lparr>ops := (ops p)(next_op p := ?w), next_op := Suc (next_op p)\<rparr>)"
  have f: "connections ?q = connections p" "conns ?q = conns p" "next_conn ?q = next_conn p" "ops ?q = (ops p)(next_op p := ?w)"
    "next_op ?q = Suc (next_op p)" "sweepTimer ?q = sweepTimer p" "idleTimeoutMs ?q = idleTimeoutMs p"
    by (simp_all add: retain_def)
  have w: "waits ?q = waits p" by (simp add: waits_def fun_eq_iff f)
  have own: "waits p c r = Some (Request_Of i) \<Longrightarrow> i < next_op p" "waits p c r = Some (Init_Of i) \<Longrightarrow> i < next_op p" for c r i
    using p unfolding pool_ok_def req_ok_def by blast+
  have "count_ok ?q" using p by (intro begin_count) (simp add: pool_ok_def)
  moreover have "req_ok ?q" using p unfolding pool_ok_def req_ok_def w f
    by (auto simp: less_Suc_eq dest: own)
  moreover have "conn_ok ?q" using p by (auto simp: pool_ok_def conn_ok_def f less_Suc_eq)
  moreover have "alive_ok ?q" "timer_ok ?q" using p by (simp_all add: pool_ok_def alive_ok_def timer_ok_def f)
  ultimately have "pool_ok ?q" by (simp add: pool_ok_def)
  then show ?thesis unfolding begin_op_def Let_def by (rule ensure_ok) (simp_all add: f)
qed

lemma resume_ok:
  assumes p: "pool_ok p" and i: "i < next_op p"
  shows "pool_ok (resume i now p)"
proof (cases "\<exists>c. op_phase (ops p i) = Holding c")
  case False
  then show ?thesis using p by (auto simp: resume_def split: phase.split)
next
  case True
  then obtain c where c: "op_phase (ops p i) = Holding c" by blast
  have base: "count_ok p" "req_ok p" "conn_ok p" "alive_ok p" "timer_ok p" using p by (simp_all add: pool_ok_def)
  have ph: "op_phase (ops p i) \<noteq> Waiting d \<and> op_phase (ops p i) \<noteq> Initialising d" for d by (simp add: c)
  have un: "unsettled (ops p i)" by (simp add: unsettled_def c)
  show ?thesis
  proof (cases "cn_dead (conns p c)")
    case True
    let ?q = "settle_op i (Failed Not_Running) p"
    have "count_ok ?q" by (rule settle_count [OF base(1) i un])
    moreover have "req_ok ?q" by (rule phase_req [OF base(2) ph]) simp_all
    moreover have "conn_ok ?q" using base(3) by (auto simp: conn_ok_def)
    moreover have "alive_ok ?q" "timer_ok ?q" using base(4,5) by (simp_all add: alive_ok_def timer_ok_def)
    ultimately show ?thesis using True by (simp add: resume_def c pool_ok_def)
  next
    case False
    let ?s = "send c (Request_Of i) now p"
    let ?q = "set_phase i (Waiting c) ?s"
    have "count_ok ?s" using base(1) by (subst count_cong [of _ p]) simp_all
    then have "count_ok ?q" by (rule phase_count) (simp_all add: un)
    moreover have "req_ok ?q" by (rule send_request_req [OF base(2) i ph]) simp
    moreover have "c < next_conn p \<and> cn_path (conns p c) = op_path (ops p i) \<and>
        (jm_get (connections p) (op_path (ops p i)) = Some c \<or> cn_dead (conns p c) \<or> cn_closed (conns p c))"
      using base(3) i c unfolding conn_ok_def by (metis on.simps(2))
    then have "conn_ok ?q" using base(3) by (auto simp: conn_ok_def)
    moreover have "alive_ok ?q" using base(4) False by (auto simp: alive_ok_def)
    moreover have "timer_ok ?q" using base(5) by (simp add: timer_ok_def)
    ultimately show ?thesis using False by (simp add: resume_def c pool_ok_def)
  qed
qed

lemma answer_ok:
  assumes p: "pool_ok p" and c: "\<not> cn_dead (conns p c)"
  shows "pool_ok (answer c r out now p)"
proof -
  have "linked (answer c r out now p)" using p by (intro answer_linked) (simp add: pool_ok_def linked_def)
  moreover have "alive_ok (answer c r out now p)" using p c by (auto simp: pool_ok_def alive_ok_def)
  moreover have "timer_ok (answer c r out now p)" using p by (simp add: pool_ok_def timer_ok_def)
  ultimately show ?thesis by (simp add: pool_ok_def linked_def)
qed

lemma sweep_fold_ok:
  "linked p \<Longrightarrow> alive_ok p \<Longrightarrow> distinct (map fst cs) \<Longrightarrow> (\<And>x c. (x, c) \<in> set cs \<Longrightarrow> jm_get (connections p) x = Some c) \<Longrightarrow>
   linked (foldl (sweep_one now idle) p cs) \<and> alive_ok (foldl (sweep_one now idle) p cs) \<and>
   sweepTimer (foldl (sweep_one now idle) p cs) = sweepTimer p \<and> idleTimeoutMs (foldl (sweep_one now idle) p cs) = idleTimeoutMs p \<and>
   (connections p = [] \<longrightarrow> connections (foldl (sweep_one now idle) p cs) = [])"
proof (induction cs arbitrary: p)
  case (Cons xc cs)
  obtain x c where xc: "xc = (x, c)" by (cases xc)
  have x: "jm_get (connections p) x = Some c" using Cons.prems(4) by (simp add: xc)
  let ?q = "sweep_one now idle p xc"
  have q: "linked ?q" "alive_ok ?q"
    using close_ok [OF Cons.prems(1,2) x, of now] Cons.prems(1,2) retained_live [of p x]
    by (auto simp: sweep_one_def xc linked_def)
  have other: "jm_get (connections ?q) y = Some d" if "(y, d) \<in> set cs" for y d
    using Cons.prems(4) [of y d] Cons.prems(3) that by (force simp: sweep_one_def xc)
  have t: "sweepTimer ?q = sweepTimer p" "idleTimeoutMs ?q = idleTimeoutMs p" "connections p = [] \<longrightarrow> connections ?q = []"
    by (auto simp: sweep_one_def xc jm_delete_def)
  have "distinct (map fst cs)" using Cons.prems(3) by simp
  from Cons.IH [OF q this other] t show ?case by simp
qed simp

lemma sweep_ok:
  assumes p: "pool_ok p" and t: "sweepTimer p"
  shows "pool_ok (sweepIdle now p)"
proof (cases "idleTimeoutMs p")
  case None
  then show ?thesis using p by (simp add: sweepIdle_def)
next
  case (Some idle)
  let ?q = "foldl (sweep_one now idle) p (connections p)"
  have wf: "distinct (map fst (connections p))" using p by (simp add: pool_ok_def conn_ok_def jm_wf_def)
  have "linked ?q \<and> alive_ok ?q \<and> sweepTimer ?q = sweepTimer p \<and> idleTimeoutMs ?q = idleTimeoutMs p \<and> (connections p = [] \<longrightarrow> connections ?q = [])"
    using p wf by (intro sweep_fold_ok) (simp_all add: pool_ok_def linked_def)
  moreover have "linked (stopSweep u) = linked u" "alive_ok (stopSweep u) = alive_ok u" for u by (simp_all add: stopSweep_def)
  ultimately show ?thesis using Some t
    by (auto simp: sweepIdle_def Let_def pool_ok_def linked_def timer_ok_def) (simp_all add: stopSweep_def)
qed

text \<open>An operation is resumed after it was begun.\<close>

fun begun :: "pool \<Rightarrow> event \<Rightarrow> bool" where
  "begun p (Resume i now) \<longleftrightarrow> i < next_op p"
| "begun p e \<longleftrightarrow> True"

lemma step_pool_ok: "pool_ok p \<Longrightarrow> begun p e \<Longrightarrow> pool_ok (step p e)"
  by (cases e) (simp_all add: begin_ok resume_ok answer_ok die_ok closeStore_ok closeAll_ok sweep_ok)


fun sound_run :: "pool \<Rightarrow> event list \<Rightarrow> bool" where
  "sound_run p [] \<longleftrightarrow> True"
| "sound_run p (e # es) \<longleftrightarrow> begun p e \<and> sound_run (step p e) es"

lemma pool_run_ok: "pool_ok p \<Longrightarrow> sound_run p es \<Longrightarrow> pool_ok (run p es)"
  by (induction es arbitrary: p) (simp_all add: run_def step_pool_ok)

lemma new_run_ok: "sound_run (new_pool m idle) es \<Longrightarrow> pool_ok (run (new_pool m idle) es)"
  by (rule pool_run_ok [OF new_pool_ok])

subsection \<open>What the pool promises\<close>

text \<open>
  Property C10. No operation loses its worker to the pool. In every run, the connection an
  unfinished operation was given is the one of its store in the pool, unless the worker has ended
  or the store was closed by a call: neither making room nor the idle sweep takes it away.
\<close>

theorem operations_keep_their_worker:
  assumes "sound_run (new_pool m idle) es" "p = run (new_pool m idle) es"
    "i < next_op p" "on (op_phase (ops p i)) = Some c"
  shows "jm_get (connections p) (op_path (ops p i)) = Some c \<or> cn_dead (conns p c) \<or> cn_closed (conns p c)"
  using new_run_ok [OF assms(1)] assms(2,3,4) unfolding pool_ok_def conn_ok_def by blast

text \<open>
  Property C15. No operation waits for an answer that cannot come: one that waits has its request
  with a worker that has not ended, exactly one, and when a worker ends everything that waited for
  it has failed.
\<close>

theorem waiting_operations_have_a_request:
  assumes "sound_run (new_pool m idle) es" "p = run (new_pool m idle) es"
    "i < next_op p" "op_phase (ops p i) = Waiting c"
  shows "\<not> cn_dead (conns p c) \<and> (\<exists>!r. waits p c r = Some (Request_Of i))"
proof -
  have ok: "pool_ok p" using new_run_ok [OF assms(1)] assms(2) by simp
  then obtain r where r: "waits p c r = Some (Request_Of i)" using assms(3,4) unfolding pool_ok_def req_ok_def by blast
  then have "cn_pending (conns p c) \<noteq> []" by (auto simp: waits_def)
  then have "\<not> cn_dead (conns p c)" using ok by (auto simp: pool_ok_def alive_ok_def)
  moreover have "s = r" if "waits p c s = Some (Request_Of i)" for s
    using ok r that unfolding pool_ok_def req_ok_def by blast
  ultimately show ?thesis using r by blast
qed

text \<open>
  Fact. The count of operations in flight is exact: for every store the pool has noted the
  number of its unfinished operations, and nothing for a store that has none; and the sweep timer
  is set exactly while there is a connection (never when no connection can be idle for too long).
\<close>

theorem operations_are_counted:
  assumes "sound_run (new_pool m idle) es" "p = run (new_pool m idle) es"
    "n = card {i. i < next_op p \<and> unsettled (ops p i) \<and> op_path (ops p i) = x}"
  shows "jm_get (activeOps p) x = (if n = 0 then None else Some (int n)) \<and>
    sweepTimer p = (connections p \<noteq> [] \<and> idleTimeoutMs p \<noteq> None)"
proof -
  have ok: "pool_ok p" using new_run_ok [OF assms(1)] assms(2) by simp
  have "n = card (live p x)" by (simp add: assms(3) live_def)
  then show ?thesis using ok by (auto simp: pool_ok_def count_ok_def in_flight_def timer_ok_def split: if_splits)
qed

lemma ensure_connections:
  assumes "jm_get (connections p) x = None"
  shows "connections (ensure i x now p) = jm_set (connections (evictForCapacity now p)) x (next_conn p)"
  using assms by (simp add: ensure_def Let_def startSweep_eq)

lemma victim_none: "victim cs best p = None \<longleftrightarrow> best = None \<and> (\<forall>(x, c) \<in> set cs. isRetained x p)"
proof (induction cs best p rule: victim.induct)
  case (2 y c rest best p)
  then show ?case by (auto split: option.splits)
qed auto

lemma length_delete: "jm_wf m \<Longrightarrow> jm_get m x = Some c \<Longrightarrow> Suc (length (jm_delete m x)) = length m"
proof (induction m)
  case (Cons kv m)
  obtain k v where kv: "kv = (k, v)" by (cases kv)
  have "jm_delete m x = m" if "k = x" using Cons.prems(1) that by (intro jm_delete_absent) (simp add: kv jm_wf_def)
  with Cons show ?case by (cases "k = x") (auto simp: kv jm_wf_def jm_delete_def)
qed simp

text \<open>
  Fact. How an operation on a store without a worker changes the number of workers: below
  the maximum it grows by one; at the maximum or above it stays, one worker making room, but when
  every store has an operation in flight it grows all the same. It never shrinks here, so that a
  pool that had to grow past its maximum stays there until its workers are idle for long enough.
\<close>

theorem workers_after_begin:
  assumes "sound_run (new_pool m idle) es" "p = run (new_pool m idle) es" "jm_get (connections p) x = None"
  shows "length (connections (begin_op kind x now p)) =
    (if length (connections p) < maxWorkers p \<or> \<not> list_ex (\<lambda>(y, c). \<not> isRetained y p) (connections p)
     then length (connections p) + 1 else length (connections p))"
proof -
  let ?q = "retain x (p\<lparr>ops := (ops p)(next_op p := \<lparr>op_kind = kind, op_path = x, op_phase = Starting\<rparr>), next_op := Suc (next_op p)\<rparr>)"
  have f: "connections ?q = connections p" "maxWorkers ?q = maxWorkers p" by (simp_all add: retain_def)
  have wf: "jm_wf (connections p)" using new_run_ok [OF assms(1)] assms(2) by (simp add: pool_ok_def conn_ok_def)
  have ret: "isRetained y ?q \<longleftrightarrow> isRetained y p" if "y \<noteq> x" for y using that by (simp add: isRetained_def retain_def)
  have x: "(x, c) \<notin> set (connections p)" for c using assms(3) by (force simp: map_of_eq_None_iff)
  have none: "victim (connections p) None ?q = None \<longleftrightarrow> \<not> list_ex (\<lambda>(y, c). \<not> isRetained y p) (connections p)"
    unfolding victim_none list_ex_iff using x ret by fastforce
  have "begin_op kind x now p = ensure (next_op p) x now ?q" by (simp add: begin_op_def Let_def)
  then have "connections (begin_op kind x now p) = jm_set (connections (evictForCapacity now ?q)) x (next_conn ?q)"
    using ensure_connections [of ?q x "next_op p" now] assms(3) f(1) by simp
  then have grown: "connections (begin_op kind x now p) = connections (evictForCapacity now ?q) @ [(x, next_conn ?q)]"
    if "jm_get (connections (evictForCapacity now ?q)) x = None"
    using that by (simp add: jm_set_new map_of_eq_None_iff)
  show ?thesis
  proof (cases "length (connections p) < maxWorkers p \<or> victim (connections p) None ?q = None")
    case True
    then have "evictForCapacity now ?q = ?q" by (auto simp: evictForCapacity_def f)
    with grown assms(3) f True none show ?thesis by auto
  next
    case False
    then obtain y where y: "victim (connections p) None ?q = Some y" by auto
    from victim_free [OF this] obtain c where c: "(y, c) \<in> set (connections p)" by auto
    with wf have g: "jm_get (connections p) y = Some c" by (simp add: jm_wf_def)
    have e: "connections (evictForCapacity now ?q) = jm_delete (connections p) y"
      using False y g by (simp add: evictForCapacity_def f)
    with grown assms(3) have "connections (begin_op kind x now p) = jm_delete (connections p) y @ [(x, next_conn ?q)]"
      by simp
    then have "length (connections (begin_op kind x now p)) = length (connections p)" using length_delete [OF wf g] by simp
    with False none show ?thesis by auto
  qed
qed


subsection \<open>Examples\<close>

lemmas pool_eval = new_pool_def run_def begin_op_def retain_def ensure_def evictForCapacity_def startSweep_def send_def
  update_conn_def set_phase_def new_connection_def resume_def answer_def settle_op_def release_def isRetained_def
  close_def no_operation_def no_connection_def sweepIdle_def sweep_one_def stopSweep_def jm_set_def jm_delete_def Let_def
  die_def onExit_def closeStore_def closed_by_call_def waits_def unsettled_def

definition ex_begun :: "event list" where
  "ex_begun = [Begin Get_Blob ''a'' 0, Message 0 1 (Answered ''ready'') 1, Resume 0 2, Begin Set_Blob ''b'' 3]"

definition ex_pool :: pool where "ex_pool = run (new_pool 1 (Some 10)) ex_begun"

lemma ex_sound: "sound_run (new_pool 1 (Some 10)) ex_begun"
  by (simp add: ex_begun_def pool_eval)

lemma ex_pool_facts:
  "next_op ex_pool = 2" "op_phase (ops ex_pool 0) = Waiting 0" "unsettled (ops ex_pool 0)" "op_path (ops ex_pool 0) = ''a''"
  "op_path (ops ex_pool 1) = ''b''" "\<not> cn_dead (conns ex_pool 0)" "\<not> cn_closed (conns ex_pool 0)"
  by (simp_all add: ex_pool_def ex_begun_def pool_eval)

lemma operations_keep_their_worker_witness: "jm_get (connections ex_pool) ''a'' = Some 0"
proof -
  have "0 < next_op ex_pool" "on (op_phase (ops ex_pool 0)) = Some 0" by (simp_all add: ex_pool_facts)
  from operations_keep_their_worker [OF ex_sound ex_pool_def this] show ?thesis by (simp add: ex_pool_facts)
qed

lemma waiting_operations_have_a_request_witness: "\<exists>!r. waits ex_pool 0 r = Some (Request_Of 0)"
proof -
  have "0 < next_op ex_pool" "op_phase (ops ex_pool 0) = Waiting 0" by (simp_all add: ex_pool_facts)
  from waiting_operations_have_a_request [OF ex_sound ex_pool_def this] show ?thesis by blast
qed

lemma operations_are_counted_witness: "jm_get (activeOps ex_pool) ''a'' = Some 1"
proof -
  have "{i. i < next_op ex_pool \<and> unsettled (ops ex_pool i) \<and> op_path (ops ex_pool i) = ''a''} = {0}"
    using ex_pool_facts by (auto simp: less_Suc_eq numeral_2_eq_2)
  then have "1 = card {i. i < next_op ex_pool \<and> unsettled (ops ex_pool i) \<and> op_path (ops ex_pool i) = ''a''}" by simp
  from operations_are_counted [OF ex_sound ex_pool_def this] show ?thesis by simp
qed

text \<open>A pool of one, grown to two by operations in flight at the same time, stays at two.\<close>

definition ex_ended :: "event list" where
  "ex_ended = ex_begun @ [Message 0 2 (Answered ''x'') 4, Message 1 1 (Failed (Worker_Error ''e'')) 5]"

definition ex_grown :: pool where "ex_grown = run (new_pool 1 (Some 10)) ex_ended"

lemma ex_grown_facts:
  "activeOps ex_grown = []" "connections ex_grown = [(''a'', 0), (''b'', 1)]" "maxWorkers ex_grown = 1"
  by (simp_all add: ex_grown_def ex_ended_def ex_begun_def pool_eval)

lemma workers_after_begin_witness:
  "activeOps ex_grown = [] \<and> length (connections (begin_op Get_Blob ''c'' 6 ex_grown)) = 2"
proof -
  have s: "sound_run (new_pool 1 (Some 10)) ex_ended" by (simp add: ex_ended_def ex_begun_def pool_eval)
  have "jm_get (connections ex_grown) ''c'' = None" by (simp add: ex_grown_facts)
  from workers_after_begin [OF s ex_grown_def this, of Get_Blob 6] show ?thesis
    by (simp add: ex_grown_facts isRetained_def)
qed

end
