(* ===== verification/Loop_Detector.thy ===== *)
theory Loop_Detector
  imports Js_Strings
begin

text \<open>
  The loop detector of assistant messages
  (\<^verbatim>\<open>lib/agent/loop-detection/single-message-loop-detector.ts\<close> and its configuration and caller in
  \<^verbatim>\<open>agent-loop-detector.ts\<close>). It reads a message as it streams in and stops when the tail of a
  line, or the tail of the list of lines, is one text repeated often enough.

  The check of the clock, made at every 32nd period of a line check and every 8th of a lines
  check, is an oracle \<open>late\<close> on the number of the check. The line buffer is the ring the code
  has; \<^verbatim>\<open>new Array(n)\<close> is a list of \<open>n\<close> empty lines, of which only written ones are read.
  Latency metrics and hooks are not modelled.
\<close>

subsection \<open>Configuration and state\<close>

record detector_config =
  multiLineLoopMinRepetitions :: nat
  multiLineLoopMinRepetitionsInCodeFence :: nat
  maxLineLength :: nat
  singleLineLoopMinRepetitions :: nat
  singleLineLoopMinRepetitionsInCodeFence :: nat
  singleLineLoopMinPTimesK :: nat
  singleLineLoopMinPTimesKInCodeFence :: nat
  singleLineLoopMaxP :: nat
  multiLineLoopMinPTimesK :: nat
  multiLineLoopMinPTimesKInCodeFence :: nat
  multiLineLoopMinTotalChars :: nat
  multiLineLoopMinTotalCharsInCodeFence :: nat

definition agent_config :: detector_config where
  "agent_config =
     \<lparr>multiLineLoopMinRepetitions = 2, multiLineLoopMinRepetitionsInCodeFence = 3,
      maxLineLength = 10000,
      singleLineLoopMinRepetitions = 3, singleLineLoopMinRepetitionsInCodeFence = 4,
      singleLineLoopMinPTimesK = 100, singleLineLoopMinPTimesKInCodeFence = 200,
      singleLineLoopMaxP = 256,
      multiLineLoopMinPTimesK = 3, multiLineLoopMinPTimesKInCodeFence = 4,
      multiLineLoopMinTotalChars = 50, multiLineLoopMinTotalCharsInCodeFence = 100\<rparr>"

definition MAX_LINE_QUEUE_SIZE :: "detector_config \<Rightarrow> nat" where
  "MAX_LINE_QUEUE_SIZE cfg = 50 * multiLineLoopMinRepetitions cfg"

definition BOX_DRAWING_CHARS :: "nat set" where
  "BOX_DRAWING_CHARS = {9472, 9473, 9552, 45, 95, 9474, 9475, 9553, 124, 9484, 9488, 9492, 9496, 9556,
     9559, 9562, 9565, 9487, 9491, 9495, 9499, 9555, 9558, 9561, 9564, 9500, 9508, 9516, 9524, 9532,
     9567, 9570, 9572, 9575, 9579, 9568, 9571, 9574, 9577, 9580, 9566, 9569, 9573, 9576, 9578, 43}"

record single_line_loop =
  sl_start :: nat
  sl_period :: nat
  sl_repetitions :: nat
  sl_root :: ustr

record detector =
  currentLine :: ustr
  insideCodeFence :: bool
  startIdx :: nat
  lineCount :: nat
  detectedMultiLinePattern :: "ustr list option"
  multiLinePeriodMatchRunLengths :: "nat list"
  detectedSingleLineLoop :: "single_line_loop option"
  periodMatchRunLengths :: "nat list"
  didTimeout :: bool
  lineBuffer :: "ustr list"
  clockChecks :: nat

definition new_detector :: "detector_config \<Rightarrow> detector" where
  "new_detector cfg =
     \<lparr>currentLine = [], insideCodeFence = False, startIdx = 0, lineCount = 0,
      detectedMultiLinePattern = None,
      multiLinePeriodMatchRunLengths = replicate (MAX_LINE_QUEUE_SIZE cfg + 1) 0,
      detectedSingleLineLoop = None,
      periodMatchRunLengths = replicate (singleLineLoopMaxP cfg + 1) 0,
      didTimeout = False, lineBuffer = replicate (MAX_LINE_QUEUE_SIZE cfg) [], clockChecks = 0\<rparr>"

definition loopDetected :: "detector \<Rightarrow> bool" where
  "loopDetected d \<longleftrightarrow> detectedSingleLineLoop d \<noteq> None \<or> detectedMultiLinePattern d \<noteq> None"

text \<open>
  A code point of the set is one unit. The ratio is a quotient of two counts of at most
  \<^verbatim>\<open>MAX_LINE_LENGTH\<close>, so the test against 0.8 in floating point is the exact one.
\<close>

definition isBoxBorderLine :: "ustr \<Rightarrow> bool" where
  "isBoxBorderLine line =
     (let cs = code_points line;
          boxCharCount = length (filter (\<lambda>c. \<exists>u \<in> BOX_DRAWING_CHARS. c = [u]) cs);
          totalNonWhitespace = length (filter (\<lambda>c. c \<noteq> [32] \<and> c \<noteq> [9]) cs)
      in if totalNonWhitespace = 0 then False
         else 4 * totalNonWhitespace \<le> 5 * boxCharCount)"

definition markTimedOutIfNeeded :: "(nat \<Rightarrow> bool) \<Rightarrow> detector \<Rightarrow> detector \<times> bool" where
  "markTimedOutIfNeeded late d =
     (if didTimeout d then (d, True)
      else let d1 = d\<lparr>clockChecks := Suc (clockChecks d)\<rparr>
           in if \<not> late (clockChecks d) then (d1, False) else (d1\<lparr>didTimeout := True\<rparr>, True))"

text \<open>Number of matches of \<^verbatim>\<open>/```+(?!`)/g\<close>: maximal runs of at least three backticks.\<close>

fun fence_runs :: "ustr \<Rightarrow> nat \<Rightarrow> nat" where
  "fence_runs [] run = (if run \<ge> 3 then 1 else 0)"
| "fence_runs (u # us) run =
     (if u = 96 then fence_runs us (Suc run)
      else (if run \<ge> 3 then 1 else 0) + fence_runs us 0)"

definition updateCodeFenceStateOnLineEnd :: "ustr \<Rightarrow> detector \<Rightarrow> detector" where
  "updateCodeFenceStateOnLineEnd line d =
     (if fence_runs line 0 mod 2 = 1 then d\<lparr>insideCodeFence := \<not> insideCodeFence d\<rparr> else d)"

subsection \<open>The line ring\<close>

definition addLineToQueue :: "detector_config \<Rightarrow> ustr \<Rightarrow> detector \<Rightarrow> detector" where
  "addLineToQueue cfg line d =
     (let insertIdx = (startIdx d + lineCount d) mod MAX_LINE_QUEUE_SIZE cfg;
          d1 = d\<lparr>lineBuffer := (lineBuffer d)[insertIdx := line]\<rparr>
      in if lineCount d < MAX_LINE_QUEUE_SIZE cfg then d1\<lparr>lineCount := Suc (lineCount d)\<rparr>
         else d1\<lparr>startIdx := (startIdx d + 1) mod MAX_LINE_QUEUE_SIZE cfg\<rparr>)"

definition getLineAt :: "detector_config \<Rightarrow> detector \<Rightarrow> nat \<Rightarrow> ustr" where
  "getLineAt cfg d logicalIndex = lineBuffer d ! ((startIdx d + logicalIndex) mod MAX_LINE_QUEUE_SIZE cfg)"

subsection \<open>Checking\<close>

text \<open>The threshold for the fence state.\<close>

definition min_of :: "bool \<Rightarrow> nat \<Rightarrow> nat \<Rightarrow> nat" where
  "min_of fenced outside inside = (if fenced then inside else outside)"

datatype scan = NoLoop | LoopFound | TimedOut

text \<open>The loop over the periods of a line check, from the list of periods left.\<close>

definition single_hit :: "detector_config \<Rightarrow> bool \<Rightarrow> nat \<Rightarrow> nat \<Rightarrow> bool" where
  "single_hit cfg fenced p repetitions \<longleftrightarrow>
     repetitions \<ge> min_of fenced (singleLineLoopMinRepetitions cfg) (singleLineLoopMinRepetitionsInCodeFence cfg) \<and>
     p * repetitions \<ge> min_of fenced (singleLineLoopMinPTimesK cfg) (singleLineLoopMinPTimesKInCodeFence cfg)"

definition bump_single :: "nat \<Rightarrow> detector \<Rightarrow> detector" where
  "bump_single p d = d\<lparr>periodMatchRunLengths := (periodMatchRunLengths d)[p := periodMatchRunLengths d ! p + 1]\<rparr>"

fun single_scan :: "detector_config \<Rightarrow> (nat \<Rightarrow> bool) \<Rightarrow> nat list \<Rightarrow> detector \<Rightarrow> detector \<times> scan" where
  "single_scan cfg late [] d = (d, NoLoop)"
| "single_scan cfg late (p # ps) d =
     (let (d1, out) = (if p mod 32 = 0 then markTimedOutIfNeeded late d else (d, False))
      in if out then (d1, TimedOut)
         else let line = currentLine d1; pos = length line - 1
              in if line ! pos = line ! (pos - p)
                 then let d2 = bump_single p d1; matched = periodMatchRunLengths d1 ! p + 1;
                          repetitions = matched div p + 1
                      in if single_hit cfg (insideCodeFence d1) p repetitions
                         then (d2\<lparr>detectedSingleLineLoop :=
                                   Some \<lparr>sl_start = length line - p, sl_period = p, sl_repetitions = repetitions,
                                         sl_root = drop (length line - p) line\<rparr>\<rparr>, LoopFound)
                         else single_scan cfg late ps d2
                 else single_scan cfg late ps (d1\<lparr>periodMatchRunLengths := (periodMatchRunLengths d1)[p := 0]\<rparr>))"

definition pattern_lines :: "detector_config \<Rightarrow> detector \<Rightarrow> nat \<Rightarrow> ustr list" where
  "pattern_lines cfg d p = map (getLineAt cfg d) [lineCount d - p ..< lineCount d]"

definition multi_hit :: "detector_config \<Rightarrow> bool \<Rightarrow> nat \<Rightarrow> nat \<Rightarrow> ustr list \<Rightarrow> bool" where
  "multi_hit cfg fenced p repetitions pattern \<longleftrightarrow>
     repetitions \<ge> min_of fenced (multiLineLoopMinRepetitions cfg) (multiLineLoopMinRepetitionsInCodeFence cfg) \<and>
     p * repetitions \<ge> min_of fenced (multiLineLoopMinPTimesK cfg) (multiLineLoopMinPTimesKInCodeFence cfg) \<and>
     \<not> sum_list (map length pattern) * repetitions
         < min_of fenced (multiLineLoopMinTotalChars cfg) (multiLineLoopMinTotalCharsInCodeFence cfg)"

definition bump_multi :: "nat \<Rightarrow> detector \<Rightarrow> detector" where
  "bump_multi p d = d\<lparr>multiLinePeriodMatchRunLengths :=
     (multiLinePeriodMatchRunLengths d)[p := multiLinePeriodMatchRunLengths d ! p + 1]\<rparr>"

fun multi_scan :: "detector_config \<Rightarrow> (nat \<Rightarrow> bool) \<Rightarrow> nat list \<Rightarrow> detector \<Rightarrow> detector \<times> scan" where
  "multi_scan cfg late [] d = (d, NoLoop)"
| "multi_scan cfg late (p # ps) d =
     (let (d1, out) = (if p mod 8 = 0 then markTimedOutIfNeeded late d else (d, False))
      in if out then (d1, TimedOut)
         else if getLineAt cfg d1 (lineCount d1 - 1) = getLineAt cfg d1 (lineCount d1 - 1 - p)
         then let d2 = bump_multi p d1; matched = multiLinePeriodMatchRunLengths d1 ! p + 1;
                  repetitions = matched div p + 1; pattern = pattern_lines cfg d2 p
              in if multi_hit cfg (insideCodeFence d1) p repetitions pattern
                 then (d2\<lparr>detectedMultiLinePattern := Some pattern\<rparr>, LoopFound)
                 else multi_scan cfg late ps d2
         else multi_scan cfg late ps (d1\<lparr>multiLinePeriodMatchRunLengths := (multiLinePeriodMatchRunLengths d1)[p := 0]\<rparr>))"

definition checkForMultiLineLoop :: "detector_config \<Rightarrow> (nat \<Rightarrow> bool) \<Rightarrow> detector \<Rightarrow> detector \<times> scan" where
  "checkForMultiLineLoop cfg late d =
     (let maxPeriod = min (lineCount d - 1) (MAX_LINE_QUEUE_SIZE cfg - 1)
      in multi_scan cfg late [1 ..< Suc maxPeriod] d)"

text \<open>One round of the loop of \<^verbatim>\<open>addText\<close>: the character, and whether and how the call returns.\<close>

definition end_line :: "detector_config \<Rightarrow> (nat \<Rightarrow> bool) \<Rightarrow> detector \<Rightarrow> detector \<times> bool option" where
  "end_line cfg late d =
     (let line = currentLine d; d1 = updateCodeFenceStateOnLineEnd line d;
          (d2, found) = (if js_trim line \<noteq> [] \<and> \<not> isBoxBorderLine line
                         then checkForMultiLineLoop cfg late (addLineToQueue cfg line d1) else (d1, NoLoop))
      in case found of
           TimedOut \<Rightarrow> (d2, Some False)
         | LoopFound \<Rightarrow> (d2, Some True)
         | NoLoop \<Rightarrow> (d2\<lparr>currentLine := [],
                        periodMatchRunLengths := map (\<lambda>_. 0) (periodMatchRunLengths d2)\<rparr>, None))"

definition add_char :: "detector_config \<Rightarrow> (nat \<Rightarrow> bool) \<Rightarrow> ustr \<Rightarrow> detector \<Rightarrow> detector \<times> bool option" where
  "add_char cfg late c d =
     (if c = [newline] then end_line cfg late d
      else if length (currentLine d) \<ge> maxLineLength cfg then (d, None)
      else let d1 = d\<lparr>currentLine := currentLine d @ c\<rparr>
           in if isBoxBorderLine (currentLine d1) \<or> (\<exists>u \<in> set c. js_space u) then (d1, None)
              else let pos = length (currentLine d1) - 1; maxP = min (singleLineLoopMaxP cfg) pos;
                       (d2, found) = single_scan cfg late [1 ..< Suc maxP] d1
                   in (d2, case found of NoLoop \<Rightarrow> None | LoopFound \<Rightarrow> Some True | TimedOut \<Rightarrow> Some False))"

fun add_chars :: "detector_config \<Rightarrow> (nat \<Rightarrow> bool) \<Rightarrow> ustr list \<Rightarrow> detector \<Rightarrow> detector \<times> bool" where
  "add_chars cfg late [] d = (d, False)"
| "add_chars cfg late (c # cs) d =
     (case add_char cfg late c d of
        (d1, Some r) \<Rightarrow> (d1, r)
      | (d1, None) \<Rightarrow> add_chars cfg late cs d1)"

definition addText :: "detector_config \<Rightarrow> (nat \<Rightarrow> bool) \<Rightarrow> ustr \<Rightarrow> detector \<Rightarrow> detector \<times> bool" where
  "addText cfg late newText d =
     (if loopDetected d \<or> didTimeout d then (d, loopDetected d)
      else add_chars cfg late (code_points newText) d)"

definition reset :: "detector \<Rightarrow> detector" where
  "reset d = d\<lparr>currentLine := [], insideCodeFence := False, didTimeout := False, lineCount := 0, startIdx := 0,
     detectedMultiLinePattern := None, detectedSingleLineLoop := None,
     periodMatchRunLengths := map (\<lambda>_. 0) (periodMatchRunLengths d),
     multiLinePeriodMatchRunLengths := map (\<lambda>_. 0) (multiLinePeriodMatchRunLengths d)\<rparr>"

subsection \<open>What the caller sees\<close>

definition getSingleLineLoopInfo :: "detector \<Rightarrow> (ustr \<times> nat \<times> nat) option" where
  "getSingleLineLoopInfo d = map_option (\<lambda>l. (sl_root l, sl_repetitions l, sl_period l)) (detectedSingleLineLoop d)"

fun join_lines :: "ustr list \<Rightarrow> ustr" where
  "join_lines [] = []"
| "join_lines [l] = l"
| "join_lines (l # ls) = l @ newline # join_lines ls"

definition getMultiLineLoopInfo :: "detector_config \<Rightarrow> detector \<Rightarrow> (ustr \<times> nat) option" where
  "getMultiLineLoopInfo cfg d =
     map_option (\<lambda>ls. (join_lines ls, multiLineLoopMinRepetitions cfg)) (detectedMultiLinePattern d)"

datatype loop_kind = SingleMessageSingleLine | SingleMessageMultiLine

record loop_info =
  li_loopKind :: loop_kind
  li_pattern :: ustr
  li_repetitions :: nat
  li_period :: "nat option"

definition getAgentSingleMessageLoopInfo :: "detector_config \<Rightarrow> detector \<Rightarrow> loop_info option" where
  "getAgentSingleMessageLoopInfo cfg d =
     (case getSingleLineLoopInfo d of
        Some (root, k, p) \<Rightarrow> Some \<lparr>li_loopKind = SingleMessageSingleLine, li_pattern = root, li_repetitions = k, li_period = Some p\<rparr>
      | None \<Rightarrow>
          (case getMultiLineLoopInfo cfg d of
             Some (pat, k) \<Rightarrow> Some \<lparr>li_loopKind = SingleMessageMultiLine, li_pattern = pat, li_repetitions = k, li_period = None\<rparr>
           | None \<Rightarrow> None))"

text \<open>The result of the check: \<^term>\<open>None\<close> for \<^verbatim>\<open>{ loopDetected: false }\<close>.\<close>

definition checkForAgentSingleMessageLooping ::
  "(nat \<Rightarrow> bool) \<Rightarrow> ustr \<Rightarrow> detector \<Rightarrow> detector \<times> loop_info option" where
  "checkForAgentSingleMessageLooping late newText d =
     (if loopDetected d then (d, getAgentSingleMessageLoopInfo agent_config d)
      else if didTimeout d then (d, None)
      else let (d1, found) = addText agent_config late newText d
           in if \<not> found then (d1, None) else (d1, getAgentSingleMessageLoopInfo agent_config d1))"

subsection \<open>Repetition\<close>

text \<open>The last \<open>m\<close> elements each equal the one \<open>p\<close> before.\<close>

definition matches_back :: "'a list \<Rightarrow> nat \<Rightarrow> nat \<Rightarrow> bool" where
  "matches_back xs p m \<longleftrightarrow>
     (\<forall>j < m. j + p < length xs \<and> xs ! (length xs - 1 - j) = xs ! (length xs - 1 - j - p))"

lemma matches_back_0 [simp]: "matches_back xs p 0" by (simp add: matches_back_def)

lemma matches_back_short: "matches_back xs p m \<Longrightarrow> length xs \<le> p \<Longrightarrow> m = 0"
  by (auto simp: matches_back_def dest: spec [of _ 0])

lemma matches_back_snoc:
  assumes "matches_back xs p m" and "0 < p" and "p \<le> length xs" and "y = xs ! (length xs - p)"
  shows "matches_back (xs @ [y]) p (Suc m)"
proof -
  have "j + p < length (xs @ [y]) \<and>
      (xs @ [y]) ! (length (xs @ [y]) - 1 - j) = (xs @ [y]) ! (length (xs @ [y]) - 1 - j - p)"
    if j: "j < Suc m" for j
  proof (cases j)
    case 0
    with assms show ?thesis by (simp add: nth_append)
  next
    case (Suc i)
    with assms(1) j have "i + p < length xs" "xs ! (length xs - 1 - i) = xs ! (length xs - 1 - i - p)"
      by (auto simp: matches_back_def)
    moreover have "length xs - Suc i < length xs" "length xs - Suc i - p < length xs"
      using calculation(1) by linarith+
    ultimately show ?thesis using Suc by (simp add: nth_append)
  qed
  then show ?thesis unfolding matches_back_def by blast
qed

lemma repeated_tail:
  assumes "matches_back xs p m" and "0 < p" and "p \<le> length xs"
  shows "p * Suc k \<le> p + m \<Longrightarrow>
    p * Suc k \<le> length xs \<and> drop (length xs - p * Suc k) xs = concat (replicate (Suc k) (drop (length xs - p) xs))"
proof (induction k)
  case 0
  with assms show ?case by simp
next
  case (Suc k)
  let ?n = "length xs" and ?root = "drop (length xs - p) xs"
  have m: "p * Suc k \<le> m" using Suc.prems by simp
  then have ih: "p * Suc k \<le> ?n" "drop (?n - p * Suc k) xs = concat (replicate (Suc k) ?root)"
    using Suc.IH by auto
  have "p * Suc k - 1 < m" using m assms(2) by simp
  then have "p * Suc k - 1 + p < ?n" using assms(1) by (auto simp: matches_back_def)
  then have len: "p * Suc (Suc k) \<le> ?n" using assms(2) by simp
  let ?b = "take p (drop (?n - p * Suc (Suc k)) xs)"
  have split: "drop (?n - p * Suc (Suc k)) xs = ?b @ drop (?n - p * Suc k) xs"
  proof -
    have "drop p (drop (?n - p * Suc (Suc k)) xs) = drop (?n - p * Suc k) xs"
      using len by (simp add: add.commute)
    then show ?thesis by (metis append_take_drop_id)
  qed
  have root: "take p (drop (?n - p * Suc k) xs) = ?root"
    using ih assms(3) by simp
  have "?b = take p (drop (?n - p * Suc k) xs)"
  proof (rule nth_equalityI)
    show "length ?b = length (take p (drop (?n - p * Suc k) xs))" using len ih(1) by simp
  next
    fix i assume "i < length ?b"
    then have i: "i < p" by simp
    define j where "j = p * Suc k - 1 - i"
    have jm: "j < m" using m i assms(2) by (simp add: j_def)
    have pos: "?n - 1 - j = ?n - p * Suc k + i" "?n - 1 - j - p = ?n - p * Suc (Suc k) + i"
      using i len ih(1) unfolding j_def by (simp_all add: algebra_simps)
    from jm assms(1) have "xs ! (?n - 1 - j) = xs ! (?n - 1 - j - p)" by (auto simp: matches_back_def)
    then show "?b ! i = take p (drop (?n - p * Suc k) xs) ! i"
      unfolding pos using i len ih(1) by (simp add: ac_simps)
  qed
  with split root ih len show ?case by simp
qed

lemma repetitions_of_run:
  assumes "matches_back xs p m" and "0 < p" and "p \<le> length xs" and "k = m div p + 1"
  shows "\<exists>pre. xs = pre @ concat (replicate k (drop (length xs - p) xs))"
proof -
  have "p * (m div p) \<le> m" by (rule times_div_less_eq_dividend)
  then have "p * Suc (m div p) \<le> p + m" by simp
  from repeated_tail [OF assms(1-3) this] assms(4)
  have "drop (length xs - p * k) xs = concat (replicate k (drop (length xs - p) xs))" by simp
  then show ?thesis by (metis append_take_drop_id)
qed

subsection \<open>The text as lines\<close>

text \<open>
  What the detector should be looking at, from the text alone: the current line (cut at the
  maximal length) and the finished lines that are neither blank nor box borders.
\<close>

definition spec_char :: "detector_config \<Rightarrow> ustr \<times> ustr list \<Rightarrow> ustr \<Rightarrow> ustr \<times> ustr list" where
  "spec_char cfg s c =
     (if c = [newline]
      then ([], if js_trim (fst s) \<noteq> [] \<and> \<not> isBoxBorderLine (fst s) then snd s @ [fst s] else snd s)
      else if length (fst s) \<ge> maxLineLength cfg then s
      else (fst s @ c, snd s))"

definition line_after :: "detector_config \<Rightarrow> ustr list \<Rightarrow> ustr" where
  "line_after cfg cs = fst (foldl (spec_char cfg) ([], []) cs)"

definition lines_after :: "detector_config \<Rightarrow> ustr list \<Rightarrow> ustr list" where
  "lines_after cfg cs = snd (foldl (spec_char cfg) ([], []) cs)"

lemma line_after_Nil [simp]: "line_after cfg [] = []" "lines_after cfg [] = []"
  by (simp_all add: line_after_def lines_after_def)

lemma after_snoc:
  "line_after cfg (cs @ [c]) =
    (if c = [newline] then [] else if length (line_after cfg cs) \<ge> maxLineLength cfg then line_after cfg cs
     else line_after cfg cs @ c)"
  "lines_after cfg (cs @ [c]) =
    (if c = [newline] \<and> js_trim (line_after cfg cs) \<noteq> [] \<and> \<not> isBoxBorderLine (line_after cfg cs)
     then lines_after cfg cs @ [line_after cfg cs] else lines_after cfg cs)"
  by (simp_all add: line_after_def lines_after_def spec_char_def)

subsection \<open>The ring holds the latest lines\<close>

definition ring_holds :: "detector_config \<Rightarrow> ustr list \<Rightarrow> detector \<Rightarrow> bool" where
  "ring_holds cfg hist d \<longleftrightarrow>
     lineCount d = min (MAX_LINE_QUEUE_SIZE cfg) (length hist) \<and>
     startIdx d < MAX_LINE_QUEUE_SIZE cfg \<and> (lineCount d < MAX_LINE_QUEUE_SIZE cfg \<longrightarrow> startIdx d = 0) \<and>
     length (lineBuffer d) = MAX_LINE_QUEUE_SIZE cfg \<and>
     (\<forall>i < lineCount d. getLineAt cfg d i = hist ! (length hist - lineCount d + i))"

lemma ring_holds_cong:
  "startIdx d' = startIdx d \<Longrightarrow> lineCount d' = lineCount d \<Longrightarrow> lineBuffer d' = lineBuffer d \<Longrightarrow>
   ring_holds cfg hist d' = ring_holds cfg hist d"
  by (simp add: ring_holds_def getLineAt_def)

lemma ring_index:
  fixes s i n :: nat
  assumes "s < n" "i < n"
  shows "(s + i) mod n = (if s + i < n then s + i else s + i - n)"
  using assms by (simp add: mod_if)

lemma ring_index_inj:
  fixes s i j n :: nat
  assumes "s < n" "i < n" "j < n" "(s + i) mod n = (s + j) mod n"
  shows "i = j"
  using assms by (auto simp: ring_index split: if_splits)

lemma ring_add:
  assumes "ring_holds cfg hist d" and "0 < MAX_LINE_QUEUE_SIZE cfg"
  shows "ring_holds cfg (hist @ [line]) (addLineToQueue cfg line d)"
proof (cases "lineCount d < MAX_LINE_QUEUE_SIZE cfg")
  case True
  with assms have h: "lineCount d = length hist" "startIdx d = 0" "length (lineBuffer d) = MAX_LINE_QUEUE_SIZE cfg"
      "\<forall>i < lineCount d. lineBuffer d ! i = hist ! i"
    by (auto simp: ring_holds_def getLineAt_def)
  have e: "addLineToQueue cfg line d = d\<lparr>lineBuffer := (lineBuffer d)[lineCount d := line], lineCount := Suc (lineCount d)\<rparr>"
    using True h(2) by (simp add: addLineToQueue_def Let_def)
  show ?thesis unfolding e ring_holds_def getLineAt_def
    using True h assms(2) by (auto simp: nth_append nth_list_update less_Suc_eq)
next
  case False
  let ?n = "MAX_LINE_QUEUE_SIZE cfg" and ?s = "startIdx d"
  from False assms have h: "lineCount d = ?n" "?n \<le> length hist" "?s < ?n" "length (lineBuffer d) = ?n"
      "\<forall>i < ?n. lineBuffer d ! ((?s + i) mod ?n) = hist ! (length hist - ?n + i)"
    by (auto simp: ring_holds_def getLineAt_def)
  have e: "addLineToQueue cfg line d = d\<lparr>lineBuffer := (lineBuffer d)[?s := line], startIdx := (?s + 1) mod ?n\<rparr>"
    using h False by (simp add: addLineToQueue_def Let_def)
  have get: "(lineBuffer d)[?s := line] ! (((?s + 1) mod ?n + i) mod ?n) =
      (hist @ [line]) ! (length (hist @ [line]) - ?n + i)" if i: "i < ?n" for i
  proof -
    have idx: "((?s + 1) mod ?n + i) mod ?n = (?s + Suc i) mod ?n" by (simp add: mod_add_left_eq)
    show ?thesis
    proof (cases "Suc i = ?n")
      case True
      then have "(?s + Suc i) mod ?n = ?s" using h(3) by simp
      with True h show ?thesis unfolding idx by (auto simp: nth_append)
    next
      case False
      then have i2: "Suc i < ?n" using i by simp
      have "(?s + Suc i) mod ?n \<noteq> ?s"
        using ring_index_inj [OF h(3) i2 assms(2)] h(3) by auto
      with h i2 show ?thesis unfolding idx by (auto simp: nth_append)
    qed
  qed
  have "(?s + 1) mod ?n < ?n" using assms(2) by simp
  with get h show ?thesis unfolding e ring_holds_def getLineAt_def by auto
qed

lemma ring_line:
  assumes "ring_holds cfg hist d" and "p < lineCount d"
  shows "getLineAt cfg d (lineCount d - 1 - p) = hist ! (length hist - 1 - p)"
proof -
  have "lineCount d - 1 - p < lineCount d" "lineCount d \<le> length hist"
    using assms by (auto simp: ring_holds_def)
  with assms show ?thesis by (auto simp: ring_holds_def)
qed

lemma ring_pattern:
  assumes "ring_holds cfg hist d" and "p \<le> lineCount d"
  shows "pattern_lines cfg d p = drop (length hist - p) hist"
proof -
  have le: "lineCount d \<le> length hist" using assms(1) by (simp add: ring_holds_def)
  show ?thesis
  proof (rule nth_equalityI)
    show "length (pattern_lines cfg d p) = length (drop (length hist - p) hist)"
      using assms(2) le by (simp add: pattern_lines_def)
  next
    fix i assume "i < length (pattern_lines cfg d p)"
    then have i: "i < p" using assms(2) by (simp add: pattern_lines_def)
    have "lineCount d - p + i < lineCount d" using i assms(2) by simp
    then have "getLineAt cfg d (lineCount d - p + i) = hist ! (length hist - lineCount d + (lineCount d - p + i))"
      using assms(1) unfolding ring_holds_def by blast
    moreover have "length hist - lineCount d + (lineCount d - p + i) = length hist - p + i"
      using le assms(2) by simp
    moreover have "pattern_lines cfg d p ! i = getLineAt cfg d (lineCount d - p + i)"
      using i assms(2) by (simp add: pattern_lines_def)
    ultimately show "pattern_lines cfg d p ! i = drop (length hist - p) hist ! i"
      using le assms(2) by simp
  qed
qed

subsection \<open>The scans keep the run lengths\<close>

definition runs_hold :: "'a list \<Rightarrow> nat list \<Rightarrow> nat \<Rightarrow> bool" where
  "runs_hold xs runs bound \<longleftrightarrow> (\<forall>p. 0 < p \<and> p < bound \<longrightarrow> matches_back xs p (runs ! p))"

text \<open>Half-way through a scan: the periods of \<open>ps\<close> still speak of the list without its last element.\<close>

definition runs_between :: "'a list \<Rightarrow> 'a \<Rightarrow> nat list \<Rightarrow> nat \<Rightarrow> nat list \<Rightarrow> bool" where
  "runs_between xs y runs bound ps \<longleftrightarrow>
     (\<forall>p. 0 < p \<and> p < bound \<longrightarrow>
        matches_back (if p \<in> set ps then xs else xs @ [y]) p (runs ! p))"

lemma runs_start:
  assumes "runs_hold xs runs bound" and "\<forall>p. 0 < p \<and> p < bound \<and> p \<notin> set ps \<longrightarrow> length xs \<le> p"
  shows "runs_between xs y runs bound ps"
  unfolding runs_between_def
proof (intro allI impI)
  fix p assume p: "0 < p \<and> p < bound"
  with assms(1) have m: "matches_back xs p (runs ! p)" by (simp add: runs_hold_def)
  show "matches_back (if p \<in> set ps then xs else xs @ [y]) p (runs ! p)"
  proof (cases "p \<in> set ps")
    case False
    with p assms(2) matches_back_short [OF m] show ?thesis by simp
  qed (use m in simp)
qed

lemma runs_end: "runs_between xs y runs bound [] \<Longrightarrow> runs_hold (xs @ [y]) runs bound"
  by (simp add: runs_between_def runs_hold_def)

lemma runs_match:
  assumes "runs_between xs y runs bound (p # ps)" and "p \<notin> set ps" and "0 < p" and "p \<le> length xs"
    and "y = xs ! (length xs - p)" and "p < length runs" and "p < bound"
  shows "runs_between xs y (runs[p := runs ! p + 1]) bound ps"
    and "matches_back (xs @ [y]) p (runs ! p + 1)"
proof -
  show m: "matches_back (xs @ [y]) p (runs ! p + 1)"
  proof -
    have "matches_back xs p (runs ! p)"
      using assms(1,3,7) unfolding runs_between_def by (auto dest: spec [of _ p])
    from matches_back_snoc [OF this assms(3-5)] show ?thesis by simp
  qed
  show "runs_between xs y (runs[p := runs ! p + 1]) bound ps"
    unfolding runs_between_def
  proof (intro allI impI)
    fix q assume q: "0 < q \<and> q < bound"
    show "matches_back (if q \<in> set ps then xs else xs @ [y]) q (runs[p := runs ! p + 1] ! q)"
    proof (cases "q = p")
      case True
      with m assms(2,6) show ?thesis by simp
    next
      case False
      with q assms(1) show ?thesis by (auto simp: runs_between_def)
    qed
  qed
qed

lemma runs_mismatch:
  assumes "runs_between xs y runs bound (p # ps)" and "p < length runs"
  shows "runs_between xs y (runs[p := 0]) bound ps"
  unfolding runs_between_def
proof (intro allI impI)
  fix q assume q: "0 < q \<and> q < bound"
  show "matches_back (if q \<in> set ps then xs else xs @ [y]) q (runs[p := 0] ! q)"
  proof (cases "q = p")
    case True
    with assms(2) show ?thesis by simp
  next
    case False
    with q assms(1) show ?thesis by (auto simp: runs_between_def)
  qed
qed

text \<open>What a reported loop over lines is: the lines end in \<open>k\<close> copies of the pattern, and the
  thresholds of the fence state hold.\<close>

definition multi_evidence :: "detector_config \<Rightarrow> ustr list \<Rightarrow> detector \<Rightarrow> bool" where
  "multi_evidence cfg hist d \<longleftrightarrow>
     (\<exists>pat k pre. detectedMultiLinePattern d = Some pat \<and> pat \<noteq> [] \<and> hist = pre @ concat (replicate k pat) \<and>
        min_of (insideCodeFence d) (multiLineLoopMinRepetitions cfg) (multiLineLoopMinRepetitionsInCodeFence cfg) \<le> k \<and>
        min_of (insideCodeFence d) (multiLineLoopMinPTimesK cfg) (multiLineLoopMinPTimesKInCodeFence cfg) \<le> length pat * k \<and>
        min_of (insideCodeFence d) (multiLineLoopMinTotalChars cfg) (multiLineLoopMinTotalCharsInCodeFence cfg)
          \<le> sum_list (map length pat) * k)"

definition quiet :: "detector \<Rightarrow> bool" where
  "quiet d \<longleftrightarrow> detectedMultiLinePattern d = None \<and> detectedSingleLineLoop d = None \<and> \<not> didTimeout d"

definition multi_inv :: "detector_config \<Rightarrow> ustr list \<Rightarrow> ustr \<Rightarrow> nat list \<Rightarrow> detector \<Rightarrow> bool" where
  "multi_inv cfg hist l ps d \<longleftrightarrow> ring_holds cfg (hist @ [l]) d \<and>
     length (multiLinePeriodMatchRunLengths d) = MAX_LINE_QUEUE_SIZE cfg + 1 \<and>
     runs_between hist l (multiLinePeriodMatchRunLengths d) (MAX_LINE_QUEUE_SIZE cfg) ps"

definition same_line :: "detector \<Rightarrow> detector \<Rightarrow> bool" where
  "same_line d d' \<longleftrightarrow> currentLine d' = currentLine d \<and> insideCodeFence d' = insideCodeFence d \<and>
     periodMatchRunLengths d' = periodMatchRunLengths d \<and> lineCount d' = lineCount d"

lemma clock_check:
  assumes "quiet d" and "c = (if b then markTimedOutIfNeeded late d else (d, False))"
  shows "c = (d\<lparr>clockChecks := Suc (clockChecks d), didTimeout := True\<rparr>, True) \<or>
    (\<exists>n. c = (d\<lparr>clockChecks := n\<rparr>, False))"
proof (cases b)
  case True
  with assms show ?thesis by (auto simp: markTimedOutIfNeeded_def quiet_def Let_def)
next
  case False
  with assms(2) show ?thesis by (intro disjI2 exI [of _ "clockChecks d"]) simp
qed

definition multi_result :: "detector_config \<Rightarrow> ustr list \<Rightarrow> ustr \<Rightarrow> detector \<Rightarrow> scan \<Rightarrow> bool" where
  "multi_result cfg hist l d r \<longleftrightarrow>
     (case r of NoLoop \<Rightarrow> quiet d \<and> multi_inv cfg hist l [] d
      | TimedOut \<Rightarrow> didTimeout d \<and> \<not> loopDetected d
      | LoopFound \<Rightarrow> detectedSingleLineLoop d = None \<and> multi_evidence cfg (hist @ [l]) d)"

lemma multi_inv_clock [simp]: "multi_inv cfg hist l ps (d\<lparr>clockChecks := n\<rparr>) = multi_inv cfg hist l ps d"
  by (simp add: multi_inv_def ring_holds_def getLineAt_def)

lemma bump_multi_inv:
  assumes "multi_inv cfg hist l (p # ps) d" and "p \<notin> set ps" and "0 < p" "p < MAX_LINE_QUEUE_SIZE cfg" "p < lineCount d"
    and "getLineAt cfg d (lineCount d - 1) = getLineAt cfg d (lineCount d - 1 - p)"
  shows "multi_inv cfg hist l ps (bump_multi p d)"
    and "matches_back (hist @ [l]) p (multiLinePeriodMatchRunLengths d ! p + 1)"
proof -
  have ring: "ring_holds cfg (hist @ [l]) d" using assms(1) by (simp add: multi_inv_def)
  then have len: "lineCount d \<le> Suc (length hist)" by (auto simp: ring_holds_def)
  have "(hist @ [l]) ! (length (hist @ [l]) - 1) = (hist @ [l]) ! (length (hist @ [l]) - 1 - p)"
    using ring_line [OF ring, of 0] ring_line [OF ring assms(5)] assms(5,6) by simp
  moreover have ple: "p \<le> length hist" using assms(5) len by simp
  moreover have "length hist - p < length hist" using ple assms(3) by simp
  ultimately have y: "l = hist ! (length hist - p)" "p \<le> length hist" by (simp_all add: nth_append)
  have r: "runs_between hist l (multiLinePeriodMatchRunLengths d) (MAX_LINE_QUEUE_SIZE cfg) (p # ps)"
    "p < length (multiLinePeriodMatchRunLengths d)"
    using assms(1,4) by (auto simp: multi_inv_def)
  note m = runs_match [OF r(1) assms(2,3) y(2,1) r(2) assms(4)]
  show "matches_back (hist @ [l]) p (multiLinePeriodMatchRunLengths d ! p + 1)" by (rule m(2))
  show "multi_inv cfg hist l ps (bump_multi p d)"
    using assms(1) m(1) by (simp add: multi_inv_def bump_multi_def ring_holds_def getLineAt_def)
qed

lemma mismatch_multi_inv:
  assumes "multi_inv cfg hist l (p # ps) d" and "p < MAX_LINE_QUEUE_SIZE cfg"
  shows "multi_inv cfg hist l ps (d\<lparr>multiLinePeriodMatchRunLengths := (multiLinePeriodMatchRunLengths d)[p := 0]\<rparr>)"
  using assms runs_mismatch [of hist l "multiLinePeriodMatchRunLengths d" "MAX_LINE_QUEUE_SIZE cfg" p ps]
  by (simp add: multi_inv_def ring_holds_def getLineAt_def)

lemma found_multi_evidence:
  assumes "ring_holds cfg (hist @ [l]) d" and "matches_back (hist @ [l]) p m" and "0 < p" "p \<le> lineCount d"
    and "k = m div p + 1" and "pat = pattern_lines cfg d p"
    and "min_of (insideCodeFence d) (multiLineLoopMinRepetitions cfg) (multiLineLoopMinRepetitionsInCodeFence cfg) \<le> k"
    and "min_of (insideCodeFence d) (multiLineLoopMinPTimesK cfg) (multiLineLoopMinPTimesKInCodeFence cfg) \<le> p * k"
    and "min_of (insideCodeFence d) (multiLineLoopMinTotalChars cfg) (multiLineLoopMinTotalCharsInCodeFence cfg)
          \<le> sum_list (map length pat) * k"
  shows "multi_evidence cfg (hist @ [l]) (d\<lparr>detectedMultiLinePattern := Some pat\<rparr>)"
proof -
  have le: "p \<le> length (hist @ [l])" using assms(1,4) by (auto simp: ring_holds_def)
  have pat: "pat = drop (length (hist @ [l]) - p) (hist @ [l])"
    using ring_pattern [OF assms(1,4)] assms(6) by simp
  then have "length pat = p" using le by simp
  moreover obtain pre where "hist @ [l] = pre @ concat (replicate k pat)"
    using repetitions_of_run [OF assms(2,3) le assms(5)] pat by auto
  ultimately show ?thesis using assms(3,7-9) unfolding multi_evidence_def
    by (intro exI [of _ pat] exI [of _ k] exI [of _ pre]) auto
qed

lemma multi_scan_result:
  assumes "multi_inv cfg hist l ps d" and "quiet d" and "distinct ps"
    and "\<forall>p \<in> set ps. 0 < p \<and> p < MAX_LINE_QUEUE_SIZE cfg \<and> p < lineCount d"
    and "multi_scan cfg late ps d = (d', r)"
  shows "same_line d d' \<and> multi_result cfg hist l d' r"
  using assms
proof (induction ps arbitrary: d)
  case Nil
  then show ?case by (auto simp: same_line_def multi_result_def)
next
  case (Cons p ps)
  define c where "c = (if p mod 8 = 0 then markTimedOutIfNeeded late d else (d, False))"
  consider (out) "c = (d\<lparr>clockChecks := Suc (clockChecks d), didTimeout := True\<rparr>, True)" |
      (on) n where "c = (d\<lparr>clockChecks := n\<rparr>, False)"
    using clock_check [OF Cons.prems(2) c_def] by blast
  then show ?case
  proof cases
    case out
    with Cons.prems have "d' = d\<lparr>clockChecks := Suc (clockChecks d), didTimeout := True\<rparr>" "r = TimedOut"
      by (auto simp: c_def [symmetric])
    with Cons.prems(2) show ?thesis by (simp add: same_line_def multi_result_def quiet_def loopDetected_def)
  next
    case on
    define d1 where "d1 = d\<lparr>clockChecks := n\<rparr>"
    have d1: "multi_inv cfg hist l (p # ps) d1" "quiet d1" "same_line d d1"
      using Cons.prems by (auto simp: d1_def quiet_def same_line_def)
    have p: "p \<notin> set ps" "0 < p" "p < MAX_LINE_QUEUE_SIZE cfg" "p < lineCount d1"
      using Cons.prems by (auto simp: d1_def)
    show ?thesis
    proof (cases "getLineAt cfg d1 (lineCount d1 - 1) = getLineAt cfg d1 (lineCount d1 - 1 - p)")
      case False
      let ?d = "d1\<lparr>multiLinePeriodMatchRunLengths := (multiLinePeriodMatchRunLengths d1)[p := 0]\<rparr>"
      have "multi_scan cfg late ps ?d = (d', r)"
        using Cons.prems(5) on False by (simp add: c_def [symmetric] d1_def)
      moreover have "quiet ?d" "same_line d1 ?d" using d1 by (auto simp: quiet_def same_line_def)
      ultimately show ?thesis
        using Cons.IH [of ?d] mismatch_multi_inv [OF d1(1) p(3)] Cons.prems d1(3) by (auto simp: same_line_def)
    next
      case True
      let ?d = "bump_multi p d1" and ?m = "multiLinePeriodMatchRunLengths d1 ! p + 1"
      note bump = bump_multi_inv [OF d1(1) p True]
      have q: "quiet ?d" "same_line d1 ?d" using d1 by (auto simp: quiet_def same_line_def bump_multi_def)
      define k where "k = ?m div p + 1"
      define pat where "pat = pattern_lines cfg ?d p"
      define hit where "hit = multi_hit cfg (insideCodeFence d1) p k pat"
      have scan: "(if hit then (?d\<lparr>detectedMultiLinePattern := Some pat\<rparr>, LoopFound) else multi_scan cfg late ps ?d) = (d', r)"
        using Cons.prems(5) on True
        by (simp add: c_def [symmetric] d1_def [symmetric] Let_def hit_def k_def pat_def split: if_splits)
      show ?thesis
      proof (cases hit)
        case False
        with scan Cons.IH [of ?d] bump(1) q Cons.prems d1(3) show ?thesis by (auto simp: same_line_def)
      next
        case True
        have ring: "ring_holds cfg (hist @ [l]) ?d" using bump(1) by (simp add: multi_inv_def)
        have f: "insideCodeFence ?d = insideCodeFence d1" "lineCount ?d = lineCount d1" by (simp_all add: bump_multi_def)
        have "multi_evidence cfg (hist @ [l]) (?d\<lparr>detectedMultiLinePattern := Some pat\<rparr>)"
          by (rule found_multi_evidence [OF ring bump(2) p(2) _ k_def pat_def])
            (use p f True in \<open>auto simp: hit_def multi_hit_def not_less\<close>)
        with True scan q d1(3) show ?thesis
          by (auto simp: multi_result_def same_line_def quiet_def)
      qed
    qed
  qed
qed

subsection \<open>The scan of a line\<close>

definition same_lines :: "detector \<Rightarrow> detector \<Rightarrow> bool" where
  "same_lines d d' \<longleftrightarrow> currentLine d' = currentLine d \<and> insideCodeFence d' = insideCodeFence d \<and>
     startIdx d' = startIdx d \<and> lineCount d' = lineCount d \<and> lineBuffer d' = lineBuffer d \<and>
     multiLinePeriodMatchRunLengths d' = multiLinePeriodMatchRunLengths d \<and>
     detectedMultiLinePattern d' = detectedMultiLinePattern d \<and>
     length (periodMatchRunLengths d') = length (periodMatchRunLengths d)"

lemma same_lines_refl [simp]: "same_lines d d" by (simp add: same_lines_def)

lemma same_lines_trans: "same_lines a b \<Longrightarrow> same_lines b c \<Longrightarrow> same_lines a c" by (simp add: same_lines_def)

text \<open>A line without white space, box characters and surrogates is checked at every character.\<close>

definition clean :: "ustr \<Rightarrow> bool" where
  "clean line \<longleftrightarrow> (\<forall>u \<in> set line. \<not> js_space u \<and> u \<notin> BOX_DRAWING_CHARS \<and> \<not> is_high u)"

definition single_evidence :: "detector_config \<Rightarrow> ustr \<Rightarrow> detector \<Rightarrow> bool" where
  "single_evidence cfg line d \<longleftrightarrow>
     (\<exists>lp. detectedSingleLineLoop d = Some lp \<and>
        single_hit cfg (insideCodeFence d) (sl_period lp) (sl_repetitions lp) \<and>
        (clean line \<longrightarrow> length (sl_root lp) = sl_period lp \<and> sl_root lp \<noteq> [] \<and>
          (\<exists>pre. line = pre @ concat (replicate (sl_repetitions lp) (sl_root lp)))))"

definition single_inv :: "detector_config \<Rightarrow> ustr \<Rightarrow> nat \<Rightarrow> nat list \<Rightarrow> detector \<Rightarrow> bool" where
  "single_inv cfg line y ps d \<longleftrightarrow>
     runs_between line y (periodMatchRunLengths d) (singleLineLoopMaxP cfg + 1) ps"

definition single_result :: "detector_config \<Rightarrow> ustr \<Rightarrow> detector \<Rightarrow> scan \<Rightarrow> bool" where
  "single_result cfg line d r \<longleftrightarrow>
     (case r of NoLoop \<Rightarrow> quiet d | TimedOut \<Rightarrow> didTimeout d \<and> \<not> loopDetected d
      | LoopFound \<Rightarrow> detectedMultiLinePattern d = None \<and> single_evidence cfg line d)"

lemma single_scan_result:
  assumes "quiet d" and "distinct ps" and "length (periodMatchRunLengths d) = singleLineLoopMaxP cfg + 1"
    and "\<forall>p \<in> set ps. 0 < p \<and> p \<le> singleLineLoopMaxP cfg \<and> p < length (currentLine d)"
    and "clean (currentLine d) \<longrightarrow> currentLine d = line @ [y] \<and> single_inv cfg line y ps d"
    and "single_scan cfg late ps d = (d', r)"
  shows "same_lines d d' \<and> single_result cfg (currentLine d) d' r \<and>
    (clean (currentLine d) \<and> r = NoLoop \<longrightarrow> single_inv cfg line y [] d')"
  using assms
proof (induction ps arbitrary: d)
  case Nil
  then show ?case by (auto simp: single_result_def)
next
  case (Cons p ps)
  define c where "c = (if p mod 32 = 0 then markTimedOutIfNeeded late d else (d, False))"
  consider (out) "c = (d\<lparr>clockChecks := Suc (clockChecks d), didTimeout := True\<rparr>, True)" |
      (on) n where "c = (d\<lparr>clockChecks := n\<rparr>, False)"
    using clock_check [OF Cons.prems(1) c_def] by blast
  then show ?case
  proof cases
    case out
    with Cons.prems have "d' = d\<lparr>clockChecks := Suc (clockChecks d), didTimeout := True\<rparr>" "r = TimedOut"
      by (auto simp: c_def [symmetric])
    with Cons.prems(1) show ?thesis by (simp add: same_lines_def single_result_def quiet_def loopDetected_def)
  next
    case on
    define d1 where "d1 = d\<lparr>clockChecks := n\<rparr>"
    let ?line = "currentLine d" and ?m = "periodMatchRunLengths d1 ! p + 1"
    have d1: "quiet d1" "same_lines d d1" "currentLine d1 = ?line" "insideCodeFence d1 = insideCodeFence d"
        "length (periodMatchRunLengths d1) = singleLineLoopMaxP cfg + 1"
        "periodMatchRunLengths d1 = periodMatchRunLengths d"
      using Cons.prems by (auto simp: d1_def quiet_def same_lines_def)
    have p: "p \<notin> set ps" "0 < p" "p \<le> singleLineLoopMaxP cfg" "p < length ?line"
      using Cons.prems(2,4) by auto
    have plen: "p < length (periodMatchRunLengths d1)" using p(3) d1(5) by simp
    show ?thesis
    proof (cases "?line ! (length ?line - 1) = ?line ! (length ?line - 1 - p)")
      case False
      let ?d = "d1\<lparr>periodMatchRunLengths := (periodMatchRunLengths d1)[p := 0]\<rparr>"
      have scan: "single_scan cfg late ps ?d = (d', r)"
        using Cons.prems(6) on False by (simp add: c_def [symmetric] d1_def)
      have q: "quiet ?d" "same_lines d ?d" "currentLine ?d = ?line"
        using d1 by (auto simp: quiet_def same_lines_def)
      have "clean ?line \<longrightarrow> ?line = line @ [y] \<and> single_inv cfg line y ps ?d"
        using Cons.prems(5) runs_mismatch [OF _ plen] d1(6) by (auto simp: single_inv_def)
      then have "same_lines ?d d' \<and> single_result cfg (currentLine ?d) d' r \<and>
          (clean (currentLine ?d) \<and> r = NoLoop \<longrightarrow> single_inv cfg line y [] d')"
        by (intro Cons.IH) (use Cons.prems q scan d1(5) in auto)
      with q show ?thesis using same_lines_trans by metis
    next
      case True
      define k where "k = ?m div p + 1"
      define lp where "lp = \<lparr>sl_start = length ?line - p, sl_period = p, sl_repetitions = k,
          sl_root = drop (length ?line - p) ?line\<rparr>"
      let ?d = "bump_single p d1"
      have q: "quiet ?d" "same_lines d ?d" "currentLine ?d = ?line" "insideCodeFence ?d = insideCodeFence d"
          "length (periodMatchRunLengths ?d) = singleLineLoopMaxP cfg + 1"
        using d1 by (auto simp: quiet_def same_lines_def bump_single_def)
      have scan: "(if single_hit cfg (insideCodeFence d) p k then (?d\<lparr>detectedSingleLineLoop := Some lp\<rparr>, LoopFound)
          else single_scan cfg late ps ?d) = (d', r)"
        using Cons.prems(6) on True d1(3,4)
        by (simp add: c_def [symmetric] d1_def [symmetric] Let_def k_def lp_def split: if_splits)
      have run: "single_inv cfg line y ps ?d \<and> matches_back ?line p ?m" if cl: "clean ?line"
      proof -
        have l: "?line = line @ [y]" and inv: "runs_between line y (periodMatchRunLengths d1) (singleLineLoopMaxP cfg + 1) (p # ps)"
          using Cons.prems(5) cl d1(6) by (auto simp: single_inv_def)
        have "p \<le> length line" using p(4) l by simp
        moreover have "length line - p < length line" using calculation p(2) by simp
        ultimately have y: "y = line ! (length line - p)" using True l by (simp add: nth_append)
        have "p < singleLineLoopMaxP cfg + 1" using p(3) by simp
        from runs_match [OF inv p(1,2) \<open>p \<le> length line\<close> y plen this] l
        show ?thesis by (simp add: single_inv_def bump_single_def)
      qed
      show ?thesis
      proof (cases "single_hit cfg (insideCodeFence d) p k")
        case False
        have "clean ?line \<longrightarrow> ?line = line @ [y] \<and> single_inv cfg line y ps ?d"
          using Cons.prems(5) run by auto
        then have "same_lines ?d d' \<and> single_result cfg (currentLine ?d) d' r \<and>
            (clean (currentLine ?d) \<and> r = NoLoop \<longrightarrow> single_inv cfg line y [] d')"
          by (intro Cons.IH) (use Cons.prems q scan False in auto)
        with q show ?thesis using same_lines_trans by metis
      next
        case True
        with scan have d': "d' = ?d\<lparr>detectedSingleLineLoop := Some lp\<rparr>" "r = LoopFound" by auto
        have "\<exists>pre. ?line = pre @ concat (replicate k (sl_root lp))" if "clean ?line"
          using repetitions_of_run [OF conjunct2 [OF run [OF that]] p(2) less_imp_le [OF p(4)] k_def]
          by (simp add: lp_def)
        then have "single_evidence cfg ?line d'"
          using d' q True p(2,4) by (auto simp: single_evidence_def lp_def)
        with d' q show ?thesis by (auto simp: single_result_def quiet_def same_lines_def)
      qed
    qed
  qed
qed

subsection \<open>The detector follows the text\<close>

definition follows :: "detector_config \<Rightarrow> ustr list \<Rightarrow> detector \<Rightarrow> bool" where
  "follows cfg cs d \<longleftrightarrow> quiet d \<and> currentLine d = line_after cfg cs \<and>
     ring_holds cfg (lines_after cfg cs) d \<and>
     length (multiLinePeriodMatchRunLengths d) = MAX_LINE_QUEUE_SIZE cfg + 1 \<and>
     runs_hold (lines_after cfg cs) (multiLinePeriodMatchRunLengths d) (MAX_LINE_QUEUE_SIZE cfg) \<and>
     length (periodMatchRunLengths d) = singleLineLoopMaxP cfg + 1 \<and>
     (clean (line_after cfg cs) \<longrightarrow>
        runs_hold (line_after cfg cs) (periodMatchRunLengths d) (singleLineLoopMaxP cfg + 1))"

definition loop_evidence :: "detector_config \<Rightarrow> ustr list \<Rightarrow> detector \<Rightarrow> bool" where
  "loop_evidence cfg cs d \<longleftrightarrow>
     detectedSingleLineLoop d = None \<and> multi_evidence cfg (lines_after cfg cs) d \<or>
     detectedMultiLinePattern d = None \<and> single_evidence cfg (line_after cfg cs) d"

definition char_result :: "detector_config \<Rightarrow> ustr list \<Rightarrow> detector \<Rightarrow> bool option \<Rightarrow> bool" where
  "char_result cfg cs d r \<longleftrightarrow>
     (case r of None \<Rightarrow> follows cfg cs d
      | Some True \<Rightarrow> loop_evidence cfg cs d
      | Some False \<Rightarrow> didTimeout d \<and> \<not> loopDetected d)"

lemma runs_hold_zero: "bound \<le> length runs \<Longrightarrow> runs_hold xs (map (\<lambda>_. 0) runs) bound"
  by (simp add: runs_hold_def)

lemma fence_frames [simp]:
  "quiet (updateCodeFenceStateOnLineEnd l d) = quiet d"
  "lineCount (updateCodeFenceStateOnLineEnd l d) = lineCount d"
  "startIdx (updateCodeFenceStateOnLineEnd l d) = startIdx d"
  "lineBuffer (updateCodeFenceStateOnLineEnd l d) = lineBuffer d"
  "currentLine (updateCodeFenceStateOnLineEnd l d) = currentLine d"
  "multiLinePeriodMatchRunLengths (updateCodeFenceStateOnLineEnd l d) = multiLinePeriodMatchRunLengths d"
  "periodMatchRunLengths (updateCodeFenceStateOnLineEnd l d) = periodMatchRunLengths d"
  by (simp_all add: updateCodeFenceStateOnLineEnd_def quiet_def)

lemma queue_frames [simp]:
  "quiet (addLineToQueue cfg l d) = quiet d"
  "currentLine (addLineToQueue cfg l d) = currentLine d"
  "multiLinePeriodMatchRunLengths (addLineToQueue cfg l d) = multiLinePeriodMatchRunLengths d"
  "periodMatchRunLengths (addLineToQueue cfg l d) = periodMatchRunLengths d"
  by (simp_all add: addLineToQueue_def Let_def quiet_def)

lemma check_lines_result:
  assumes "follows cfg cs d" and "0 < MAX_LINE_QUEUE_SIZE cfg"
    and "checkForMultiLineLoop cfg late (addLineToQueue cfg l (updateCodeFenceStateOnLineEnd l d)) = (d', r)"
  shows "same_line (addLineToQueue cfg l (updateCodeFenceStateOnLineEnd l d)) d' \<and>
    multi_result cfg (lines_after cfg cs) l d' r"
proof -
  let ?f = "updateCodeFenceStateOnLineEnd l d" and ?hist = "lines_after cfg cs" and ?n = "MAX_LINE_QUEUE_SIZE cfg"
  let ?q = "addLineToQueue cfg l ?f"
  have "ring_holds cfg ?hist ?f"
    using assms(1) ring_holds_cong [of ?f d cfg ?hist] by (simp add: follows_def)
  then have ring: "ring_holds cfg (?hist @ [l]) ?q" by (rule ring_add [OF _ assms(2)])
  let ?ps = "[1 ..< Suc (min (lineCount ?q - 1) (?n - 1))]"
  have count: "lineCount ?q = min ?n (Suc (length ?hist))" using ring by (simp add: ring_holds_def)
  have "runs_between ?hist l (multiLinePeriodMatchRunLengths ?q) ?n ?ps"
    by (rule runs_start) (use assms(1) count in \<open>auto simp: follows_def\<close>)
  then have "multi_inv cfg ?hist l ?ps ?q"
    using ring assms(1) by (simp add: multi_inv_def follows_def del: upt_Suc)
  moreover have "quiet ?q" using assms(1) by (simp add: follows_def)
  moreover have "\<forall>p \<in> set ?ps. 0 < p \<and> p < ?n \<and> p < lineCount ?q" using count assms(2) by auto
  ultimately show ?thesis
    using multi_scan_result [of cfg ?hist l ?ps ?q late d' r] assms(3)
    by (simp add: checkForMultiLineLoop_def Let_def del: upt_Suc)
qed

lemma end_line_result:
  assumes "follows cfg cs d" and "0 < MAX_LINE_QUEUE_SIZE cfg" and "end_line cfg late d = (d', r)"
  shows "char_result cfg (cs @ [[newline]]) d' r"
proof -
  let ?l = "line_after cfg cs" and ?hist = "lines_after cfg cs"
  have l: "currentLine d = ?l" using assms(1) by (simp add: follows_def)
  let ?f = "updateCodeFenceStateOnLineEnd ?l d"
  show ?thesis
  proof (cases "js_trim ?l \<noteq> [] \<and> \<not> isBoxBorderLine ?l")
    case False
    with assms(3) l have "d' = ?f\<lparr>currentLine := [], periodMatchRunLengths := map (\<lambda>_. 0) (periodMatchRunLengths d)\<rparr>"
      "r = None"
      by (auto simp: end_line_def Let_def)
    moreover have "ring_holds cfg ?hist d'"
      using assms(1) calculation(1) ring_holds_cong [of d' d cfg ?hist] by (simp add: follows_def)
    ultimately show ?thesis
      using assms(1) False by (auto simp: char_result_def follows_def after_snoc quiet_def runs_hold_zero
          updateCodeFenceStateOnLineEnd_def)
  next
    case True
    obtain d2 found where c: "checkForMultiLineLoop cfg late (addLineToQueue cfg ?l ?f) = (d2, found)" by fastforce
    note res = check_lines_result [OF assms(1,2) c]
    have lines: "lines_after cfg (cs @ [[newline]]) = ?hist @ [?l]" "line_after cfg (cs @ [[newline]]) = []"
      using True by (simp_all add: after_snoc)
    have e: "end_line cfg late d = (case found of TimedOut \<Rightarrow> (d2, Some False) | LoopFound \<Rightarrow> (d2, Some True)
        | NoLoop \<Rightarrow> (d2\<lparr>currentLine := [], periodMatchRunLengths := map (\<lambda>_. 0) (periodMatchRunLengths d2)\<rparr>, None))"
      using True l c by (simp add: end_line_def Let_def)
    show ?thesis
    proof (cases found)
      case NoLoop
      with e assms(3) have d': "d' = d2\<lparr>currentLine := [], periodMatchRunLengths := map (\<lambda>_. 0) (periodMatchRunLengths d2)\<rparr>"
        "r = None" by auto
      have m: "quiet d2" "ring_holds cfg (?hist @ [?l]) d2"
          "length (multiLinePeriodMatchRunLengths d2) = MAX_LINE_QUEUE_SIZE cfg + 1"
          "runs_hold (?hist @ [?l]) (multiLinePeriodMatchRunLengths d2) (MAX_LINE_QUEUE_SIZE cfg)"
        using res NoLoop runs_end by (auto simp: multi_result_def multi_inv_def)
      have "length (periodMatchRunLengths d2) = singleLineLoopMaxP cfg + 1"
        using res assms(1) by (simp add: same_line_def follows_def)
      with m d' show ?thesis
        using ring_holds_cong [of d' d2 cfg "?hist @ [?l]"]
        by (auto simp: char_result_def follows_def lines quiet_def runs_hold_zero)
    next
      case LoopFound
      with e assms(3) res show ?thesis
        by (auto simp: char_result_def loop_evidence_def multi_result_def lines)
    next
      case TimedOut
      with e assms(3) res show ?thesis by (auto simp: char_result_def multi_result_def)
    qed
  qed
qed

lemma clean_not_border: "clean line \<Longrightarrow> \<not> isBoxBorderLine line"
proof -
  assume cl: "clean line"
  have "\<not> (\<exists>u \<in> BOX_DRAWING_CHARS. c = [u])" if "c \<in> set (code_points line)" for c
  proof
    assume "\<exists>u \<in> BOX_DRAWING_CHARS. c = [u]"
    then obtain u where u: "u \<in> BOX_DRAWING_CHARS" "c = [u]" by blast
    have "set c \<subseteq> \<Union> (set ` set (code_points line))" using that by blast
    also have "\<dots> = set (concat (code_points line))" by (simp only: set_concat)
    also have "\<dots> = set line" by (simp only: concat_code_points)
    finally have "u \<in> set line" using u(2) by simp
    with cl u(1) show False by (simp add: clean_def)
  qed
  then have "filter (\<lambda>c. \<exists>u \<in> BOX_DRAWING_CHARS. c = [u]) (code_points line) = []"
    by (simp add: filter_empty_conv)
  then show ?thesis by (simp add: isBoxBorderLine_def Let_def)
qed

lemma add_char_result:
  assumes "follows cfg cs d" and "0 < MAX_LINE_QUEUE_SIZE cfg" and "add_char cfg late c d = (d', r)"
    and "c \<noteq> []" and "length c = 1 \<or> is_high (hd c)"
  shows "char_result cfg (cs @ [c]) d' r"
proof (cases "c = [newline]")
  case True
  with end_line_result [OF assms(1,2)] assms(3) show ?thesis by (simp add: add_char_def)
next
  case nl: False
  let ?l = "line_after cfg cs"
  have l: "currentLine d = ?l" using assms(1) by (simp add: follows_def)
  have lines: "lines_after cfg (cs @ [c]) = lines_after cfg cs" using nl by (simp add: after_snoc)
  show ?thesis
  proof (cases "length ?l \<ge> maxLineLength cfg")
    case True
    with nl l assms(3) have "d' = d" "r = None" by (auto simp: add_char_def)
    with assms(1) True nl show ?thesis by (simp add: char_result_def follows_def after_snoc)
  next
    case short: False
    have line: "line_after cfg (cs @ [c]) = ?l @ c" using short nl by (simp add: after_snoc)
    define d1 where "d1 = d\<lparr>currentLine := ?l @ c\<rparr>"
    have ring1: "ring_holds cfg (lines_after cfg cs) d1"
      using assms(1) ring_holds_cong [of d1 d cfg "lines_after cfg cs"] by (simp add: d1_def follows_def)
    show ?thesis
    proof (cases "isBoxBorderLine (?l @ c) \<or> (\<exists>u \<in> set c. js_space u)")
      case True
      with nl short l assms(3) have "d' = d1" "r = None" by (auto simp: add_char_def Let_def d1_def)
      moreover have "\<not> clean (?l @ c)"
      proof
        assume cl: "clean (?l @ c)"
        from True clean_not_border [OF cl] cl show False by (auto simp: clean_def)
      qed
      ultimately show ?thesis using assms(1) ring1
        by (auto simp: char_result_def follows_def line lines d1_def quiet_def)
    next
      case scan: False
      let ?maxP = "min (singleLineLoopMaxP cfg) (length (?l @ c) - 1)" and ?y = "last c"
      obtain d2 found where s: "single_scan cfg late [1 ..< Suc ?maxP] d1 = (d2, found)" by fastforce
      have dr: "d' = d2" "r = (case found of NoLoop \<Rightarrow> None | LoopFound \<Rightarrow> Some True | TimedOut \<Rightarrow> Some False)"
        using nl short l assms(3) scan s by (auto simp: add_char_def Let_def d1_def split: prod.splits simp del: upt_Suc)
      have inv: "clean (currentLine d1) \<longrightarrow> currentLine d1 = ?l @ [?y] \<and> single_inv cfg ?l ?y [1 ..< Suc ?maxP] d1"
      proof
        assume cl: "clean (currentLine d1)"
        then have "\<not> is_high (hd c)" using assms(4) by (simp add: d1_def clean_def)
        then obtain u where u: "c = [u]" using assms(5) by (cases c) auto
        have "clean ?l" using cl by (simp add: d1_def clean_def)
        then have rh: "runs_hold ?l (periodMatchRunLengths d1) (singleLineLoopMaxP cfg + 1)"
          using assms(1) by (simp add: follows_def d1_def)
        have "runs_between ?l ?y (periodMatchRunLengths d1) (singleLineLoopMaxP cfg + 1) [1 ..< Suc ?maxP]"
          by (rule runs_start [OF rh]) (use u in auto)
        with u show "currentLine d1 = ?l @ [?y] \<and> single_inv cfg ?l ?y [1 ..< Suc ?maxP] d1"
          by (simp add: d1_def single_inv_def del: upt_Suc)
      qed
      have q: "quiet d1" "length (periodMatchRunLengths d1) = singleLineLoopMaxP cfg + 1"
        using assms(1) by (auto simp: follows_def d1_def quiet_def)
      have bnd: "\<forall>p \<in> set [1 ..< Suc ?maxP]. 0 < p \<and> p \<le> singleLineLoopMaxP cfg \<and> p < length (currentLine d1)"
        using assms(4) by (auto simp: d1_def)
      have res: "same_lines d1 d2 \<and> single_result cfg (currentLine d1) d2 found \<and>
          (clean (currentLine d1) \<and> found = NoLoop \<longrightarrow> single_inv cfg ?l ?y [] d2)"
        by (rule single_scan_result [OF q(1) distinct_upt q(2) bnd inv s])
      show ?thesis
      proof (cases found)
        case NoLoop
        have "ring_holds cfg (lines_after cfg cs) d2"
          using ring1 res ring_holds_cong [of d2 d1] by (simp add: same_lines_def)
        moreover have "clean (?l @ c) \<longrightarrow> runs_hold (?l @ c) (periodMatchRunLengths d2) (singleLineLoopMaxP cfg + 1)"
        proof
          assume cl: "clean (?l @ c)"
          have e: "?l @ c = ?l @ [?y]" using inv cl unfolding d1_def by simp
          have "single_inv cfg ?l ?y [] d2" using res NoLoop cl unfolding d1_def by simp
          then have "runs_hold (?l @ [?y]) (periodMatchRunLengths d2) (singleLineLoopMaxP cfg + 1)"
            unfolding single_inv_def by (rule runs_end)
          then show "runs_hold (?l @ c) (periodMatchRunLengths d2) (singleLineLoopMaxP cfg + 1)"
            by (simp only: e [symmetric])
        qed
        ultimately show ?thesis using NoLoop res dr assms(1) q
          by (auto simp: char_result_def follows_def line lines single_result_def same_lines_def d1_def)
      next
        case LoopFound
        with res dr show ?thesis
          by (auto simp: char_result_def loop_evidence_def single_result_def line d1_def)
      next
        case TimedOut
        with res dr show ?thesis by (auto simp: char_result_def single_result_def)
      qed
    qed
  qed
qed

subsection \<open>Whole messages\<close>

lemma code_points_shape: "c \<in> set (code_points s) \<Longrightarrow> c \<noteq> [] \<and> (length c = 1 \<or> is_high (hd c))"
  by (induction s rule: code_points.induct) (auto split: if_splits)

lemma add_chars_result:
  assumes "follows cfg cs d" and "0 < MAX_LINE_QUEUE_SIZE cfg"
    and "\<forall>c \<in> set xs. c \<noteq> [] \<and> (length c = 1 \<or> is_high (hd c))"
    and "add_chars cfg late xs d = (d', r)"
  shows "(if r then \<exists>ys. prefix ys xs \<and> loop_evidence cfg (cs @ ys) d'
          else follows cfg (cs @ xs) d' \<or> didTimeout d' \<and> \<not> loopDetected d')"
  using assms
proof (induction xs arbitrary: cs d)
  case Nil
  then show ?case by auto
next
  case (Cons c xs)
  obtain d1 res where a: "add_char cfg late c d = (d1, res)" by fastforce
  have step: "char_result cfg (cs @ [c]) d1 res"
    by (rule add_char_result [OF Cons.prems(1,2) a]) (use Cons.prems(3) in auto)
  show ?case
  proof (cases res)
    case None
    then have "follows cfg (cs @ [c]) d1" using step by (simp add: char_result_def)
    moreover have "add_chars cfg late xs d1 = (d', r)" using Cons.prems(4) a None by simp
    ultimately have ih: "(if r then \<exists>ys. prefix ys xs \<and> loop_evidence cfg ((cs @ [c]) @ ys) d'
        else follows cfg ((cs @ [c]) @ xs) d' \<or> didTimeout d' \<and> \<not> loopDetected d')"
      by (intro Cons.IH) (use Cons.prems(2,3) in auto)
    show ?thesis
    proof (cases r)
      case True
      with ih obtain ys where "prefix ys xs" "loop_evidence cfg (cs @ (c # ys)) d'" by auto
      with True show ?thesis by (auto intro!: exI [of _ "c # ys"])
    next
      case False
      with ih show ?thesis by simp
    qed
  next
    case (Some b)
    with Cons.prems(4) a have "d' = d1" "r = b" by auto
    with step Some show ?thesis by (cases b) (auto simp: char_result_def intro!: exI [of _ "[c]"])
  qed
qed

text \<open>A message in chunks, each with the clock of its call.\<close>

fun feed :: "detector_config \<Rightarrow> ((nat \<Rightarrow> bool) \<times> ustr) list \<Rightarrow> detector \<Rightarrow> detector" where
  "feed cfg [] d = d"
| "feed cfg ((late, t) # ts) d = feed cfg ts (fst (addText cfg late t d))"

definition chars_of :: "((nat \<Rightarrow> bool) \<times> ustr) list \<Rightarrow> ustr list" where
  "chars_of ts = concat (map (code_points \<circ> snd) ts)"

lemma feed_stopped: "loopDetected d \<or> didTimeout d \<Longrightarrow> feed cfg ts d = d"
  by (induction ts) (auto simp: addText_def)

lemma evidence_detected: "loop_evidence cfg cs d \<Longrightarrow> loopDetected d"
  by (auto simp: loop_evidence_def multi_evidence_def single_evidence_def loopDetected_def)

lemma feed_result:
  assumes "follows cfg cs d" and "0 < MAX_LINE_QUEUE_SIZE cfg"
  shows "follows cfg (cs @ chars_of ts) (feed cfg ts d) \<or>
    (\<exists>ys. prefix ys (chars_of ts) \<and> loop_evidence cfg (cs @ ys) (feed cfg ts d)) \<or>
    \<not> loopDetected (feed cfg ts d)"
  using assms
proof (induction ts arbitrary: cs d)
  case Nil
  then show ?case by (simp add: chars_of_def)
next
  case (Cons p ts)
  obtain late t where p: "p = (late, t)" by fastforce
  obtain d1 r where a: "add_chars cfg late (code_points t) d = (d1, r)" by fastforce
  have "addText cfg late t d = (d1, r)"
    using a Cons.prems(1) by (simp add: addText_def follows_def quiet_def loopDetected_def)
  then have f: "feed cfg (p # ts) d = feed cfg ts d1" using p by simp
  have ch: "chars_of (p # ts) = code_points t @ chars_of ts" using p by (simp add: chars_of_def)
  note res = add_chars_result [OF Cons.prems _ a]
  have shape: "\<forall>c \<in> set (code_points t). c \<noteq> [] \<and> (length c = 1 \<or> is_high (hd c))"
    using code_points_shape by blast
  show ?case
  proof (cases r)
    case True
    with res [OF shape] obtain ys where ys: "prefix ys (code_points t)" "loop_evidence cfg (cs @ ys) d1" by auto
    then have "feed cfg ts d1 = d1" using evidence_detected feed_stopped by blast
    with ys f ch show ?thesis by (metis prefix_prefix)
  next
    case False
    with res [OF shape] consider "follows cfg (cs @ code_points t) d1" | "didTimeout d1" "\<not> loopDetected d1" by auto
    then show ?thesis
    proof cases
      case 1
      from Cons.IH [OF this Cons.prems(2)] f ch show ?thesis
      proof (elim disjE exE conjE)
        fix ys assume "prefix ys (chars_of ts)" "loop_evidence cfg ((cs @ code_points t) @ ys) (feed cfg ts d1)"
        then have "prefix (code_points t @ ys) (chars_of (p # ts))"
            "loop_evidence cfg (cs @ (code_points t @ ys)) (feed cfg (p # ts) d)"
          using f ch by simp_all
        then show ?thesis by blast
      qed simp_all
    next
      case 2
      then have "feed cfg ts d1 = d1" using feed_stopped by blast
      with 2 f show ?thesis by simp
    qed
  qed
qed

lemma runs_hold_replicate: "bound \<le> n \<Longrightarrow> runs_hold xs (replicate n 0) bound"
  by (simp add: runs_hold_def)

lemma new_follows: "0 < MAX_LINE_QUEUE_SIZE cfg \<Longrightarrow> follows cfg [] (new_detector cfg)"
  by (simp add: follows_def new_detector_def quiet_def ring_holds_def runs_hold_replicate del: replicate_Suc)

lemma detected_evidence:
  assumes "0 < multiLineLoopMinRepetitions cfg" and "loopDetected (feed cfg ts (new_detector cfg))"
  shows "\<exists>cs. prefix cs (chars_of ts) \<and> loop_evidence cfg cs (feed cfg ts (new_detector cfg))"
proof -
  have n: "0 < MAX_LINE_QUEUE_SIZE cfg" using assms(1) by (simp add: MAX_LINE_QUEUE_SIZE_def)
  from feed_result [OF new_follows [OF n] n, of ts] assms(2) show ?thesis
    by (auto simp: follows_def quiet_def loopDetected_def)
qed

subsection \<open>Properties\<close>

text \<open>
  Property C28. A loop over lines that is reported is one: whatever the message, its chunking and
  the timeouts, when the detector reports a pattern, the lines of the text read so far (cut at
  the maximal length, blank and border lines left out) end in k copies of exactly that pattern,
  and k, the number of lines and the number of characters reach the thresholds.
\<close>

theorem reported_line_loop_is_real:
  assumes "0 < multiLineLoopMinRepetitions cfg" and "d = feed cfg ts (new_detector cfg)"
    and "detectedMultiLinePattern d = Some pat" and "detectedSingleLineLoop d = None"
  shows "\<exists>cs pre k. prefix cs (chars_of ts) \<and> lines_after cfg cs = pre @ concat (replicate k pat) \<and> pat \<noteq> [] \<and>
    multi_hit cfg (insideCodeFence d) (length pat) k pat"
proof -
  have "loopDetected d" using assms(3) by (simp add: loopDetected_def)
  with detected_evidence [OF assms(1)] assms(2) obtain cs where
    cs: "prefix cs (chars_of ts)" "loop_evidence cfg cs d" by blast
  with assms(3,4) have "multi_evidence cfg (lines_after cfg cs) d" by (auto simp: loop_evidence_def)
  with cs(1) assms(3) show ?thesis by (auto simp: multi_evidence_def multi_hit_def not_less)
qed

text \<open>
  Fact. A loop within a line that is reported is one: when the line read so far has no
  white space, no box-drawing characters and no surrogate pairs, it ends in as many copies of the
  reported root as reported, the root is as long as the reported period, and the thresholds of
  the fence state hold. (White space is skipped by the check, so with it the copies may differ.)
\<close>

theorem reported_text_loop_is_real:
  assumes "0 < multiLineLoopMinRepetitions cfg" and "d = feed cfg ts (new_detector cfg)"
    and "detectedSingleLineLoop d = Some lp"
  shows "\<exists>cs. prefix cs (chars_of ts) \<and> single_hit cfg (insideCodeFence d) (sl_period lp) (sl_repetitions lp) \<and>
    (clean (line_after cfg cs) \<longrightarrow> length (sl_root lp) = sl_period lp \<and>
       (\<exists>pre. line_after cfg cs = pre @ concat (replicate (sl_repetitions lp) (sl_root lp))))"
proof -
  have "loopDetected d" using assms(3) by (simp add: loopDetected_def)
  with detected_evidence [OF assms(1)] assms(2) obtain cs where
    cs: "prefix cs (chars_of ts)" "loop_evidence cfg cs d" by blast
  with assms(3) have "single_evidence cfg (line_after cfg cs) d" by (auto simp: loop_evidence_def)
  with cs(1) assms(3) show ?thesis by (auto simp: single_evidence_def)
qed

subsection \<open>Witnesses\<close>

definition demo_config :: detector_config where
  "demo_config = agent_config\<lparr>singleLineLoopMinPTimesK := 3, singleLineLoopMaxP := 2, multiLineLoopMinRepetitions := 1,
     multiLineLoopMinPTimesK := 2, multiLineLoopMinTotalChars := 2\<rparr>"

definition demo_lines :: "((nat \<Rightarrow> bool) \<times> ustr) list" where
  "demo_lines = [(\<lambda>_. False, [97, 10]), (\<lambda>_. False, [97, 10])]"

definition demo_text :: "((nat \<Rightarrow> bool) \<times> ustr) list" where
  "demo_text = [(\<lambda>_. False, [97, 97, 97])]"

lemmas loop_demo_eval = demo_config_def agent_config_def demo_lines_def demo_text_def new_detector_def addText_def
  add_char_def end_line_def isBoxBorderLine_def BOX_DRAWING_CHARS_def newline_def js_trim_def js_space_def
  loopDetected_def updateCodeFenceStateOnLineEnd_def addLineToQueue_def getLineAt_def checkForMultiLineLoop_def
  MAX_LINE_QUEUE_SIZE_def markTimedOutIfNeeded_def single_hit_def multi_hit_def bump_single_def bump_multi_def
  min_of_def pattern_lines_def is_high_def is_low_def Let_def

lemma demo_lines_detected:
  "detectedMultiLinePattern (feed demo_config demo_lines (new_detector demo_config)) = Some [[97]]"
  "detectedSingleLineLoop (feed demo_config demo_lines (new_detector demo_config)) = None"
  by (simp_all add: loop_demo_eval)

lemma demo_text_detected:
  "map_option sl_repetitions (detectedSingleLineLoop (feed demo_config demo_text (new_detector demo_config))) = Some 3"
  by (simp add: loop_demo_eval)

theorem reported_line_loop_is_real_witness:
  "\<exists>cs pre k. prefix cs (chars_of demo_lines) \<and> lines_after demo_config cs = pre @ concat (replicate k [[97]]) \<and>
     [[97]] \<noteq> ([] :: ustr list) \<and>
     multi_hit demo_config (insideCodeFence (feed demo_config demo_lines (new_detector demo_config))) (length [[97 :: nat]]) k [[97]]"
  by (rule reported_line_loop_is_real [OF _ refl demo_lines_detected]) (simp add: demo_config_def)

theorem reported_text_loop_is_real_witness:
  "\<exists>cs (lp :: single_line_loop). prefix cs (chars_of demo_text) \<and> sl_repetitions lp = 3 \<and>
     single_hit demo_config (insideCodeFence (feed demo_config demo_text (new_detector demo_config))) (sl_period lp) 3"
proof -
  obtain lp where lp: "detectedSingleLineLoop (feed demo_config demo_text (new_detector demo_config)) = Some lp"
    "sl_repetitions lp = 3" using demo_text_detected by auto
  have "0 < multiLineLoopMinRepetitions demo_config" by (simp add: demo_config_def)
  from reported_text_loop_is_real [OF this refl lp(1)] obtain cs where
    "prefix cs (chars_of demo_text)"
    "single_hit demo_config (insideCodeFence (feed demo_config demo_text (new_detector demo_config)))
       (sl_period lp) (sl_repetitions lp)" by blast
  with lp(2) show ?thesis by (intro exI [of _ cs] exI [of _ lp]) simp
qed

end
