(* ===== verification/Group_Chat.thy ===== *)
theory Group_Chat
  imports Js_Strings
begin

text \<open>
  Group chats: \<^verbatim>\<open>host/groups/group-chat.ts\<close>. Mentions, who answers a round, the speaking order,
  the pass token, and the lines a member is shown.

  Strings are code units. \<^verbatim>\<open>toLowerCase\<close> beyond ASCII is the Unicode tables, so it is a parameter
  \<open>lower\<close> of the functions that use it. Case-insensitive patterns here only name ASCII letters,
  and without the \<^verbatim>\<open>u\<close> flag no other character folds to one. The texts of the two prompts
  (\<open>buildGroupMemberSystemPrompt\<close>, \<open>buildGroupTurnPrompt\<close>) and of the redrive note are not
  modelled; what they are built from is.
\<close>

definition GROUP_MAX_MEMBER_TURNS :: nat where "GROUP_MAX_MEMBER_TURNS = 10"
definition GROUP_MAX_ROUNDS :: nat where "GROUP_MAX_ROUNDS = 3"
definition GROUP_PROMPT_HISTORY_LIMIT :: nat where "GROUP_PROMPT_HISTORY_LIMIT = 24"
definition GROUP_MAX_MESSAGES_PER_TURN :: nat where "GROUP_MAX_MESSAGES_PER_TURN = 2"
definition SHARED_ROOM_HISTORY_LIMIT :: nat where "SHARED_ROOM_HISTORY_LIMIT = 24"
definition GROUP_CHAT_TAG_PREFIX :: ustr where "GROUP_CHAT_TAG_PREFIX = ascii ''[Group chat: ''"
definition SAND_HIDDEN_PROMPT_MARKER :: ustr where "SAND_HIDDEN_PROMPT_MARKER = ascii ''[SAND_HIDDEN_PROMPT]''"

record group_member =
  gm_id :: ustr
  gm_name :: ustr
  gm_description :: ustr

record group_description =
  gd_name :: ustr
  gd_description :: ustr

datatype speaker = User "ustr option" | Member ustr ustr

record group_message =
  gx_speaker :: speaker
  gx_content :: ustr

fun is_user :: "speaker \<Rightarrow> bool" where
  "is_user (User _) = True"
| "is_user (Member _ _) = False"

fun is_member :: "speaker \<Rightarrow> ustr \<Rightarrow> bool" where
  "is_member (Member i _) j = (i = j)"
| "is_member (User _) j = False"

subsection \<open>Members and order\<close>

definition orderRoundSpeakers :: "'a list \<Rightarrow> int \<Rightarrow> 'a list" where
  "orderRoundSpeakers memberIds r =
     (if memberIds = [] then []
      else let n = int (length memberIds);
               offset = nat (((r mod n) + n) mod n)
           in drop offset memberIds @ take offset memberIds)"

definition isSameMemberSet :: "'a list \<Rightarrow> 'a list \<Rightarrow> bool" where
  "isSameMemberSet a b = (if length a \<noteq> length b then False else list_all (\<lambda>i. i \<in> set a) b)"

datatype nesting_error = SandGroupNestingError "ustr list"

definition assertMembersAreNotGroups :: "ustr list \<Rightarrow> (ustr \<Rightarrow> bool) \<Rightarrow> nesting_error + unit" where
  "assertMembersAreNotGroups ids isGroupId =
     (let nested = filter isGroupId (unique ids)
      in if nested \<noteq> [] then Inl (SandGroupNestingError nested) else Inr ())"

subsection \<open>Mentions\<close>

definition at_sign :: nat where "at_sign = 64"

definition GROUP_EVERYONE_HANDLES :: "ustr list" where
  "GROUP_EVERYONE_HANDLES =
     [ascii ''everyone'', ascii ''all'', [25152, 26377, 20154], [20840, 21592], [22823, 23478]]"

definition normalizeMentionText :: "(ustr \<Rightarrow> ustr) \<Rightarrow> ustr \<Rightarrow> ustr" where
  "normalizeMentionText lower text = lower (map (\<lambda>u. if u = 65312 then at_sign else u) text)"

definition memberMentionHandles :: "(ustr \<Rightarrow> ustr) \<Rightarrow> ustr \<Rightarrow> ustr list" where
  "memberMentionHandles lower name =
     (let low = lower (js_trim name)
      in if low = [] then []
         else let handles = set_add (set_add [] low) (filter (\<lambda>u. \<not> js_space u) low);
                  first = takeWhile (\<lambda>u. \<not> js_space u) low
              in if first \<noteq> [] then set_add handles first else handles)"

definition lower_or_digit :: "nat \<Rightarrow> bool" where
  "lower_or_digit u \<longleftrightarrow> (97 \<le> u \<and> u \<le> 122) \<or> (48 \<le> u \<and> u \<le> 57)"

definition isLatinHandle :: "ustr \<Rightarrow> bool" where
  "isLatinHandle handle = (case handle of [] \<Rightarrow> False | u # _ \<Rightarrow> lower_or_digit u)"

definition char_at :: "ustr \<Rightarrow> nat \<Rightarrow> nat option" where
  "char_at s i = (if i < length s then Some (s ! i) else None)"

definition isHandleBoundary :: "nat option \<Rightarrow> bool" where
  "isHandleBoundary c =
     (case c of None \<Rightarrow> True
      | Some u \<Rightarrow> \<not> (lower_or_digit u \<or> (65 \<le> u \<and> u \<le> 90) \<or> u = 95))"

definition handleFits :: "ustr \<Rightarrow> ustr \<Rightarrow> bool" where
  "handleFits rest handle =
     (if \<not> prefix handle rest then False
      else if isLatinHandle handle then isHandleBoundary (char_at rest (length handle)) else True)"

text \<open>The end of a mention: white space and the punctuation of the pattern.\<close>

definition mention_stop :: "nat \<Rightarrow> bool" where
  "mention_stop u \<longleftrightarrow> js_space u \<or>
     u \<in> {65292, 12290, 65281, 65311, 12289, 65306, 65307} \<or>
     u \<in> {44, 46, 59, 58, 33, 63, 45, 8212, 40, 41, 65288, 65289, 91, 93, 12304, 12305, 60, 62, 12298, 12299, 34, 39, 64, 35}"

definition mentionToken :: "ustr \<Rightarrow> ustr" where
  "mentionToken rest = takeWhile (\<lambda>u. \<not> mention_stop u) rest"

definition prefix_candidate :: "(ustr \<Rightarrow> ustr) \<Rightarrow> ustr \<Rightarrow> group_member \<Rightarrow> bool" where
  "prefix_candidate lower token m \<longleftrightarrow> gm_id m \<noteq> [] \<and>
     list_ex (\<lambda>h. \<not> isLatinHandle h \<and> length h > length token \<and> prefix token h)
       (memberMentionHandles lower (gm_name m))"

definition resolvePrefixMention :: "(ustr \<Rightarrow> ustr) \<Rightarrow> ustr \<Rightarrow> group_member list \<Rightarrow> ustr option" where
  "resolvePrefixMention lower token members =
     (if length token < 2 then None
      else case unique (map gm_id (filter (prefix_candidate lower token) members)) of
             [i] \<Rightarrow> Some i
           | _ \<Rightarrow> None)"

definition consider_handle :: "ustr \<Rightarrow> ustr \<Rightarrow> (ustr \<times> nat) option \<Rightarrow> ustr \<Rightarrow> (ustr \<times> nat) option" where
  "consider_handle rest mid best handle =
     (if \<not> handleFits rest handle then best
      else case best of None \<Rightarrow> Some (mid, length handle)
           | Some (_, l) \<Rightarrow> if l < length handle then Some (mid, length handle) else best)"

definition member_handles :: "(ustr \<Rightarrow> ustr) \<Rightarrow> group_member \<Rightarrow> ustr list" where
  "member_handles lower m =
     memberMentionHandles lower (gm_name m) @ (if gm_id m \<noteq> [] then [lower (gm_id m)] else [])"

definition best_mention :: "(ustr \<Rightarrow> ustr) \<Rightarrow> group_member list \<Rightarrow> ustr \<Rightarrow> (ustr \<times> nat) option" where
  "best_mention lower members rest =
     foldl (\<lambda>best m. foldl (consider_handle rest (gm_id m)) best (member_handles lower m)) None members"

text \<open>What the text after one \<^verbatim>\<open>@\<close> names.\<close>

datatype mention = Everyone | Names ustr | Nobody

definition mention_at :: "(ustr \<Rightarrow> ustr) \<Rightarrow> group_member list \<Rightarrow> ustr \<Rightarrow> mention" where
  "mention_at lower members after =
     (let rest = dropWhile (\<lambda>u. u = 32 \<or> u = 9) after
      in if list_ex (handleFits rest) GROUP_EVERYONE_HANDLES then Everyone
         else case best_mention lower members rest of
                Some (i, _) \<Rightarrow> Names i
              | None \<Rightarrow> (case resolvePrefixMention lower (mentionToken rest) members of
                           Some i \<Rightarrow> Names i | None \<Rightarrow> Nobody))"

definition note_mention :: "bool \<times> ustr list \<Rightarrow> mention \<Rightarrow> bool \<times> ustr list" where
  "note_mention acc m =
     (case m of Everyone \<Rightarrow> (True, snd acc)
      | Names i \<Rightarrow> (fst acc, if i \<in> set (snd acc) then snd acc else snd acc @ [i])
      | Nobody \<Rightarrow> acc)"

fun scan_mentions :: "(ustr \<Rightarrow> ustr) \<Rightarrow> group_member list \<Rightarrow> ustr \<Rightarrow> bool \<times> ustr list \<Rightarrow> bool \<times> ustr list" where
  "scan_mentions lower members [] acc = acc"
| "scan_mentions lower members (u # us) acc =
     scan_mentions lower members us
       (if u = at_sign then note_mention acc (mention_at lower members us) else acc)"

definition parseGroupMentions :: "(ustr \<Rightarrow> ustr) \<Rightarrow> ustr \<Rightarrow> group_member list \<Rightarrow> bool \<times> ustr list" where
  "parseGroupMentions lower text members =
     scan_mentions lower members (normalizeMentionText lower text) (False, [])"

subsection \<open>Who answers\<close>

text \<open>The exchange: the messages from the last one of a user on.\<close>

definition exchange :: "group_message list \<Rightarrow> group_message list" where
  "exchange history =
     (case findIndex (\<lambda>x. is_user (gx_speaker x)) (rev history) of
        None \<Rightarrow> history | Some k \<Rightarrow> drop (length history - 1 - k) history)"

record election =
  el_everyone :: bool
  el_addressed :: "ustr list"
  el_delegated :: "ustr list"

definition count_message :: "(ustr \<Rightarrow> ustr) \<Rightarrow> group_member list \<Rightarrow> election \<Rightarrow> group_message \<Rightarrow> election" where
  "count_message lower members e x =
     (let targets = parseGroupMentions lower (gx_content x) members
      in case gx_speaker x of
           User _ \<Rightarrow> e\<lparr>el_everyone := el_everyone e \<or> fst targets,
                        el_addressed := foldl set_add (el_addressed e) (snd targets)\<rparr>
         | Member i _ \<Rightarrow>
             if i \<notin> set (el_addressed e) then e
             else e\<lparr>el_delegated := foldl set_add (el_delegated e) (snd targets)\<rparr>)"

definition elect :: "(ustr \<Rightarrow> ustr) \<Rightarrow> group_member list \<Rightarrow> group_message list \<Rightarrow> election" where
  "elect lower members history =
     foldl (count_message lower members) \<lparr>el_everyone = False, el_addressed = [], el_delegated = []\<rparr> (exchange history)"

definition resolveResponders :: "(ustr \<Rightarrow> ustr) \<Rightarrow> group_member list \<Rightarrow> group_message list \<Rightarrow> group_member list" where
  "resolveResponders lower members history =
     (let e = elect lower members history;
          elected = foldl set_add (el_addressed e) (el_delegated e)
      in if el_everyone e \<or> elected = [] then members
         else filter (\<lambda>m. gm_id m \<in> set elected) members)"

subsection \<open>Passing\<close>

fun match_ci :: "ustr \<Rightarrow> ustr \<Rightarrow> ustr option" where
  "match_ci [] s = Some s"
| "match_ci (c # cs) [] = None"
| "match_ci (c # cs) (u # us) = (if u = c \<or> u + 32 = c then match_ci cs us else None)"

definition skip_space :: "ustr \<Rightarrow> ustr" where "skip_space s = dropWhile js_space s"

definition opt_char :: "nat \<Rightarrow> ustr \<Rightarrow> ustr" where
  "opt_char c s = (case s of [] \<Rightarrow> [] | u # us \<Rightarrow> if u = c then us else s)"

definition open_paren :: nat where "open_paren = 40"
definition close_paren :: nat where "close_paren = 41"
definition full_stop :: nat where "full_stop = 46"

definition pass_pattern :: "ustr \<Rightarrow> bool" where
  "pass_pattern s =
     (case match_ci (ascii ''pass'') (skip_space (opt_char open_paren s)) of
        None \<Rightarrow> False
      | Some r \<Rightarrow> opt_char full_stop (opt_char close_paren (skip_space r)) = [])"

definition isPassContent :: "ustr \<Rightarrow> bool" where
  "isPassContent content = (let trimmed = js_trim content in trimmed = [] \<or> pass_pattern trimmed)"

definition isPotentialPassPrefix :: "ustr \<Rightarrow> bool" where
  "isPotentialPassPrefix text =
     (let trimmed = js_trim text;
          rest = skip_space (opt_char open_paren trimmed)
      in trimmed = [] \<or> isPassContent trimmed \<or> rest = [] \<or>
         match_ci (ascii ''p'') rest = Some [] \<or> match_ci (ascii ''pa'') rest = Some [] \<or>
         match_ci (ascii ''pas'') rest = Some [] \<or> pass_pattern trimmed)"

definition pass_glue :: "nat \<Rightarrow> bool" where
  "pass_glue u \<longleftrightarrow> js_space u \<or> u \<in> {46, 12290, 58, 65306, 44, 65292, 65307, 59, 45, 8212, 8211}"

definition strip_pass :: "ustr \<Rightarrow> ustr" where
  "strip_pass s =
     (case s of [] \<Rightarrow> []
      | u # us \<Rightarrow>
          if u \<noteq> open_paren then s
          else case match_ci (ascii ''pass'') (skip_space us) of None \<Rightarrow> s
               | Some r \<Rightarrow> (case skip_space r of [] \<Rightarrow> s
                             | v # vs \<Rightarrow> if v = close_paren then dropWhile pass_glue vs else s))"

definition stripGroupPassToken :: "ustr \<Rightarrow> ustr" where
  "stripGroupPassToken content = js_trim (strip_pass (js_trim content))"

subsection \<open>What a member is shown\<close>

fun join :: "ustr \<Rightarrow> ustr list \<Rightarrow> ustr" where
  "join sep [] = []"
| "join sep [x] = x"
| "join sep (x # y # xs) = x @ sep @ join sep (y # xs)"

definition slice_last :: "nat \<Rightarrow> 'a list \<Rightarrow> 'a list" where
  "slice_last n xs = (if n = 0 then xs else drop (length xs - n) xs)"

definition formatGroupLine :: "group_message \<Rightarrow> ustr \<Rightarrow> ustr" where
  "formatGroupLine x viewerId =
     (case gx_speaker x of
        User (Some name) \<Rightarrow> if name \<noteq> [] then name @ ascii '' (user): '' @ gx_content x else ascii ''User: '' @ gx_content x
      | User None \<Rightarrow> ascii ''User: '' @ gx_content x
      | Member i name \<Rightarrow> name @ (if i = viewerId then ascii '' (you)'' else []) @ ascii '': '' @ gx_content x)"

definition formatGroupHistory :: "group_message list \<Rightarrow> ustr \<Rightarrow> nat \<Rightarrow> ustr" where
  "formatGroupHistory history viewerId limit =
     (let recent = slice_last limit history
      in if recent = [] then ascii ''(no messages yet)''
         else join [newline] (map (\<lambda>x. formatGroupLine x viewerId) recent))"

definition isGroupTurnPromptText :: "ustr \<Rightarrow> bool" where
  "isGroupTurnPromptText text =
     (let body = (if prefix SAND_HIDDEN_PROMPT_MARKER text then drop (length SAND_HIDDEN_PROMPT_MARKER) text else text)
      in prefix GROUP_CHAT_TAG_PREFIX body)"

definition groupDisplayName :: "group_description \<Rightarrow> ustr" where
  "groupDisplayName g = (if js_trim (gd_name g) \<noteq> [] then js_trim (gd_name g) else ascii ''the group'')"

definition quoted :: "ustr \<Rightarrow> ustr" where "quoted s = [34] @ s @ [34]"

definition describeGroup :: "group_description \<Rightarrow> ustr" where
  "describeGroup g =
     (let name = groupDisplayName g; description = js_trim (gd_description g)
      in if description \<noteq> [] then quoted name @ [32, 8212, 32] @ description else quoted name)"

definition formatGroupChatTag :: "group_description \<Rightarrow> group_member list \<Rightarrow> ustr" where
  "formatGroupChatTag g peers =
     GROUP_CHAT_TAG_PREFIX @ quoted (groupDisplayName g) @
     (if peers \<noteq> [] then ascii '' - with '' @ join (ascii '', '') (map gm_name peers) else []) @ ascii '']''"

definition messagesSinceMemberLastSpoke :: "group_message list \<Rightarrow> ustr \<Rightarrow> group_message list" where
  "messagesSinceMemberLastSpoke history memberId =
     rev (takeWhile (\<lambda>x. \<not> is_member (gx_speaker x) memberId) (rev history))"


subsection \<open>Mention lemmas\<close>

lemma consider_handle_id: "consider_handle rest mid best h = Some (i, l) \<Longrightarrow> best = Some (i, l) \<or> i = mid"
  by (auto simp: consider_handle_def split: if_splits option.splits)

lemma consider_handles_id:
  "foldl (consider_handle rest mid) best hs = Some (i, l) \<Longrightarrow> best = Some (i, l) \<or> i = mid"
proof (induction hs arbitrary: best)
  case Nil
  then show ?case by simp
next
  case (Cons h hs)
  from Cons.IH [of "consider_handle rest mid best h"] Cons.prems consider_handle_id [of rest mid best h i l]
  show ?case by auto
qed

lemma best_mention_id: "best_mention lower members rest = Some (i, l) \<Longrightarrow> i \<in> gm_id ` set members"
proof -
  have "foldl (\<lambda>best m. foldl (consider_handle rest (gm_id m)) best (member_handles lower m)) b ms = Some (i, l) \<Longrightarrow>
      b = Some (i, l) \<or> i \<in> gm_id ` set ms" for b ms
  proof (induction ms arbitrary: b)
    case Nil
    then show ?case by simp
  next
    case (Cons m ms)
    from Cons.IH [of "foldl (consider_handle rest (gm_id m)) b (member_handles lower m)"] Cons.prems
      consider_handles_id [of rest "gm_id m" b "member_handles lower m" i l]
    show ?case by auto
  qed
  then show "best_mention lower members rest = Some (i, l) \<Longrightarrow> i \<in> gm_id ` set members"
    unfolding best_mention_def by fastforce
qed

lemma prefix_mention_id: "resolvePrefixMention lower token members = Some i \<Longrightarrow> i \<in> gm_id ` set members"
proof -
  assume "resolvePrefixMention lower token members = Some i"
  then have "unique (map gm_id (filter (prefix_candidate lower token) members)) = [i]"
    by (auto simp: resolvePrefixMention_def split: if_splits list.splits)
  then have "set (map gm_id (filter (prefix_candidate lower token) members)) = {i}"
    by (metis list.simps(15) list.set(1) unique_set)
  then show ?thesis by auto
qed

lemma mention_at_id: "mention_at lower members us = Names i \<Longrightarrow> i \<in> gm_id ` set members"
  by (auto simp: mention_at_def Let_def split: if_splits option.splits
      dest: best_mention_id prefix_mention_id)

definition mentions_ok :: "group_member list \<Rightarrow> bool \<times> ustr list \<Rightarrow> bool" where
  "mentions_ok members acc \<longleftrightarrow> distinct (snd acc) \<and> set (snd acc) \<subseteq> gm_id ` set members"

lemma scan_mentions_ok: "mentions_ok members acc \<Longrightarrow> mentions_ok members (scan_mentions lower members us acc)"
proof (induction us arbitrary: acc)
  case Nil
  then show ?case by simp
next
  case (Cons u us)
  have "mentions_ok members (note_mention acc (mention_at lower members us))"
    using Cons.prems mention_at_id [of lower members us]
    by (auto simp: note_mention_def mentions_ok_def split: mention.splits)
  with Cons show ?case by simp
qed

lemma parse_ok: "mentions_ok members (parseGroupMentions lower text members)"
  unfolding parseGroupMentions_def by (rule scan_mentions_ok) (simp add: mentions_ok_def)

subsection \<open>The exchange and the election\<close>

lemma findIndex_append_hit: "\<forall>x \<in> set xs. \<not> P x \<Longrightarrow> P y \<Longrightarrow> findIndex P (xs @ y # ys) = Some (length xs)"
  by (induction xs) auto

lemma exchange_eq:
  assumes "is_user (gx_speaker x)" and "\<forall>y \<in> set rest. \<not> is_user (gx_speaker y)"
  shows "exchange (pre @ x # rest) = x # rest"
proof -
  have "findIndex (\<lambda>x. is_user (gx_speaker x)) (rev rest @ x # rev pre) = Some (length rest)"
    using findIndex_append_hit [of "rev rest" "\<lambda>x. is_user (gx_speaker x)" x "rev pre"] assms by simp
  then show ?thesis by (simp add: exchange_def)
qed

text \<open>Member messages after the user's add to the delegated only.\<close>

definition delegates :: "(ustr \<Rightarrow> ustr) \<Rightarrow> group_member list \<Rightarrow> ustr list \<Rightarrow> group_message \<Rightarrow> ustr \<Rightarrow> bool" where
  "delegates lower members addressed y i =
     (case gx_speaker y of User _ \<Rightarrow> False
      | Member j _ \<Rightarrow> j \<in> set addressed \<and> i \<in> set (snd (parseGroupMentions lower (gx_content y) members)))"

lemma count_members:
  "\<forall>y \<in> set ys. \<not> is_user (gx_speaker y) \<Longrightarrow>
   el_everyone (foldl (count_message lower members) e ys) = el_everyone e \<and>
   el_addressed (foldl (count_message lower members) e ys) = el_addressed e \<and>
   (\<forall>i. i \<in> set (el_delegated (foldl (count_message lower members) e ys)) \<longleftrightarrow>
      i \<in> set (el_delegated e) \<or> list_ex (\<lambda>y. delegates lower members (el_addressed e) y i) ys)"
proof (induction ys arbitrary: e)
  case Nil
  then show ?case by simp
next
  case (Cons y ys)
  from Cons.prems obtain j n where y: "gx_speaker y = Member j n" by (cases "gx_speaker y") auto
  have step: "el_everyone (count_message lower members e y) = el_everyone e"
    "el_addressed (count_message lower members e y) = el_addressed e"
    "\<And>i. i \<in> set (el_delegated (count_message lower members e y)) \<longleftrightarrow>
       i \<in> set (el_delegated e) \<or> delegates lower members (el_addressed e) y i"
    by (auto simp: count_message_def delegates_def Let_def y)
  from Cons.IH [of "count_message lower members e y"] Cons.prems step show ?case by simp
qed

lemma elect_eq:
  assumes x: "is_user (gx_speaker x)" and rest: "\<forall>y \<in> set rest. \<not> is_user (gx_speaker y)"
  shows "el_everyone (elect lower members (pre @ x # rest)) = fst (parseGroupMentions lower (gx_content x) members)"
    and "set (el_addressed (elect lower members (pre @ x # rest))) = set (snd (parseGroupMentions lower (gx_content x) members))"
    and "i \<in> set (el_delegated (elect lower members (pre @ x # rest))) \<longleftrightarrow>
       list_ex (\<lambda>y. delegates lower members (snd (parseGroupMentions lower (gx_content x) members)) y i) rest"
proof -
  let ?ids = "snd (parseGroupMentions lower (gx_content x) members)"
  obtain u where u: "gx_speaker x = User u" using x by (cases "gx_speaker x") auto
  define e where "e = count_message lower members \<lparr>el_everyone = False, el_addressed = [], el_delegated = []\<rparr> x"
  have e: "el_everyone e = fst (parseGroupMentions lower (gx_content x) members)" "set (el_addressed e) = set ?ids"
    "el_delegated e = []"
    by (simp_all add: e_def count_message_def u Let_def)
  have el: "elect lower members (pre @ x # rest) = foldl (count_message lower members) e rest"
    by (simp add: elect_def exchange_eq [OF x rest] e_def)
  have d: "delegates lower members (el_addressed e) y i = delegates lower members ?ids y i" for y i
    by (simp add: delegates_def e(2) split: speaker.splits)
  note c = count_members [OF rest, of lower members e]
  show "el_everyone (elect lower members (pre @ x # rest)) = fst (parseGroupMentions lower (gx_content x) members)"
    using c e by (simp add: el)
  show "set (el_addressed (elect lower members (pre @ x # rest))) = set ?ids" using c e by (simp add: el)
  show "i \<in> set (el_delegated (elect lower members (pre @ x # rest))) \<longleftrightarrow>
      list_ex (\<lambda>y. delegates lower members ?ids y i) rest" using c e d by (simp add: el)
qed


subsection \<open>Properties\<close>

text \<open>
  Property C37. Who answers a room, in closed form, from the last message of a user on: everyone
  when that message addresses everyone or names nobody, otherwise exactly the members it names
  and those whom a member it names has mentioned since. So a mention of everyone by a member
  widens nothing, and a member who was only delegated to cannot delegate further.
\<close>

theorem responders_one_hop:
  assumes x: "is_user (gx_speaker x)" and rest: "list_all (\<lambda>y. \<not> is_user (gx_speaker y)) rest"
  shows "resolveResponders lower members (pre @ x # rest) =
    (let (everyone, ids) = parseGroupMentions lower (gx_content x) members
     in if everyone \<or> ids = [] then members
        else filter (\<lambda>m. gm_id m \<in> set ids \<or>
               list_ex (\<lambda>y. case gx_speaker y of User _ \<Rightarrow> False
                  | Member j _ \<Rightarrow> j \<in> set ids \<and> gm_id m \<in> set (snd (parseGroupMentions lower (gx_content y) members))) rest)
             members)"
proof -
  have rest': "\<forall>y \<in> set rest. \<not> is_user (gx_speaker y)" using rest by (simp add: list_all_iff)
  note el = elect_eq [OF x rest', where lower = lower and members = members and pre = pre]
  obtain everyone ids where p: "parseGroupMentions lower (gx_content x) members = (everyone, ids)" by fastforce
  let ?e = "elect lower members (pre @ x # rest)"
  have none: "el_delegated ?e = [] \<and> el_addressed ?e = []" if "ids = []"
  proof -
    have "\<not> delegates lower members ids y i" for y i using that by (simp add: delegates_def split: speaker.splits)
    then have no: "\<not> list_ex (\<lambda>y. delegates lower members ids y i) rest" for i by (simp add: list_ex_iff)
    have "set (el_delegated ?e) = {}"
    proof (rule equals0I)
      fix i assume "i \<in> set (el_delegated ?e)"
      with no [of i] el(3) [of i] p show False by simp
    qed
    with el(2) p that show ?thesis by simp
  qed
  have addressed: "el_addressed ?e = [] \<longleftrightarrow> ids = []" using el(2) p by (metis set_empty snd_conv)
  show ?thesis
    using el(1,2) el(3) p none addressed
    by (auto simp: resolveResponders_def Let_def delegates_def intro!: filter_cong)
qed

definition ascii_lower :: "ustr \<Rightarrow> ustr" where
  "ascii_lower s = map (\<lambda>u. if 65 \<le> u \<and> u \<le> 90 then u + 32 else u) s"

definition demo_member :: "string \<Rightarrow> string \<Rightarrow> group_member" where
  "demo_member i n = \<lparr>gm_id = ascii i, gm_name = ascii n, gm_description = []\<rparr>"

definition demo_says :: "string \<Rightarrow> string \<Rightarrow> group_message" where
  "demo_says i t = \<lparr>gx_speaker = (if i = '''' then User None else Member (ascii i) []), gx_content = ascii t\<rparr>"

definition demo_room :: "group_member list" where
  "demo_room = [demo_member ''a'' ''Ana'', demo_member ''b'' ''Bo'', demo_member ''c'' ''Cy'']"

lemmas demo_room_defs = demo_room_def demo_member_def demo_says_def ascii_def ascii_lower_def parseGroupMentions_def
  normalizeMentionText_def at_sign_def mention_at_def handleFits_def isLatinHandle_def lower_or_digit_def char_at_def
  isHandleBoundary_def best_mention_def member_handles_def memberMentionHandles_def consider_handle_def note_mention_def
  GROUP_EVERYONE_HANDLES_def js_trim_def js_space_def set_add_def resolvePrefixMention_def mentionToken_def
  mention_stop_def prefix_candidate_def unique_def Let_def

lemma responders_one_hop_witness:
  "resolveResponders ascii_lower demo_room
     ([demo_says '''' ''@Cy hi''] @ demo_says '''' ''@bo go'' # [demo_says ''b'' ''@ana @all'', demo_says ''a'' ''@cy'']) =
   [demo_member ''a'' ''Ana'', demo_member ''b'' ''Bo'']"
proof -
  have u: "parseGroupMentions ascii_lower (gx_content (demo_says '''' ''@bo go'')) demo_room = (False, [ascii ''b''])"
    by (simp add: demo_room_defs)
  have "resolveResponders ascii_lower demo_room
      ([demo_says '''' ''@Cy hi''] @ demo_says '''' ''@bo go'' # [demo_says ''b'' ''@ana @all'', demo_says ''a'' ''@cy'']) =
    (let (everyone, ids) = parseGroupMentions ascii_lower (gx_content (demo_says '''' ''@bo go'')) demo_room
     in if everyone \<or> ids = [] then demo_room
        else filter (\<lambda>m. gm_id m \<in> set ids \<or>
               list_ex (\<lambda>y. case gx_speaker y of User _ \<Rightarrow> False
                  | Member j _ \<Rightarrow> j \<in> set ids \<and> gm_id m \<in> set (snd (parseGroupMentions ascii_lower (gx_content y) demo_room)))
                [demo_says ''b'' ''@ana @all'', demo_says ''a'' ''@cy''])
             demo_room)"
    by (rule responders_one_hop) (simp_all add: demo_says_def)
  also have "\<dots> = [demo_member ''a'' ''Ana'', demo_member ''b'' ''Bo'']"
    unfolding u prod.case by (simp add: demo_room_defs)
  finally show ?thesis .
qed

text \<open>
  Fact. The ids a text mentions are distinct and all of members, for every text and every
  lower-casing; so a room with members always has someone to answer, and only members answer, in
  the order of the room.
\<close>

theorem mentions_name_members:
  "distinct (snd (parseGroupMentions lower body members)) \<and>
   set (snd (parseGroupMentions lower body members)) \<subseteq> gm_id ` set members \<and>
   subseq (resolveResponders lower members history) members \<and>
   (members = [] \<or> length (resolveResponders lower members history) \<ge> 1)"
proof -
  have ids: "set (snd (parseGroupMentions lower t members)) \<subseteq> gm_id ` set members" for t
    using parse_ok [of members lower t] by (simp add: mentions_ok_def)
  have el: "set (el_addressed e) \<union> set (el_delegated e) \<subseteq> gm_id ` set members \<Longrightarrow>
      set (el_addressed (foldl (count_message lower members) e xs)) \<union>
      set (el_delegated (foldl (count_message lower members) e xs)) \<subseteq> gm_id ` set members" for e xs
  proof (induction xs arbitrary: e)
    case (Cons x xs)
    have "set (el_addressed (count_message lower members e x)) \<union> set (el_delegated (count_message lower members e x))
        \<subseteq> gm_id ` set members"
      using Cons.prems ids [of "gx_content x"] by (auto simp: count_message_def Let_def split: speaker.splits)
    with Cons.IH show ?case by simp
  qed simp
  let ?e = "elect lower members history"
  have sub: "set (el_addressed ?e) \<union> set (el_delegated ?e) \<subseteq> gm_id ` set members"
    unfolding elect_def by (rule el) simp
  have ne: "members = [] \<or> resolveResponders lower members history \<noteq> []"
  proof (cases "el_everyone ?e \<or> (el_addressed ?e = [] \<and> el_delegated ?e = [])")
    case True
    then show ?thesis by (auto simp: resolveResponders_def Let_def)
  next
    case False
    then obtain i where i: "i \<in> set (el_addressed ?e) \<union> set (el_delegated ?e)" by (metis Un_iff list.set_intros(1) neq_Nil_conv)
    with sub obtain m where "m \<in> set members" "gm_id m = i" by auto
    with False i show ?thesis by (auto simp: resolveResponders_def Let_def filter_empty_conv)
  qed
  have "subseq (resolveResponders lower members history) members"
    by (simp add: resolveResponders_def Let_def subseq_filter)
  with ne parse_ok [of members lower body] show ?thesis by (auto simp: mentions_ok_def Suc_le_eq)
qed

text \<open>
  Fact. The speaking order of a round is the responders rotated by the round, so every
  round hears each of them once, and over as many rounds as there are responders each starts once.
\<close>

theorem round_order_rotates:
  assumes "ids \<noteq> []"
  shows "orderRoundSpeakers ids (int r) = rotate r ids \<and> mset (orderRoundSpeakers ids (int r)) = mset ids \<and>
    map (\<lambda>k. hd (orderRoundSpeakers ids (int k))) [0..<length ids] = ids"
proof -
  have rot: "orderRoundSpeakers ids (int k) = rotate k ids" for k
  proof -
    have "nat ((int k mod int (length ids) + int (length ids)) mod int (length ids)) = k mod length ids"
      by (simp flip: zmod_int)
    with assms show ?thesis by (simp add: orderRoundSpeakers_def Let_def rotate_drop_take)
  qed
  have "map (\<lambda>k. hd (rotate k ids)) [0..<length ids] = ids"
    using assms by (intro nth_equalityI) (simp_all add: hd_rotate_conv_nth)
  moreover have "mset (rotate r ids) = mset ids"
    unfolding rotate_drop_take by (metis append_take_drop_id mset_append union_commute)
  ultimately show ?thesis using rot by simp
qed

lemma round_order_rotates_witness:
  "orderRoundSpeakers [10, 20, 30 :: nat] (int 4) = [20, 30, 10]"
  using round_order_rotates [of "[10, 20, 30 :: nat]" 4] by (simp add: rotate_def numeral_eq_Suc)

text \<open>
  Fact. Comparing a group's stored members with a requested list without repeats answers
  exactly whether they are the same set, whatever their orders.
\<close>

theorem same_member_set_correct:
  assumes "distinct b"
  shows "isSameMemberSet a b \<longleftrightarrow> distinct a \<and> set a = set b"
proof -
  have len: "card (set b) = length b" using assms by (simp add: distinct_card)
  show ?thesis
  proof
    assume same: "isSameMemberSet a b"
    then have l: "length a = length b" and sub: "set b \<subseteq> set a"
      by (auto simp: isSameMemberSet_def list_all_iff split: if_splits)
    have eq: "set b = set a"
    proof (rule card_seteq)
      show "card (set a) \<le> card (set b)" using len l by (metis card_length)
    qed (use sub in simp_all)
    have "card (set a) = length a" using eq len l by simp
    then have "distinct a" by (rule card_distinct)
    with eq show "distinct a \<and> set a = set b" by simp
  next
    assume "distinct a \<and> set a = set b"
    then show "isSameMemberSet a b"
      using len distinct_card [of a] by (auto simp: isSameMemberSet_def list_all_iff distinct_card)
  qed
qed

lemma same_member_set_correct_witness: "isSameMemberSet [1, 2 :: nat] [2, 1] \<and> \<not> isSameMemberSet [1, 1 :: nat] [1, 2]"
  using same_member_set_correct [of "[2, 1 :: nat]" "[1, 2]"] same_member_set_correct [of "[1, 2 :: nat]" "[1, 1]"] by auto

end
