(* ===== verification/Group_Orchestrator.thy ===== *)
theory Group_Orchestrator
  imports Group_Chat
begin

text \<open>
  One run of a group room: \<^verbatim>\<open>host/extensions/transcript/group-chat-orchestrator.ts\<close>.

  The room is its history, whether the run is still current, and the counters and log of the run.
  A member turn is the only await of the run, so it is where the world acts: an environment gives,
  for each turn, the raw texts the member sends, the messages others add meanwhile, and whether
  the run is current afterwards. Posting a message adds it to the history, which is what
  \<open>postMemberMessage\<close> and \<open>readHistory\<close> of the host do. The prompts are the facts they are built
  from: whether the member was addressed, whether it is a closing turn, and the messages shown.
\<close>

subsection \<open>State\<close>

record turn_env =
  te_sent :: "ustr list"
  te_others :: "group_message list"
  te_current :: bool

record member_turn =
  mt_member :: ustr
  mt_addressed :: bool
  mt_closing :: bool
  mt_newMessages :: "group_message list"
  mt_posted :: "ustr list"

record room_run =
  rr_history :: "group_message list"
  rr_current :: bool
  rr_total :: nat
  rr_log :: "member_turn list"

record room =
  rm_lower :: "ustr \<Rightarrow> ustr"
  rm_members :: "group_member list"
  rm_shared :: bool
  rm_env :: "nat \<Rightarrow> turn_env"

subsection \<open>Reading the history\<close>

definition lastUser :: "group_message list \<Rightarrow> nat option" where
  "lastUser history =
     map_option (\<lambda>k. length history - 1 - k) (findIndex (\<lambda>x. is_user (gx_speaker x)) (rev history))"

definition mentionAddressed :: "room \<Rightarrow> group_message list \<Rightarrow> ustr \<Rightarrow> bool" where
  "mentionAddressed rm history memberId =
     (case lastUser history of None \<Rightarrow> False
      | Some i \<Rightarrow>
          let (isEveryone, ids) = parseGroupMentions (rm_lower rm) (gx_content (history ! i)) (rm_members rm)
          in if isEveryone \<or> memberId \<in> set ids
             then \<not> list_ex (\<lambda>x. is_member (gx_speaker x) memberId) (drop (Suc i) history) else False)"

definition is_room_member :: "room \<Rightarrow> ustr \<Rightarrow> bool" where
  "is_room_member rm i = list_ex (\<lambda>m. gm_id m = i) (rm_members rm)"

fun authors_loop :: "room \<Rightarrow> group_message list \<Rightarrow> ustr list \<Rightarrow> ustr list" where
  "authors_loop rm [] authors = authors"
| "authors_loop rm (x # xs) authors =
     (case gx_speaker x of User _ \<Rightarrow> authors_loop rm xs authors
      | Member i _ \<Rightarrow>
          if i \<in> set authors then authors_loop rm xs authors
          else if \<not> is_room_member rm i then authors_loop rm xs authors
          else authors_loop rm xs (authors @ [i]))"

definition closingAuthors :: "room \<Rightarrow> group_message list \<Rightarrow> ustr list" where
  "closingAuthors rm history = authors_loop rm (rev (exchange history)) []"

definition note_pending :: "group_message list \<Rightarrow> ustr list \<Rightarrow> ustr \<Rightarrow> ustr list" where
  "note_pending later pending i =
     (if list_ex (\<lambda>x. is_member (gx_speaker x) i) later then pending else set_add pending i)"

fun pending_loop :: "room \<Rightarrow> group_message list \<Rightarrow> ustr list \<Rightarrow> ustr list" where
  "pending_loop rm [] pending = pending"
| "pending_loop rm (x # later) pending =
     (case gx_speaker x of User _ \<Rightarrow> pending_loop rm later pending
      | Member i _ \<Rightarrow>
          if \<not> is_room_member rm i then pending_loop rm later pending
          else pending_loop rm later
                 (foldl (note_pending later) pending
                    (snd (parseGroupMentions (rm_lower rm) (gx_content x) (rm_members rm)))))"

definition pendingMentionTargets :: "room \<Rightarrow> group_message list \<Rightarrow> ustr list" where
  "pendingMentionTargets rm history = pending_loop rm (exchange history) []"

subsection \<open>One member turn\<close>

fun spoken_loop :: "ustr list \<Rightarrow> ustr list \<Rightarrow> ustr list" where
  "spoken_loop [] spoken = spoken"
| "spoken_loop (raw # raws) spoken =
     (let content = stripGroupPassToken raw
      in if isPassContent content then spoken_loop raws spoken
         else let trimmed = js_trim content
              in if trimmed = [] then spoken_loop raws spoken
                 else if length (spoken @ [trimmed]) \<ge> GROUP_MAX_MESSAGES_PER_TURN then spoken @ [trimmed]
                 else spoken_loop raws (spoken @ [trimmed]))"

definition runOneTurn :: "room \<Rightarrow> group_member \<Rightarrow> bool \<Rightarrow> room_run \<Rightarrow> ustr list \<times> member_turn \<times> room_run" where
  "runOneTurn rm m closing s =
     (let history = rr_history s;
          newMessages = (if rm_shared rm then slice_last SHARED_ROOM_HISTORY_LIMIT history
                         else messagesSinceMemberLastSpoke history (gm_id m));
          env = rm_env rm (length (rr_log s));
          turn = \<lparr>mt_member = gm_id m, mt_addressed = mentionAddressed rm history (gm_id m),
                  mt_closing = closing, mt_newMessages = newMessages, mt_posted = []\<rparr>
      in (spoken_loop (te_sent env) [], turn,
          s\<lparr>rr_history := history @ te_others env, rr_current := te_current env\<rparr>))"

fun post_loop :: "group_member \<Rightarrow> ustr list \<Rightarrow> room_run \<Rightarrow> ustr list \<times> bool \<times> room_run" where
  "post_loop m [] s = ([], False, s)"
| "post_loop m (c # cs) s =
     (let s1 = s\<lparr>rr_history := rr_history s @ [\<lparr>gx_speaker = Member (gm_id m) (gm_name m), gx_content = c\<rparr>],
                 rr_total := Suc (rr_total s)\<rparr>
      in if rr_total s1 \<ge> GROUP_MAX_MEMBER_TURNS then ([c], True, s1)
         else let (posted, hitCap, s2) = post_loop m cs s1 in (c # posted, hitCap, s2))"

definition memberById :: "room \<Rightarrow> ustr \<Rightarrow> group_member option" where
  "memberById rm = map_of (rev (map (\<lambda>m. (gm_id m, m)) (rm_members rm)))"

text \<open>The body of the speaker loops: what was posted, whether the cap was hit.\<close>

definition take_turn :: "room \<Rightarrow> bool \<Rightarrow> ustr \<Rightarrow> room_run \<Rightarrow> nat \<times> bool \<times> room_run" where
  "take_turn rm closing memberId s =
     (case memberById rm memberId of None \<Rightarrow> (0, False, s)
      | Some m \<Rightarrow>
          let (sent, turn, s1) = runOneTurn rm m closing s;
              (posted, hitCap, s2) = post_loop m sent s1
          in (length posted, hitCap, s2\<lparr>rr_log := rr_log s2 @ [turn\<lparr>mt_posted := posted\<rparr>]\<rparr>))"

subsection \<open>The run\<close>

definition stopped :: "room_run \<Rightarrow> bool" where
  "stopped s \<longleftrightarrow> rr_total s \<ge> GROUP_MAX_MEMBER_TURNS \<or> \<not> rr_current s"

text \<open>The speakers of a round: the messages they sent, whether the run returned, the state.\<close>

fun round_loop :: "room \<Rightarrow> ustr list \<Rightarrow> room_run \<Rightarrow> nat \<times> bool \<times> room_run" where
  "round_loop rm [] s = (0, False, s)"
| "round_loop rm (i # is) s =
     (if stopped s then (0, True, s)
      else let (n, hitCap, s1) = take_turn rm False i s
           in if hitCap then (n, True, s1)
              else let (k, ret, s2) = round_loop rm is s1 in (n + k, ret, s2))"

fun rounds :: "room \<Rightarrow> nat \<Rightarrow> nat \<Rightarrow> room_run \<Rightarrow> bool \<times> room_run" where
  "rounds rm 0 r s = (False, s)"
| "rounds rm (Suc k) r s =
     (if \<not> rr_current s then (True, s)
      else let ids = map gm_id (resolveResponders (rm_lower rm) (rm_members rm) (rr_history s));
               (n, ret, s1) = round_loop rm (orderRoundSpeakers ids (int r)) s
           in if ret then (True, s1) else if n = 0 then (False, s1) else rounds rm k (Suc r) s1)"

text \<open>A sweep over some members: the cap ends it at the next member, or at the check after it.\<close>

fun sweep_loop :: "room \<Rightarrow> bool \<Rightarrow> ustr list \<Rightarrow> room_run \<Rightarrow> nat \<times> bool \<times> room_run" where
  "sweep_loop rm closing [] s = (0, False, s)"
| "sweep_loop rm closing (i # is) s =
     (if stopped s then (0, True, s)
      else let (n, _, s1) = take_turn rm closing i s;
               (k, ret, s2) = sweep_loop rm closing is s1
           in (n + k, ret, s2))"

lemma post_loop_total:
  "post_loop m cs s = (posted, hitCap, s') \<Longrightarrow> rr_total s' = rr_total s + length posted"
proof (induction cs arbitrary: s posted hitCap s')
  case Nil
  then show ?case by simp
next
  case (Cons c cs)
  let ?s1 = "s\<lparr>rr_history := rr_history s @ [\<lparr>gx_speaker = Member (gm_id m) (gm_name m), gx_content = c\<rparr>],
      rr_total := Suc (rr_total s)\<rparr>"
  obtain ps h s2 where l: "post_loop m cs ?s1 = (ps, h, s2)" by (metis prod_cases3)
  from Cons.prems Cons.IH [OF l] show ?case by (auto simp: Let_def l split: if_splits)
qed

lemma runOneTurn_total: "runOneTurn rm m closing s = (sent, turn, s') \<Longrightarrow> rr_total s' = rr_total s"
  by (auto simp: runOneTurn_def Let_def)

lemma take_turn_cases:
  obtains (absent) "take_turn rm closing i s = (0, False, s)" "memberById rm i = None"
  | (turn) m sent turn s1 posted hitCap s2 where "memberById rm i = Some m"
      "runOneTurn rm m closing s = (sent, turn, s1)" "post_loop m sent s1 = (posted, hitCap, s2)"
      "take_turn rm closing i s = (length posted, hitCap, s2\<lparr>rr_log := rr_log s2 @ [turn\<lparr>mt_posted := posted\<rparr>]\<rparr>)"
proof (cases "memberById rm i")
  case None
  then show thesis by (intro absent) (simp_all add: take_turn_def)
next
  case (Some m)
  obtain sent turn s1 where r: "runOneTurn rm m closing s = (sent, turn, s1)" by (metis prod_cases3)
  obtain posted hitCap s2 where p: "post_loop m sent s1 = (posted, hitCap, s2)" by (metis prod_cases3)
  show thesis by (rule turn [OF Some r p]) (simp add: take_turn_def Some r p)
qed

lemma take_turn_total: "take_turn rm closing i s = (n, hitCap, s') \<Longrightarrow> rr_total s' = rr_total s + n"
proof (cases rule: take_turn_cases [of rm closing i s])
  case (turn m sent tn s1 posted hc s2)
  assume "take_turn rm closing i s = (n, hitCap, s')"
  with turn post_loop_total [OF turn(3)] runOneTurn_total [OF turn(2)] show ?thesis by auto
qed simp

lemma sweep_loop_total: "sweep_loop rm closing is s = (n, ret, s') \<Longrightarrow> rr_total s' = rr_total s + n"
proof (induction "is" arbitrary: s n ret s')
  case Nil
  then show ?case by simp
next
  case (Cons i "is")
  obtain n1 c s1 where t: "take_turn rm closing i s = (n1, c, s1)" by (metis prod_cases3)
  obtain k r s2 where l: "sweep_loop rm closing is s1 = (k, r, s2)" by (metis prod_cases3)
  from Cons.prems Cons.IH [OF l] take_turn_total [OF t] show ?case
    by (auto simp: t l split: if_splits)
qed

function relay :: "room \<Rightarrow> room_run \<Rightarrow> bool \<times> room_run" where
  "relay rm s =
     (if stopped s then (True, s)
      else let pendingIds = pendingMentionTargets rm (rr_history s)
           in if pendingIds = [] then (False, s)
              else let (n, ret, s1) = sweep_loop rm False pendingIds s
                   in if ret then (True, s1) else if n = 0 then (False, s1) else relay rm s1)"
  by pat_completeness auto
termination
  by (relation "measure (\<lambda>(rm, s). GROUP_MAX_MEMBER_TURNS - rr_total s)")
    (auto simp: stopped_def dest!: sweep_loop_total [OF sym])

declare relay.simps [simp del]

fun sweeps :: "room \<Rightarrow> nat \<Rightarrow> room_run \<Rightarrow> room_run" where
  "sweeps rm 0 s = s"
| "sweeps rm (Suc k) s =
     (let (ret, s1) = relay rm s
      in if ret then s1
         else let authors = closingAuthors rm (rr_history s1)
              in if authors = [] then s1
                 else let (n, ret2, s2) = sweep_loop rm True authors s1
                      in if ret2 \<or> n = 0 then s2 else sweeps rm k s2)"

definition run_room :: "room \<Rightarrow> group_message list \<Rightarrow> bool \<Rightarrow> room_run" where
  "run_room rm history current =
     (let s0 = \<lparr>rr_history = history, rr_current = current, rr_total = 0, rr_log = []\<rparr>
      in if rm_members rm = [] then s0
         else let (ret, s1) = rounds rm GROUP_MAX_ROUNDS 0 s0 in if ret then s1 else sweeps rm 2 s1)"


subsection \<open>What a turn may post\<close>

definition speakable :: "ustr \<Rightarrow> bool" where
  "speakable c \<longleftrightarrow> \<not> isPassContent c \<and> c \<noteq> [] \<and> js_trim c = c"

lemma strip_trimmed [simp]: "js_trim (stripGroupPassToken raw) = stripGroupPassToken raw"
  by (simp add: stripGroupPassToken_def)

lemma spoken_loop_ok:
  "list_all speakable spoken \<Longrightarrow> length spoken < GROUP_MAX_MESSAGES_PER_TURN \<Longrightarrow>
   list_all speakable (spoken_loop raws spoken) \<and> length (spoken_loop raws spoken) \<le> GROUP_MAX_MESSAGES_PER_TURN"
proof (induction raws arbitrary: spoken)
  case Nil
  then show ?case by simp
next
  case (Cons raw raws)
  let ?c = "stripGroupPassToken raw"
  show ?case
  proof (cases "isPassContent ?c \<or> ?c = []")
    case True
    then have "spoken_loop (raw # raws) spoken = spoken_loop raws spoken" by (auto simp: Let_def)
    with Cons show ?thesis by simp
  next
    case False
    then have "speakable ?c" by (simp add: speakable_def)
    with Cons.prems have ok: "list_all speakable (spoken @ [?c])" by simp
    show ?thesis
    proof (cases "Suc (length spoken) < GROUP_MAX_MESSAGES_PER_TURN")
      case True
      with False Cons.IH [OF ok] show ?thesis by (simp add: Let_def)
    next
      case cap: False
      with False ok Cons.prems(2) show ?thesis by (simp add: Let_def)
    qed
  qed
qed

lemma post_loop_prefix:
  "post_loop m cs s = (posted, hitCap, s') \<Longrightarrow> prefix posted cs \<and> rr_log s' = rr_log s \<and> rr_current s' = rr_current s \<and>
     (rr_total s < GROUP_MAX_MEMBER_TURNS \<longrightarrow> rr_total s' \<le> GROUP_MAX_MEMBER_TURNS)"
proof (induction cs arbitrary: s posted hitCap s')
  case Nil
  then show ?case by simp
next
  case (Cons c cs)
  let ?s1 = "s\<lparr>rr_history := rr_history s @ [\<lparr>gx_speaker = Member (gm_id m) (gm_name m), gx_content = c\<rparr>],
      rr_total := Suc (rr_total s)\<rparr>"
  obtain ps h s2 where l: "post_loop m cs ?s1 = (ps, h, s2)" by (metis prod_cases3)
  from Cons.prems Cons.IH [OF l] show ?case by (auto simp: Let_def l split: if_splits)
qed

subsection \<open>The invariant of a run\<close>

definition turn_ok :: "room \<Rightarrow> member_turn \<Rightarrow> bool" where
  "turn_ok rm t \<longleftrightarrow> mt_member t \<in> gm_id ` set (rm_members rm) \<and> list_all speakable (mt_posted t) \<and>
     length (mt_posted t) \<le> GROUP_MAX_MESSAGES_PER_TURN"

definition run_ok :: "room \<Rightarrow> bool \<Rightarrow> room_run \<Rightarrow> bool" where
  "run_ok rm current s \<longleftrightarrow>
     rr_total s = sum_list (map (\<lambda>t. length (mt_posted t)) (rr_log s)) \<and> rr_total s \<le> GROUP_MAX_MEMBER_TURNS \<and>
     list_all (turn_ok rm) (rr_log s) \<and>
     list_all (\<lambda>i. te_current (rm_env rm i)) [0..<length (rr_log s) - 1] \<and>
     (if rr_log s = [] then rr_current s = current
      else current \<and> rr_current s = te_current (rm_env rm (length (rr_log s) - 1)))"

lemma memberById_id: "memberById rm i = Some m \<Longrightarrow> m \<in> set (rm_members rm) \<and> gm_id m = i"
  by (auto simp: memberById_def dest!: map_of_SomeD)

lemma take_turn_ok:
  assumes ok: "run_ok rm current s" and live: "\<not> stopped s"
  shows "run_ok rm current (snd (snd (take_turn rm closing i s)))"
proof (cases rule: take_turn_cases [of rm closing i s])
  case absent
  with ok show ?thesis by simp
next
  case (turn m sent tn s1 posted hc s2)
  let ?env = "rm_env rm (length (rr_log s))"
  from turn(2) have sent: "sent = spoken_loop (te_sent ?env) []" and tn: "mt_member tn = gm_id m"
    and s1: "rr_log s1 = rr_log s" "rr_total s1 = rr_total s" "rr_current s1 = te_current ?env"
    by (auto simp: runOneTurn_def Let_def)
  have spoken: "list_all speakable sent" "length sent \<le> GROUP_MAX_MESSAGES_PER_TURN"
    using spoken_loop_ok [of "[]" "te_sent ?env"] by (simp_all add: sent GROUP_MAX_MESSAGES_PER_TURN_def)
  note p = post_loop_prefix [OF turn(3)]
  have pre: "prefix posted sent" using p by blast
  have posted: "list_all speakable posted" "length posted \<le> GROUP_MAX_MESSAGES_PER_TURN"
    using spoken prefix_length_le [OF pre] set_mono_prefix [OF pre] by (auto simp: list_all_iff)
  have tok: "turn_ok rm (tn\<lparr>mt_posted := posted\<rparr>)"
    using imageI [of m "set (rm_members rm)" gm_id] memberById_id [OF turn(1)] posted tn by (simp add: turn_ok_def)
  have total: "rr_total s2 = rr_total s + length posted" "rr_total s2 \<le> GROUP_MAX_MEMBER_TURNS"
    using post_loop_total [OF turn(3)] p s1 live by (auto simp: stopped_def)
  have log: "rr_log s2 = rr_log s" "rr_current s2 = te_current ?env" using p s1 by simp_all
  have cur: "rr_current s" using live by (simp add: stopped_def)
  have env: "list_all (\<lambda>i. te_current (rm_env rm i)) [0..<length (rr_log s)]"
  proof (cases "rr_log s = []")
    case False
    then have "[0..<length (rr_log s)] = [0..<length (rr_log s) - 1] @ [length (rr_log s) - 1]"
      by (cases "length (rr_log s)") simp_all
    with ok False cur show ?thesis by (simp add: run_ok_def)
  qed simp
  have "current" using ok cur by (auto simp: run_ok_def split: if_splits)
  with ok tok total log env show ?thesis by (simp add: turn(4) run_ok_def)
qed

lemma take_turn_log: "length (rr_log (snd (snd (take_turn rm closing i s)))) \<le> Suc (length (rr_log s))"
proof (cases rule: take_turn_cases [of rm closing i s])
  case (turn m sent tn s1 posted hc s2)
  then show ?thesis using post_loop_prefix [OF turn(3)] by (auto simp: runOneTurn_def Let_def)
qed simp

lemma round_loop_ok:
  "run_ok rm current s \<Longrightarrow> run_ok rm current (snd (snd (round_loop rm is s))) \<and>
   length (rr_log (snd (snd (round_loop rm is s)))) \<le> length (rr_log s) + length is"
proof (induction "is" arbitrary: s)
  case Nil
  then show ?case by simp
next
  case (Cons i "is")
  obtain n c s1 where t: "take_turn rm False i s = (n, c, s1)" by (metis prod_cases3)
  show ?case
  proof (cases "stopped s")
    case True
    with Cons.prems show ?thesis by simp
  next
    case False
    have "run_ok rm current s1" "length (rr_log s1) \<le> Suc (length (rr_log s))"
      using take_turn_ok [OF Cons.prems False, of False i] take_turn_log [of rm False i s] t by simp_all
    with Cons.IH [of s1] False t show ?thesis by (auto simp: Let_def split: prod.splits)
  qed
qed

lemma sweep_loop_ok:
  "run_ok rm current s \<Longrightarrow> run_ok rm current (snd (snd (sweep_loop rm closing is s))) \<and>
   length (rr_log (snd (snd (sweep_loop rm closing is s)))) \<le> length (rr_log s) + length is"
proof (induction "is" arbitrary: s)
  case Nil
  then show ?case by simp
next
  case (Cons i "is")
  obtain n c s1 where t: "take_turn rm closing i s = (n, c, s1)" by (metis prod_cases3)
  show ?case
  proof (cases "stopped s")
    case True
    with Cons.prems show ?thesis by simp
  next
    case False
    have "run_ok rm current s1" "length (rr_log s1) \<le> Suc (length (rr_log s))"
      using take_turn_ok [OF Cons.prems False, of closing i] take_turn_log [of rm closing i s] t by simp_all
    with Cons.IH [of s1] False t show ?thesis by (auto simp: Let_def split: prod.splits)
  qed
qed


subsection \<open>Whom a sweep wakes\<close>

lemma room_member_id: "is_room_member rm i \<longleftrightarrow> i \<in> gm_id ` set (rm_members rm)"
  by (auto simp: is_room_member_def list_ex_iff)

definition member_ids :: "room \<Rightarrow> ustr list \<Rightarrow> bool" where
  "member_ids rm is \<longleftrightarrow> distinct is \<and> set is \<subseteq> gm_id ` set (rm_members rm)"

lemma member_ids_length: "member_ids rm is \<Longrightarrow> length is \<le> length (rm_members rm)"
proof -
  assume "member_ids rm is"
  then have "length is = card (set is)" "set is \<subseteq> set (map gm_id (rm_members rm))"
    by (simp_all add: member_ids_def distinct_card)
  then have "length is \<le> card (set (map gm_id (rm_members rm)))" by (simp add: card_mono)
  also have "\<dots> \<le> length (rm_members rm)" using card_length [of "map gm_id (rm_members rm)"] by simp
  finally show ?thesis .
qed

lemma authors_loop_ids: "member_ids rm acc \<Longrightarrow> member_ids rm (authors_loop rm xs acc)"
proof (induction rm xs acc rule: authors_loop.induct)
  case (1 rm acc)
  then show ?case by simp
next
  case (2 rm x xs acc)
  then show ?case by (cases "gx_speaker x") (auto simp: member_ids_def room_member_id)
qed

lemma closingAuthors_ids: "member_ids rm (closingAuthors rm history)"
  unfolding closingAuthors_def by (rule authors_loop_ids) (simp add: member_ids_def)

lemma note_pending_ids:
  "member_ids rm acc \<Longrightarrow> set is \<subseteq> gm_id ` set (rm_members rm) \<Longrightarrow> member_ids rm (foldl (note_pending later) acc is)"
  by (induction "is" arbitrary: acc) (auto simp: note_pending_def member_ids_def)

lemma parsed_ids: "set (snd (parseGroupMentions lower body members)) \<subseteq> gm_id ` set members"
  using parse_ok [of members lower body] by (simp add: mentions_ok_def)

lemma pending_loop_ids: "member_ids rm acc \<Longrightarrow> member_ids rm (pending_loop rm xs acc)"
proof (induction rm xs acc rule: pending_loop.induct)
  case (1 rm acc)
  then show ?case by simp
next
  case (2 rm x xs acc)
  then show ?case by (cases "gx_speaker x") (auto simp: note_pending_ids parsed_ids)
qed

lemma pendingMentionTargets_ids: "member_ids rm (pendingMentionTargets rm history)"
  unfolding pendingMentionTargets_def by (rule pending_loop_ids) (simp add: member_ids_def)

lemma responders_length: "length (resolveResponders lower members history) \<le> length members"
  by (simp add: resolveResponders_def Let_def)

lemma order_length: "length (orderRoundSpeakers ids r) = length ids"
  by (simp add: orderRoundSpeakers_def Let_def min_def)

subsection \<open>The whole run\<close>

lemma rounds_ok:
  "run_ok rm current s \<Longrightarrow> run_ok rm current (snd (rounds rm k r s)) \<and>
   length (rr_log (snd (rounds rm k r s))) \<le> length (rr_log s) + k * length (rm_members rm)"
proof (induction k arbitrary: r s)
  case 0
  then show ?case by simp
next
  case (Suc k)
  let ?ids = "orderRoundSpeakers (map gm_id (resolveResponders (rm_lower rm) (rm_members rm) (rr_history s))) (int r)"
  obtain n ret s1 where l: "round_loop rm ?ids s = (n, ret, s1)" by (metis prod_cases3)
  have ok: "run_ok rm current s1" and len: "length (rr_log s1) \<le> length (rr_log s) + length (rm_members rm)"
    using round_loop_ok [OF Suc.prems, of ?ids] l responders_length [of "rm_lower rm" "rm_members rm" "rr_history s"]
    by (auto simp: order_length)
  from Suc.IH [OF ok, of "Suc r"] Suc.prems l len ok show ?case by (auto simp: Let_def)
qed

lemma relay_ok:
  "run_ok rm current s \<Longrightarrow> run_ok rm current (snd (relay rm s)) \<and>
   length (rr_log (snd (relay rm s))) \<le>
     length (rr_log s) + (rr_total (snd (relay rm s)) - rr_total s + 1) * length (rm_members rm) \<and>
   rr_total s \<le> rr_total (snd (relay rm s))"
proof (induction rm s rule: relay.induct)
  case (1 rm s)
  let ?ids = "pendingMentionTargets rm (rr_history s)"
  obtain n ret s1 where l: "sweep_loop rm False ?ids s = (n, ret, s1)" by (metis prod_cases3)
  have s1: "run_ok rm current s1" "length (rr_log s1) \<le> length (rr_log s) + length (rm_members rm)"
    "rr_total s1 = rr_total s + n"
    using sweep_loop_ok [OF "1.prems", of False ?ids] l member_ids_length [OF pendingMentionTargets_ids [of rm "rr_history s"]]
      sweep_loop_total [OF l] by auto
  show ?case
  proof (cases "stopped s \<or> ?ids = [] \<or> ret \<or> n = 0")
    case True
    with "1.prems" l s1 show ?thesis
      by (auto simp: relay.simps [of rm s] Let_def trans_le_add1)
  next
    case False
    then have r: "relay rm s = relay rm s1" using l by (simp add: relay.simps [of rm s] Let_def)
    from False "1.IH" [OF _ refl _ refl l [symmetric] refl _ _ s1(1)]
    have ih: "run_ok rm current (snd (relay rm s1))"
      "length (rr_log (snd (relay rm s1))) \<le>
        length (rr_log s1) + (rr_total (snd (relay rm s1)) - rr_total s1 + 1) * length (rm_members rm)"
      "rr_total s1 \<le> rr_total (snd (relay rm s1))" by auto
    have "1 + (rr_total (snd (relay rm s1)) - rr_total s1 + 1) \<le> rr_total (snd (relay rm s1)) - rr_total s + 1"
    proof -
      have "n \<noteq> 0" using False by simp
      with s1(3) ih(3) show ?thesis by arith
    qed
    then have "length (rm_members rm) + (rr_total (snd (relay rm s1)) - rr_total s1 + 1) * length (rm_members rm)
        \<le> (rr_total (snd (relay rm s1)) - rr_total s + 1) * length (rm_members rm)"
      by (metis mult_le_mono1 distrib_right mult_1)
    with r ih s1 show ?thesis by simp
  qed
qed

lemma turns_mono: "x \<le> c + a * M \<Longrightarrow> a \<le> b \<Longrightarrow> x \<le> c + b * (M :: nat)"
  by (meson add_left_mono le_trans mult_le_mono1)

lemma sweeps_ok:
  "run_ok rm current s \<Longrightarrow> run_ok rm current (sweeps rm k s) \<and>
   length (rr_log (sweeps rm k s)) \<le>
     length (rr_log s) + (rr_total (sweeps rm k s) - rr_total s + 2 * k) * length (rm_members rm) \<and>
   rr_total s \<le> rr_total (sweeps rm k s)"
proof (induction k arbitrary: s)
  case 0
  then show ?case by simp
next
  case (Suc k)
  let ?M = "length (rm_members rm)"
  obtain ret s1 where r: "relay rm s = (ret, s1)" by fastforce
  have s1: "run_ok rm current s1" "length (rr_log s1) \<le> length (rr_log s) + (rr_total s1 - rr_total s + 1) * ?M"
    "rr_total s \<le> rr_total s1" using relay_ok [OF Suc.prems] r by simp_all
  let ?ids = "closingAuthors rm (rr_history s1)"
  obtain n ret2 s2 where l: "sweep_loop rm True ?ids s1 = (n, ret2, s2)" by (metis prod_cases3)
  have s2: "run_ok rm current s2" "length (rr_log s2) \<le> length (rr_log s1) + ?M" "rr_total s2 = rr_total s1 + n"
    using sweep_loop_ok [OF s1(1), of True ?ids] l member_ids_length [OF closingAuthors_ids [of rm "rr_history s1"]]
      sweep_loop_total [OF l] by auto
  have bound1: "length (rr_log s1) \<le> length (rr_log s) + (rr_total s1 - rr_total s + 2 * Suc k) * ?M"
    by (rule turns_mono [OF s1(2)]) simp
  have two: "length (rr_log s2) \<le> length (rr_log s) + (rr_total s1 - rr_total s + 2) * ?M"
    using s1(2) s2(2) by (simp add: algebra_simps)
  have bound2: "length (rr_log s2) \<le> length (rr_log s) + (rr_total s2 - rr_total s + 2 * Suc k) * ?M"
    by (rule turns_mono [OF two]) (use s1(3) s2(3) in simp)
  note ih = Suc.IH [OF s2(1)]
  let ?e = "rr_total (sweeps rm k s2)"
  have "(rr_total s1 - rr_total s + 2) + (?e - rr_total s2 + 2 * k) \<le> ?e - rr_total s + 2 * Suc k"
    using ih s1(3) s2(3) by simp
  then have "(rr_total s1 - rr_total s + 2) * ?M + (?e - rr_total s2 + 2 * k) * ?M \<le> (?e - rr_total s + 2 * Suc k) * ?M"
    by (metis mult_le_mono1 distrib_right)
  then have bound3: "length (rr_log (sweeps rm k s2)) \<le> length (rr_log s) + (?e - rr_total s + 2 * Suc k) * ?M"
    using ih two by linarith
  show ?case
    using s1 s2 ih bound1 bound2 bound3 by (auto simp: r l Let_def)
qed

lemma run_room_ok:
  "run_ok rm current (run_room rm history current) \<and>
   length (rr_log (run_room rm history current)) \<le> 17 * length (rm_members rm)"
proof -
  let ?s0 = "\<lparr>rr_history = history, rr_current = current, rr_total = 0, rr_log = []\<rparr>"
  have ok0: "run_ok rm current ?s0" by (simp add: run_ok_def)
  obtain ret s1 where r: "rounds rm GROUP_MAX_ROUNDS 0 ?s0 = (ret, s1)" by fastforce
  have s1: "run_ok rm current s1" "length (rr_log s1) \<le> 3 * length (rm_members rm)"
    using rounds_ok [OF ok0, of GROUP_MAX_ROUNDS 0] r by (simp_all add: GROUP_MAX_ROUNDS_def)
  note sw = sweeps_ok [OF s1(1), of 2]
  have "rr_total (sweeps rm 2 s1) \<le> GROUP_MAX_MEMBER_TURNS" using sw by (simp add: run_ok_def)
  then have "rr_total (sweeps rm 2 s1) - rr_total s1 + 2 * 2 \<le> 14" by (simp add: GROUP_MAX_MEMBER_TURNS_def)
  then have "(rr_total (sweeps rm 2 s1) - rr_total s1 + 2 * 2) * length (rm_members rm) \<le> 14 * length (rm_members rm)"
    by (rule mult_le_mono1)
  with sw s1(2) have "length (rr_log (sweeps rm 2 s1)) \<le> 17 * length (rm_members rm)" by linarith
  with s1 sw ok0 r show ?thesis by (auto simp: run_room_def Let_def)
qed


subsection \<open>Properties\<close>

text \<open>
  Property C36. A run of a room always ends, after at most 17 member turns for each member, with at
  most \<open>GROUP_MAX_MEMBER_TURNS\<close> messages posted, at most two of them in one turn; every turn is of
  a member of the room, and what it posts is trimmed, not empty and not a pass.
\<close>

theorem room_run_bounded:
  "let s = run_room rm history current in
     length (rr_log s) \<le> 17 * length (rm_members rm) \<and>
     rr_total s = sum_list (map (\<lambda>t. length (mt_posted t)) (rr_log s)) \<and> rr_total s \<le> GROUP_MAX_MEMBER_TURNS \<and>
     list_all (\<lambda>t. mt_member t \<in> gm_id ` set (rm_members rm) \<and> length (mt_posted t) \<le> GROUP_MAX_MESSAGES_PER_TURN \<and>
       list_all (\<lambda>c. \<not> isPassContent c \<and> c \<noteq> [] \<and> js_trim c = c) (mt_posted t)) (rr_log s)"
  using run_room_ok [of rm current history]
  by (simp add: Let_def run_ok_def turn_ok_def [abs_def] speakable_def [abs_def] conj_commute)

text \<open>
  Fact. A run that is no longer current takes no further turn: it takes none if it was
  superseded before it began, and whenever a turn ends with the run superseded that turn is the
  last of the run, in every round and every sweep.
\<close>

theorem superseded_run_stops:
  "let s = run_room rm history current in
     (current \<or> rr_log s = []) \<and>
     list_all (\<lambda>i. te_current (rm_env rm i)) [0..<length (rr_log s) - 1]"
  using run_room_ok [of rm current history] by (auto simp: Let_def run_ok_def split: if_splits)

end
