(* ===== verification/Node_Paths.thy ===== *)
theory Node_Paths
  imports Js_Strings
begin

text \<open>
  The functions of \<^verbatim>\<open>node:path\<close> (POSIX) that the host guards its directories with:
  \<^verbatim>\<open>isAbsolute\<close>, \<^verbatim>\<open>normalize\<close>, \<^verbatim>\<open>join\<close>, \<^verbatim>\<open>resolve\<close>, \<^verbatim>\<open>relative\<close> and \<^verbatim>\<open>dirname\<close>, on strings of code
  units. The library normalizes a path by its segments, from left to right, on a stack; so do the
  definitions. The second half says what the containment test of the host, a relative path that
  does not begin with two dots, amounts to on the segments of two normalized paths.
\<close>

named_theorems node_path "facts about paths and their segments"

definition slash :: nat where "slash = 47"
definition dot :: nat where "dot = 46"

abbreviation here :: ustr where "here \<equiv> [dot]"
abbreviation up :: ustr where "up \<equiv> [dot, dot]"

lemma slash_dot [simp]: "slash \<noteq> dot" "dot \<noteq> slash"
  by (simp_all add: slash_def dot_def)

subsection \<open>Joining and splitting\<close>

text \<open>\<^verbatim>\<open>ws.join(c)\<close> for one character.\<close>

fun join_on :: "nat \<Rightarrow> ustr list \<Rightarrow> ustr" where
  "join_on c [] = []"
| "join_on c [w] = w"
| "join_on c (w # ws) = w @ c # join_on c ws"

lemma join_on_Cons: "ws \<noteq> [] \<Longrightarrow> join_on c (w # ws) = w @ c # join_on c ws"
  by (cases ws) simp_all

lemma split_on_absent: "c \<notin> set s \<Longrightarrow> split_on c s = [s]"
  by (induction s) simp_all

lemma split_on_join: "split_on c (s @ c # t) = split_on c s @ split_on c t"
  by (induction s) (auto split: list.splits)

lemma split_join [node_path]:
  "ws \<noteq> [] \<Longrightarrow> \<forall>w \<in> set ws. c \<notin> set w \<Longrightarrow> split_on c (join_on c ws) = ws"
proof (induction ws)
  case (Cons w ws)
  then show ?case
    by (cases "ws = []") (simp_all add: join_on_Cons split_on_join split_on_absent)
qed simp

lemma join_split [simp, node_path]: "join_on c (split_on c s) = s"
proof (induction s)
  case (Cons u s)
  then show ?case
    using split_on_nonempty [of c s] by (cases "split_on c s"; cases "tl (split_on c s)") auto
qed simp

lemma split_on_free: "w \<in> set (split_on c s) \<Longrightarrow> c \<notin> set w"
  by (induction s arbitrary: w) (auto split: if_splits list.splits)

lemma join_on_append:
  "xs \<noteq> [] \<Longrightarrow> ys \<noteq> [] \<Longrightarrow> join_on c (xs @ ys) = join_on c xs @ c # join_on c ys"
proof (induction xs)
  case (Cons x xs)
  then show ?case by (cases "xs = []") (simp_all add: join_on_Cons)
qed simp

lemma join_on_Nil_iff: "\<forall>w \<in> set ws. w \<noteq> [] \<Longrightarrow> join_on c ws = [] \<longleftrightarrow> ws = []"
  by (induction c ws rule: join_on.induct) auto

subsection \<open>The functions of the library\<close>

text \<open>\<^verbatim>\<open>normalizeString\<close>: a segment goes on the stack, two dots take one off it.\<close>

definition push_seg :: "bool \<Rightarrow> ustr list \<Rightarrow> ustr \<Rightarrow> ustr list" where
  "push_seg allowAboveRoot st s =
     (if s = [] \<or> s = here then st
      else if s = up then
        (if st \<noteq> [] \<and> last st \<noteq> up then butlast st
         else if allowAboveRoot then st @ [up] else st)
      else st @ [s])"

definition normalize_segs :: "bool \<Rightarrow> ustr list \<Rightarrow> ustr list" where
  "normalize_segs allowAboveRoot ss = foldl (push_seg allowAboveRoot) [] ss"

definition path_isAbsolute :: "ustr \<Rightarrow> bool" where
  "path_isAbsolute p \<longleftrightarrow> p \<noteq> [] \<and> hd p = slash"

definition path_normalize :: "ustr \<Rightarrow> ustr" where
  "path_normalize p =
     (if p = [] then here
      else
        let abs = path_isAbsolute p;
            trailing = (last p = slash);
            q = join_on slash (normalize_segs (\<not> abs) (split_on slash p))
        in if q = [] then (if abs then [slash] else if trailing then here @ [slash] else here)
           else
             let q' = (if trailing then q @ [slash] else q)
             in if abs then slash # q' else q')"

definition path_join :: "ustr list \<Rightarrow> ustr" where
  "path_join ps =
     (let qs = filter (\<lambda>p. p \<noteq> []) ps
      in if qs = [] then here else path_normalize (join_on slash qs))"

text \<open>
  \<^verbatim>\<open>resolve\<close> reads its arguments from the right until one is absolute; read from the left, an
  absolute argument makes what came before it void. The first is the directory of the process.
\<close>

definition resolve_step :: "ustr \<Rightarrow> ustr \<Rightarrow> ustr" where
  "resolve_step acc p =
     (if p = [] then acc else if path_isAbsolute p then p else acc @ slash # p)"

definition path_resolve :: "ustr \<Rightarrow> ustr list \<Rightarrow> ustr" where
  "path_resolve cwd ps =
     slash # join_on slash (normalize_segs False (split_on slash (foldl resolve_step cwd ps)))"

definition abs_segs :: "ustr \<Rightarrow> ustr list" where
  "abs_segs p = filter (\<lambda>s. s \<noteq> []) (split_on slash p)"

fun common_prefix :: "'a list \<Rightarrow> 'a list \<Rightarrow> nat" where
  "common_prefix (x # xs) (y # ys) = (if x = y then Suc (common_prefix xs ys) else 0)"
| "common_prefix _ _ = 0"

definition relative_segs :: "ustr list \<Rightarrow> ustr list \<Rightarrow> ustr list" where
  "relative_segs f t =
     replicate (length f - common_prefix f t) up @ drop (common_prefix f t) t"

definition path_relative :: "ustr \<Rightarrow> ustr \<Rightarrow> ustr \<Rightarrow> ustr" where
  "path_relative cwd f t =
     join_on slash (relative_segs (abs_segs (path_resolve cwd [f])) (abs_segs (path_resolve cwd [t])))"

definition path_dirname :: "ustr \<Rightarrow> ustr" where
  "path_dirname p =
     (if p = [] then here
      else
        let r = dropWhile (\<lambda>u. u \<noteq> slash) (dropWhile (\<lambda>u. u = slash) (rev (tl p)))
        in if r = [] then (if hd p = slash then [slash] else here)
           else if hd p = slash \<and> length r = 1 then [slash, slash]
           else take (length r) p)"

subsection \<open>Normalized absolute paths\<close>

definition clean_seg :: "ustr \<Rightarrow> bool" where
  "clean_seg s \<longleftrightarrow> s \<noteq> [] \<and> s \<noteq> here \<and> s \<noteq> up \<and> slash \<notin> set s"

definition abs_path :: "ustr list \<Rightarrow> ustr" where
  "abs_path ss = slash # join_on slash ss"

lemma clean_segD:
  assumes "clean_seg s"
  shows "s \<noteq> []" "s \<noteq> here" "s \<noteq> up" "slash \<notin> set s"
  using assms by (simp_all add: clean_seg_def)

lemma clean_segI: "s \<noteq> [] \<Longrightarrow> s \<noteq> here \<Longrightarrow> s \<noteq> up \<Longrightarrow> slash \<notin> set s \<Longrightarrow> clean_seg s"
  by (simp add: clean_seg_def)

lemma push_clean [simp]: "clean_seg s \<Longrightarrow> push_seg a st s = st @ [s]"
  by (auto simp: push_seg_def clean_seg_def)

lemma foldl_push_clean [simp]: "\<forall>s \<in> set ss. clean_seg s \<Longrightarrow> foldl (push_seg a) st ss = st @ ss"
  by (induction ss arbitrary: st) simp_all

lemma normalize_clean [simp, node_path]:
  "\<forall>s \<in> set ss. clean_seg s \<Longrightarrow> normalize_segs a ss = ss"
  by (simp add: normalize_segs_def)

lemma push_seg_cases: "set (push_seg False st s) \<subseteq> set st \<union> (if s \<noteq> [] \<and> s \<noteq> here \<and> s \<noteq> up then {s} else {})"
  unfolding push_seg_def by (auto dest: in_set_butlastD)

lemma push_keeps_clean:
  assumes "\<forall>s \<in> set st. clean_seg s" and "slash \<notin> set s"
  shows "\<forall>t \<in> set (push_seg False st s). clean_seg t"
proof
  fix t assume "t \<in> set (push_seg False st s)"
  then consider "t \<in> set st" | "t = s" "s \<noteq> []" "s \<noteq> here" "s \<noteq> up"
    using push_seg_cases [of st s] by (auto split: if_splits)
  then show "clean_seg t" using assms by cases (blast intro: clean_segI)+
qed

lemma foldl_push_keeps_clean:
  "\<forall>s \<in> set st. clean_seg s \<Longrightarrow> \<forall>s \<in> set ss. slash \<notin> set s \<Longrightarrow>
   \<forall>t \<in> set (foldl (push_seg False) st ss). clean_seg t"
proof (induction ss arbitrary: st)
  case (Cons s ss)
  from Cons.prems(2) have s: "slash \<notin> set s" and ss: "\<forall>t \<in> set ss. slash \<notin> set t" by auto
  show ?case
    unfolding foldl_Cons by (rule Cons.IH [OF push_keeps_clean [OF Cons.prems(1) s] ss])
next
  case Nil
  then show ?case unfolding foldl_Nil by blast
qed

lemma normalized_is_clean [node_path]:
  "\<forall>t \<in> set (normalize_segs False (split_on slash p)). clean_seg t"
  unfolding normalize_segs_def
  by (rule foldl_push_keeps_clean) (auto dest: split_on_free)

lemma split_abs_path [node_path]:
  assumes "\<forall>s \<in> set ss. clean_seg s"
  shows "split_on slash (abs_path ss) = (if ss = [] then [[], []] else [] # ss)"
proof -
  have "\<forall>s \<in> set ss. slash \<notin> set s" using assms by (simp add: clean_seg_def)
  then show ?thesis by (simp add: abs_path_def split_join)
qed

lemma abs_segs_abs_path [simp, node_path]:
  assumes "\<forall>s \<in> set ss. clean_seg s"
  shows "abs_segs (abs_path ss) = ss"
proof -
  have "filter (\<lambda>s. s \<noteq> []) ss = ss" using assms by (simp add: clean_seg_def filter_id_conv)
  then show ?thesis using assms by (simp add: abs_segs_def split_abs_path)
qed

lemma abs_path_inject:
  assumes "\<forall>s \<in> set ss. clean_seg s" and "\<forall>s \<in> set ts. clean_seg s"
  shows "abs_path ss = abs_path ts \<longleftrightarrow> ss = ts"
  using assms by (metis abs_segs_abs_path)

lemma isAbsolute_abs_path [simp]: "path_isAbsolute (abs_path ss)"
  by (simp add: path_isAbsolute_def abs_path_def)

lemma resolve_absolute:
  assumes "path_isAbsolute p"
  shows "path_resolve cwd [p] = abs_path (normalize_segs False (split_on slash p))"
proof -
  have "p \<noteq> []" using assms by (simp add: path_isAbsolute_def)
  then show ?thesis using assms by (simp add: path_resolve_def resolve_step_def abs_path_def)
qed

lemma resolve_is_abs_path:
  "path_resolve cwd ps = abs_path (normalize_segs False (split_on slash (foldl resolve_step cwd ps)))"
  by (simp add: path_resolve_def abs_path_def)

lemma resolve_abs_path [simp, node_path]:
  assumes "\<forall>s \<in> set ss. clean_seg s"
  shows "path_resolve cwd [abs_path ss] = abs_path ss"
proof -
  have "normalize_segs False ([] # ss) = ss"
    using assms by (simp add: normalize_segs_def push_seg_def)
  moreover have "normalize_segs False [[], []] = []"
    by (simp add: normalize_segs_def push_seg_def)
  ultimately show ?thesis using assms by (simp add: resolve_absolute split_abs_path)
qed

subsection \<open>The containment test\<close>

definition starts_with :: "ustr \<Rightarrow> ustr \<Rightarrow> bool" where
  "starts_with pre s \<longleftrightarrow> take (length pre) s = pre"

text \<open>
  \<^verbatim>\<open>relative === "" || (!relative.startsWith("..") && !isAbsolute(relative))\<close>, the test the host
  makes wherever a path must stay below a directory.
\<close>

definition inside :: "ustr \<Rightarrow> ustr \<Rightarrow> ustr \<Rightarrow> bool" where
  "inside cwd root target =
     (let r = path_relative cwd root target
      in r = [] \<or> (\<not> starts_with up r \<and> \<not> path_isAbsolute r))"

lemma common_prefix_le: "common_prefix xs ys \<le> length xs" "common_prefix xs ys \<le> length ys"
  by (induction xs ys rule: common_prefix.induct) auto

lemma common_prefix_take: "take (common_prefix xs ys) xs = take (common_prefix xs ys) ys"
  by (induction xs ys rule: common_prefix.induct) auto

lemma common_prefix_append [simp]: "common_prefix xs (xs @ ys) = length xs"
  by (induction xs) simp_all

lemma common_prefix_whole: "common_prefix xs ys = length xs \<longleftrightarrow> (\<exists>zs. ys = xs @ zs)"
proof
  assume "common_prefix xs ys = length xs"
  then have "take (length xs) ys = xs" using common_prefix_take [of xs ys] by simp
  then show "\<exists>zs. ys = xs @ zs" by (metis append_take_drop_id)
qed auto

lemma starts_with_join:
  assumes "clean_seg s"
  shows "starts_with up (join_on slash (s # ss)) \<longleftrightarrow> starts_with up s"
proof (cases "ss = []")
  case False
  obtain a u where s: "s = a # u" using clean_segD(1) [OF assms] by (cases s) auto
  show ?thesis
  proof (cases u)
    case Nil
    then show ?thesis using s assms False by (auto simp: starts_with_def join_on_Cons clean_seg_def)
  next
    case (Cons b v)
    then show ?thesis using s False by (simp add: starts_with_def join_on_Cons)
  qed
qed simp

lemma clean_not_absolute:
  assumes "clean_seg s"
  shows "\<not> path_isAbsolute (join_on slash (s # ss))"
proof -
  obtain a u where s: "s = a # u" using clean_segD(1) [OF assms] by (cases s) auto
  then have "a \<noteq> slash" using clean_segD(4) [OF assms] by auto
  then show ?thesis using s by (cases ss) (simp_all add: path_isAbsolute_def)
qed

text \<open>What the test decides: the target is the directory or a path below it, and the first name
  below the directory does not begin with two dots.\<close>

lemma inside_iff [node_path]:
  assumes R: "\<forall>s \<in> set rs. clean_seg s" and T: "\<forall>s \<in> set ts. clean_seg s"
  shows "inside cwd (abs_path rs) (abs_path ts) \<longleftrightarrow>
    (\<exists>us. ts = rs @ us \<and> (us = [] \<or> \<not> starts_with up (hd us)))"
proof (cases "common_prefix rs ts = length rs")
  case True
  then obtain us where us: "ts = rs @ us" by (auto simp: common_prefix_whole)
  have rel: "path_relative cwd (abs_path rs) (abs_path ts) = join_on slash us"
    using R T us by (simp add: path_relative_def relative_segs_def)
  show ?thesis
  proof (cases us)
    case Nil
    then show ?thesis using rel us by (simp add: inside_def)
  next
    case (Cons v vs)
    then have v: "clean_seg v" using T us by simp
    have "join_on slash (v # vs) \<noteq> []"
      using clean_segD(1) [OF v] by (cases vs) simp_all
    then show ?thesis
      using rel us Cons starts_with_join [OF v] clean_not_absolute [OF v] by (simp add: inside_def)
  qed
next
  case False
  then have lt: "common_prefix rs ts < length rs" using common_prefix_le(1) [of rs ts] by simp
  then obtain n where n: "length rs - common_prefix rs ts = Suc n" by (metis Suc_diff_Suc)
  have "relative_segs rs ts = up # (replicate n up @ drop (common_prefix rs ts) ts)"
    by (simp add: relative_segs_def n)
  then have "path_relative cwd (abs_path rs) (abs_path ts) =
      join_on slash (up # (replicate n up @ drop (common_prefix rs ts) ts))"
    using R T by (simp add: path_relative_def)
  moreover have "starts_with up (join_on slash (up # xs))" for xs
    by (cases xs) (simp_all add: starts_with_def)
  moreover have "join_on slash (up # xs) \<noteq> []" for xs
    by (cases xs) simp_all
  ultimately have "\<not> inside cwd (abs_path rs) (abs_path ts)"
    unfolding inside_def Let_def by simp
  moreover have "\<nexists>us. ts = rs @ us" using False by (simp add: common_prefix_whole)
  ultimately show ?thesis by blast
qed

lemma inside_prefix:
  assumes "inside cwd (abs_path rs) (abs_path ts)"
    and "\<forall>s \<in> set rs. clean_seg s" and "\<forall>s \<in> set ts. clean_seg s"
  obtains us where "ts = rs @ us"
  using assms by (auto simp: inside_iff)

subsection \<open>Paths below a normalized one\<close>

lemma normalize_segs_append:
  "normalize_segs a (xs @ ys) = foldl (push_seg a) (normalize_segs a xs) ys"
  by (simp add: normalize_segs_def)

lemma normalize_segs_Nil_seg [simp]: "normalize_segs a ([] # xs) = normalize_segs a xs"
  by (simp add: normalize_segs_def push_seg_def)

lemma push_Nil_seg [simp]: "push_seg a st [] = st"
  by (simp add: push_seg_def)

lemma normalize_split_abs_path [simp, node_path]:
  assumes "\<forall>s \<in> set B. clean_seg s"
  shows "normalize_segs False (split_on slash (abs_path B)) = B"
proof (cases "B = []")
  case True
  then show ?thesis by (simp add: abs_path_def normalize_segs_def)
next
  case False
  then have "split_on slash (abs_path B) = [] # B" using assms by (simp add: split_abs_path)
  then show ?thesis by (simp add: normalize_clean [OF assms])
qed

lemma split_below:
  "split_on slash (p @ slash # r) = split_on slash p @ split_on slash r"
  by (rule split_on_join)

lemma normalize_below:
  assumes "\<forall>s \<in> set B. clean_seg s"
  shows "normalize_segs False (split_on slash (abs_path B @ slash # r)) =
    foldl (push_seg False) B (split_on slash r)"
  by (simp only: split_below normalize_segs_append normalize_split_abs_path [OF assms])

lemma below_is_clean:
  assumes "\<forall>s \<in> set B. clean_seg s"
  shows "\<forall>s \<in> set (foldl (push_seg False) B (split_on slash r)). clean_seg s"
  by (rule foldl_push_keeps_clean [OF assms]) (auto dest: split_on_free)

lemma path_normalize_absolute:
  assumes "path_isAbsolute p"
  shows "path_normalize p =
    (let ss = normalize_segs False (split_on slash p)
     in if ss = [] then [slash] else abs_path ss @ (if last p = slash then [slash] else []))"
proof -
  let ?ss = "normalize_segs False (split_on slash p)"
  have "\<forall>s \<in> set ?ss. s \<noteq> []" using normalized_is_clean [of p] clean_segD(1) by blast
  then have "join_on slash ?ss = [] \<longleftrightarrow> ?ss = []" by (rule join_on_Nil_iff)
  moreover have "p \<noteq> []" using assms by (simp add: path_isAbsolute_def)
  ultimately show ?thesis using assms by (simp add: path_normalize_def abs_path_def Let_def)
qed

lemma path_join_below:
  assumes B: "\<forall>s \<in> set B. clean_seg s" and r: "r \<noteq> []"
  shows "path_join [abs_path B, r] =
    (let ss = foldl (push_seg False) B (split_on slash r)
     in if ss = [] then [slash] else abs_path ss @ (if last r = slash then [slash] else []))"
proof -
  have "abs_path B \<noteq> []" by (simp add: abs_path_def)
  then have "path_join [abs_path B, r] = path_normalize (abs_path B @ slash # r)"
    using r by (simp add: path_join_def)
  moreover have "path_isAbsolute (abs_path B @ slash # r)"
    by (simp add: path_isAbsolute_def abs_path_def)
  moreover have "last (abs_path B @ slash # r) = last r" using r by simp
  ultimately show ?thesis by (simp add: path_normalize_absolute normalize_below [OF B])
qed

lemma path_join_child [node_path]:
  assumes B: "\<forall>s \<in> set B. clean_seg s" and s: "clean_seg s"
  shows "path_join [abs_path B, s] = abs_path (B @ [s])"
proof -
  have "s \<noteq> []" "slash \<notin> set s" using s by (simp_all add: clean_segD)
  moreover from this have "last s \<noteq> slash" by (metis last_in_set)
  ultimately show ?thesis using push_clean [OF s] by (simp add: path_join_below [OF B] split_on_absent)
qed

lemma resolve_trailing:
  assumes ss: "\<forall>s \<in> set ss. clean_seg s"
  shows "path_resolve cwd [abs_path ss @ [slash]] = abs_path ss"
proof -
  have "path_isAbsolute (abs_path ss @ [slash])" by (simp add: path_isAbsolute_def abs_path_def)
  then show ?thesis using normalize_below [OF ss, of "[]"] by (simp add: resolve_absolute)
qed

text \<open>Joined to a directory and resolved, a relative path is walked from that directory.\<close>

lemma resolve_join [node_path]:
  assumes B: "\<forall>s \<in> set B. clean_seg s" and r: "r \<noteq> []"
  shows "path_resolve cwd [path_join [abs_path B, r]] =
    abs_path (foldl (push_seg False) B (split_on slash r))"
proof -
  let ?ss = "foldl (push_seg False) B (split_on slash r)"
  note clean = below_is_clean [OF B, of r]
  have "abs_path [] = [slash]" by (simp add: abs_path_def)
  then have "path_resolve cwd [[slash]] = [slash]" using resolve_abs_path [of "[]" cwd] by simp
  then show ?thesis
    using resolve_trailing [OF clean] resolve_abs_path [OF clean] \<open>abs_path [] = [slash]\<close>
    by (simp add: path_join_below [OF B r] Let_def)
qed

text \<open>The definitions that evaluate the functions on a concrete path.\<close>

lemmas path_eval = path_resolve_def resolve_step_def normalize_segs_def push_seg_def slash_def dot_def
  path_isAbsolute_def path_relative_def abs_segs_def relative_segs_def path_join_def path_normalize_def
  path_dirname_def starts_with_def

lemma ascii_simps: "ascii [] = []" "ascii (c # s) = of_char c # ascii s"
  by (simp_all add: ascii_def)

end
