(* ===== verification/Workspace_Jail.thy ===== *)
theory Workspace_Jail
  imports Node_Paths
begin

text \<open>
  The workspace jail of an agent: \<^verbatim>\<open>host/runner/agent-workspace-jail.ts\<close>, with the reading of
  the settings it depends on (\<^verbatim>\<open>host/agents/settings-file.ts\<close>).

  An agent whose settings name a workspace root has each of its shell commands run by
  \<^verbatim>\<open>sandbox-exec\<close> under a profile that permits writes below that root, some further paths and the
  directory for temporary files. The command is put between single quotes and handed to a shell;
  what a shell makes of quotes is the reader \<open>sh_words\<close>, which takes from the POSIX standard that
  everything between two single quotes is literal and that a backslash outside of quotes makes
  the next character so. It refuses every other character that a shell may give a meaning to.
\<close>

subsection \<open>Settings\<close>

text \<open>A value of the settings file: a string, an array (of strings and other values), or something else.\<close>

datatype setting = Absent | Text_Value ustr | Items "ustr option list" | Other_Value

datatype settings_file =
    Unreadable_File
  | Not_Object
  | Settings_Object (raw_root: setting) (raw_allow: setting)

record agent_settings =
  workspaceRoot :: "ustr option"
  workspaceAllowPaths :: "ustr list"

fun readRawSettings :: "settings_file \<Rightarrow> setting \<times> setting" where
  "readRawSettings (Settings_Object r a) = (r, a)"
| "readRawSettings _ = (Absent, Absent)"

definition blank :: "ustr \<Rightarrow> bool" where
  "blank s \<longleftrightarrow> js_trim s = []"

definition readSandSettingsFile :: "settings_file \<Rightarrow> agent_settings" where
  "readSandSettingsFile f =
     (let (root, allow) = readRawSettings f
      in \<lparr> workspaceRoot =
            (case root of Text_Value s \<Rightarrow> (if blank s then None else Some (js_trim s)) | _ \<Rightarrow> None),
          workspaceAllowPaths =
            (case allow of
               Items vs \<Rightarrow> filter (\<lambda>s. \<not> blank s) (concat (map (\<lambda>v. case v of None \<Rightarrow> [] | Some s \<Rightarrow> [s]) vs))
             | _ \<Rightarrow> []) \<rparr>)"

subsection \<open>The jail of an agent\<close>

definition SAND_WORKSPACE_VIRTUAL_PREFIX :: ustr where
  "SAND_WORKSPACE_VIRTUAL_PREFIX = ascii ''/workspace/''"

definition SANDBOX_EXEC_PATH :: ustr where
  "SANDBOX_EXEC_PATH = ascii ''/usr/bin/sandbox-exec''"

record jail =
  j_agentId :: ustr
  j_virtualRoot :: ustr
  j_hostRoot :: ustr
  j_profilePath :: ustr
  j_allowPaths :: "ustr list"

datatype jail_error = Bad_Root ustr | Bad_Allow_Path ustr

definition ascii_word :: "nat \<Rightarrow> bool" where
  "ascii_word u \<longleftrightarrow> (48 \<le> u \<and> u \<le> 57) \<or> (65 \<le> u \<and> u \<le> 90) \<or> (97 \<le> u \<and> u \<le> 122)"

text \<open>
  \<^verbatim>\<open>[\p{L}\p{N}]\<close> on a code point: letters and digits, beyond ASCII the tables of Unicode.
\<close>

definition letter_or_number :: "(ustr \<Rightarrow> bool) \<Rightarrow> ustr \<Rightarrow> bool" where
  "letter_or_number beyond cp \<longleftrightarrow>
     (case cp of [u] \<Rightarrow> (if u < 128 then ascii_word u else beyond cp) | _ \<Rightarrow> beyond cp)"

definition slug_char :: "(ustr \<Rightarrow> bool) \<Rightarrow> ustr \<Rightarrow> bool" where
  "slug_char beyond cp \<longleftrightarrow> letter_or_number beyond cp \<or> cp \<in> {ascii ''.'', ascii ''_'', ascii ''-''}"

definition slug_pattern :: "(ustr \<Rightarrow> bool) \<Rightarrow> ustr \<Rightarrow> bool" where
  "slug_pattern beyond s \<longleftrightarrow>
     (case code_points s of
        [] \<Rightarrow> False
      | c # cs \<Rightarrow> letter_or_number beyond c \<and> length cs \<le> 78 \<and> list_all (slug_char beyond) cs)"

fun has_sub :: "ustr \<Rightarrow> ustr \<Rightarrow> bool" where
  "has_sub p [] = (p = [])"
| "has_sub p (u # us) = (starts_with p (u # us) \<or> has_sub p us)"

definition assertSlugSafe :: "(ustr \<Rightarrow> bool) \<Rightarrow> ustr \<Rightarrow> ustr \<Rightarrow> jail_error + ustr" where
  "assertSlugSafe beyond slug source =
     (if has_sub up slug \<or> slash \<in> set slug \<or> \<not> slug_pattern beyond slug
      then Inl (Bad_Root source) else Inr slug)"

definition assertAllowPath :: "ustr \<Rightarrow> ustr \<Rightarrow> jail_error + ustr" where
  "assertAllowPath cwd candidate =
     (let resolved = path_resolve cwd [candidate]
      in if \<not> path_isAbsolute candidate \<or> resolved = [slash]
         then Inl (Bad_Allow_Path candidate) else Inr resolved)"

fun map_results :: "('a \<Rightarrow> 'e + 'b) \<Rightarrow> 'a list \<Rightarrow> 'e + 'b list" where
  "map_results f [] = Inr []"
| "map_results f (x # xs) =
     (case f x of
        Inl e \<Rightarrow> Inl e
      | Inr y \<Rightarrow> (case map_results f xs of Inl e \<Rightarrow> Inl e | Inr ys \<Rightarrow> Inr (y # ys)))"

text \<open>\<^verbatim>\<open>/^[\w-]{1,128}$/\<close>\<close>

definition agent_id_pattern :: "ustr \<Rightarrow> bool" where
  "agent_id_pattern s \<longleftrightarrow>
     1 \<le> length s \<and> length s \<le> 128 \<and> list_all (\<lambda>u. ascii_word u \<or> u = 95 \<or> u = 45) s"

text \<open>What the resolution reads of its surroundings.\<close>

record jail_deps =
  d_killed :: bool      \<comment> \<open>\<^verbatim>\<open>SAND_AGENT_WORKSPACE_JAIL\<close> is \<^verbatim>\<open>"0"\<close>\<close>
  d_darwin :: bool
  d_sandboxExec :: bool \<comment> \<open>the binary exists\<close>
  d_cwd :: ustr
  d_settings :: settings_file
  d_boxWorkspaceRoot :: ustr
  d_jailsDir :: ustr

definition jail_slug :: "(ustr \<Rightarrow> bool) \<Rightarrow> ustr \<Rightarrow> ustr \<Rightarrow> ustr \<Rightarrow> jail_error + ustr" where
  "jail_slug beyond cwd boxRoot requested =
     (if starts_with SAND_WORKSPACE_VIRTUAL_PREFIX requested
      then assertSlugSafe beyond (drop (length SAND_WORKSPACE_VIRTUAL_PREFIX) requested) requested
      else if path_isAbsolute requested then
        let rel = path_relative cwd boxRoot (path_resolve cwd [requested])
        in if rel = [] \<or> starts_with up rel \<or> path_isAbsolute rel
           then Inl (Bad_Root requested)
           else assertSlugSafe beyond rel requested
      else Inl (Bad_Root requested))"

definition resolveAgentWorkspaceJail ::
  "(ustr \<Rightarrow> bool) \<Rightarrow> jail_deps \<Rightarrow> ustr \<Rightarrow> jail_error + jail option" where
  "resolveAgentWorkspaceJail beyond deps agentId =
     (if d_killed deps then Inr None
      else if \<not> d_darwin deps \<or> \<not> d_sandboxExec deps then Inr None
      else if \<not> agent_id_pattern agentId then Inr None
      else
        let settings = readSandSettingsFile (d_settings deps)
        in case workspaceRoot settings of
             None \<Rightarrow> Inr None
           | Some requested \<Rightarrow>
               (let boxRoot = path_resolve (d_cwd deps) [d_boxWorkspaceRoot deps]
                in case jail_slug beyond (d_cwd deps) boxRoot requested of
                     Inl e \<Rightarrow> Inl e
                   | Inr slug \<Rightarrow>
                       (case map_results (assertAllowPath (d_cwd deps)) (workspaceAllowPaths settings) of
                          Inl e \<Rightarrow> Inl e
                        | Inr allow \<Rightarrow>
                            Inr (Some \<lparr> j_agentId = agentId,
                                        j_virtualRoot = SAND_WORKSPACE_VIRTUAL_PREFIX @ slug,
                                        j_hostRoot = path_join [boxRoot, slug],
                                        j_profilePath = path_join [d_jailsDir deps, agentId @ ascii ''.sb''],
                                        j_allowPaths = allow \<rparr>))))"

subsection \<open>The profile\<close>

definition subpath_line :: "ustr \<Rightarrow> ustr" where
  "subpath_line p = ascii ''  (subpath '' @ [34] @ p @ [34] @ ascii '')''"

definition private_prefix :: ustr where "private_prefix = ascii ''/private''"

definition root_lines :: "ustr \<Rightarrow> ustr \<Rightarrow> ustr list" where
  "root_lines cwd root =
     (let resolved = path_resolve cwd [root]
      in subpath_line resolved #
         (if starts_with (ascii ''/private/'') resolved then []
          else [subpath_line (private_prefix @ resolved)]))"

definition profile_head :: "jail \<Rightarrow> ustr list" where
  "profile_head cfg =
     [ascii ''(version 1)'',
      ascii ''; dsh agent workspace jail: '' @ j_agentId cfg @ ascii '' -> '' @ j_virtualRoot cfg,
      ascii ''(deny default)'', ascii ''(allow process*)'', ascii ''(allow file-read*)'',
      ascii ''(allow network*)'', ascii ''(allow sysctl-read)'', ascii ''(allow mach-lookup)'',
      ascii ''(allow ipc-posix*)'', ascii ''(allow ipc-posix-shm)'', ascii ''(allow system-socket)'',
      ascii ''(allow file-write*'']"

definition profile_tail :: "ustr list" where
  "profile_tail =
     [ascii ''  (regex #'' @ [34] @ ascii ''^/dev/(null|stdout|stderr|stdin|fd|ttys[0-9]+|dtracehelper|console)$'' @ [34] @ ascii '')'',
      ascii '')'', []]"

definition profile_lines :: "ustr \<Rightarrow> jail \<Rightarrow> ustr \<Rightarrow> ustr list" where
  "profile_lines cwd cfg extraTempDir =
     profile_head cfg @
     concat (map (root_lines cwd) (j_hostRoot cfg # j_allowPaths cfg @ [extraTempDir])) @
     profile_tail"

definition buildWorkspaceSeatbeltProfile :: "ustr \<Rightarrow> jail \<Rightarrow> ustr \<Rightarrow> ustr" where
  "buildWorkspaceSeatbeltProfile cwd cfg extraTempDir =
     join_on newline (profile_lines cwd cfg extraTempDir)"

text \<open>
  Writing the profile: the files are a map, \<open>writes\<close> counts what was written. The temporary file
  is renamed at once.
\<close>

record profile_files =
  p_content :: "ustr \<Rightarrow> ustr option"
  p_writes :: nat

definition ensureWorkspaceSeatbeltProfile ::
  "jail \<Rightarrow> ustr \<Rightarrow> profile_files \<Rightarrow> profile_files \<times> ustr" where
  "ensureWorkspaceSeatbeltProfile cfg profile files =
     ((if p_content files (j_profilePath cfg) = Some profile then files
       else \<lparr> p_content = (p_content files)(j_profilePath cfg \<mapsto> profile),
              p_writes = Suc (p_writes files) \<rparr>),
      j_profilePath cfg)"

subsection \<open>The jailed command\<close>

definition quote :: nat where "quote = 39"
definition backslash :: nat where "backslash = 92"

definition shellSingleQuote :: "ustr \<Rightarrow> ustr" where
  "shellSingleQuote s =
     quote # concat (map (\<lambda>u. if u = quote then [quote, backslash, quote, quote] else [u]) s) @ [quote]"

record shell_args =
  sa_command :: ustr
  sa_workingDirectory :: ustr

definition wrapped_command :: "ustr \<Rightarrow> ustr \<Rightarrow> ustr" where
  "wrapped_command profilePath command =
     SANDBOX_EXEC_PATH @ ascii '' -f '' @ shellSingleQuote profilePath @
     ascii '' /bin/sh -c '' @ shellSingleQuote command"

definition applyWorkspaceJailToShellArgs ::
  "ustr \<Rightarrow> ustr \<Rightarrow> shell_args \<Rightarrow> jail \<Rightarrow> profile_files \<Rightarrow> profile_files \<times> shell_args" where
  "applyWorkspaceJailToShellArgs cwd tmp args cfg files =
     (let (files', profilePath) =
            ensureWorkspaceSeatbeltProfile cfg (buildWorkspaceSeatbeltProfile cwd cfg tmp) files
      in (files', args\<lparr>sa_command := wrapped_command profilePath (sa_command args),
                       sa_workingDirectory := j_virtualRoot cfg\<rparr>))"

text \<open>\<^verbatim>\<open>jailShellArgs\<close> of \<^verbatim>\<open>remote-box-resources.ts\<close>: every shell of the agent goes through here.\<close>

definition jailShellArgs ::
  "ustr \<Rightarrow> ustr \<Rightarrow> jail option \<Rightarrow> shell_args \<Rightarrow> profile_files \<Rightarrow> profile_files \<times> shell_args" where
  "jailShellArgs cwd tmp workspaceJail args files =
     (case workspaceJail of
        None \<Rightarrow> (files, args)
      | Some cfg \<Rightarrow> applyWorkspaceJailToShellArgs cwd tmp args cfg files)"

subsection \<open>What a shell reads\<close>

datatype sh_mode = Blank | Word ustr | Quoted ustr

definition sh_plain :: "nat \<Rightarrow> bool" where
  "sh_plain u \<longleftrightarrow> ascii_word u \<or> u \<in> {45, 46, 47, 95}"

fun sh_words :: "sh_mode \<Rightarrow> ustr \<Rightarrow> ustr list option" where
  "sh_words Blank [] = Some []"
| "sh_words (Word w) [] = Some [w]"
| "sh_words (Quoted w) [] = None"
| "sh_words (Quoted w) (u # us) =
     (if u = quote then sh_words (Word w) us else sh_words (Quoted (w @ [u])) us)"
| "sh_words Blank (u # us) =
     (if u = 32 then sh_words Blank us
      else if u = quote then sh_words (Quoted []) us
      else if u = backslash then
        (case us of [] \<Rightarrow> None | v # vs \<Rightarrow> if v = newline then None else sh_words (Word [v]) vs)
      else if sh_plain u then sh_words (Word [u]) us
      else None)"
| "sh_words (Word w) (u # us) =
     (if u = 32 then map_option (\<lambda>ws. w # ws) (sh_words Blank us)
      else if u = quote then sh_words (Quoted w) us
      else if u = backslash then
        (case us of [] \<Rightarrow> None | v # vs \<Rightarrow> if v = newline then None else sh_words (Word (w @ [v])) vs)
      else if sh_plain u then sh_words (Word (w @ [u])) us
      else None)"

subsection \<open>Quoting\<close>

lemma sh_escaped:
  "sh_words (Quoted w)
     (concat (map (\<lambda>u. if u = quote then [quote, backslash, quote, quote] else [u]) s) @ quote # rest) =
   sh_words (Word (w @ s)) rest"
proof (induction s arbitrary: w)
  case (Cons u s)
  have "quote \<noteq> 32" "backslash \<noteq> 32" "backslash \<noteq> quote" "quote \<noteq> newline" "newline \<noteq> quote"
    by (simp_all add: quote_def backslash_def newline_def)
  then show ?case using Cons.IH [of "w @ [u]"] by (cases "u = quote") simp_all
qed simp

lemma sh_quoted: "sh_words Blank (shellSingleQuote s @ rest) = sh_words (Word s) rest"
proof -
  have "quote \<noteq> 32" by (simp add: quote_def)
  then show ?thesis using sh_escaped [of "[]" s rest] by (simp add: shellSingleQuote_def)
qed

lemma sh_plain_not_special: "sh_plain u \<Longrightarrow> u \<noteq> 32 \<and> u \<noteq> quote \<and> u \<noteq> backslash"
  by (auto simp: sh_plain_def ascii_word_def quote_def backslash_def)

lemma sh_plain_word: "list_all sh_plain p \<Longrightarrow> sh_words (Word w) (p @ rest) = sh_words (Word (w @ p)) rest"
  by (induction p arbitrary: w) (auto dest: sh_plain_not_special)

lemma sh_plain_start:
  assumes "list_all sh_plain p" and "p \<noteq> []"
  shows "sh_words Blank (p @ 32 # rest) = map_option (\<lambda>ws. p # ws) (sh_words Blank rest)"
proof -
  obtain u us where p: "p = u # us" using assms(2) by (cases p) auto
  then have "sh_words Blank (p @ 32 # rest) = sh_words (Word [u]) (us @ 32 # rest)"
    using assms(1) sh_plain_not_special [of u] by simp
  then show ?thesis using assms(1) p by (simp add: sh_plain_word)
qed

lemma sh_quoted_then: "sh_words Blank (shellSingleQuote s @ 32 # rest) = map_option (\<lambda>ws. s # ws) (sh_words Blank rest)"
  by (simp add: sh_quoted)

definition jail_words :: "ustr \<Rightarrow> ustr \<Rightarrow> ustr list" where
  "jail_words profilePath command =
     [SANDBOX_EXEC_PATH, ascii ''-f'', profilePath, ascii ''/bin/sh'', ascii ''-c'', command]"

lemma command_stays_in_its_quotes:
  "sh_words Blank (wrapped_command profilePath command) = Some (jail_words profilePath command)"
proof -
  define f b c where "f = ascii ''-f''" and "b = ascii ''/bin/sh''" and "c = ascii ''-c''"
  note defs = f_def b_def c_def SANDBOX_EXEC_PATH_def
  have plain: "list_all sh_plain SANDBOX_EXEC_PATH" "list_all sh_plain f" "list_all sh_plain b"
      "list_all sh_plain c"
    and nonempty: "SANDBOX_EXEC_PATH \<noteq> []" "f \<noteq> []" "b \<noteq> []" "c \<noteq> []"
    by (simp_all add: defs ascii_simps sh_plain_def ascii_word_def)
  have last: "sh_words Blank (shellSingleQuote command) = Some [command]"
    using sh_quoted [of command "[]"] by simp
  have "wrapped_command profilePath command =
      SANDBOX_EXEC_PATH @ 32 # f @ 32 # shellSingleQuote profilePath @
      32 # b @ 32 # c @ 32 # shellSingleQuote command"
    by (simp add: wrapped_command_def f_def b_def c_def ascii_simps)
  then show ?thesis
    by (simp add: sh_plain_start plain nonempty sh_quoted_then last jail_words_def f_def [symmetric]
        b_def [symmetric] c_def [symmetric])
qed

text \<open>
  Property C6. Every shell of a jailed agent is handed out as six words, whatever quotes its
  command has: the sandbox with its profile, and a shell that gets the command whole and
  unchanged; the file of the profile then holds the profile of this jail, and the shell starts in
  the agent's workspace.
\<close>

theorem jailed_shell_is_read_back:
  "\<exists>files' args'. jailShellArgs cwd tmp (Some cfg) args files = (files', args') \<and>
     sh_words Blank (sa_command args') = Some (jail_words (j_profilePath cfg) (sa_command args)) \<and>
     p_content files' (j_profilePath cfg) = Some (buildWorkspaceSeatbeltProfile cwd cfg tmp) \<and>
     sa_workingDirectory args' = j_virtualRoot cfg"
  by (simp add: jailShellArgs_def applyWorkspaceJailToShellArgs_def ensureWorkspaceSeatbeltProfile_def
      command_stays_in_its_quotes)

text \<open>A second shell finds the profile there and writes nothing.\<close>

lemma ensure_again:
  assumes "ensureWorkspaceSeatbeltProfile cfg p files = (files', path)"
  shows "ensureWorkspaceSeatbeltProfile cfg p files' = (files', path)"
  using assms by (auto simp: ensureWorkspaceSeatbeltProfile_def split: if_splits)

subsection \<open>What the jail of an agent is\<close>

lemma starts_with_has_sub: "s \<noteq> [] \<Longrightarrow> starts_with p s \<Longrightarrow> has_sub p s"
  by (cases s) simp_all

lemma slug_first:
  assumes "slug_pattern beyond s"
  shows "s \<noteq> []" and "s \<noteq> here"
proof -
  show "s \<noteq> []" using assms by (auto simp: slug_pattern_def)
  have "\<not> slug_pattern beyond here"
    by (simp add: slug_pattern_def letter_or_number_def ascii_word_def dot_def)
  then show "s \<noteq> here" using assms by blast
qed

lemma safe_slug:
  assumes "assertSlugSafe beyond slug source = Inr s"
  shows "s = slug" and "clean_seg slug" and "\<not> starts_with up slug"
proof -
  from assms have s: "s = slug" "\<not> has_sub up slug" "slash \<notin> set slug" "slug_pattern beyond slug"
    by (simp_all add: assertSlugSafe_def split: if_splits)
  then show "s = slug" by simp
  from s(4) have ne: "slug \<noteq> []" "slug \<noteq> here" by (rule slug_first)+
  then show "\<not> starts_with up slug" using s(2) starts_with_has_sub by blast
  have "starts_with up up" by (simp add: starts_with_def)
  then have "slug \<noteq> up" using \<open>\<not> starts_with up slug\<close> by blast
  with ne s(3) show "clean_seg slug" by (simp add: clean_seg_def)
qed

lemma jail_slug_safe:
  assumes "jail_slug beyond cwd boxRoot requested = Inr slug"
  shows "clean_seg slug \<and> \<not> starts_with up slug"
  using assms safe_slug unfolding jail_slug_def Let_def by (metis Inl_Inr_False)

lemma allow_path_resolved:
  assumes "assertAllowPath cwd p = Inr q"
  shows "\<exists>ss. ss \<noteq> [] \<and> (\<forall>s \<in> set ss. clean_seg s) \<and> q = abs_path ss"
proof -
  from assms have q: "q = path_resolve cwd [p]" and ne: "q \<noteq> [slash]"
    by (auto simp: assertAllowPath_def Let_def split: if_splits)
  define ss where "ss = normalize_segs False (split_on slash (foldl resolve_step cwd [p]))"
  have "q = abs_path ss" unfolding q ss_def by (rule resolve_is_abs_path)
  moreover have "\<forall>s \<in> set ss. clean_seg s" unfolding ss_def by (rule normalized_is_clean)
  moreover have "ss \<noteq> []" using ne \<open>q = abs_path ss\<close> by (auto simp: abs_path_def)
  ultimately show ?thesis by blast
qed

lemma map_results_Inr:
  "map_results f xs = Inr ys \<Longrightarrow> y \<in> set ys \<Longrightarrow> \<exists>x \<in> set xs. f x = Inr y"
  by (induction xs arbitrary: ys) (auto split: sum.splits)

lemma jail_directory:
  assumes "resolveAgentWorkspaceJail beyond deps agentId = Inr (Some cfg)"
  shows "\<exists>slug. clean_seg slug \<and> \<not> starts_with up slug \<and>
     j_virtualRoot cfg = SAND_WORKSPACE_VIRTUAL_PREFIX @ slug \<and>
     j_hostRoot cfg = abs_path (abs_segs (path_resolve (d_cwd deps) [d_boxWorkspaceRoot deps]) @ [slug]) \<and>
     (\<forall>p \<in> set (j_allowPaths cfg). \<exists>ss. ss \<noteq> [] \<and> (\<forall>s \<in> set ss. clean_seg s) \<and> p = abs_path ss)"
proof -
  let ?root = "path_resolve (d_cwd deps) [d_boxWorkspaceRoot deps]"
  define B where "B = normalize_segs False (split_on slash (foldl resolve_step (d_cwd deps) [d_boxWorkspaceRoot deps]))"
  have root: "?root = abs_path B" unfolding B_def by (rule resolve_is_abs_path)
  have B: "\<forall>s \<in> set B. clean_seg s" unfolding B_def by (rule normalized_is_clean)
  from assms obtain requested slug allow where
      slug: "jail_slug beyond (d_cwd deps) ?root requested = Inr slug"
    and allow: "map_results (assertAllowPath (d_cwd deps))
        (workspaceAllowPaths (readSandSettingsFile (d_settings deps))) = Inr allow"
    and cfg: "j_virtualRoot cfg = SAND_WORKSPACE_VIRTUAL_PREFIX @ slug"
      "j_hostRoot cfg = path_join [?root, slug]" "j_allowPaths cfg = allow"
    unfolding resolveAgentWorkspaceJail_def Let_def
    by (auto split: if_splits option.splits sum.splits)
  from slug have safe: "clean_seg slug" "\<not> starts_with up slug" using jail_slug_safe by blast+
  have "j_hostRoot cfg = abs_path (abs_segs ?root @ [slug])"
    using cfg(2) path_join_child [OF B safe(1)] abs_segs_abs_path [OF B] by (simp add: root)
  moreover have "\<forall>p \<in> set (j_allowPaths cfg). \<exists>ss. ss \<noteq> [] \<and> (\<forall>s \<in> set ss. clean_seg s) \<and> p = abs_path ss"
    using map_results_Inr [OF allow] allow_path_resolved cfg(3) by blast
  ultimately show ?thesis using safe cfg(1) by blast
qed

text \<open>
  Property C29. Whatever the settings ask for, the directory of a jail lies directly below the
  workspace of the box: never the workspace itself, never beside or above it, and its name is one
  path segment that does not begin with two dots. The virtual root names the same directory, and
  a further writable path is absolute, normalized and not the root of the file system.
\<close>

theorem jail_is_one_directory_below:
  assumes "resolveAgentWorkspaceJail beyond deps agentId = Inr (Some cfg)"
  shows "\<exists>slug. clean_seg slug \<and> \<not> starts_with up slug \<and>
     j_virtualRoot cfg = SAND_WORKSPACE_VIRTUAL_PREFIX @ slug \<and>
     j_hostRoot cfg = abs_path (abs_segs (path_resolve (d_cwd deps) [d_boxWorkspaceRoot deps]) @ [slug]) \<and>
     (\<forall>p \<in> set (j_allowPaths cfg). \<exists>ss. ss \<noteq> [] \<and> (\<forall>s \<in> set ss. clean_seg s) \<and> p = abs_path ss)"
  by (rule jail_directory [OF assms])

lemmas jail_eval = path_eval ascii_simps resolveAgentWorkspaceJail_def agent_id_pattern_def ascii_word_def
  readSandSettingsFile_def blank_def js_trim_def js_space_def jail_slug_def assertSlugSafe_def
  assertAllowPath_def slug_pattern_def letter_or_number_def slug_char_def
  SAND_WORKSPACE_VIRTUAL_PREFIX_def is_high_def is_low_def

definition example_deps :: jail_deps where
  "example_deps =
     \<lparr> d_killed = False, d_darwin = True, d_sandboxExec = True, d_cwd = ascii ''/s'',
       d_settings = Settings_Object (Text_Value (ascii '' /s/w/cut'')) (Items [Some (ascii ''/o/b/''), None]),
       d_boxWorkspaceRoot = ascii ''w'', d_jailsDir = ascii ''/j'' \<rparr>"

lemma example_steps:
  "readSandSettingsFile (d_settings example_deps) =
     \<lparr> workspaceRoot = Some (ascii ''/s/w/cut''), workspaceAllowPaths = [ascii ''/o/b/''] \<rparr>"
  "path_resolve (ascii ''/s'') [ascii ''w''] = ascii ''/s/w''"
  "path_relative (ascii ''/s'') (ascii ''/s/w'') (path_resolve (ascii ''/s'') [ascii ''/s/w/cut'']) = ascii ''cut''"
  "assertSlugSafe (\<lambda>_. False) (ascii ''cut'') (ascii ''/s/w/cut'') = Inr (ascii ''cut'')"
  "assertAllowPath (ascii ''/s'') (ascii ''/o/b/'') = Inr (ascii ''/o/b'')"
  "path_join [ascii ''/s/w'', ascii ''cut''] = ascii ''/s/w/cut''"
  "path_join [ascii ''/j'', ascii ''a-1'' @ ascii ''.sb''] = ascii ''/j/a-1.sb''"
  by (simp_all add: jail_eval example_deps_def)

lemma example_jail:
  "resolveAgentWorkspaceJail (\<lambda>_. False) example_deps (ascii ''a-1'') =
   Inr (Some \<lparr> j_agentId = ascii ''a-1'', j_virtualRoot = ascii ''/workspace/cut'',
               j_hostRoot = ascii ''/s/w/cut'', j_profilePath = ascii ''/j/a-1.sb'',
               j_allowPaths = [ascii ''/o/b''] \<rparr>)"
proof -
  have deps: "\<not> d_killed example_deps" "d_darwin example_deps" "d_sandboxExec example_deps"
      "d_cwd example_deps = ascii ''/s''" "d_boxWorkspaceRoot example_deps = ascii ''w''"
      "d_jailsDir example_deps = ascii ''/j''"
    by (simp_all add: example_deps_def)
  have slug: "jail_slug (\<lambda>_. False) (ascii ''/s'') (ascii ''/s/w'') (ascii ''/s/w/cut'') = Inr (ascii ''cut'')"
  proof -
    have "\<not> starts_with SAND_WORKSPACE_VIRTUAL_PREFIX (ascii ''/s/w/cut'')" "path_isAbsolute (ascii ''/s/w/cut'')"
        "ascii ''cut'' \<noteq> []" "\<not> starts_with up (ascii ''cut'')" "\<not> path_isAbsolute (ascii ''cut'')"
      by (simp_all add: jail_eval)
    then show ?thesis by (simp add: jail_slug_def example_steps(3,4))
  qed
  have "agent_id_pattern (ascii ''a-1'')" by (simp add: jail_eval)
  moreover have "SAND_WORKSPACE_VIRTUAL_PREFIX @ ascii ''cut'' = ascii ''/workspace/cut''"
    by (simp add: SAND_WORKSPACE_VIRTUAL_PREFIX_def ascii_simps)
  ultimately show ?thesis
    by (simp add: resolveAgentWorkspaceJail_def deps slug example_steps)
qed

theorem jail_is_one_directory_below_witness:
  "\<exists>slug. clean_seg slug \<and> \<not> starts_with up slug \<and>
     ascii ''/workspace/cut'' = SAND_WORKSPACE_VIRTUAL_PREFIX @ slug \<and>
     ascii ''/s/w/cut'' =
       abs_path (abs_segs (path_resolve (d_cwd example_deps) [d_boxWorkspaceRoot example_deps]) @ [slug])"
  using jail_is_one_directory_below [OF example_jail] by auto


text \<open>
  Fact. Settings that are there but malformed do not stop the agent: when the file cannot be
  read or parsed, or its workspace root is not a string, the agent runs without a jail and its
  commands are handed out as they are.
\<close>

theorem malformed_settings_are_not_jailed:
  "\<forall>f \<in> {Unreadable_File, Not_Object, Settings_Object Other_Value allow, Settings_Object (Items vs) allow}.
     \<forall>files args. map_sum id (\<lambda>jail. jailShellArgs cwd tmp jail args files)
       (resolveAgentWorkspaceJail beyond (deps\<lparr>d_settings := f\<rparr>) agentId) = Inr (files, args)"
  by (simp add: resolveAgentWorkspaceJail_def readSandSettingsFile_def jailShellArgs_def)

theorem malformed_settings_are_not_jailed_witness:
  "map_sum id (\<lambda>jail. jailShellArgs (ascii ''/srv'') (ascii ''/tmp'') jail
       \<lparr> sa_command = [108], sa_workingDirectory = [] \<rparr> \<lparr> p_content = \<lambda>_. None, p_writes = 0 \<rparr>)
     (resolveAgentWorkspaceJail (\<lambda>_. False) (example_deps\<lparr>d_settings := Settings_Object Other_Value Absent\<rparr>) (ascii ''a-1'')) =
   Inr (\<lparr> p_content = \<lambda>_. None, p_writes = 0 \<rparr>, \<lparr> sa_command = [108], sa_workingDirectory = [] \<rparr>)"
  using malformed_settings_are_not_jailed
    [of Absent "[]" "ascii ''/srv''" "ascii ''/tmp''" "\<lambda>_. False" example_deps "ascii ''a-1''"] by blast

subsection \<open>What the profile permits\<close>

lemma subpath_line_inject: "subpath_line p = subpath_line q \<longleftrightarrow> p = q"
  by (simp add: subpath_line_def)

lemma subpath_line_other:
  "subpath_line p \<notin> set (profile_head cfg)" "subpath_line p \<notin> set profile_tail"
  by (simp_all add: subpath_line_def profile_head_def profile_tail_def ascii_simps)

definition writable_form :: "ustr \<Rightarrow> ustr \<Rightarrow> ustr \<Rightarrow> bool" where
  "writable_form cwd root p \<longleftrightarrow>
     p = path_resolve cwd [root] \<or>
     (p = private_prefix @ path_resolve cwd [root] \<and>
      \<not> starts_with (ascii ''/private/'') (path_resolve cwd [root]))"

lemma root_lines_iff: "subpath_line p \<in> set (root_lines cwd root) \<longleftrightarrow> writable_form cwd root p"
  by (auto simp: root_lines_def writable_form_def subpath_line_inject Let_def)

lemma profile_lines_iff:
  "subpath_line p \<in> set (profile_lines cwd cfg tmp) \<longleftrightarrow>
   (\<exists>root \<in> {j_hostRoot cfg, tmp} \<union> set (j_allowPaths cfg). writable_form cwd root p)"
  by (auto simp: profile_lines_def subpath_line_other root_lines_iff)


text \<open>The clause that permits writes begins with the lines of the agent's own directory.\<close>

lemma profile_begins_with_the_root:
  "\<exists>pre post. buildWorkspaceSeatbeltProfile cwd cfg tmp =
     pre @ newline # ascii ''(allow file-write*'' @ newline #
     join_on newline (root_lines cwd (j_hostRoot cfg)) @ newline # post"
proof -
  have head: "profile_head cfg = butlast (profile_head cfg) @ [ascii ''(allow file-write*'']"
    "butlast (profile_head cfg) \<noteq> []"
    by (simp_all add: profile_head_def)
  define rest where "rest = concat (map (root_lines cwd) (j_allowPaths cfg @ [tmp])) @ profile_tail"
  have nonempty: "rest \<noteq> []" "root_lines cwd (j_hostRoot cfg) \<noteq> []"
    by (simp_all add: rest_def profile_tail_def root_lines_def Let_def)
  have "profile_lines cwd cfg tmp =
      butlast (profile_head cfg) @ [ascii ''(allow file-write*''] @ root_lines cwd (j_hostRoot cfg) @ rest"
    by (subst profile_lines_def, subst head(1)) (simp add: rest_def)
  then have "buildWorkspaceSeatbeltProfile cwd cfg tmp =
      join_on newline (butlast (profile_head cfg)) @ newline # ascii ''(allow file-write*'' @ newline #
      join_on newline (root_lines cwd (j_hostRoot cfg)) @ newline # join_on newline rest"
    using head(2) nonempty by (simp add: buildWorkspaceSeatbeltProfile_def join_on_append join_on_Cons)
  then show ?thesis by blast
qed

lemma quote_text_lines:
  assumes "newline \<notin> set p"
  shows "newline \<notin> set (subpath_line p)"
  using assms by (simp add: subpath_line_def ascii_simps newline_def)

lemma root_lines_whole:
  assumes "newline \<notin> set (path_resolve cwd [root])" and "l \<in> set (root_lines cwd root)"
  shows "newline \<notin> set l"
proof -
  have "newline \<notin> set (private_prefix @ path_resolve cwd [root])"
    using assms(1) by (simp add: private_prefix_def ascii_simps newline_def)
  moreover have "l = subpath_line (path_resolve cwd [root]) \<or>
      l = subpath_line (private_prefix @ path_resolve cwd [root])"
    using assms(2) unfolding root_lines_def Let_def by (auto split: if_splits)
  ultimately show ?thesis using assms(1) quote_text_lines by metis
qed

lemma profile_frame_whole:
  assumes "newline \<notin> set (j_agentId cfg)" and "newline \<notin> set (j_virtualRoot cfg)"
  shows "\<forall>l \<in> set (profile_head cfg) \<union> set profile_tail. newline \<notin> set l"
  using assms by (simp add: profile_head_def profile_tail_def ascii_simps newline_def)

text \<open>
  Fact. The lines of the profile that permit writes below a directory are those of the
  workspace of the agent, of its further paths and of the temporary directory, each as resolved
  and once more below \<^verbatim>\<open>/private\<close>; there is no other. The names must have no line breaks.
\<close>

theorem profile_permits_exactly:
  assumes "newline \<notin> set (j_agentId cfg)" and "newline \<notin> set (j_virtualRoot cfg)"
    and "\<forall>root \<in> {j_hostRoot cfg, tmp} \<union> set (j_allowPaths cfg). newline \<notin> set (path_resolve cwd [root])"
  shows "subpath_line p \<in> set (split_on newline (buildWorkspaceSeatbeltProfile cwd cfg tmp)) \<longleftrightarrow>
     (\<exists>root \<in> {j_hostRoot cfg, tmp} \<union> set (j_allowPaths cfg).
        p = path_resolve cwd [root] \<or>
        (p = private_prefix @ path_resolve cwd [root] \<and>
         \<not> starts_with (ascii ''/private/'') (path_resolve cwd [root])))"
proof -
  have "\<forall>l \<in> set (profile_lines cwd cfg tmp). newline \<notin> set l"
  proof
    fix l assume "l \<in> set (profile_lines cwd cfg tmp)"
    then consider "l \<in> set (profile_head cfg) \<union> set profile_tail"
      | root where "root \<in> {j_hostRoot cfg, tmp} \<union> set (j_allowPaths cfg)" "l \<in> set (root_lines cwd root)"
      unfolding profile_lines_def by auto
    then show "newline \<notin> set l"
      using profile_frame_whole [OF assms(1,2)] root_lines_whole assms(3) by cases blast+
  qed
  moreover have "profile_lines cwd cfg tmp \<noteq> []" by (simp add: profile_lines_def profile_tail_def)
  ultimately have "split_on newline (buildWorkspaceSeatbeltProfile cwd cfg tmp) = profile_lines cwd cfg tmp"
    unfolding buildWorkspaceSeatbeltProfile_def by (rule split_join [rotated])
  then show ?thesis by (simp only: profile_lines_iff writable_form_def)
qed

definition example_profile_jail :: jail where
  "example_profile_jail = \<lparr> j_agentId = [97], j_virtualRoot = [98], j_hostRoot = [47, 99],
     j_profilePath = [47, 100], j_allowPaths = [] \<rparr>"

theorem profile_permits_exactly_witness:
  "subpath_line [47, 99] \<in> set (split_on newline (buildWorkspaceSeatbeltProfile [47] example_profile_jail [47, 116])) \<and>
   subpath_line [47, 100] \<notin> set (split_on newline (buildWorkspaceSeatbeltProfile [47] example_profile_jail [47, 116]))"
proof -
  have r: "path_resolve [47] [[47, 99]] = [47, 99]" "path_resolve [47] [[47, 116]] = [47, 116]"
    by (simp_all add: path_eval)
  have c: "j_agentId example_profile_jail = [97]" "j_virtualRoot example_profile_jail = [98]"
      "j_hostRoot example_profile_jail = [47, 99]" "j_allowPaths example_profile_jail = []"
    by (simp_all add: example_profile_jail_def)
  have h: "newline \<notin> set (j_agentId example_profile_jail)" "newline \<notin> set (j_virtualRoot example_profile_jail)"
      "\<forall>root \<in> {j_hostRoot example_profile_jail, [47, 116]} \<union> set (j_allowPaths example_profile_jail).
         newline \<notin> set (path_resolve [47] [root])"
    by (simp_all add: c r newline_def)
  show ?thesis
    unfolding profile_permits_exactly [OF h] by (simp add: c r private_prefix_def ascii_simps)
qed

text \<open>
  Fact. A double quote in a further path is not escaped: the accepted path
  \<^verbatim>\<open>/a") (subpath "/b\<close> puts the permission for another directory into the profile.
\<close>

theorem quoted_allow_path_opens_another:
  "assertAllowPath (ascii ''/s'') (ascii ''/a'' @ [34] @ ascii '') (subpath '' @ [34] @ ascii ''/b'') =
     Inr (ascii ''/a'' @ [34] @ ascii '') (subpath '' @ [34] @ ascii ''/b'') \<and>
   has_sub (ascii ''(subpath '' @ [34] @ ascii ''/b'' @ [34] @ ascii '')'')
     (subpath_line (ascii ''/a'' @ [34] @ ascii '') (subpath '' @ [34] @ ascii ''/b''))"
  by (simp add: assertAllowPath_def subpath_line_def path_eval ascii_simps)

end
