(* ===== verification/Posix_Files.thy ===== *)
theory Posix_Files
  imports Node_Paths
begin

text \<open>
  The file system below the guards of the host, as much of it as \<^verbatim>\<open>node:fs\<close> shows: directories,
  regular files with their bytes, symbolic links with their text, and everything else (sockets,
  devices). A file system maps physical places, lists of names from the root, to nodes. A path is
  resolved name by name, as POSIX says: two dots go up from where the walk is, a link is replaced
  by its text, forty links are too many. A walk ends at a place that is there, or at one that is
  missing while its directory is there.

  The calls that the host makes are total functions on such a map; error codes are values.
\<close>

datatype node = Directory | Regular "nat list" | Link ustr | Special

type_synonym files = "ustr list \<Rightarrow> node option"

definition look :: "files \<Rightarrow> ustr list \<Rightarrow> node option" where
  "look fs p = (if p = [] then Some Directory else fs p)"

datatype place = Found "ustr list" | Missing "ustr list"

definition SYMLOOP_MAX :: nat where "SYMLOOP_MAX = 40"

function walk :: "files \<Rightarrow> bool \<Rightarrow> nat \<Rightarrow> ustr list \<Rightarrow> ustr list \<Rightarrow> string + place" where
  "walk fs follow n d [] = Inr (Found d)"
| "walk fs follow n d (s # ss) =
     (if s = [] \<or> s = here then walk fs follow n d ss
      else if s = up then walk fs follow n (butlast d) ss
      else
        case look fs (d @ [s]) of
          None \<Rightarrow> if ss = [] then Inr (Missing (d @ [s])) else Inl ''ENOENT''
        | Some Directory \<Rightarrow> walk fs follow n (d @ [s]) ss
        | Some (Link t) \<Rightarrow>
            if ss = [] \<and> \<not> follow then Inr (Found (d @ [s]))
            else (case n of
                    0 \<Rightarrow> Inl ''ELOOP''
                  | Suc m \<Rightarrow> walk fs follow m (if path_isAbsolute t then [] else d) (split_on slash t @ ss))
        | Some _ \<Rightarrow> if ss = [] then Inr (Found (d @ [s])) else Inl ''ENOTDIR'')"
  by pat_completeness auto
termination
  by (relation "measures [\<lambda>(fs, follow, n, d, ss). n, \<lambda>(fs, follow, n, d, ss). length ss]") auto

text \<open>Every path given to these calls is absolute.\<close>

definition locate :: "files \<Rightarrow> bool \<Rightarrow> ustr \<Rightarrow> string + place" where
  "locate fs follow p = walk fs follow SYMLOOP_MAX [] (split_on slash p)"

definition node_at :: "files \<Rightarrow> string + place \<Rightarrow> string + node" where
  "node_at fs r =
     (case r of
        Inl e \<Rightarrow> Inl e
      | Inr (Missing q) \<Rightarrow> Inl ''ENOENT''
      | Inr (Found q) \<Rightarrow> (case look fs q of None \<Rightarrow> Inl ''ENOENT'' | Some v \<Rightarrow> Inr v))"

definition fs_lstat :: "files \<Rightarrow> ustr \<Rightarrow> string + node" where
  "fs_lstat fs p = node_at fs (locate fs False p)"

definition fs_stat :: "files \<Rightarrow> ustr \<Rightarrow> string + node" where
  "fs_stat fs p = node_at fs (locate fs True p)"

definition fs_realpath :: "files \<Rightarrow> ustr \<Rightarrow> string + ustr" where
  "fs_realpath fs p =
     (case locate fs True p of
        Inl e \<Rightarrow> Inl e
      | Inr (Missing q) \<Rightarrow> Inl ''ENOENT''
      | Inr (Found q) \<Rightarrow> Inr (abs_path q))"

definition fs_readFile :: "files \<Rightarrow> ustr \<Rightarrow> string + nat list" where
  "fs_readFile fs p =
     (case fs_stat fs p of
        Inl e \<Rightarrow> Inl e
      | Inr (Regular data) \<Rightarrow> Inr data
      | Inr Directory \<Rightarrow> Inl ''EISDIR''
      | Inr _ \<Rightarrow> Inl ''EIO'')"

text \<open>
  \<^verbatim>\<open>mkdir(p, { recursive: true })\<close>: every directory on the way that is missing is made, where the
  walk leads; what was made stays when a later one fails.
\<close>

definition mkdir_one :: "files \<Rightarrow> ustr list \<Rightarrow> string + files" where
  "mkdir_one fs p =
     (case walk fs False SYMLOOP_MAX [] p of
        Inl e \<Rightarrow> Inl e
      | Inr (Missing q) \<Rightarrow> Inr (fs(q \<mapsto> Directory))
      | Inr (Found q) \<Rightarrow>
          (case walk fs True SYMLOOP_MAX [] p of
             Inl e \<Rightarrow> Inl e
           | Inr (Missing q') \<Rightarrow> Inl ''ENOENT''
           | Inr (Found q') \<Rightarrow> if look fs q' = Some Directory then Inr fs else Inl ''EEXIST''))"

fun mkdirs :: "files \<Rightarrow> ustr list \<Rightarrow> ustr list \<Rightarrow> string option \<times> files" where
  "mkdirs fs d [] = (None, fs)"
| "mkdirs fs d (s # ss) =
     (case mkdir_one fs (d @ [s]) of
        Inl e \<Rightarrow> (Some e, fs)
      | Inr fs' \<Rightarrow> mkdirs fs' (d @ [s]) ss)"

definition fs_mkdir_recursive :: "files \<Rightarrow> ustr \<Rightarrow> string option \<times> files" where
  "fs_mkdir_recursive fs p = mkdirs fs [] (abs_segs p)"

text \<open>
  \<^verbatim>\<open>writeFile\<close> opens the place the path leads to, emptying or making it, and writes. A write that
  fails half way (\<open>short\<close>: the error and how much was written) leaves what it wrote.
\<close>

definition fs_writeFile ::
  "(string \<times> nat) option \<Rightarrow> files \<Rightarrow> ustr \<Rightarrow> nat list \<Rightarrow> string option \<times> files" where
  "fs_writeFile short fs p data =
     (let put = (\<lambda>q. case short of
                       None \<Rightarrow> (None, fs(q \<mapsto> Regular data))
                     | Some (e, k) \<Rightarrow> (Some e, fs(q \<mapsto> Regular (take k data))))
      in case locate fs True p of
           Inl e \<Rightarrow> (Some e, fs)
         | Inr (Missing q) \<Rightarrow> put q
         | Inr (Found q) \<Rightarrow>
             (case look fs q of
                Some Directory \<Rightarrow> (Some ''EISDIR'', fs)
              | Some (Regular old) \<Rightarrow> put q
              | _ \<Rightarrow> (map_option fst short, fs)))"

subsection \<open>Where a walk ends\<close>

definition solid :: "files \<Rightarrow> ustr list \<Rightarrow> bool" where
  "solid fs d \<longleftrightarrow> (\<forall>k \<le> length d. look fs (take k d) = Some Directory)"

lemma solid_Nil [simp]: "solid fs []"
  by (simp add: solid_def look_def)

lemma solid_butlast: "solid fs d \<Longrightarrow> solid fs (butlast d)"
  unfolding solid_def by (auto simp: butlast_conv_take min_def)

lemma solid_snoc: "solid fs d \<Longrightarrow> look fs (d @ [s]) = Some Directory \<Longrightarrow> solid fs (d @ [s])"
  unfolding solid_def by (auto simp: le_Suc_eq)

lemma solid_look: "solid fs d \<Longrightarrow> look fs d = Some Directory"
  unfolding solid_def by auto

text \<open>A place is canonical when its directories are directories and it is not a link itself.\<close>

definition canonical :: "files \<Rightarrow> ustr list \<Rightarrow> bool" where
  "canonical fs q \<longleftrightarrow>
     (q = [] \<or> solid fs (butlast q)) \<and> (\<exists>v. look fs q = Some v \<and> (\<forall>t. v \<noteq> Link t))"

lemma solid_canonical: "solid fs d \<Longrightarrow> canonical fs d"
  by (auto simp: canonical_def solid_butlast dest: solid_look)

text \<open>How a walk that follows links comes to the place it finds.\<close>

lemma walk_found_induct [consumes 1, case_names Nil Skip Up Dir Link Last]:
  assumes "walk fs True n d ss = Inr (Found c)"
    and Nil: "\<And>n. P n c []"
    and Skip: "\<And>n d s ss. s = [] \<or> s = here \<Longrightarrow> P n d ss \<Longrightarrow> P n d (s # ss)"
    and Up: "\<And>n d ss. P n (butlast d) ss \<Longrightarrow> P n d (up # ss)"
    and Dir: "\<And>n d s ss. s \<noteq> [] \<Longrightarrow> s \<noteq> here \<Longrightarrow> s \<noteq> up \<Longrightarrow> look fs (d @ [s]) = Some Directory \<Longrightarrow>
      P n (d @ [s]) ss \<Longrightarrow> P n d (s # ss)"
    and through: "\<And>m d s t ss. s \<noteq> [] \<Longrightarrow> s \<noteq> here \<Longrightarrow> s \<noteq> up \<Longrightarrow> look fs (d @ [s]) = Some (Link t) \<Longrightarrow>
      P m (if path_isAbsolute t then [] else d) (split_on slash t @ ss) \<Longrightarrow> P (Suc m) d (s # ss)"
    and Last: "\<And>n d s v. s \<noteq> [] \<Longrightarrow> s \<noteq> here \<Longrightarrow> s \<noteq> up \<Longrightarrow> look fs (d @ [s]) = Some v \<Longrightarrow>
      v \<noteq> Directory \<Longrightarrow> (\<And>t. v \<noteq> Link t) \<Longrightarrow> c = d @ [s] \<Longrightarrow> P n d [s]"
  shows "P n d ss"
  using assms(1)
proof (induction fs0 \<equiv> fs f0 \<equiv> True n d ss rule: walk.induct)
  case (1 n d)
  then show ?case using Nil by simp
next
  case (2 n d s ss)
  show ?case
  proof (cases "s = [] \<or> s = here")
    case True
    then show ?thesis using 2 Skip by simp
  next
    case name: False
    show ?thesis
    proof (cases "s = up")
      case True
      then show ?thesis using 2 name Up by simp
    next
      case up: False
      show ?thesis
      proof (cases "look fs (d @ [s])")
        case None
        then show ?thesis using 2 name up by (simp split: if_splits)
      next
        case (Some v)
        then show ?thesis
        proof (cases v)
          case Directory
          then show ?thesis using 2 name up Some Dir by simp
        next
          case (Link t)
          then obtain m where "n = Suc m" using "2.prems" name up Some by (auto split: nat.splits)
          then show ?thesis using 2 name up Some Link through by simp
        qed (use 2 name up Some Last in \<open>simp_all split: if_splits\<close>)
      qed
    qed
  qed
qed

lemma walk_canonical:
  "walk fs True n d ss = Inr (Found c) \<Longrightarrow> solid fs d \<Longrightarrow> canonical fs c"
proof (induction rule: walk_found_induct)
  case (Last n d s v)
  then show ?case by (auto simp: canonical_def)
qed (simp_all add: solid_canonical solid_butlast solid_snoc split: if_splits)

definition names :: "ustr list \<Rightarrow> bool" where
  "names d \<longleftrightarrow> (\<forall>s \<in> set d. clean_seg s)"

definition whole :: "ustr list \<Rightarrow> bool" where
  "whole ss \<longleftrightarrow> (\<forall>s \<in> set ss. slash \<notin> set s)"

lemma whole_simps [simp]:
  "whole []" "whole (s # ss) \<longleftrightarrow> slash \<notin> set s \<and> whole ss" "whole (xs @ ys) \<longleftrightarrow> whole xs \<and> whole ys"
  by (auto simp: whole_def)

lemma whole_split [simp]: "whole (split_on slash p)"
  by (auto simp: whole_def dest: split_on_free)

lemma names_simps [simp]:
  "names []" "names (d @ [s]) \<longleftrightarrow> names d \<and> clean_seg s"
  by (auto simp: names_def)

lemma names_butlast: "names d \<Longrightarrow> names (butlast d)"
  unfolding names_def by (blast dest: in_set_butlastD)

lemma names_clean: "names d \<Longrightarrow> \<forall>s \<in> set d. clean_seg s"
  by (simp only: names_def)

fun place_path :: "place \<Rightarrow> ustr list" where
  "place_path (Found q) = q" | "place_path (Missing q) = q"

lemma walk_names:
  "names d \<Longrightarrow> whole ss \<Longrightarrow> walk fs f n d ss = Inr r \<Longrightarrow> names (place_path r)"
proof (induction fs f n d ss arbitrary: r rule: walk.induct)
  case (2 fs f n d s ss)
  have clean: "s \<noteq> [] \<Longrightarrow> s \<noteq> here \<Longrightarrow> s \<noteq> up \<Longrightarrow> clean_seg s"
    using "2.prems"(2) by (simp add: clean_segI)
  show ?case
  proof (cases "s = [] \<or> s = here")
    case True
    then show ?thesis using 2 by simp
  next
    case name: False
    show ?thesis
    proof (cases "s = up")
      case True
      then show ?thesis using 2 name by (simp add: names_butlast)
    next
      case up: False
      then have s: "names (d @ [s])" using clean name "2.prems"(1) by simp
      show ?thesis
      proof (cases "look fs (d @ [s])")
        case None
        then show ?thesis using 2 name up s by (auto split: if_splits)
      next
        case (Some v)
        then show ?thesis
        proof (cases v)
          case Directory
          then show ?thesis using 2 name up Some s by simp
        next
          case (Link t)
          then show ?thesis using 2 name up Some s by (auto split: nat.splits if_splits)
        qed (use 2 name up Some s in \<open>auto split: if_splits\<close>)
      qed
    qed
  qed
qed auto

lemma walk_missing: "walk fs f n d ss = Inr (Missing q) \<Longrightarrow> fs q = None \<and> q \<noteq> []"
proof (induction fs f n d ss rule: walk.induct)
  case (2 fs f n d s ss)
  then show ?case
    by (auto simp: look_def split: if_splits option.splits node.splits nat.splits)
qed simp

text \<open>
  The last name of a path is looked up in the directory that the rest of the path leads to; when
  the rest leads to a file there is nothing below it.
\<close>

lemma walk_snoc:
  "walk fs True n d ss = Inr (Found c) \<Longrightarrow> look fs c = Some Directory \<Longrightarrow>
   \<exists>m. \<forall>f. walk fs f n d (ss @ [s]) = walk fs f m c [s]"
  by (induction rule: walk_found_induct) auto

lemma walk_below_file:
  "walk fs True n d ss = Inr (Found c) \<Longrightarrow> solid fs d \<Longrightarrow>
   look fs c = Some Directory \<or> walk fs f n d (ss @ [s]) = Inl ''ENOTDIR''"
proof (induction rule: walk_found_induct)
  case (Last n d x v)
  then show ?case by (cases v) auto
qed (auto simp: solid_look solid_butlast solid_snoc split: if_splits)

text \<open>Writing a file changes no walk to a directory.\<close>

lemma walk_file_update:
  assumes "walk fs True n d ss = Inr (Found c)" and "look fs c = Some Directory"
    and "look fs q \<noteq> Some Directory" and "\<forall>t. look fs q \<noteq> Some (Link t)" and "q \<noteq> []"
  shows "walk (fs(q \<mapsto> Regular data)) True n d ss = Inr (Found c)"
proof -
  define g where "g = fs(q \<mapsto> Regular data)"
  have same: "look g p = look fs p" if "p \<noteq> q" for p
    using that by (simp add: look_def g_def)
  have "walk g True n d ss = Inr (Found c)"
    using assms
  proof (induction rule: walk_found_induct)
    case (Dir n d s ss)
    moreover from this have "d @ [s] \<noteq> q" by auto
    ultimately show ?case by (simp add: same)
  next
    case (Link m d s t ss)
    moreover from this have "d @ [s] \<noteq> q" by auto
    ultimately show ?case by (simp add: same)
  qed auto
  then show ?thesis by (simp only: g_def)
qed

text \<open>A canonical place is where its own path leads.\<close>

lemma walk_solid:
  "solid fs (d @ ss) \<Longrightarrow> names ss \<Longrightarrow> walk fs f n d (ss @ rest) = walk fs f n (d @ ss) rest"
proof (induction ss arbitrary: d)
  case (Cons s ss)
  have "look fs (d @ [s]) = Some Directory"
    using Cons.prems(1) by (auto simp: solid_def dest: spec [of _ "Suc (length d)"])
  moreover have "s \<noteq> []" "s \<noteq> here" "s \<noteq> up" using Cons.prems(2) by (simp_all add: names_def clean_seg_def)
  ultimately show ?case using Cons.IH [of "d @ [s]"] Cons.prems by (simp add: names_def)
qed simp

lemma walk_of_canonical:
  assumes "canonical fs q" and "names q"
  shows "walk fs f n [] q = Inr (Found q)"
proof (cases q rule: rev_cases)
  case (snoc p s)
  from assms(1) obtain v where v: "look fs q = Some v" "\<forall>t. v \<noteq> Link t" and p: "solid fs p"
    using snoc by (auto simp: canonical_def)
  have s: "s \<noteq> []" "s \<noteq> here" "s \<noteq> up" and np: "names p"
    using assms(2) snoc by (auto simp: clean_seg_def)
  have "walk fs f n [] q = walk fs f n p [s]"
    using walk_solid [of fs "[]" p f n "[s]"] p np snoc by simp
  also have "\<dots> = Inr (Found q)" using s v snoc by (cases v) simp_all
  finally show ?thesis .
qed simp

lemma locate_abs_path:
  assumes "names ss"
  shows "locate fs f (abs_path ss) = walk fs f SYMLOOP_MAX [] ss"
  using split_abs_path [OF names_clean [OF assms]] by (simp add: locate_def)

lemma locate_canonical:
  assumes "canonical fs q" and "names q"
  shows "locate fs f (abs_path q) = Inr (Found q)"
  using walk_of_canonical [OF assms] by (simp add: locate_abs_path [OF assms(2)])

lemma locate_missing: "locate fs f p = Inr (Missing q) \<Longrightarrow> look fs q = None"
  using walk_missing unfolding locate_def look_def by fastforce

lemma locate_names: "locate fs f p = Inr r \<Longrightarrow> names (place_path r)"
  unfolding locate_def by (rule walk_names [OF _ _]) simp_all

lemma locate_found_canonical: "locate fs True p = Inr (Found q) \<Longrightarrow> canonical fs q"
  unfolding locate_def by (rule walk_canonical [OF _ solid_Nil])

subsection \<open>What the calls change\<close>

lemma mkdir_one_effect:
  assumes "mkdir_one fs p = Inr fs'" and "fs' q \<noteq> fs q"
  shows "fs q = None \<and> fs' q = Some Directory"
  using assms walk_missing [of fs False SYMLOOP_MAX "[]" p]
  by (auto simp: mkdir_one_def split: sum.splits place.splits if_splits)

lemma mkdirs_effect:
  "mkdirs fs d ss = (r, fs') \<Longrightarrow> fs' q \<noteq> fs q \<Longrightarrow> fs q = None \<and> fs' q = Some Directory"
proof (induction fs d ss rule: mkdirs.induct)
  case (2 fs d s ss)
  show ?case
  proof (cases "mkdir_one fs (d @ [s])")
    case (Inr fs1)
    then have rest: "mkdirs fs1 (d @ [s]) ss = (r, fs')" using "2.prems"(1) by simp
    show ?thesis
    proof (cases "fs' q = fs1 q")
      case True
      then show ?thesis using mkdir_one_effect [OF Inr, of q] "2.prems"(2) by simp
    next
      case False
      then have "fs1 q = None \<and> fs' q = Some Directory" using "2.IH" [OF Inr rest] by simp
      moreover from this have "fs1 q = fs q" using mkdir_one_effect [OF Inr, of q] by auto
      ultimately show ?thesis by simp
    qed
  qed (use 2 in simp)
qed simp

lemma writeFile_effect:
  assumes "fs_writeFile short fs p data = (r, fs')" and "fs' q \<noteq> fs q"
  shows "\<exists>at. locate fs True p = Inr at \<and> q = place_path at \<and> look fs q \<noteq> Some Directory"
  using assms locate_missing [of fs True p] unfolding fs_writeFile_def Let_def
  by (auto split: sum.splits place.splits option.splits node.splits if_splits prod.splits)

text \<open>\<^verbatim>\<open>dirname\<close> of a normalized path takes off the last name.\<close>

lemma dropWhile_free: "c \<notin> set s \<Longrightarrow> dropWhile (\<lambda>u. u \<noteq> c) (rev s @ c # t) = c # t"
  by (subst dropWhile_append2) auto

lemma dirname_abs_path:
  assumes "names (d @ [s])"
  shows "path_dirname (abs_path (d @ [s])) = abs_path d"
proof -
  have s: "s \<noteq> []" "slash \<notin> set s" using assms by (simp_all add: clean_seg_def)
  then obtain a w where rev_s: "rev s = a # w" by (cases "rev s") auto
  then have "a \<noteq> slash" using s(2) by (metis list.set_intros(1) set_rev)
  then have last: "dropWhile (\<lambda>u. u = slash) (rev s @ t) = rev s @ t" for t using rev_s by simp
  show ?thesis
  proof (cases "d = []")
    case True
    have "dropWhile (\<lambda>u. u \<noteq> slash) (rev s) = []" using s(2) by auto
    moreover have "dropWhile (\<lambda>u. u = slash) (rev s) = rev s" using last [of "[]"] by simp
    ultimately show ?thesis using True by (simp add: path_dirname_def abs_path_def)
  next
    case False
    then have j: "join_on slash (d @ [s]) = join_on slash d @ slash # s" by (simp add: join_on_append)
    have "join_on slash d \<noteq> []"
    proof -
      have "\<forall>w \<in> set d. w \<noteq> []" using assms by (simp add: names_def clean_seg_def)
      then show ?thesis using join_on_Nil_iff False by blast
    qed
    moreover have "dropWhile (\<lambda>u. u \<noteq> slash) (dropWhile (\<lambda>u. u = slash) (rev (join_on slash d @ slash # s))) =
        slash # rev (join_on slash d)"
      using last [of "slash # rev (join_on slash d)"] dropWhile_free [OF s(2)] by simp
    ultimately show ?thesis by (simp add: path_dirname_def abs_path_def j)
  qed
qed

end
