(* ===== verification/Utf8.thy ===== *)
theory Utf8
  imports Js_Strings
begin

text \<open>
  Text in files: \<^verbatim>\<open>Buffer.from(s, "utf8")\<close>, \<^verbatim>\<open>buffer.toString("utf8")\<close>, the same for
  \<^verbatim>\<open>latin1\<close>, and \<^verbatim>\<open>Buffer.byteLength\<close>. A surrogate without its partner is written as the replacement
  character; bytes that are not UTF-8 are read as replacement characters the way the encoding
  standard says. Text without lone surrogates is read back as it was written.
\<close>

definition REPLACEMENT :: nat where "REPLACEMENT = 65533"

fun point_value :: "ustr \<Rightarrow> nat" where
  "point_value [h, l] = 65536 + (h - 55296) * 1024 + (l - 56320)"
| "point_value [u] = (if is_high u \<or> is_low u then REPLACEMENT else u)"
| "point_value _ = REPLACEMENT"

definition encode_point :: "nat \<Rightarrow> nat list" where
  "encode_point v =
     (if v < 128 then [v]
      else if v < 2048 then [192 + v div 64, 128 + v mod 64]
      else if v < 65536 then [224 + v div 4096, 128 + v div 64 mod 64, 128 + v mod 64]
      else [240 + v div 262144, 128 + v div 4096 mod 64, 128 + v div 64 mod 64, 128 + v mod 64])"

definition utf8_encode :: "ustr \<Rightarrow> nat list" where
  "utf8_encode s = concat (map (\<lambda>c. encode_point (point_value c)) (code_points s))"

definition utf8_length :: "ustr \<Rightarrow> nat" where
  "utf8_length s = length (utf8_encode s)"

text \<open>
  The decoder of the standard: \<open>n\<close> bytes are still to come for the point \<open>v\<close>, the next one between
  \<open>lo\<close> and \<open>hi\<close>. A byte that does not fit ends the point and is read again.
\<close>

function decode_points :: "nat \<Rightarrow> nat \<Rightarrow> nat \<Rightarrow> nat \<Rightarrow> nat list \<Rightarrow> nat list" where
  "decode_points n v lo hi [] = (if n = 0 then [] else [REPLACEMENT])"
| "decode_points n v lo hi (b # bs) =
     (if n = 0 then
        (if b < 128 then b # decode_points 0 0 128 191 bs
         else if 194 \<le> b \<and> b \<le> 223 then decode_points 1 (b - 192) 128 191 bs
         else if 224 \<le> b \<and> b \<le> 239 then
           decode_points 2 (b - 224) (if b = 224 then 160 else 128) (if b = 237 then 159 else 191) bs
         else if 240 \<le> b \<and> b \<le> 244 then
           decode_points 3 (b - 240) (if b = 240 then 144 else 128) (if b = 244 then 143 else 191) bs
         else REPLACEMENT # decode_points 0 0 128 191 bs)
      else if b < lo \<or> hi < b then REPLACEMENT # decode_points 0 0 128 191 (b # bs)
      else if n = 1 then (v * 64 + (b - 128)) # decode_points 0 0 128 191 bs
      else decode_points (n - 1) (v * 64 + (b - 128)) 128 191 bs)"
  by pat_completeness auto
termination
  by (relation "measures [\<lambda>(n, v, lo, hi, bs). length bs, \<lambda>(n, v, lo, hi, bs). n]") auto

definition point_units :: "nat \<Rightarrow> ustr" where
  "point_units v =
     (if v < 65536 then [v] else [55296 + (v - 65536) div 1024, 56320 + (v - 65536) mod 1024])"

definition utf8_decode :: "nat list \<Rightarrow> ustr" where
  "utf8_decode bs = concat (map point_units (decode_points 0 0 128 191 bs))"

definition latin1_encode :: "ustr \<Rightarrow> nat list" where
  "latin1_encode s = map (\<lambda>u. u mod 256) s"

subsection \<open>Reading back what was written\<close>

definition scalar :: "nat \<Rightarrow> bool" where
  "scalar v \<longleftrightarrow> v < 55296 \<or> (57343 < v \<and> v < 1114112)"

lemma base64_two: "v = v div 4096 * 4096 + v div 64 mod 64 * 64 + v mod (64 :: nat)"
proof -
  have "v div 4096 = v div 64 div 64" by (simp add: div_mult2_eq [symmetric])
  moreover have "v div 64 = v div 64 div 64 * 64 + v div 64 mod 64" by (rule div_mult_mod_eq [symmetric])
  moreover have "v = v div 64 * 64 + v mod 64" by (rule div_mult_mod_eq [symmetric])
  ultimately show ?thesis by linarith
qed

lemma base64_three:
  "v = v div 262144 * 262144 + v div 4096 mod 64 * 4096 + v div 64 mod 64 * 64 + v mod (64 :: nat)"
proof -
  have "v div 262144 = v div 4096 div 64" by (simp add: div_mult2_eq [symmetric])
  moreover have "v div 4096 = v div 4096 div 64 * 64 + v div 4096 mod 64" by (rule div_mult_mod_eq [symmetric])
  ultimately show ?thesis using base64_two [of v] by linarith
qed

lemma decode_encode_point:
  assumes "scalar v"
  shows "decode_points 0 0 128 191 (encode_point v @ bs) = v # decode_points 0 0 128 191 bs"
proof -
  consider "v < 128" | "128 \<le> v" "v < 2048" | "2048 \<le> v" "v < 65536" | "65536 \<le> v" "v < 1114112"
    using assms unfolding scalar_def by linarith
  then show ?thesis
  proof cases
    case 1
    then show ?thesis by (simp add: encode_point_def)
  next
    case 2
    define a c where "a = v div 64" and "c = v mod 64"
    have v: "v = a * 64 + c" and c: "c < 64" unfolding a_def c_def by simp_all
    have a: "2 \<le> a" "a \<le> 31" using 2 v c by linarith+
    have "encode_point v = [192 + a, 128 + c]" using 2 by (simp add: encode_point_def a_def c_def)
    then show ?thesis using a c by (simp add: v algebra_simps)
  next
    case 3
    define a b c where "a = v div 4096" and "b = v div 64 mod 64" and "c = v mod 64"
    have v: "v = a * 4096 + b * 64 + c" and b: "b < 64" and c: "c < 64"
      unfolding a_def b_def c_def using base64_two [of v] by simp_all
    have a: "a \<le> 15" using 3 v by linarith
    have lo: "a = 0 \<Longrightarrow> 32 \<le> b" using 3 v c by linarith
    have hi: "a = 13 \<Longrightarrow> b \<le> 31" using assms 3 v b c unfolding scalar_def by auto
    have enc: "encode_point v = [224 + a, 128 + b, 128 + c]"
      using 3 by (simp add: encode_point_def a_def b_def c_def)
    have "decode_points 0 0 128 191 (encode_point v @ bs) =
        decode_points 2 a (if a = 0 then 160 else 128) (if a = 13 then 159 else 191) ((128 + b) # (128 + c) # bs)"
      unfolding enc using a by simp
    also have "\<dots> = decode_points 1 (a * 64 + b) 128 191 ((128 + c) # bs)"
      using lo hi b by (cases "a = 0"; cases "a = 13") simp_all
    also have "\<dots> = v # decode_points 0 0 128 191 bs"
      using c by (simp add: v algebra_simps)
    finally show ?thesis .
  next
    case 4
    define a b c d where "a = v div 262144" and "b = v div 4096 mod 64" and "c = v div 64 mod 64" and "d = v mod 64"
    have v: "v = a * 262144 + b * 4096 + c * 64 + d" and b: "b < 64" and c: "c < 64" and d: "d < 64"
      unfolding a_def b_def c_def d_def using base64_three [of v] by simp_all
    have a: "a \<le> 4" using 4 v by linarith
    have lo: "a = 0 \<Longrightarrow> 16 \<le> b" using 4 v c d by linarith
    have hi: "a = 4 \<Longrightarrow> b \<le> 15" using 4 v by linarith
    have enc: "encode_point v = [240 + a, 128 + b, 128 + c, 128 + d]"
      using 4 by (simp add: encode_point_def a_def b_def c_def d_def)
    have "decode_points 0 0 128 191 (encode_point v @ bs) =
        decode_points 3 a (if a = 0 then 144 else 128) (if a = 4 then 143 else 191)
          ((128 + b) # (128 + c) # (128 + d) # bs)"
      unfolding enc using a by simp
    also have "\<dots> = decode_points 2 (a * 64 + b) 128 191 ((128 + c) # (128 + d) # bs)"
      using lo hi b by (cases "a = 0"; cases "a = 4") simp_all
    also have "\<dots> = decode_points 1 ((a * 64 + b) * 64 + c) 128 191 ((128 + d) # bs)"
      using c by simp
    also have "\<dots> = v # decode_points 0 0 128 191 bs"
      using d by (simp add: v algebra_simps)
    finally show ?thesis .
  qed
qed

lemma decode_encode_points:
  "\<forall>v \<in> set vs. scalar v \<Longrightarrow> decode_points 0 0 128 191 (concat (map encode_point vs)) = vs"
  by (induction vs) (simp_all add: decode_encode_point del: decode_points.simps(2))

text \<open>Text whose surrogates all come in pairs.\<close>

definition well_formed :: "ustr \<Rightarrow> bool" where
  "well_formed s \<longleftrightarrow>
     (\<forall>c \<in> set (code_points s). case c of [u] \<Rightarrow> u < 65536 \<and> \<not> is_high u \<and> \<not> is_low u | _ \<Rightarrow> True)"

lemma code_point_forms: "c \<in> set (code_points s) \<Longrightarrow> (\<exists>u. c = [u]) \<or> (\<exists>h l. c = [h, l] \<and> is_high h \<and> is_low l)"
  by (induction s rule: code_points.induct) (auto split: if_splits)

lemma point_roundtrip:
  assumes "well_formed s" and "c \<in> set (code_points s)"
  shows "scalar (point_value c)" and "point_units (point_value c) = c"
proof -
  from code_point_forms [OF assms(2)]
  have "scalar (point_value c) \<and> point_units (point_value c) = c"
  proof (elim disjE exE conjE)
    fix u assume c: "c = [u]"
    with assms have "u < 65536" "\<not> is_high u" "\<not> is_low u" by (auto simp: well_formed_def)
    then show ?thesis by (auto simp: c scalar_def point_units_def is_high_def is_low_def)
  next
    fix h l assume c: "c = [h, l]" and "is_high h" "is_low l"
    then have "h = 55296 + (h - 55296)" "h - 55296 < 1024" "l = 56320 + (l - 56320)" "l - 56320 < 1024"
      unfolding is_high_def is_low_def by linarith+
    then obtain x y where "h = 55296 + x" "x < 1024" "l = 56320 + y" "y < 1024" by blast
    then show ?thesis by (simp add: c scalar_def point_units_def)
  qed
  then show "scalar (point_value c)" and "point_units (point_value c) = c" by blast+
qed

theorem utf8_roundtrip:
  assumes "well_formed s"
  shows "utf8_decode (utf8_encode s) = s"
proof -
  have "\<forall>v \<in> set (map point_value (code_points s)). scalar v"
    using point_roundtrip(1) [OF assms] by simp
  then have "decode_points 0 0 128 191 (concat (map encode_point (map point_value (code_points s)))) =
      map point_value (code_points s)"
    by (rule decode_encode_points)
  then have "decode_points 0 0 128 191 (utf8_encode s) = map point_value (code_points s)"
    by (simp add: utf8_encode_def comp_def)
  moreover have "map point_units (map point_value (code_points s)) = code_points s"
    using point_roundtrip(2) [OF assms] by (simp add: map_idI)
  ultimately show ?thesis by (simp add: utf8_decode_def)
qed

lemma encode_point_length: "1 \<le> length (encode_point v)"
  by (simp add: encode_point_def)

end
