(* ===== verification/Box_Daemon.thy ===== *)
theory Box_Daemon
  imports Posix_Files Utf8
begin

text \<open>
  The daemon that gives agents their box, \<^verbatim>\<open>box-exec-daemon/server.ts\<close>: reading and writing of
  files below a directory, background shells with their terminal files, and the environment of the
  shells.

  Files are the file system of \<open>Posix_Files\<close>; between two calls of one request nothing else changes
  it. Any call may fail with any error code (\<open>fault\<close>), and a write may stop half way. Messages of
  errors are not modelled; what caused a rejection is. A shell is a child process: what it does are
  events.
\<close>

subsection \<open>Which paths are allowed\<close>

definition BOX_TERMINAL_VIRTUAL_PREFIX :: ustr where
  "BOX_TERMINAL_VIRTUAL_PREFIX = ascii ''/root/.cursor/projects/workspace/terminals/''"

definition workspace_path :: ustr where "workspace_path = ascii ''/workspace''"

record daemon =
  dm_cwd :: ustr
  dm_workspaceRoot :: ustr
  dm_terminalsDirectory :: ustr

datatype rejection = Terminal_Name | Escapes_Root | Escapes_Roots | Symbolic_Link

datatype exn = Path_Rejected rejection | Errno string

definition is_digit :: "nat \<Rightarrow> bool" where "is_digit u \<longleftrightarrow> 48 \<le> u \<and> u \<le> 57"

definition txt_suffix :: ustr where "txt_suffix = ascii ''.txt''"

text \<open>\<^verbatim>\<open>/^\d+\.txt$/\<close>\<close>

definition terminal_name :: "ustr \<Rightarrow> bool" where
  "terminal_name s \<longleftrightarrow>
     (let k = length s - 4
      in 4 < length s \<and> drop k s = txt_suffix \<and> list_all is_digit (take k s))"

definition mapped_path :: "daemon \<Rightarrow> ustr \<Rightarrow> ustr" where
  "mapped_path dm logical =
     (if logical = workspace_path then dm_workspaceRoot dm
      else if starts_with (workspace_path @ [slash]) logical
        then path_join [dm_workspaceRoot dm, drop (length workspace_path + 1) logical]
      else if path_isAbsolute logical then logical
      else path_join [dm_workspaceRoot dm, logical])"

definition resolvePath :: "daemon \<Rightarrow> ustr \<Rightarrow> exn + ustr" where
  "resolvePath dm requested =
     (let logical = (if requested = [] then workspace_path else requested)
      in if starts_with BOX_TERMINAL_VIRTUAL_PREFIX logical then
           let name = drop (length BOX_TERMINAL_VIRTUAL_PREFIX) logical
           in if terminal_name name then Inr (path_join [dm_terminalsDirectory dm, name])
              else Inl (Path_Rejected Terminal_Name)
         else
           let resolved = path_resolve (dm_cwd dm) [mapped_path dm logical]
           in if inside (dm_cwd dm) (dm_workspaceRoot dm) resolved then Inr resolved
              else Inl (Path_Rejected Escapes_Root))"

definition assertRealPathAllowed :: "daemon \<Rightarrow> ustr \<Rightarrow> exn + unit" where
  "assertRealPathAllowed dm target =
     (if inside (dm_cwd dm) (dm_workspaceRoot dm) target \<or>
         inside (dm_cwd dm) (dm_terminalsDirectory dm) target
      then Inr () else Inl (Path_Rejected Escapes_Roots))"

subsection \<open>Reading a file\<close>

datatype fs_call =
    Call_Lstat | Call_Realpath | Call_Stat | Call_ReadFile | Call_Mkdir | Call_Open | Call_Realpath_After

record io_env =
  fault :: "fs_call \<Rightarrow> string option"
  short_write :: "(string \<times> nat) option"
  made_first :: nat   \<comment> \<open>the directories a failing \<^verbatim>\<open>mkdir\<close> has dealt with before\<close>

definition io :: "io_env \<Rightarrow> fs_call \<Rightarrow> string + 'a \<Rightarrow> exn + 'a" where
  "io env c r =
     (case fault env c of
        Some e \<Rightarrow> Inl (Errno e)
      | None \<Rightarrow> (case r of Inl e \<Rightarrow> Inl (Errno e) | Inr x \<Rightarrow> Inr x))"

fun and_then :: "'e + 'a \<Rightarrow> ('a \<Rightarrow> 'e + 'b) \<Rightarrow> 'e + 'b" where
  "and_then (Inl e) f = Inl e"
| "and_then (Inr x) f = f x"

record read_args =
  ra_path :: ustr
  ra_encodingHint :: "string option"
  ra_offset :: "int option"
  ra_limit :: "int option"

record read_success =
  rs_content :: ustr
  rs_totalLines :: nat
  rs_fileSize :: nat
  rs_truncated :: bool
  rs_rangeApplied :: bool

datatype read_result =
    Read_Success read_success
  | Read_Invalid
  | Read_Rejected rejection
  | Read_NotFound
  | Read_Denied
  | Read_Error

fun is_link :: "node \<Rightarrow> bool" where
  "is_link (Link t) = True" | "is_link _ = False"

fun is_regular :: "node \<Rightarrow> bool" where
  "is_regular (Regular d) = True" | "is_regular _ = False"

definition known_hint :: "string option \<Rightarrow> bool" where
  "known_hint h \<longleftrightarrow> h \<in> {None, Some ''utf8'', Some ''utf-8'', Some ''latin1''}"

definition decode_text :: "string option \<Rightarrow> nat list \<Rightarrow> ustr" where
  "decode_text h data = (if h = Some ''latin1'' then data else utf8_decode data)"

definition read_slice :: "read_args \<Rightarrow> nat list \<Rightarrow> read_success" where
  "read_slice args data =
     (let lines = split_on newline (decode_text (ra_encodingHint args) data);
          offset = nat (max 0 (case ra_offset args of None \<Rightarrow> 0 | Some n \<Rightarrow> n));
          limit = (case ra_limit args of None \<Rightarrow> length lines | Some n \<Rightarrow> nat (max 0 n))
      in \<lparr> rs_content = join_on newline (take limit (drop offset lines)),
           rs_totalLines = length lines,
           rs_fileSize = length data,
           rs_truncated = (0 < offset \<or> offset + limit < length lines),
           rs_rangeApplied = (ra_offset args \<noteq> None \<or> ra_limit args \<noteq> None) \<rparr>)"

definition read_body :: "daemon \<Rightarrow> io_env \<Rightarrow> files \<Rightarrow> read_args \<Rightarrow> exn + read_result" where
  "read_body dm env fs args =
     and_then (resolvePath dm (ra_path args)) (\<lambda>target.
     and_then (io env Call_Lstat (fs_lstat fs target)) (\<lambda>direct.
     if is_link direct then Inl (Path_Rejected Symbolic_Link)
     else
     and_then (io env Call_Realpath (fs_realpath fs target)) (\<lambda>canonical_path.
     and_then (assertRealPathAllowed dm canonical_path) (\<lambda>_.
     and_then (io env Call_Stat (fs_stat fs canonical_path)) (\<lambda>info.
     if \<not> is_regular info then Inr Read_Invalid
     else if \<not> known_hint (ra_encodingHint args) then Inr Read_Invalid
     else
     and_then (io env Call_ReadFile (fs_readFile fs canonical_path)) (\<lambda>data.
     Inr (Read_Success (read_slice args data))))))))"

definition read_failure :: "exn \<Rightarrow> read_result" where
  "read_failure e =
     (case e of
        Path_Rejected r \<Rightarrow> Read_Rejected r
      | Errno c \<Rightarrow>
          (if c \<in> {''ENOENT'', ''ENOTDIR''} then Read_NotFound
           else if c \<in> {''EACCES'', ''EPERM''} then Read_Denied
           else if c \<in> {''EISDIR'', ''EINVAL'', ''ENAMETOOLONG''} then Read_Invalid
           else Read_Error))"

definition box_read :: "daemon \<Rightarrow> io_env \<Rightarrow> files \<Rightarrow> read_args \<Rightarrow> read_result" where
  "box_read dm env fs args =
     (case read_body dm env fs args of Inl e \<Rightarrow> read_failure e | Inr r \<Rightarrow> r)"

subsection \<open>Writing a file\<close>

record write_args =
  wa_path :: ustr
  wa_fileBytes :: "nat list"
  wa_fileText :: ustr
  wa_encodingHint :: "string option"
  wa_returnContent :: bool

record write_success =
  ws_linesCreated :: nat
  ws_fileSize :: nat
  ws_content :: "ustr option"

datatype write_result =
    Write_Success write_success
  | Write_Is_Directory
  | Write_Rejected rejection
  | Write_Denied ustr
  | Write_NoSpace
  | Write_Error

definition payload_of :: "write_args \<Rightarrow> nat list" where
  "payload_of args =
     (if 0 < length (wa_fileBytes args) then wa_fileBytes args
      else if wa_encodingHint args = Some ''latin1'' then latin1_encode (wa_fileText args)
      else utf8_encode (wa_fileText args))"

definition write_outcome :: "write_args \<Rightarrow> nat list \<Rightarrow> write_success" where
  "write_outcome args payload =
     (let content = utf8_decode payload
      in \<lparr> ws_linesCreated = (if content = [] then 0 else length (split_on newline content)),
           ws_fileSize = length payload,
           ws_content = (if wa_returnContent args then Some content else None) \<rparr>)"

text \<open>Whether an existing target may be overwritten: \<^term>\<open>None\<close> says so.\<close>

definition existing_target :: "io_env \<Rightarrow> files \<Rightarrow> ustr \<Rightarrow> (exn + write_result) option" where
  "existing_target env fs target =
     (case io env Call_Lstat (fs_lstat fs target) of
        Inl (Errno c) \<Rightarrow> if c = ''ENOENT'' then None else Some (Inl (Errno c))
      | Inl e \<Rightarrow> Some (Inl e)
      | Inr existing \<Rightarrow>
          (if is_link existing then Some (Inl (Path_Rejected Symbolic_Link))
           else if existing = Directory then Some (Inr Write_Is_Directory)
           else None))"

definition write_file :: "daemon \<Rightarrow> io_env \<Rightarrow> write_args \<Rightarrow> files \<Rightarrow> ustr \<Rightarrow> (exn + write_result) \<times> files" where
  "write_file dm env args fs target =
     (case fault env Call_Open of
        Some c \<Rightarrow> (Inl (Errno c), fs)
      | None \<Rightarrow>
          (let payload = payload_of args;
               (failed, fs') = fs_writeFile (short_write env) fs target payload
           in case failed of
                Some c \<Rightarrow> (Inl (Errno c), fs')
              | None \<Rightarrow>
                  (and_then (io env Call_Realpath_After (fs_realpath fs' target)) (\<lambda>canonical_path.
                   and_then (assertRealPathAllowed dm canonical_path) (\<lambda>_.
                   Inr (Write_Success (write_outcome args payload)))), fs')))"

definition write_body :: "daemon \<Rightarrow> io_env \<Rightarrow> files \<Rightarrow> write_args \<Rightarrow> (exn + write_result) \<times> files" where
  "write_body dm env fs args =
     (case resolvePath dm (wa_path args) of
        Inl e \<Rightarrow> (Inl e, fs)
      | Inr target \<Rightarrow>
          (let parent = path_dirname target in
           case fault env Call_Mkdir of
             Some c \<Rightarrow> (Inl (Errno c), snd (mkdirs fs [] (take (made_first env) (abs_segs parent))))
           | None \<Rightarrow>
               (let (failed, fs1) = fs_mkdir_recursive fs parent
                in case failed of
                     Some c \<Rightarrow> (Inl (Errno c), fs1)
                   | None \<Rightarrow>
                       (case and_then (io env Call_Realpath (fs_realpath fs1 parent)) (assertRealPathAllowed dm) of
                          Inl e \<Rightarrow> (Inl e, fs1)
                        | Inr _ \<Rightarrow>
                            (case existing_target env fs1 target of
                               Some r \<Rightarrow> (r, fs1)
                             | None \<Rightarrow> write_file dm env args fs1 target)))))"

definition write_failure :: "write_args \<Rightarrow> exn \<Rightarrow> write_result" where
  "write_failure args e =
     (case e of
        Path_Rejected r \<Rightarrow> Write_Rejected r
      | Errno c \<Rightarrow>
          (if c \<in> {''EACCES'', ''EPERM'', ''EROFS''} then Write_Denied (path_dirname (wa_path args))
           else if c \<in> {''ENOSPC'', ''EDQUOT''} then Write_NoSpace
           else Write_Error))"

definition box_write :: "daemon \<Rightarrow> io_env \<Rightarrow> files \<Rightarrow> write_args \<Rightarrow> write_result \<times> files" where
  "box_write dm env fs args =
     (let (r, fs') = write_body dm env fs args
      in (case r of Inl e \<Rightarrow> write_failure args e | Inr w \<Rightarrow> w, fs'))"

subsection \<open>Starting the daemon\<close>

text \<open>\<^verbatim>\<open>startBoxExecDaemon\<close> up to the runtime: both directories are made, and their real paths kept.\<close>

datatype start_error = Start_Errno string | Not_A_Directory

definition start_daemon ::
  "ustr \<Rightarrow> ustr \<Rightarrow> ustr \<Rightarrow> files \<Rightarrow> (start_error + daemon) \<times> files" where
  "start_daemon cwd workspace terminals fs =
     (let requestedRoot = path_resolve cwd [workspace];
          requestedTerminals = path_resolve cwd [terminals];
          (e1, fs1) = fs_mkdir_recursive fs requestedRoot
      in case e1 of
           Some c \<Rightarrow> (Inl (Start_Errno c), fs1)
         | None \<Rightarrow>
             (let (e2, fs2) = fs_mkdir_recursive fs1 requestedTerminals
              in case e2 of
                   Some c \<Rightarrow> (Inl (Start_Errno c), fs2)
                 | None \<Rightarrow>
                     (case (fs_realpath fs2 requestedRoot, fs_realpath fs2 requestedTerminals) of
                        (Inl c, _) \<Rightarrow> (Inl (Start_Errno c), fs2)
                      | (Inr _, Inl c) \<Rightarrow> (Inl (Start_Errno c), fs2)
                      | (Inr root, Inr terms) \<Rightarrow>
                          (case fs_stat fs2 root of
                             Inl c \<Rightarrow> (Inl (Start_Errno c), fs2)
                           | Inr info \<Rightarrow>
                               if info = Directory
                               then (Inr \<lparr> dm_cwd = cwd, dm_workspaceRoot = root,
                                           dm_terminalsDirectory = terms \<rparr>, fs2)
                               else (Inl Not_A_Directory, fs2)))))"

text \<open>The directories of a daemon as physical places, and what lies in or below them.\<close>

definition root_place :: "daemon \<Rightarrow> ustr list" where
  "root_place dm = abs_segs (dm_workspaceRoot dm)"

definition terminals_place :: "daemon \<Rightarrow> ustr list" where
  "terminals_place dm = abs_segs (dm_terminalsDirectory dm)"

definition daemon_ok :: "daemon \<Rightarrow> bool" where
  "daemon_ok dm \<longleftrightarrow>
     names (root_place dm) \<and> dm_workspaceRoot dm = abs_path (root_place dm) \<and>
     names (terminals_place dm) \<and> dm_terminalsDirectory dm = abs_path (terminals_place dm)"

definition below :: "ustr list \<Rightarrow> ustr list \<Rightarrow> bool" where
  "below d q \<longleftrightarrow> take (length d) q = d"

definition allowed_place :: "daemon \<Rightarrow> ustr list \<Rightarrow> bool" where
  "allowed_place dm q \<longleftrightarrow> below (root_place dm) q \<or> below (terminals_place dm) q"

lemma below_append [simp]: "below d (d @ us)" "below d d"
  by (simp_all add: below_def)

lemma below_iff: "below d q \<longleftrightarrow> (\<exists>us. q = d @ us)"
  unfolding below_def by (metis append_eq_conv_conj append_take_drop_id)

lemma below_trans: "below d q \<Longrightarrow> below d (q @ us)"
  by (auto simp: below_iff)

lemma abs_segs_names: "names ss \<Longrightarrow> abs_segs (abs_path ss) = ss"
  by (simp add: names_clean)

lemma realpath_place:
  assumes "fs_realpath fs p = Inr r"
  obtains q where "locate fs True p = Inr (Found q)" "r = abs_path q" "names q" "canonical fs q"
proof -
  from assms obtain q where q: "locate fs True p = Inr (Found q)" and r: "r = abs_path q"
    by (auto simp: fs_realpath_def split: sum.splits place.splits)
  moreover have "names q" using locate_names [OF q] by simp
  moreover have "canonical fs q" using q by (rule locate_found_canonical)
  ultimately show thesis using that by blast
qed

lemma stat_canonical:
  assumes "names q" and "canonical fs q"
  shows "fs_stat fs (abs_path q) = Inr (the (look fs q))"
  using assms locate_canonical [OF assms(2,1)] by (auto simp: fs_stat_def node_at_def canonical_def)

text \<open>A daemon that has started has real directories, given by their physical places.\<close>

lemma started_daemon_ok:
  assumes "start_daemon cwd workspace terminals fs = (Inr dm, fs')"
  shows "daemon_ok dm \<and> canonical fs' (root_place dm) \<and> look fs' (root_place dm) = Some Directory \<and>
    canonical fs' (terminals_place dm)"
proof -
  obtain e1 fs1 where m1: "fs_mkdir_recursive fs (path_resolve cwd [workspace]) = (e1, fs1)" by fastforce
  obtain e2 fs2 where m2: "fs_mkdir_recursive fs1 (path_resolve cwd [terminals]) = (e2, fs2)" by fastforce
  note start = assms [unfolded start_daemon_def Let_def m1 m2 prod.case]
  have e: "e1 = None" "e2 = None" using start by (cases e1; cases e2; simp add: m2)+
  note start = start [unfolded e option.case m2 prod.case]
  obtain root where r: "fs_realpath fs2 (path_resolve cwd [workspace]) = Inr root"
    using start by (cases "fs_realpath fs2 (path_resolve cwd [workspace])") simp_all
  obtain terms where t: "fs_realpath fs2 (path_resolve cwd [terminals]) = Inr terms"
    using start r by (cases "fs_realpath fs2 (path_resolve cwd [terminals])") simp_all
  have s: "fs_stat fs2 root = Inr Directory" and fs': "fs' = fs2"
    and dm: "dm_workspaceRoot dm = root" "dm_terminalsDirectory dm = terms"
    using start r t by (cases "fs_stat fs2 root"; auto split: if_splits)+
  from r obtain q where q: "root = abs_path q" "names q" "canonical fs2 q" by (rule realpath_place)
  from t obtain q' where q': "terms = abs_path q'" "names q'" "canonical fs2 q'" by (rule realpath_place)
  have place: "root_place dm = q" "terminals_place dm = q'"
    by (simp_all add: root_place_def terminals_place_def dm q q' abs_segs_names)
  have "the (look fs2 q) = Directory" using s stat_canonical [OF q(2,3)] q(1) by simp
  moreover obtain v where "look fs2 q = Some v" using q(3) by (auto simp: canonical_def)
  ultimately show ?thesis using q q' fs' dm by (simp add: daemon_ok_def place)
qed

subsection \<open>What the guards let through\<close>

lemma and_then_Inr [simp]: "and_then r f = Inr y \<longleftrightarrow> (\<exists>x. r = Inr x \<and> f x = Inr y)"
  by (cases r) simp_all

lemma io_Inr [simp]: "io env c r = Inr x \<longleftrightarrow> fault env c = None \<and> r = Inr x"
  by (auto simp: io_def split: option.splits sum.splits)

lemma inside_below:
  assumes "inside cwd (abs_path d) (abs_path q)" and "names d" and "names q"
  shows "below d q"
  using inside_prefix [OF assms(1) names_clean [OF assms(2)] names_clean [OF assms(3)]]
  by (auto simp: below_iff)

lemma allowed_real_path:
  assumes "daemon_ok dm" and "names q" and "assertRealPathAllowed dm (abs_path q) = Inr u"
  shows "allowed_place dm q"
  using assms inside_below unfolding assertRealPathAllowed_def daemon_ok_def allowed_place_def
  by (metis Inl_Inr_False)

text \<open>
  Property C2. What the daemon gives an agent to read is in a regular file whose physical place,
  all links resolved, is in the workspace or among the terminals; the answer is the asked slice of
  the lines of that file.
\<close>

theorem reads_stay_inside:
  assumes "daemon_ok dm" and "box_read dm env fs args = Read_Success r"
  shows "\<exists>q data. allowed_place dm q \<and> canonical fs q \<and> look fs q = Some (Regular data) \<and>
    r = read_slice args data"
proof -
  from assms(2) have "read_body dm env fs args = Inr (Read_Success r)"
    unfolding box_read_def read_failure_def by (auto split: sum.splits exn.splits if_splits)
  then obtain target cp info data where
      real: "fs_realpath fs target = Inr cp" and ok: "assertRealPathAllowed dm cp = Inr ()"
    and info: "fs_stat fs cp = Inr info" "is_regular info"
    and content: "fs_readFile fs cp = Inr data" and r: "r = read_slice args data"
    unfolding read_body_def by (auto split: if_splits)
  from real obtain q where q: "cp = abs_path q" "names q" "canonical fs q" by (rule realpath_place)
  have stat: "fs_stat fs cp = Inr (the (look fs q))" using stat_canonical [OF q(2,3)] q(1) by simp
  obtain v where v: "look fs q = Some v" using q(3) by (auto simp: canonical_def)
  have "look fs q = Some (Regular data)"
    using content stat v by (auto simp: fs_readFile_def split: node.splits)
  moreover have "allowed_place dm q" using allowed_real_path [OF assms(1) q(2)] ok q(1) by simp
  ultimately show ?thesis using q r by blast
qed

lemma mkdir_recursive_effect:
  "fs_mkdir_recursive fs p = (r, fs') \<Longrightarrow> fs' q \<noteq> fs q \<Longrightarrow> fs q = None \<and> fs' q = Some Directory"
  unfolding fs_mkdir_recursive_def by (rule mkdirs_effect)

text \<open>The target of a write that is not a link lies in the directory its parent leads to.\<close>

lemma target_place:
  assumes ts: "names (ps @ [s])" and parent: "locate fs True (abs_path ps) = Inr (Found c)"
    and no_link: "\<forall>t. fs_lstat fs (abs_path (ps @ [s])) \<noteq> Inr (Link t)"
    and at: "locate fs True (abs_path (ps @ [s])) = Inr r"
  shows "place_path r = c @ [s] \<and> look fs c = Some Directory"
proof -
  have n: "names ps" and s: "s \<noteq> []" "s \<noteq> here" "s \<noteq> up" using ts by (simp_all add: clean_seg_def)
  have "walk fs True SYMLOOP_MAX [] ps = Inr (Found c)" using parent by (simp add: locate_abs_path [OF n])
  note found = this
  have "walk fs True SYMLOOP_MAX [] (ps @ [s]) = Inr r" using at by (simp add: locate_abs_path [OF ts])
  then have dir: "look fs c = Some Directory" using walk_below_file [OF found solid_Nil, of True s] by auto
  obtain m where m: "\<And>f. walk fs f SYMLOOP_MAX [] (ps @ [s]) = walk fs f m c [s]"
    using walk_snoc [OF found dir] by blast
  then have true: "walk fs True m c [s] = Inr r"
    and false: "fs_lstat fs (abs_path (ps @ [s])) = node_at fs (walk fs False m c [s])"
    using at by (simp_all add: locate_abs_path [OF ts] fs_lstat_def)
  have "place_path r = c @ [s]"
  proof (cases "look fs (c @ [s])")
    case (Some v)
    then have "\<forall>t. v \<noteq> Link t" using no_link s false by (auto simp: node_at_def)
    then show ?thesis using true s Some by (cases v) auto
  qed (use true s in auto)
  with dir show ?thesis by blast
qed

lemma terminal_name_clean: "terminal_name name \<Longrightarrow> clean_seg name"
proof -
  assume n: "terminal_name name"
  let ?k = "length name - 4"
  have parts: "4 < length name" "drop ?k name = txt_suffix" "list_all is_digit (take ?k name)"
    using n by (simp_all add: terminal_name_def Let_def)
  then have name: "name = take ?k name @ txt_suffix" by (metis append_take_drop_id)
  have ne: "name \<noteq> []" using parts(1) by (metis list.size(3) not_less_zero)
  then have "take ?k name \<noteq> []" using parts(1) by simp
  then obtain d ds where d: "take ?k name = d # ds" by (cases "take ?k name") auto
  then have "is_digit d" using parts(3) by simp
  have "slash \<notin> set (take ?k name)" using parts(3) by (auto simp: list_all_iff is_digit_def slash_def)
  moreover have "slash \<notin> set txt_suffix" by (simp add: txt_suffix_def ascii_simps slash_def)
  ultimately have "slash \<notin> set name" using name by (metis UnE set_append)
  moreover have "hd name = d" using name d by (metis append_Cons list.sel(1))
  moreover have "d \<noteq> dot" using \<open>is_digit d\<close> by (auto simp: is_digit_def dot_def)
  ultimately show ?thesis using ne by (intro clean_segI) auto
qed

lemma resolved_is_path:
  assumes "daemon_ok dm" and "resolvePath dm p = Inr target"
  obtains ts where "names ts" "target = abs_path ts"
    "below (root_place dm) ts \<or> (\<exists>name. terminal_name name \<and> ts = terminals_place dm @ [name])"
proof -
  note dm = assms(1) [unfolded daemon_ok_def]
  define logical where "logical = (if p = [] then workspace_path else p)"
  show thesis
  proof (cases "starts_with BOX_TERMINAL_VIRTUAL_PREFIX logical")
    case True
    let ?name = "drop (length BOX_TERMINAL_VIRTUAL_PREFIX) logical"
    from True assms(2) have name: "terminal_name ?name"
      and target: "target = path_join [dm_terminalsDirectory dm, ?name]"
      by (auto simp: resolvePath_def Let_def logical_def [symmetric] split: if_splits)
    have "clean_seg ?name" using terminal_name_clean [OF name] .
    then have "target = abs_path (terminals_place dm @ [?name])"
      using dm path_join_child [OF names_clean, of "terminals_place dm" ?name] target by simp
    then show thesis using that [of "terminals_place dm @ [?name]"] dm name \<open>clean_seg ?name\<close> by auto
  next
    case False
    let ?r = "path_resolve (dm_cwd dm) [mapped_path dm logical]"
    define ts where "ts = normalize_segs False (split_on slash (foldl resolve_step (dm_cwd dm) [mapped_path dm logical]))"
    have r: "?r = abs_path ts" unfolding ts_def by (rule resolve_is_abs_path)
    have n: "names ts" unfolding ts_def names_def by (rule normalized_is_clean)
    from False assms(2) have "target = ?r" "inside (dm_cwd dm) (dm_workspaceRoot dm) ?r"
      by (auto simp: resolvePath_def Let_def logical_def [symmetric] split: if_splits)
    then have "target = abs_path ts" "below (root_place dm) ts"
      using r n dm inside_below [of "dm_cwd dm" "root_place dm" ts] by simp_all
    then show thesis using that n by blast
  qed
qed

lemma existing_none:
  assumes "existing_target env fs target = None" and "fault env Call_Lstat \<noteq> Some ''ENOENT''"
  shows "\<forall>t. fs_lstat fs target \<noteq> Inr (Link t)" and "fs_lstat fs target \<noteq> Inr Directory"
  using assms unfolding existing_target_def io_def
  by (auto split: sum.splits exn.splits option.splits if_splits)

lemma lstat_root: "fs_lstat fs (abs_path []) = Inr Directory"
proof -
  have "locate fs False (abs_path []) = Inr (Found [])" using locate_abs_path [of "[]" fs False] by simp
  then show ?thesis by (simp add: fs_lstat_def node_at_def look_def)
qed

text \<open>What a write opens, once it is past its guards, lies where it may.\<close>

lemma guarded_target:
  assumes dm: "daemon_ok dm" and ts: "names ts"
    and parent: "fs_realpath fs (path_dirname (abs_path ts)) = Inr cp"
    and ok: "assertRealPathAllowed dm cp = Inr u"
    and free: "existing_target env fs (abs_path ts) = None" "fault env Call_Lstat \<noteq> Some ''ENOENT''"
    and at: "locate fs True (abs_path ts) = Inr r"
  shows "\<exists>ps c s. ts = ps @ [s] \<and> place_path r = c @ [s] \<and> allowed_place dm (c @ [s]) \<and>
    look fs c = Some Directory \<and> locate fs True (abs_path ps) = Inr (Found c)"
proof (cases ts rule: rev_cases)
  case Nil
  then show ?thesis using existing_none(2) [OF free] lstat_root by simp
next
  case (snoc ps s)
  from parent obtain c where c: "locate fs True (path_dirname (abs_path ts)) = Inr (Found c)"
    "cp = abs_path c" "names c" by (rule realpath_place)
  have dir: "path_dirname (abs_path ts) = abs_path ps" using ts snoc dirname_abs_path [of ps s] by simp
  then have "place_path r = c @ [s] \<and> look fs c = Some Directory"
    using target_place [of ps s fs c r] ts snoc c(1) existing_none(1) [OF free] at by simp
  moreover have "allowed_place dm (c @ [s])"
    using allowed_real_path [OF dm c(3)] ok c(2) below_trans unfolding allowed_place_def by blast
  ultimately show ?thesis using c(1) snoc dir by auto
qed

lemma write_file_effect:
  assumes dm: "daemon_ok dm" and ts: "names ts"
    and parent: "fs_realpath fs (path_dirname (abs_path ts)) = Inr cp"
    and ok: "assertRealPathAllowed dm cp = Inr u"
    and free: "existing_target env fs (abs_path ts) = None" "fault env Call_Lstat \<noteq> Some ''ENOENT''"
    and run: "write_file dm env args fs (abs_path ts) = (r, fs')"
    and changed: "fs' q \<noteq> fs q"
  shows "allowed_place dm q"
proof -
  obtain failed fs2 where w: "fs_writeFile (short_write env) fs (abs_path ts) (payload_of args) = (failed, fs2)"
    by fastforce
  have "fs' = fs2" using run changed w by (auto simp: write_file_def split: option.splits)
  then obtain at where "locate fs True (abs_path ts) = Inr at" "q = place_path at"
    using writeFile_effect [OF w] changed by blast
  then show ?thesis using guarded_target [OF dm ts parent ok free] by auto
qed

text \<open>
  Property C3. A write of an agent changes no file outside of the workspace and the terminals,
  whatever its path, whatever links there are, and whichever calls fail: all that can appear
  elsewhere are empty directories where there was nothing.
\<close>

theorem writes_stay_inside:
  assumes dm: "daemon_ok dm" and env: "fault env Call_Lstat \<noteq> Some ''ENOENT''"
    and run: "box_write dm env fs args = (r, fs')" and changed: "fs' q \<noteq> fs q"
  shows "allowed_place dm q \<or> (fs q = None \<and> fs' q = Some Directory)"
proof -
  obtain w where body: "write_body dm env fs args = (w, fs')"
    using run by (auto simp: box_write_def split: prod.splits)
  note body = body [unfolded write_body_def Let_def]
  obtain target where target: "resolvePath dm (wa_path args) = Inr target"
    using body changed by (cases "resolvePath dm (wa_path args)") auto
  obtain ts where ts: "names ts" "target = abs_path ts" using dm target by (rule resolved_is_path)
  show ?thesis
  proof (cases "fault env Call_Mkdir")
    case (Some c)
    then have "fs' = snd (mkdirs fs [] (take (made_first env) (abs_segs (path_dirname target))))"
      using body target by simp
    then show ?thesis using mkdirs_effect [OF surjective_pairing] changed by blast
  next
    case no_fault: None
    obtain failed fs1 where m: "fs_mkdir_recursive fs (path_dirname target) = (failed, fs1)" by fastforce
    have dirs: "fs1 q \<noteq> fs q \<Longrightarrow> fs q = None \<and> fs1 q = Some Directory"
      using m by (rule mkdir_recursive_effect)
    note body = body [unfolded target no_fault m sum.case option.case prod.case]
    show ?thesis
    proof (cases "fs' q = fs1 q")
      case True
      then show ?thesis using dirs changed by auto
    next
      case False
      then have failed: "failed = None" using body by (cases failed) auto
      note body = body [unfolded failed option.case]
      obtain u where u: "and_then (io env Call_Realpath (fs_realpath fs1 (path_dirname target))) (assertRealPathAllowed dm) = Inr u"
        using body False by (cases "and_then (io env Call_Realpath (fs_realpath fs1 (path_dirname target))) (assertRealPathAllowed dm)") auto
      note body = body [unfolded u sum.case]
      have free: "existing_target env fs1 target = None"
        using body False by (cases "existing_target env fs1 target") auto
      note body = body [unfolded free option.case]
      from u obtain cp where "fs_realpath fs1 (path_dirname target) = Inr cp" "assertRealPathAllowed dm cp = Inr u"
        by auto
      then have "allowed_place dm q"
        using write_file_effect [OF dm ts(1) _ _ _ env] ts(2) free body False by blast
      then show ?thesis by blast
    qed
  qed
qed

subsection \<open>Reading back what was written\<close>

lemma canonical_file_update:
  assumes "solid fs c" and "look fs (c @ [s]) \<noteq> Some Directory"
  shows "canonical (fs(c @ [s] \<mapsto> Regular data)) (c @ [s])"
proof -
  have "look (fs(c @ [s] \<mapsto> Regular data)) (take k c) = look fs (take k c)" for k
  proof -
    have "length (take k c) < length (c @ [s])" by simp
    then have "take k c \<noteq> c @ [s]" by (metis less_irrefl)
    then show ?thesis by (simp add: look_def)
  qed
  then have "solid (fs(c @ [s] \<mapsto> Regular data)) c" using assms(1) by (simp add: solid_def)
  then show ?thesis by (simp add: canonical_def look_def)
qed

lemma solid_of_canonical: "canonical fs c \<Longrightarrow> look fs c = Some Directory \<Longrightarrow> solid fs c"
  by (cases c rule: rev_cases) (auto simp: canonical_def intro: solid_snoc)

text \<open>The file a write made is the one its path leads to, whether links are followed or not.\<close>

lemma file_in_place:
  assumes ts: "names (ps @ [s])" and parent: "locate fs True (abs_path ps) = Inr (Found c)"
    and dir: "look fs c = Some Directory"
    and old: "look fs (c @ [s]) \<noteq> Some Directory" "\<forall>t. look fs (c @ [s]) \<noteq> Some (Link t)"
  shows "locate (fs(c @ [s] \<mapsto> Regular data)) f (abs_path (ps @ [s])) = Inr (Found (c @ [s]))"
proof -
  let ?fs = "fs(c @ [s] \<mapsto> Regular data)"
  have n: "names ps" and s: "s \<noteq> []" "s \<noteq> here" "s \<noteq> up" using ts by (simp_all add: clean_seg_def)
  have "walk fs True SYMLOOP_MAX [] ps = Inr (Found c)" using parent by (simp add: locate_abs_path [OF n])
  then have w: "walk ?fs True SYMLOOP_MAX [] ps = Inr (Found c)"
    using walk_file_update [of fs SYMLOOP_MAX "[]" ps c "c @ [s]" data] dir old by simp
  have "look ?fs c = look fs c" by (simp add: look_def)
  then have "look ?fs c = Some Directory" using dir by simp
  then obtain m where "walk ?fs f SYMLOOP_MAX [] (ps @ [s]) = walk ?fs f m c [s]"
    using walk_snoc [OF w] by blast
  then show ?thesis using s by (simp add: locate_abs_path [OF ts] look_def)
qed

lemma writeFile_success:
  assumes run: "fs_writeFile short fs p data = (None, fs')" and no_device: "\<forall>q. fs q \<noteq> Some Special"
  shows "\<exists>at. locate fs True p = Inr at \<and> fs' = fs(place_path at \<mapsto> Regular data) \<and>
    look fs (place_path at) \<noteq> Some Directory"
proof (cases "locate fs True p")
  case (Inl e)
  then show ?thesis using run by (simp add: fs_writeFile_def)
next
  case (Inr at)
  show ?thesis
  proof (cases at)
    case (Missing q)
    then have "fs' = fs(q \<mapsto> Regular data)" using run Inr by (auto simp: fs_writeFile_def split: option.splits)
    moreover have "look fs q = None" using Inr Missing locate_missing by simp
    ultimately show ?thesis using Inr Missing by simp
  next
    case (Found q)
    then have "canonical fs q" using Inr locate_found_canonical by simp
    then obtain v where v: "look fs q = Some v" "\<forall>t. v \<noteq> Link t" by (auto simp: canonical_def)
    moreover have "v \<noteq> Special" using v(1) no_device by (auto simp: look_def split: if_splits)
    moreover have "v \<noteq> Directory" using run Inr Found v by (auto simp: fs_writeFile_def)
    ultimately obtain old where "v = Regular old" by (cases v) auto
    then have "fs' = fs(q \<mapsto> Regular data)"
      using run Inr Found v by (auto simp: fs_writeFile_def split: option.splits)
    then show ?thesis using Inr Found v \<open>v \<noteq> Directory\<close> by simp
  qed
qed

lemma mkdir_recursive_no_device:
  assumes "fs_mkdir_recursive fs p = (r, fs')" and "\<forall>q. fs q \<noteq> Some Special"
  shows "\<forall>q. fs' q \<noteq> Some Special"
  using mkdir_recursive_effect [OF assms(1)] assms(2) by (metis node.distinct(5) option.inject)

lemma written_file:
  assumes dm: "daemon_ok dm" and env: "fault env Call_Lstat \<noteq> Some ''ENOENT''"
    and no_device: "\<forall>q. fs q \<noteq> Some Special"
    and run: "box_write dm env fs args = (Write_Success ws, fs')"
  shows "\<exists>target q. resolvePath dm (wa_path args) = Inr target \<and> (\<forall>f. locate fs' f target = Inr (Found q)) \<and>
    canonical fs' q \<and> names q \<and> look fs' q = Some (Regular (payload_of args)) \<and>
    assertRealPathAllowed dm (abs_path q) = Inr () \<and> ws = write_outcome args (payload_of args)"
proof -
  have body: "write_body dm env fs args = (Inr (Write_Success ws), fs')"
    using run by (auto simp: box_write_def write_failure_def split: prod.splits sum.splits exn.splits if_splits)
  note body = body [unfolded write_body_def Let_def]
  obtain target where target: "resolvePath dm (wa_path args) = Inr target"
    using body by (cases "resolvePath dm (wa_path args)") auto
  obtain ts where ts: "names ts" "target = abs_path ts" using dm target by (rule resolved_is_path)
  have no_fault: "fault env Call_Mkdir = None" using body target by (cases "fault env Call_Mkdir") auto
  obtain failed fs1 where m: "fs_mkdir_recursive fs (path_dirname target) = (failed, fs1)" by fastforce
  note body = body [unfolded target no_fault m sum.case option.case prod.case]
  have failed: "failed = None" using body by (cases failed) auto
  note body = body [unfolded failed option.case]
  obtain u where u: "and_then (io env Call_Realpath (fs_realpath fs1 (path_dirname target))) (assertRealPathAllowed dm) = Inr u"
    using body by (cases "and_then (io env Call_Realpath (fs_realpath fs1 (path_dirname target))) (assertRealPathAllowed dm)") auto
  note body = body [unfolded u sum.case]
  have free: "existing_target env fs1 target = None"
  proof (cases "existing_target env fs1 target")
    case (Some r)
    then have "r = Inr (Write_Success ws)" using body by simp
    then show ?thesis using Some by (auto simp: existing_target_def io_def split: sum.splits exn.splits if_splits option.splits)
  qed
  note body = body [unfolded free option.case write_file_def Let_def]
  from u obtain cp where cp: "fs_realpath fs1 (path_dirname target) = Inr cp" "assertRealPathAllowed dm cp = Inr u"
    by auto
  obtain w fs2 where w: "fs_writeFile (short_write env) fs1 target (payload_of args) = (w, fs2)" by fastforce
  have "fault env Call_Open = None" using body by (cases "fault env Call_Open") auto
  note body = body [unfolded this w option.case prod.case]
  have "w = None" using body by (cases w) auto
  note body = body [unfolded this option.case]
  then have fs2: "fs2 = fs'" and ws: "ws = write_outcome args (payload_of args)"
    and post: "\<exists>x. fs_realpath fs' target = Inr x \<and> assertRealPathAllowed dm x = Inr ()" by auto
  obtain at where at: "locate fs1 True target = Inr at" and fs': "fs' = fs1(place_path at \<mapsto> Regular (payload_of args))"
    and old: "look fs1 (place_path at) \<noteq> Some Directory"
    using writeFile_success [OF w [unfolded \<open>w = None\<close>]] mkdir_recursive_no_device [OF m no_device] fs2 by blast
  obtain ps c s where g: "ts = ps @ [s]" "place_path at = c @ [s]" "look fs1 c = Some Directory"
      "locate fs1 True (abs_path ps) = Inr (Found c)"
    using guarded_target [OF dm ts(1) _ cp(2) _ env] cp(1) free at ts(2) by blast
  have "canonical fs1 c" using locate_found_canonical g(4) by blast
  then have solid: "solid fs1 c" using g(3) by (rule solid_of_canonical)
  have no_link: "\<forall>t. look fs1 (c @ [s]) \<noteq> Some (Link t)"
  proof (cases at)
    case (Found q)
    then have "canonical fs1 (c @ [s])" using at g(2) locate_found_canonical by auto
    then show ?thesis by (auto simp: canonical_def)
  next
    case (Missing q)
    then show ?thesis using at g(2) locate_missing by fastforce
  qed
  have loc: "locate fs' f target = Inr (Found (c @ [s]))" for f
    using file_in_place [OF _ g(4,3) _ no_link] ts g old fs' by auto
  have "canonical fs' (c @ [s])" using canonical_file_update [OF solid] old g(2) fs' by simp
  moreover have "names (c @ [s])" using locate_names [OF loc] by simp
  moreover have "look fs' (c @ [s]) = Some (Regular (payload_of args))" by (simp add: fs' g(2) look_def)
  moreover have "assertRealPathAllowed dm (abs_path (c @ [s])) = Inr ()"
    using post loc by (simp add: fs_realpath_def)
  ultimately show ?thesis using target loc ws by blast
qed

text \<open>
  Property C13. A text is read back as it was written: after a write of well-formed text, without
  bytes and without a hint of an encoding, that succeeded, a read of the same path gives the text,
  whole, and the same size, where no call of the read fails; the lines the write counted are the
  lines the read counts, but for empty text, which the write says has none. There are no devices
  among the files, and the write did not take a failing \<^verbatim>\<open>lstat\<close> for a file that is missing.
\<close>

theorem written_text_is_read_back:
  assumes dm: "daemon_ok dm" and env: "fault env Call_Lstat \<noteq> Some ''ENOENT''"
    and no_device: "\<forall>q. fs q \<noteq> Some Special"
    and run: "box_write dm env fs args = (Write_Success ws, fs')"
    and utf: "wa_fileBytes args = []" "wa_encodingHint args = None" "well_formed (wa_fileText args)"
    and no_faults: "\<forall>c. fault env' c = None"
  shows "\<exists>rs. box_read dm env' fs' \<lparr> ra_path = wa_path args, ra_encodingHint = None, ra_offset = None, ra_limit = None \<rparr>
      = Read_Success rs \<and>
    rs_content rs = wa_fileText args \<and> rs_fileSize rs = ws_fileSize ws \<and> \<not> rs_truncated rs \<and>
    ws_linesCreated ws = (if wa_fileText args = [] then 0 else rs_totalLines rs)"
proof -
  let ?args = "\<lparr> ra_path = wa_path args, ra_encodingHint = None, ra_offset = None, ra_limit = None \<rparr>"
  obtain target q where target: "resolvePath dm (wa_path args) = Inr target"
    and loc: "\<And>f. locate fs' f target = Inr (Found q)" and q: "canonical fs' q" "names q"
    and content: "look fs' q = Some (Regular (payload_of args))"
    and ok: "assertRealPathAllowed dm (abs_path q) = Inr ()" and ws: "ws = write_outcome args (payload_of args)"
    using written_file [OF dm env no_device run] by blast
  have payload: "payload_of args = utf8_encode (wa_fileText args)" using utf by (simp add: payload_of_def)
  have decoded: "utf8_decode (payload_of args) = wa_fileText args"
    using payload utf8_roundtrip [OF utf(3)] by simp
  have "fs_lstat fs' target = Inr (Regular (payload_of args))" "fs_realpath fs' target = Inr (abs_path q)"
    using loc content by (simp_all add: fs_lstat_def fs_realpath_def node_at_def)
  moreover have stat: "fs_stat fs' (abs_path q) = Inr (Regular (payload_of args))"
    using stat_canonical [OF q(2,1)] content by simp
  moreover have "fs_readFile fs' (abs_path q) = Inr (payload_of args)" by (simp add: fs_readFile_def stat)
  ultimately have "read_body dm env' fs' ?args = Inr (Read_Success (read_slice ?args (payload_of args)))"
    using target ok no_faults by (simp add: read_body_def known_hint_def)
  then have "box_read dm env' fs' ?args = Read_Success (read_slice ?args (payload_of args))"
    by (simp add: box_read_def)
  then show ?thesis
    by (simp add: ws read_slice_def write_outcome_def decode_text_def decoded Let_def)
qed

subsection \<open>Which paths are refused\<close>

definition first_name_dotted :: "ustr list \<Rightarrow> ustr list \<Rightarrow> bool" where
  "first_name_dotted d ts \<longleftrightarrow> length d < length ts \<and> starts_with up (ts ! length d)"

lemma inside_below_iff:
  assumes "names d" and "names ts"
  shows "inside cwd (abs_path d) (abs_path ts) \<longleftrightarrow> below d ts \<and> \<not> first_name_dotted d ts"
proof -
  have "(\<exists>us. ts = d @ us \<and> (us = [] \<or> \<not> starts_with up (hd us))) \<longleftrightarrow> below d ts \<and> \<not> first_name_dotted d ts"
  proof (cases "below d ts")
    case True
    then obtain us where "ts = d @ us" by (auto simp: below_iff)
    then show ?thesis by (cases us) (auto simp: first_name_dotted_def)
  next
    case False
    then show ?thesis by (auto simp: below_iff)
  qed
  then show ?thesis using inside_iff [OF names_clean [OF assms(1)] names_clean [OF assms(2)]] by simp
qed

lemma paths_are_walked_from_the_workspace_fact:
  assumes "daemon_ok dm" and "p \<noteq> []" and "\<not> path_isAbsolute p"
  shows "resolvePath dm p =
     (let ts = foldl (push_seg False) (root_place dm) (split_on slash p)
      in if below (root_place dm) ts \<and> \<not> first_name_dotted (root_place dm) ts
         then Inr (abs_path ts) else Inl (Path_Rejected Escapes_Root)) \<and>
     resolvePath dm (workspace_path @ slash # p) = resolvePath dm p"
proof
  note dm = assms(1) [unfolded daemon_ok_def]
  have R: "\<forall>s \<in> set (root_place dm). clean_seg s" using dm names_clean by blast
  let ?ts = "foldl (push_seg False) (root_place dm) (split_on slash p)"
  have n: "names ?ts" unfolding names_def by (rule below_is_clean [OF R])
  have r: "path_resolve (dm_cwd dm) [path_join [dm_workspaceRoot dm, p]] = abs_path ?ts"
    using resolve_join [OF R assms(2)] dm by simp
  have abs: "path_isAbsolute workspace_path" "path_isAbsolute BOX_TERMINAL_VIRTUAL_PREFIX"
    by (simp_all add: workspace_path_def BOX_TERMINAL_VIRTUAL_PREFIX_def path_isAbsolute_def ascii_simps slash_def)
  have abs_prefix: "starts_with pre p \<Longrightarrow> pre \<noteq> [] \<Longrightarrow> path_isAbsolute pre \<Longrightarrow> path_isAbsolute p" for pre
    unfolding starts_with_def path_isAbsolute_def
    by (cases p; cases pre) auto
  have plain: "\<not> starts_with BOX_TERMINAL_VIRTUAL_PREFIX p" "p \<noteq> workspace_path"
      "\<not> starts_with (workspace_path @ [slash]) p"
    using abs abs_prefix [of BOX_TERMINAL_VIRTUAL_PREFIX] abs_prefix [of "workspace_path @ [slash]"] assms(3)
    by (auto simp: path_isAbsolute_def)
  have mapped: "mapped_path dm p = path_join [dm_workspaceRoot dm, p]"
    using plain assms(3) by (simp add: mapped_path_def)
  show "resolvePath dm p =
     (let ts = ?ts
      in if below (root_place dm) ts \<and> \<not> first_name_dotted (root_place dm) ts
         then Inr (abs_path ts) else Inl (Path_Rejected Escapes_Root))"
    using assms(2) plain mapped r dm inside_below_iff [OF _ n] by (simp add: resolvePath_def Let_def)
  have "starts_with (workspace_path @ [slash]) (workspace_path @ slash # p)"
    by (simp add: starts_with_def)
  moreover have "\<not> starts_with BOX_TERMINAL_VIRTUAL_PREFIX (workspace_path @ slash # p)"
    by (simp add: workspace_path_def BOX_TERMINAL_VIRTUAL_PREFIX_def starts_with_def ascii_simps)
  moreover have "workspace_path @ slash # p \<noteq> workspace_path" "workspace_path @ slash # p \<noteq> []" by auto
  ultimately show "resolvePath dm (workspace_path @ slash # p) = resolvePath dm p"
    using assms(2) plain mapped by (simp add: resolvePath_def mapped_path_def)
qed

text \<open>
  Fact. A relative path, given as it is or after \<^verbatim>\<open>/workspace/\<close>, is walked from the workspace,
  two dots going up; it is resolved to where the walk ends when that is the workspace or below it
  and the first name below does not begin with two dots, and otherwise refused.
\<close>

theorem paths_are_walked_from_the_workspace:
  assumes "daemon_ok dm" and "p \<noteq> []" and "\<not> path_isAbsolute p"
  shows "resolvePath dm p =
     (let ts = foldl (push_seg False) (root_place dm) (split_on slash p)
      in if below (root_place dm) ts \<and> \<not> first_name_dotted (root_place dm) ts
         then Inr (abs_path ts) else Inl (Path_Rejected Escapes_Root)) \<and>
     resolvePath dm (workspace_path @ slash # p) = resolvePath dm p"
  by (rule paths_are_walked_from_the_workspace_fact [OF assms])

text \<open>A small box: \<^verbatim>\<open>/w\<close> is the workspace, with a file \<open>f\<close> and a link \<open>l\<close> to \<^verbatim>\<open>/o\<close>; \<^verbatim>\<open>/t\<close> has the terminals.\<close>

definition example_box :: daemon where
  "example_box = \<lparr> dm_cwd = ascii ''/'', dm_workspaceRoot = ascii ''/w'', dm_terminalsDirectory = ascii ''/t'' \<rparr>"

definition example_files :: files where
  "example_files =
     [ [ascii ''w''] \<mapsto> Directory, [ascii ''t''] \<mapsto> Directory, [ascii ''o''] \<mapsto> Directory,
       [ascii ''w'', ascii ''f''] \<mapsto> Regular [104, 105, 10, 195, 169],
       [ascii ''w'', ascii ''l''] \<mapsto> Link (ascii ''/o'') ]"

definition no_faults :: io_env where
  "no_faults = \<lparr> fault = \<lambda>_. None, short_write = None, made_first = 0 \<rparr>"

lemmas example_eval = example_box_def example_files_def path_eval ascii_simps look_def SYMLOOP_MAX_def

lemma example_box_ok: "daemon_ok example_box" "root_place example_box = [ascii ''w'']"
  "terminals_place example_box = [ascii ''t'']"
  by (simp_all add: daemon_ok_def root_place_def terminals_place_def example_box_def path_eval ascii_simps
      names_def clean_seg_def abs_path_def)

theorem paths_are_walked_from_the_workspace_witness:
  "resolvePath example_box (ascii ''a/../f'') = Inr (ascii ''/w/f'') \<and>
   resolvePath example_box (ascii ''../o'') = Inl (Path_Rejected Escapes_Root)"
proof -
  have p: "ascii ''a/../f'' \<noteq> []" "\<not> path_isAbsolute (ascii ''a/../f'')"
      "ascii ''../o'' \<noteq> []" "\<not> path_isAbsolute (ascii ''../o'')"
    by (simp_all add: ascii_simps path_isAbsolute_def slash_def)
  show ?thesis
    using paths_are_walked_from_the_workspace [OF example_box_ok(1) p(1,2)]
      paths_are_walked_from_the_workspace [OF example_box_ok(1) p(3,4)]
    by (simp add: example_box_ok(2) path_eval ascii_simps below_def first_name_dotted_def abs_path_def)
qed

definition example_read :: read_args where
  "example_read = \<lparr> ra_path = ascii ''/workspace/f'', ra_encodingHint = None, ra_offset = Some 1, ra_limit = None \<rparr>"

lemma workspace_f: "ascii ''/workspace/f'' = workspace_path @ slash # ascii ''f''"
  by (simp add: workspace_path_def ascii_simps slash_def)

lemma read_steps:
  "resolvePath example_box (ascii ''/workspace/f'') = Inr (ascii ''/w/f'')"
  "locate example_files follow (ascii ''/w/f'') = Inr (Found [ascii ''w'', ascii ''f''])"
  "look example_files [ascii ''w'', ascii ''f''] = Some (Regular [104, 105, 10, 195, 169])"
  "abs_path [ascii ''w'', ascii ''f''] = ascii ''/w/f''"
  "assertRealPathAllowed example_box (ascii ''/w/f'') = Inr ()"
proof -
  have f: "ascii ''f'' \<noteq> []" "\<not> path_isAbsolute (ascii ''f'')"
    by (simp_all add: ascii_simps path_isAbsolute_def slash_def)
  show "resolvePath example_box (ascii ''/workspace/f'') = Inr (ascii ''/w/f'')"
    using paths_are_walked_from_the_workspace_fact [OF example_box_ok(1) f]
    by (simp add: workspace_f example_box_ok(2))
       (simp add: path_eval ascii_simps below_def first_name_dotted_def abs_path_def)
qed (simp_all add: example_eval locate_def abs_path_def assertRealPathAllowed_def inside_def)

lemma example_read_result:
  "box_read example_box no_faults example_files example_read =
   Read_Success \<lparr> rs_content = [233], rs_totalLines = 2, rs_fileSize = 5, rs_truncated = True, rs_rangeApplied = True \<rparr>"
proof -
  have "read_slice example_read [104, 105, 10, 195, 169] =
      \<lparr> rs_content = [233], rs_totalLines = 2, rs_fileSize = 5, rs_truncated = True, rs_rangeApplied = True \<rparr>"
    by (simp add: example_read_def read_slice_def decode_text_def utf8_decode_def point_units_def newline_def)
  moreover have "ra_path example_read = ascii ''/workspace/f''" "ra_encodingHint example_read = None"
    by (simp_all add: example_read_def)
  moreover have "fault no_faults c = None" for c by (simp add: no_faults_def)
  ultimately show ?thesis
    by (simp add: box_read_def read_body_def read_steps fs_lstat_def fs_stat_def fs_realpath_def
        fs_readFile_def node_at_def known_hint_def io_def)
qed

theorem reads_stay_inside_witness:
  "\<exists>q data. allowed_place example_box q \<and> canonical example_files q \<and>
    look example_files q = Some (Regular data) \<and>
    \<lparr> rs_content = [233], rs_totalLines = 2, rs_fileSize = 5, rs_truncated = True, rs_rangeApplied = True \<rparr> =
      read_slice example_read data"
  by (rule reads_stay_inside [OF example_box_ok(1) example_read_result])

definition example_write :: "ustr \<Rightarrow> write_args" where
  "example_write p = \<lparr> wa_path = p, wa_fileBytes = [], wa_fileText = [233], wa_encodingHint = None, wa_returnContent = False \<rparr>"

definition made_outside :: files where
  "made_outside = example_files([ascii ''o'', ascii ''n''] \<mapsto> Directory)"

lemma outside_steps:
  "resolvePath example_box (ascii ''l/n/f'') = Inr (ascii ''/w/l/n/f'')"
  "path_dirname (ascii ''/w/l/n/f'') = ascii ''/w/l/n''"
  "fs_mkdir_recursive example_files (ascii ''/w/l/n'') = (None, made_outside)"
  "fs_realpath made_outside (ascii ''/w/l/n'') = Inr (ascii ''/o/n'')"
  "assertRealPathAllowed example_box (ascii ''/o/n'') = Inl (Path_Rejected Escapes_Roots)"
proof -
  show "resolvePath example_box (ascii ''l/n/f'') = Inr (ascii ''/w/l/n/f'')"
    using paths_are_walked_from_the_workspace_fact [OF example_box_ok(1), of "ascii ''l/n/f''"]
    by (simp add: example_box_ok(2) path_eval ascii_simps below_def first_name_dotted_def abs_path_def)
  show "path_dirname (ascii ''/w/l/n/f'') = ascii ''/w/l/n''" by (simp add: path_eval ascii_simps)
  show "fs_mkdir_recursive example_files (ascii ''/w/l/n'') = (None, made_outside)"
    by (simp add: example_eval fs_mkdir_recursive_def mkdir_one_def made_outside_def)
  show "fs_realpath made_outside (ascii ''/w/l/n'') = Inr (ascii ''/o/n'')"
    by (simp add: example_eval made_outside_def fs_realpath_def locate_def abs_path_def)
  show "assertRealPathAllowed example_box (ascii ''/o/n'') = Inl (Path_Rejected Escapes_Roots)"
    by (simp add: example_eval assertRealPathAllowed_def inside_def)
qed

lemma rejected_run:
  "box_write example_box no_faults example_files (example_write (ascii ''l/n/f'')) =
     (Write_Rejected Escapes_Roots, made_outside)"
proof -
  have "wa_path (example_write (ascii ''l/n/f'')) = ascii ''l/n/f''" by (simp add: example_write_def)
  moreover have "fault no_faults c = None" for c by (simp add: no_faults_def)
  ultimately show ?thesis
    by (simp add: box_write_def write_body_def outside_steps io_def write_failure_def)
qed

text \<open>
  Fact. A write that is rejected can leave directories outside of the workspace: the parent is made
  through a link before it is looked at.
\<close>

theorem rejected_write_makes_directories:
  "box_write example_box no_faults example_files (example_write (ascii ''l/n/f'')) =
     (Write_Rejected Escapes_Roots, made_outside) \<and>
   example_files [ascii ''o'', ascii ''n''] = None \<and> made_outside [ascii ''o'', ascii ''n''] = Some Directory \<and>
   \<not> allowed_place example_box [ascii ''o'', ascii ''n'']"
proof -
  have "\<not> allowed_place example_box [ascii ''o'', ascii ''n'']"
    by (simp add: allowed_place_def example_box_ok below_def ascii_simps)
  moreover have "example_files [ascii ''o'', ascii ''n''] = None"
    by (simp add: example_files_def ascii_simps)
  ultimately show ?thesis using rejected_run by (simp add: made_outside_def)
qed

theorem writes_stay_inside_witness:
  "allowed_place example_box [ascii ''o'', ascii ''n''] \<or>
   (example_files [ascii ''o'', ascii ''n''] = None \<and> made_outside [ascii ''o'', ascii ''n''] = Some Directory)"
proof (rule writes_stay_inside [OF example_box_ok(1)])
  show "fault no_faults Call_Lstat \<noteq> Some ''ENOENT''" by (simp add: no_faults_def)
  show "box_write example_box no_faults example_files (example_write (ascii ''l/n/f'')) =
     (Write_Rejected Escapes_Roots, made_outside)"
    by (rule rejected_run)
  show "made_outside [ascii ''o'', ascii ''n''] \<noteq> example_files [ascii ''o'', ascii ''n'']"
    by (simp add: made_outside_def example_files_def ascii_simps)
qed

definition rewritten_files :: files where
  "rewritten_files = example_files([ascii ''w'', ascii ''f''] \<mapsto> Regular [195, 169])"

lemma rewrite_steps:
  "resolvePath example_box (ascii ''f'') = Inr (ascii ''/w/f'')"
  "path_dirname (ascii ''/w/f'') = ascii ''/w''"
  "fs_mkdir_recursive example_files (ascii ''/w'') = (None, example_files)"
  "fs_realpath example_files (ascii ''/w'') = Inr (ascii ''/w'')"
  "assertRealPathAllowed example_box (ascii ''/w'') = Inr ()"
  "fs_writeFile None example_files (ascii ''/w/f'') [195, 169] = (None, rewritten_files)"
  "fs_realpath rewritten_files (ascii ''/w/f'') = Inr (ascii ''/w/f'')"
  "payload_of (example_write (ascii ''f'')) = [195, 169]"
  "write_outcome (example_write (ascii ''f'')) [195, 169] = \<lparr> ws_linesCreated = 1, ws_fileSize = 2, ws_content = None \<rparr>"
proof -
  show "resolvePath example_box (ascii ''f'') = Inr (ascii ''/w/f'')"
  proof -
    have f: "ascii ''f'' \<noteq> []" "\<not> path_isAbsolute (ascii ''f'')"
      by (simp_all add: ascii_simps path_isAbsolute_def slash_def)
    show ?thesis
      using paths_are_walked_from_the_workspace_fact [OF example_box_ok(1) f] read_steps(1) workspace_f by metis
  qed
  show "path_dirname (ascii ''/w/f'') = ascii ''/w''" by (simp add: path_eval ascii_simps)
  show "fs_mkdir_recursive example_files (ascii ''/w'') = (None, example_files)"
    by (simp add: example_eval fs_mkdir_recursive_def mkdir_one_def)
  show "fs_realpath example_files (ascii ''/w'') = Inr (ascii ''/w'')"
    by (simp add: example_eval fs_realpath_def locate_def abs_path_def)
  show "assertRealPathAllowed example_box (ascii ''/w'') = Inr ()"
    by (simp add: example_eval assertRealPathAllowed_def inside_def)
  show "fs_writeFile None example_files (ascii ''/w/f'') [195, 169] = (None, rewritten_files)"
    by (simp add: fs_writeFile_def read_steps rewritten_files_def)
  show "fs_realpath rewritten_files (ascii ''/w/f'') = Inr (ascii ''/w/f'')"
    by (simp add: example_eval rewritten_files_def fs_realpath_def locate_def abs_path_def)
qed (simp_all add: payload_of_def example_write_def utf8_encode_def encode_point_def is_high_def is_low_def
    write_outcome_def utf8_decode_def point_units_def newline_def)

lemma rewrite_run:
  "box_write example_box no_faults example_files (example_write (ascii ''f'')) =
     (Write_Success \<lparr> ws_linesCreated = 1, ws_fileSize = 2, ws_content = None \<rparr>, rewritten_files)"
proof -
  have "wa_path (example_write (ascii ''f'')) = ascii ''f''" by (simp add: example_write_def)
  moreover have "fault no_faults c = None" "short_write no_faults = None" for c by (simp_all add: no_faults_def)
  moreover have "fs_lstat example_files (ascii ''/w/f'') = Inr (Regular [104, 105, 10, 195, 169])"
    by (simp add: fs_lstat_def node_at_def read_steps)
  ultimately show ?thesis
    by (simp add: box_write_def write_body_def write_file_def existing_target_def rewrite_steps read_steps io_def)
qed

theorem written_text_is_read_back_witness:
  "\<exists>rs. box_read example_box no_faults rewritten_files
       \<lparr> ra_path = wa_path (example_write (ascii ''f'')), ra_encodingHint = None, ra_offset = None, ra_limit = None \<rparr>
      = Read_Success rs \<and> rs_content rs = [233] \<and> rs_fileSize rs = 2"
proof -
  have "fault no_faults Call_Lstat \<noteq> Some ''ENOENT''" "\<forall>c. fault no_faults c = None"
    by (simp_all add: no_faults_def)
  moreover have "\<forall>q. example_files q \<noteq> Some Special" by (simp add: example_files_def)
  moreover have "wa_fileBytes (example_write (ascii ''f'')) = []" "wa_encodingHint (example_write (ascii ''f'')) = None"
      "wa_fileText (example_write (ascii ''f'')) = [233]" "well_formed (wa_fileText (example_write (ascii ''f'')))"
    by (simp_all add: example_write_def well_formed_def is_high_def is_low_def)
  ultimately show ?thesis
    using written_text_is_read_back [OF example_box_ok(1) _ _ rewrite_run, of no_faults] by auto
qed

text \<open>
  Fact. A name in the workspace that begins with two dots is taken for a way out: the path lies
  below the workspace and is refused.
\<close>

theorem dotted_name_is_refused:
  assumes "daemon_ok dm" and "clean_seg name" and "starts_with up name"
  shows "resolvePath dm name = Inl (Path_Rejected Escapes_Root) \<and>
    path_resolve (dm_cwd dm) [path_join [dm_workspaceRoot dm, name]] = abs_path (root_place dm @ [name])"
proof -
  have dm: "names (root_place dm)" "dm_workspaceRoot dm = abs_path (root_place dm)"
    using assms(1) by (simp_all add: daemon_ok_def)
  have R: "\<forall>s \<in> set (root_place dm). clean_seg s" using dm(1) by (rule names_clean)
  have name: "name \<noteq> []" "slash \<notin> set name" using assms(2) by (simp_all add: clean_seg_def)
  then have "\<not> path_isAbsolute name" by (metis list.set_sel(1) path_isAbsolute_def)
  moreover have "foldl (push_seg False) (root_place dm) (split_on slash name) = root_place dm @ [name]"
    using assms(2) name by (simp add: split_on_absent)
  ultimately show ?thesis
    using paths_are_walked_from_the_workspace_fact [OF assms(1) name(1)] assms(3) resolve_join [OF R name(1)] dm(2)
    by (simp add: first_name_dotted_def)
qed

theorem dotted_name_is_refused_witness:
  "resolvePath example_box (ascii ''..a'') = Inl (Path_Rejected Escapes_Root)"
proof -
  have "clean_seg (ascii ''..a'')" "starts_with up (ascii ''..a'')"
    by (simp_all add: clean_seg_def starts_with_def ascii_simps dot_def slash_def)
  then show ?thesis using dotted_name_is_refused [OF example_box_ok(1)] by blast
qed

end
