(* ===== verification/Box_Shells.thy ===== *)
theory Box_Shells
  imports Box_Daemon
begin

text \<open>
  The shells of the box (\<^verbatim>\<open>box-exec-daemon/server.ts\<close>): the environment they get, the background
  shells with the files that keep their output, and input for them.

  A shell has the number of its file. Its output, its end, a write that is done and a child that
  could not be started are events; the writes of one file wait in a chain of promises, so they are
  a queue of which the first is under way, and one that fails breaks the chain. What was put into
  the chain is kept as history.
\<close>

subsection \<open>The environment\<close>

text \<open>
  \<^verbatim>\<open>key in request.env\<close> also finds what every object inherits.
\<close>

definition inherited_names :: "ustr set" where
  "inherited_names = ascii ` {''constructor'', ''__defineGetter__'', ''__defineSetter__'', ''hasOwnProperty'',
     ''__lookupGetter__'', ''__lookupSetter__'', ''isPrototypeOf'', ''propertyIsEnumerable'', ''toString'',
     ''valueOf'', ''__proto__'', ''toLocaleString''}"

definition in_object :: "ustr \<Rightarrow> (ustr, ustr) js_map \<Rightarrow> bool" where
  "in_object k m \<longleftrightarrow> k \<in> fst ` set m \<or> k \<in> inherited_names"

definition drop_absent :: "(ustr, ustr) js_map \<Rightarrow> (ustr, ustr) js_map \<Rightarrow> (ustr, ustr) js_map" where
  "drop_absent request env = filter (\<lambda>(k, _). in_object k request) env"

text \<open>An object takes no text for its prototype: the assignment then has no effect.\<close>

definition assign :: "(ustr, ustr) js_map \<Rightarrow> ustr \<times> ustr \<Rightarrow> (ustr, ustr) js_map" where
  "assign m kv = (if fst kv = ascii ''__proto__'' then m else jm_set m (fst kv) (snd kv))"

text \<open>The new environment, and how many variables were set and removed.\<close>

definition applyEnvironment ::
  "bool \<Rightarrow> (ustr, ustr) js_map \<Rightarrow> (ustr, ustr) js_map \<Rightarrow> (ustr, ustr) js_map \<times> nat \<times> nat" where
  "applyEnvironment replace request env =
     (let kept = (if replace then drop_absent request env else env)
      in (foldl assign kept request, length request, length env - length kept))"

subsection \<open>Background shells\<close>

record shell =
  sh_terminalPath :: ustr
  sh_cwd :: ustr
  sh_queue :: "ustr list"    \<comment> \<open>what the chain has still to write\<close>
  sh_file :: "ustr list"     \<comment> \<open>what it has written\<close>
  sh_broken :: bool
  sh_listened :: "string list" \<comment> \<open>the events of the child with a listener\<close>
  sh_caught :: bool          \<comment> \<open>the chain ends in a handler of rejections\<close>
  sh_exited :: bool
  sh_closed :: bool
  sh_header :: ustr
  sh_output :: "ustr list"
  sh_footer :: "ustr option"

record runtime =
  rt_daemon :: daemon
  rt_environment :: "(ustr, ustr) js_map"
  rt_nextShellId :: nat
  rt_shells :: "nat \<Rightarrow> shell option"
  rt_background :: "nat list"
  rt_killed :: "nat list"
  rt_input :: "(nat \<times> ustr) list"
  rt_ended :: bool            \<comment> \<open>the process of the daemon is gone\<close>

fun shell_number :: "nat \<Rightarrow> ustr" where
  "shell_number n = (if n < 10 then [48 + n] else shell_number (n div 10) @ [48 + n mod 10])"

declare shell_number.simps [simp del]

text \<open>What the process of the daemon itself listens to.\<close>

definition process_listened :: "string list" where
  "process_listened = [''SIGINT'', ''SIGTERM'']"

definition terminal_file :: "nat \<Rightarrow> ustr" where
  "terminal_file n = shell_number n @ txt_suffix"

definition new_runtime :: "daemon \<Rightarrow> (ustr, ustr) js_map \<Rightarrow> runtime" where
  "new_runtime dm env =
     \<lparr> rt_daemon = dm, rt_environment = env, rt_nextShellId = 1, rt_shells = \<lambda>_. None,
       rt_background = [], rt_killed = [], rt_input = [], rt_ended = False \<rparr>"

datatype spawn_result = Spawned nat | Spawn_Failed

text \<open>
  The directory of the terminals is made before the shell gets its number; \<^verbatim>\<open>spawn\<close> may throw after
  that. Of the events of the child itself the code listens to its close, besides the data of its
  two channels.
\<close>

definition spawnBackground :: "ustr \<Rightarrow> ustr \<Rightarrow> bool \<Rightarrow> bool \<Rightarrow> runtime \<Rightarrow> spawn_result \<times> runtime" where
  "spawnBackground workingDirectory header dir_made spawn_throws rt =
     (case resolvePath (rt_daemon rt) workingDirectory of
        Inl e \<Rightarrow> (Spawn_Failed, rt)
      | Inr cwd \<Rightarrow>
          if \<not> dir_made then (Spawn_Failed, rt)
          else if spawn_throws then (Spawn_Failed, rt\<lparr>rt_nextShellId := rt_nextShellId rt + 1\<rparr>)
          else
            let n = rt_nextShellId rt;
                sh = \<lparr> sh_terminalPath = path_join [dm_terminalsDirectory (rt_daemon rt), terminal_file n],
                       sh_cwd = cwd, sh_queue = [header], sh_file = [], sh_broken = False,
                       sh_listened = [''close''], sh_caught = False, sh_exited = False, sh_closed = False, sh_header = header, sh_output = [], sh_footer = None \<rparr>
            in (Spawned n, rt\<lparr>rt_nextShellId := n + 1, rt_shells := (rt_shells rt)(n \<mapsto> sh),
                              rt_background := rt_background rt @ [n]\<rparr>))"

text \<open>\<^verbatim>\<open>then\<close> with one argument makes a promise of its own, without a handler of rejections.\<close>

definition queueWrite :: "ustr \<Rightarrow> shell \<Rightarrow> shell" where
  "queueWrite data sh =
     (if sh_broken sh then sh\<lparr>sh_caught := False\<rparr>
      else sh\<lparr>sh_caught := False, sh_queue := sh_queue sh @ [data]\<rparr>)"

definition on_data :: "ustr \<Rightarrow> shell \<Rightarrow> shell" where
  "on_data data sh = queueWrite data (sh\<lparr>sh_output := sh_output sh @ [data]\<rparr>)"

definition on_close :: "ustr \<Rightarrow> shell \<Rightarrow> shell" where
  "on_close footer sh = queueWrite footer (sh\<lparr>sh_exited := True, sh_closed := True, sh_footer := Some footer\<rparr>)"

definition write_done :: "bool \<Rightarrow> shell \<Rightarrow> shell" where
  "write_done ok sh =
     (case sh_queue sh of
        [] \<Rightarrow> sh
      | data # rest \<Rightarrow>
          (if ok then sh\<lparr>sh_file := sh_file sh @ [data], sh_queue := rest\<rparr>
           else sh\<lparr>sh_queue := [], sh_broken := True\<rparr>))"

text \<open>
  Input for a shell: what the file's length was found to be, and whether the pipe took the input,
  are answers of the system.
\<close>

datatype stdin_result = Stdin_Written nat | Stdin_Not_Running | Stdin_Failed string

definition writeStdin ::
  "nat \<Rightarrow> ustr \<Rightarrow> string + nat \<Rightarrow> string option \<Rightarrow> runtime \<Rightarrow> stdin_result \<times> runtime" where
  "writeStdin n chars size_found pipe_error rt =
     (if n \<notin> set (rt_background rt) then (Stdin_Not_Running, rt)
      else case size_found of
             Inl e \<Rightarrow> (Stdin_Failed e, rt)
           | Inr before \<Rightarrow>
               (case pipe_error of
                  Some e \<Rightarrow> (Stdin_Failed e, rt)
                | None \<Rightarrow> (Stdin_Written before, rt\<lparr>rt_input := rt_input rt @ [(n, chars)]\<rparr>)))"

text \<open>A child that has ended is not signalled.\<close>

definition kill_shell :: "nat \<Rightarrow> runtime \<Rightarrow> runtime" where
  "kill_shell n rt =
     (case rt_shells rt n of
        None \<Rightarrow> rt
      | Some sh \<Rightarrow> if sh_exited sh then rt else rt\<lparr>rt_killed := rt_killed rt @ [n]\<rparr>)"

definition stop :: "runtime \<Rightarrow> runtime" where
  "stop rt = (foldl (\<lambda>r n. kill_shell n r) rt (rt_background rt))\<lparr>rt_background := []\<rparr>"

definition update_shell :: "nat \<Rightarrow> (shell \<Rightarrow> shell) \<Rightarrow> runtime \<Rightarrow> runtime" where
  "update_shell n f rt =
     (case rt_shells rt n of None \<Rightarrow> rt | Some sh \<Rightarrow> rt\<lparr>rt_shells := (rt_shells rt)(n \<mapsto> f sh)\<rparr>)"

definition running :: "runtime \<Rightarrow> nat \<Rightarrow> bool" where
  "running rt n \<longleftrightarrow> (\<exists>sh. rt_shells rt n = Some sh \<and> \<not> sh_closed sh)"

definition writing :: "runtime \<Rightarrow> nat \<Rightarrow> bool" where
  "writing rt n \<longleftrightarrow> (\<exists>sh. rt_shells rt n = Some sh \<and> sh_queue sh \<noteq> [])"

text \<open>
  The name of an event of the process that nothing in the code stands between: without a listener
  its default is to end the process.
\<close>

definition raised :: "string \<Rightarrow> runtime \<Rightarrow> runtime" where
  "raised name rt = (if name \<in> set process_listened then rt else rt\<lparr>rt_ended := True\<rparr>)"

text \<open>An \<^verbatim>\<open>error\<close> event without a listener is an exception that is thrown where the event comes.\<close>

definition child_error :: "nat \<Rightarrow> runtime \<Rightarrow> runtime" where
  "child_error n rt =
     (case rt_shells rt n of
        None \<Rightarrow> rt
      | Some sh \<Rightarrow> if ''error'' \<in> set (sh_listened sh) then rt else raised ''uncaughtException'' rt)"

definition chain_rejected :: "nat \<Rightarrow> runtime \<Rightarrow> runtime" where
  "chain_rejected n rt =
     (case rt_shells rt n of
        None \<Rightarrow> rt
      | Some sh \<Rightarrow> if sh_caught sh then rt else raised ''unhandledRejection'' rt)"

datatype event =
    Update_Environment bool "(ustr, ustr) js_map"
  | Spawn ustr ustr bool bool
  | Data nat ustr
  | Exit nat
  | Close nat ustr
  | Write_Done nat bool
  | Stdin nat ustr "string + nat" "string option"
  | Stop
  | Child_Error nat

text \<open>
  A child has output and ends while it runs. One that could not be started says so by an \<^verbatim>\<open>error\<close>
  event. A write that fails rejects the chain.
\<close>

fun handle :: "event \<Rightarrow> runtime \<Rightarrow> runtime" where
  "handle (Update_Environment replace request) rt =
     rt\<lparr>rt_environment := fst (applyEnvironment replace request (rt_environment rt))\<rparr>"
| "handle (Spawn wd header dir_made spawn_throws) rt = snd (spawnBackground wd header dir_made spawn_throws rt)"
| "handle (Data n data) rt = (if running rt n then update_shell n (on_data data) rt else rt)"
| "handle (Close n footer) rt =
     (if running rt n
      then (update_shell n (on_close footer) rt)\<lparr>rt_background := set_remove (rt_background rt) n\<rparr>
      else rt)"
| "handle (Exit n) rt = (if running rt n then update_shell n (sh_exited_update (\<lambda>_. True)) rt else rt)"
| "handle (Write_Done n ok) rt =
     (if ok \<or> \<not> writing rt n then update_shell n (write_done ok) rt
      else chain_rejected n (update_shell n (write_done ok) rt))"
| "handle (Stdin n chars size_found pipe_error) rt = snd (writeStdin n chars size_found pipe_error rt)"
| "handle Stop rt = stop rt"
| "handle (Child_Error n) rt = (if running rt n then child_error n rt else rt)"

definition step :: "runtime \<Rightarrow> event \<Rightarrow> runtime" where
  "step rt ev = (if rt_ended rt then rt else handle ev rt)"

subsection \<open>Terminal files\<close>

definition history :: "shell \<Rightarrow> ustr list" where
  "history sh = sh_header sh # sh_output sh @ (case sh_footer sh of None \<Rightarrow> [] | Some f \<Rightarrow> [f])"

definition shell_ok :: "shell \<Rightarrow> bool" where
  "shell_ok sh \<longleftrightarrow>
     (sh_closed sh \<longleftrightarrow> sh_footer sh \<noteq> None) \<and> sh_listened sh = [''close''] \<and> \<not> sh_caught sh \<and> prefix (sh_file sh) (history sh) \<and>
     (if sh_broken sh then sh_queue sh = [] else sh_file sh @ sh_queue sh = history sh)"

lemma prefix_snoc_more: "prefix xs ys \<Longrightarrow> prefix xs (ys @ [z])"
  by (auto simp: prefix_def)

lemma shell_ok_data:
  assumes "shell_ok sh" and "\<not> sh_closed sh"
  shows "shell_ok (on_data data sh)"
proof -
  have "history (on_data data sh) = history sh @ [data]"
    using assms by (auto simp: shell_ok_def history_def on_data_def queueWrite_def)
  then show ?thesis using assms prefix_snoc_more
    by (auto simp: shell_ok_def on_data_def queueWrite_def)
qed

lemma shell_ok_close:
  assumes "shell_ok sh" and "\<not> sh_closed sh"
  shows "shell_ok (on_close footer sh)"
proof -
  have "history (on_close footer sh) = history sh @ [footer]"
    using assms by (auto simp: shell_ok_def history_def on_close_def queueWrite_def)
  then show ?thesis using assms prefix_snoc_more
    by (auto simp: shell_ok_def on_close_def queueWrite_def)
qed

lemma shell_ok_write:
  assumes "shell_ok sh"
  shows "shell_ok (write_done ok sh)"
proof (cases "sh_queue sh")
  case (Cons data rest)
  have same: "history (write_done ok sh) = history sh"
    by (simp add: history_def write_done_def split: list.splits)
  have "sh_file sh @ data # rest = history sh" "\<not> sh_broken sh"
    using assms Cons by (auto simp: shell_ok_def split: if_splits)
  then have "prefix (sh_file sh @ [data]) (history sh)" by (metis append.assoc append_Cons append_Nil prefixI)
  then show ?thesis using assms Cons same by (auto simp: shell_ok_def write_done_def)
qed (use assms in \<open>simp add: write_done_def\<close>)

lemmas shell_fields = on_data_def on_close_def queueWrite_def write_done_def

lemma write_done_fields [simp]:
  "sh_terminalPath (write_done ok sh) = sh_terminalPath sh" "sh_closed (write_done ok sh) = sh_closed sh"
  by (simp_all add: write_done_def split: list.splits)

lemma data_fields [simp]:
  "sh_terminalPath (on_data data sh) = sh_terminalPath sh" "sh_closed (on_data data sh) = sh_closed sh"
  by (simp_all add: on_data_def queueWrite_def)

lemma closed_fields [simp]:
  "sh_terminalPath (on_close footer sh) = sh_terminalPath sh" "sh_closed (on_close footer sh)"
  by (simp_all add: on_close_def queueWrite_def)

definition shells_ok :: "daemon \<Rightarrow> runtime \<Rightarrow> bool" where
  "shells_ok dm rt \<longleftrightarrow> rt_daemon rt = dm \<and> distinct (rt_background rt) \<and>
     (\<forall>n \<in> set (rt_background rt). running rt n) \<and>
     (\<forall>n sh. rt_shells rt n = Some sh \<longrightarrow>
        n < rt_nextShellId rt \<and> shell_ok sh \<and>
        sh_terminalPath sh = path_join [dm_terminalsDirectory dm, terminal_file n])"

lemma shells_okD:
  assumes "shells_ok dm rt"
  shows "rt_daemon rt = dm" "distinct (rt_background rt)" "\<And>n. n \<in> set (rt_background rt) \<Longrightarrow> running rt n"
    "\<And>n sh. rt_shells rt n = Some sh \<Longrightarrow> n < rt_nextShellId rt \<and> shell_ok sh \<and>
        sh_terminalPath sh = path_join [dm_terminalsDirectory dm, terminal_file n]"
  using assms by (simp_all add: shells_ok_def)

lemma shells_ok_spawn:
  assumes "shells_ok dm rt"
  shows "shells_ok dm (snd (spawnBackground wd header made throws rt))"
proof (cases "resolvePath (rt_daemon rt) wd")
  case (Inr cwd)
  note ok = shells_okD [OF assms]
  have fresh: "rt_nextShellId rt \<notin> set (rt_background rt)"
    using ok(3,4) unfolding running_def by (metis less_irrefl)
  have "shell_ok \<lparr> sh_terminalPath = p, sh_cwd = cwd, sh_queue = [header], sh_file = [], sh_broken = False,
      sh_listened = [''close''], sh_caught = False, sh_exited = False, sh_closed = False, sh_header = header, sh_output = [], sh_footer = None \<rparr>" for p
    by (simp add: shell_ok_def history_def)
  moreover have "rt_shells rt m = Some sh \<Longrightarrow> m < Suc (rt_nextShellId rt)" for m sh
    using ok(4) less_SucI by blast
  ultimately show ?thesis
    using ok fresh Inr unfolding shells_ok_def spawnBackground_def running_def
    by (auto simp: Let_def)
qed (use assms in \<open>simp add: spawnBackground_def\<close>)

lemma shells_ok_update:
  assumes ok: "shells_ok dm rt" and sh: "rt_shells rt n = Some sh"
    and f: "shell_ok (f sh)" "sh_terminalPath (f sh) = sh_terminalPath sh" "sh_closed (f sh) = sh_closed sh"
  shows "shells_ok dm (update_shell n f rt)"
proof -
  have "running (update_shell n f rt) m = running rt m" for m
    using sh f(3) by (auto simp: update_shell_def running_def)
  then show ?thesis using shells_okD [OF ok] sh f unfolding shells_ok_def by (auto simp: update_shell_def)
qed

lemma shells_ok_close:
  assumes ok: "shells_ok dm rt" and sh: "rt_shells rt n = Some sh" "\<not> sh_closed sh"
  shows "shells_ok dm ((update_shell n (on_close footer) rt)\<lparr>rt_background := set_remove (rt_background rt) n\<rparr>)"
proof -
  have "m \<noteq> n \<Longrightarrow> running ((update_shell n (on_close footer) rt)\<lparr>rt_background := b\<rparr>) m = running rt m" for m b
    using sh by (auto simp: update_shell_def running_def)
  moreover have "shell_ok (on_close footer sh)" using shells_okD(4) [OF ok sh(1)] sh(2) shell_ok_close by blast
  ultimately show ?thesis using shells_okD [OF ok] sh unfolding shells_ok_def
    by (auto simp: update_shell_def)
qed

lemma kill_fields [simp]:
  "rt_daemon (kill_shell n rt) = rt_daemon rt" "rt_shells (kill_shell n rt) = rt_shells rt"
  "rt_nextShellId (kill_shell n rt) = rt_nextShellId rt" "rt_background (kill_shell n rt) = rt_background rt"
  by (simp_all add: kill_shell_def split: option.splits)

lemma kill_all_fields [simp]:
  "rt_daemon (foldl (\<lambda>r n. kill_shell n r) rt ns) = rt_daemon rt"
  "rt_shells (foldl (\<lambda>r n. kill_shell n r) rt ns) = rt_shells rt"
  "rt_nextShellId (foldl (\<lambda>r n. kill_shell n r) rt ns) = rt_nextShellId rt"
  by (induction ns arbitrary: rt) simp_all

lemma shells_ok_ended: "shells_ok dm (rt\<lparr>rt_ended := b\<rparr>) = shells_ok dm rt"
  by (simp add: shells_ok_def running_def)

lemma raised_ok: "shells_ok dm (raised name rt) = shells_ok dm rt"
  by (simp add: raised_def shells_ok_ended)

lemma shells_ok_raised [simp]:
  "shells_ok dm (child_error n rt) = shells_ok dm rt" "shells_ok dm (chain_rejected n rt) = shells_ok dm rt"
  by (simp_all add: child_error_def chain_rejected_def raised_ok split: option.splits)

lemma shells_ok_handle:
  assumes ok: "shells_ok dm rt"
  shows "shells_ok dm (handle ev rt)"
proof (cases ev)
  case (Data n data)
  show ?thesis
  proof (cases "running rt n")
    case True
    then obtain sh where sh: "rt_shells rt n = Some sh" "\<not> sh_closed sh" by (auto simp: running_def)
    then have "shell_ok (on_data data sh)" using shells_okD(4) [OF ok] shell_ok_data by blast
    then show ?thesis using shells_ok_update [OF ok sh(1)] Data True by simp
  qed (use ok Data in simp)
next
  case (Close n footer)
  then show ?thesis using shells_ok_close [OF ok] ok by (auto simp: running_def)
next
  case (Write_Done n success)
  have "shells_ok dm (update_shell n (write_done success) rt)"
    using shells_ok_update [OF ok] shells_okD(4) [OF ok] shell_ok_write ok
    by (cases "rt_shells rt n") (auto simp: update_shell_def)
  then show ?thesis using Write_Done by (cases success) simp_all
next
  case (Exit n)
  have "shells_ok dm (update_shell n (sh_exited_update (\<lambda>_. True)) rt)" if sh: "rt_shells rt n = Some sh" for sh
  proof -
    have "shell_ok (sh\<lparr>sh_exited := True\<rparr>)"
      using shells_okD(4) [OF ok sh] by (simp add: shell_ok_def history_def)
    then show ?thesis using shells_ok_update [OF ok sh] by simp
  qed
  then show ?thesis using Exit ok by (auto simp: running_def)
next
  case (Stdin n chars size_found pipe_error)
  have "shells_ok dm (rt\<lparr>rt_input := i\<rparr>)" for i using ok by (simp add: shells_ok_def running_def)
  then show ?thesis using Stdin ok by (simp add: writeStdin_def split: sum.splits option.splits)
next
  case (Spawn wd header made throws)
  then show ?thesis using shells_ok_spawn [OF ok] by simp
next
  case Stop
  then show ?thesis using ok by (auto simp: stop_def shells_ok_def)
next
  case (Child_Error n)
  then show ?thesis using ok by simp
qed (use ok in \<open>auto simp: shells_ok_def running_def\<close>)

interpretation box_shells: invariant_machine step "shells_ok dm" for dm
  by unfold_locales (simp add: step_def shells_ok_handle)

lemma shells_ok_new: "shells_ok dm (new_runtime dm env)"
  by (simp add: shells_ok_def new_runtime_def)

text \<open>
  Fact. The file of a background shell is always a part, from the start, of its header, its
  output in the order it came and its footer; the rest is what still waits to be written, nothing
  lost and nothing twice, unless a write failed. Input only reaches a shell that has not
  ended.
\<close>

theorem terminal_files_are_in_order:
  "\<forall>n sh. \<not> (rt_shells (foldl step (new_runtime dm env) evs) n = Some sh \<and>
     \<not> (prefix (sh_file sh) (history sh) \<and>
        (sh_broken sh \<or> sh_file sh @ sh_queue sh = history sh) \<and>
        \<not> (fst (writeStdin n chars found err (foldl step (new_runtime dm env) evs)) \<noteq> Stdin_Not_Running \<and> sh_closed sh)))"
proof -
  have ok: "shells_ok dm (foldl step (new_runtime dm env) evs)"
    by (rule box_shells.run_inv [OF shells_ok_new])
  define rt where "rt = foldl step (new_runtime dm env) evs"
  note ok = ok [folded rt_def]
  show ?thesis
    unfolding rt_def [symmetric]
  proof (intro allI notI, elim conjE)
    fix n sh
    assume sh: "rt_shells rt n = Some sh"
      and wrong: "\<not> (prefix (sh_file sh) (history sh) \<and>
        (sh_broken sh \<or> sh_file sh @ sh_queue sh = history sh) \<and>
        \<not> (fst (writeStdin n chars found err rt) \<noteq> Stdin_Not_Running \<and> sh_closed sh))"
    have "shell_ok sh" using shells_okD(4) [OF ok sh] by blast
    then have "prefix (sh_file sh) (history sh)" "sh_broken sh \<or> sh_file sh @ sh_queue sh = history sh"
      by (auto simp: shell_ok_def split: if_splits)
    moreover have "fst (writeStdin n chars found err rt) = Stdin_Not_Running \<or> \<not> sh_closed sh"
      using shells_okD(3) [OF ok, of n] sh by (auto simp: writeStdin_def running_def)
    ultimately show False using wrong by blast
  qed
qed

lemma shell_number_digits: "shell_number n \<noteq> [] \<and> list_all is_digit (shell_number n)"
proof (induction n rule: shell_number.induct)
  case (1 n)
  have "is_digit (48 + n mod 10)" "n < 10 \<Longrightarrow> is_digit (48 + n)" by (auto simp: is_digit_def)
  then show ?case using 1 by (subst (1 2) shell_number.simps) simp
qed

lemma terminal_file_name: "terminal_name (terminal_file n)"
proof -
  have "length txt_suffix = 4" by (simp add: txt_suffix_def ascii_simps)
  then show ?thesis using shell_number_digits [of n] by (simp add: terminal_name_def terminal_file_def)
qed

text \<open>
  Fact. The path an agent is told for the terminal of a shell leads to the file the shell's
  output goes to.
\<close>

theorem terminal_path_leads_to_its_file:
  "\<forall>n sh. \<not> (rt_shells (foldl step (new_runtime dm env) evs) n = Some sh \<and>
     resolvePath dm (BOX_TERMINAL_VIRTUAL_PREFIX @ terminal_file n) \<noteq> Inr (sh_terminalPath sh))"
proof -
  have ok: "shells_ok dm (foldl step (new_runtime dm env) evs)"
    by (rule box_shells.run_inv [OF shells_ok_new])
  have "resolvePath dm (BOX_TERMINAL_VIRTUAL_PREFIX @ terminal_file n) =
      Inr (path_join [dm_terminalsDirectory dm, terminal_file n])" for n
  proof -
    have "BOX_TERMINAL_VIRTUAL_PREFIX \<noteq> []" by (simp add: BOX_TERMINAL_VIRTUAL_PREFIX_def ascii_simps)
    then show ?thesis using terminal_file_name [of n] by (simp add: resolvePath_def starts_with_def)
  qed
  then show ?thesis using shells_okD(4) [OF ok] by simp
qed

subsection \<open>Replacing the environment\<close>

lemma fold_assign:
  "k \<noteq> ascii ''__proto__'' \<Longrightarrow> map_of (foldl assign m request) k = (map_of m ++ map_of (rev request)) k"
  by (induction request arbitrary: m) (auto simp: assign_def map_add_def split: option.splits)

lemma map_of_rev_distinct: "distinct (map fst xs) \<Longrightarrow> map_of (rev xs) = map_of xs"
proof (induction xs)
  case (Cons x xs)
  then show ?case
    by (cases x) (auto simp: map_add_def fun_eq_iff split: option.splits dest: map_of_SomeD intro: rev_image_eqI)
qed simp

lemma map_of_drop_absent: "map_of (drop_absent request env) k = (if in_object k request then map_of env k else None)"
  by (induction env) (auto simp: drop_absent_def)

text \<open>
  Fact. After a replacing update a variable has the value of the request; a variable the
  request does not name is gone, unless its name is one that every object inherits: such a
  variable stays.
\<close>

theorem replaced_environment:
  assumes "distinct (map fst request)" and name: "k \<noteq> ascii ''__proto__''"
  shows "map_of (fst (applyEnvironment True request env)) k =
    (case map_of request k of
       Some v \<Rightarrow> Some v
     | None \<Rightarrow> if k \<in> inherited_names then map_of env k else None)"
proof -
  have "map_of request k = None \<longleftrightarrow> k \<notin> fst ` set request" by (rule map_of_eq_None_iff)
  moreover have "map_of (rev request) = map_of request" using assms(1) map_of_rev_distinct by blast
  ultimately show ?thesis
    by (auto simp: applyEnvironment_def Let_def fold_assign [OF name] map_of_drop_absent in_object_def map_add_def
        split: option.splits)
qed

theorem replaced_environment_witness:
  "map_of (fst (applyEnvironment True [([65], [49])] [(ascii ''toString'', [50]), ([66], [51])])) (ascii ''toString'') = Some [50] \<and>
   map_of (fst (applyEnvironment True [([65], [49])] [(ascii ''toString'', [50]), ([66], [51])])) [65] = Some [49]"
proof -
  have "ascii ''toString'' \<in> inherited_names" by (simp add: inherited_names_def)
  moreover have "[65] \<noteq> ascii ''toString''" "[65] \<noteq> ascii ''__proto__''"
    "ascii ''toString'' \<noteq> ascii ''__proto__''" by (simp_all add: ascii_simps)
  ultimately show ?thesis using replaced_environment [of "[([65], [49])]"] by simp
qed

text \<open>
  Fact. One background shell ends the daemon and with it every other shell, for good: when
  its child could not be started, which says so by an event that nothing listens to, and
  when a write to its file fails, which leaves a rejection that nobody handles.
\<close>

theorem one_shell_ends_the_daemon:
  assumes "rt = foldl step (new_runtime dm env) before"
    and "running rt n \<and> ev = Child_Error n \<or> writing rt n \<and> ev = Write_Done n False"
  shows "rt_ended (step rt ev) \<and> foldl step (step rt ev) evs = step rt ev"
proof -
  have ok: "shells_ok dm rt" unfolding assms(1) by (rule box_shells.run_inv [OF shells_ok_new])
  have stays: "foldl step r evs = r" if "rt_ended r" for r
    using that by (induction evs arbitrary: r) (simp_all add: step_def)
  have unheard: "sh_listened sh = [''close'']" "\<not> sh_caught (write_done False sh)"
    if "rt_shells rt n = Some sh" for sh
    using shells_okD(4) [OF ok that] shell_ok_write [of sh False] by (auto simp: shell_ok_def)
  have "rt_ended (handle ev rt)"
    using assms(2)
  proof (elim disjE conjE)
    assume ev: "running rt n" "ev = Child_Error n"
    obtain sh where sh: "rt_shells rt n = Some sh" using ev(1) by (auto simp: running_def)
    show ?thesis using ev(1) sh unheard(1) [OF sh]
      by (simp add: ev(2) child_error_def raised_def process_listened_def)
  next
    assume ev: "writing rt n" "ev = Write_Done n False"
    obtain sh where sh: "rt_shells rt n = Some sh" using ev(1) by (auto simp: writing_def)
    show ?thesis using ev(1) sh unheard(2) [OF sh]
      by (simp add: ev(2) update_shell_def chain_rejected_def raised_def process_listened_def)
  qed
  then have "rt_ended (step rt ev)" by (simp add: step_def)
  then show ?thesis using stays by blast
qed

theorem one_shell_ends_the_daemon_witness:
  "rt_ended (foldl step (step (step (new_runtime example_box []) (Spawn (ascii ''d'') [45] True False)) (Write_Done 1 False)) [Stop])"
proof -
  let ?rt = "step (new_runtime example_box []) (Spawn (ascii ''d'') [45] True False)"
  have p: "ascii ''d'' \<noteq> []" "\<not> path_isAbsolute (ascii ''d'')"
    by (simp_all add: ascii_simps path_isAbsolute_def slash_def)
  have "resolvePath example_box (ascii ''d'') = Inr (ascii ''/w/d'')"
    using paths_are_walked_from_the_workspace_fact [OF example_box_ok(1) p]
    by (simp add: example_box_ok(2) path_eval ascii_simps below_def first_name_dotted_def abs_path_def)
  then have "writing ?rt 1"
    by (simp add: step_def new_runtime_def spawnBackground_def Let_def writing_def)
  moreover have start: "?rt = foldl step (new_runtime example_box []) [Spawn (ascii ''d'') [45] True False]" by simp
  ultimately show ?thesis
    using one_shell_ends_the_daemon [OF start, of 1 "Write_Done 1 False" "[Stop]"]
    by (simp del: foldl.simps)
qed

end
