(* ===== verification/Box_Streams.thy ===== *)
theory Box_Streams
  imports Box_Daemon
begin

text \<open>
  The foreground shells of the box (\<^verbatim>\<open>box-exec-daemon/server.ts\<close>): \<^verbatim>\<open>run\<close>, which collects the output of
  a command and answers when it is over, with the answers \<^verbatim>\<open>shell\<close> makes of that; \<^verbatim>\<open>shellStream\<close>,
  an asynchronous generator that hands the output on as it comes; and the elements \<^verbatim>\<open>execute\<close> sends
  for a request that has one answer.

  What the child does, the abort of the request and the timer are events. The child exits before it
  is closed: it is closed once it has exited and every process that holds its output has let it go.
  A chunk of output is bytes; the code decodes every chunk by itself.
\<close>

subsection \<open>The child\<close>

datatype channel = Stdout | Stderr

datatype child_event =
    Out channel "nat list"
  | Child_Exit
  | Child_Close "int option" "ustr option"
  | Child_Error string
  | Abort
  | Timer

text \<open>\<^verbatim>\<open>String(data)\<close> of a chunk.\<close>

definition chunk_text :: "nat list \<Rightarrow> ustr" where
  "chunk_text data = utf8_decode data"

definition exit_code :: "int option \<Rightarrow> int" where
  "exit_code code = (case code of None \<Rightarrow> 1 | Some c \<Rightarrow> c)"

subsection \<open>Running a command to its end\<close>

record outcome =
  oc_code :: int
  oc_signal :: ustr
  oc_stdout :: ustr
  oc_stderr :: ustr
  oc_timedOut :: bool
  oc_aborted :: bool

record run_state =
  ru_stdout :: ustr
  ru_stderr :: ustr
  ru_timedOut :: bool
  ru_aborted :: bool
  ru_exited :: bool
  ru_closed :: bool
  ru_timer :: bool
  ru_signals :: nat                       \<comment> \<open>how often SIGTERM was sent\<close>
  ru_answer :: "(string + outcome) option" \<comment> \<open>once the promise is settled\<close>

text \<open>
  A timeout that is not positive is none. The request may have been aborted before its command
  starts: its signal then has fired and tells the listener nothing more.
\<close>

definition run_start :: "bool \<Rightarrow> int \<Rightarrow> run_state" where
  "run_start aborted timeout =
     \<lparr> ru_stdout = [], ru_stderr = [], ru_timedOut = False, ru_aborted = aborted, ru_exited = False,
       ru_closed = False, ru_timer = (0 < timeout), ru_signals = 0, ru_answer = None \<rparr>"

text \<open>A child that has exited is not signalled, whatever of its process group is left.\<close>

definition run_kill :: "run_state \<Rightarrow> run_state" where
  "run_kill s = (if ru_exited s then s else s\<lparr>ru_signals := Suc (ru_signals s)\<rparr>)"

text \<open>The promise settles once; then the timer and the listener of the abort are removed.\<close>

definition run_settle :: "string + outcome \<Rightarrow> run_state \<Rightarrow> run_state" where
  "run_settle r s = (if ru_answer s = None then s\<lparr>ru_answer := Some r, ru_timer := False\<rparr> else s)"

definition run_outcome :: "int option \<Rightarrow> ustr option \<Rightarrow> run_state \<Rightarrow> outcome" where
  "run_outcome code childSignal s =
     \<lparr> oc_code = exit_code code, oc_signal = (case childSignal of None \<Rightarrow> [] | Some g \<Rightarrow> g),
       oc_stdout = ru_stdout s, oc_stderr = ru_stderr s, oc_timedOut = ru_timedOut s, oc_aborted = ru_aborted s \<rparr>"

fun run_handle :: "child_event \<Rightarrow> run_state \<Rightarrow> run_state" where
  "run_handle (Out Stdout data) s = s\<lparr>ru_stdout := ru_stdout s @ chunk_text data\<rparr>"
| "run_handle (Out Stderr data) s = s\<lparr>ru_stderr := ru_stderr s @ chunk_text data\<rparr>"
| "run_handle Child_Exit s = s\<lparr>ru_exited := True\<rparr>"
| "run_handle (Child_Close code childSignal) s =
     run_settle (Inr (run_outcome code childSignal s)) (s\<lparr>ru_exited := True, ru_closed := True\<rparr>)"
| "run_handle (Child_Error e) s = run_settle (Inl e) s"
| "run_handle Abort s =
     (if ru_aborted s then s
      else if ru_answer s = None then run_kill (s\<lparr>ru_aborted := True\<rparr>) else s\<lparr>ru_aborted := True\<rparr>)"
| "run_handle Timer s = (if ru_timer s then run_kill (s\<lparr>ru_timedOut := True, ru_timer := False\<rparr>) else s)"

text \<open>A closed child has no more events of its own.\<close>

fun of_child :: "child_event \<Rightarrow> bool" where
  "of_child Abort = False" | "of_child Timer = False" | "of_child _ = True"

definition run_step :: "run_state \<Rightarrow> child_event \<Rightarrow> run_state" where
  "run_step s ev = (if ru_closed s \<and> of_child ev then s else run_handle ev s)"

subsection \<open>The answer to a shell request\<close>

record shell_common =
  sc_exitCode :: int
  sc_signal :: ustr
  sc_stdout :: ustr
  sc_stderr :: ustr
  sc_interleavedOutput :: ustr

datatype shell_result =
    Shell_Spawn_Error
  | Shell_Timeout int
  | Shell_Success shell_common
  | Shell_Failure shell_common bool

definition shell_answer :: "int \<Rightarrow> outcome \<Rightarrow> shell_result" where
  "shell_answer timeout oc =
     (if oc_timedOut oc then Shell_Timeout timeout
      else
        let common = \<lparr> sc_exitCode = oc_code oc, sc_signal = oc_signal oc, sc_stdout = oc_stdout oc,
                       sc_stderr = oc_stderr oc, sc_interleavedOutput = oc_stdout oc @ oc_stderr oc \<rparr>
        in if oc_code oc = 0 \<and> \<not> oc_aborted oc then Shell_Success common
           else Shell_Failure common (oc_aborted oc))"

text \<open>
  \<^verbatim>\<open>shell\<close>: \<open>None\<close> while the command has not ended. What \<^verbatim>\<open>spawn\<close> throws, and a child that could
  not be started, are exceptions of the request.
\<close>

definition box_shell ::
  "daemon \<Rightarrow> string option \<Rightarrow> ustr \<Rightarrow> bool \<Rightarrow> int \<Rightarrow> child_event list \<Rightarrow> (string + shell_result) option" where
  "box_shell dm spawn_throws workingDirectory aborted timeout evs =
     (case resolvePath dm workingDirectory of
        Inl e \<Rightarrow> Some (Inr Shell_Spawn_Error)
      | Inr cwd \<Rightarrow>
          (case spawn_throws of
             Some e \<Rightarrow> Some (Inl e)
           | None \<Rightarrow>
               (case ru_answer (foldl run_step (run_start aborted timeout) evs) of
                  None \<Rightarrow> None
                | Some (Inl e) \<Rightarrow> Some (Inl e)
                | Some (Inr oc) \<Rightarrow> Some (Inr (shell_answer timeout oc)))))"

subsection \<open>The elements sent for a request\<close>

datatype 'r element = Client 'r | Thrown | Stream_Close

text \<open>\<^verbatim>\<open>execute\<close> of a request with one answer: an exception is sent as one, and the stream is closed.\<close>

definition execute_unary :: "'e + 'r \<Rightarrow> 'r element list" where
  "execute_unary r = (case r of Inl e \<Rightarrow> [Thrown] | Inr v \<Rightarrow> [Client v]) @ [Stream_Close]"

subsection \<open>Streaming the output\<close>

datatype given = Stream_Start | Stream_Data channel ustr | Stream_Exit int bool | Stream_Thrown

text \<open>
  Where the generator stands: not begun, at one of its \<^verbatim>\<open>yield\<close>s, waiting for the child to wake it, or
  at its end.
\<close>

datatype place = Before | At_Start | At_Data | At_Exit | Waiting | Ended

record stream =
  st_place :: place
  st_events :: "(channel \<times> ustr) list"
  st_done :: bool
  st_exitCode :: int
  st_aborted :: bool
  st_spawned :: bool
  st_exited :: bool
  st_timer :: bool
  st_signals :: nat
  st_return :: bool          \<comment> \<open>the consumer has given up while the generator waits\<close>
  st_given :: "given list"
  st_crashed :: bool         \<comment> \<open>the process of the daemon is gone\<close>
  st_received :: "(channel \<times> ustr) list"

definition stream_start :: stream where
  "stream_start =
     \<lparr> st_place = Before, st_events = [], st_done = False, st_exitCode = 1, st_aborted = False,
       st_spawned = False, st_exited = False, st_timer = False, st_signals = 0, st_return = False,
       st_given = [], st_crashed = False, st_received = [] \<rparr>"

definition stream_kill :: "stream \<Rightarrow> stream" where
  "stream_kill s = (if st_exited s then s else s\<lparr>st_signals := Suc (st_signals s)\<rparr>)"

text \<open>The \<^verbatim>\<open>finally\<close> block.\<close>

definition finish :: "stream \<Rightarrow> stream" where
  "finish s =
     (let s' = s\<lparr>st_timer := False, st_place := Ended\<rparr> in if st_done s then s' else stream_kill s')"

text \<open>
  The loop up to its next \<^verbatim>\<open>yield\<close> or wait; a consumer that has given up meanwhile ends it at the \<^verbatim>\<open>yield\<close>.
\<close>

definition yielded :: "place \<Rightarrow> given \<Rightarrow> stream \<Rightarrow> stream" where
  "yielded p g s =
     (let s' = s\<lparr>st_place := p, st_given := st_given s @ [g]\<rparr> in if st_return s then finish s' else s')"

definition advance :: "stream \<Rightarrow> stream" where
  "advance s =
     (case st_events s of
        (ch, data) # rest \<Rightarrow> yielded At_Data (Stream_Data ch data) (s\<lparr>st_events := rest\<rparr>)
      | [] \<Rightarrow>
          if st_done s then yielded At_Exit (Stream_Exit (st_exitCode s) (st_aborted s)) s
          else s\<lparr>st_place := Waiting\<rparr>)"

definition notify :: "stream \<Rightarrow> stream" where
  "notify s = (if st_place s = Waiting then advance s else s)"

text \<open>
  The consumer asks for the next element (\<open>path_ok\<close> is the answer of \<^verbatim>\<open>resolvePath\<close>, \<open>spawn_ok\<close> that
  \<^verbatim>\<open>spawn\<close> does not throw), or gives up.
\<close>

datatype stream_event =
    Next bool bool int
  | Return
  | Child child_event

fun stream_next :: "bool \<Rightarrow> bool \<Rightarrow> int \<Rightarrow> stream \<Rightarrow> stream" where
  "stream_next path_ok spawn_ok timeout s =
     (case st_place s of
        Before \<Rightarrow>
          if path_ok then s\<lparr>st_place := At_Start, st_given := [Stream_Start]\<rparr>
          else s\<lparr>st_place := Ended, st_given := [Stream_Thrown]\<rparr>
      | At_Start \<Rightarrow>
          if spawn_ok then advance (s\<lparr>st_spawned := True, st_timer := (0 < timeout)\<rparr>)
          else s\<lparr>st_place := Ended, st_given := st_given s @ [Stream_Thrown]\<rparr>
      | At_Data \<Rightarrow> advance s
      | At_Exit \<Rightarrow> finish s
      | Waiting \<Rightarrow> s
      | Ended \<Rightarrow> s)"

definition stream_return :: "stream \<Rightarrow> stream" where
  "stream_return s =
     (case st_place s of
        Before \<Rightarrow> s\<lparr>st_place := Ended\<rparr>
      | At_Start \<Rightarrow> s\<lparr>st_place := Ended\<rparr>
      | At_Data \<Rightarrow> finish s
      | At_Exit \<Rightarrow> finish s
      | Waiting \<Rightarrow> s\<lparr>st_return := True\<rparr>
      | Ended \<Rightarrow> s)"

text \<open>The listener of the abort is there from the start of the child to the \<^verbatim>\<open>finally\<close> block.\<close>

fun stream_child :: "child_event \<Rightarrow> stream \<Rightarrow> stream" where
  "stream_child (Out ch data) s =
     (if st_spawned s \<and> \<not> st_done s
      then notify (s\<lparr>st_events := st_events s @ [(ch, chunk_text data)],
                     st_received := st_received s @ [(ch, chunk_text data)]\<rparr>)
      else s)"
| "stream_child Child_Exit s = (if st_spawned s then s\<lparr>st_exited := True\<rparr> else s)"
| "stream_child (Child_Close code childSignal) s =
     (if st_spawned s \<and> \<not> st_done s
      then notify (s\<lparr>st_exited := True, st_exitCode := exit_code code, st_done := True\<rparr>)
      else s)"
| "stream_child (Child_Error e) s =
     (if st_spawned s \<and> \<not> st_done s then s\<lparr>st_crashed := True\<rparr> else s)"
| "stream_child Abort s =
     (if st_aborted s then s
      else if st_spawned s \<and> st_place s \<noteq> Ended then stream_kill (s\<lparr>st_aborted := True\<rparr>)
      else s\<lparr>st_aborted := True\<rparr>)"
| "stream_child Timer s = (if st_timer s then stream_kill (s\<lparr>st_timer := False\<rparr>) else s)"

definition stream_step :: "stream \<Rightarrow> stream_event \<Rightarrow> stream" where
  "stream_step s ev =
     (if st_crashed s then s
      else case ev of
             Next path_ok spawn_ok timeout \<Rightarrow> stream_next path_ok spawn_ok timeout s
           | Return \<Rightarrow> stream_return s
           | Child c \<Rightarrow> stream_child c s)"

subsection \<open>The answer of a command\<close>

text \<open>What settles a run, and the output of one channel.\<close>

fun ends :: "child_event \<Rightarrow> bool" where
  "ends (Child_Close code sig) = True" | "ends (Child_Error e) = True" | "ends _ = False"

fun texts :: "channel \<Rightarrow> child_event list \<Rightarrow> ustr" where
  "texts ch [] = []"
| "texts ch (Out c data # evs) = (if c = ch then chunk_text data @ texts ch evs else texts ch evs)"
| "texts ch (_ # evs) = texts ch evs"

lemma texts_append: "texts ch (xs @ ys) = texts ch xs @ texts ch ys"
  by (induction ch xs rule: texts.induct) simp_all

definition run_open :: "bool \<Rightarrow> int \<Rightarrow> child_event list \<Rightarrow> run_state \<Rightarrow> bool" where
  "run_open aborted timeout evs s \<longleftrightarrow>
     ru_answer s = None \<and> \<not> ru_closed s \<and>
     ru_stdout s = texts Stdout evs \<and> ru_stderr s = texts Stderr evs \<and>
     ru_aborted s = (aborted \<or> Abort \<in> set evs) \<and> ru_timedOut s = (0 < timeout \<and> Timer \<in> set evs) \<and>
     ru_timer s = (0 < timeout \<and> Timer \<notin> set evs)"

lemmas run_parts = run_step_def run_kill_def run_settle_def

lemma run_stays_open:
  "list_all (\<lambda>ev. \<not> ends ev) evs \<Longrightarrow> run_open aborted timeout evs (foldl run_step (run_start aborted timeout) evs)"
proof (induction evs rule: rev_induct)
  case (snoc ev evs)
  define s where "s = foldl run_step (run_start aborted timeout) evs"
  have s: "run_open aborted timeout evs s" using snoc unfolding s_def by simp
  have "run_open aborted timeout (evs @ [ev]) (run_step s ev)"
  proof (cases ev)
    case (Out ch data)
    then show ?thesis using s by (cases ch) (simp_all add: run_open_def run_parts texts_append)
  qed (use s snoc.prems in \<open>auto simp: run_open_def run_parts texts_append\<close>)
  then show ?case by (simp add: s_def)
qed (simp add: run_open_def run_start_def)

lemma run_kill_answer [simp]: "ru_answer (run_kill s) = ru_answer s"
  by (simp add: run_kill_def)




lemma example_cwd: "resolvePath example_box (ascii ''d'') = Inr (ascii ''/w/d'')"
proof -
  have p: "ascii ''d'' \<noteq> []" "\<not> path_isAbsolute (ascii ''d'')"
    by (simp_all add: ascii_simps path_isAbsolute_def slash_def)
  show ?thesis
    using paths_are_walked_from_the_workspace_fact [OF example_box_ok(1) p]
    by (simp add: example_box_ok(2) path_eval ascii_simps below_def first_name_dotted_def abs_path_def)
qed


text \<open>
  Property C31. Once the shell itself has exited neither the timer nor an abort ends a command: as long
  as a process it left behind holds its output there is no answer, and no signal is sent.
\<close>

theorem timer_does_not_end_an_exited_shell:
  assumes "resolvePath dm wd = Inr cwd" and "list_all (\<lambda>ev. \<not> ends ev) (evs @ Child_Exit # post)"
  shows "box_shell dm None wd aborted timeout (evs @ Child_Exit # post) = None \<and>
    ru_signals (foldl run_step (run_start aborted timeout) (evs @ Child_Exit # post)) =
    ru_signals (foldl run_step (run_start aborted timeout) evs)"
proof -
  have still: "ru_exited s \<Longrightarrow> list_all (\<lambda>ev. \<not> ends ev) es \<Longrightarrow> ru_signals (foldl run_step s es) = ru_signals s" for s es
  proof (induction es arbitrary: s)
    case (Cons ev es)
    have "ru_exited (run_step s ev) \<and> ru_signals (run_step s ev) = ru_signals s"
    proof (cases ev)
      case (Out ch data)
      then show ?thesis using Cons.prems by (cases ch) (simp_all add: run_step_def)
    qed (use Cons.prems in \<open>simp_all add: run_step_def run_kill_def\<close>)
    then show ?case using Cons by simp
  qed simp
  have "\<not> ru_closed (foldl run_step (run_start aborted timeout) evs)"
    using run_stays_open [of evs aborted timeout] assms(2) by (simp add: run_open_def)
  then have "ru_signals (foldl run_step (run_start aborted timeout) (evs @ Child_Exit # post)) =
      ru_signals (foldl run_step (run_start aborted timeout) evs)"
    using still [of "run_step (foldl run_step (run_start aborted timeout) evs) Child_Exit" post] assms(2)
    by (simp add: run_step_def)
  moreover have "ru_answer (foldl run_step (run_start aborted timeout) (evs @ Child_Exit # post)) = None"
    using run_stays_open [OF assms(2)] by (simp add: run_open_def del: foldl_append)
  ultimately show ?thesis using assms(1) by (simp add: box_shell_def del: foldl_append)
qed

theorem timer_does_not_end_an_exited_shell_witness:
  "box_shell example_box None (ascii ''d'') False 1000 [Child_Exit, Timer, Abort] = None \<and>
   ru_signals (foldl run_step (run_start False 1000) [Child_Exit, Timer, Abort]) = 0"
  using timer_does_not_end_an_exited_shell [OF example_cwd, of "[]" "[Timer, Abort]" False 1000]
  by (simp add: run_start_def)

text \<open>
  Fact. A character whose bytes come in two chunks is not put together again: the same output
  gives another text when it is cut there.
\<close>

theorem cut_character_is_lost:
  "map_option (map_sum id oc_stdout) (ru_answer (foldl run_step (run_start False 0)
     [Out Stdout [195, 169], Child_Close (Some 0) None])) = Some (Inr [233]) \<and>
   map_option (map_sum id oc_stdout) (ru_answer (foldl run_step (run_start False 0)
     [Out Stdout [195], Out Stdout [169], Child_Close (Some 0) None])) = Some (Inr [65533, 65533])"
  by (simp add: run_parts run_start_def run_outcome_def chunk_text_def utf8_decode_def point_units_def
      REPLACEMENT_def)

subsection \<open>The stream of the output\<close>

fun data_of :: "given list \<Rightarrow> (channel \<times> ustr) list" where
  "data_of [] = []"
| "data_of (Stream_Data ch d # gs) = (ch, d) # data_of gs"
| "data_of (_ # gs) = data_of gs"

lemma data_of_append: "data_of (xs @ ys) = data_of xs @ data_of ys"
  by (induction xs rule: data_of.induct) simp_all

fun is_exit :: "given \<Rightarrow> bool" where
  "is_exit (Stream_Exit c a) = True" | "is_exit _ = False"

definition stream_ok :: "stream \<Rightarrow> bool" where
  "stream_ok s \<longleftrightarrow>
     data_of (st_given s) @ st_events s = st_received s \<and>
     (st_place s = Waiting \<longrightarrow> st_events s = [] \<and> \<not> st_done s) \<and>
     (\<forall>g \<in> set (st_given s). is_exit g \<longrightarrow> st_place s \<in> {At_Exit, Ended} \<and> st_events s = [] \<and> st_done s \<and>
        last (st_given s) = g \<and> (\<exists>a. g = Stream_Exit (st_exitCode s) a)) \<and>
     (st_done s \<longrightarrow> st_exited s) \<and>
     (st_place s \<in> {Before, At_Start} \<longrightarrow> \<not> st_spawned s) \<and>
     (st_place s \<in> {At_Data, Waiting, At_Exit} \<longrightarrow> st_spawned s) \<and>
     (\<not> st_spawned s \<longrightarrow> st_received s = [] \<and> \<not> st_done s) \<and>
     (st_return s \<longrightarrow> st_place s \<in> {Waiting, Ended}) \<and>
     (st_place s = Before \<longrightarrow> st_given s = []) \<and>
     (st_place s = At_Exit \<longrightarrow> st_done s) \<and>
     (st_place s = Ended \<and> st_spawned s \<longrightarrow> st_exited s \<or> 0 < st_signals s)"

lemma stream_ok_start: "stream_ok stream_start"
  by (simp add: stream_ok_def stream_start_def)

lemma stream_ok_kill:
  assumes "stream_ok s"
  shows "stream_ok (stream_kill s)"
  using assms by (auto simp: stream_ok_def stream_kill_def)

lemma stream_ok_finish:
  assumes ok: "stream_ok s"
  shows "stream_ok (finish s)"
proof (cases "st_done s")
  case True
  then show ?thesis using ok by (auto simp: stream_ok_def finish_def)
next
  case False
  then have "\<forall>g \<in> set (st_given s). \<not> is_exit g" using ok unfolding stream_ok_def by blast
  then show ?thesis using ok False by (auto simp: stream_ok_def finish_def stream_kill_def Let_def)
qed

text \<open>The loop may be entered while the consumer has given up, when the child wakes it.\<close>

definition looping :: "stream \<Rightarrow> bool" where
  "looping s \<longleftrightarrow>
     data_of (st_given s) @ st_events s = st_received s \<and> (\<forall>g \<in> set (st_given s). \<not> is_exit g) \<and>
     (st_done s \<longrightarrow> st_exited s) \<and> st_spawned s"

lemma finish_given [simp]: "st_given (finish s) = st_given s" "st_events (finish s) = st_events s"
  "st_received (finish s) = st_received s" "st_done (finish s) = st_done s" "st_place (finish s) = Ended"
  by (simp_all add: finish_def Let_def stream_kill_def)

lemma advance_ok:
  assumes s: "looping s" and ret: "st_return s \<longrightarrow> st_place s = Waiting"
  shows "stream_ok (advance s)"
proof (cases "st_events s")
  case Nil
  show ?thesis
  proof (cases "st_done s")
    case True
    define s' where "s' = s\<lparr>st_place := At_Exit, st_given := st_given s @ [Stream_Exit (st_exitCode s) (st_aborted s)],
      st_return := False\<rparr>"
    have "stream_ok s'" using s Nil True by (auto simp: s'_def looping_def stream_ok_def data_of_append)
    moreover have "advance s = (if st_return s then (finish s')\<lparr>st_return := True\<rparr> else s')"
      using Nil True by (simp add: advance_def yielded_def Let_def s'_def finish_def stream_kill_def)
    moreover have "stream_ok t \<Longrightarrow> st_place t = Ended \<Longrightarrow> stream_ok (t\<lparr>st_return := True\<rparr>)" for t
      by (auto simp: stream_ok_def)
    ultimately show ?thesis using stream_ok_finish by simp
  next
    case False
    then show ?thesis using s Nil by (simp add: advance_def looping_def stream_ok_def)
  qed
next
  case (Cons e rest)
  obtain ch d where e: "e = (ch, d)" by force
  define s' where "s' = s\<lparr>st_events := rest, st_place := At_Data, st_given := st_given s @ [Stream_Data ch d],
    st_return := False\<rparr>"
  have "stream_ok s'" using s Cons e by (auto simp: s'_def looping_def stream_ok_def data_of_append)
  moreover have "advance s = (if st_return s then (finish s')\<lparr>st_return := True\<rparr> else s')"
    using Cons e by (simp add: advance_def yielded_def Let_def s'_def finish_def stream_kill_def)
  moreover have "stream_ok t \<Longrightarrow> st_place t = Ended \<Longrightarrow> stream_ok (t\<lparr>st_return := True\<rparr>)" for t
    by (auto simp: stream_ok_def)
  ultimately show ?thesis using stream_ok_finish by simp
qed

lemma looping_at_data:
  assumes ok: "stream_ok s" and at: "st_place s \<in> {At_Data, Waiting}"
  shows "looping s"
proof -
  have "\<not> is_exit g" if "g \<in> set (st_given s)" for g
    using ok at that unfolding stream_ok_def by fastforce
  then show ?thesis using ok at unfolding stream_ok_def looping_def by blast
qed

lemma stream_ok_next:
  assumes ok: "stream_ok s"
  shows "stream_ok (stream_next path_ok spawn_ok timeout s)"
proof (cases "st_place s")
  case Before
  then show ?thesis using ok by (auto simp: stream_ok_def)
next
  case At_Start
  have none: "\<not> st_spawned s" "\<forall>g \<in> set (st_given s). \<not> is_exit g" "\<not> st_return s"
    using ok At_Start unfolding stream_ok_def by fastforce+
  have rest: "st_received s = []" "\<not> st_done s" "data_of (st_given s) @ st_events s = st_received s"
    using ok none(1) unfolding stream_ok_def by blast+
  have "stream_ok (s\<lparr>st_place := Ended, st_given := st_given s @ [Stream_Thrown]\<rparr>)"
    using none rest by (auto simp: stream_ok_def data_of_append)
  moreover have "looping (s\<lparr>st_spawned := True, st_timer := (0 < timeout)\<rparr>)"
    using none rest by (simp add: looping_def)
  then have "stream_ok (advance (s\<lparr>st_spawned := True, st_timer := (0 < timeout)\<rparr>))"
    using advance_ok none(3) by simp
  ultimately show ?thesis using At_Start by simp
next
  case At_Data
  have "\<not> st_return s" using ok At_Data unfolding stream_ok_def by auto
  then show ?thesis using advance_ok looping_at_data ok At_Data by simp
next
  case At_Exit
  then show ?thesis using stream_ok_finish [OF ok] by simp
qed (use ok in simp_all)

lemma stream_ok_return:
  assumes ok: "stream_ok s"
  shows "stream_ok (stream_return s)"
proof (cases "st_place s")
  case Before
  then show ?thesis using ok by (auto simp: stream_ok_def stream_return_def)
next
  case At_Start
  then show ?thesis using ok by (auto simp: stream_ok_def stream_return_def)
next
  case Waiting
  then show ?thesis using ok by (auto simp: stream_ok_def stream_return_def)
qed (use ok stream_ok_finish in \<open>simp_all add: stream_return_def\<close>)

lemma stream_ok_heard:
  assumes ok: "stream_ok s" and t: "t = s\<lparr>st_events := st_events s @ e, st_received := st_received s @ e,
      st_exited := x, st_exitCode := c, st_done := d\<rparr>"
    and child: "st_spawned s" "\<not> st_done s" "d \<longrightarrow> x" "st_exited s \<longrightarrow> x"
  shows "stream_ok (notify t)"
proof -
  have no: "\<forall>g \<in> set (st_given s). \<not> is_exit g" using ok child(2) unfolding stream_ok_def by blast
  show ?thesis
  proof (cases "st_place s = Waiting")
    case True
    then have "looping t" using looping_at_data [OF ok] t child no by (auto simp: looping_def)
    then have "stream_ok (advance t)" using True t advance_ok by simp
    then show ?thesis using True t by (simp add: notify_def)
  next
    case False
    then show ?thesis using ok t child no by (auto simp: notify_def stream_ok_def)
  qed
qed

lemma stream_ok_child:
  assumes ok: "stream_ok s"
  shows "stream_ok (stream_child ev s)"
proof (cases ev)
  case (Out ch data)
  let ?e = "[(ch, chunk_text data)]"
  have "s\<lparr>st_events := st_events s @ ?e, st_received := st_received s @ ?e\<rparr> =
      s\<lparr>st_events := st_events s @ ?e, st_received := st_received s @ ?e, st_exited := st_exited s,
        st_exitCode := st_exitCode s, st_done := st_done s\<rparr>" by simp
  from stream_ok_heard [OF ok this] show ?thesis using Out ok by simp
next
  case Child_Exit
  then show ?thesis using ok by (auto simp: stream_ok_def)
next
  case (Child_Close code sig)
  then show ?thesis using ok stream_ok_heard [OF ok, where e = "[]" and x = True and c = "exit_code code" and d = True] by simp
next
  case (Child_Error e)
  have "stream_ok (s\<lparr>st_crashed := True\<rparr>)" using ok by (simp add: stream_ok_def)
  then show ?thesis using Child_Error ok by simp
next
  case Abort
  have "stream_ok (s\<lparr>st_aborted := True\<rparr>)" using ok by (simp add: stream_ok_def)
  then show ?thesis using Abort ok stream_ok_kill by simp
next
  case Timer
  have "stream_ok (s\<lparr>st_timer := False\<rparr>)" using ok by (simp add: stream_ok_def)
  then show ?thesis using Timer ok stream_ok_kill by simp
qed

lemma stream_ok_step: "stream_ok s \<Longrightarrow> stream_ok (stream_step s ev)"
  by (cases ev)
    (simp_all add: stream_step_def stream_ok_next stream_ok_return stream_ok_child del: stream_next.simps)

interpretation box_stream: invariant_machine stream_step stream_ok
  by unfold_locales (rule stream_ok_step)

text \<open>
  Property C19. The stream loses nothing: what was handed on and what waits in the queue is the output
  that came, in its order; the generator never sleeps while there is something to hand on or the
  child is closed; after the exit was handed on, everything was; and a child whose stream has
  ended has exited or was signalled.
\<close>

theorem stream_loses_nothing:
  "let s = foldl stream_step stream_start evs in
     data_of (st_given s) @ st_events s = st_received s \<and>
     \<not> (st_place s = Waiting \<and> st_events s \<noteq> []) \<and> \<not> (st_place s = Waiting \<and> st_done s) \<and>
     \<not> (list_ex is_exit (st_given s) \<and>
         \<not> (st_done s \<and> data_of (st_given s) = st_received s \<and> is_exit (last (st_given s)))) \<and>
     \<not> (st_place s = Ended \<and> st_spawned s \<and> \<not> st_exited s \<and> st_signals s = 0)"
proof -
  define s where "s = foldl stream_step stream_start evs"
  have ok: "stream_ok s" unfolding s_def by (rule box_stream.run_inv [OF stream_ok_start])
  then have all: "data_of (st_given s) @ st_events s = st_received s" unfolding stream_ok_def by blast
  moreover have "\<not> (st_place s = Waiting \<and> st_events s \<noteq> [])" "\<not> (st_place s = Waiting \<and> st_done s)"
    using ok unfolding stream_ok_def by blast+
  moreover have "st_done s \<and> data_of (st_given s) = st_received s \<and> is_exit (last (st_given s))"
    if exit_given: "list_ex is_exit (st_given s)"
  proof -
    obtain g where g: "g \<in> set (st_given s)" "is_exit g" using exit_given by (auto simp: list_ex_iff)
    then have "st_events s = []" "st_done s" "last (st_given s) = g" using ok unfolding stream_ok_def by blast+
    then show ?thesis using all g by simp
  qed
  moreover have "\<not> (st_place s = Ended \<and> st_spawned s \<and> \<not> st_exited s \<and> st_signals s = 0)"
    using ok unfolding stream_ok_def by auto
  ultimately show ?thesis unfolding s_def [symmetric] Let_def by blast
qed

text \<open>
  Fact. A consumer that keeps asking after the child was closed is given all that waits and
  then the exit with its code, one element for each time it asks.
\<close>

theorem closed_stream_is_drained:
  assumes "s = foldl stream_step stream_start evs"
    and "st_place s = At_Data" and "st_done s" and "\<not> st_crashed s"
  shows "st_given (foldl stream_step s (replicate (Suc (length (st_events s))) (Next p q t))) =
    st_given s @ map (\<lambda>(ch, d). Stream_Data ch d) (st_events s) @ [Stream_Exit (st_exitCode s) (st_aborted s)]"
proof -
  have ok: "stream_ok s" unfolding assms(1) by (rule box_stream.run_inv [OF stream_ok_start])
  then have "\<not> st_return s" using assms(2) unfolding stream_ok_def by auto
  moreover have "st_given (foldl stream_step s (replicate (Suc (length (st_events s))) (Next p q t))) =
      st_given s @ map (\<lambda>(ch, d). Stream_Data ch d) (st_events s) @ [Stream_Exit (st_exitCode s) (st_aborted s)]"
    if "st_place s = At_Data" "st_done s" "\<not> st_crashed s" "\<not> st_return s" for s
    using that
  proof (induction "st_events s" arbitrary: s)
    case Nil
    then show ?case using Nil(1) [symmetric] by (simp add: stream_step_def advance_def yielded_def)
  next
    case (Cons e es)
    obtain ch d where e: "e = (ch, d)" by force
    define s' where "s' = s\<lparr>st_events := es, st_place := At_Data, st_given := st_given s @ [Stream_Data ch d]\<rparr>"
    have "stream_step s (Next p q t) = s'"
      using Cons.prems Cons(2) [symmetric] e by (simp add: stream_step_def advance_def yielded_def s'_def)
    moreover have "st_given (foldl stream_step s' (replicate (Suc (length (st_events s'))) (Next p q t))) =
        st_given s' @ map (\<lambda>(ch, d). Stream_Data ch d) (st_events s') @ [Stream_Exit (st_exitCode s') (st_aborted s')]"
      by (rule Cons.hyps(1)) (use Cons.prems in \<open>simp_all add: s'_def\<close>)
    ultimately show ?case using Cons(2) [symmetric] e by (simp add: s'_def)
  qed
  ultimately show ?thesis using assms by blast
qed

definition drained_example :: stream where
  "drained_example = foldl stream_step stream_start
     [Next True True 0, Next True True 0, Child (Out Stdout [97]), Child (Out Stderr [98]),
      Child (Child_Close (Some 3) None)]"

lemma drained_example_fields:
  "st_place drained_example = At_Data" "st_done drained_example" "\<not> st_crashed drained_example"
  "st_events drained_example = [(Stderr, [98])]" "st_exitCode drained_example = 3"
  "st_given drained_example = [Stream_Start, Stream_Data Stdout [97]]" "\<not> st_aborted drained_example"
  by (simp_all add: drained_example_def stream_step_def stream_start_def advance_def yielded_def notify_def
      chunk_text_def utf8_decode_def point_units_def exit_code_def)

theorem closed_stream_is_drained_witness:
  "st_given (foldl stream_step drained_example [Next True True 0, Next True True 0]) =
     [Stream_Start, Stream_Data Stdout [97], Stream_Data Stderr [98], Stream_Exit 3 False]"
  using closed_stream_is_drained [OF drained_example_def drained_example_fields(1-3), of True True 0]
  by (simp add: drained_example_fields)

end
