(* ===== verification/Safe_Paths.thy ===== *)
theory Safe_Paths
  imports Node_Paths Utf8
begin

text \<open>
  Paths of an agent store and the walk over its files: \<^verbatim>\<open>lib/agent-store-sync/safe-paths.ts\<close>.

  Other processes may change the files at any time. The world is therefore a script: what
  \<^verbatim>\<open>lstat\<close> and \<^verbatim>\<open>readdir\<close> answer to the call with number \<open>t\<close>, and every call takes the next number. A
  world whose answers do not depend on the number is one that nobody changes. \<^verbatim>\<open>toLowerCase\<close> is
  the Unicode table, a parameter. Errors are values; their texts are not modelled.
\<close>

subsection \<open>Names and relative paths\<close>

datatype path_error =
    Empty_Path | Invalid_Segment | Reserved_Name | Windows_Incompatible | Outside_Base
  | Symlink_Refused | Not_Regular_File | System string

definition MAX_SEGMENT_LENGTH_BYTES :: nat where "MAX_SEGMENT_LENGTH_BYTES = 255"

definition WINDOWS_RESERVED :: "ustr list" where
  "WINDOWS_RESERVED = map ascii
     [''con'', ''prn'', ''aux'', ''nul'', ''com1'', ''com2'', ''com3'', ''com4'', ''com5'', ''com6'', ''com7'',
      ''com8'', ''com9'', ''lpt1'', ''lpt2'', ''lpt3'', ''lpt4'', ''lpt5'', ''lpt6'', ''lpt7'', ''lpt8'', ''lpt9'']"

definition back_slash :: nat where "back_slash = 92"

definition assertSafeSegment :: "(ustr \<Rightarrow> ustr) \<Rightarrow> ustr \<Rightarrow> path_error + unit" where
  "assertSafeSegment lower segment =
     (if MAX_SEGMENT_LENGTH_BYTES < utf8_length segment then Inl Invalid_Segment
      else if \<exists>u \<in> set segment. u < 32 \<or> u = 127 then Inl Invalid_Segment
      else if segment \<noteq> [] \<and> (last segment = dot \<or> last segment = 32) then Inl Invalid_Segment
      else if hd (split_on dot (lower segment)) \<in> set WINDOWS_RESERVED then Inl Reserved_Name
      else Inr ())"

definition safe_segment :: "(ustr \<Rightarrow> ustr) \<Rightarrow> ustr \<Rightarrow> bool" where
  "safe_segment lower s \<longleftrightarrow> assertSafeSegment lower s = Inr ()"

fun collect_segments :: "(ustr \<Rightarrow> ustr) \<Rightarrow> ustr list \<Rightarrow> ustr list \<Rightarrow> path_error + ustr list" where
  "collect_segments lower acc [] = Inr acc"
| "collect_segments lower acc (raw # rest) =
     (if raw = [] \<or> raw = here then collect_segments lower acc rest
      else if raw = up then Inl Invalid_Segment
      else case assertSafeSegment lower raw of
             Inl e \<Rightarrow> Inl e
           | Inr _ \<Rightarrow> collect_segments lower (acc @ [raw]) rest)"

definition is_letter :: "nat \<Rightarrow> bool" where
  "is_letter u \<longleftrightarrow> (65 \<le> u \<and> u \<le> 90) \<or> (97 \<le> u \<and> u \<le> 122)"

definition win32_isAbsolute :: "ustr \<Rightarrow> bool" where
  "win32_isAbsolute p \<longleftrightarrow>
     (p \<noteq> [] \<and> (hd p = slash \<or> hd p = back_slash)) \<or>
     (2 < length p \<and> is_letter (p ! 0) \<and> p ! 1 = 58 \<and> (p ! 2 = slash \<or> p ! 2 = back_slash))"

text \<open>\<^verbatim>\<open>relPath.replaceAll("\\", "/").split("/")\<close>; a path that is not a string is \<^term>\<open>None\<close>.\<close>

definition raw_segments :: "ustr \<Rightarrow> ustr list" where
  "raw_segments p = split_on slash (map (\<lambda>u. if u = back_slash then slash else u) p)"

definition normalizeRelPath :: "(ustr \<Rightarrow> ustr) \<Rightarrow> ustr option \<Rightarrow> path_error + ustr" where
  "normalizeRelPath lower relPath =
     (case relPath of
        None \<Rightarrow> Inl Empty_Path
      | Some p \<Rightarrow>
          if p = [] then Inl Empty_Path
          else if 0 \<in> set p then Inl Invalid_Segment
          else if path_isAbsolute p \<or> win32_isAbsolute p then Inl Invalid_Segment
          else
            (case collect_segments lower [] (raw_segments p) of
               Inl e \<Rightarrow> Inl e
             | Inr segments \<Rightarrow> if segments = [] then Inl Empty_Path else Inr (join_on slash segments)))"

definition validateRawSegmentName :: "(ustr \<Rightarrow> ustr) \<Rightarrow> ustr \<Rightarrow> path_error + ustr" where
  "validateRawSegmentName lower name =
     (if name = [] then Inl Empty_Path
      else if name = here \<or> name = up then Inl Invalid_Segment
      else if slash \<in> set name then Inl Invalid_Segment
      else if back_slash \<in> set name then Inl Invalid_Segment
      else case assertSafeSegment lower name of Inl e \<Rightarrow> Inl e | Inr _ \<Rightarrow> Inr name)"

definition hasWindowsIncompatibleFilenameChars :: "ustr \<Rightarrow> bool" where
  "hasWindowsIncompatibleFilenameChars relPath \<longleftrightarrow>
     (\<exists>segment \<in> set (split_on slash relPath). 0 < length segment \<and> (\<exists>u \<in> set segment. u \<in> {60, 62, 58, 34, 124, 63, 42}))"

definition assertWindowsMaterializableRelPath :: "bool \<Rightarrow> ustr \<Rightarrow> path_error + unit" where
  "assertWindowsMaterializableRelPath is_win32 relPath =
     (if \<not> is_win32 \<or> \<not> hasWindowsIncompatibleFilenameChars relPath then Inr () else Inl Windows_Incompatible)"

definition isEqualOrParent :: "ustr \<Rightarrow> ustr \<Rightarrow> bool" where
  "isEqualOrParent parent candidate \<longleftrightarrow>
     candidate = parent \<or>
     starts_with (if parent \<noteq> [] \<and> last parent = slash then parent else parent @ [slash]) candidate"

definition resolveSafeChildPath :: "(ustr \<Rightarrow> ustr) \<Rightarrow> ustr \<Rightarrow> ustr \<Rightarrow> ustr option \<Rightarrow> path_error + ustr" where
  "resolveSafeChildPath lower cwd base relPath =
     (if \<not> path_isAbsolute base then Inl Outside_Base
      else case normalizeRelPath lower relPath of
             Inl e \<Rightarrow> Inl e
           | Inr normalized \<Rightarrow>
               (let resolvedBase = path_resolve cwd [base];
                    resolved = path_resolve cwd [resolvedBase, normalized]
                in if \<not> isEqualOrParent resolvedBase resolved then Inl Outside_Base else Inr resolved))"

definition posixJoin :: "ustr \<Rightarrow> ustr \<Rightarrow> ustr" where
  "posixJoin dir segment = (if dir = [] then segment else dir @ slash # segment)"

subsection \<open>What the file system says\<close>

datatype kind = Dir_Kind | File_Kind | Link_Kind | Other_Kind

record stat =
  st_kind :: kind
  st_size :: nat
  st_mtimeMs :: int
  st_dev :: nat
  st_ino :: nat

record world =
  w_lstat :: "nat \<Rightarrow> ustr \<Rightarrow> string + stat"
  w_readdir :: "nat \<Rightarrow> ustr \<Rightarrow> string + ustr list"

record file_entry =
  fe_relPath :: ustr
  fe_absPath :: ustr
  fe_stat :: stat

datatype reason = Reason_Not_Regular | Reason_Symlink

record walk_result =
  wr_files :: "file_entry list"
  wr_refusals :: "(ustr \<times> reason) list"

definition refuse :: "ustr \<Rightarrow> reason \<Rightarrow> walk_result \<Rightarrow> walk_result" where
  "refuse rel r res = res\<lparr>wr_refusals := wr_refusals res @ [(rel, r)]\<rparr>"

definition take_file :: "file_entry \<Rightarrow> walk_result \<Rightarrow> walk_result" where
  "take_file f res = res\<lparr>wr_files := wr_files res @ [f]\<rparr>"

fun assertAncestorChain :: "world \<Rightarrow> ustr \<Rightarrow> ustr list \<Rightarrow> nat \<Rightarrow> (path_error + unit) \<times> nat" where
  "assertAncestorChain w current [] t = (Inr (), t)"
| "assertAncestorChain w current (segment # segments) t =
     (let current' = path_join [current, segment]
      in case w_lstat w t current' of
           Inl e \<Rightarrow> ((if e = ''ENOENT'' then Inr () else Inl (System e)), Suc t)
         | Inr st \<Rightarrow>
             if st_kind st = Link_Kind then (Inl Symlink_Refused, Suc t)
             else assertAncestorChain w current' segments (Suc t))"

definition assertAncestorChainNoSymlinks :: "world \<Rightarrow> ustr \<Rightarrow> nat \<Rightarrow> (path_error + unit) \<times> nat" where
  "assertAncestorChainNoSymlinks w absPath t =
     assertAncestorChain w [slash] (filter (\<lambda>s. 0 < length s) (split_on slash (drop 1 absPath))) t"

text \<open>The check of the base, made by the walk and by the single question.\<close>

definition check_base :: "world \<Rightarrow> ustr \<Rightarrow> nat \<Rightarrow> (path_error + stat) \<times> nat" where
  "check_base w resolvedBase t =
     (case assertAncestorChainNoSymlinks w resolvedBase t of
        (Inl e, t') \<Rightarrow> (Inl e, t')
      | (Inr _, t') \<Rightarrow>
          (case w_lstat w t' resolvedBase of
             Inl e \<Rightarrow> (Inl (System e), Suc t')
           | Inr st \<Rightarrow>
               ((if st_kind st = Link_Kind then Inl Symlink_Refused
                 else if st_kind st \<noteq> Dir_Kind then Inl Not_Regular_File
                 else Inr st), Suc t')))"

subsection \<open>The walk\<close>

datatype visit = Skip | Refuse ustr reason | Throw path_error | Descend ustr ustr stat | Take file_entry

definition visit_entry :: "(ustr \<Rightarrow> ustr) \<Rightarrow> world \<Rightarrow> ustr \<Rightarrow> ustr \<Rightarrow> ustr \<Rightarrow> ustr \<Rightarrow> nat \<Rightarrow> visit \<times> nat" where
  "visit_entry lower w base absDir relDir name t =
     (if name = here \<or> name = up then (Skip, t)
      else case validateRawSegmentName lower name of
             Inl e \<Rightarrow> (Refuse (posixJoin relDir name) Reason_Not_Regular, t)
           | Inr segment \<Rightarrow>
               (let childRel = posixJoin relDir segment;
                    childAbs = path_join [absDir, segment]
                in if \<not> isEqualOrParent base childAbs then (Refuse childRel Reason_Not_Regular, t)
                   else
                     case w_lstat w t childAbs of
                       Inl e \<Rightarrow> ((if e = ''ENOENT'' then Skip else Throw (System e)), Suc t)
                     | Inr st \<Rightarrow>
                         ((case st_kind st of
                             Link_Kind \<Rightarrow> Refuse childRel Reason_Symlink
                           | Dir_Kind \<Rightarrow> Descend childAbs childRel st
                           | Other_Kind \<Rightarrow> Refuse childRel Reason_Not_Regular
                           | File_Kind \<Rightarrow> Take \<lparr> fe_relPath = childRel, fe_absPath = childAbs, fe_stat = st \<rparr>),
                          Suc t)))"

text \<open>\<open>None\<close> is a walk that has not ended with the given depth.\<close>

definition relabel :: "ustr \<Rightarrow> ustr" where
  "relabel relDir = (if relDir = [] then here else relDir)"

text \<open>The check of a directory after it was read: the names when it is still the one expected.\<close>

definition read_directory ::
  "world \<Rightarrow> ustr \<Rightarrow> ustr \<Rightarrow> nat \<Rightarrow> nat \<Rightarrow> walk_result \<Rightarrow> nat \<Rightarrow> (path_error + walk_result + ustr list) \<times> nat" where
  "read_directory w absDir relDir expectedDev expectedIno res t =
     (case w_readdir w t absDir of
        Inl e \<Rightarrow> ((if e = ''ENOENT'' then Inr (Inl (refuse (relabel relDir) Reason_Not_Regular res)) else Inl (System e)), Suc t)
      | Inr entries \<Rightarrow>
          (case w_lstat w (Suc t) absDir of
             Inl e \<Rightarrow> ((if e = ''ENOENT'' then Inr (Inl (refuse (relabel relDir) Reason_Not_Regular res)) else Inl (System e)), Suc (Suc t))
           | Inr st \<Rightarrow>
               ((if st_kind st = Link_Kind \<or> st_kind st \<noteq> Dir_Kind \<or> st_dev st \<noteq> expectedDev \<or> st_ino st \<noteq> expectedIno
                 then Inr (Inl (refuse (relabel relDir)
                        (if st_kind st = Link_Kind then Reason_Symlink else Reason_Not_Regular) res))
                 else Inr (Inr entries)), Suc (Suc t))))"

function walkDirectory ::
    "(ustr \<Rightarrow> ustr) \<Rightarrow> world \<Rightarrow> ustr \<Rightarrow> nat \<Rightarrow> ustr \<Rightarrow> ustr \<Rightarrow> nat \<Rightarrow> nat \<Rightarrow> walk_result \<Rightarrow> nat \<Rightarrow>
     ((path_error + walk_result) \<times> nat) option"
  and walkEntries ::
    "(ustr \<Rightarrow> ustr) \<Rightarrow> world \<Rightarrow> ustr \<Rightarrow> nat \<Rightarrow> ustr \<Rightarrow> ustr \<Rightarrow> ustr list \<Rightarrow> walk_result \<Rightarrow> nat \<Rightarrow>
     ((path_error + walk_result) \<times> nat) option" where
  "walkDirectory lower w base 0 absDir relDir dev ino res t = None"
| "walkDirectory lower w base (Suc n) absDir relDir dev ino res t =
     (case read_directory w absDir relDir dev ino res t of
        (Inl e, t') \<Rightarrow> Some (Inl e, t')
      | (Inr (Inl res'), t') \<Rightarrow> Some (Inr res', t')
      | (Inr (Inr entries), t') \<Rightarrow> walkEntries lower w base n absDir relDir entries res t')"
| "walkEntries lower w base n absDir relDir [] res t = Some (Inr res, t)"
| "walkEntries lower w base n absDir relDir (name # names) res t =
     (case visit_entry lower w base absDir relDir name t of
        (Skip, t') \<Rightarrow> walkEntries lower w base n absDir relDir names res t'
      | (Refuse rel r, t') \<Rightarrow> walkEntries lower w base n absDir relDir names (refuse rel r res) t'
      | (Throw e, t') \<Rightarrow> Some (Inl e, t')
      | (Take f, t') \<Rightarrow> walkEntries lower w base n absDir relDir names (take_file f res) t'
      | (Descend childAbs childRel st, t') \<Rightarrow>
          (case walkDirectory lower w base n childAbs childRel (st_dev st) (st_ino st) res t' of
             None \<Rightarrow> None
           | Some (Inl e, t'') \<Rightarrow> Some (Inl e, t'')
           | Some (Inr res', t'') \<Rightarrow> walkEntries lower w base n absDir relDir names res' t''))"
  by pat_completeness auto
termination
  by (relation "measures
      [\<lambda>x. case x of Inl (_, _, _, n, _) \<Rightarrow> n | Inr (_, _, _, n, _) \<Rightarrow> n,
       \<lambda>x. case x of Inl _ \<Rightarrow> 0 | Inr (_, _, _, _, _, _, ns, _) \<Rightarrow> Suc (length ns)]") auto

definition safeWalk ::
  "(ustr \<Rightarrow> ustr) \<Rightarrow> ustr \<Rightarrow> world \<Rightarrow> nat \<Rightarrow> ustr \<Rightarrow> nat \<Rightarrow> ((path_error + walk_result) \<times> nat) option" where
  "safeWalk lower cwd w depth base t =
     (if \<not> path_isAbsolute base then Some (Inl Outside_Base, t)
      else
        let resolvedBase = path_resolve cwd [base]
        in case check_base w resolvedBase t of
             (Inl e, t') \<Rightarrow> Some (Inl e, t')
           | (Inr st, t') \<Rightarrow>
               walkDirectory lower w resolvedBase depth resolvedBase [] (st_dev st) (st_ino st)
                 \<lparr> wr_files = [], wr_refusals = [] \<rparr> t')"

subsection \<open>One file\<close>

datatype stat_child = Absent | Refused ustr reason | Present file_entry

text \<open>The directories on the way, each with its path and what it was.\<close>

fun intermediates ::
  "world \<Rightarrow> ustr \<Rightarrow> ustr \<Rightarrow> ustr list \<Rightarrow> (ustr \<times> ustr \<times> stat) list \<Rightarrow> nat \<Rightarrow>
   (path_error + stat_child + (ustr \<times> ustr \<times> stat) list) \<times> nat" where
  "intermediates w currentAbs currentRel [] acc t = (Inr (Inr acc), t)"
| "intermediates w currentAbs currentRel (segment # segments) acc t =
     (let place = path_join [currentAbs, segment];
          rel = posixJoin currentRel segment
      in case w_lstat w t place of
           Inl e \<Rightarrow> ((if e = ''ENOENT'' then Inr (Inl Absent) else Inl (System e)), Suc t)
         | Inr st \<Rightarrow>
             (case st_kind st of
                Link_Kind \<Rightarrow> (Inr (Inl (Refused rel Reason_Symlink)), Suc t)
              | Dir_Kind \<Rightarrow> intermediates w place rel segments (acc @ [(place, rel, st)]) (Suc t)
              | _ \<Rightarrow> (Inr (Inl (Refused rel Reason_Not_Regular)), Suc t)))"

text \<open>The second look at each of them.\<close>

fun check_again :: "world \<Rightarrow> (ustr \<times> ustr \<times> stat) list \<Rightarrow> nat \<Rightarrow> (path_error + stat_child + unit) \<times> nat" where
  "check_again w [] t = (Inr (Inr ()), t)"
| "check_again w ((place, rel, st) # rest) t =
     (case w_lstat w t place of
        Inl e \<Rightarrow> ((if e = ''ENOENT'' then Inr (Inl Absent) else Inl (System e)), Suc t)
      | Inr post \<Rightarrow>
          if st_kind post = Link_Kind \<or> st_kind post \<noteq> Dir_Kind \<or> st_dev post \<noteq> st_dev st \<or> st_ino post \<noteq> st_ino st
          then (Inr (Inl (Refused rel (if st_kind post = Link_Kind then Reason_Symlink else Reason_Not_Regular))), Suc t)
          else check_again w rest (Suc t))"

definition stat_leaf :: "world \<Rightarrow> ustr \<Rightarrow> ustr \<Rightarrow> nat \<Rightarrow> (path_error + stat_child) \<times> nat" where
  "stat_leaf w absPath normalized t =
     (case w_lstat w t absPath of
        Inl e \<Rightarrow> ((if e = ''ENOENT'' then Inr Absent else Inl (System e)), Suc t)
      | Inr st \<Rightarrow>
          (Inr (case st_kind st of
                  Link_Kind \<Rightarrow> Refused normalized Reason_Symlink
                | File_Kind \<Rightarrow> Present \<lparr> fe_relPath = normalized, fe_absPath = absPath, fe_stat = st \<rparr>
                | _ \<Rightarrow> Refused normalized Reason_Not_Regular), Suc t))"

definition safeStatChild ::
  "(ustr \<Rightarrow> ustr) \<Rightarrow> ustr \<Rightarrow> world \<Rightarrow> ustr \<Rightarrow> ustr option \<Rightarrow> nat \<Rightarrow> (path_error + stat_child) \<times> nat" where
  "safeStatChild lower cwd w base relPath t =
     (case resolveSafeChildPath lower cwd base relPath of
        Inl e \<Rightarrow> (Inl e, t)
      | Inr absPath \<Rightarrow>
          (let resolvedBase = path_resolve cwd [base]
           in case check_base w resolvedBase t of
                (Inl e, t1) \<Rightarrow> (Inl e, t1)
              | (Inr _, t1) \<Rightarrow>
                  (case normalizeRelPath lower relPath of
                     Inl e \<Rightarrow> (Inl e, t1)
                   | Inr normalized \<Rightarrow>
                       (case intermediates w resolvedBase [] (butlast (split_on slash normalized)) [] t1 of
                          (Inl e, t2) \<Rightarrow> (Inl e, t2)
                        | (Inr (Inl r), t2) \<Rightarrow> (Inr r, t2)
                        | (Inr (Inr seen), t2) \<Rightarrow>
                            (case check_again w seen t2 of
                               (Inl e, t3) \<Rightarrow> (Inl e, t3)
                             | (Inr (Inl r), t3) \<Rightarrow> (Inr r, t3)
                             | (Inr (Inr _), t3) \<Rightarrow> stat_leaf w absPath normalized t3)))))"

subsection \<open>Normalized relative paths\<close>

definition listable :: "(ustr \<Rightarrow> ustr) \<Rightarrow> ustr \<Rightarrow> bool" where
  "listable lower s \<longleftrightarrow> clean_seg s \<and> back_slash \<notin> set s \<and> safe_segment lower s"

lemma safe_not_dots: "safe_segment lower s \<Longrightarrow> s \<noteq> here \<and> s \<noteq> up"
  by (auto simp: safe_segment_def assertSafeSegment_def split: if_splits)

lemma safe_no_nul: "safe_segment lower s \<Longrightarrow> 0 \<notin> set s"
  by (auto simp: safe_segment_def assertSafeSegment_def split: if_splits)

lemma collect_segments_iff:
  "collect_segments lower acc raws = Inr segs \<longleftrightarrow>
   (\<forall>r \<in> set raws. r = [] \<or> r = here \<or> safe_segment lower r) \<and>
   segs = acc @ filter (\<lambda>r. r \<noteq> [] \<and> r \<noteq> here) raws"
proof (induction raws arbitrary: acc)
  case (Cons r raws)
  have unit: "assertSafeSegment lower r = Inr u \<longleftrightarrow> safe_segment lower r" for u
    by (simp add: safe_segment_def)
  show ?case
  proof (cases "r = [] \<or> r = here")
    case True
    then show ?thesis using Cons.IH by auto
  next
    case False
    show ?thesis
    proof (cases "safe_segment lower r")
      case True
      then have "assertSafeSegment lower r = Inr ()" "r \<noteq> up"
        using safe_not_dots by (auto simp: safe_segment_def)
      then show ?thesis using False True Cons.IH by simp
    next
      case unsafe: False
      then obtain e where "assertSafeSegment lower r = Inl e"
        using unit by (cases "assertSafeSegment lower r") auto
      then show ?thesis using False unsafe by simp
    qed
  qed
qed auto

lemma segment_in_join: "w \<in> set ws \<Longrightarrow> set w \<subseteq> set (join_on c ws)"
  by (induction c ws rule: join_on.induct) auto

lemma last_join_on: "ws \<noteq> [] \<Longrightarrow> last ws \<noteq> [] \<Longrightarrow> last (join_on c ws) = last (last ws)"
proof (induction c ws rule: join_on.induct)
  case (3 c w v vs)
  have "join_on c (v # vs) \<noteq> []" if "last (v # vs) \<noteq> []"
    using that segment_in_join [of "last (v # vs)" "v # vs" c] by (metis last_in_set list.distinct(1) set_empty subset_empty)
  then show ?case using 3 by simp
qed simp_all

lemma normalized_segments:
  assumes "normalizeRelPath lower p = Inr q"
  obtains ss where "ss \<noteq> []" "\<forall>s \<in> set ss. listable lower s" "q = join_on slash ss"
proof -
  from assms obtain t segs where p: "p = Some t"
    and c: "collect_segments lower [] (raw_segments t) = Inr segs" and q: "segs \<noteq> []" "q = join_on slash segs"
    by (auto simp: normalizeRelPath_def split: option.splits if_splits sum.splits)
  from c have all: "\<forall>r \<in> set (raw_segments t). r = [] \<or> r = here \<or> safe_segment lower r"
    and segs: "segs = filter (\<lambda>r. r \<noteq> [] \<and> r \<noteq> here) (raw_segments t)"
    by (simp_all add: collect_segments_iff)
  have "listable lower s" if s: "s \<in> set segs" for s
  proof -
    from s segs all have safe: "safe_segment lower s" "s \<noteq> []" and raw: "s \<in> set (raw_segments t)" by auto
    from raw have "slash \<notin> set s" unfolding raw_segments_def by (rule split_on_free)
    moreover have "back_slash \<notin> set s"
    proof
      assume "back_slash \<in> set s"
      then have "back_slash \<in> set (join_on slash (raw_segments t))"
        using raw segment_in_join [of s "raw_segments t" slash] by blast
      then show False by (auto simp: raw_segments_def back_slash_def slash_def)
    qed
    ultimately show ?thesis using safe safe_not_dots unfolding listable_def by (blast intro: clean_segI)
  qed
  then show thesis using that q by blast
qed

lemma listable_clean: "\<forall>s \<in> set ss. listable lower s \<Longrightarrow> \<forall>s \<in> set ss. clean_seg s"
  by (simp add: listable_def)

lemma set_join_on: "set (join_on c ws) \<subseteq> insert c (\<Union> (set ` set ws))"
  by (induction c ws rule: join_on.induct) auto

lemma raw_segments_normalized:
  assumes "ss \<noteq> []" and "\<forall>s \<in> set ss. listable lower s"
  shows "raw_segments (join_on slash ss) = ss"
proof -
  have "back_slash \<notin> set (join_on slash ss)"
    using assms(2) set_join_on [of slash ss] by (auto simp: listable_def back_slash_def slash_def)
  then have "map (\<lambda>u. if u = back_slash then slash else u) (join_on slash ss) = join_on slash ss"
    by (auto intro: map_idI)
  moreover have "\<forall>s \<in> set ss. slash \<notin> set s" using assms(2) by (simp add: listable_def clean_seg_def)
  ultimately show ?thesis using assms(1) by (simp add: raw_segments_def split_join)
qed

lemma join_not_absolute:
  assumes "ss \<noteq> []" and "\<forall>s \<in> set ss. clean_seg s"
  shows "\<not> path_isAbsolute (join_on slash ss)" and "join_on slash ss \<noteq> []"
proof -
  obtain s rest where ss: "ss = s # rest" using assms(1) by (cases ss) auto
  then have s: "clean_seg s" using assms(2) by simp
  then show "\<not> path_isAbsolute (join_on slash ss)" unfolding ss by (rule clean_not_absolute)
  have "s \<noteq> []" using s by (rule clean_segD)
  then show "join_on slash ss \<noteq> []" by (cases rest) (simp_all add: ss)
qed

lemma normalize_listable:
  assumes ss: "ss \<noteq> []" "\<forall>s \<in> set ss. listable lower s"
  shows "normalizeRelPath lower (Some (join_on slash ss)) =
    (if win32_isAbsolute (join_on slash ss) then Inl Invalid_Segment else Inr (join_on slash ss))"
proof -
  have "0 \<notin> set (join_on slash ss)"
  proof
    assume "0 \<in> set (join_on slash ss)"
    then obtain s where "s \<in> set ss" "0 \<in> set s" using set_join_on [of slash ss] by (auto simp: slash_def)
    then show False using ss(2) safe_no_nul unfolding listable_def by blast
  qed
  moreover have "filter (\<lambda>r. r \<noteq> [] \<and> r \<noteq> here) ss = ss"
    using ss(2) by (auto simp: listable_def clean_seg_def intro!: filter_True)
  moreover have "collect_segments lower [] ss = Inr ss"
    using ss(2) calculation(2) by (simp add: collect_segments_iff listable_def)
  moreover note join_not_absolute [OF ss(1) listable_clean [OF ss(2)]]
  ultimately show ?thesis
    using ss(1) by (simp add: normalizeRelPath_def raw_segments_normalized [OF ss])
qed

text \<open>
  Fact. A normalized path is its own normal form, unless it begins like a drive of Windows: a
  path such as \<^verbatim>\<open>./c:/x\<close> is accepted and becomes \<^verbatim>\<open>c:/x\<close>, which is refused.
\<close>

theorem normal_form_of_a_normal_form:
  assumes "normalizeRelPath lower p = Inr q"
  shows "normalizeRelPath lower (Some q) = (if win32_isAbsolute q then Inl Invalid_Segment else Inr q)"
proof -
  obtain ss where "ss \<noteq> []" "\<forall>s \<in> set ss. listable lower s" "q = join_on slash ss"
    using assms by (rule normalized_segments)
  then show ?thesis using normalize_listable by simp
qed

theorem normal_form_of_a_normal_form_witness:
  "normalizeRelPath id (Some (ascii ''./c:/x'')) = Inr (ascii ''c:/x'') \<and>
   normalizeRelPath id (Some (ascii ''c:/x'')) = Inl Invalid_Segment"
proof -
  have n: "normalizeRelPath id (Some (ascii ''./c:/x'')) = Inr (ascii ''c:/x'')"
    by (simp add: normalizeRelPath_def raw_segments_def win32_isAbsolute_def path_isAbsolute_def ascii_simps
        slash_def dot_def back_slash_def assertSafeSegment_def utf8_length_def utf8_encode_def encode_point_def
        is_high_def is_low_def MAX_SEGMENT_LENGTH_BYTES_def WINDOWS_RESERVED_def is_letter_def)
  have "win32_isAbsolute (ascii ''c:/x'')"
    by (simp add: win32_isAbsolute_def is_letter_def ascii_simps slash_def)
  then show ?thesis using n normal_form_of_a_normal_form [OF n] by simp
qed

subsection \<open>A child is below its base\<close>

lemma equal_or_parent_below:
  assumes "\<forall>s \<in> set B. clean_seg s"
  shows "isEqualOrParent (abs_path B) (abs_path (B @ us))"
proof (cases "us = []")
  case False
  show ?thesis
  proof (cases "B = []")
    case True
    then show ?thesis by (simp add: isEqualOrParent_def abs_path_def starts_with_def)
  next
    case B: False
    have "last B \<noteq> []" "slash \<notin> set (last B)" using assms B by (auto simp: clean_seg_def)
    then have "last (join_on slash B) \<noteq> slash" using last_join_on [OF B] by (metis last_in_set)
    moreover have "join_on slash B \<noteq> []" using join_not_absolute(2) [OF B assms] .
    moreover have "abs_path (B @ us) = abs_path B @ slash # join_on slash us"
      using B False by (simp add: abs_path_def join_on_append)
    ultimately show ?thesis by (simp add: isEqualOrParent_def starts_with_def abs_path_def)
  qed
qed (simp add: isEqualOrParent_def)

lemma resolve_child:
  assumes B: "\<forall>s \<in> set B. clean_seg s" and ss: "ss \<noteq> []" "\<forall>s \<in> set ss. clean_seg s"
  shows "path_resolve cwd [abs_path B, join_on slash ss] = abs_path (B @ ss)"
proof -
  have "foldl resolve_step cwd [abs_path B, join_on slash ss] = abs_path B @ slash # join_on slash ss"
    using join_not_absolute [OF ss] by (simp add: resolve_step_def abs_path_def path_isAbsolute_def)
  moreover have "split_on slash (join_on slash ss) = ss"
    using ss by (intro split_join) (auto simp: clean_seg_def)
  ultimately show ?thesis
    using normalize_below [OF B] ss by (simp add: resolve_is_abs_path)
qed

text \<open>
  Fact. Whatever a relative path says, its file is below the base: with an absolute base the
  answer is the refusal of the normal form, or the base followed by one or more names that are
  none of the two dots; the last check of the code never refuses.
\<close>

theorem child_path_is_below_its_base:
  assumes "path_isAbsolute base"
  shows "(\<exists>e. normalizeRelPath lower p = Inl e \<and> resolveSafeChildPath lower cwd base p = Inl e) \<or>
    (\<exists>ss. ss \<noteq> [] \<and> (\<forall>s \<in> set ss. listable lower s) \<and> normalizeRelPath lower p = Inr (join_on slash ss) \<and>
      resolveSafeChildPath lower cwd base p = Inr (abs_path (abs_segs (path_resolve cwd [base]) @ ss)))"
proof (cases "normalizeRelPath lower p")
  case (Inl e)
  then show ?thesis using assms by (simp add: resolveSafeChildPath_def)
next
  case (Inr q)
  then obtain ss where ss: "ss \<noteq> []" "\<forall>s \<in> set ss. listable lower s" "q = join_on slash ss"
    by (rule normalized_segments)
  define B where "B = normalize_segs False (split_on slash (foldl resolve_step cwd [base]))"
  have root: "path_resolve cwd [base] = abs_path B" unfolding B_def by (rule resolve_is_abs_path)
  have B: "\<forall>s \<in> set B. clean_seg s" unfolding B_def by (rule normalized_is_clean)
  have "resolveSafeChildPath lower cwd base p = Inr (abs_path (B @ ss))"
    using assms Inr ss(3) equal_or_parent_below [OF B] resolve_child [OF B ss(1) listable_clean [OF ss(2)]]
    by (simp add: resolveSafeChildPath_def root)
  then show ?thesis using ss Inr root abs_segs_abs_path [OF B] by auto
qed

theorem child_path_is_below_its_base_witness:
  "\<exists>ss. ss \<noteq> [] \<and> normalizeRelPath id (Some (ascii ''a'')) = Inr (join_on slash ss) \<and>
     resolveSafeChildPath id (ascii ''/'') (ascii ''/b'') (Some (ascii ''a'')) =
       Inr (abs_path (abs_segs (path_resolve (ascii ''/'') [ascii ''/b'']) @ ss))"
proof -
  have "path_isAbsolute (ascii ''/b'')" by (simp add: path_isAbsolute_def ascii_simps slash_def)
  moreover have "normalizeRelPath id (Some (ascii ''a'')) = Inr (ascii ''a'')"
    by (simp add: normalizeRelPath_def raw_segments_def win32_isAbsolute_def path_isAbsolute_def ascii_simps
        slash_def dot_def back_slash_def assertSafeSegment_def utf8_length_def utf8_encode_def encode_point_def
        is_high_def is_low_def MAX_SEGMENT_LENGTH_BYTES_def WINDOWS_RESERVED_def is_letter_def)
  ultimately show ?thesis using child_path_is_below_its_base [of "ascii ''/b''" id "Some (ascii ''a'')" "ascii ''/''"] by auto
qed

subsection \<open>What the walk lists\<close>

definition same_directory :: "stat \<Rightarrow> stat \<Rightarrow> bool" where
  "same_directory a b \<longleftrightarrow> st_kind a = Dir_Kind \<and> st_dev a = st_dev b \<and> st_ino a = st_ino b"

text \<open>
  A directory is reached when it is the base, or a name that was read in a reached directory and
  found to be a directory, where the directory it was read in was, before and after it was read,
  one and the same directory.
\<close>

inductive reached :: "(ustr \<Rightarrow> ustr) \<Rightarrow> world \<Rightarrow> ustr list \<Rightarrow> ustr list \<Rightarrow> stat \<Rightarrow> nat \<Rightarrow> bool"
  and opened :: "(ustr \<Rightarrow> ustr) \<Rightarrow> world \<Rightarrow> ustr list \<Rightarrow> ustr list \<Rightarrow> ustr list \<Rightarrow> nat \<Rightarrow> bool"
  for lower w B where
  base: "w_lstat w t (abs_path B) = Inr st \<Longrightarrow> st_kind st = Dir_Kind \<Longrightarrow> reached lower w B [] st t"
| reading: "reached lower w B ds st t0 \<Longrightarrow> t0 < t \<Longrightarrow>
    w_readdir w t (abs_path (B @ ds)) = Inr entries \<Longrightarrow>
    w_lstat w (Suc t) (abs_path (B @ ds)) = Inr st' \<Longrightarrow> same_directory st' st \<Longrightarrow>
    opened lower w B ds entries (Suc t)"
| child: "opened lower w B ds entries t0 \<Longrightarrow> name \<in> set entries \<Longrightarrow> listable lower name \<Longrightarrow> t0 < t \<Longrightarrow>
    w_lstat w t (abs_path (B @ ds @ [name])) = Inr st \<Longrightarrow> st_kind st = Dir_Kind \<Longrightarrow>
    reached lower w B (ds @ [name]) st t"

definition listed :: "(ustr \<Rightarrow> ustr) \<Rightarrow> world \<Rightarrow> ustr list \<Rightarrow> file_entry \<Rightarrow> bool" where
  "listed lower w B f \<longleftrightarrow>
     (\<exists>ds entries name t0 t. opened lower w B ds entries t0 \<and> name \<in> set entries \<and> listable lower name \<and>
        t0 < t \<and> w_lstat w t (abs_path (B @ ds @ [name])) = Inr (fe_stat f) \<and> st_kind (fe_stat f) = File_Kind \<and>
        fe_relPath f = join_on slash (ds @ [name]) \<and> fe_absPath f = abs_path (B @ ds @ [name]))"

lemma reached_listable:
  "reached lower w B ds st t \<Longrightarrow> \<forall>s \<in> set ds. listable lower s"
  "opened lower w B ds entries t \<Longrightarrow> \<forall>s \<in> set ds. listable lower s"
  by (induction rule: reached_opened.inducts) auto

lemma posixJoin_segs:
  assumes "\<forall>s \<in> set ds. clean_seg s"
  shows "posixJoin (join_on slash ds) name = join_on slash (ds @ [name])"
proof (cases "ds = []")
  case False
  then show ?thesis using join_not_absolute(2) [OF False assms] by (simp add: posixJoin_def join_on_append)
qed (simp add: posixJoin_def)

lemma validated_name:
  "validateRawSegmentName lower name = Inr seg \<longleftrightarrow> seg = name \<and> listable lower name"
  by (auto simp: validateRawSegmentName_def listable_def clean_seg_def safe_segment_def split: sum.splits)

text \<open>What looking at one name can lead to.\<close>

lemma visit_cases:
  assumes B: "\<forall>s \<in> set B. clean_seg s" and ds: "\<forall>s \<in> set ds. clean_seg s"
    and run: "visit_entry lower w (abs_path B) (abs_path (B @ ds)) (join_on slash ds) name t = (v, t')"
  shows "t \<le> t'" and
    "v = Take f \<Longrightarrow> listable lower name \<and> w_lstat w t (abs_path (B @ ds @ [name])) = Inr (fe_stat f) \<and>
       st_kind (fe_stat f) = File_Kind \<and> fe_relPath f = join_on slash (ds @ [name]) \<and>
       fe_absPath f = abs_path (B @ ds @ [name]) \<and> t' = Suc t" and
    "v = Descend ca cr st \<Longrightarrow> listable lower name \<and> w_lstat w t (abs_path (B @ ds @ [name])) = Inr st \<and>
       st_kind st = Dir_Kind \<and> cr = join_on slash (ds @ [name]) \<and> ca = abs_path (B @ ds @ [name]) \<and> t' = Suc t"
proof -
  have BD: "\<forall>s \<in> set (B @ ds). clean_seg s" using B ds by auto
  have join: "path_join [abs_path (B @ ds), name] = abs_path (B @ ds @ [name])" if "listable lower name"
    using path_join_child [OF BD, of name] that by (simp add: listable_def)
  have below: "isEqualOrParent (abs_path B) (abs_path (B @ ds @ [name]))"
    by (rule equal_or_parent_below [OF B])
  note rel = posixJoin_segs [OF ds]
  show "t \<le> t'" and
    "v = Take f \<Longrightarrow> listable lower name \<and> w_lstat w t (abs_path (B @ ds @ [name])) = Inr (fe_stat f) \<and>
       st_kind (fe_stat f) = File_Kind \<and> fe_relPath f = join_on slash (ds @ [name]) \<and>
       fe_absPath f = abs_path (B @ ds @ [name]) \<and> t' = Suc t" and
    "v = Descend ca cr st \<Longrightarrow> listable lower name \<and> w_lstat w t (abs_path (B @ ds @ [name])) = Inr st \<and>
       st_kind st = Dir_Kind \<and> cr = join_on slash (ds @ [name]) \<and> ca = abs_path (B @ ds @ [name]) \<and> t' = Suc t"
    using run validated_name [of lower name name] join below rel
    by (cases "validateRawSegmentName lower name"; auto simp: visit_entry_def Let_def validated_name
        split: if_splits sum.splits kind.splits)+
qed

lemma read_directory_names:
  assumes "read_directory w absDir relDir dev ino res t = (Inr (Inr entries), t')"
  shows "w_readdir w t absDir = Inr entries \<and> t' = Suc (Suc t) \<and>
    (\<exists>st. w_lstat w (Suc t) absDir = Inr st \<and> st_kind st = Dir_Kind \<and> st_dev st = dev \<and> st_ino st = ino)"
  using assms by (auto simp: read_directory_def split: sum.splits if_splits)

lemma read_directory_refusal:
  assumes "read_directory w absDir relDir dev ino res t = (Inr (Inl res'), t')"
  shows "wr_files res' = wr_files res \<and> t \<le> t'"
  using assms by (auto simp: read_directory_def refuse_def split: sum.splits if_splits)

lemma walk_lists:
  assumes B: "\<forall>s \<in> set B. clean_seg s"
  shows "walkDirectory lower w base n absDir relDir dev ino res t = Some (Inr res', t') \<Longrightarrow>
     base = abs_path B \<Longrightarrow> absDir = abs_path (B @ ds) \<Longrightarrow> relDir = join_on slash ds \<Longrightarrow>
     reached lower w B ds st t0 \<Longrightarrow> t0 < t \<Longrightarrow> st_dev st = dev \<Longrightarrow> st_ino st = ino \<Longrightarrow>
     t \<le> t' \<and> (\<forall>f \<in> set (wr_files res'). f \<in> set (wr_files res) \<or> listed lower w B f)"
    and "walkEntries lower w base n absDir relDir names res t = Some (Inr res', t') \<Longrightarrow>
     base = abs_path B \<Longrightarrow> absDir = abs_path (B @ ds) \<Longrightarrow> relDir = join_on slash ds \<Longrightarrow>
     opened lower w B ds entries t0 \<Longrightarrow> t0 < t \<Longrightarrow> set names \<subseteq> set entries \<Longrightarrow>
     t \<le> t' \<and> (\<forall>f \<in> set (wr_files res'). f \<in> set (wr_files res) \<or> listed lower w B f)"
proof (induction lower w base n absDir relDir dev ino res t and lower w base n absDir relDir names res t
    arbitrary: ds st t0 res' t' and ds entries t0 res' t' rule: walkDirectory_walkEntries.induct)
  case (2 lower w base n absDir relDir dev ino res t)
  obtain r t1 where r: "read_directory w absDir relDir dev ino res t = (r, t1)" by fastforce
  show ?case
  proof (cases r)
    case (Inl e)
    then show ?thesis using "2.prems"(1) r by simp
  next
    case (Inr x)
    show ?thesis
    proof (cases x)
      case (Inl res1)
      then show ?thesis using "2.prems"(1) r Inr read_directory_refusal by fastforce
    next
      case (Inr names)
      then have rd: "read_directory w absDir relDir dev ino res t = (Inr (Inr names), t1)" using r \<open>r = Inr x\<close> by simp
      then have names: "w_readdir w t absDir = Inr names" "t1 = Suc (Suc t)"
        "\<exists>st'. w_lstat w (Suc t) absDir = Inr st' \<and> st_kind st' = Dir_Kind \<and> st_dev st' = dev \<and> st_ino st' = ino"
        using read_directory_names by blast+
      then have "opened lower w B ds names (Suc t)"
        using reached_opened.reading [OF "2.prems"(5,6)] "2.prems"(3,7,8) by (auto simp: same_directory_def)
      moreover have "walkEntries lower w base n absDir relDir names res t1 = Some (Inr res', t')"
        using "2.prems"(1) rd by simp
      ultimately show ?thesis
        using "2.IH" [OF rd [symmetric] refl refl _ "2.prems"(2-4)] names(2) by fastforce
    qed
  qed
next
  case (4 lower w base n absDir relDir name names res t)
  obtain v t1 where v: "visit_entry lower w base absDir relDir name t = (v, t1)" by fastforce
  have ds: "\<forall>s \<in> set ds. clean_seg s" using reached_listable(2) [OF "4.prems"(5)] by (rule listable_clean)
  note vc = visit_cases [OF B ds v [unfolded "4.prems"(2-4)]]
  have more: "t0 < t1" "set names \<subseteq> set entries" "name \<in> set entries"
    using vc(1) "4.prems"(6,7) by auto
  show ?case
  proof (cases v)
    case Skip
    then show ?thesis using "4.IH"(1) [OF v [symmetric] Skip _ "4.prems"(2-5) more(1,2)] "4.prems"(1) v vc(1) by fastforce
  next
    case (Refuse rel r)
    then show ?thesis
      using "4.IH"(2) [OF v [symmetric] Refuse _ "4.prems"(2-5) more(1,2)] "4.prems"(1) v vc(1)
      by (fastforce simp: refuse_def)
  next
    case (Throw e)
    then show ?thesis using "4.prems"(1) v by simp
  next
    case (Take f)
    then have "listed lower w B f" unfolding listed_def using vc(2) [OF Take] "4.prems"(5,6) more(3) by blast
    then show ?thesis
      using "4.IH"(5) [OF v [symmetric] Take _ "4.prems"(2-5) more(1,2)] "4.prems"(1) v Take vc(1)
      by (fastforce simp: take_file_def)
  next
    case (Descend ca cr st)
    note d = vc(3) [OF Descend]
    have reach: "reached lower w B (ds @ [name]) st t"
      using reached_opened.child [OF "4.prems"(5) more(3)] d "4.prems"(6) by blast
    obtain x t2 where sub: "walkDirectory lower w base n ca cr (st_dev st) (st_ino st) res t1 = Some (x, t2)"
      using "4.prems"(1) v Descend by (auto split: option.splits)
    obtain res1 where x: "x = Inr res1" using "4.prems"(1) v Descend sub by (cases x) auto
    have rest: "walkEntries lower w base n absDir relDir names res1 t2 = Some (Inr res', t')"
      using "4.prems"(1) v Descend sub x by simp
    have "t1 \<le> t2 \<and> (\<forall>f \<in> set (wr_files res1). f \<in> set (wr_files res) \<or> listed lower w B f)"
      using "4.IH"(3) [OF v [symmetric] Descend _ "4.prems"(2) _ _ reach] sub x d by simp
    moreover have "t2 \<le> t' \<and> (\<forall>f \<in> set (wr_files res'). f \<in> set (wr_files res1) \<or> listed lower w B f)"
      using "4.IH"(4) [OF v [symmetric] Descend sub refl x rest "4.prems"(2-5) _ more(2)] calculation more(1) by simp
    ultimately show ?thesis using vc(1) by (meson le_trans)
  qed
qed simp_all

lemma check_base_directory:
  assumes "check_base w p t = (Inr st, t')"
  shows "\<exists>t0. t' = Suc t0 \<and> w_lstat w t0 p = Inr st \<and> st_kind st = Dir_Kind"
  using assms by (auto simp: check_base_def split: prod.splits sum.splits if_splits)

lemma resolved_base:
  obtains B where "path_resolve cwd [base] = abs_path B" "\<forall>s \<in> set B. clean_seg s"
    "abs_segs (path_resolve cwd [base]) = B"
proof -
  define B where "B = normalize_segs False (split_on slash (foldl resolve_step cwd [base]))"
  have "path_resolve cwd [base] = abs_path B" unfolding B_def by (rule resolve_is_abs_path)
  moreover have "\<forall>s \<in> set B. clean_seg s" unfolding B_def by (rule normalized_is_clean)
  ultimately show thesis using that abs_segs_abs_path by metis
qed

lemma safeWalk_run:
  assumes "safeWalk lower cwd w depth base t = Some (Inr res, t')" and "path_resolve cwd [base] = abs_path B"
  obtains st t1 where "check_base w (abs_path B) t = (Inr st, t1)"
    "walkDirectory lower w (abs_path B) depth (abs_path B) [] (st_dev st) (st_ino st)
       \<lparr> wr_files = [], wr_refusals = [] \<rparr> t1 = Some (Inr res, t')"
  using assms by (auto simp: safeWalk_def Let_def split: if_splits prod.splits sum.splits)

lemma walk_lists_all:
  assumes run: "safeWalk lower cwd w depth base t = Some (Inr res, t')" and f: "f \<in> set (wr_files res)"
  shows "listed lower w (abs_segs (path_resolve cwd [base])) f"
proof -
  obtain B where B: "path_resolve cwd [base] = abs_path B" "\<forall>s \<in> set B. clean_seg s"
    "abs_segs (path_resolve cwd [base]) = B" by (rule resolved_base)
  from run B(1) obtain st t1 where c: "check_base w (abs_path B) t = (Inr st, t1)"
    and wd: "walkDirectory lower w (abs_path B) depth (abs_path B) [] (st_dev st) (st_ino st)
       \<lparr> wr_files = [], wr_refusals = [] \<rparr> t1 = Some (Inr res, t')" by (rule safeWalk_run)
  from check_base_directory [OF c] obtain t0 where t0: "t1 = Suc t0" "w_lstat w t0 (abs_path B) = Inr st" "st_kind st = Dir_Kind"
    by blast
  have "reached lower w B [] st t0" using t0(2,3) by (rule reached_opened.base)
  then show ?thesis
    using walk_lists(1) [OF B(2) wd refl, of "[]" st t0] f t0(1) B(3) by auto
qed

text \<open>
  Property C4. However the files change while it runs, the walk lists a file only when a call found
  it to be a regular file, under a name without a danger, in a directory that was reached from
  the base through directories only: each of them no link, and one and the same directory before
  and after the name of the next was read in it.
\<close>

theorem walk_lists_only_what_it_reached:
  assumes "safeWalk lower cwd w depth base t = Some (Inr res, t')" and "f \<in> set (wr_files res)"
  shows "\<exists>ds entries name t0 t1. opened lower w (abs_segs (path_resolve cwd [base])) ds entries t0 \<and>
    name \<in> set entries \<and> listable lower name \<and> t0 < t1 \<and>
    w_lstat w t1 (fe_absPath f) = Inr (fe_stat f) \<and> st_kind (fe_stat f) = File_Kind \<and>
    fe_relPath f = join_on slash (ds @ [name]) \<and>
    fe_absPath f = abs_path (abs_segs (path_resolve cwd [base]) @ ds @ [name])"
  using walk_lists_all [OF assms] unfolding listed_def by metis

subsection \<open>The walk ends\<close>

lemma join_grows: "length (abs_path (B @ [s])) > length (abs_path B)" if "s \<noteq> []"
proof (cases "B = []")
  case False
  then show ?thesis by (simp add: abs_path_def join_on_append)
qed (use that in \<open>simp add: abs_path_def\<close>)

definition name_limit :: "nat \<Rightarrow> world \<Rightarrow> bool" where
  "name_limit L w \<longleftrightarrow> (\<forall>t p. L \<le> length p \<longrightarrow> w_lstat w t p = Inl ''ENAMETOOLONG'')"

lemma walk_ends_aux:
  assumes B: "\<forall>s \<in> set B. clean_seg s"
  shows "name_limit L w \<Longrightarrow> base = abs_path B \<Longrightarrow> absDir = abs_path (B @ ds) \<Longrightarrow> relDir = join_on slash ds \<Longrightarrow>
      \<forall>s \<in> set ds. clean_seg s \<Longrightarrow> length absDir < L \<Longrightarrow> L < n + length absDir \<Longrightarrow>
      walkDirectory lower w base n absDir relDir dev ino res t \<noteq> None"
    and "name_limit L w \<Longrightarrow> base = abs_path B \<Longrightarrow> absDir = abs_path (B @ ds) \<Longrightarrow> relDir = join_on slash ds \<Longrightarrow>
      \<forall>s \<in> set ds. clean_seg s \<Longrightarrow> length absDir < L \<Longrightarrow> L \<le> n + length absDir \<Longrightarrow>
      walkEntries lower w base n absDir relDir names res t \<noteq> None"
proof (induction lower w base n absDir relDir dev ino res t and lower w base n absDir relDir names res t
    arbitrary: ds and ds rule: walkDirectory_walkEntries.induct)
  case (2 lower w base n absDir relDir dev ino res t)
  then show ?case by (auto split: prod.splits sum.splits)
next
  case (4 lower w base n absDir relDir name names res t)
  obtain v t1 where v: "visit_entry lower w base absDir relDir name t = (v, t1)" by fastforce
  note vc = visit_cases [OF B "4.prems"(5) v [unfolded "4.prems"(2-4)]]
  show ?case
  proof (cases v)
    case Skip
    then show ?thesis using "4.IH"(1) [OF v [symmetric] Skip "4.prems"] v by simp
  next
    case (Refuse rel r)
    then show ?thesis using "4.IH"(2) [OF v [symmetric] Refuse "4.prems"] v by simp
  next
    case (Throw e)
    then show ?thesis using v by simp
  next
    case (Take f)
    then show ?thesis using "4.IH"(5) [OF v [symmetric] Take "4.prems"] v by simp
  next
    case (Descend ca cr st)
    note d = vc(3) [OF Descend]
    then have name: "clean_seg name" "name \<noteq> []" by (simp_all add: listable_def clean_seg_def)
    have "length ca < L"
    proof (rule ccontr)
      assume "\<not> length ca < L"
      then have "w_lstat w t ca = Inl ''ENAMETOOLONG''" using "4.prems"(1) by (simp add: name_limit_def)
      then show False using d by simp
    qed
    moreover have "length absDir < length ca"
      using join_grows [OF name(2), of "B @ ds"] d "4.prems"(3) by simp
    moreover have "\<forall>s \<in> set (ds @ [name]). clean_seg s" using "4.prems"(5) name(1) by simp
    ultimately have "walkDirectory lower w base n ca cr (st_dev st) (st_ino st) res t1 \<noteq> None"
      using "4.IH"(3) [OF v [symmetric] Descend "4.prems"(1,2), of "ds @ [name]"] d "4.prems"(7) by simp
    then obtain x t2 where sub: "walkDirectory lower w base n ca cr (st_dev st) (st_ino st) res t1 = Some (x, t2)" by auto
    show ?thesis
    proof (cases x)
      case (Inl e)
      then show ?thesis using v Descend sub by simp
    next
      case (Inr res1)
      then have "walkEntries lower w base n absDir relDir names res1 t2 \<noteq> None"
        using "4.IH"(4) [OF v [symmetric] Descend sub refl Inr "4.prems"] by simp
      then show ?thesis using v Descend sub Inr by simp
    qed
  qed
qed auto

text \<open>
  Property C16. The walk ends, whatever it meets and however the files change meanwhile: names have a
  longest length \<open>L\<close> beyond which a call fails, and then a depth of \<open>L + 1\<close> is never used up.
\<close>

theorem walk_always_ends:
  assumes "\<forall>t p. L \<le> length p \<longrightarrow> w_lstat w t p = Inl ''ENAMETOOLONG''"
  shows "\<exists>r t'. safeWalk lower cwd w (Suc L) base t = Some (r, t')"
proof -
  obtain B where B: "path_resolve cwd [base] = abs_path B" "\<forall>s \<in> set B. clean_seg s" by (rule resolved_base)
  have limit: "name_limit L w" using assms by (simp add: name_limit_def)
  show ?thesis
  proof (cases "path_isAbsolute base")
    case True
    obtain r t1 where c: "check_base w (abs_path B) t = (r, t1)" by fastforce
    show ?thesis
    proof (cases r)
      case (Inl e)
      then show ?thesis using True c B(1) by (simp add: safeWalk_def)
    next
      case (Inr st)
      then obtain t0 where st: "w_lstat w t0 (abs_path B) = Inr st" using check_base_directory c by blast
      have "length (abs_path B) < L"
        using limit st unfolding name_limit_def by (metis Inl_Inr_False not_le)
      moreover have "0 < length (abs_path B)" by (simp add: abs_path_def)
      ultimately have "walkDirectory lower w (abs_path B) (Suc L) (abs_path B) [] (st_dev st) (st_ino st)
          \<lparr> wr_files = [], wr_refusals = [] \<rparr> t1 \<noteq> None"
        using walk_ends_aux(1) [OF B(2) limit refl, of _ "[]"] by (simp del: walkDirectory.simps)
      then show ?thesis using True c B(1) Inr by (auto simp: safeWalk_def simp del: walkDirectory.simps)
    qed
  qed (simp add: safeWalk_def)
qed

subsection \<open>The walk and the single question agree\<close>

definition unchanging :: "world \<Rightarrow> bool" where
  "unchanging w \<longleftrightarrow> (\<forall>t. w_lstat w t = w_lstat w 0 \<and> w_readdir w t = w_readdir w 0)"

lemma static_lstat: "unchanging w \<Longrightarrow> w_lstat w t p = w_lstat w 0 p"
  by (metis unchanging_def)

definition directory_at :: "world \<Rightarrow> ustr list \<Rightarrow> bool" where
  "directory_at w p \<longleftrightarrow> (\<exists>st. w_lstat w 0 (abs_path p) = Inr st \<and> st_kind st = Dir_Kind)"

lemma reached_directories:
  assumes "unchanging w"
  shows "reached lower w B ds st t \<Longrightarrow> \<forall>xs. prefix xs ds \<longrightarrow> directory_at w (B @ xs)"
    and "opened lower w B ds entries t \<Longrightarrow> \<forall>xs. prefix xs ds \<longrightarrow> directory_at w (B @ xs)"
proof (induction rule: reached_opened.inducts)
  case (base t st)
  then show ?case using static_lstat [OF assms, of t] by (auto simp: directory_at_def)
next
  case (child ds entries t0 name t st)
  then have "w_lstat w 0 (abs_path (B @ ds @ [name])) = Inr st" using assms by (metis unchanging_def)
  then have "directory_at w (B @ ds @ [name])" using child by (auto simp: directory_at_def)
  then show ?case using child.IH by auto
qed

lemma chain_unchanging:
  assumes "unchanging w"
  shows "fst (assertAncestorChain w current segments t) = fst (assertAncestorChain w current segments t2)"
proof (induction segments arbitrary: current t t2)
  case (Cons s segments)
  have "w_lstat w t = w_lstat w t2" using assms by (metis unchanging_def)
  then show ?case using Cons.IH by (auto simp: Let_def split: sum.splits)
qed simp

lemma check_base_unchanging:
  assumes "unchanging w" and "check_base w p t = (Inr st, t')"
  shows "\<exists>t3. check_base w p t2 = (Inr st, t3)"
proof -
  obtain r1 u1 where c1: "assertAncestorChainNoSymlinks w p t = (r1, u1)" by fastforce
  obtain r2 u2 where c2: "assertAncestorChainNoSymlinks w p t2 = (r2, u2)" by fastforce
  have "r1 = r2" using c1 c2 chain_unchanging [OF assms(1)] unfolding assertAncestorChainNoSymlinks_def by (metis fst_conv)
  moreover have "w_lstat w u1 = w_lstat w u2" using assms(1) by (metis unchanging_def)
  ultimately show ?thesis using assms(2) c1 c2 by (auto simp: check_base_def split: sum.splits if_splits)
qed

definition seen_directory :: "world \<Rightarrow> ustr \<times> ustr \<times> stat \<Rightarrow> bool" where
  "seen_directory w = (\<lambda>(p, rel, st). w_lstat w 0 p = Inr st \<and> st_kind st = Dir_Kind)"

lemma intermediates_unchanging:
  assumes w: "unchanging w" and B: "\<forall>s \<in> set B. clean_seg s"
  shows "\<forall>s \<in> set xs. clean_seg s \<Longrightarrow> \<forall>s \<in> set ys. clean_seg s \<Longrightarrow>
    \<forall>zs. prefix zs ys \<longrightarrow> directory_at w (B @ xs @ zs) \<Longrightarrow>
    \<exists>seen t'. intermediates w (abs_path (B @ xs)) (join_on slash xs) ys acc t = (Inr (Inr (acc @ seen)), t') \<and>
      list_all (seen_directory w) seen"
proof (induction ys arbitrary: xs acc t)
  case (Cons s ys)
  have clean: "\<forall>s \<in> set (B @ xs). clean_seg s" "clean_seg s" using B Cons.prems by auto
  have place: "path_join [abs_path (B @ xs), s] = abs_path (B @ xs @ [s])"
    using path_join_child [OF clean] by simp
  have "directory_at w (B @ xs @ [s])" using Cons.prems(3) by auto
  then obtain st where st: "w_lstat w 0 (abs_path (B @ xs @ [s])) = Inr st" "st_kind st = Dir_Kind"
    by (auto simp: directory_at_def)
  then have now: "w_lstat w t (abs_path (B @ xs @ [s])) = Inr st" using static_lstat [OF w, of t "abs_path (B @ xs @ [s])"] by simp
  have "\<forall>zs. prefix zs ys \<longrightarrow> directory_at w (B @ (xs @ [s]) @ zs)"
  proof (intro allI impI)
    fix zs assume "prefix zs ys"
    then have "prefix (s # zs) (s # ys)" by simp
    then show "directory_at w (B @ (xs @ [s]) @ zs)" using Cons.prems(3) by fastforce
  qed
  then obtain seen t' where rest: "intermediates w (abs_path (B @ xs @ [s])) (join_on slash (xs @ [s])) ys
      (acc @ [(abs_path (B @ xs @ [s]), join_on slash (xs @ [s]), st)]) (Suc t) =
      (Inr (Inr (acc @ (abs_path (B @ xs @ [s]), join_on slash (xs @ [s]), st) # seen)), t')"
    "list_all (seen_directory w) seen"
    using Cons.IH [of "xs @ [s]" "acc @ [(abs_path (B @ xs @ [s]), join_on slash (xs @ [s]), st)]" "Suc t"]
      Cons.prems(1,2) by auto
  moreover have "posixJoin (join_on slash xs) s = join_on slash (xs @ [s])"
    using posixJoin_segs [OF Cons.prems(1)] .
  ultimately show ?case using st now place
    by (intro exI [of _ "(abs_path (B @ xs @ [s]), join_on slash (xs @ [s]), st) # seen"])
       (simp add: seen_directory_def Let_def)
qed simp

lemma check_again_unchanging:
  assumes "unchanging w"
  shows "list_all (seen_directory w) seen \<Longrightarrow> \<exists>t'. check_again w seen t = (Inr (Inr ()), t')"
proof (induction seen arbitrary: t)
  case (Cons x seen)
  obtain p rel st where x: "x = (p, rel, st)" by (cases x)
  then have "w_lstat w t p = Inr st" "st_kind st = Dir_Kind"
    using Cons.prems static_lstat [OF assms, of t p] by (auto simp: seen_directory_def)
  then show ?case using Cons by (simp add: x)
qed simp

text \<open>
  Property C22. While nobody changes the files, asking for a file that the walk listed, by the path
  it is listed under, gives the same entry, at any time, except when that path begins like one of
  Windows (such as \<^verbatim>\<open>c:/x\<close>): the walk lists it, and asking for it is refused.
\<close>

theorem listed_files_are_found:
  assumes w: "\<forall>t. w_lstat w t = w_lstat w 0 \<and> w_readdir w t = w_readdir w 0"
    and run: "safeWalk lower cwd w depth base t = Some (Inr res, t')" and f: "f \<in> set (wr_files res)"
  shows "fst (safeStatChild lower cwd w base (Some (fe_relPath f)) t2) =
    (if win32_isAbsolute (fe_relPath f) then Inl Invalid_Segment else Inr (Present f))"
proof -
  have static: "unchanging w" using w by (simp add: unchanging_def)
  obtain B where B: "path_resolve cwd [base] = abs_path B" "\<forall>s \<in> set B. clean_seg s"
    "abs_segs (path_resolve cwd [base]) = B" by (rule resolved_base)
  obtain ds entries name t0 t1 where op: "opened lower w B ds entries t0" and name: "listable lower name"
    and st: "w_lstat w t1 (abs_path (B @ ds @ [name])) = Inr (fe_stat f)" "st_kind (fe_stat f) = File_Kind"
    and rel: "fe_relPath f = join_on slash (ds @ [name])" and place: "fe_absPath f = abs_path (B @ ds @ [name])"
    using walk_lists_all [OF run f] B(3) by (auto simp: listed_def)
  have ds: "\<forall>s \<in> set ds. listable lower s" using reached_listable(2) [OF op] .
  have ss: "ds @ [name] \<noteq> []" "\<forall>s \<in> set (ds @ [name]). listable lower s" using ds name by auto
  have abs: "path_isAbsolute base" using run by (auto simp: safeWalk_def split: if_splits)
  show ?thesis
  proof (cases "win32_isAbsolute (fe_relPath f)")
    case True
    then have "normalizeRelPath lower (Some (fe_relPath f)) = Inl Invalid_Segment"
      using normalize_listable [OF ss] rel by simp
    then show ?thesis using abs True by (simp add: safeStatChild_def resolveSafeChildPath_def)
  next
    case drive: False
    have norm: "normalizeRelPath lower (Some (fe_relPath f)) = Inr (fe_relPath f)"
      using normalize_listable [OF ss] drive rel by simp
    have child: "resolveSafeChildPath lower cwd base (Some (fe_relPath f)) = Inr (fe_absPath f)"
      using abs norm resolve_child [OF B(2) ss(1) listable_clean [OF ss(2)]] equal_or_parent_below [OF B(2)]
      by (simp add: resolveSafeChildPath_def B(1) rel place)
    from run B(1) obtain st0 u where c: "check_base w (abs_path B) t = (Inr st0, u)" by (rule safeWalk_run)
    then obtain u2 where c2: "check_base w (abs_path B) t2 = (Inr st0, u2)"
      using check_base_unchanging [OF static] by blast
    have "split_on slash (fe_relPath f) = ds @ [name]"
      unfolding rel using ss by (intro split_join) (auto simp: listable_def clean_seg_def)
    moreover obtain seen u3 where i: "intermediates w (abs_path B) [] ds [] u2 = (Inr (Inr seen), u3)"
      and seen: "list_all (seen_directory w) seen"
      using intermediates_unchanging [OF static B(2), of "[]" ds "[]" u2] listable_clean [OF ds]
        reached_directories(2) [OF static op] by auto
    moreover obtain u4 where "check_again w seen u3 = (Inr (Inr ()), u4)"
      using check_again_unchanging [OF static seen] by blast
    moreover have "w_lstat w u4 (fe_absPath f) = Inr (fe_stat f)" using st(1) w place by metis
    then have "fst (stat_leaf w (fe_absPath f) (fe_relPath f) u4) = Inr (Present f)"
      using st(2) by (simp add: stat_leaf_def)
    ultimately show ?thesis
      by (simp add: safeStatChild_def child B(1) c2 norm drive)
  qed
qed

text \<open>A base with a file, a link and a directory that has a file.\<close>

definition example_stat :: "kind \<Rightarrow> nat \<Rightarrow> stat" where
  "example_stat k n = \<lparr> st_kind = k, st_size = 7, st_mtimeMs = 0, st_dev = 1, st_ino = n \<rparr>"

definition example_world :: world where
  "example_world =
     \<lparr> w_lstat = \<lambda>t p.
         if p = ascii ''/b'' then Inr (example_stat Dir_Kind 1)
         else if p = ascii ''/b/f'' then Inr (example_stat File_Kind 2)
         else if p = ascii ''/b/l'' then Inr (example_stat Link_Kind 3)
         else if 9 \<le> length p then Inl ''ENAMETOOLONG'' else Inl ''ENOENT'',
       w_readdir = \<lambda>t p. if p = ascii ''/b'' then Inr [ascii ''f'', ascii ''l''] else Inl ''ENOENT'' \<rparr>"

definition example_file :: file_entry where
  "example_file = \<lparr> fe_relPath = ascii ''f'', fe_absPath = ascii ''/b/f'', fe_stat = example_stat File_Kind 2 \<rparr>"

lemma example_visits:
  "visit_entry id example_world (ascii ''/b'') (ascii ''/b'') [] (ascii ''f'') t = (Take example_file, Suc t)"
  "visit_entry id example_world (ascii ''/b'') (ascii ''/b'') [] (ascii ''l'') t = (Refuse (ascii ''l'') Reason_Symlink, Suc t)"
  by (simp_all add: visit_entry_def validateRawSegmentName_def assertSafeSegment_def utf8_length_def utf8_encode_def
      encode_point_def is_high_def is_low_def MAX_SEGMENT_LENGTH_BYTES_def WINDOWS_RESERVED_def posixJoin_def
      isEqualOrParent_def example_world_def example_file_def example_stat_def ascii_simps path_eval back_slash_def)

lemma example_base: "check_base example_world (ascii ''/b'') 0 = (Inr (example_stat Dir_Kind 1), 2)"
  by (simp add: check_base_def assertAncestorChainNoSymlinks_def example_world_def example_stat_def ascii_simps path_eval)

lemma example_walk:
  "safeWalk id (ascii ''/'') example_world (Suc n) (ascii ''/b'') 0 =
   Some (Inr \<lparr> wr_files = [example_file], wr_refusals = [(ascii ''l'', Reason_Symlink)] \<rparr>, 6)"
proof -
  have base: "path_isAbsolute (ascii ''/b'')" "path_resolve (ascii ''/'') [ascii ''/b''] = ascii ''/b''"
    by (simp_all add: ascii_simps path_eval)
  have "read_directory example_world (ascii ''/b'') [] 1 1 \<lparr> wr_files = [], wr_refusals = [] \<rparr> 2 =
      (Inr (Inr [ascii ''f'', ascii ''l'']), 4)"
    by (simp add: read_directory_def example_world_def example_stat_def)
  moreover have "st_dev (example_stat Dir_Kind 1) = 1" "st_ino (example_stat Dir_Kind 1) = 1"
    by (simp_all add: example_stat_def)
  ultimately show ?thesis
    by (simp add: safeWalk_def base example_base example_visits take_file_def refuse_def Let_def)
qed

theorem walk_lists_only_what_it_reached_witness:
  "\<exists>ds entries name t0 t1. opened id example_world (abs_segs (path_resolve (ascii ''/'') [ascii ''/b''])) ds entries t0 \<and>
    name \<in> set entries \<and> listable id name \<and> t0 < t1 \<and>
    w_lstat example_world t1 (fe_absPath example_file) = Inr (fe_stat example_file) \<and>
    st_kind (fe_stat example_file) = File_Kind \<and> fe_relPath example_file = join_on slash (ds @ [name]) \<and>
    fe_absPath example_file = abs_path (abs_segs (path_resolve (ascii ''/'') [ascii ''/b'']) @ ds @ [name])"
  by (rule walk_lists_only_what_it_reached [OF example_walk [of 0]]) simp

theorem walk_always_ends_witness:
  "\<exists>r t'. safeWalk id (ascii ''/'') example_world (Suc 9) (ascii ''/b'') 0 = Some (r, t')"
  by (rule walk_always_ends) (auto simp: example_world_def ascii_simps)

theorem listed_files_are_found_witness:
  "fst (safeStatChild id (ascii ''/'') example_world (ascii ''/b'') (Some (fe_relPath example_file)) 100) = Inr (Present example_file)"
proof -
  have "\<forall>t. w_lstat example_world t = w_lstat example_world 0 \<and> w_readdir example_world t = w_readdir example_world 0"
    by (simp add: example_world_def)
  moreover have "\<not> win32_isAbsolute (fe_relPath example_file)"
    by (simp add: example_file_def win32_isAbsolute_def ascii_simps slash_def back_slash_def)
  ultimately show ?thesis
    using listed_files_are_found [OF _ example_walk [of 0], of example_file 100] by simp
qed

end
