(* ===== verification/Spec2Isabelle.thy ===== *)
theory Spec2Isabelle
  imports File_Lock Run_Scheduler Acceptance_Ledger Ack_Obligations Pending_Wakes Spend_Guard
    Scheduling_Policies Background_Work Local_Cron Request_Coalescer Store_Lock Local_Tool_Permission
    Media_Dimensions Agent_Worker_Pool Loop_Detector Group_Orchestrator Workspace_Jail Box_Shells Box_Streams Safe_Paths
begin

text \<open>
  \<^bold>\<open>The host of the agent application.\<close>

  The program keeps agents running on a machine of the user: a host process takes messages and
  routines, runs the turns of the agents one at a time, gives them tools, remembers what is still
  owed, and lets them work in a box, a process of its own with files and shells. This library
  models the parts of it that have rules of their own. Source paths below are relative to
  \<^verbatim>\<open>src/src\<close>.

  \<^bold>\<open>How the parts interact.\<close> A message of the user is accepted once (\<^verbatim>\<open>Acceptance_Ledger\<close>), becomes
  an obligation to answer (\<^verbatim>\<open>Ack_Obligations\<close>) and a task of the scheduler (\<^verbatim>\<open>Run_Scheduler\<close>); in a
  room several agents answer in rounds (\<^verbatim>\<open>Group_Chat\<close>, \<^verbatim>\<open>Group_Orchestrator\<close>). Entries of the
  transcript are named by \<^verbatim>\<open>Transcript_Ids\<close>. Routines are started by the clock (\<^verbatim>\<open>Cron_Schedule\<close> says
  when, \<^verbatim>\<open>Local_Cron\<close> does it) and held back by the spend guard (\<^verbatim>\<open>Spend_Guard\<close>). A turn is watched for
  loops (\<^verbatim>\<open>Loop_Detector\<close>), takes locks on files (\<^verbatim>\<open>File_Lock\<close>), asks before it touches the computer of
  the user (\<^verbatim>\<open>Local_Tool_Permission\<close>), leaves background work (\<^verbatim>\<open>Background_Work\<close>) and marks what to wait
  for over a restart (\<^verbatim>\<open>Pending_Wakes\<close>). Its files and shells are those of the box: the host wraps a
  shell into the jail of the agent (\<^verbatim>\<open>Workspace_Jail\<close>) and hands it to the daemon of the box
  (\<^verbatim>\<open>Box_Daemon\<close>, \<^verbatim>\<open>Box_Shells\<close>, \<^verbatim>\<open>Box_Streams\<close>); this theory states what the two guarantee together. The
  stores of the agents are kept by workers (\<^verbatim>\<open>Agent_Worker_Pool\<close>), guarded by a lock file
  (\<^verbatim>\<open>Store_Lock\<close>), walked for synchronisation (\<^verbatim>\<open>Safe_Paths\<close>) and sent in batches (\<^verbatim>\<open>Request_Coalescer\<close>).
  Timers everywhere follow the policies of \<^verbatim>\<open>Scheduling_Policies\<close>; pictures shown in the transcript are
  measured by \<^verbatim>\<open>Media_Dimensions\<close>.

  \<^bold>\<open>How the program is modelled.\<close> JavaScript runs one piece of code between two waits without
  interruption, so each such piece is one function on a state record, and the events of the event
  loop (a call, a timer, a settled promise, an answer of a process) are a datatype with a step
  function; a run is \<^term>\<open>foldl\<close> of the step over any list of events. What the code reads from outside
  (clock, random ids, whether a write succeeds, what a service answers) comes with the event or from
  an environment record. Callbacks the code makes are a log. Exceptions and rejections are values of
  a sum or option type. A \<^verbatim>\<open>Map\<close> is a list of pairs in the order of insertion; strings are lists of
  UTF-16 code units where characters matter (\<^verbatim>\<open>ustr\<close>), and opaque elsewhere; bit operators are
  on 32-bit words; other numbers are integers or rationals, exact where a float would round.

  \<^bold>\<open>Shared theories.\<close>
  \<^item> \<^verbatim>\<open>Js_Prelude\<close>: JSON values, \<^verbatim>\<open>Map\<close> and \<^verbatim>\<open>Set\<close>, and the interfaces of the library:
    \<^verbatim>\<open>keyed_store\<close> (a map of JavaScript), \<^verbatim>\<open>record_store\<close> (a file of records by key, with what it gives
    back after a restart; provided by the obligations and the wakes), \<^verbatim>\<open>invariant_machine\<close> and
    \<^verbatim>\<open>guarded_machine\<close> (an invariant kept by every step holds after every run; provided by nine
    components).
  \<^item> \<^verbatim>\<open>Js_Strings\<close>, \<^verbatim>\<open>Utf8\<close>: code units, trimming, white space, and the text of files.
  \<^item> \<^verbatim>\<open>Node_Paths\<close>, \<^verbatim>\<open>Posix_Files\<close>: \<^verbatim>\<open>node:path\<close> on POSIX as the code calls it, and a file system with
    directories, regular files and symbolic links. A walk follows at most forty links, as Linux does,
    and then fails with \<^verbatim>\<open>ELOOP\<close>, so the walk needs no other bound.

  \<^bold>\<open>Components, with what their lemmas show.\<close>
  \<^item> \<^verbatim>\<open>File_Lock\<close>, \<^verbatim>\<open>lib/agent/tools/core/file-operation-lock-manager.ts\<close>: the held files, the exclusive
    holder and the queue; mutual exclusion, service in order of arrival, no lost wakeup.
  \<^item> \<^verbatim>\<open>Run_Scheduler\<close>, \<^verbatim>\<open>host/extensions/transcript/run-scheduler.ts\<close>: \<^verbatim>\<open>RunQueue\<close> with its lanes,
    generations and watchdog; each task runs once, one run at a time, waiting work always has a pump.
  \<^item> \<^verbatim>\<open>Acceptance_Ledger\<close>, \<^verbatim>\<open>prompt-acceptance-ledger.ts\<close>: object and files; a send that was recorded
    and not cleared is never reported as unknown, through failed writes, restarts and evictions, as
    long as the files that are there can be read; a read that fails makes every send unknown.
  \<^item> \<^verbatim>\<open>Ack_Obligations\<close>, \<^verbatim>\<open>sand-ack-obligation-store.ts\<close> and \<^verbatim>\<open>ack-obligations.ts\<close>: at most three redrives,
    and an obligation only leaves answered, withdrawn or lost to a write.
  \<^item> \<^verbatim>\<open>Pending_Wakes\<close>, \<^verbatim>\<open>sand-pending-wake-store.ts\<close>, \<^verbatim>\<open>pending-wake-rearm.ts\<close> and a function of
    \<^verbatim>\<open>upgrade-recreate-resume.ts\<close>: a marked wake is in the file, being re-armed, or reported, unless
    its agent is cleared, a write follows a read that failed, or the process ends while it is being
    re-armed, when its marker is not in the file (\<^verbatim>\<open>process_end_loses_a_rearming_wake\<close>).
  \<^item> \<^verbatim>\<open>Spend_Guard\<close>, \<^verbatim>\<open>sand-automation-spend-guard.ts\<close> and \<^verbatim>\<open>automation-spend-guard-runtime.ts\<close>: no
    pause without a warning three days before, and resuming undoes the pause.
  \<^item> \<^verbatim>\<open>Scheduling_Policies\<close>, \<^verbatim>\<open>shared/scheduling.ts\<close>: the six policies over timers as due times.
  \<^item> \<^verbatim>\<open>Background_Work\<close>, \<^verbatim>\<open>lib/agent-exec/background-work-registry.ts\<close>: pending, in-flight and accepted
    wakeups; none is lost and none is taken twice while an id is used by one conversation.
  \<^item> \<^verbatim>\<open>Cron_Schedule\<close> and \<^verbatim>\<open>Local_Cron\<close>, \<^verbatim>\<open>shared/automation-schedule.ts\<close> and
    \<^verbatim>\<open>local-cron-scheduler.ts\<close>: parsing in range, the search that skips days equals the first matching
    minute, each occurrence fires once, and nothing due is missed by a
    tick whose schedules do not throw. The search has one unit
    of fuel more than the minutes of 366 days the code looks at; each iteration moves on by at least
    a minute, so it never runs out (\<^verbatim>\<open>next_run_ends\<close>).
  \<^item> \<^verbatim>\<open>Loop_Detector\<close>, \<^verbatim>\<open>lib/agent/loop-detection\<close>: the ring of lines and the search for periods; a
    loop that is reported is one.
  \<^item> \<^verbatim>\<open>Group_Chat\<close> and \<^verbatim>\<open>Group_Orchestrator\<close>, \<^verbatim>\<open>host/groups/group-chat.ts\<close> and
    \<^verbatim>\<open>group-chat-orchestrator.ts\<close>: the closed form of who answers; a room run ends within its caps on
    rounds and messages, which is the measure of its recursion.
  \<^item> \<^verbatim>\<open>Transcript_Ids\<close>, \<^verbatim>\<open>transcript-entry-ids.ts\<close>: distinct ids; the search has one unit of fuel more
    than there are entries, and one of that many names is free.
  \<^item> \<^verbatim>\<open>Request_Coalescer\<close>, \<^verbatim>\<open>host/extensions/box-store-sync/request-coalescer.ts\<close>: a refinement of a
    service that answers requests one by one, and the order of conflicting requests.
  \<^item> \<^verbatim>\<open>Store_Lock\<close>, \<^verbatim>\<open>lib/agent-store-sync/store-lock.ts\<close>: threads interleaved at every file operation; a
    young lock of a living owner is kept, a call ends after nine operations, and one race is shown.
  \<^item> \<^verbatim>\<open>Local_Tool_Permission\<close>, \<^verbatim>\<open>local-tool-permission-controller.ts\<close> and the files it uses: every permit
    was given, a refusal stands until its agent is forgotten or the permission goes from never to
    ask, each call is decided once.
  \<^item> \<^verbatim>\<open>Media_Dimensions\<close>, \<^verbatim>\<open>shared/media\<close>: sizes read from bytes; no byte past the end has a say.
  \<^item> \<^verbatim>\<open>Agent_Worker_Pool\<close>, \<^verbatim>\<open>host/agent-isolation/agent-worker-pool.ts\<close>: connections, requests and
    operations; an operation keeps its worker, and one that waits has a request that can be answered.
  \<^item> \<^verbatim>\<open>Safe_Paths\<close>, \<^verbatim>\<open>lib/agent-store-sync/safe-paths.ts\<close>: the answer to every call of the file system
    depends on its number, so the files may change at any time; a listed file was reached through
    directories that each were the one expected. The walk is given a depth; with names and paths
    bounded by \<open>L\<close>, the depth \<open>L + 1\<close> is enough, as each directory adds to the path.
  \<^item> \<^verbatim>\<open>Workspace_Jail\<close>, \<^verbatim>\<open>host/runner/agent-workspace-jail.ts\<close>, with the settings of
    \<^verbatim>\<open>host/agents/settings-file.ts\<close>: the directory of a jail, its profile, and the command line a shell
    reads back as the words that were meant.
  \<^item> \<^verbatim>\<open>Box_Daemon\<close>, \<^verbatim>\<open>Box_Shells\<close>, \<^verbatim>\<open>Box_Streams\<close>, \<^verbatim>\<open>box-exec-daemon/server.ts\<close>: reads and writes stay in the
    workspace and the terminals whatever links there are, text that was written is read back; the
    environment and the background shells with their files, and what their unhandled errors do to
    the daemon; foreground shells and their streams.

  \<^bold>\<open>Not modelled.\<close> Messages generated from protocol buffers (most of the lines of the repository),
  the clients of services (model providers, telemetry, experiments, the marketplace, MCP), what is
  built on native libraries (tree-sitter, SQLite), prompts and other texts for models, the user
  interface, and the wiring of the components in the host. Inside the components the wording of
  messages and log lines is left out, and so is the network of the box: the HTTP server that checks
  the bearer token and decodes the messages. Regular expressions are written out as predicates.
\<close>

subsection \<open>The jail and the box together\<close>

lemma virtual_root_path: "SAND_WORKSPACE_VIRTUAL_PREFIX @ s = workspace_path @ slash # s"
  by (simp add: SAND_WORKSPACE_VIRTUAL_PREFIX_def workspace_path_def ascii_simps slash_def)

text \<open>
  Property C5. A shell of a jailed agent starts where it may write: the command the daemon gets is
  read as the sandbox with the profile of this jail, the file of the profile permits writes below
  the directory that the daemon makes of the virtual root, and that directory lies in the workspace.
  The daemon, which keeps the real path of its workspace, must have been given the workspace of the
  host: either that path has no links, or it is linked to the same name below \<^verbatim>\<open>/private\<close>, as
  macOS does it, and does not lie there itself.
\<close>

theorem jailed_shell_starts_where_it_may_write:
  assumes jail: "resolveAgentWorkspaceJail beyond deps agentId = Inr (Some cfg)"
    and dm: "daemon_ok dm"
    and same: "root_place dm = abs_segs (path_resolve (d_cwd deps) [d_boxWorkspaceRoot deps]) \<or>
      root_place dm = ascii ''private'' # abs_segs (path_resolve (d_cwd deps) [d_boxWorkspaceRoot deps]) \<and>
      \<not> starts_with (ascii ''/private/'') (j_hostRoot cfg)"
    and jailed: "jailShellArgs cwd tmp (Some cfg) args store1 = (store2, args')"
  shows "\<exists>p pre roots post.
    resolvePath dm (sa_workingDirectory args') = Inr p \<and> below (root_place dm) (abs_segs p) \<and>
    sh_words Blank (sa_command args') = Some (jail_words (j_profilePath cfg) (sa_command args)) \<and>
    p_content store2 (j_profilePath cfg) =
      Some (pre @ newline # ascii ''(allow file-write*'' @ newline # join_on newline roots @ newline # post) \<and>
    subpath_line p \<in> set roots \<and> set roots \<subseteq> range subpath_line"
proof -
  define rs where "rs = abs_segs (path_resolve (d_cwd deps) [d_boxWorkspaceRoot deps])"
  obtain slug where slug: "clean_seg slug" "\<not> starts_with up slug"
    and cfg: "j_virtualRoot cfg = SAND_WORKSPACE_VIRTUAL_PREFIX @ slug" "j_hostRoot cfg = abs_path (rs @ [slug])"
    using jail_directory [OF jail] by (auto simp: rs_def)
  define p where "p = abs_path (root_place dm @ [slug])"
  have names: "names (root_place dm)" using dm by (simp add: daemon_ok_def)
  have s: "slug \<noteq> []" "slash \<notin> set slug" using slug(1) by (simp_all add: clean_seg_def)
  then have "\<not> path_isAbsolute slug" by (metis list.set_sel(1) path_isAbsolute_def)
  moreover have "foldl (push_seg False) (root_place dm) (split_on slash slug) = root_place dm @ [slug]"
    using slug(1) s by (simp add: split_on_absent)
  moreover have "sa_workingDirectory args' = j_virtualRoot cfg"
    using jailed by (auto simp: jailShellArgs_def applyWorkspaceJailToShellArgs_def split: prod.splits)
  ultimately have starts: "resolvePath dm (sa_workingDirectory args') = Inr p"
    using paths_are_walked_from_the_workspace_fact [OF dm s(1)] slug(2) cfg(1)
    by (simp add: virtual_root_path first_name_dotted_def p_def)
  have "names (root_place dm @ [slug])" using names slug(1) by simp
  then have inside: "below (root_place dm) (abs_segs p)" using abs_segs_names by (simp add: p_def)
  have "names rs" using same names by (auto simp: rs_def [symmetric] names_def)
  then have resolved: "path_resolve cwd [j_hostRoot cfg] = j_hostRoot cfg"
    using slug(1) by (simp add: cfg(2) names_def)
  have "root_place dm = rs \<Longrightarrow> p = j_hostRoot cfg" by (simp add: p_def cfg(2))
  moreover have "root_place dm = ascii ''private'' # rs \<Longrightarrow> p = private_prefix @ j_hostRoot cfg"
    by (simp add: p_def cfg(2) abs_path_def join_on_Cons private_prefix_def ascii_simps slash_def)
  ultimately have line: "subpath_line p \<in> set (root_lines cwd (j_hostRoot cfg))"
    using same unfolding root_lines_iff writable_form_def resolved rs_def [symmetric] by blast
  have "set (root_lines cwd (j_hostRoot cfg)) \<subseteq> range subpath_line" by (auto simp: root_lines_def Let_def)
  moreover have "sh_words Blank (sa_command args') = Some (jail_words (j_profilePath cfg) (sa_command args))"
    "p_content store2 (j_profilePath cfg) = Some (buildWorkspaceSeatbeltProfile cwd cfg tmp)"
    using jailed by (auto simp: jailShellArgs_def applyWorkspaceJailToShellArgs_def
        ensureWorkspaceSeatbeltProfile_def command_stays_in_its_quotes split: if_splits)
  ultimately show ?thesis
    using starts inside line profile_begins_with_the_root [of cwd cfg tmp] by metis
qed

definition example_shell :: shell_args where
  "example_shell = \<lparr> sa_command = ascii ''ls'', sa_workingDirectory = ascii ''/workspace'' \<rparr>"

definition jailed_box :: daemon where
  "jailed_box = \<lparr> dm_cwd = ascii ''/'', dm_workspaceRoot = ascii ''/private/s/w'', dm_terminalsDirectory = ascii ''/t'' \<rparr>"

definition cut_jail :: jail where
  "cut_jail =
     \<lparr> j_agentId = ascii ''a-1'', j_virtualRoot = ascii ''/workspace/cut'', j_hostRoot = ascii ''/s/w/cut'',
       j_profilePath = ascii ''/j/a-1.sb'', j_allowPaths = [ascii ''/o/b''] \<rparr>"

theorem jailed_shell_starts_where_it_may_write_witness:
  "\<exists>prof. p_content (fst (jailShellArgs [] [] (Some cut_jail) example_shell \<lparr> p_content = \<lambda>_. None, p_writes = 0 \<rparr>))
      (ascii ''/j/a-1.sb'') = Some prof \<and>
     resolvePath jailed_box (ascii ''/workspace/cut'') = Inr (ascii ''/private/s/w/cut'')"
proof -
  have place: "root_place jailed_box = [ascii ''private'', ascii ''s'', ascii ''w'']"
    by (simp add: root_place_def jailed_box_def abs_segs_def ascii_simps slash_def)
  have dm: "daemon_ok jailed_box"
    by (simp add: daemon_ok_def root_place_def terminals_place_def jailed_box_def path_eval ascii_simps
        names_def clean_seg_def abs_path_def)
  have "path_resolve (d_cwd example_deps) [d_boxWorkspaceRoot example_deps] = ascii ''/s/w''"
    using example_steps(2) by (simp add: example_deps_def)
  then have same: "root_place jailed_box = abs_segs (path_resolve (d_cwd example_deps) [d_boxWorkspaceRoot example_deps]) \<or>
      root_place jailed_box = ascii ''private'' # abs_segs (path_resolve (d_cwd example_deps) [d_boxWorkspaceRoot example_deps]) \<and>
      \<not> starts_with (ascii ''/private/'') (j_hostRoot cut_jail)"
    using place by (simp add: abs_segs_def cut_jail_def ascii_simps slash_def starts_with_def)
  let ?run = "jailShellArgs [] [] (Some cut_jail) example_shell \<lparr> p_content = \<lambda>_. None, p_writes = 0 \<rparr>"
  have jail: "resolveAgentWorkspaceJail (\<lambda>_. False) example_deps (ascii ''a-1'') = Inr (Some cut_jail)"
    unfolding cut_jail_def by (rule example_jail)
  obtain p prof where p: "resolvePath jailed_box (sa_workingDirectory (snd ?run)) = Inr p"
      "p_content (fst ?run) (j_profilePath cut_jail) = Some prof"
    using jailed_shell_starts_where_it_may_write [OF jail dm same prod.collapse [symmetric], of "[]" "[]" example_shell
        "\<lparr> p_content = \<lambda>_. None, p_writes = 0 \<rparr>"] by blast
  moreover have "j_profilePath cut_jail = ascii ''/j/a-1.sb''" by (simp add: cut_jail_def)
  ultimately have p: "p_content (fst ?run) (ascii ''/j/a-1.sb'') = Some prof" by simp
  have "resolvePath jailed_box (ascii ''cut'') = Inr (ascii ''/private/s/w/cut'')"
    using paths_are_walked_from_the_workspace_fact [OF dm, of "ascii ''cut''"] place
    by (simp add: path_eval ascii_simps below_def first_name_dotted_def abs_path_def path_isAbsolute_def)
  moreover have "resolvePath jailed_box (ascii ''/workspace/cut'') = resolvePath jailed_box (ascii ''cut'')"
    using paths_are_walked_from_the_workspace_fact [OF dm, of "ascii ''cut''"]
    by (simp add: workspace_path_def path_isAbsolute_def slash_def ascii_simps)
  ultimately show ?thesis using p by auto
qed

end
